(* ===== verification/Prelude.thy ===== *)
theory Prelude imports Complex_Main "HOL-Library.AList" "HOL-Library.Monad_Syntax" begin

text \<open>
  What the components share: the exceptions the Python code raises, dictionaries as ordered
  association lists (\<^theory_text>\<open>AList.update\<close> keeps the position of an existing key and
  appends a new one, as a Python \<^verbatim>\<open>dict\<close> does), Python's \<^verbatim>\<open>round\<close>, string helpers and the
  lemma collections the component proofs use. Floats are exact rationals (\<^typ>\<open>rat\<close>):
  IEEE rounding is not modelled.
\<close>

section \<open>Exceptions\<close>

datatype py_exc =
    ValueError string
  | KeyError string
  | IndexError
  | OverflowError
  | TypeError
  | AttributeError
  | ZeroDivisionError
  | RuntimeError string
  | FileNotFoundError string
  | HTTPException nat string

type_synonym 'a result = "py_exc + 'a"

fun res_bind :: "'a result \<Rightarrow> ('a \<Rightarrow> 'b result) \<Rightarrow> 'b result" where
  "res_bind (Inl e) f = Inl e"
| "res_bind (Inr x) f = f x"

lemma res_bind_Inr_iff [simp]:
  "res_bind r f = Inr y \<longleftrightarrow> (\<exists>x. r = Inr x \<and> f x = Inr y)"
  by (cases r) auto

lemma res_bind_assoc: "res_bind (res_bind r f) g = res_bind r (\<lambda>x. res_bind (f x) g)"
  by (cases r) auto

text \<open>A loop that appends one result per element and stops at the first exception.\<close>

fun res_map :: "('a \<Rightarrow> 'b result) \<Rightarrow> 'a list \<Rightarrow> 'b list result" where
  "res_map f [] = Inr []"
| "res_map f (x # xs) = res_bind (f x) (\<lambda>y. res_bind (res_map f xs) (\<lambda>ys. Inr (y # ys)))"

lemma res_map_Inr_iff: "res_map f xs = Inr ys \<longleftrightarrow> list_all2 (\<lambda>x y. f x = Inr y) xs ys"
proof (induction xs arbitrary: ys)
  case Nil then show ?case by (auto intro: list_all2_Nil)
next
  case (Cons x xs) then show ?case by (cases ys) auto
qed

lemma res_map_nth:
  assumes "res_map f xs = Inr ys"
  shows "length ys = length xs" "\<And>i. i < length xs \<Longrightarrow> f (xs ! i) = Inr (ys ! i)"
  using assms by (auto simp: res_map_Inr_iff list_all2_conv_all_nth)

lemma res_map_total: "(\<And>x. x \<in> set xs \<Longrightarrow> \<exists>y. f x = Inr y) \<Longrightarrow> \<exists>ys. res_map f xs = Inr ys"
  by (induction xs) force+

section \<open>Dictionaries\<close>

type_synonym ('k, 'v) dict = "('k \<times> 'v) list"

abbreviation dict_ok :: "('k, 'v) dict \<Rightarrow> bool" where
  "dict_ok d \<equiv> distinct (map fst d)"

definition dsum :: "('v \<Rightarrow> 'n::comm_monoid_add) \<Rightarrow> ('k, 'v) dict \<Rightarrow> 'n" where
  "dsum f d = sum_list (map (\<lambda>p. f (snd p)) d)"

lemma dsum_simps [simp]: "dsum f [] = 0" "dsum f (p # d) = f (snd p) + dsum f d"
  by (simp_all add: dsum_def)

lemma dsum_update_new:
  "map_of d k = None \<Longrightarrow> dsum f (AList.update k v d) = dsum f d + f v"
  by (induction d) (auto simp: ac_simps split: if_splits)

lemma dsum_update_old:
  "map_of d k = Some w \<Longrightarrow> dsum f (AList.update k v d) + f w = dsum f d + f v"
  by (induction d) (auto simp: ac_simps split: if_splits)

lemma dict_ok_update [simp]: "dict_ok d \<Longrightarrow> dict_ok (AList.update k v d)"
  by (rule distinct_update)

lemma dict_ok_delete [simp]: "dict_ok d \<Longrightarrow> dict_ok (AList.delete k d)"
  by (rule distinct_delete)

lemma map_of_update [simp]: "map_of (AList.update k v d) = (map_of d)(k \<mapsto> v)"
  by (rule update_conv')

lemma map_of_delete [simp]: "map_of (AList.delete k d) = (map_of d)(k := None)"
  by (rule delete_conv')

lemma set_update_subset: "set (AList.update k v d) \<subseteq> insert (k, v) (set d)"
  by (induction d) auto

lemma set_delete_subset: "set (AList.delete k d) \<subseteq> set d"
  by (auto simp: AList.delete_eq)

lemma dict_get_in: "map_of d k = Some v \<Longrightarrow> (k, v) \<in> set d"
  by (rule map_of_SomeD)

lemma dict_in_get: "dict_ok d \<Longrightarrow> (k, v) \<in> set d \<Longrightarrow> map_of d k = Some v"
  by simp

lemma length_update_new: "map_of d k = None \<Longrightarrow> length (AList.update k v d) = Suc (length d)"
  by (induction d) (auto split: if_splits)

lemma length_update_old: "map_of d k = Some w \<Longrightarrow> length (AList.update k v d) = length d"
  by (induction d) (auto split: if_splits)

section \<open>Numbers\<close>

text \<open>Python's \<^verbatim>\<open>round\<close> to an integer: half-way cases go to the even neighbour.\<close>

definition py_round :: "'a::floor_ceiling \<Rightarrow> int" where
  "py_round x = (let f = \<lfloor>x\<rfloor>; d = x - of_int f in
     if d < 1/2 then f else if d > 1/2 then f + 1 else if even f then f else f + 1)"

text \<open>\<^verbatim>\<open>round(x, n)\<close>.\<close>

definition round_to :: "nat \<Rightarrow> rat \<Rightarrow> rat" where
  "round_to n x = of_int (py_round (x * 10 ^ n)) / 10 ^ n"

lemma py_round_of_int [simp]: "py_round (of_int n) = n"
  by (simp add: py_round_def)

lemma py_round_ge: "of_int n \<le> x \<Longrightarrow> n \<le> py_round x"
  unfolding py_round_def Let_def by (auto simp: le_floor_iff [symmetric])

lemma py_round_le: assumes "x \<le> of_int n" shows "py_round x \<le> n"
proof -
  have f: "of_int \<lfloor>x\<rfloor> \<le> x" "x < of_int \<lfloor>x\<rfloor> + 1" by linarith+
  show ?thesis
  proof (cases "\<lfloor>x\<rfloor> < n")
    case True then show ?thesis unfolding py_round_def Let_def by auto
  next
    case False
    then have "x = of_int \<lfloor>x\<rfloor>" using f assms by (meson not_less of_int_le_iff order.antisym order_trans)
    then have "py_round x = \<lfloor>x\<rfloor>" by (metis py_round_of_int)
    with assms show ?thesis by (metis floor_mono floor_of_int)
  qed
qed

lemma py_round_near: "\<bar>of_int (py_round x) - x\<bar> \<le> 1/2"
proof -
  have "of_int \<lfloor>x\<rfloor> \<le> x" "x < of_int \<lfloor>x\<rfloor> + 1" by linarith+
  then show ?thesis unfolding py_round_def Let_def by (auto simp: abs_le_iff algebra_simps)
qed

section \<open>Strings\<close>

definition starts_with :: "string \<Rightarrow> string \<Rightarrow> bool" where
  "starts_with p s \<longleftrightarrow> take (length p) s = p"

lemma starts_with_append [simp]: "starts_with p (p @ s)"
  by (simp add: starts_with_def)

text \<open>\<^verbatim>\<open>s.rstrip(c)\<close> for one character.\<close>

definition rstrip_char :: "char \<Rightarrow> string \<Rightarrow> string" where
  "rstrip_char c s = rev (dropWhile (\<lambda>x. x = c) (rev s))"

text \<open>\<^verbatim>\<open>sep.join(parts)\<close>.\<close>

fun join_with :: "string \<Rightarrow> string list \<Rightarrow> string" where
  "join_with sep [] = []"
| "join_with sep [x] = x"
| "join_with sep (x # y # ys) = x @ sep @ join_with sep (y # ys)"

text \<open>A separator that does not occur in the left parts makes concatenation injective.\<close>

lemma sep_inj:
  assumes "c \<notin> set a" "c \<notin> set b" "a @ c # x = b @ c # y"
  shows "a = b \<and> x = y"
  using assms
proof (induction a arbitrary: b)
  case Nil then show ?case by (cases b) auto
next
  case (Cons h t) then show ?case by (cases b) auto
qed

section \<open>Lists\<close>

lemma sum_list_filter_split:
  fixes f :: "'a \<Rightarrow> 'n::comm_monoid_add"
  shows "sum_list (map f (filter P xs)) + sum_list (map f (filter (\<lambda>x. \<not> P x) xs)) = sum_list (map f xs)"
  by (induction xs) (auto simp: ac_simps)

text \<open>The merge loop of sorted ranges and similar folds count lengths by \<open>sum_list\<close>.\<close>

lemma sum_list_take_le: "sum_list (take n xs) \<le> sum_list (xs :: nat list)"
  by (metis append_take_drop_id le_add1 sum_list_append)

end
