(* ===== verification/Accounts.thy ===== *)
theory Accounts imports Prelude begin

text \<open>
  The control plane's schema, key material and account lifecycle: \<^verbatim>\<open>models.py\<close>, \<^verbatim>\<open>keys.py\<close>
  and \<^verbatim>\<open>accounts.py\<close> under \<^verbatim>\<open>src/dexa_platform/control/\<close>. A database is one list of rows per
  table, in insertion order; an insert checks the primary key and the unique constraints of the
  schema and fails with an integrity error, which rolls the transaction back (the database before
  it stays). Random tokens, the clock and the digest \<open>H\<close> (SHA-256) are arguments.
\<close>

section \<open>Schema\<close>

record org =
  o_id :: string
  o_name :: string
  o_mode :: string
  o_backend_url :: string
  o_backend_model :: string
  o_default_baseline :: string
  o_cache_enabled :: bool
  o_created_at :: rat

record user =
  u_id :: string
  u_org_id :: string
  u_provider :: string
  u_subject :: string
  u_email :: string
  u_created_at :: rat

record api_key =
  k_id :: string
  k_org_id :: string
  k_name :: string
  k_prefix :: string
  k_hash :: string
  k_scopes :: string
  k_created_at :: rat
  k_last_used_at :: "rat option"
  k_revoked_at :: "rat option"

definition active :: "api_key \<Rightarrow> bool" where
  "active k \<longleftrightarrow> k_revoked_at k = None"

record usage_daily =
  ud_id :: string
  ud_org_id :: string
  ud_key_id :: string
  ud_day :: string
  ud_requests :: nat
  ud_cache_hits :: nat
  ud_dexa_usd :: rat
  ud_baseline_usd :: rat
  ud_saved_usd :: rat
  ud_dexa_image_tokens :: int
  ud_baseline_image_tokens :: int
  ud_redundant_sum :: rat
  ud_redundant_n :: nat

record credit =
  cr_id :: string
  cr_org_id :: string
  cr_delta_usd :: rat
  cr_reason :: string
  cr_created_at :: rat

record database =
  orgs :: "org list"
  users :: "user list"
  api_keys :: "api_key list"
  usage_rows :: "usage_daily list"
  credits :: "credit list"

definition empty_db :: database where
  "empty_db = \<lparr>orgs = [], users = [], api_keys = [], usage_rows = [], credits = []\<rparr>"

definition integrity_error :: py_exc where
  "integrity_error = RuntimeError ''IntegrityError''"

definition id_of :: "string \<Rightarrow> string \<Rightarrow> string" where
  "id_of prefix tok = prefix @ ''_'' @ tok"

definition add_org :: "org \<Rightarrow> database \<Rightarrow> database result" where
  "add_org r db = (if o_id r \<in> o_id ` set (orgs db) then Inl integrity_error else Inr (db\<lparr>orgs := orgs db @ [r]\<rparr>))"

definition add_user :: "user \<Rightarrow> database \<Rightarrow> database result" where
  "add_user r db =
     (if u_id r \<in> u_id ` set (users db)
         \<or> (u_provider r, u_subject r) \<in> (\<lambda>u. (u_provider u, u_subject u)) ` set (users db)
      then Inl integrity_error else Inr (db\<lparr>users := users db @ [r]\<rparr>))"

definition add_key :: "api_key \<Rightarrow> database \<Rightarrow> database result" where
  "add_key r db =
     (if k_id r \<in> k_id ` set (api_keys db) \<or> k_hash r \<in> k_hash ` set (api_keys db)
      then Inl integrity_error else Inr (db\<lparr>api_keys := api_keys db @ [r]\<rparr>))"

definition add_usage :: "usage_daily \<Rightarrow> database \<Rightarrow> database result" where
  "add_usage r db =
     (if ud_id r \<in> ud_id ` set (usage_rows db)
         \<or> (ud_key_id r, ud_day r) \<in> (\<lambda>u. (ud_key_id u, ud_day u)) ` set (usage_rows db)
      then Inl integrity_error else Inr (db\<lparr>usage_rows := usage_rows db @ [r]\<rparr>))"

definition add_credit :: "credit \<Rightarrow> database \<Rightarrow> database result" where
  "add_credit r db = (if cr_id r \<in> cr_id ` set (credits db) then Inl integrity_error else Inr (db\<lparr>credits := credits db @ [r]\<rparr>))"

text \<open>\<^verbatim>\<open>scalar_one_or_none()\<close>.\<close>

fun scalar_one_or_none :: "'a list \<Rightarrow> 'a option result" where
  "scalar_one_or_none [] = Inr None"
| "scalar_one_or_none [x] = Inr (Some x)"
| "scalar_one_or_none (x # y # zs) = Inl (RuntimeError ''MultipleResultsFound'')"

text \<open>\<^verbatim>\<open>session.get(ApiKey, key_id)\<close> and the write-back of a changed row.\<close>

definition get_key :: "database \<Rightarrow> string \<Rightarrow> api_key option" where
  "get_key db kid = List.find (\<lambda>k. k_id k = kid) (api_keys db)"

definition update_key :: "string \<Rightarrow> (api_key \<Rightarrow> api_key) \<Rightarrow> database \<Rightarrow> database" where
  "update_key kid f db = db\<lparr>api_keys := map (\<lambda>k. if k_id k = kid then f k else k) (api_keys db)\<rparr>"

section \<open>Key material\<close>

definition PREFIX_VISIBLE :: nat where "PREFIX_VISIBLE = 14"

definition generate_secret :: "string \<Rightarrow> string \<Rightarrow> string result" where
  "generate_secret env tok =
     (if env \<noteq> ''live'' \<and> env \<noteq> ''test'' then Inl (ValueError ''env must be live or test'')
      else Inr (''dexa_'' @ env @ ''_'' @ tok))"

definition visible_prefix :: "string \<Rightarrow> string" where
  "visible_prefix secret = take PREFIX_VISIBLE secret"

definition looks_like_key :: "string option \<Rightarrow> bool" where
  "looks_like_key s = (case s of None \<Rightarrow> False
     | Some x \<Rightarrow> x \<noteq> '''' \<and> (starts_with ''dexa_live_'' x \<or> starts_with ''dexa_test_'' x))"

section \<open>Accounts\<close>

definition FREE_CREDIT_USD :: rat where "FREE_CREDIT_USD = 5"

record new_key =
  nk_record :: api_key
  nk_secret :: string

text \<open>The random material of one call: the ids and the secret it may generate.\<close>

record entropy =
  tok_org :: string
  tok_credit :: string
  tok_user :: string
  tok_key :: string
  tok_secret :: string

definition mint_key ::
    "(string \<Rightarrow> string) \<Rightarrow> entropy \<Rightarrow> rat \<Rightarrow> string \<Rightarrow> string \<Rightarrow> string \<Rightarrow> database \<Rightarrow> (new_key \<times> database) result" where
  "mint_key H rnd now org_id name env db =
     res_bind (generate_secret env (tok_secret rnd)) (\<lambda>secret.
       let rec = \<lparr>k_id = id_of ''key'' (tok_key rnd), k_org_id = org_id, k_name = name,
                  k_prefix = visible_prefix secret, k_hash = H secret, k_scopes = ''inference'',
                  k_created_at = now, k_last_used_at = None, k_revoked_at = None\<rparr>
       in res_bind (add_key rec db) (\<lambda>db'. Inr (\<lparr>nk_record = rec, nk_secret = secret\<rparr>, db')))"

definition org_display_name :: "string \<Rightarrow> string \<Rightarrow> string" where
  "org_display_name org_name email =
     (if org_name \<noteq> '''' then org_name
      else if email \<noteq> '''' then takeWhile (\<lambda>c. c \<noteq> CHR ''@'') email else ''workspace'')"

definition signup_oauth ::
    "(string \<Rightarrow> string) \<Rightarrow> entropy \<Rightarrow> rat \<Rightarrow> string \<Rightarrow> string \<Rightarrow> string \<Rightarrow> string \<Rightarrow> database
     \<Rightarrow> (user \<times> new_key option \<times> database) result" where
  "signup_oauth H rnd now provider subject email org_name db =
     res_bind (scalar_one_or_none (filter (\<lambda>u. u_provider u = provider \<and> u_subject u = subject) (users db)))
       (\<lambda>existing. case existing of
          Some u \<Rightarrow> Inr (u, None, db)
        | None \<Rightarrow>
            (let o1 = \<lparr>o_id = id_of ''org'' (tok_org rnd), o_name = org_display_name org_name email,
                       o_mode = ''hosted'', o_backend_url = '''', o_backend_model = ''dexa-cua-vlm'',
                       o_default_baseline = ''gpt-4o'', o_cache_enabled = True, o_created_at = now\<rparr>;
                 c1 = \<lparr>cr_id = id_of ''cr'' (tok_credit rnd), cr_org_id = o_id o1, cr_delta_usd = FREE_CREDIT_USD,
                       cr_reason = ''signup_grant'', cr_created_at = now\<rparr>;
                 u1 = \<lparr>u_id = id_of ''user'' (tok_user rnd), u_org_id = o_id o1, u_provider = provider,
                       u_subject = subject, u_email = email, u_created_at = now\<rparr>
             in res_bind (add_org o1 db) (\<lambda>db1.
                res_bind (add_credit c1 db1) (\<lambda>db2.
                res_bind (add_user u1 db2) (\<lambda>db3.
                res_bind (mint_key H rnd now (o_id o1) ''default'' ''live'' db3) (\<lambda>(nk, db4).
                  Inr (u1, Some nk, db4)))))))"

definition create_key ::
    "(string \<Rightarrow> string) \<Rightarrow> entropy \<Rightarrow> rat \<Rightarrow> string \<Rightarrow> string \<Rightarrow> string \<Rightarrow> database \<Rightarrow> (new_key \<times> database) result" where
  "create_key H rnd now org_id name env db = mint_key H rnd now org_id name env db"

definition list_keys :: "string \<Rightarrow> database \<Rightarrow> api_key list" where
  "list_keys org_id db = sort_key k_created_at (filter (\<lambda>k. k_org_id k = org_id) (api_keys db))"

definition revoke_key :: "rat \<Rightarrow> string \<Rightarrow> string \<Rightarrow> database \<Rightarrow> bool \<times> database" where
  "revoke_key now org_id key_id db =
     (case get_key db key_id of
        None \<Rightarrow> (False, db)
      | Some rec \<Rightarrow>
          if k_org_id rec \<noteq> org_id \<or> k_revoked_at rec \<noteq> None then (False, db)
          else (True, update_key key_id (\<lambda>k. k\<lparr>k_revoked_at := Some now\<rparr>) db))"

definition rotate_key ::
    "(string \<Rightarrow> string) \<Rightarrow> entropy \<Rightarrow> rat \<Rightarrow> string \<Rightarrow> string \<Rightarrow> database \<Rightarrow> (new_key option \<times> database) result" where
  "rotate_key H rnd now org_id key_id db =
     (case get_key db key_id of
        None \<Rightarrow> Inr (None, db)
      | Some rec \<Rightarrow>
          if k_org_id rec \<noteq> org_id then Inr (None, db)
          else res_bind (mint_key H rnd now org_id (k_name rec) ''live''
                           (update_key key_id (\<lambda>k. k\<lparr>k_revoked_at := Some now\<rparr>) db))
                 (\<lambda>(nk, db'). Inr (Some nk, db')))"

definition get_org :: "database \<Rightarrow> string \<Rightarrow> org option" where
  "get_org db oid = List.find (\<lambda>r. o_id r = oid) (orgs db)"

section \<open>Invariant\<close>

definition db_ok :: "database \<Rightarrow> bool" where
  "db_ok db \<longleftrightarrow> distinct (map o_id (orgs db)) \<and> distinct (map u_id (users db))
     \<and> distinct (map (\<lambda>u. (u_provider u, u_subject u)) (users db))
     \<and> distinct (map k_id (api_keys db)) \<and> distinct (map k_hash (api_keys db))
     \<and> distinct (map (\<lambda>u. (ud_key_id u, ud_day u)) (usage_rows db)) \<and> distinct (map ud_id (usage_rows db))
     \<and> (\<forall>u\<in>set (users db). u_org_id u \<in> o_id ` set (orgs db))
     \<and> (\<forall>k\<in>set (api_keys db). k_org_id k \<in> o_id ` set (orgs db))"

lemma empty_db_ok: "db_ok empty_db"
  by (simp add: db_ok_def empty_db_def)

lemma scalar_filter_cases:
  "scalar_one_or_none xs = Inr None \<longleftrightarrow> xs = []" "scalar_one_or_none xs = Inr (Some x) \<longleftrightarrow> xs = [x]"
  by (cases xs rule: scalar_one_or_none.cases; simp)+

lemma distinct_filter_one:
  "distinct (map f xs) \<Longrightarrow> x \<in> set xs \<Longrightarrow> filter (\<lambda>y. f y = f x) xs = [x]"
proof (induction xs)
  case (Cons y ys)
  show ?case
  proof (cases "y = x")
    case True
    then have "f x \<notin> f ` set ys" using Cons.prems by simp
    then have "filter (\<lambda>z. f z = f x) ys = []" by (metis (mono_tags, lifting) filter_False imageI)
    then show ?thesis using True by simp
  next
    case False
    then have "x \<in> set ys" using Cons.prems by simp
    moreover from this have "f y \<noteq> f x" using Cons.prems by (metis distinct.simps(2) imageI list.simps(9) set_map)
    ultimately show ?thesis using Cons by simp
  qed
qed simp

lemma find_unique:
  assumes "distinct (map f xs)" "x \<in> set xs" shows "List.find (\<lambda>y. f y = f x) xs = Some x"
  using assms
proof (induction xs)
  case (Cons y ys)
  then show ?case by (cases "y = x") (auto simp: rev_image_eqI)
qed simp

lemma find_in: "List.find P xs = Some x \<Longrightarrow> x \<in> set xs \<and> P x"
  by (induction xs) (auto split: if_splits)

lemma update_key_ok:
  assumes "db_ok db" "\<And>k. k_id (f k) = k_id k" "\<And>k. k_hash (f k) = k_hash k" "\<And>k. k_org_id (f k) = k_org_id k"
  shows "db_ok (update_key kid f db)"
proof -
  have "map k_id (api_keys (update_key kid f db)) = map k_id (api_keys db)"
    "map k_hash (api_keys (update_key kid f db)) = map k_hash (api_keys db)"
    "\<forall>k\<in>set (api_keys (update_key kid f db)). k_org_id k \<in> o_id ` set (orgs db)"
    using assms by (auto simp: update_key_def db_ok_def)
  moreover have "orgs (update_key kid f db) = orgs db" "users (update_key kid f db) = users db"
    "usage_rows (update_key kid f db) = usage_rows db" by (simp_all add: update_key_def)
  ultimately show ?thesis using assms(1) unfolding db_ok_def by metis
qed

lemma mint_key_ok:
  assumes "db_ok db" "mint_key H rnd now oid nm env db = Inr (nk, db')" "oid \<in> o_id ` set (orgs db)"
  shows "db_ok db' \<and> api_keys db' = api_keys db @ [nk_record nk] \<and> k_hash (nk_record nk) \<notin> k_hash ` set (api_keys db) \<and> k_id (nk_record nk) \<notin> k_id ` set (api_keys db)
    \<and> k_org_id (nk_record nk) = oid \<and> k_hash (nk_record nk) = H (nk_secret nk) \<and> active (nk_record nk)
    \<and> k_name (nk_record nk) = nm
    \<and> orgs db' = orgs db \<and> users db' = users db \<and> usage_rows db' = usage_rows db \<and> credits db' = credits db"
  using assms by (auto simp: mint_key_def add_key_def db_ok_def active_def Let_def split: if_splits)

lemma signup_ok:
  assumes "db_ok db" "signup_oauth H rnd now p s em nm db = Inr (u, nk, db')"
  shows "db_ok db' \<and> u \<in> set (users db') \<and> u_provider u = p \<and> u_subject u = s
    \<and> (case nk of None \<Rightarrow> db' = db
       | Some k \<Rightarrow> api_keys db' = api_keys db @ [nk_record k] \<and> k_org_id (nk_record k) = u_org_id u
           \<and> k_hash (nk_record k) = H (nk_secret k) \<and> active (nk_record k)
           \<and> u_org_id u \<notin> o_id ` set (orgs db) \<and> usage_rows db' = usage_rows db
           \<and> (\<exists>c. credits db' = credits db @ [c] \<and> cr_org_id c = u_org_id u \<and> cr_delta_usd c = FREE_CREDIT_USD))"
proof (cases "filter (\<lambda>u. u_provider u = p \<and> u_subject u = s) (users db)")
  case Nil
  then obtain db1 db2 db3 k where
      1: "add_org \<lparr>o_id = id_of ''org'' (tok_org rnd), o_name = org_display_name nm em,
            o_mode = ''hosted'', o_backend_url = '''', o_backend_model = ''dexa-cua-vlm'',
            o_default_baseline = ''gpt-4o'', o_cache_enabled = True, o_created_at = now\<rparr> db = Inr db1" and
      2: "add_credit \<lparr>cr_id = id_of ''cr'' (tok_credit rnd), cr_org_id = id_of ''org'' (tok_org rnd),
            cr_delta_usd = FREE_CREDIT_USD, cr_reason = ''signup_grant'', cr_created_at = now\<rparr> db1 = Inr db2" and
      3: "add_user u db2 = Inr db3" and
      u: "u = \<lparr>u_id = id_of ''user'' (tok_user rnd), u_org_id = id_of ''org'' (tok_org rnd), u_provider = p,
            u_subject = s, u_email = em, u_created_at = now\<rparr>" and
      4: "mint_key H rnd now (id_of ''org'' (tok_org rnd)) ''default'' ''live'' db3 = Inr (k, db')" "nk = Some k"
    using assms(2) by (auto simp: signup_oauth_def Let_def scalar_filter_cases)
  have db3: "db_ok db3" "id_of ''org'' (tok_org rnd) \<in> o_id ` set (orgs db3)" "u \<in> set (users db3)"
    "api_keys db3 = api_keys db" "usage_rows db3 = usage_rows db" "id_of ''org'' (tok_org rnd) \<notin> o_id ` set (orgs db)"
    "\<exists>c. credits db3 = credits db @ [c] \<and> cr_org_id c = id_of ''org'' (tok_org rnd) \<and> cr_delta_usd c = FREE_CREDIT_USD"
    using assms(1) 1 2 3 u by (auto simp: add_org_def add_credit_def add_user_def db_ok_def split: if_splits)
  show ?thesis using mint_key_ok [OF db3(1) 4(1) db3(2)] db3 4(2) by (simp add: u)
next
  case (Cons v vs)
  have "v \<in> set (filter (\<lambda>u. u_provider u = p \<and> u_subject u = s) (users db))" using Cons by simp
  then have v: "v \<in> set (users db)" "u_provider v = p" "u_subject v = s" by auto
  have "vs = []" "u = v" "nk = None" "db' = db"
    using assms(2) Cons by (auto simp: signup_oauth_def split: list.splits elim: scalar_one_or_none.elims)
  then show ?thesis using assms(1) v by simp
qed

lemma rotate_ok:
  assumes "db_ok db" "rotate_key H rnd now oid kid db = Inr (nk, db')"
  shows "db_ok db'"
proof -
  have u: "db_ok (update_key kid (\<lambda>k. k\<lparr>k_revoked_at := Some now\<rparr>) db)"
    by (rule update_key_ok) (simp_all add: assms(1))
  have og: "orgs (update_key kid f db) = orgs db" for f by (simp add: update_key_def)
  show ?thesis
  proof (cases "get_key db kid")
    case None then show ?thesis using assms by (simp add: rotate_key_def)
  next
    case (Some r)
    then have "k_org_id r \<in> o_id ` set (orgs db)"
      using assms(1) by (auto simp: get_key_def db_ok_def dest!: find_in)
    with Some u mint_key_ok [OF u] og show ?thesis using assms
      by (auto simp: rotate_key_def split: if_splits)
  qed
qed

lemma revoke_ok: "db_ok db \<Longrightarrow> db_ok (snd (revoke_key now oid kid db))"
  by (auto simp: revoke_key_def intro!: update_key_ok split: option.splits)

section \<open>Keys that authenticate\<close>

text \<open>The key a presented digest selects, as every authentication path queries it; it is usable
  while it is not revoked.\<close>

definition key_by_hash :: "database \<Rightarrow> string \<Rightarrow> api_key option result" where
  "key_by_hash db h = scalar_one_or_none (filter (\<lambda>k. k_hash k = h) (api_keys db))"

definition usable :: "database \<Rightarrow> string \<Rightarrow> bool" where
  "usable db h \<longleftrightarrow> (\<exists>k\<in>set (api_keys db). k_hash k = h \<and> active k)"

lemma key_by_hash_total:
  assumes "db_ok db"
  shows "key_by_hash db h = Inr (List.find (\<lambda>k. k_hash k = h) (api_keys db))"
proof (cases "List.find (\<lambda>k. k_hash k = h) (api_keys db)")
  case None
  then have "filter (\<lambda>k. k_hash k = h) (api_keys db) = []" by (auto simp: find_None_iff filter_empty_conv)
  then show ?thesis using None by (simp add: key_by_hash_def)
next
  case (Some k)
  then have k: "k \<in> set (api_keys db)" "k_hash k = h" by (auto dest: find_in)
  have "filter (\<lambda>y. k_hash y = k_hash k) (api_keys db) = [k]"
    by (rule distinct_filter_one) (use assms k in \<open>simp_all add: db_ok_def\<close>)
  then show ?thesis using Some k by (simp add: key_by_hash_def)
qed

lemma usable_update:
  assumes "\<And>k. k_hash (f k) = k_hash k" "\<And>k. active (f k) \<Longrightarrow> active k" "usable (update_key kid f db) h"
  shows "usable db h"
proof -
  obtain k where k: "k \<in> set (api_keys db)" "k_hash (if k_id k = kid then f k else k) = h"
      "active (if k_id k = kid then f k else k)"
    using assms(3) by (auto simp: usable_def update_key_def)
  then have "k_hash k = h" "active k" using assms(1,2) by (auto split: if_splits)
  with k(1) show ?thesis by (auto simp: usable_def)
qed

text \<open>A digest that is known but unusable stays so under every operation: a new key never takes
  the digest of an old one.\<close>

definition revoked :: "database \<Rightarrow> string \<Rightarrow> bool" where
  "revoked db h \<longleftrightarrow> h \<in> k_hash ` set (api_keys db) \<and> \<not> usable db h"

lemma revoked_append:
  assumes "revoked db h" "api_keys db' = api_keys db @ [k]" "k_hash k \<notin> k_hash ` set (api_keys db)"
  shows "revoked db' h"
  using assms by (auto simp: revoked_def usable_def)

lemma revoked_update:
  assumes "revoked db h" "\<And>k. k_hash (f k) = k_hash k" "\<And>k. active (f k) \<Longrightarrow> active k"
  shows "revoked (update_key kid f db) h"
proof -
  obtain k where "k \<in> set (api_keys db)" "k_hash k = h" using assms(1) by (auto simp: revoked_def)
  then have "(if k_id k = kid then f k else k) \<in> set (api_keys (update_key kid f db))"
    "k_hash (if k_id k = kid then f k else k) = h" by (auto simp: update_key_def assms(2))
  then have "h \<in> k_hash ` set (api_keys (update_key kid f db))" by blast
  with usable_update [of f kid db h] assms show ?thesis by (auto simp: revoked_def)
qed

lemma mint_revoked:
  assumes "db_ok db" "mint_key H rnd now oid nm env db = Inr (nk, db')" "revoked db h"
  shows "revoked db' h"
proof -
  have "api_keys db' = api_keys db @ [nk_record nk]" "k_hash (nk_record nk) \<notin> k_hash ` set (api_keys db)"
    using assms(2) by (auto simp: mint_key_def add_key_def Let_def split: if_splits)
  then show ?thesis by (rule revoked_append [OF assms(3)])
qed

lemma signup_revoked:
  assumes "db_ok db" "signup_oauth H rnd now p s em nm db = Inr (u, nk, db')" "revoked db h"
  shows "revoked db' h"
proof (cases nk)
  case None then show ?thesis using signup_ok [OF assms(1,2)] assms(3) by simp
next
  case (Some k)
  then have a: "api_keys db' = api_keys db @ [nk_record k]" "db_ok db'" using signup_ok [OF assms(1,2)] by simp_all
  then have "k_hash (nk_record k) \<notin> k_hash ` set (api_keys db)" by (auto simp: db_ok_def)
  with a(1) show ?thesis by (rule revoked_append [OF assms(3)])
qed

lemma rotate_revoked:
  assumes "db_ok db" "rotate_key H rnd now oid kid db = Inr (nk, db')" "revoked db h"
  shows "revoked db' h"
proof -
  let ?d = "update_key kid (\<lambda>k. k\<lparr>k_revoked_at := Some now\<rparr>) db"
  have "db_ok ?d" by (rule update_key_ok) (simp_all add: assms(1))
  moreover have "revoked ?d h" by (rule revoked_update [OF assms(3)]) (simp_all add: active_def)
  ultimately show ?thesis using assms mint_revoked
    by (auto simp: rotate_key_def split: option.splits if_splits)
qed

lemma revoke_revoked: "revoked db h \<Longrightarrow> revoked (snd (revoke_key now oid kid db)) h"
  by (auto simp: revoke_key_def active_def intro!: revoked_update split: option.splits)

section \<open>Properties\<close>

text \<open>Sign-up is get-or-create: a first sign-up creates the identity's user in a fresh
  organisation with one credit grant of the free amount and one active key that stores only the
  digest of the secret shown, and every repeated sign-up of the identity returns that user, no
  key, and leaves the database as it is.\<close>

theorem signup_idempotent:
  assumes "db_ok db" "signup_oauth H rnd now p s em nm db = Inr (u, Some nk, db')"
  shows "signup_oauth H rnd2 now2 p s em2 nm2 db' = Inr (u, None, db')
    \<and> db_ok db' \<and> u_org_id u \<notin> o_id ` set (orgs db)
    \<and> api_keys db' = api_keys db @ [nk_record nk] \<and> k_org_id (nk_record nk) = u_org_id u
    \<and> k_hash (nk_record nk) = H (nk_secret nk) \<and> active (nk_record nk)
    \<and> (\<exists>c. credits db' = credits db @ [c] \<and> cr_org_id c = u_org_id u \<and> cr_delta_usd c = FREE_CREDIT_USD)"
proof -
  have ok: "db_ok db'" "u \<in> set (users db')" "u_provider u = p" "u_subject u = s"
    using signup_ok [OF assms] by simp_all
  have "filter (\<lambda>v. (u_provider v, u_subject v) = (u_provider u, u_subject u)) (users db') = [u]"
    by (rule distinct_filter_one) (use ok in \<open>simp_all add: db_ok_def\<close>)
  then have "filter (\<lambda>v. u_provider v = p \<and> u_subject v = s) (users db') = [u]" using ok by simp
  then have "signup_oauth H rnd2 now2 p s em2 nm2 db' = Inr (u, None, db')" by (simp add: signup_oauth_def)
  with signup_ok [OF assms] show ?thesis by simp
qed

definition demo_rnd :: "string \<Rightarrow> entropy" where
  "demo_rnd t = \<lparr>tok_org = t, tok_credit = t, tok_user = t, tok_key = t, tok_secret = t\<rparr>"

lemmas accounts_eval = signup_oauth_def mint_key_def add_org_def add_user_def add_key_def add_credit_def
  generate_secret_def visible_prefix_def PREFIX_VISIBLE_def org_display_name_def id_of_def demo_rnd_def empty_db_def

definition demo_user :: user where
  "demo_user = \<lparr>u_id = ''user_1'', u_org_id = ''org_1'', u_provider = ''github'', u_subject = ''u'',
     u_email = ''dev@acme.co'', u_created_at = 0\<rparr>"

definition demo_key :: api_key where
  "demo_key = \<lparr>k_id = ''key_1'', k_org_id = ''org_1'', k_name = ''default'', k_prefix = ''dexa_live_1'',
     k_hash = ''dexa_live_1'', k_scopes = ''inference'', k_created_at = 0, k_last_used_at = None, k_revoked_at = None\<rparr>"

definition demo_db :: database where
  "demo_db = \<lparr>orgs = [\<lparr>o_id = ''org_1'', o_name = ''dev'', o_mode = ''hosted'', o_backend_url = '''',
       o_backend_model = ''dexa-cua-vlm'', o_default_baseline = ''gpt-4o'', o_cache_enabled = True, o_created_at = 0\<rparr>],
     users = [demo_user], api_keys = [demo_key], usage_rows = [],
     credits = [\<lparr>cr_id = ''cr_1'', cr_org_id = ''org_1'', cr_delta_usd = 5, cr_reason = ''signup_grant'', cr_created_at = 0\<rparr>]\<rparr>"

lemma demo_signup_run:
  "signup_oauth id (demo_rnd ''1'') 0 ''github'' ''u'' ''dev@acme.co'' '''' empty_db
   = Inr (demo_user, Some \<lparr>nk_record = demo_key, nk_secret = ''dexa_live_1''\<rparr>, demo_db)"
  by (simp add: accounts_eval demo_user_def demo_key_def demo_db_def Let_def FREE_CREDIT_USD_def)

theorem signup_idempotent_witness:
  "signup_oauth id (demo_rnd ''2'') 9 ''github'' ''u'' ''other@acme.co'' '''' demo_db = Inr (demo_user, None, demo_db)
   \<and> db_ok demo_db \<and> api_keys demo_db = [demo_key]"
  using signup_idempotent [OF empty_db_ok demo_signup_run, of "demo_rnd ''2''" 9 "''other@acme.co''" "''''"]
  by (simp add: empty_db_def)

text \<open>Rotating a key does not check that it is still active, as revoking does: once a key is
  revoked, revoking it again is refused, but rotating it still mints an active replacement whose
  secret authenticates.\<close>

theorem rotate_revives_revoked:
  "(let db = snd (revoke_key 1 ''org_1'' ''key_1'' demo_db) in
    fst (revoke_key 1 ''org_1'' ''key_1'' demo_db) \<and> \<not> usable db ''dexa_live_1''
    \<and> \<not> fst (revoke_key 2 ''org_1'' ''key_1'' db)
    \<and> (case rotate_key id (demo_rnd ''7'') 2 ''org_1'' ''key_1'' db of
         Inr (Some nk, db') \<Rightarrow> nk_secret nk = ''dexa_live_7'' \<and> usable db' ''dexa_live_7''
       | _ \<Rightarrow> False))"
  by (simp add: Let_def revoke_key_def rotate_key_def get_key_def update_key_def accounts_eval demo_db_def
    demo_key_def usable_def active_def)

end
