(* ===== verification/Pricing.thy ===== *)
theory Pricing imports Prelude begin

text \<open>
  Cost accounting, \<^verbatim>\<open>src/dexa_platform/gateway/pricing.py\<close>: the image-token formulas of the
  providers, the price table, the cost of a request and the savings reported against a baseline
  model. Dollars are exact rationals; the branches that take a square root compute in \<^typ>\<open>real\<close>.
\<close>

section \<open>Price table\<close>

definition PRICES :: "(string, rat \<times> rat) dict" where
  "PRICES = [(''gpt-4o'', (250/100, 1000/100)), (''gpt-4o-mini'', (15/100, 60/100)),
             (''claude-3-5-sonnet'', (300/100, 1500/100)), (''dexa-cua-vlm'', (20/100, 20/100))]"

datatype scheme = Openai | Openai_mini | Anthropic | Qwen

definition SCHEME :: "(string, scheme) dict" where
  "SCHEME = [(''gpt-4o'', Openai), (''gpt-4o-mini'', Openai_mini),
             (''claude-3-5-sonnet'', Anthropic), (''dexa-cua-vlm'', Qwen)]"

section \<open>Image tokens\<close>

definition qwen_vision_tokens :: "int \<Rightarrow> int \<Rightarrow> int \<Rightarrow> int \<Rightarrow> int \<Rightarrow> int \<Rightarrow> int" where
  "qwen_vision_tokens w h max_pixels min_pixels patch merge =
     (let factor = patch * merge in
      if w \<le> 0 \<or> h \<le> 0 then 0
      else
        let hb = max factor (py_round (of_int h / of_int factor :: rat) * factor);
            wb = max factor (py_round (of_int w / of_int factor :: rat) * factor);
            (hb', wb') =
              (if hb * wb > max_pixels then
                 let s = sqrt (of_int (h * w) / of_int max_pixels)
                 in (max factor (\<lfloor>of_int h / s / of_int factor\<rfloor> * factor),
                     max factor (\<lfloor>of_int w / s / of_int factor\<rfloor> * factor))
               else if hb * wb < min_pixels then
                 let s = sqrt (of_int min_pixels / of_int (h * w))
                 in (\<lceil>of_int h * s / of_int factor\<rceil> * factor, \<lceil>of_int w * s / of_int factor\<rceil> * factor)
               else (hb, wb))
        in (hb' div factor) * (wb' div factor))"

text \<open>The defaults of the Python signature.\<close>

abbreviation qwen_default :: "int \<Rightarrow> int \<Rightarrow> int" where
  "qwen_default w h \<equiv> qwen_vision_tokens w h 1048576 3136 28 2"

definition openai_tiles :: "int \<Rightarrow> int \<Rightarrow> int" where
  "openai_tiles w0 h0 =
     (let (w1, h1) = (if max w0 h0 > 2048
                      then let s = 2048 / of_int (max w0 h0) :: rat in (py_round (of_int w0 * s), py_round (of_int h0 * s))
                      else (w0, h0));
          (w2, h2) = (if min w1 h1 > 768
                      then let s = 768 / of_int (min w1 h1) :: rat in (py_round (of_int w1 * s), py_round (of_int h1 * s))
                      else (w1, h1))
      in \<lceil>of_int w2 / 512 :: rat\<rceil> * \<lceil>of_int h2 / 512 :: rat\<rceil>)"

definition openai_image_tokens :: "int \<Rightarrow> int \<Rightarrow> bool \<Rightarrow> int" where
  "openai_image_tokens w h mini =
     (let tiles = openai_tiles w h in if mini then 2833 + 5667 * tiles else 85 + 170 * tiles)"

definition anthropic_image_tokens :: "int \<Rightarrow> int \<Rightarrow> int" where
  "anthropic_image_tokens w0 h0 =
     (let (w, h) = (if w0 * h0 > 1150000
                    then let s = sqrt (1150000 / of_int (w0 * h0))
                         in (py_round (of_int w0 * s), py_round (of_int h0 * s))
                    else (w0, h0))
      in \<lceil>of_int (w * h) / 750 :: rat\<rceil>)"

definition image_tokens :: "string \<Rightarrow> int \<Rightarrow> int \<Rightarrow> int result" where
  "image_tokens model w h =
     (case map_of SCHEME model of
        None \<Rightarrow> Inl (KeyError model)
      | Some Qwen \<Rightarrow> Inr (qwen_default w h)
      | Some Openai \<Rightarrow> Inr (openai_image_tokens w h False)
      | Some Openai_mini \<Rightarrow> Inr (openai_image_tokens w h True)
      | Some Anthropic \<Rightarrow> Inr (anthropic_image_tokens w h))"

section \<open>Request cost\<close>

record cost =
  c_model :: string
  c_image_tokens :: int
  c_text_in_tokens :: int
  c_out_tokens :: int
  c_usd :: rat

definition in_tokens :: "cost \<Rightarrow> int" where
  "in_tokens c = c_image_tokens c + c_text_in_tokens c"

fun sum_image_tokens :: "string \<Rightarrow> (int \<times> int) list \<Rightarrow> int result" where
  "sum_image_tokens model [] = Inr 0"
| "sum_image_tokens model ((w, h) # ims) =
     res_bind (image_tokens model w h) (\<lambda>n. res_bind (sum_image_tokens model ims) (\<lambda>m. Inr (n + m)))"

definition request_cost :: "string \<Rightarrow> (int \<times> int) list \<Rightarrow> int \<Rightarrow> int \<Rightarrow> cost result" where
  "request_cost model images text_in out =
     res_bind (sum_image_tokens model images) (\<lambda>img_tok.
       case map_of PRICES model of
         None \<Rightarrow> Inl (KeyError model)
       | Some (pin, pout) \<Rightarrow>
           Inr \<lparr>c_model = model, c_image_tokens = img_tok, c_text_in_tokens = text_in, c_out_tokens = out,
                c_usd = of_int (img_tok + text_in) / 1000000 * pin + of_int out / 1000000 * pout\<rparr>)"

text \<open>\<^verbatim>\<open>float("inf")\<close> is \<^const>\<open>None\<close> in \<^verbatim>\<open>x_cheaper\<close>.\<close>

record savings =
  ours :: cost
  baseline :: cost
  saved_usd :: rat
  saved_pct :: rat
  x_cheaper :: "rat option"

definition compare_models :: "(int \<times> int) list \<Rightarrow> int \<Rightarrow> int \<Rightarrow> string \<Rightarrow> string \<Rightarrow> savings result" where
  "compare_models images text_in out baseline_model our_model =
     res_bind (request_cost our_model images text_in out) (\<lambda>o1.
     res_bind (request_cost baseline_model images text_in out) (\<lambda>b1.
       let saved = c_usd b1 - c_usd o1
       in Inr \<lparr>ours = o1, baseline = b1, saved_usd = saved,
               saved_pct = (if c_usd b1 > 0 then saved / c_usd b1 * 100 else 0),
               x_cheaper = (if c_usd o1 > 0 then Some (c_usd b1 / c_usd o1) else None)\<rparr>))"

record savings_view =
  v_dexa_cost :: rat
  v_baseline_model :: string
  v_baseline_cost :: rat
  v_saved_usd :: rat
  v_saved_pct :: rat
  v_x_cheaper :: "rat option"
  v_dexa_image_tokens :: int
  v_baseline_image_tokens :: int

definition as_dict :: "savings \<Rightarrow> savings_view" where
  "as_dict s = \<lparr>v_dexa_cost = round_to 8 (c_usd (ours s)), v_baseline_model = c_model (baseline s),
     v_baseline_cost = round_to 8 (c_usd (baseline s)), v_saved_usd = round_to 8 (saved_usd s),
     v_saved_pct = round_to 2 (saved_pct s), v_x_cheaper = map_option (round_to 2) (x_cheaper s),
     v_dexa_image_tokens = c_image_tokens (ours s), v_baseline_image_tokens = c_image_tokens (baseline s)\<rparr>"


section \<open>The Qwen pixel budget\<close>

text \<open>The down-scaling branch: flooring both sides of the rescaled image to the grid stays within
  the budget.\<close>

lemma floor_grid_budget:
  fixes h w M f :: int
  assumes "0 < h" "0 < w" "0 < M" "0 < f"
  defines "s \<equiv> sqrt (of_int (h * w) / of_int M) :: real"
  shows "(\<lfloor>of_int h / s / of_int f\<rfloor> * f) * (\<lfloor>of_int w / s / of_int f\<rfloor> * f) \<le> M"
proof -
  let ?a = "\<lfloor>of_int h / s / of_int f\<rfloor>" and ?b = "\<lfloor>of_int w / s / of_int f\<rfloor>"
  have s: "0 < s" "s * s = of_int (h * w) / of_int M"
    using assms by (simp_all add: s_def zero_less_mult_iff real_sqrt_mult_self)
  have ab: "0 \<le> ?a" "0 \<le> ?b" using assms s by simp_all
  have "of_int ?a * of_int f \<le> of_int h / s" "of_int ?b * of_int f \<le> of_int w / s"
    using assms(4) by (simp_all add: pos_le_divide_eq [symmetric])
  then have "(of_int ?a * of_int f) * (of_int ?b * of_int f) \<le> (of_int h / s) * (of_int w / s)"
    by (rule mult_mono) (use ab assms s in simp_all)
  also have "\<dots> = of_int M"
  proof -
    have "(of_int h / s) * (of_int w / s) = of_int (h * w) / (s * s)" by simp
    also have "\<dots> = of_int M" unfolding s(2) using assms by simp
    finally show ?thesis .
  qed
  finally have "real_of_int ((?a * f) * (?b * f)) \<le> real_of_int M" by simp
  then show ?thesis by linarith
qed

text \<open>A side keeps at least one block exactly when the aspect ratio allows it.\<close>

lemma floor_grid_pos:
  fixes h w M f :: int
  assumes "0 < h" "0 < w" "0 < M" "0 < f"
  defines "s \<equiv> sqrt (of_int (h * w) / of_int M) :: real"
  shows "1 \<le> \<lfloor>of_int h / s / of_int f\<rfloor> \<longleftrightarrow> f * f * w \<le> h * M"
proof -
  have s: "0 < s" using assms by (simp add: s_def zero_less_mult_iff)
  have "1 \<le> \<lfloor>of_int h / s / of_int f\<rfloor> \<longleftrightarrow> s \<le> of_int h / of_int f"
    using s assms(4) by (simp add: le_floor_iff field_simps)
  also have "\<dots> \<longleftrightarrow> of_int (h * w) / of_int M \<le> (of_int h / of_int f :: real)\<^sup>2"
  proof -
    have "0 \<le> real_of_int h / of_int f" using assms by simp
    then have "sqrt ((real_of_int h / of_int f)\<^sup>2) = of_int h / of_int f" using assms by simp
    then show ?thesis unfolding s_def by (metis (no_types) real_sqrt_le_iff)
  qed
  also have "\<dots> \<longleftrightarrow> real_of_int (f * f * w * h) \<le> real_of_int (h * M * h)"
    using assms by (simp add: power2_eq_square field_simps)
  also have "\<dots> \<longleftrightarrow> f * f * w * h \<le> h * M * h" by (rule of_int_le_iff)
  also have "\<dots> \<longleftrightarrow> f * f * w \<le> h * M" using assms(1) by (rule mult_le_cancel_right_pos)
  finally show ?thesis .
qed

lemma qwen_grid_round:
  assumes "0 < f"
  shows "\<exists>a b. 1 \<le> a \<and> 1 \<le> b \<and> max f (py_round (x :: rat) * f) = a * f \<and> max f (py_round (y :: rat) * f) = b * f"
proof -
  have m: "max f (n * f) = max 1 n * f" for n using assms by (auto simp: max_def)
  then show ?thesis by (intro exI [of _ "max 1 (py_round x)"] exI [of _ "max 1 (py_round y)"]) auto
qed

lemma grid_div: "0 < f \<Longrightarrow> max f (n * f) div f = max 1 (n :: int)"
  by (auto simp: max_def)

lemma qwen_budget:
  assumes wh: "0 < w" "0 < h" and f: "f = patch * merge" "0 < f"
    and lo: "min_pixels \<le> f * f" and M: "0 < max_pixels"
    and asp: "f * f * w \<le> h * max_pixels" "f * f * h \<le> w * max_pixels"
  shows "1 \<le> qwen_vision_tokens w h max_pixels min_pixels patch merge
    \<and> qwen_vision_tokens w h max_pixels min_pixels patch merge * (f * f) \<le> max_pixels"
proof -
  obtain a b where ab: "1 \<le> a" "1 \<le> b"
      "max f (py_round (of_int h / of_int f :: rat) * f) = a * f" "max f (py_round (of_int w / of_int f :: rat) * f) = b * f"
    using qwen_grid_round [OF f(2), of "of_int h / of_int f" "of_int w / of_int f"] by blast
  show ?thesis
  proof (cases "a * f * (b * f) > max_pixels")
    case True
    let ?s = "sqrt (of_int (h * w) / of_int max_pixels)"
    let ?c = "\<lfloor>of_int h / ?s / of_int f\<rfloor>" and ?d = "\<lfloor>of_int w / ?s / of_int f\<rfloor>"
    have c: "1 \<le> ?c" using floor_grid_pos [OF wh(2,1) M f(2)] asp by blast
    have d: "1 \<le> ?d" using floor_grid_pos [OF wh M f(2)] asp by (simp add: mult.commute [of w h])
    have q: "qwen_vision_tokens w h max_pixels min_pixels patch merge = ?c * ?d"
      using wh True f(2) c d unfolding qwen_vision_tokens_def f(1) [symmetric] Let_def ab(3,4)
      by (simp add: grid_div max_def)
    have "?c * f * (?d * f) \<le> max_pixels" by (rule floor_grid_budget [OF wh(2,1) M f(2)])
    moreover have "1 \<le> ?c * ?d" using c d mult_mono [of 1 ?c 1 ?d] by simp
    ultimately show ?thesis unfolding q by (simp add: algebra_simps)
  next
    case False
    have "f * f \<le> a * f * (b * f)"
      by (rule mult_mono) (use ab(1,2) f(2) in \<open>simp_all add: mult_le_cancel_right1\<close>)
    then have "\<not> a * f * (b * f) < min_pixels" using lo by linarith
    then have q: "qwen_vision_tokens w h max_pixels min_pixels patch merge = a * b"
      using wh False f(2) unfolding qwen_vision_tokens_def f(1) [symmetric] Let_def ab(3,4) by simp
    have "1 \<le> a * b" using ab(1,2) mult_mono [of 1 a 1 b] by simp
    then show ?thesis using False unfolding q by (simp add: algebra_simps)
  qed
qed

text \<open>An image whose sides are within a factor \<open>1048576 / 3136\<close> (about 334) of each other.\<close>

definition moderate_aspect :: "int \<times> int \<Rightarrow> bool" where
  "moderate_aspect d = (case d of (w, h) \<Rightarrow> 0 < w \<and> 0 < h \<and> 3136 * w \<le> 1048576 * h \<and> 3136 * h \<le> 1048576 * w)"

lemma qwen_default_bounds:
  assumes "moderate_aspect (w, h)" shows "1 \<le> qwen_default w h" "qwen_default w h \<le> 334"
  using qwen_budget [of w h 56 28 2 3136 1048576] assms by (auto simp: moderate_aspect_def)

section \<open>Sums and savings\<close>

lemma rescale_nonneg:
  assumes "0 \<le> n" "0 \<le> c" "0 \<le> m" shows "0 \<le> py_round (of_int n * (c / of_int m) :: rat)"
  by (rule py_round_ge) (use assms in simp)

lemma ceil_div_nonneg: "0 \<le> n \<Longrightarrow> 0 \<le> \<lceil>of_int n / 512 :: rat\<rceil>"
proof -
  assume "0 \<le> n"
  then have "0 \<le> (of_int n / 512 :: rat)" by simp
  then show ?thesis by linarith
qed

lemma openai_tiles_nonneg:
  assumes "0 \<le> w" "0 \<le> h" shows "0 \<le> openai_tiles w h"
proof -
  obtain w1 h1 where 1: "(w1, h1) = (if max w h > 2048
      then (py_round (of_int w * (2048 / of_int (max w h) :: rat)), py_round (of_int h * (2048 / of_int (max w h) :: rat))) else (w, h))"
    by (metis surj_pair)
  have p1: "0 \<le> w1" "0 \<le> h1" using 1 assms rescale_nonneg [of w 2048 "max w h"] rescale_nonneg [of h 2048 "max w h"]
    by (simp_all split: if_splits)
  obtain w2 h2 where 2: "(w2, h2) = (if min w1 h1 > 768
      then (py_round (of_int w1 * (768 / of_int (min w1 h1) :: rat)), py_round (of_int h1 * (768 / of_int (min w1 h1) :: rat))) else (w1, h1))"
    by (metis surj_pair)
  have p2: "0 \<le> w2" "0 \<le> h2"
    using 2 p1 rescale_nonneg [of w1 768 "min w1 h1"] rescale_nonneg [of h1 768 "min w1 h1"]
    by (simp_all split: if_splits)
  show ?thesis unfolding openai_tiles_def Let_def 1 [symmetric] prod.case 2 [symmetric]
    by (intro mult_nonneg_nonneg ceil_div_nonneg p2)
qed

lemma sum_qwen:
  assumes "list_all moderate_aspect ims"
  shows "\<exists>n. sum_image_tokens ''dexa-cua-vlm'' ims = Inr n \<and> int (length ims) \<le> n \<and> n \<le> 334 * int (length ims)"
  using assms
proof (induction ims)
  case (Cons d ims)
  obtain w h where d: "d = (w, h)" by (cases d)
  from Cons obtain n where "sum_image_tokens ''dexa-cua-vlm'' ims = Inr n" "int (length ims) \<le> n" "n \<le> 334 * int (length ims)"
    by auto
  then show ?case using qwen_default_bounds [of w h] Cons.prems by (simp add: d image_tokens_def SCHEME_def)
qed simp

lemma sum_openai:
  assumes "list_all moderate_aspect ims"
  shows "\<exists>n. sum_image_tokens ''gpt-4o'' ims = Inr n \<and> 85 * int (length ims) \<le> n"
  using assms
proof (induction ims)
  case (Cons d ims)
  obtain w h where d: "d = (w, h)" by (cases d)
  from Cons obtain n where n: "sum_image_tokens ''gpt-4o'' ims = Inr n" "85 * int (length ims) \<le> n" by auto
  have "0 \<le> openai_tiles w h" using Cons.prems by (intro openai_tiles_nonneg) (auto simp: d moderate_aspect_def)
  with n show ?case by (simp add: d image_tokens_def SCHEME_def openai_image_tokens_def Let_def)
qed simp


section \<open>Properties\<close>

text \<open>Qwen token accounting keeps its pixel budget: for any image whose aspect ratio is at most
  about 334 and any budget, the billed blocks times the block area never exceed \<^verbatim>\<open>max_pixels\<close>, and
  at least one block is billed.\<close>

theorem qwen_within_budget:
  assumes "0 < w" "0 < h" "0 < patch * merge" "min_pixels \<le> (patch * merge)\<^sup>2" "0 < max_pixels"
    and "(patch * merge)\<^sup>2 * w \<le> h * max_pixels" "(patch * merge)\<^sup>2 * h \<le> w * max_pixels"
  shows "1 \<le> qwen_vision_tokens w h max_pixels min_pixels patch merge
    \<and> qwen_vision_tokens w h max_pixels min_pixels patch merge * (patch * merge)\<^sup>2 \<le> max_pixels"
  using qwen_budget [OF assms(1,2) refl assms(3), of min_pixels max_pixels] assms(4-7) by (simp add: power2_eq_square)

theorem qwen_within_budget_witness:
  "1 \<le> qwen_vision_tokens 2560 1600 1048576 3136 28 2
    \<and> qwen_vision_tokens 2560 1600 1048576 3136 28 2 * (28 * 2)\<^sup>2 \<le> 1048576"
  by (rule qwen_within_budget) simp_all

text \<open>For extreme aspect ratios the clamp to one block per side breaks the budget: a
  one-million-by-one strip is billed 18285 blocks, 57 million pixels against a budget of about
  one million.\<close>

theorem qwen_strip_over_budget:
  "qwen_default 1000000 1 = 18285 \<and> qwen_default 1000000 1 * (28 * 2)\<^sup>2 > 54 * 1048576"
proof -
  have "\<lfloor>1 / 56 :: rat\<rfloor> = 0" "\<lfloor>125000 / 7 :: rat\<rfloor> = 17857" by (simp_all add: floor_eq_iff)
  then have r: "py_round (1 / 56 :: rat) = 0" "py_round (125000 / 7 :: rat) = 17857"
    by (simp_all add: py_round_def Let_def)
  have s: "sqrt (15625 / 16384) = (125 / 128 :: real)"
    by (rule real_sqrt_unique) (simp_all add: power2_eq_square)
  have f: "\<lfloor>16 / 875 :: real\<rfloor> = 0" "\<lfloor>128000 / 7 :: real\<rfloor> = 18285" by (simp_all add: floor_eq_iff)
  show ?thesis by (simp add: qwen_vision_tokens_def Let_def r s f)
qed

lemma compare_ok:
  assumes "list_all moderate_aspect ims" "0 \<le> t" "0 \<le> out"
  shows "\<exists>s. compare_models ims t out ''gpt-4o'' ''dexa-cua-vlm'' = Inr s
    \<and> saved_usd s = c_usd (baseline s) - c_usd (ours s) \<and> 0 \<le> c_usd (ours s) \<and> 0 \<le> saved_usd s
    \<and> 0 \<le> saved_pct s \<and> saved_pct s \<le> 100"
proof -
  obtain n where n: "sum_image_tokens ''dexa-cua-vlm'' ims = Inr n" "int (length ims) \<le> n" "n \<le> 334 * int (length ims)"
    using sum_qwen [OF assms(1)] by blast
  obtain m where m: "sum_image_tokens ''gpt-4o'' ims = Inr m" "85 * int (length ims) \<le> m"
    using sum_openai [OF assms(1)] by blast
  let ?o = "of_int (n + t) / 1000000 * (20/100) + of_int out / 1000000 * (20/100) :: rat"
  let ?b = "of_int (m + t) / 1000000 * (250/100) + of_int out / 1000000 * (1000/100) :: rat"
  have nm: "n * 20 \<le> m * 250" "0 \<le> n" using n m by linarith+
  then have "(of_int n :: rat) * 20 \<le> of_int m * 250" "0 \<le> (of_int n :: rat)"
    by (metis (no_types) of_int_le_iff of_int_mult of_int_numeral, simp)
  moreover have "0 \<le> (of_int t :: rat)" "0 \<le> (of_int out :: rat)" using assms by simp_all
  ultimately have ob: "0 \<le> ?o" "?o \<le> ?b" by (simp_all add: field_simps)
  have pct: "0 \<le> (if ?b > 0 then (?b - ?o) / ?b * 100 else 0)" "(if ?b > 0 then (?b - ?o) / ?b * 100 else 0) \<le> 100"
    using ob by (auto simp: divide_simps)
  have P: "map_of PRICES ''dexa-cua-vlm'' = Some (20/100, 20/100)" "map_of PRICES ''gpt-4o'' = Some (250/100, 1000/100)"
    by (simp_all add: PRICES_def)
  let ?x = "if ?o > 0 then Some (?b / ?o) else None"
  let ?s = "\<lparr>ours = \<lparr>c_model = ''dexa-cua-vlm'', c_image_tokens = n, c_text_in_tokens = t, c_out_tokens = out, c_usd = ?o\<rparr>,
      baseline = \<lparr>c_model = ''gpt-4o'', c_image_tokens = m, c_text_in_tokens = t, c_out_tokens = out, c_usd = ?b\<rparr>,
      saved_usd = ?b - ?o, saved_pct = (if ?b > 0 then (?b - ?o) / ?b * 100 else 0), x_cheaper = ?x\<rparr>"
  have "compare_models ims t out ''gpt-4o'' ''dexa-cua-vlm'' = Inr ?s"
    unfolding compare_models_def request_cost_def n(1) m(1) Let_def P by simp
  with ob pct show ?thesis by (intro exI [of _ ?s]) simp
qed

text \<open>With the default models the gateway never costs more than its baseline: for any images of
  moderate aspect ratio and any text, the comparison succeeds, the saving is exactly the
  difference of the two costs, it is never negative and the percentage lies between 0 and 100.\<close>

theorem compare_never_loses:
  assumes "list_all moderate_aspect ims" "0 \<le> t" "0 \<le> out"
  shows "\<exists>s. compare_models ims t out ''gpt-4o'' ''dexa-cua-vlm'' = Inr s
    \<and> saved_usd s = c_usd (baseline s) - c_usd (ours s) \<and> 0 \<le> saved_usd s
    \<and> 0 \<le> saved_pct s \<and> saved_pct s \<le> 100"
  using compare_ok [OF assms] by blast

theorem compare_never_loses_witness:
  "\<exists>s. compare_models [(1280, 800)] 10 5 ''gpt-4o'' ''dexa-cua-vlm'' = Inr s
    \<and> saved_usd s = c_usd (baseline s) - c_usd (ours s) \<and> 0 \<le> saved_usd s
    \<and> 0 \<le> saved_pct s \<and> saved_pct s \<le> 100"
  by (rule compare_never_loses) (simp_all add: moderate_aspect_def)

end
