(* ===== verification/Ledger.thy ===== *)
theory Ledger imports Pricing begin

text \<open>
  The in-memory usage ledger of the gateway, \<^verbatim>\<open>src/dexa_platform/gateway/store.py\<close>: one running
  aggregate for the process and one per session. The lock makes every call atomic; the clock
  reading is an argument.
\<close>

record agg =
  requests :: nat
  cache_hits :: nat
  dexa_usd :: rat
  baseline_usd :: rat
  agg_saved_usd :: rat
  dexa_image_tokens :: int
  baseline_image_tokens :: int
  redundant_frac_sum :: rat
  redundant_n :: nat
  first_seen :: rat
  last_seen :: rat

definition new_agg :: "rat \<Rightarrow> agg" where
  "new_agg now = \<lparr>requests = 0, cache_hits = 0, dexa_usd = 0, baseline_usd = 0, agg_saved_usd = 0,
     dexa_image_tokens = 0, baseline_image_tokens = 0, redundant_frac_sum = 0, redundant_n = 0,
     first_seen = now, last_seen = now\<rparr>"

definition avg_redundancy :: "agg \<Rightarrow> rat" where
  "avg_redundancy a = (if redundant_n a \<noteq> 0 then redundant_frac_sum a / of_nat (redundant_n a) else 0)"

definition agg_x_cheaper :: "agg \<Rightarrow> rat" where
  "agg_x_cheaper a = (if dexa_usd a > 0 then baseline_usd a / dexa_usd a else 0)"

record agg_view =
  av_requests :: nat
  av_cache_hits :: nat
  av_dexa_usd :: rat
  av_baseline_usd :: rat
  av_saved_usd :: rat
  av_saved_pct :: rat
  av_x_cheaper :: rat
  av_avg_redundancy_pct :: rat
  av_dexa_image_tokens :: int
  av_baseline_image_tokens :: int

definition agg_as_dict :: "agg \<Rightarrow> agg_view" where
  "agg_as_dict a = \<lparr>av_requests = requests a, av_cache_hits = cache_hits a,
     av_dexa_usd = round_to 6 (dexa_usd a), av_baseline_usd = round_to 6 (baseline_usd a),
     av_saved_usd = round_to 6 (agg_saved_usd a),
     av_saved_pct = (if baseline_usd a \<noteq> 0 then round_to 2 (100 * agg_saved_usd a / baseline_usd a) else 0),
     av_x_cheaper = round_to 2 (agg_x_cheaper a), av_avg_redundancy_pct = round_to 1 (100 * avg_redundancy a),
     av_dexa_image_tokens = dexa_image_tokens a, av_baseline_image_tokens = baseline_image_tokens a\<rparr>"

record ledger =
  total :: agg
  by_session :: "(string, agg) dict"

definition new_ledger :: "rat \<Rightarrow> ledger" where
  "new_ledger now = \<lparr>total = new_agg now, by_session = []\<rparr>"

definition bump :: "rat \<Rightarrow> savings \<Rightarrow> rat \<Rightarrow> bool \<Rightarrow> agg \<Rightarrow> agg" where
  "bump now saved redundant hit a =
     a\<lparr>requests := requests a + 1, cache_hits := cache_hits a + (if hit then 1 else 0),
       dexa_usd := dexa_usd a + c_usd (ours saved), baseline_usd := baseline_usd a + c_usd (baseline saved),
       agg_saved_usd := agg_saved_usd a + saved_usd saved,
       dexa_image_tokens := dexa_image_tokens a + c_image_tokens (ours saved),
       baseline_image_tokens := baseline_image_tokens a + c_image_tokens (baseline saved),
       redundant_frac_sum := redundant_frac_sum a + redundant, redundant_n := redundant_n a + 1,
       last_seen := now\<rparr>"

text \<open>\<^verbatim>\<open>by_session\<close> is a \<^verbatim>\<open>defaultdict(Agg)\<close>.\<close>

definition ledger_record :: "rat \<Rightarrow> string \<Rightarrow> savings \<Rightarrow> rat \<Rightarrow> bool \<Rightarrow> ledger \<Rightarrow> ledger" where
  "ledger_record now session saved redundant hit l =
     (let a = (case map_of (by_session l) session of None \<Rightarrow> new_agg now | Some a \<Rightarrow> a) in
      \<lparr>total = bump now saved redundant hit (total l),
       by_session = AList.update session (bump now saved redundant hit a) (by_session l)\<rparr>)"

definition snapshot :: "ledger \<Rightarrow> agg_view \<times> (string, agg_view) dict \<times> nat" where
  "snapshot l = (agg_as_dict (total l), map (\<lambda>(s, a). (s, agg_as_dict a)) (by_session l), length (by_session l))"

section \<open>The total is the sum of the sessions\<close>

text \<open>A counter is an additive view of an aggregate: zero at first, increased by an amount that
  depends on the request only.\<close>

definition counter :: "(agg \<Rightarrow> 'n::comm_monoid_add) \<Rightarrow> (savings \<Rightarrow> rat \<Rightarrow> bool \<Rightarrow> 'n) \<Rightarrow> bool" where
  "counter f d \<longleftrightarrow> (\<forall>now. f (new_agg now) = 0) \<and> (\<forall>now s r h a. f (bump now s r h a) = f a + d s r h)"

lemma counters:
  "counter requests (\<lambda>_ _ _. 1)" "counter cache_hits (\<lambda>_ _ h. if h then 1 else 0)"
  "counter dexa_usd (\<lambda>s _ _. c_usd (ours s))" "counter baseline_usd (\<lambda>s _ _. c_usd (baseline s))"
  "counter agg_saved_usd (\<lambda>s _ _. saved_usd s)"
  "counter dexa_image_tokens (\<lambda>s _ _. c_image_tokens (ours s))"
  "counter baseline_image_tokens (\<lambda>s _ _. c_image_tokens (baseline s))"
  "counter redundant_frac_sum (\<lambda>_ r _. r)" "counter redundant_n (\<lambda>_ _ _. 1)"
  by (simp_all add: counter_def new_agg_def bump_def)

lemma record_counter:
  fixes f :: "agg \<Rightarrow> 'n::cancel_comm_monoid_add"
  assumes c: "counter f d" and t: "f (total l) = dsum f (by_session l)"
  shows "f (total (ledger_record now s sv r h l)) = dsum f (by_session (ledger_record now s sv r h l))"
proof (cases "map_of (by_session l) s")
  case None then show ?thesis using c t by (simp add: ledger_record_def Let_def dsum_update_new counter_def)
next
  case (Some a)
  have "dsum f (AList.update s (bump now sv r h a) (by_session l)) + f a = dsum f (by_session l) + d sv r h + f a"
    using dsum_update_old [OF Some, of f "bump now sv r h a"] c by (simp add: counter_def ac_simps)
  then show ?thesis using c t Some by (simp add: ledger_record_def Let_def counter_def)
qed

type_synonym ledger_call = "rat \<times> string \<times> savings \<times> rat \<times> bool"

fun record_all :: "ledger_call list \<Rightarrow> ledger \<Rightarrow> ledger" where
  "record_all [] l = l"
| "record_all ((now, s, sv, r, h) # cs) l = record_all cs (ledger_record now s sv r h l)"

lemma record_all_counter:
  fixes f :: "agg \<Rightarrow> 'n::cancel_comm_monoid_add"
  assumes "counter f d" "f (total l) = dsum f (by_session l)"
  shows "f (total (record_all cs l)) = dsum f (by_session (record_all cs l))
    \<and> f (total (record_all cs l)) = f (total l) + sum_list (map (\<lambda>(_, _, sv, r, h). d sv r h) cs)"
  using assms(2)
proof (induction cs arbitrary: l)
  case (Cons c cs)
  obtain now s sv r h where c: "c = (now, s, sv, r, h)" by (cases c)
  have "f (total (ledger_record now s sv r h l)) = f (total l) + d sv r h"
    using assms(1) by (simp add: ledger_record_def Let_def counter_def)
  with Cons.IH [OF record_counter [OF assms(1) Cons.prems, of now s sv r h]] show ?case
    unfolding c record_all.simps list.map sum_list.Cons prod.case by (metis (no_types) add.assoc)
qed simp

lemma new_ledger_counter: "counter f d \<Longrightarrow> f (total (new_ledger now)) = dsum f (by_session (new_ledger now))"
  by (simp add: new_ledger_def counter_def)

lemma ledger_counter:
  fixes f :: "agg \<Rightarrow> 'n::cancel_comm_monoid_add"
  assumes "counter f d"
  shows "f (total (record_all cs (new_ledger now))) = dsum f (by_session (record_all cs (new_ledger now)))
    \<and> f (total (record_all cs (new_ledger now))) = f (total (new_ledger now)) + sum_list (map (\<lambda>(_, _, sv, r, h). d sv r h) cs)"
  by (rule record_all_counter [OF assms new_ledger_counter [OF assms]])

lemma record_all_sessions:
  "dict_ok (by_session l) \<Longrightarrow> dict_ok (by_session (record_all cs l))
   \<and> fst ` set (by_session (record_all cs l)) = fst ` set (by_session l) \<union> (\<lambda>(_, s, _). s) ` set cs"
proof (induction cs arbitrary: l)
  case (Cons c cs)
  obtain now s sv r h where c: "c = (now, s, sv, r, h)" by (cases c)
  have "fst ` set (by_session (ledger_record now s sv r h l)) = insert s (fst ` set (by_session l))"
    by (simp add: ledger_record_def Let_def dom_update)
  moreover have "dict_ok (by_session (ledger_record now s sv r h l))"
    using Cons.prems by (simp add: ledger_record_def Let_def)
  ultimately show ?case using Cons.IH by (auto simp: c)
qed simp

section \<open>Properties\<close>

text \<open>After any sequence of records the process totals are the sums over the sessions, in
  requests, cache hits, dollars and tokens, and they are the sums over the recorded calls: the
  requests count the calls and the dollars add up their costs.\<close>

theorem ledger_total_is_sum:
  "(let l = record_all cs (new_ledger now) in
     requests (total l) = dsum requests (by_session l) \<and> cache_hits (total l) = dsum cache_hits (by_session l)
   \<and> dexa_usd (total l) = dsum dexa_usd (by_session l) \<and> baseline_usd (total l) = dsum baseline_usd (by_session l)
   \<and> agg_saved_usd (total l) = dsum agg_saved_usd (by_session l)
   \<and> dexa_image_tokens (total l) = dsum dexa_image_tokens (by_session l)
   \<and> baseline_image_tokens (total l) = dsum baseline_image_tokens (by_session l)
   \<and> requests (total l) = length cs
   \<and> dexa_usd (total l) = sum_list (map (\<lambda>(_, _, sv, _, _). c_usd (ours sv)) cs)
   \<and> fst ` set (by_session l) = (\<lambda>(_, s, _). s) ` set cs)"
proof -
  have len: "sum_list (map (\<lambda>(_, _, sv, r, h). 1) cs) = length cs" for cs :: "ledger_call list" by (induction cs) auto
  have z: "requests (total (new_ledger now)) = 0" "dexa_usd (total (new_ledger now)) = 0"
    by (simp_all add: new_ledger_def new_agg_def)
  have ss: "fst ` set (by_session (record_all cs (new_ledger now))) = (\<lambda>(_, s, _). s) ` set cs"
    using record_all_sessions [of "new_ledger now" cs] by (simp add: new_ledger_def)
  show ?thesis unfolding Let_def
    using ledger_counter [OF counters(1), of cs now] ledger_counter [OF counters(2), of cs now]
      ledger_counter [OF counters(3), of cs now] ledger_counter [OF counters(4), of cs now]
      ledger_counter [OF counters(5), of cs now] ledger_counter [OF counters(6), of cs now]
      ledger_counter [OF counters(7), of cs now] z ss len by (simp add: split_def)
qed

end
