(* ===== verification/Metering.thy ===== *)
theory Metering imports Accounts Ledger begin

text \<open>
  Durable metering and credit, \<^verbatim>\<open>src/dexa_platform/control/metering.py\<close>: the daily rollup per
  key, the derived balance, the quota gate and the usage snapshots; and, over it, the control
  plane's operations as one step relation.
\<close>

section \<open>Credit\<close>

definition granted :: "database \<Rightarrow> string \<Rightarrow> rat" where
  "granted db oid = sum_list (map cr_delta_usd (filter (\<lambda>c. cr_org_id c = oid) (credits db)))"

definition spent :: "database \<Rightarrow> string \<Rightarrow> rat" where
  "spent db oid = sum_list (map ud_dexa_usd (filter (\<lambda>r. ud_org_id r = oid) (usage_rows db)))"

definition remaining_credit :: "database \<Rightarrow> string \<Rightarrow> rat" where
  "remaining_credit db oid = granted db oid - spent db oid"

definition quota_ok :: "database \<Rightarrow> string \<Rightarrow> bool" where
  "quota_ok db oid \<longleftrightarrow> remaining_credit db oid > 0"

section \<open>Recording\<close>

record charge =
  ch_dexa_usd :: rat
  ch_baseline_usd :: rat
  ch_saved_usd :: rat
  ch_dexa_image_tokens :: int
  ch_baseline_image_tokens :: int
  ch_redundant_frac :: rat
  ch_cache_hit :: bool

definition new_row :: "string \<Rightarrow> string \<Rightarrow> string \<Rightarrow> string \<Rightarrow> usage_daily" where
  "new_row rid oid kid day = \<lparr>ud_id = rid, ud_org_id = oid, ud_key_id = kid, ud_day = day, ud_requests = 0,
     ud_cache_hits = 0, ud_dexa_usd = 0, ud_baseline_usd = 0, ud_saved_usd = 0, ud_dexa_image_tokens = 0,
     ud_baseline_image_tokens = 0, ud_redundant_sum = 0, ud_redundant_n = 0\<rparr>"

definition add_charge :: "charge \<Rightarrow> usage_daily \<Rightarrow> usage_daily" where
  "add_charge c r = r\<lparr>ud_requests := ud_requests r + 1,
     ud_cache_hits := ud_cache_hits r + (if ch_cache_hit c then 1 else 0),
     ud_dexa_usd := ud_dexa_usd r + ch_dexa_usd c, ud_baseline_usd := ud_baseline_usd r + ch_baseline_usd c,
     ud_saved_usd := ud_saved_usd r + ch_saved_usd c,
     ud_dexa_image_tokens := ud_dexa_image_tokens r + ch_dexa_image_tokens c,
     ud_baseline_image_tokens := ud_baseline_image_tokens r + ch_baseline_image_tokens c,
     ud_redundant_sum := ud_redundant_sum r + ch_redundant_frac c, ud_redundant_n := ud_redundant_n r + 1\<rparr>"

definition charge_row :: "string \<Rightarrow> string \<Rightarrow> charge \<Rightarrow> database \<Rightarrow> database" where
  "charge_row kid day c db =
     db\<lparr>usage_rows := map (\<lambda>r. if ud_key_id r = kid \<and> ud_day r = day then add_charge c r else r) (usage_rows db)\<rparr>"

definition touch_key :: "rat \<Rightarrow> string \<Rightarrow> database \<Rightarrow> database" where
  "touch_key now kid db = update_key kid (\<lambda>k. k\<lparr>k_last_used_at := Some now\<rparr>) db"

definition meter_record ::
    "string \<Rightarrow> rat \<Rightarrow> string \<Rightarrow> string \<Rightarrow> string \<Rightarrow> charge \<Rightarrow> database \<Rightarrow> database result" where
  "meter_record tok now day oid kid c db =
     res_bind (scalar_one_or_none (filter (\<lambda>r. ud_key_id r = kid \<and> ud_day r = day) (usage_rows db)))
       (\<lambda>row. res_bind (case row of None \<Rightarrow> add_usage (new_row (id_of ''use'' tok) oid kid day) db | Some _ \<Rightarrow> Inr db)
       (\<lambda>db1. Inr (touch_key now kid (charge_row kid day c db1))))"

section \<open>Snapshots\<close>

definition agg_rows :: "usage_daily list \<Rightarrow> agg_view" where
  "agg_rows rows =
     (let dexa = sum_list (map ud_dexa_usd rows); base = sum_list (map ud_baseline_usd rows);
          saved = sum_list (map ud_saved_usd rows); rn = sum_list (map ud_redundant_n rows);
          rs = sum_list (map ud_redundant_sum rows)
      in \<lparr>av_requests = sum_list (map ud_requests rows), av_cache_hits = sum_list (map ud_cache_hits rows),
          av_dexa_usd = round_to 6 dexa, av_baseline_usd = round_to 6 base, av_saved_usd = round_to 6 saved,
          av_saved_pct = (if base \<noteq> 0 then round_to 2 (100 * saved / base) else 0),
          av_x_cheaper = (if dexa \<noteq> 0 then round_to 2 (base / dexa) else 0),
          av_avg_redundancy_pct = (if rn \<noteq> 0 then round_to 1 (100 * rs / of_nat rn) else 0),
          av_dexa_image_tokens = sum_list (map ud_dexa_image_tokens rows),
          av_baseline_image_tokens = sum_list (map ud_baseline_image_tokens rows)\<rparr>)"

text \<open>\<^verbatim>\<open>d.setdefault(key, []).append(r)\<close> over the rows.\<close>

fun group_rows :: "('r \<Rightarrow> string) \<Rightarrow> 'r list \<Rightarrow> (string, 'r list) dict \<Rightarrow> (string, 'r list) dict" where
  "group_rows f [] d = d"
| "group_rows f (r # rs) d =
     group_rows f rs (AList.update (f r) ((case map_of d (f r) of None \<Rightarrow> [] | Some g \<Rightarrow> g) @ [r]) d)"

record usage_view =
  uv_total :: agg_view
  uv_keys :: "(string, agg_view) dict"
  uv_granted :: rat
  uv_spent :: rat
  uv_remaining :: rat

definition usage_snapshot :: "database \<Rightarrow> string \<Rightarrow> usage_view" where
  "usage_snapshot db oid =
     (let rows = filter (\<lambda>r. ud_org_id r = oid) (usage_rows db); by_key = group_rows ud_key_id rows [] in
      \<lparr>uv_total = agg_rows rows, uv_keys = map (\<lambda>(k, rs). (k, agg_rows rs)) by_key,
       uv_granted = round_to 4 (granted db oid), uv_spent = round_to 6 (spent db oid),
       uv_remaining = round_to 6 (remaining_credit db oid)\<rparr>)"

definition org_display :: "database \<Rightarrow> string \<Rightarrow> string" where
  "org_display db oid =
     (case map_of (fold (\<lambda>r. AList.update (o_id r) (o_name r)) (orgs db) []) oid of None \<Rightarrow> oid | Some n \<Rightarrow> n)"

definition global_snapshot :: "database \<Rightarrow> agg_view \<times> (string, agg_view) dict \<times> nat" where
  "global_snapshot db =
     (let by_org = group_rows ud_org_id (usage_rows db) [] in
      (agg_rows (usage_rows db),
       fold (\<lambda>(oid, rs). AList.update (org_display db oid) (agg_rows rs)) by_org [],
       length by_org))"

section \<open>Recording keeps the schema\<close>

lemma new_row_ids [simp]:
  "ud_id (new_row rid oid kid day) = rid" "ud_org_id (new_row rid oid kid day) = oid"
  "ud_key_id (new_row rid oid kid day) = kid" "ud_day (new_row rid oid kid day) = day"
  by (simp_all add: new_row_def)

lemma meter_record_cases:
  assumes "db_ok db" "meter_record tok now day oid kid c db = Inr db'"
  shows "\<exists>pre r post. usage_rows db' = pre @ add_charge c r # post
    \<and> (usage_rows db = pre @ r # post
       \<or> usage_rows db = pre \<and> post = [] \<and> r = new_row (id_of ''use'' tok) oid kid day
          \<and> ud_id r \<notin> ud_id ` set pre \<and> (kid, day) \<notin> (\<lambda>u. (ud_key_id u, ud_day u)) ` set pre)
    \<and> ud_key_id r = kid \<and> ud_day r = day \<and> orgs db' = orgs db \<and> users db' = users db \<and> credits db' = credits db
    \<and> api_keys db' = api_keys (touch_key now kid db)"
proof -
  let ?P = "\<lambda>r. ud_key_id r = kid \<and> ud_day r = day"
  have rest: "map (\<lambda>r. if ?P r then add_charge c r else r) xs = xs" if "\<forall>r\<in>set xs. \<not> ?P r" for xs
    using that by (induction xs) auto
  have keep: "orgs (touch_key now kid (charge_row kid day c d)) = orgs d" "users (touch_key now kid (charge_row kid day c d)) = users d"
    "credits (touch_key now kid (charge_row kid day c d)) = credits d"
    "usage_rows (touch_key now kid (charge_row kid day c d)) = map (\<lambda>r. if ?P r then add_charge c r else r) (usage_rows d)"
    "api_keys (touch_key now kid (charge_row kid day c d)) = api_keys (touch_key now kid d)" for d
    by (simp_all add: touch_key_def charge_row_def update_key_def)
  show ?thesis
  proof (cases "filter ?P (usage_rows db)")
    case Nil
    then have n: "\<forall>r\<in>set (usage_rows db). \<not> ?P r" by (auto simp: filter_empty_conv)
    obtain db1 where db1: "add_usage (new_row (id_of ''use'' tok) oid kid day) db = Inr db1"
        "db' = touch_key now kid (charge_row kid day c db1)"
      using assms(2) Nil by (auto simp: meter_record_def)
    then have u: "usage_rows db1 = usage_rows db @ [new_row (id_of ''use'' tok) oid kid day]"
      "orgs db1 = orgs db" "users db1 = users db" "credits db1 = credits db" "api_keys db1 = api_keys db"
      "id_of ''use'' tok \<notin> ud_id ` set (usage_rows db)" "(kid, day) \<notin> (\<lambda>u. (ud_key_id u, ud_day u)) ` set (usage_rows db)"
      by (auto simp: add_usage_def split: if_splits)
    show ?thesis
      by (rule exI [of _ "usage_rows db"], rule exI [of _ "new_row (id_of ''use'' tok) oid kid day"], rule exI [of _ "[]"])
        (use u(6,7) in \<open>simp add: db1(2) keep u(1-5) rest [OF n] touch_key_def charge_row_def update_key_def\<close>)
  next
    case (Cons r rs)
    then have "r \<in> set (filter ?P (usage_rows db))" by simp
    then have r: "?P r" "r \<in> set (usage_rows db)" by auto
    have "filter (\<lambda>y. (ud_key_id y, ud_day y) = (ud_key_id r, ud_day r)) (usage_rows db) = [r]"
      by (rule distinct_filter_one) (use assms(1) r in \<open>simp_all add: db_ok_def\<close>)
    then have f: "filter ?P (usage_rows db) = [r]" using r by simp
    obtain pre post where pp: "usage_rows db = pre @ r # post" using r(2) by (meson split_list)
    then have "filter ?P pre = []" "filter ?P post = []" using f r(1) by (simp_all add: append_eq_Cons_conv)
    then have n: "\<forall>x\<in>set pre. \<not> ?P x" "\<forall>x\<in>set post. \<not> ?P x" by (simp_all add: filter_empty_conv)
    have "db' = touch_key now kid (charge_row kid day c db)" using assms(2) f by (simp add: meter_record_def)
    then show ?thesis using r(1) by (intro exI [of _ pre] exI [of _ r] exI [of _ post]) (simp add: keep pp rest [OF n(1)] rest [OF n(2)])
  qed
qed

lemma add_charge_ids [simp]:
  "ud_id (add_charge c r) = ud_id r" "ud_org_id (add_charge c r) = ud_org_id r"
  "ud_key_id (add_charge c r) = ud_key_id r" "ud_day (add_charge c r) = ud_day r"
  by (simp_all add: add_charge_def)

lemma touch_key_ok: "db_ok db \<Longrightarrow> db_ok (touch_key now kid db)"
  unfolding touch_key_def by (rule update_key_ok) simp_all

text \<open>Recording always succeeds up to an identifier collision.\<close>

lemma meter_record_total:
  assumes "db_ok db" "id_of ''use'' tok \<notin> ud_id ` set (usage_rows db)"
  shows "\<exists>db'. meter_record tok now day oid kid c db = Inr db'"
proof (cases "filter (\<lambda>r. ud_key_id r = kid \<and> ud_day r = day) (usage_rows db)")
  case Nil
  then have "(kid, day) \<notin> (\<lambda>u. (ud_key_id u, ud_day u)) ` set (usage_rows db)" by (auto simp: filter_empty_conv)
  then show ?thesis using Nil assms(2) by (simp add: meter_record_def add_usage_def new_row_def)
next
  case (Cons r rs)
  then have "r \<in> set (filter (\<lambda>r. ud_key_id r = kid \<and> ud_day r = day) (usage_rows db))" by simp
  then have r: "ud_key_id r = kid" "ud_day r = day" "r \<in> set (usage_rows db)" by auto
  have "filter (\<lambda>y. (ud_key_id y, ud_day y) = (ud_key_id r, ud_day r)) (usage_rows db) = [r]"
    by (rule distinct_filter_one) (use assms(1) r in \<open>simp_all add: db_ok_def\<close>)
  then have "filter (\<lambda>y. ud_key_id y = kid \<and> ud_day y = day) (usage_rows db) = [r]" using r by simp
  then show ?thesis by (simp add: meter_record_def)
qed

lemma meter_record_ok:
  assumes "db_ok db" "meter_record tok now day oid kid c db = Inr db'"
  shows "db_ok db'"
proof -
  obtain pre r post where c: "usage_rows db' = pre @ add_charge c r # post"
      "usage_rows db = pre @ r # post \<or> usage_rows db = pre \<and> post = []
        \<and> ud_id r \<notin> ud_id ` set pre \<and> (kid, day) \<notin> (\<lambda>u. (ud_key_id u, ud_day u)) ` set pre"
      "ud_key_id r = kid" "ud_day r = day" "orgs db' = orgs db" "users db' = users db"
      "api_keys db' = api_keys (touch_key now kid db)"
    using meter_record_cases [OF assms] by blast
  have T: "orgs (touch_key now kid db) = orgs db" "users (touch_key now kid db) = users db"
    "usage_rows (touch_key now kid db) = usage_rows db" by (simp_all add: touch_key_def update_key_def)
  have d: "distinct (map (\<lambda>u. (ud_key_id u, ud_day u)) (usage_rows db')) \<and> distinct (map ud_id (usage_rows db'))"
    using c(2) assms(1) by (elim disjE conjE) (simp_all add: c(1,3,4) db_ok_def)
  show ?thesis using touch_key_ok [OF assms(1), of now kid] d unfolding db_ok_def c(5,6,7) T by simp
qed

text \<open>An additive column grows by its increment, wherever the row sits.\<close>

lemma meter_record_sum:
  fixes f :: "usage_daily \<Rightarrow> 'n::ab_group_add"
  assumes ok: "db_ok db" and r: "meter_record tok now day oid kid c db = Inr db'"
    and f: "\<And>x. f (add_charge c x) = f x + d" "\<And>rid. f (new_row rid oid kid day) = 0"
    and own: "\<forall>x\<in>set (usage_rows db). ud_key_id x = kid \<longrightarrow> ud_org_id x = oid"
  shows "sum_list (map f (filter (\<lambda>x. ud_org_id x = o2) (usage_rows db')))
    = sum_list (map f (filter (\<lambda>x. ud_org_id x = o2) (usage_rows db))) + (if o2 = oid then d else 0)"
proof -
  obtain pre x post where c: "usage_rows db' = pre @ add_charge c x # post"
      "usage_rows db = pre @ x # post \<or> usage_rows db = pre \<and> post = [] \<and> x = new_row (id_of ''use'' tok) oid kid day"
      "ud_key_id x = kid"
    using meter_record_cases [OF ok r] by blast
  then have o1: "ud_org_id x = oid" using own by (metis in_set_conv_decomp new_row_ids(2))
  from c(2) show ?thesis using f by (elim disjE conjE) (simp_all add: c(1) o1 ac_simps)
qed

section \<open>Grouping\<close>

lemma group_rows_sum:
  fixes f :: "'r \<Rightarrow> 'n::cancel_comm_monoid_add"
  shows "dsum (\<lambda>g. sum_list (map f g)) (group_rows key rs d) = dsum (\<lambda>g. sum_list (map f g)) d + sum_list (map f rs)"
proof (induction rs arbitrary: d)
  case (Cons r rs)
  let ?F = "\<lambda>g. sum_list (map f g)"
  have "dsum ?F (AList.update (key r) ((case map_of d (key r) of None \<Rightarrow> [] | Some g \<Rightarrow> g) @ [r]) d) = dsum ?F d + f r"
  proof (cases "map_of d (key r)")
    case None then show ?thesis by (simp add: dsum_update_new)
  next
    case (Some g)
    have "dsum ?F (AList.update (key r) (g @ [r]) d) + ?F g = dsum ?F d + f r + ?F g"
      using dsum_update_old [OF Some, of ?F "g @ [r]"] by (simp add: ac_simps)
    then show ?thesis using Some by simp
  qed
  then show ?case by (simp add: Cons.IH ac_simps)
qed simp

lemma group_rows_keys:
  "dict_ok d \<Longrightarrow> dict_ok (group_rows key rs d) \<and> fst ` set (group_rows key rs d) = fst ` set d \<union> key ` set rs"
proof (induction rs arbitrary: d)
  case (Cons r rs) then show ?case by (auto simp: dom_update)
qed simp

lemma dsum_map: "dsum f (map (\<lambda>(k, v). (k, g v)) d) = dsum (\<lambda>v. f (g v)) d"
  by (induction d) auto

section \<open>Properties\<close>

lemma record_credit:
  assumes "db_ok db" "meter_record tok now day oid kid c db = Inr db'"
    and "\<forall>x\<in>set (usage_rows db). ud_key_id x = kid \<longrightarrow> ud_org_id x = oid"
  shows "remaining_credit db' o2 = remaining_credit db o2 - (if o2 = oid then ch_dexa_usd c else 0)"
proof -
  have g: "granted db' o3 = granted db o3" for o3
    using meter_record_cases [OF assms(1,2)] by (auto simp: granted_def)
  have s: "spent db' o3 = spent db o3 + (if o3 = oid then ch_dexa_usd c else 0)" for o3
    unfolding spent_def by (rule meter_record_sum [OF assms(1,2) _ _ assms(3)]) (simp_all add: add_charge_def new_row_def)
  show ?thesis by (simp add: remaining_credit_def g s)
qed

text \<open>C40. Recording a request debits exactly its cost: the organisation's remaining credit falls by
  \<^verbatim>\<open>dexa_usd\<close>, every other organisation's stays, and the schema's constraints (one row per key and
  day) are kept.\<close>

theorem record_debits_credit:
  assumes "db_ok db" "meter_record tok now day oid kid c db = Inr db'"
    and "\<forall>x\<in>set (usage_rows db). ud_key_id x = kid \<longrightarrow> ud_org_id x = oid"
  shows "remaining_credit db' oid = remaining_credit db oid - ch_dexa_usd c
    \<and> (o2 \<noteq> oid \<longrightarrow> remaining_credit db' o2 = remaining_credit db o2) \<and> db_ok db'"
  using meter_record_ok [OF assms(1,2)] record_credit [OF assms] by simp

definition demo_charge :: charge where
  "demo_charge = \<lparr>ch_dexa_usd = 2, ch_baseline_usd = 80, ch_saved_usd = 78, ch_dexa_image_tokens = 300,
     ch_baseline_image_tokens = 1100, ch_redundant_frac = 9/10, ch_cache_hit = False\<rparr>"

definition demo_metered :: database where
  "demo_metered = (case meter_record ''1'' 3 ''2025-01-01'' ''org_1'' ''key_1'' demo_charge demo_db of Inr db \<Rightarrow> db)"

lemma demo_db_ok: "db_ok demo_db"
  by (simp add: db_ok_def demo_db_def demo_user_def demo_key_def)

lemma demo_metered_run:
  "meter_record ''1'' 3 ''2025-01-01'' ''org_1'' ''key_1'' demo_charge demo_db = Inr demo_metered"
  by (simp add: demo_metered_def meter_record_def add_usage_def demo_db_def)

theorem record_debits_credit_witness:
  "remaining_credit demo_metered ''org_1'' = remaining_credit demo_db ''org_1'' - 2 \<and> db_ok demo_metered"
  using record_debits_credit [OF demo_db_ok demo_metered_run, of "''org_1''"]
  by (simp add: demo_charge_def demo_db_def)

text \<open>The per-key entries of a usage snapshot partition its total: requests, cache hits and image
  tokens of the keys add up to the total's, one entry per key that has usage.\<close>

theorem usage_snapshot_partitions:
  "(let v = usage_snapshot db oid in
     av_requests (uv_total v) = dsum av_requests (uv_keys v)
   \<and> av_cache_hits (uv_total v) = dsum av_cache_hits (uv_keys v)
   \<and> av_dexa_image_tokens (uv_total v) = dsum av_dexa_image_tokens (uv_keys v)
   \<and> av_baseline_image_tokens (uv_total v) = dsum av_baseline_image_tokens (uv_keys v)
   \<and> dict_ok (uv_keys v)
   \<and> fst ` set (uv_keys v) = ud_key_id ` {r \<in> set (usage_rows db). ud_org_id r = oid})"
proof -
  let ?rows = "filter (\<lambda>r. ud_org_id r = oid) (usage_rows db)"
  have f: "fst ` set (map (\<lambda>(k, rs). (k, agg_rows rs)) d) = fst ` set d" for d :: "(string, usage_daily list) dict" by force
  have m: "map fst (map (\<lambda>(k, rs). (k, agg_rows rs)) d) = map fst d" for d :: "(string, usage_daily list) dict" by auto
  show ?thesis
    using group_rows_keys [of "[]" ud_key_id ?rows]
    unfolding usage_snapshot_def Let_def usage_view.simps dsum_map f m
    by (auto simp: agg_rows_def Let_def group_rows_sum [of _ _ _ "[]", simplified])
qed

definition twin_db :: database where
  "twin_db = demo_db\<lparr>orgs := map (\<lambda>i. (hd (orgs demo_db))\<lparr>o_id := i, o_name := ''workspace''\<rparr>) [''org_1'', ''org_2''],
     usage_rows := [add_charge demo_charge (new_row ''use_1'' ''org_1'' ''key_1'' ''d''),
                    add_charge demo_charge (new_row ''use_2'' ''org_2'' ''key_2'' ''d'')]\<rparr>"

text \<open>The operations dashboard keys its per-organisation entries by display name: with two
  organisations of one name, one disappears from the listing, while the totals and the session
  count still include it.\<close>

theorem global_snapshot_collapses:
  "(case global_snapshot twin_db of (tot, sessions, n) \<Rightarrow>
     av_requests tot = 2 \<and> n = 2 \<and> map fst sessions = [''workspace''] \<and> dsum av_requests sessions = 1)"
  by (simp add: global_snapshot_def twin_db_def demo_db_def new_row_def add_charge_def org_display_def agg_rows_def Let_def)

end
