(* ===== verification/Tenants.thy ===== *)
theory Tenants imports Prelude begin

text \<open>
  Tenants and BYOC routing, \<^verbatim>\<open>src/dexa_platform/gateway/tenants.py\<close>. What the gateway reads of a
  tenant is the record \<open>route\<close> (the resolver of the accounts mode builds the same fields); a
  registry tenant adds its key. The environment is a dictionary of strings; the JSON file named by
  \<^verbatim>\<open>DEXA_TENANTS\<close> is read by an argument, each object as its optional fields.
\<close>

record route =
  t_name :: string
  t_mode :: string
  backend_url :: string
  backend_model :: string
  default_baseline :: string
  cache_enabled :: bool

record tenant = route +
  t_key :: string

definition DEMO_KEY :: string where "DEMO_KEY = ''dexa-demo''"

definition uses_mock :: "'a route_scheme \<Rightarrow> bool" where
  "uses_mock t \<longleftrightarrow> t_mode t = ''mock'' \<or> backend_url t = ''''"

record public_view =
  p_name :: string
  p_mode :: string
  p_backend :: string
  p_backend_model :: string
  p_default_baseline :: string
  p_cache_enabled :: bool

definition public :: "tenant \<Rightarrow> public_view" where
  "public t = \<lparr>p_name = t_name t, p_mode = t_mode t,
     p_backend = (if uses_mock t then ''mock'' else backend_url t),
     p_backend_model = backend_model t, p_default_baseline = default_baseline t,
     p_cache_enabled = cache_enabled t\<rparr>"

section \<open>Registry\<close>

record registry =
  by_key :: "(string, tenant) dict"
  require_auth :: bool

text \<open>The dict comprehension \<^verbatim>\<open>{t.key: t for t in tenants}\<close>: a later tenant replaces an earlier
  one with its key.\<close>

definition new_registry :: "tenant list \<Rightarrow> bool \<Rightarrow> registry" where
  "new_registry ts auth = \<lparr>by_key = fold (\<lambda>t. AList.update (t_key t) t) ts [], require_auth = auth\<rparr>"

definition resolve :: "registry \<Rightarrow> string option \<Rightarrow> tenant option" where
  "resolve r key =
     (case key of
        Some k \<Rightarrow> if k \<noteq> '''' \<and> map_of (by_key r) k \<noteq> None then map_of (by_key r) k
                  else if \<not> require_auth r then map_of (by_key r) DEMO_KEY else None
      | None \<Rightarrow> if \<not> require_auth r then map_of (by_key r) DEMO_KEY else None)"

definition summary :: "registry \<Rightarrow> bool \<times> (string, public_view) dict" where
  "summary r = (require_auth r, fold (\<lambda>p. AList.update (t_name (snd p)) (public (snd p))) (by_key r) [])"

section \<open>Construction\<close>

record raw_tenant =
  r_key :: "string option"
  r_name :: "string option"
  r_mode :: "string option"
  r_backend_url :: "string option"
  r_backend_model :: "string option"
  r_default_baseline :: "string option"
  r_cache_enabled :: "bool option"

definition from_option :: "'a \<Rightarrow> 'a option \<Rightarrow> 'a" where
  "from_option d x = (case x of None \<Rightarrow> d | Some v \<Rightarrow> v)"

definition env_get :: "(string, string) dict \<Rightarrow> string \<Rightarrow> string \<Rightarrow> string" where
  "env_get env k d = from_option d (map_of env k)"

definition demo :: "(string, string) dict \<Rightarrow> tenant" where
  "demo env = \<lparr>t_name = ''demo'', t_mode = ''mock'',
     backend_url = (if map_of env ''DEXA_DEMO_USES_BACKEND'' = Some ''1''
                    then rstrip_char (CHR ''/'') (env_get env ''DEXA_BACKEND_URL'' '''') else ''''),
     backend_model = ''dexa-cua-vlm'', default_baseline = ''gpt-4o'',
     cache_enabled = (env_get env ''DEXA_CACHE'' ''1'' \<noteq> ''0''), t_key = DEMO_KEY\<rparr>"

definition from_dict :: "raw_tenant \<Rightarrow> tenant result" where
  "from_dict d =
     (case r_key d of
        None \<Rightarrow> Inl (KeyError ''key'')
      | Some k \<Rightarrow> Inr \<lparr>t_name = from_option (take 8 k) (r_name d), t_mode = from_option ''hosted'' (r_mode d),
          backend_url = rstrip_char (CHR ''/'') (from_option '''' (r_backend_url d)),
          backend_model = from_option ''dexa-cua-vlm'' (r_backend_model d),
          default_baseline = from_option ''gpt-4o'' (r_default_baseline d),
          cache_enabled = from_option True (r_cache_enabled d), t_key = k\<rparr>)"

fun map_result :: "('a \<Rightarrow> 'b result) \<Rightarrow> 'a list \<Rightarrow> 'b list result" where
  "map_result f [] = Inr []"
| "map_result f (x # xs) = res_bind (f x) (\<lambda>y. res_bind (map_result f xs) (\<lambda>ys. Inr (y # ys)))"

definition env_tenant :: "(string, string) dict \<Rightarrow> string \<Rightarrow> tenant" where
  "env_tenant env backend = \<lparr>t_name = env_get env ''DEXA_TENANT_NAME'' ''default'',
     t_mode = env_get env ''DEXA_MODE'' ''hosted'', backend_url = backend,
     backend_model = env_get env ''DEXA_BACKEND_MODEL'' ''dexa-cua-vlm'',
     default_baseline = env_get env ''DEXA_BASELINE'' ''gpt-4o'',
     cache_enabled = (env_get env ''DEXA_CACHE'' ''1'' \<noteq> ''0''),
     t_key = env_get env ''DEXA_API_KEY'' DEMO_KEY\<rparr>"

definition load :: "(string, string) dict \<Rightarrow> (string \<Rightarrow> raw_tenant list result) \<Rightarrow> registry result" where
  "load env read_json =
     (let auth = (map_of env ''DEXA_REQUIRE_AUTH'' = Some ''1'') in
      case map_of env ''DEXA_TENANTS'' of
        Some (c # cs) \<Rightarrow>
          res_bind (read_json (c # cs)) (\<lambda>raw.
          res_bind (map_result from_dict raw) (\<lambda>ts.
            Inr (new_registry (if \<exists>t\<in>set ts. t_key t = DEMO_KEY then ts else ts @ [demo env]) auth)))
      | _ \<Rightarrow>
          (let backend = rstrip_char (CHR ''/'') (env_get env ''DEXA_BACKEND_URL'' '''')
           in Inr (new_registry ([demo env] @ (if backend \<noteq> '''' then [env_tenant env backend] else [])) auth)))"

section \<open>Lemmas\<close>

lemma fold_update_dict_ok: "dict_ok d \<Longrightarrow> dict_ok (fold (\<lambda>t. AList.update (f t) (g t)) ts d)"
  by (induction ts arbitrary: d) auto

lemma map_of_fold_update:
  "map_of (fold (\<lambda>t. AList.update (f t) (g t)) ts d) k =
     (case List.find (\<lambda>t. f t = k) (rev ts) of None \<Rightarrow> map_of d k | Some t \<Rightarrow> Some (g t))"
proof (induction ts arbitrary: d)
  case (Cons t ts)
  have "List.find P (xs @ [y]) = (case List.find P xs of None \<Rightarrow> if P y then Some y else None | Some z \<Rightarrow> Some z)"
    for P :: "'c \<Rightarrow> bool" and xs y by (induction xs) auto
  with Cons show ?case by (auto split: option.splits)
qed simp

lemma find_some: "List.find P xs = Some x \<Longrightarrow> x \<in> set xs \<and> P x"
  by (induction xs) (auto split: if_splits)

lemma find_none: "List.find P xs = None \<longleftrightarrow> (\<forall>x\<in>set xs. \<not> P x)"
  by (induction xs) auto

text \<open>Well-formedness: every tenant sits under its own key and the demo key is always present.\<close>

definition registry_ok :: "registry \<Rightarrow> bool" where
  "registry_ok r \<longleftrightarrow> dict_ok (by_key r) \<and> (\<forall>k t. map_of (by_key r) k = Some t \<longrightarrow> t_key t = k)
     \<and> map_of (by_key r) DEMO_KEY \<noteq> None"

lemma new_registry_ok:
  assumes "\<exists>t\<in>set ts. t_key t = DEMO_KEY" shows "registry_ok (new_registry ts auth)"
proof -
  have "List.find (\<lambda>t. t_key t = DEMO_KEY) (rev ts) \<noteq> None" using assms unfolding find_none by simp
  then show ?thesis unfolding registry_ok_def new_registry_def
    by (auto simp: fold_update_dict_ok map_of_fold_update dest!: find_some split: option.splits)
qed

lemma require_auth_new [simp]: "require_auth (new_registry ts auth) = auth"
  by (simp add: new_registry_def)

lemma demo_key [simp]: "t_key (demo env) = DEMO_KEY"
  by (simp add: demo_def)

lemma load_ok: "load env rd = Inr r \<Longrightarrow> registry_ok r \<and> require_auth r = (map_of env ''DEXA_REQUIRE_AUTH'' = Some ''1'')"
proof -
  assume l: "load env rd = Inr r"
  define auth where "auth = (map_of env ''DEXA_REQUIRE_AUTH'' = Some ''1'')"
  have "\<exists>ts. (\<exists>t\<in>set ts. t_key t = DEMO_KEY) \<and> r = new_registry ts auth"
  proof (cases "\<exists>c cs. map_of env ''DEXA_TENANTS'' = Some (c # cs)")
    case True
    then obtain raw ts where "r = new_registry (if \<exists>t\<in>set ts. t_key t = DEMO_KEY then ts else ts @ [demo env]) auth"
      using l by (auto simp: load_def auth_def Let_def)
    then show ?thesis by (intro exI [of _ "if \<exists>t\<in>set ts. t_key t = DEMO_KEY then ts else ts @ [demo env]"]) auto
  next
    case False
    then obtain ts where "r = new_registry (demo env # ts) auth"
      using l by (auto simp: load_def auth_def Let_def split: option.splits list.splits)
    then show ?thesis by (intro exI [of _ "demo env # ts"]) simp
  qed
  then show ?thesis using new_registry_ok by (auto simp: auth_def)
qed

lemma resolve_known:
  assumes "registry_ok r" "key = Some k" "k \<noteq> ''''" "map_of (by_key r) k = Some t"
  shows "resolve r key = Some t \<and> t_key t = k"
  using assms by (auto simp: resolve_def registry_ok_def)

section \<open>Properties\<close>

text \<open>Key resolution of a loaded registry is exact: with authentication required a request
  resolves to a tenant only by presenting that tenant's own key, and an absent or unknown key is
  refused; without it, every such request gets the demo tenant instead.\<close>

theorem load_resolve:
  assumes "load env rd = Inr r"
  shows "(case resolve r key of
            Some t \<Rightarrow> key = Some (t_key t)
              \<or> map_of env ''DEXA_REQUIRE_AUTH'' \<noteq> Some ''1'' \<and> t_key t = DEMO_KEY
          | None \<Rightarrow> map_of env ''DEXA_REQUIRE_AUTH'' = Some ''1''
              \<and> (\<forall>k. key \<noteq> Some k \<or> k = '''' \<or> k \<notin> fst ` set (by_key r)))"
proof -
  have ok: "registry_ok r" "require_auth r = (map_of env ''DEXA_REQUIRE_AUTH'' = Some ''1'')"
    using load_ok [OF assms] by blast+
  then have k: "map_of (by_key r) k' = Some t \<Longrightarrow> t_key t = k'" for k' t by (auto simp: registry_ok_def)
  have d: "\<exists>t. map_of (by_key r) DEMO_KEY = Some t" using ok(1) by (auto simp: registry_ok_def)
  have n: "map_of (by_key r) k' = None \<longleftrightarrow> k' \<notin> fst ` set (by_key r)" for k' by (rule map_of_eq_None_iff)
  show ?thesis
    using d by (auto simp: resolve_def ok(2) n [symmetric] dest: k split: option.splits if_splits)
qed

definition acme_json :: "raw_tenant list" where
  "acme_json = [\<lparr>r_key = Some ''sk-acme1'', r_name = None, r_mode = Some ''byoc'', r_backend_url = Some ''http://b/'',
     r_backend_model = None, r_default_baseline = None, r_cache_enabled = None\<rparr>]"

definition acme_env :: "(string, string) dict" where
  "acme_env = [(''DEXA_TENANTS'', ''t.json''), (''DEXA_REQUIRE_AUTH'', ''1'')]"

definition acme_registry :: registry where
  "acme_registry = (case load acme_env (\<lambda>_. Inr acme_json) of Inr r \<Rightarrow> r)"

lemmas acme_eval = load_def acme_env_def acme_json_def from_dict_def from_option_def new_registry_def
  rstrip_char_def demo_def env_get_def DEMO_KEY_def

lemma acme_load: "load acme_env (\<lambda>_. Inr acme_json) = Inr acme_registry"
  by (simp add: acme_registry_def acme_eval)

theorem load_resolve_witness:
  "resolve acme_registry (Some ''stranger'') = None
   \<and> ''stranger'' \<notin> fst ` set (by_key acme_registry)"
proof -
  have "resolve acme_registry (Some ''stranger'') = None"
    by (simp add: acme_registry_def acme_eval resolve_def)
  with load_resolve [OF acme_load, of "Some ''stranger''"] show ?thesis by simp
qed

text \<open>A tenant loaded without a name is named after the first eight characters of its key, and
  the unauthenticated health summary lists tenants by name: a key of eight characters is published
  in full, and resolves to the tenant it belongs to.\<close>

theorem summary_publishes_key:
  "load acme_env (\<lambda>_. Inr acme_json) = Inr acme_registry
   \<and> map fst (snd (summary acme_registry)) = [''sk-acme1'', ''demo'']
   \<and> map_option t_key (resolve acme_registry (Some ''sk-acme1'')) = Some ''sk-acme1''"
  by (simp add: acme_registry_def acme_eval resolve_def summary_def)

end
