(* ===== verification/Resolver.thy ===== *)
theory Resolver imports Metering Tenants begin

text \<open>
  The hot-path key resolver with its TTL cache, \<^verbatim>\<open>src/dexa_platform/control/resolver.py\<close>, and
  the control plane around it as a state machine: the steps are the account operations, metering,
  the passing of time, resolutions and invalidations. The monotonic clock, the TTL and the hosted
  pool's URL are parameters.
\<close>

section \<open>Principals\<close>

record principal =
  pr_tenant :: route
  pr_org_id :: string
  pr_key_id :: string

definition build :: "string \<Rightarrow> org \<Rightarrow> string \<Rightarrow> principal" where
  "build pool org kid =
     (let backend = (if o_backend_url org \<noteq> '''' then o_backend_url org
                     else if o_mode org = ''hosted'' then pool else '''');
          mode = (if backend \<noteq> '''' then o_mode org else ''mock'')
      in \<lparr>pr_tenant = \<lparr>t_name = (if o_name org \<noteq> '''' then o_name org else o_id org), t_mode = mode,
            backend_url = backend, backend_model = o_backend_model org,
            default_baseline = o_default_baseline org, cache_enabled = o_cache_enabled org\<rparr>,
          pr_org_id = o_id org, pr_key_id = kid\<rparr>)"

definition lookup :: "string \<Rightarrow> database \<Rightarrow> string \<Rightarrow> principal option result" where
  "lookup pool db h =
     res_bind (key_by_hash db h) (\<lambda>rec.
       case rec of
         None \<Rightarrow> Inr None
       | Some k \<Rightarrow>
           if k_revoked_at k \<noteq> None then Inr None
           else (case get_org db (k_org_id k) of
                   None \<Rightarrow> Inr None
                 | Some og \<Rightarrow> Inr (Some (build pool og (k_id k)))))"

section \<open>The cache\<close>

type_synonym key_cache = "(string, rat \<times> principal option) dict"

definition resolve_key ::
    "(string \<Rightarrow> string) \<Rightarrow> string \<Rightarrow> rat \<Rightarrow> database \<Rightarrow> rat \<Rightarrow> string option \<Rightarrow> key_cache
     \<Rightarrow> principal option result \<times> key_cache" where
  "resolve_key H pool ttl db now secret cache =
     (if \<not> looks_like_key secret then (Inr None, cache)
      else
        let h = H (the secret);
            miss = (case lookup pool db h of
                      Inl e \<Rightarrow> (Inl e, cache)
                    | Inr p \<Rightarrow> (Inr p, AList.update h (now + ttl, p) cache))
        in case map_of cache h of
             Some (expiry, p) \<Rightarrow> if expiry > now then (Inr p, cache) else miss
           | None \<Rightarrow> miss)"

definition invalidate :: "(string \<Rightarrow> string) \<Rightarrow> string option \<Rightarrow> key_cache \<Rightarrow> key_cache" where
  "invalidate H secret cache =
     (case secret of Some (c # cs) \<Rightarrow> AList.delete (H (c # cs)) cache | _ \<Rightarrow> [])"

section \<open>The control plane as a state machine\<close>

inductive cp_step :: "(string \<Rightarrow> string) \<Rightarrow> database \<Rightarrow> database \<Rightarrow> bool" for H where
  cp_signup: "signup_oauth H rnd now p s em nm db = Inr (u, nk, db') \<Longrightarrow> cp_step H db db'"
| cp_create: "create_key H rnd now oid nm env db = Inr (nk, db') \<Longrightarrow> oid \<in> o_id ` set (orgs db) \<Longrightarrow> cp_step H db db'"
| cp_revoke: "cp_step H db (snd (revoke_key now oid kid db))"
| cp_rotate: "rotate_key H rnd now oid kid db = Inr (nk, db') \<Longrightarrow> cp_step H db db'"
| cp_record: "meter_record tok now day oid kid c db = Inr db' \<Longrightarrow> cp_step H db db'"

record rstate =
  rs_db :: database
  rs_cache :: key_cache
  rs_now :: rat

inductive rstep :: "(string \<Rightarrow> string) \<Rightarrow> string \<Rightarrow> rat \<Rightarrow> rstate \<Rightarrow> rstate \<Rightarrow> bool" for H pool ttl where
  rs_control: "cp_step H (rs_db s) db' \<Longrightarrow> rstep H pool ttl s (s\<lparr>rs_db := db'\<rparr>)"
| rs_time: "rs_now s \<le> t \<Longrightarrow> rstep H pool ttl s (s\<lparr>rs_now := t\<rparr>)"
| rs_resolve: "rstep H pool ttl s
    (s\<lparr>rs_cache := snd (resolve_key H pool ttl (rs_db s) (rs_now s) secret (rs_cache s))\<rparr>)"
| rs_invalidate: "rstep H pool ttl s (s\<lparr>rs_cache := invalidate H secret (rs_cache s)\<rparr>)"

inductive_cases cp_stepE: "cp_step H db db'"
inductive_cases rstepE: "rstep H pool ttl s s'"

definition initial :: "database \<Rightarrow> rat \<Rightarrow> rstate" where
  "initial db t = \<lparr>rs_db = db, rs_cache = [], rs_now = t\<rparr>"

section \<open>Invariants\<close>

lemma record_revoked:
  assumes "db_ok db" "meter_record tok now day oid kid c db = Inr db'" "revoked db h"
  shows "revoked db' h"
proof -
  have "api_keys db' = api_keys (touch_key now kid db)" using meter_record_cases [OF assms(1,2)] by blast
  moreover have "revoked (touch_key now kid db) h"
    unfolding touch_key_def by (rule revoked_update [OF assms(3)]) (simp_all add: active_def)
  ultimately show ?thesis by (simp add: revoked_def usable_def)
qed

lemma cp_step_ok: "cp_step H db db' \<Longrightarrow> db_ok db \<Longrightarrow> db_ok db'"
  by (elim cp_stepE) (auto simp: create_key_def dest: signup_ok mint_key_ok rotate_ok revoke_ok meter_record_ok)

lemma cp_step_revoked: "cp_step H db db' \<Longrightarrow> db_ok db \<Longrightarrow> revoked db h \<Longrightarrow> revoked db' h"
  by (elim cp_stepE)
    (auto simp: create_key_def dest: signup_revoked mint_revoked rotate_revoked revoke_revoked record_revoked)

text \<open>No entry outlives the TTL, counted from now.\<close>

definition fresh :: "rat \<Rightarrow> rstate \<Rightarrow> bool" where
  "fresh ttl s \<longleftrightarrow> db_ok (rs_db s) \<and> dict_ok (rs_cache s) \<and> (\<forall>(h, e, p) \<in> set (rs_cache s). e \<le> rs_now s + ttl)"

text \<open>From a revocation at time \<open>t0\<close> on, an entry for the revoked digest is negative or expires
  by \<open>t0 + ttl\<close>.\<close>

definition dying :: "rat \<Rightarrow> string \<Rightarrow> rat \<Rightarrow> rstate \<Rightarrow> bool" where
  "dying ttl h t0 s \<longleftrightarrow> revoked (rs_db s) h \<and> (\<forall>e p. map_of (rs_cache s) h = Some (e, p) \<longrightarrow> p = None \<or> e \<le> t0 + ttl)"

lemma lookup_revoked: "db_ok db \<Longrightarrow> revoked db h \<Longrightarrow> lookup pool db h = Inr None"
proof -
  assume ok: "db_ok db" and r: "revoked db h"
  show ?thesis
  proof (cases "List.find (\<lambda>k. k_hash k = h) (api_keys db)")
    case None then show ?thesis by (simp add: lookup_def key_by_hash_total [OF ok])
  next
    case (Some k)
    then have "\<not> active k" using r by (auto simp: revoked_def usable_def dest: find_in)
    then show ?thesis using Some by (simp add: lookup_def key_by_hash_total [OF ok] active_def)
  qed
qed



lemma resolve_cache_cases:
  "snd (resolve_key H pool ttl db now secret cache) = cache
   \<or> (\<exists>h p. lookup pool db h = Inr p \<and> snd (resolve_key H pool ttl db now secret cache) = AList.update h (now + ttl, p) cache)"
  by (auto simp: resolve_key_def Let_def split: option.splits sum.splits)

lemma invalidate_subset: "set (invalidate H secret cache) \<subseteq> set cache"
  by (auto simp: invalidate_def split: option.splits list.splits dest!: set_delete_subset [THEN subsetD])

lemma invalidate_dict_ok: "dict_ok cache \<Longrightarrow> dict_ok (invalidate H secret cache)"
  by (auto simp: invalidate_def split: option.splits list.splits)

lemma rstep_fresh:
  assumes "rstep H pool ttl s s'" "fresh ttl s" shows "fresh ttl s'"
  using assms(1)
proof (cases rule: rstep.cases)
  case (rs_control db') then show ?thesis using assms(2) cp_step_ok by (auto simp: fresh_def)
next
  case (rs_time t)
  have "e \<le> t + ttl" if "(h, e, p) \<in> set (rs_cache s)" for h e p
    using assms(2) that rs_time(2) by (fastforce simp: fresh_def)
  then show ?thesis using assms(2) rs_time by (auto simp: fresh_def)
next
  case (rs_resolve secret)
  show ?thesis using resolve_cache_cases [of H pool ttl "rs_db s" "rs_now s" secret "rs_cache s"]
      assms(2) set_update_subset by (fastforce simp: fresh_def rs_resolve)
next
  case (rs_invalidate secret)
  show ?thesis using assms(2) invalidate_subset [of H secret "rs_cache s"] invalidate_dict_ok
    by (auto simp: fresh_def rs_invalidate)
qed

lemma invalidate_get: "map_of (invalidate H secret c) h = Some x \<Longrightarrow> map_of c h = Some x"
  by (auto simp: invalidate_def split: option.splits list.splits if_splits)

lemma rstep_dying:
  assumes "rstep H pool ttl s s'" "fresh ttl s" "dying ttl h t0 s" shows "dying ttl h t0 s'"
  using assms(1)
proof (cases rule: rstep.cases)
  case (rs_control db')
  then show ?thesis using assms(2,3) cp_step_revoked by (auto simp: fresh_def dying_def)
next
  case (rs_time t) then show ?thesis using assms(3) by (simp add: dying_def)
next
  case (rs_resolve secret)
  have "lookup pool (rs_db s) h = Inr None"
    using lookup_revoked assms(2,3) by (auto simp: fresh_def dying_def)
  then show ?thesis using resolve_cache_cases [of H pool ttl "rs_db s" "rs_now s" secret "rs_cache s"] assms(3)
    by (auto simp: dying_def rs_resolve split: if_splits)
next
  case (rs_invalidate secret)
  show ?thesis using assms(3) by (auto simp: dying_def rs_invalidate dest: invalidate_get)
qed

lemma rsteps_fresh: "(rstep H pool ttl)\<^sup>*\<^sup>* s s' \<Longrightarrow> fresh ttl s \<Longrightarrow> fresh ttl s'"
  by (induction rule: rtranclp_induct) (auto intro: rstep_fresh)

lemma rsteps_dying:
  "(rstep H pool ttl)\<^sup>*\<^sup>* s s' \<Longrightarrow> fresh ttl s \<Longrightarrow> dying ttl h t0 s \<Longrightarrow> dying ttl h t0 s'"
proof (induction rule: rtranclp_induct)
  case (step y z) then show ?case using rstep_dying rsteps_fresh by blast
qed simp

lemma initial_fresh: "db_ok db \<Longrightarrow> fresh ttl (initial db t)"
  by (simp add: fresh_def initial_def)

lemma fresh_dying: "fresh ttl s \<Longrightarrow> revoked (rs_db s) h \<Longrightarrow> dying ttl h (rs_now s) s"
  by (auto simp: fresh_def dying_def dest!: map_of_SomeD)

lemma resolve_dying:
  assumes "fresh ttl s" "dying ttl (H secret) t0 s" "t0 + ttl \<le> rs_now s"
  shows "fst (resolve_key H pool ttl (rs_db s) (rs_now s) (Some secret) (rs_cache s)) = Inr None"
proof -
  have "lookup pool (rs_db s) (H secret) = Inr None"
    using assms by (auto simp: fresh_def dying_def intro!: lookup_revoked)
  then show ?thesis using assms(2,3) by (auto simp: resolve_key_def Let_def dying_def split: option.splits)
qed

section \<open>Properties\<close>

text \<open>C38. Revocation propagates within the TTL: in every run of the control plane and the gateway's
  resolver, whatever was cached, once a key is revoked no resolution of its secret succeeds from
  one TTL later on, and no later operation makes it valid again.\<close>

theorem revoked_within_ttl:
  assumes "db_ok db0" "(rstep H pool ttl)\<^sup>*\<^sup>* (initial db0 t) s" "revoked (rs_db s) (H secret)"
    and "(rstep H pool ttl)\<^sup>*\<^sup>* s s'" "rs_now s + ttl \<le> rs_now s'"
  shows "fst (resolve_key H pool ttl (rs_db s') (rs_now s') (Some secret) (rs_cache s')) = Inr None
    \<and> revoked (rs_db s') (H secret)"
proof -
  have f: "fresh ttl s" by (rule rsteps_fresh [OF assms(2) initial_fresh [OF assms(1)]])
  have d: "dying ttl (H secret) (rs_now s) s'" by (rule rsteps_dying [OF assms(4) f fresh_dying [OF f assms(3)]])
  show ?thesis using resolve_dying [of ttl s' H secret "rs_now s"] rsteps_fresh [OF assms(4) f] d assms(5)
    by (simp add: dying_def)
qed

definition demo_revoked :: database where
  "demo_revoked = snd (revoke_key 1 ''org_1'' ''key_1'' demo_db)"

theorem revoked_within_ttl_witness:
  "\<exists>s. (rstep id '''' 30)\<^sup>*\<^sup>* (initial demo_db 0) s \<and> rs_now s = 30
    \<and> map_of (rs_cache s) ''dexa_live_1'' \<noteq> None \<and> rs_db s = demo_revoked
    \<and> fst (resolve_key id '''' 30 (rs_db s) (rs_now s) (Some ''dexa_live_1'') (rs_cache s)) = Inr None"
proof -
  let ?R = "rstep id '''' 30"
  define c where "c = snd (resolve_key id '''' 30 demo_db 0 (Some ''dexa_live_1'') [])"
  define s0 where "s0 = initial demo_db 0"
  define s1 where "s1 = s0\<lparr>rs_cache := c\<rparr>"
  define s2 where "s2 = s1\<lparr>rs_db := demo_revoked\<rparr>"
  define s3 where "s3 = s2\<lparr>rs_now := 30\<rparr>"
  have f: "rs_db s0 = demo_db" "rs_cache s0 = []" "rs_now s0 = 0" "rs_db s1 = demo_db" "rs_db s2 = demo_revoked"
    "rs_now s2 = 0" "rs_db s3 = demo_revoked" "rs_now s3 = 30" "rs_cache s3 = c"
    by (simp_all add: s0_def s1_def s2_def s3_def initial_def)
  have 1: "?R s0 s1" unfolding s1_def c_def using rs_resolve [of id "''''" 30 s0 "Some ''dexa_live_1''"] by (simp only: f)
  have 2: "?R s1 s2" unfolding s2_def
    by (rule rs_control) (unfold f demo_revoked_def, rule cp_revoke)
  have 3: "?R s2 s3" unfolding s3_def by (rule rs_time) (simp add: f)
  have r: "revoked demo_revoked ''dexa_live_1''"
    by (simp add: demo_revoked_def revoke_key_def get_key_def update_key_def demo_db_def demo_key_def revoked_def
      usable_def active_def)
  have c: "map_of c ''dexa_live_1'' \<noteq> None"
    by (simp add: c_def resolve_key_def lookup_def key_by_hash_def demo_db_def demo_key_def get_org_def
      looks_like_key_def starts_with_def Let_def)
  have "?R\<^sup>*\<^sup>* s0 s1" using 1 by (rule r_into_rtranclp)
  then have 12: "?R\<^sup>*\<^sup>* s0 s2" using 2 by (rule rtranclp.rtrancl_into_rtrancl)
  have 23: "?R\<^sup>*\<^sup>* s2 s3" using 3 by (rule r_into_rtranclp)
  have "fst (resolve_key id '''' 30 (rs_db s3) (rs_now s3) (Some ''dexa_live_1'') (rs_cache s3)) = Inr None"
    by (rule revoked_within_ttl [OF demo_db_ok 12 [unfolded s0_def] _ 23, THEN conjunct1]) (simp_all add: f r)
  moreover have "?R\<^sup>*\<^sup>* (initial demo_db 0) s3" unfolding s0_def [symmetric] by (rule rtranclp_trans [OF 12 23])
  ultimately show ?thesis using c f by (intro exI [of _ s3] conjI) simp_all
qed

text \<open>An invalidated secret is resolved against the database again at once: the next resolution
  is exactly the lookup, so it reflects a revocation without waiting for the TTL.\<close>

theorem invalidate_then_resolve:
  "fst (resolve_key H pool ttl db now (Some (''dexa_live_'' @ x))
     (invalidate H (Some (''dexa_live_'' @ x)) cache)) = lookup pool db (H (''dexa_live_'' @ x))"
proof -
  have l: "looks_like_key (Some (''dexa_live_'' @ x))" by (simp add: looks_like_key_def starts_with_def)
  have "map_of (invalidate H (Some (''dexa_live_'' @ x)) cache) (H (''dexa_live_'' @ x)) = None"
    by (simp add: invalidate_def)
  with l show ?thesis by (auto simp: resolve_key_def Let_def split: sum.splits)
qed

end
