(* ===== verification/Redundancy.thy ===== *)
theory Redundancy imports Prelude begin

text \<open>
  The session redundancy meter, \<^verbatim>\<open>src/dexa_platform/gateway/redundancy.py\<close>. Image bytes are of
  any type \<open>'b\<close>; the digest \<open>H\<close> (SHA-256) and the decoder \<open>luma\<close> (Pillow: the luma
  matrix, \<^const>\<open>None\<close> when it raises) are parameters, and \<open>cv\<close> says whether the imaging
  libraries are installed. \<^verbatim>\<open>observe\<close> returns its outcome together with the meter, which an
  exception leaves half updated.
\<close>

definition PATCH :: nat where "PATCH = 28"
definition THRESH :: rat where "THRESH = 6"

type_synonym grid = "rat list list"

record observation =
  first_frame :: bool
  exact_duplicate :: bool
  changed_frac :: rat
  redundant_frac :: rat

definition n_cols :: "'a list list \<Rightarrow> nat" where
  "n_cols a = (case a of [] \<Rightarrow> 0 | r # _ \<Rightarrow> length r)"

definition patch_mean :: "int list list \<Rightarrow> nat \<Rightarrow> nat \<Rightarrow> rat" where
  "patch_mean a i j =
     of_int (sum_list (map (\<lambda>r. sum_list (take PATCH (drop (j * PATCH) r))) (take PATCH (drop (i * PATCH) a))))
     / of_nat (PATCH * PATCH)"

definition patch_grid :: "int list list \<Rightarrow> grid option" where
  "patch_grid a =
     (let h = (length a div PATCH) * PATCH; w = (n_cols a div PATCH) * PATCH in
      if h = 0 \<or> w = 0 then None
      else Some (map (\<lambda>i. map (patch_mean a i) [0..<w div PATCH]) [0..<h div PATCH]))"

definition changed_fraction :: "grid \<Rightarrow> grid \<Rightarrow> rat" where
  "changed_fraction prev cur =
     (let gh = min (length prev) (length cur); gw = min (n_cols prev) (n_cols cur);
          d = concat (map (\<lambda>i. map (\<lambda>j. \<bar>prev ! i ! j - cur ! i ! j\<bar>) [0..<gw]) [0..<gh])
      in of_nat (length (filter (\<lambda>x. x > THRESH) d)) / of_nat (gh * gw))"

record meter =
  m_hash :: "string \<Rightarrow> string option"
  m_grid :: "string \<Rightarrow> grid option"

definition new_meter :: meter where
  "new_meter = \<lparr>m_hash = Map.empty, m_grid = Map.empty\<rparr>"

definition observation_of :: "bool \<Rightarrow> bool \<Rightarrow> rat \<Rightarrow> observation" where
  "observation_of first exact changed =
     \<lparr>first_frame = first, exact_duplicate = exact, changed_frac = changed, redundant_frac = max 0 (1 - changed)\<rparr>"

definition set_grid :: "string \<Rightarrow> grid option \<Rightarrow> meter \<Rightarrow> meter" where
  "set_grid session g m = (case g of None \<Rightarrow> m | Some c \<Rightarrow> m\<lparr>m_grid := (m_grid m)(session \<mapsto> c)\<rparr>)"

text \<open>The tail of \<^verbatim>\<open>observe\<close>: store the digest, keep a grid for a session that has none.\<close>

definition observe_tail ::
    "('b \<Rightarrow> string) \<Rightarrow> ('b \<Rightarrow> int list list option) \<Rightarrow> bool \<Rightarrow> string \<Rightarrow> 'b \<Rightarrow> bool \<Rightarrow> bool \<Rightarrow> rat \<Rightarrow> meter
     \<Rightarrow> observation result \<times> meter" where
  "observe_tail H luma cv session img first exact changed m0 =
     (let m = m0\<lparr>m_hash := (m_hash m0)(session \<mapsto> H img)\<rparr>; ob = observation_of first exact changed in
      if \<not> exact \<and> cv \<and> m_grid m session = None
      then (case luma img of
              None \<Rightarrow> (Inl (RuntimeError ''UnidentifiedImageError''), m)
            | Some a \<Rightarrow> (Inr ob, set_grid session (patch_grid a) m))
      else (Inr ob, m))"

definition observe ::
    "('b \<Rightarrow> string) \<Rightarrow> ('b \<Rightarrow> int list list option) \<Rightarrow> bool \<Rightarrow> string \<Rightarrow> 'b \<Rightarrow> meter
     \<Rightarrow> observation result \<times> meter" where
  "observe H luma cv session img m =
     (let first = (m_hash m session = None); exact = (\<not> first \<and> m_hash m session = Some (H img)) in
      if exact then observe_tail H luma cv session img first exact 0 m
      else if first then observe_tail H luma cv session img first exact 1 m
      else if cv then
        (case luma img of
           None \<Rightarrow> (Inl (RuntimeError ''UnidentifiedImageError''), m)
         | Some a \<Rightarrow>
             (let cur = patch_grid a;
                  changed = (case (m_grid m session, cur) of (Some p, Some c) \<Rightarrow> changed_fraction p c | _ \<Rightarrow> 1)
              in observe_tail H luma cv session img first exact changed (set_grid session cur m)))
      else observe_tail H luma cv session img first exact 1 m)"

section \<open>Lemmas\<close>

lemma patch_grid_shape:
  "patch_grid a = Some g \<Longrightarrow> 0 < length g \<and> 0 < n_cols g \<and> (\<forall>r\<in>set g. length r = n_cols g)"
proof -
  assume "patch_grid a = Some g"
  then obtain h w where g: "0 < h" "0 < w" "g = map (\<lambda>i. map (patch_mean a i) [0..<w]) [0..<h]"
    by (auto simp: patch_grid_def Let_def PATCH_def split: if_splits)
  then have "n_cols g = w" by (simp add: n_cols_def upt_conv_Cons)
  with g show ?thesis by auto
qed

lemma length_concat_const: "length (concat (map (\<lambda>i. map (f i) [0..<w]) [0..<h])) = h * w"
  by (induction h) auto

lemma changed_fraction_bounds: "0 \<le> changed_fraction p c \<and> changed_fraction p c \<le> 1"
proof -
  let ?h = "min (length p) (length c)" and ?w = "min (n_cols p) (n_cols c)"
  let ?d = "concat (map (\<lambda>i. map (\<lambda>j. \<bar>p ! i ! j - c ! i ! j\<bar>) [0..<?w]) [0..<?h])"
  have "length (filter (\<lambda>x. x > THRESH) ?d) \<le> ?h * ?w"
    using length_filter_le [of "\<lambda>x. x > THRESH" ?d] length_concat_const by metis
  then have "of_nat (length (filter (\<lambda>x. x > THRESH) ?d)) \<le> (of_nat (?h * ?w) :: rat)"
    by (simp only: of_nat_le_iff)
  then show ?thesis unfolding changed_fraction_def Let_def by (auto simp: divide_simps)
qed

lemma changed_fraction_self [simp]: "changed_fraction p p = 0"
proof -
  have "filter (\<lambda>x. x > THRESH) (concat (map (\<lambda>i. map (\<lambda>j. \<bar>p ! i ! j - p ! i ! j\<bar>) [0..<w]) [0..<h])) = []" for w h
    by (auto simp: THRESH_def filter_empty_conv)
  then show ?thesis unfolding changed_fraction_def Let_def min.idem by simp
qed

definition obs_ok :: "observation \<Rightarrow> bool" where
  "obs_ok o1 \<longleftrightarrow> 0 \<le> changed_frac o1 \<and> changed_frac o1 \<le> 1 \<and> redundant_frac o1 = 1 - changed_frac o1
     \<and> (first_frame o1 \<longrightarrow> redundant_frac o1 = 0) \<and> (exact_duplicate o1 \<longrightarrow> redundant_frac o1 = 1)
     \<and> \<not> (first_frame o1 \<and> exact_duplicate o1)"

lemma observe_tail_result:
  assumes "observe_tail H luma cv s img first exact changed m = (Inr ob, m')"
  shows "ob = observation_of first exact changed"
  using assms unfolding observe_tail_def Let_def by (auto split: if_splits option.splits)

lemma observe_tail_frame:
  assumes "observe_tail H luma cv s img first exact changed m = (r, m')"
  shows "m_hash m' = (m_hash m)(s \<mapsto> H img) \<and> (\<forall>t. t \<noteq> s \<longrightarrow> m_grid m' t = m_grid m t)"
  using assms unfolding observe_tail_def Let_def
  by (auto simp: set_grid_def split: if_splits option.splits)

lemma set_grid_frame [simp]:
  "m_hash (set_grid s g m) = m_hash m" "t \<noteq> s \<Longrightarrow> m_grid (set_grid s g m) t = m_grid m t"
  by (auto simp: set_grid_def split: option.splits)

text \<open>What an observation says: the flags are exactly the digest comparison, the fractions are sound.\<close>

lemma observe_spec:
  assumes "observe H luma cv s img m = (Inr ob, m')"
  shows "first_frame ob \<longleftrightarrow> m_hash m s = None" "exact_duplicate ob \<longleftrightarrow> m_hash m s = Some (H img)" "obs_ok ob"
    "m_hash m' = (m_hash m)(s \<mapsto> H img)"
proof -
  have "\<exists>changed m0. observe_tail H luma cv s img (m_hash m s = None) (m_hash m s = Some (H img)) changed m0 = (Inr ob, m')
      \<and> 0 \<le> changed \<and> changed \<le> 1 \<and> m_hash m0 = m_hash m
      \<and> (m_hash m s = None \<longrightarrow> changed = 1) \<and> (m_hash m s = Some (H img) \<longrightarrow> changed = 0)"
    using assms changed_fraction_bounds unfolding observe_def Let_def
    by (auto split: if_splits option.splits) (fastforce+)?
  then obtain c m0 where c: "observe_tail H luma cv s img (m_hash m s = None) (m_hash m s = Some (H img)) c m0 = (Inr ob, m')"
      "0 \<le> c" "c \<le> 1" "m_hash m0 = m_hash m" "m_hash m s = None \<longrightarrow> c = 1" "m_hash m s = Some (H img) \<longrightarrow> c = 0"
    by (elim exE conjE) (rule that)
  have ob: "ob = observation_of (m_hash m s = None) (m_hash m s = Some (H img)) c"
    by (rule observe_tail_result [OF c(1)])
  show "first_frame ob \<longleftrightarrow> m_hash m s = None" "exact_duplicate ob \<longleftrightarrow> m_hash m s = Some (H img)"
    by (simp_all add: ob observation_of_def)
  show "obs_ok ob" using c(2,3,5,6) by (auto simp: ob observation_of_def obs_ok_def)
  show "m_hash m' = (m_hash m)(s \<mapsto> H img)" using observe_tail_frame [OF c(1)] c(4) by simp
qed

text \<open>A session's observation reads and writes only that session's entries.\<close>

lemma observe_isolated:
  assumes "observe H luma cv s img m = (r, m')" "t \<noteq> s"
  shows "m_hash m' t = m_hash m t \<and> m_grid m' t = m_grid m t"
  using assms unfolding observe_def Let_def
  by (auto dest!: observe_tail_frame split: if_splits option.splits)

section \<open>Histories\<close>

text \<open>The abstract meter is the history of frames: what it says about a frame depends only on the
  last frame of the same session.\<close>

fun last_frame :: "string \<Rightarrow> (string \<times> 'b) list \<Rightarrow> 'b option" where
  "last_frame s [] = None"
| "last_frame s ((t, img) # h) = (case last_frame s h of Some i \<Rightarrow> Some i | None \<Rightarrow> if t = s then Some img else None)"

fun observe_all ::
    "('b \<Rightarrow> string) \<Rightarrow> ('b \<Rightarrow> int list list option) \<Rightarrow> bool \<Rightarrow> (string \<times> 'b) list \<Rightarrow> meter \<Rightarrow> meter result" where
  "observe_all H luma cv [] m = Inr m"
| "observe_all H luma cv ((s, img) # h) m =
     (case observe H luma cv s img m of (Inl e, _) \<Rightarrow> Inl e | (Inr _, m') \<Rightarrow> observe_all H luma cv h m')"

lemma observe_all_hash:
  "observe_all H luma cv h m = Inr m' \<Longrightarrow>
   m_hash m' s = (case last_frame s h of Some i \<Rightarrow> Some (H i) | None \<Rightarrow> m_hash m s)"
proof (induction h arbitrary: m)
  case (Cons p h)
  obtain t i where p: "p = (t, i)" by (cases p)
  obtain ob m1 where o1: "observe H luma cv t i m = (Inr ob, m1)" "observe_all H luma cv h m1 = Inr m'"
    using Cons.prems by (auto simp: p split: prod.splits sum.splits)
  from Cons.IH [OF o1(2)] observe_spec(4) [OF o1(1)] show ?case by (auto simp: p split: option.splits)
qed simp

section \<open>Properties\<close>

text \<open>After any history of frames, an observation is exact: a frame is first when its session
  sent none before, a duplicate exactly when its digest is that of the session's previous frame,
  and the reported fractions lie between 0 and 1, add up to 1, and are 0 for a first frame and 1
  for a duplicate.\<close>

theorem observe_refines_history:
  assumes "observe_all H luma cv h new_meter = Inr m" "observe H luma cv s img m = (Inr ob, m')"
  shows "first_frame ob = (last_frame s h = None)
    \<and> exact_duplicate ob = (map_option H (last_frame s h) = Some (H img)) \<and> obs_ok ob"
  using observe_all_hash [OF assms(1), of s] observe_spec(1-3) [OF assms(2)]
  by (auto simp: new_meter_def split: option.splits)

definition luma_demo :: "string \<Rightarrow> int list list option" where
  "luma_demo b = (if b = ''corrupt'' then None else Some [])"

theorem observe_refines_history_witness:
  "\<exists>m m' ob. observe_all id luma_demo True [(''s'', ''a''), (''t'', ''b'')] new_meter = Inr m
    \<and> observe id luma_demo True ''s'' ''a'' m = (Inr ob, m')
    \<and> \<not> first_frame ob \<and> exact_duplicate ob \<and> obs_ok ob"
proof -
  let ?m = "\<lparr>m_hash = [''s'' \<mapsto> ''a'', ''t'' \<mapsto> ''b''], m_grid = Map.empty\<rparr>"
  have 1: "observe_all id luma_demo True [(''s'', ''a''), (''t'', ''b'')] new_meter = Inr ?m"
    by (simp add: observe_def observe_tail_def new_meter_def luma_demo_def patch_grid_def set_grid_def Let_def)
  have 2: "observe id luma_demo True ''s'' ''a'' ?m = (Inr (observation_of False True 0), ?m)"
    by (auto simp: observe_def observe_tail_def Let_def)
  from observe_refines_history [OF 1 2] have "\<not> first_frame (observation_of False True 0)"
    "exact_duplicate (observation_of False True 0)" "obs_ok (observation_of False True 0)" by simp_all
  with 1 2 show ?thesis by blast
qed

text \<open>An image that Pillow cannot decode makes \<^verbatim>\<open>observe\<close> raise on a session's first frame, but
  the digest is already stored, so the identical retry is reported as an exact duplicate of a
  frame that was never processed.\<close>

theorem observe_undecodable_retry:
  "fst (observe H luma_demo True s ''corrupt'' new_meter) = Inl (RuntimeError ''UnidentifiedImageError'')
   \<and> map_sum id exact_duplicate (fst (observe H luma_demo True s ''corrupt''
       (snd (observe H luma_demo True s ''corrupt'' new_meter)))) = Inr True"
  by (simp add: observe_def observe_tail_def new_meter_def luma_demo_def observation_of_def Let_def)

end
