(* ===== verification/Gateway.thy ===== *)
theory Gateway imports Redundancy Resolver begin

text \<open>
  The gateway, \<^verbatim>\<open>src/dexa_platform/gateway/app.py\<close>. The handler of
  \<^verbatim>\<open>/v1/chat/completions\<close> is modelled in its two halves around the one point where it waits
  for the backend: \<open>chat_begin\<close> authenticates, checks the quota, measures the frame and decides
  between the cached completion, the mock and the backend; \<open>chat_finish\<close> caches, prices, records
  and answers. Bytes are lists of numbers below 256. Parameters (in \<open>config\<close>): SHA-256 of bytes and
  of text, Pillow's size and luma of an image, the registry or the accounts mode's pool and TTL.
\<close>

section \<open>Requests\<close>

type_synonym bytes = "nat list"

datatype part = TextPart string | ImagePart string | OtherPart

text \<open>A message's content: a string, or a list of parts (null counts as the empty list).\<close>

datatype content = Str string | Parts "part list"

record request =
  rq_authorization :: string
  rq_api_key :: "string option"
  rq_session :: "string option"
  rq_baseline :: "string option"
  rq_user :: "string option"
  rq_messages :: "content list"

definition tok_estimate :: "string \<Rightarrow> int" where
  "tok_estimate text = max 1 \<lceil>of_nat (length text) / 4 :: rat\<rceil>"

definition to_lower :: "char \<Rightarrow> char" where
  "to_lower c = (if 65 \<le> (of_char c :: nat) \<and> (of_char c :: nat) \<le> 90 then char_of ((of_char c :: nat) + 32) else c)"

definition is_space :: "char \<Rightarrow> bool" where
  "is_space c \<longleftrightarrow> (of_char c :: nat) \<in> {9, 10, 11, 12, 13, 28, 29, 30, 31, 32}"

definition strip :: "string \<Rightarrow> string" where
  "strip s = rev (dropWhile is_space (rev (dropWhile is_space s)))"

definition bearer :: "request \<Rightarrow> string option" where
  "bearer r =
     (if starts_with ''bearer '' (map to_lower (rq_authorization r))
      then Some (strip (drop 7 (rq_authorization r))) else rq_api_key r)"

section \<open>Base64 and data URIs\<close>

definition b64_value :: "char \<Rightarrow> nat option" where
  "b64_value c =
     (let n = of_char c :: nat in
      if 65 \<le> n \<and> n \<le> 90 then Some (n - 65) else if 97 \<le> n \<and> n \<le> 122 then Some (n - 71)
      else if 48 \<le> n \<and> n \<le> 57 then Some (n + 4) else if n = 43 then Some 62
      else if n = 47 then Some 63 else None)"

text \<open>\<^verbatim>\<open>binascii.a2b_base64\<close> in its lenient mode: characters outside the alphabet are skipped,
  padding ends a quantum, input that ends inside one is an error.\<close>

fun b64_loop :: "nat \<Rightarrow> nat \<Rightarrow> nat \<Rightarrow> string \<Rightarrow> bytes option" where
  "b64_loop quad left pads [] = (if quad = 0 then Some [] else None)"
| "b64_loop quad left pads (c # cs) =
     (if c = CHR ''='' then
        (if quad \<ge> 2 \<and> quad + Suc pads \<ge> 4 then Some []
         else b64_loop quad left (if quad \<ge> 2 then Suc pads else pads) cs)
      else case b64_value c of
        None \<Rightarrow> b64_loop quad left pads cs
      | Some v \<Rightarrow>
          if quad = 0 then b64_loop 1 v 0 cs
          else if quad = 1 then map_option (Cons (left * 4 + v div 16)) (b64_loop 2 (v mod 16) 0 cs)
          else if quad = 2 then map_option (Cons (left * 16 + v div 4)) (b64_loop 3 (v mod 4) 0 cs)
          else map_option (Cons (left * 64 + v)) (b64_loop 0 0 0 cs))"

definition b64decode :: "string \<Rightarrow> bytes option" where
  "b64decode s = (if \<exists>c\<in>set s. (of_char c :: nat) \<ge> 128 then None else b64_loop 0 0 0 s)"

text \<open>\<^verbatim>\<open>^data:image/[^;]+;base64,(.*)$\<close>: the payload of a matching URI.\<close>

definition data_uri :: "string \<Rightarrow> string option" where
  "data_uri url =
     (if starts_with ''data:image/'' url then
        let rest = drop 11 url; sub = takeWhile (\<lambda>c. c \<noteq> CHR '';'') rest; tl = drop (length sub) rest in
        if sub \<noteq> [] \<and> starts_with '';base64,'' tl then Some (drop 8 tl) else None
      else None)"

definition img_dims :: "(bytes \<Rightarrow> (int \<times> int) option) \<Rightarrow> bytes \<Rightarrow> int \<times> int" where
  "img_dims pil raw = (case pil raw of None \<Rightarrow> (1280, 800) | Some d \<Rightarrow> d)"

fun extract_part ::
    "(bytes \<Rightarrow> (int \<times> int) option) \<Rightarrow> part \<Rightarrow> (int \<times> int) list \<times> bytes list \<times> string list" where
  "extract_part pil (TextPart t) = ([], [], [t])"
| "extract_part pil (ImagePart url) =
     (case data_uri url of
        None \<Rightarrow> ([(1280, 800)], [], [])
      | Some payload \<Rightarrow>
          (case b64decode payload of
             None \<Rightarrow> ([(1280, 800)], [], [])
           | Some raw \<Rightarrow> ([img_dims pil raw], [raw], [])))"
| "extract_part pil OtherPart = ([], [], [])"

fun extract_content ::
    "(bytes \<Rightarrow> (int \<times> int) option) \<Rightarrow> content \<Rightarrow> (int \<times> int) list \<times> bytes list \<times> string list" where
  "extract_content pil (Str s) = ([], [], [s])"
| "extract_content pil (Parts ps) =
     (let xs = map (extract_part pil) ps
      in (concat (map fst xs), concat (map (fst \<circ> snd) xs), concat (map (snd \<circ> snd) xs)))"

definition extract_messages ::
    "(bytes \<Rightarrow> (int \<times> int) option) \<Rightarrow> content list \<Rightarrow> (int \<times> int) list \<times> bytes list \<times> string" where
  "extract_messages pil messages =
     (let xs = map (extract_content pil) messages
      in (concat (map fst xs), concat (map (fst \<circ> snd) xs), join_with [CHR 0x0A] (concat (map (snd \<circ> snd) xs))))"

section \<open>Responses and state\<close>

record info =
  i_savings :: savings_view
  i_tenant :: string
  i_mode :: string
  i_session :: string
  i_redundancy_pct :: rat
  i_served_from_cache :: bool

text \<open>A completion as the gateway reads it: the reported completion tokens, and the content of the
  first choice (\<^const>\<open>None\<close> where there is no choice to read).\<close>

record response =
  rsp_model :: string
  rsp_completion_tokens :: "int option"
  rsp_message :: "string option option"
  rsp_dexa :: "info option"

definition mock_completion :: "string \<Rightarrow> string \<Rightarrow> response" where
  "mock_completion model prompt =
     \<lparr>rsp_model = model, rsp_completion_tokens = Some (tok_estimate ''CLICK(640, 384)''),
      rsp_message = Some (Some ''CLICK(640, 384)''), rsp_dexa = None\<rparr>"

record gateway =
  g_meter :: meter
  g_cache :: "(string, string \<times> string \<times> response) dict"
  g_ledger :: ledger
  g_db :: database
  g_keys :: key_cache

record config =
  cf_accounts :: bool
  cf_registry :: registry
  cf_hash_secret :: "string \<Rightarrow> string"
  cf_pool :: string
  cf_ttl :: rat
  cf_hash_img :: "bytes \<Rightarrow> string"
  cf_hash_text :: "string \<Rightarrow> string"
  cf_size :: "bytes \<Rightarrow> (int \<times> int) option"
  cf_luma :: "bytes \<Rightarrow> int list list option"
  cf_cv :: bool

datatype choice = Hit response | Mock | Forward

record ticket =
  tk_route :: route
  tk_ids :: "(string \<times> string) option"
  tk_session :: string
  tk_raw_session :: string
  tk_baseline :: string
  tk_dims :: "(int \<times> int) list"
  tk_text :: string
  tk_redundant :: rat
  tk_img_hash :: string
  tk_text_hash :: string
  tk_choice :: choice

datatype outcome = Refused nat | Crash py_exc | Ready ticket

section \<open>First half\<close>

text \<open>Authentication and quota: the principal's route and ids, or the status refused with.\<close>

definition authenticate ::
    "config \<Rightarrow> rat \<Rightarrow> request \<Rightarrow> gateway \<Rightarrow> (nat + py_exc) + (route \<times> (string \<times> string) option) \<times> gateway" where
  "authenticate cf now rq g =
     (if cf_accounts cf then
        (case resolve_key (cf_hash_secret cf) (cf_pool cf) (cf_ttl cf) (g_db g) now (bearer rq) (g_keys g) of
           (Inl e, _) \<Rightarrow> Inl (Inr e)
         | (Inr None, ks) \<Rightarrow> Inl (Inl 401)
         | (Inr (Some p), ks) \<Rightarrow>
             if \<not> quota_ok (g_db g) (pr_org_id p) then Inl (Inl 402)
             else Inr ((pr_tenant p, Some (pr_org_id p, pr_key_id p)), g\<lparr>g_keys := ks\<rparr>))
      else
        (case resolve (cf_registry cf) (bearer rq) of
           None \<Rightarrow> Inl (Inl 401)
         | Some t \<Rightarrow> Inr ((route.truncate t, None), g)))"

definition or_default :: "string option \<Rightarrow> string \<Rightarrow> string" where
  "or_default x d = (case x of Some (c # cs) \<Rightarrow> c # cs | _ \<Rightarrow> d)"

definition raw_session :: "request \<Rightarrow> string" where
  "raw_session rq = or_default (rq_session rq) (or_default (rq_user rq) ''default'')"

definition session_key :: "route \<Rightarrow> request \<Rightarrow> string" where
  "session_key t rq = t_name t @ ''/'' @ raw_session rq"

definition baseline_model :: "route \<Rightarrow> request \<Rightarrow> string" where
  "baseline_model t rq =
     (let b = (case rq_baseline rq of None \<Rightarrow> default_baseline t | Some b \<Rightarrow> b)
      in if map_of PRICES b = None then ''gpt-4o'' else b)"

text \<open>The decision, after the frame was observed (\<open>obs\<close> is absent for a request without bytes).\<close>

definition decide_choice ::
    "config \<Rightarrow> route \<Rightarrow> string \<Rightarrow> bool \<Rightarrow> string \<Rightarrow> string \<Rightarrow> gateway \<Rightarrow> choice" where
  "decide_choice cf t session exact_dup img_hash text_hash g =
     (case (if cache_enabled t then map_of (g_cache g) session else None) of
        Some (ih, th, resp) \<Rightarrow>
          if exact_dup \<and> ih = img_hash \<and> th = text_hash then Hit resp
          else if uses_mock t then Mock else Forward
      | None \<Rightarrow> if uses_mock t then Mock else Forward)"

definition make_ticket ::
    "config \<Rightarrow> route \<Rightarrow> (string \<times> string) option \<Rightarrow> request \<Rightarrow> gateway \<Rightarrow> rat \<Rightarrow> bool \<Rightarrow> ticket" where
  "make_ticket cf t ids rq g redundant exact_dup =
     (let (dims, imgs, text) = extract_messages (cf_size cf) (rq_messages rq); session = session_key t rq;
          ih = (if imgs = [] then '''' else cf_hash_img cf (last imgs)); th = cf_hash_text cf text
      in \<lparr>tk_route = t, tk_ids = ids, tk_session = session, tk_raw_session = raw_session rq,
          tk_baseline = baseline_model t rq, tk_dims = dims, tk_text = text, tk_redundant = redundant,
          tk_img_hash = ih, tk_text_hash = th,
          tk_choice = decide_choice cf t session exact_dup ih th g\<rparr>)"

definition chat_begin :: "config \<Rightarrow> rat \<Rightarrow> request \<Rightarrow> gateway \<Rightarrow> outcome \<times> gateway" where
  "chat_begin cf now rq g =
     (case authenticate cf now rq g of
        Inl (Inl status) \<Rightarrow>
          (Refused status,
           if cf_accounts cf
           then g\<lparr>g_keys := snd (resolve_key (cf_hash_secret cf) (cf_pool cf) (cf_ttl cf) (g_db g) now (bearer rq) (g_keys g))\<rparr>
           else g)
      | Inl (Inr e) \<Rightarrow> (Crash e, g)
      | Inr ((t, ids), g1) \<Rightarrow>
          (let imgs = fst (snd (extract_messages (cf_size cf) (rq_messages rq))) in
           if imgs = [] then (Ready (make_ticket cf t ids rq g1 1 False), g1)
           else case observe (cf_hash_img cf) (cf_luma cf) (cf_cv cf) (session_key t rq) (last imgs) (g_meter g1) of
                  (Inl e, m) \<Rightarrow> (Crash e, g1\<lparr>g_meter := m\<rparr>)
                | (Inr ob, m) \<Rightarrow>
                    (Ready (make_ticket cf t ids rq g1 (redundant_frac ob) (exact_duplicate ob)), g1\<lparr>g_meter := m\<rparr>)))"

section \<open>Second half\<close>

record reply =
  rp_response :: response
  rp_cost_usd :: rat
  rp_baseline_usd :: rat
  rp_saved_usd :: rat
  rp_saved_pct :: rat
  rp_x_cheaper :: "rat option"
  rp_redundancy_pct :: rat
  rp_cache_hit :: bool
  rp_baseline_model :: string
  rp_tenant :: string

definition out_tokens :: "response \<Rightarrow> int result" where
  "out_tokens r =
     (case rsp_completion_tokens r of
        Some n \<Rightarrow> if n \<noteq> 0 then Inr n
                  else (case rsp_message r of None \<Rightarrow> Inl (KeyError ''choices'')
                        | Some c \<Rightarrow> Inr (tok_estimate (case c of None \<Rightarrow> '''' | Some s \<Rightarrow> s)))
      | None \<Rightarrow> (case rsp_message r of None \<Rightarrow> Inl (KeyError ''choices'')
                 | Some c \<Rightarrow> Inr (tok_estimate (case c of None \<Rightarrow> '''' | Some s \<Rightarrow> s))))"

text \<open>What the request is charged: a cache hit is free and saves the whole baseline.\<close>

definition price :: "ticket \<Rightarrow> int \<Rightarrow> bool \<Rightarrow> savings result" where
  "price tk out hit =
     res_bind (compare_models (tk_dims tk) (tok_estimate (tk_text tk)) out (tk_baseline tk) ''dexa-cua-vlm'')
       (\<lambda>s. Inr (if hit then s\<lparr>ours := (ours s)\<lparr>c_usd := 0\<rparr>, saved_usd := c_usd (baseline s), saved_pct := 100,
                              x_cheaper := None\<rparr> else s))"

definition charge_of :: "savings \<Rightarrow> rat \<Rightarrow> bool \<Rightarrow> charge" where
  "charge_of s redundant hit =
     \<lparr>ch_dexa_usd = c_usd (ours s), ch_baseline_usd = c_usd (baseline s), ch_saved_usd = saved_usd s,
      ch_dexa_image_tokens = c_image_tokens (ours s), ch_baseline_image_tokens = c_image_tokens (baseline s),
      ch_redundant_frac = redundant, ch_cache_hit = hit\<rparr>"

definition info_of :: "ticket \<Rightarrow> savings \<Rightarrow> bool \<Rightarrow> info" where
  "info_of tk s hit = \<lparr>i_savings = as_dict s, i_tenant = t_name (tk_route tk), i_mode = t_mode (tk_route tk),
     i_session = tk_raw_session tk, i_redundancy_pct = round_to 1 (100 * tk_redundant tk), i_served_from_cache = hit\<rparr>"

definition reply_of :: "ticket \<Rightarrow> savings \<Rightarrow> bool \<Rightarrow> response \<Rightarrow> reply" where
  "reply_of tk s hit r = \<lparr>rp_response = r, rp_cost_usd = round_to 8 (c_usd (ours s)),
     rp_baseline_usd = round_to 8 (c_usd (baseline s)), rp_saved_usd = round_to 8 (saved_usd s),
     rp_saved_pct = round_to 1 (saved_pct s), rp_x_cheaper = map_option (round_to 1) (x_cheaper s),
     rp_redundancy_pct = round_to 1 (100 * tk_redundant tk), rp_cache_hit = hit,
     rp_baseline_model = tk_baseline tk, rp_tenant = t_name (tk_route tk)\<rparr>"

text \<open>\<^verbatim>\<open>_cache[session]\<close> and the reply share one dictionary, so the telemetry added to the reply
  shows in the cached response too.\<close>

definition cache_put :: "ticket \<Rightarrow> response \<Rightarrow> gateway \<Rightarrow> gateway" where
  "cache_put tk r g =
     (if cache_enabled (tk_route tk)
      then g\<lparr>g_cache := AList.update (tk_session tk) (tk_img_hash tk, tk_text_hash tk, r) (g_cache g)\<rparr> else g)"

definition is_hit :: "ticket \<Rightarrow> bool" where
  "is_hit tk = (case tk_choice tk of Hit _ \<Rightarrow> True | _ \<Rightarrow> False)"

text \<open>The backend's answer is \<^const>\<open>None\<close> when it failed; the token and day are for a new usage row.\<close>

definition chat_finish ::
    "rat \<Rightarrow> string \<Rightarrow> string \<Rightarrow> ticket \<Rightarrow> response option \<Rightarrow> gateway \<Rightarrow> (nat + py_exc + reply) \<times> gateway" where
  "chat_finish now tok day tk backend g =
     (case (case tk_choice tk of Hit r \<Rightarrow> Some r | Mock \<Rightarrow> Some (mock_completion ''dexa-cua-vlm'' (tk_text tk))
            | Forward \<Rightarrow> backend) of
        None \<Rightarrow> (Inl 502, g)
      | Some r0 \<Rightarrow>
          (let r = r0\<lparr>rsp_model := ''dexa-cua-vlm''\<rparr>; g1 = cache_put tk r g in
           case res_bind (out_tokens r) (\<lambda>out. price tk out (is_hit tk)) of
             Inl e \<Rightarrow> (Inr (Inl e), g1)
           | Inr s \<Rightarrow>
               (let r2 = r\<lparr>rsp_dexa := Some (info_of tk s (is_hit tk))\<rparr>; ok = Inr (Inr (reply_of tk s (is_hit tk) r2)) in
                case tk_ids tk of
                  Some (oid, kid) \<Rightarrow>
                    (case meter_record tok now day oid kid (charge_of s (tk_redundant tk) (is_hit tk)) (g_db g1) of
                       Inl e \<Rightarrow> (Inr (Inl e), g1)
                     | Inr db \<Rightarrow> (ok, (cache_put tk r2 g1)\<lparr>g_db := db\<rparr>))
                | None \<Rightarrow>
                    (ok, (cache_put tk r2 g1)\<lparr>g_ledger :=
                            ledger_record now (tk_session tk) s (tk_redundant tk) (is_hit tk) (g_ledger g1)\<rparr>))))"

text \<open>The whole handler, with the backend as a function of the request's ticket.\<close>

definition chat_completions ::
    "config \<Rightarrow> (ticket \<Rightarrow> response option) \<Rightarrow> rat \<Rightarrow> string \<Rightarrow> string \<Rightarrow> request \<Rightarrow> gateway
     \<Rightarrow> (nat + py_exc + reply) \<times> gateway" where
  "chat_completions cf fwd now tok day rq g =
     (case chat_begin cf now rq g of
        (Refused status, g1) \<Rightarrow> (Inl status, g1)
      | (Crash e, g1) \<Rightarrow> (Inr (Inl e), g1)
      | (Ready tk, g1) \<Rightarrow> chat_finish now tok day tk (fwd tk) g1)"

definition usage :: "config \<Rightarrow> gateway \<Rightarrow> agg_view \<times> (string, agg_view) dict \<times> nat" where
  "usage cf g = (if cf_accounts cf then global_snapshot (g_db g) else snapshot (g_ledger g))"

definition healthz :: "config \<Rightarrow> bool \<times> string \<times> bool \<times> (string, public_view) dict" where
  "healthz cf = (True, ''0.3.0'', summary (cf_registry cf))"

section \<open>Pricing never fails\<close>

lemma sum_image_tokens_total: "map_of SCHEME m \<noteq> None \<Longrightarrow> \<exists>n. sum_image_tokens m ims = Inr n"
proof (induction ims)
  case (Cons d ims)
  obtain w h where d: "d = (w, h)" by (cases d)
  have "\<exists>k. image_tokens m w h = Inr k"
    using Cons.prems by (auto simp: image_tokens_def split: option.splits scheme.splits)
  with Cons show ?case by (auto simp: d)
qed simp

definition priced :: "string \<Rightarrow> bool" where
  "priced m \<longleftrightarrow> m \<in> fst ` set PRICES"

lemma priced_iff: "map_of PRICES m = None \<longleftrightarrow> \<not> priced m" "map_of SCHEME m = None \<longleftrightarrow> \<not> priced m"
  unfolding priced_def map_of_eq_None_iff by (auto simp: PRICES_def SCHEME_def)

lemma request_cost_total: "priced m \<Longrightarrow> \<exists>c. request_cost m ims t out = Inr c"
proof -
  assume p: "priced m"
  then obtain n where "sum_image_tokens m ims = Inr n" using sum_image_tokens_total priced_iff by blast
  moreover obtain pr where "map_of PRICES m = Some pr" using p priced_iff by blast
  ultimately show ?thesis by (cases pr) (simp add: request_cost_def)
qed

lemma compare_total:
  assumes "priced b" shows "\<exists>s. compare_models ims t out b ''dexa-cua-vlm'' = Inr s"
proof -
  have "priced ''dexa-cua-vlm''" by (simp add: priced_def PRICES_def)
  then obtain o1 b1 where "request_cost ''dexa-cua-vlm'' ims t out = Inr o1" "request_cost b ims t out = Inr b1"
    using request_cost_total assms by blast
  then show ?thesis by (simp add: compare_models_def Let_def)
qed

lemma price_total:
  assumes "priced (tk_baseline tk)"
  shows "\<exists>s. price tk out hit = Inr s \<and> (hit \<longrightarrow> c_usd (ours s) = 0 \<and> saved_usd s = c_usd (baseline s))"
proof -
  obtain s where "compare_models (tk_dims tk) (tok_estimate (tk_text tk)) out (tk_baseline tk) ''dexa-cua-vlm'' = Inr s"
    using compare_total [OF assms] by blast
  then show ?thesis by (cases hit) (simp_all add: price_def)
qed

lemma baseline_priced: "priced (baseline_model t rq)"
  by (auto simp: baseline_model_def Let_def priced_iff) (simp add: priced_def PRICES_def)

lemma make_ticket_baseline: "priced (tk_baseline (make_ticket cf t ids rq g r e))"
  by (simp add: make_ticket_def Let_def baseline_priced split_def)

section \<open>What a request does to the gateway\<close>

text \<open>The response a ticket is answered with.\<close>

definition answer :: "ticket \<Rightarrow> response option \<Rightarrow> response option" where
  "answer tk backend = (case tk_choice tk of Hit r \<Rightarrow> Some r
     | Mock \<Rightarrow> Some (mock_completion ''dexa-cua-vlm'' (tk_text tk)) | Forward \<Rightarrow> backend)"

definition same_completion :: "response \<Rightarrow> response \<Rightarrow> bool" where
  "same_completion a b \<longleftrightarrow> rsp_message a = rsp_message b \<and> rsp_completion_tokens a = rsp_completion_tokens b"

lemma same_completion_refl [simp]: "same_completion a a"
  by (simp add: same_completion_def)

lemma same_completion_trans: "same_completion a b \<Longrightarrow> same_completion b c \<Longrightarrow> same_completion a c"
  by (simp add: same_completion_def)

text \<open>Finishing a ticket touches the cache at its own session only, and what it stores there is
  the answer it gave.\<close>

lemma finish_cache:
  assumes "chat_finish now tok day tk backend g = (res, g')"
  shows "g_cache g' = g_cache g \<or>
    (\<exists>r r0. g_cache g' = AList.update (tk_session tk) (tk_img_hash tk, tk_text_hash tk, r) (g_cache g)
       \<and> answer tk backend = Some r0 \<and> same_completion r r0)
    \<or> (\<exists>r r' r0. g_cache g' = AList.update (tk_session tk) (tk_img_hash tk, tk_text_hash tk, r)
           (AList.update (tk_session tk) (tk_img_hash tk, tk_text_hash tk, r') (g_cache g))
       \<and> answer tk backend = Some r0 \<and> same_completion r r0)"
proof (cases "answer tk backend")
  case None then show ?thesis using assms by (simp add: chat_finish_def answer_def [symmetric])
next
  case (Some r0)
  let ?r = "r0\<lparr>rsp_model := ''dexa-cua-vlm''\<rparr>"
  have s: "same_completion ?r r0" "same_completion (?r\<lparr>rsp_dexa := x\<rparr>) r0" for x by (simp_all add: same_completion_def)
  show ?thesis using assms Some s
    unfolding chat_finish_def answer_def [symmetric] Let_def
    by (fastforce simp: cache_put_def split: sum.splits option.splits if_splits)
qed

lemma finish_ledger_db:
  assumes "chat_finish now tok day tk backend g = (res, g')"
  shows "g_meter g' = g_meter g" "g_keys g' = g_keys g"
    "g_db g' = g_db g \<or> (\<exists>oid kid s out r0. tk_ids tk = Some (oid, kid) \<and> answer tk backend = Some r0
        \<and> out_tokens (r0\<lparr>rsp_model := ''dexa-cua-vlm''\<rparr>) = Inr out \<and> price tk out (is_hit tk) = Inr s
        \<and> meter_record tok now day oid kid (charge_of s (tk_redundant tk) (is_hit tk)) (g_db g) = Inr (g_db g'))"
proof -
  show "g_meter g' = g_meter g" "g_keys g' = g_keys g"
    using assms unfolding chat_finish_def Let_def
    by (auto simp: cache_put_def split: sum.splits option.splits if_splits)
  show "g_db g' = g_db g \<or> (\<exists>oid kid s out r0. tk_ids tk = Some (oid, kid) \<and> answer tk backend = Some r0
        \<and> out_tokens (r0\<lparr>rsp_model := ''dexa-cua-vlm''\<rparr>) = Inr out \<and> price tk out (is_hit tk) = Inr s
        \<and> meter_record tok now day oid kid (charge_of s (tk_redundant tk) (is_hit tk)) (g_db g) = Inr (g_db g'))"
    using assms unfolding chat_finish_def answer_def [symmetric] Let_def
    by (auto simp: cache_put_def split: sum.splits option.splits if_splits prod.splits)
qed

text \<open>Beginning a request never touches the cached completions, the ledger or the database.\<close>

lemma authenticate_frame:
  "authenticate cf now rq g = Inr (x, g1) \<Longrightarrow>
    g_cache g1 = g_cache g \<and> g_ledger g1 = g_ledger g \<and> g_db g1 = g_db g \<and> g_meter g1 = g_meter g"
  by (auto simp: authenticate_def split: if_splits prod.splits sum.splits option.splits)

lemma begin_frame:
  assumes "chat_begin cf now rq g = (out, g')"
  shows "g_cache g' = g_cache g \<and> g_ledger g' = g_ledger g \<and> g_db g' = g_db g"
  using assms authenticate_frame [of cf now rq g] unfolding chat_begin_def Let_def
  by (fastforce split: sum.splits prod.splits if_splits)

lemma begin_ready:
  assumes "chat_begin cf now rq g = (Ready tk, g')"
  shows "\<exists>t ids g1 r e. authenticate cf now rq g = Inr ((t, ids), g1) \<and> tk = make_ticket cf t ids rq g1 r e
    \<and> g_cache g1 = g_cache g \<and> g_db g1 = g_db g \<and> g_keys g' = g_keys g1"
  using assms authenticate_frame [of cf now rq g] unfolding chat_begin_def Let_def
  by (fastforce split: sum.splits prod.splits if_splits)

lemma make_ticket_hit:
  assumes "tk_choice (make_ticket cf t ids rq g r e) = Hit resp"
  shows "map_of (g_cache g) (tk_session (make_ticket cf t ids rq g r e))
    = Some (tk_img_hash (make_ticket cf t ids rq g r e), tk_text_hash (make_ticket cf t ids rq g r e), resp) \<and> e"
  using assms unfolding make_ticket_def decide_choice_def Let_def
  by (auto split: prod.splits option.splits if_splits)

section \<open>Concurrent requests\<close>

text \<open>The process serving requests: between its two halves a request is in flight. The log keeps
  every answer that was computed (not served from the cache), with its ticket. At most \<open>K\<close>
  requests are in flight, and no request costs more than \<open>m\<close>.\<close>

record server =
  sv_gw :: gateway
  sv_flight :: "ticket list"
  sv_log :: "(ticket \<times> response) list"

definition cost_at_most :: "rat \<Rightarrow> ticket \<Rightarrow> response option \<Rightarrow> bool" where
  "cost_at_most m tk backend =
     (case answer tk backend of
        None \<Rightarrow> True
      | Some r0 \<Rightarrow> (case res_bind (out_tokens (r0\<lparr>rsp_model := ''dexa-cua-vlm''\<rparr>)) (\<lambda>out. price tk out (is_hit tk)) of
                     Inl e \<Rightarrow> True | Inr s \<Rightarrow> c_usd (ours s) \<le> m))"

inductive gstep :: "config \<Rightarrow> nat \<Rightarrow> rat \<Rightarrow> server \<Rightarrow> server \<Rightarrow> bool" for cf K m where
  g_refuse: "chat_begin cf now rq (sv_gw s) = (out, g') \<Longrightarrow> \<forall>tk. out \<noteq> Ready tk \<Longrightarrow> gstep cf K m s (s\<lparr>sv_gw := g'\<rparr>)"
| g_begin: "chat_begin cf now rq (sv_gw s) = (Ready tk, g') \<Longrightarrow> length (sv_flight s) < K \<Longrightarrow>
    gstep cf K m s (s\<lparr>sv_gw := g', sv_flight := sv_flight s @ [tk]\<rparr>)"
| g_finish: "sv_flight s = pre @ tk # post \<Longrightarrow> cost_at_most m tk backend \<Longrightarrow>
    chat_finish now tok day tk backend (sv_gw s) = (res, g') \<Longrightarrow>
    gstep cf K m s \<lparr>sv_gw = g', sv_flight = pre @ post,
      sv_log = sv_log s @ (if is_hit tk then [] else case answer tk backend of None \<Rightarrow> [] | Some r \<Rightarrow> [(tk, r)])\<rparr>"

inductive_simps gstep_iff: "gstep cf K m s s'"

text \<open>A cached or about-to-be-served completion is one computed earlier for a request of the same
  session key, last image and text.\<close>

definition backed :: "(ticket \<times> response) list \<Rightarrow> string \<Rightarrow> string \<Rightarrow> string \<Rightarrow> response \<Rightarrow> bool" where
  "backed lg session ih th r \<longleftrightarrow> (\<exists>(tk, r0)\<in>set lg. tk_session tk = session \<and> tk_img_hash tk = ih
     \<and> tk_text_hash tk = th \<and> same_completion r r0)"

definition cache_sound :: "server \<Rightarrow> bool" where
  "cache_sound s \<longleftrightarrow>
     (\<forall>session ih th r. map_of (g_cache (sv_gw s)) session = Some (ih, th, r) \<longrightarrow> backed (sv_log s) session ih th r)
   \<and> (\<forall>tk\<in>set (sv_flight s). \<forall>r. tk_choice tk = Hit r \<longrightarrow>
        backed (sv_log s) (tk_session tk) (tk_img_hash tk) (tk_text_hash tk) r)"

lemma backed_append: "backed lg a b c r \<Longrightarrow> backed (lg @ l2) a b c r"
  by (auto simp: backed_def)

lemma begin_hit_backed:
  assumes "cache_sound s" "chat_begin cf now rq (sv_gw s) = (Ready tk, g')" "tk_choice tk = Hit r"
  shows "backed (sv_log s) (tk_session tk) (tk_img_hash tk) (tk_text_hash tk) r"
proof -
  obtain t ids g1 x e where b: "tk = make_ticket cf t ids rq g1 x e" "g_cache g1 = g_cache (sv_gw s)"
    using begin_ready [OF assms(2)] by blast
  have "map_of (g_cache (sv_gw s)) (tk_session tk) = Some (tk_img_hash tk, tk_text_hash tk, r)"
    using make_ticket_hit [OF assms(3) [unfolded b(1)], folded b(1)] by (simp add: b(2))
  then show ?thesis using assms(1) by (simp add: cache_sound_def)
qed

lemma finish_backed:
  assumes "cache_sound s" "tk \<in> set (sv_flight s)" "answer tk backend = Some r0" "same_completion r r0"
  shows "backed (sv_log s @ (if is_hit tk then [] else case answer tk backend of None \<Rightarrow> [] | Some r \<Rightarrow> [(tk, r)]))
    (tk_session tk) (tk_img_hash tk) (tk_text_hash tk) r"
proof (cases "tk_choice tk")
  case (Hit r1)
  then have "r1 = r0" "is_hit tk" using assms(3) by (simp_all add: answer_def is_hit_def)
  moreover have "backed (sv_log s) (tk_session tk) (tk_img_hash tk) (tk_text_hash tk) r1"
    using assms(1,2) Hit by (simp add: cache_sound_def)
  ultimately show ?thesis using assms(4) by (auto simp: backed_def dest: same_completion_trans)
qed (use assms(3,4) in \<open>auto simp: backed_def is_hit_def\<close>)

lemma gstep_cache_sound: "gstep cf K m s s' \<Longrightarrow> cache_sound s \<Longrightarrow> cache_sound s'"
proof (induction rule: gstep.induct)
  case (g_refuse now rq s out g') then show ?case using begin_frame by (auto simp: cache_sound_def)
next
  case (g_begin now rq s tk g')
  then show ?case using begin_hit_backed [OF g_begin(3,1)] begin_frame [OF g_begin(1)]
    by (auto simp: cache_sound_def)
next
  case (g_finish s pre tk post backend now tok day res g')
  let ?new = "if is_hit tk then [] else case answer tk backend of None \<Rightarrow> [] | Some r \<Rightarrow> [(tk, r)]"
  have in_f: "tk \<in> set (sv_flight s)" using g_finish(1) by simp
  have "backed (sv_log s @ ?new) session ih th r" if "map_of (g_cache g') session = Some (ih, th, r)" for session ih th r
    using finish_cache [OF g_finish(3)] that finish_backed [OF g_finish(4) in_f, of backend] g_finish(4)
    by (auto simp: cache_sound_def backed_append split: if_splits)
  moreover have "backed (sv_log s @ ?new) (tk_session x) (tk_img_hash x) (tk_text_hash x) r"
    if "x \<in> set (pre @ post)" "tk_choice x = Hit r" for x r
    using that g_finish(1,4) by (intro backed_append) (auto simp: cache_sound_def)
  ultimately show ?case by (simp add: cache_sound_def)
qed

definition boot :: "database \<Rightarrow> rat \<Rightarrow> server" where
  "boot db now = \<lparr>sv_gw = \<lparr>g_meter = new_meter, g_cache = [], g_ledger = new_ledger now, g_db = db, g_keys = []\<rparr>,
     sv_flight = [], sv_log = []\<rparr>"

lemma boot_cache_sound: "cache_sound (boot db now)"
  by (simp add: cache_sound_def boot_def)

lemma gsteps_cache_sound: "(gstep cf K m)\<^sup>*\<^sup>* (boot db now) s \<Longrightarrow> cache_sound s"
  by (induction rule: rtranclp_induct) (auto intro: gstep_cache_sound boot_cache_sound)

section \<open>Quota under concurrency\<close>

definition owns :: "database \<Rightarrow> string \<Rightarrow> string \<Rightarrow> bool" where
  "owns db oid kid \<longleftrightarrow> (\<exists>k\<in>set (api_keys db). k_id k = kid \<and> k_org_id k = oid)"

lemma owns_unique: "db_ok db \<Longrightarrow> owns db oid kid \<Longrightarrow> owns db oid2 kid \<Longrightarrow> oid = oid2"
  by (auto simp: owns_def db_ok_def distinct_map dest: inj_onD)

text \<open>In accounts mode rows, cached principals and tickets name a key with its own organisation.\<close>

definition row_owned :: "database \<Rightarrow> usage_daily \<Rightarrow> bool" where
  "row_owned db x \<longleftrightarrow> owns db (ud_org_id x) (ud_key_id x)"

definition entry_owned :: "database \<Rightarrow> string \<times> rat \<times> principal option \<Rightarrow> bool" where
  "entry_owned db c = (case snd (snd c) of None \<Rightarrow> True | Some q \<Rightarrow> owns db (pr_org_id q) (pr_key_id q))"

definition ticket_owned :: "database \<Rightarrow> ticket \<Rightarrow> bool" where
  "ticket_owned db tk = (case tk_ids tk of None \<Rightarrow> False | Some (oid, kid) \<Rightarrow> owns db oid kid)"

definition owned :: "server \<Rightarrow> bool" where
  "owned s \<longleftrightarrow> db_ok (g_db (sv_gw s)) \<and> list_all (row_owned (g_db (sv_gw s))) (usage_rows (g_db (sv_gw s)))
     \<and> list_all (entry_owned (g_db (sv_gw s))) (g_keys (sv_gw s))
     \<and> list_all (ticket_owned (g_db (sv_gw s))) (sv_flight s)"

text \<open>Each organisation overspends by at most the cost of the requests it had in flight.\<close>

definition in_flight :: "string \<Rightarrow> server \<Rightarrow> nat" where
  "in_flight oid s = length (filter (\<lambda>tk. map_option fst (tk_ids tk) = Some oid) (sv_flight s))"

definition credit_inv :: "nat \<Rightarrow> rat \<Rightarrow> server \<Rightarrow> bool" where
  "credit_inv K m s \<longleftrightarrow> length (sv_flight s) \<le> K
     \<and> (\<forall>oid. - ((of_nat K - of_nat (in_flight oid s)) * m) \<le> remaining_credit (g_db (sv_gw s)) oid)"

lemma lookup_owns:
  assumes "db_ok db" "lookup pool db h = Inr (Some p)" shows "owns db (pr_org_id p) (pr_key_id p)"
  using assms by (auto simp: lookup_def key_by_hash_total [OF assms(1)] build_def Let_def get_org_def owns_def
    split: option.splits if_splits dest!: find_in)

lemma resolve_owns:
  assumes ok: "db_ok db" and c: "list_all (entry_owned db) cache"
  shows "list_all (entry_owned db) (snd (resolve_key H pool ttl db now sec cache))"
    "fst (resolve_key H pool ttl db now sec cache) = Inr (Some p) \<Longrightarrow> owns db (pr_org_id p) (pr_key_id p)"
proof -
  show "list_all (entry_owned db) (snd (resolve_key H pool ttl db now sec cache))"
    using resolve_cache_cases [of H pool ttl db now sec cache]
  proof (elim disjE exE conjE)
    fix h q assume l: "lookup pool db h = Inr q"
      and u: "snd (resolve_key H pool ttl db now sec cache) = AList.update h (now + ttl, q) cache"
    have "entry_owned db (h, now + ttl, q)" using lookup_owns [OF ok] l by (auto simp: entry_owned_def split: option.splits)
    then show ?thesis using c set_update_subset [of h "(now + ttl, q)" cache] unfolding u list_all_iff by blast
  qed (simp add: c)
  show "fst (resolve_key H pool ttl db now sec cache) = Inr (Some p) \<Longrightarrow> owns db (pr_org_id p) (pr_key_id p)"
    using c lookup_owns [OF ok]
    by (auto simp: resolve_key_def Let_def list_all_iff entry_owned_def split: if_splits option.splits sum.splits
      dest!: map_of_SomeD)
qed

lemma owns_meter:
  assumes "db_ok db" "meter_record tok now day oid kid c db = Inr db'"
  shows "owns db' o2 k2 \<longleftrightarrow> owns db o2 k2"
proof -
  have "api_keys db' = api_keys (touch_key now kid db)" using meter_record_cases [OF assms] by blast
  then have "map (\<lambda>k. (k_org_id k, k_id k)) (api_keys db') = map (\<lambda>k. (k_org_id k, k_id k)) (api_keys db)"
    by (simp add: touch_key_def update_key_def)
  moreover have "owns d a b \<longleftrightarrow> (a, b) \<in> set (map (\<lambda>k. (k_org_id k, k_id k)) (api_keys d))" for d a b
    by (auto simp: owns_def)
  ultimately show ?thesis by metis
qed

lemma authenticate_accounts:
  assumes "cf_accounts cf" "authenticate cf now rq g = Inr ((t, ids), g1)"
  shows "\<exists>p. ids = Some (pr_org_id p, pr_key_id p) \<and> t = pr_tenant p \<and> quota_ok (g_db g) (pr_org_id p)
    \<and> resolve_key (cf_hash_secret cf) (cf_pool cf) (cf_ttl cf) (g_db g) now (bearer rq) (g_keys g) = (Inr (Some p), g_keys g1)"
  using assms by (auto simp: authenticate_def split: prod.splits sum.splits option.splits if_splits)

lemma begin_keys:
  assumes "cf_accounts cf" "chat_begin cf now rq g = (out, g')"
  shows "g_keys g' = g_keys g \<or> g_keys g' = snd (resolve_key (cf_hash_secret cf) (cf_pool cf) (cf_ttl cf) (g_db g) now (bearer rq) (g_keys g))"
proof (cases "authenticate cf now rq g")
  case (Inl r) then show ?thesis using assms by (cases r) (auto simp: chat_begin_def)
next
  case (Inr x)
  obtain t ids g1 where x: "x = ((t, ids), g1)" by (metis surj_pair)
  have k: "g_keys g' = g_keys g1" using assms(2) Inr x
    by (auto simp: chat_begin_def Let_def split: if_splits prod.splits sum.splits)
  show ?thesis using authenticate_accounts [OF assms(1) Inr [unfolded x]] k by auto
qed

lemma begin_owned:
  assumes acc: "cf_accounts cf" and o1: "owned s" and b: "chat_begin cf now rq (sv_gw s) = (out, g')"
  shows "owned (s\<lparr>sv_gw := g'\<rparr>)"
    "out = Ready tk \<Longrightarrow> \<exists>oid kid. tk_ids tk = Some (oid, kid) \<and> owns (g_db (sv_gw s)) oid kid \<and> quota_ok (g_db (sv_gw s)) oid"
proof -
  let ?db = "g_db (sv_gw s)"
  have ok: "db_ok ?db" and ks: "list_all (entry_owned ?db) (g_keys (sv_gw s))" using o1 by (simp_all add: owned_def)
  have db: "g_db g' = ?db" using begin_frame [OF b] by simp
  have "list_all (entry_owned ?db) (g_keys g')"
    using begin_keys [OF acc b] resolve_owns(1) [OF ok ks] ks by metis
  then show "owned (s\<lparr>sv_gw := g'\<rparr>)" using o1 by (simp add: owned_def db)
  show "\<exists>oid kid. tk_ids tk = Some (oid, kid) \<and> owns ?db oid kid \<and> quota_ok ?db oid" if rd: "out = Ready tk"
  proof -
    obtain t ids g1 r e where a: "authenticate cf now rq (sv_gw s) = Inr ((t, ids), g1)" "tk = make_ticket cf t ids rq g1 r e"
      using begin_ready [OF b [unfolded rd]] by blast
    obtain p where p: "ids = Some (pr_org_id p, pr_key_id p)" "quota_ok ?db (pr_org_id p)"
        "fst (resolve_key (cf_hash_secret cf) (cf_pool cf) (cf_ttl cf) ?db now (bearer rq) (g_keys (sv_gw s))) = Inr (Some p)"
      using authenticate_accounts [OF acc a(1)] by auto
    have "tk_ids tk = ids" by (simp add: a(2) make_ticket_def Let_def split_def)
    then show ?thesis using p resolve_owns(2) [OF ok ks p(3)] by simp
  qed
qed

lemma finish_owned:
  assumes o1: "owned s" and f: "sv_flight s = pre @ tk # post"
    and c: "chat_finish now tok day tk backend (sv_gw s) = (res, g')"
  shows "owned (s\<lparr>sv_gw := g', sv_flight := pre @ post, sv_log := l\<rparr>)"
proof -
  let ?db = "g_db (sv_gw s)"
  have ok: "db_ok ?db" using o1 by (simp add: owned_def)
  have k: "g_keys g' = g_keys (sv_gw s)" by (rule finish_ledger_db(2) [OF c])
  show ?thesis
  proof (cases "g_db g' = ?db")
    case True then show ?thesis using o1 by (simp add: owned_def k f)
  next
    case False
    then obtain oid kid sv where m: "tk_ids tk = Some (oid, kid)"
        "meter_record tok now day oid kid (charge_of sv (tk_redundant tk) (is_hit tk)) ?db = Inr (g_db g')"
      using finish_ledger_db(3) [OF c] by blast
    have ow: "owns (g_db g') = owns ?db" by (intro ext owns_meter [OF ok m(2)])
    then have p: "row_owned (g_db g') = row_owned ?db" "entry_owned (g_db g') = entry_owned ?db"
      "ticket_owned (g_db g') = ticket_owned ?db"
      unfolding row_owned_def [abs_def] entry_owned_def [abs_def] ticket_owned_def [abs_def] by (simp_all only:)
    have "owns ?db oid kid" using o1 m(1) by (simp add: owned_def f ticket_owned_def)
    then have "list_all (row_owned ?db) (usage_rows (g_db g'))"
    proof -
      obtain pre2 x post2 where x: "usage_rows (g_db g') = pre2 @ add_charge (charge_of sv (tk_redundant tk) (is_hit tk)) x # post2"
          "usage_rows ?db = pre2 @ x # post2 \<or> usage_rows ?db = pre2 \<and> post2 = [] \<and> ud_org_id x = oid" "ud_key_id x = kid"
        using meter_record_cases [OF ok m(2)] new_row_ids(2) by metis
      have "list_all (row_owned ?db) (usage_rows ?db)" using o1 by (simp add: owned_def)
      then show ?thesis using x(2) \<open>owns ?db oid kid\<close> by (elim disjE conjE) (simp_all add: x(1,3) row_owned_def)
    qed
    then show ?thesis using o1 meter_record_ok [OF ok m(2)] by (simp add: owned_def k f p)
  qed
qed

lemma finish_credit:
  assumes o1: "owned s" and f: "sv_flight s = pre @ tk # post" and m: "cost_at_most m tk backend" "0 \<le> m"
    and c: "chat_finish now tok day tk backend (sv_gw s) = (res, g')"
  shows "remaining_credit (g_db (sv_gw s)) oid - (if map_option fst (tk_ids tk) = Some oid then m else 0)
    \<le> remaining_credit (g_db g') oid"
proof (cases "g_db g' = g_db (sv_gw s)")
  case True then show ?thesis using m(2) by simp
next
  case False
  let ?db = "g_db (sv_gw s)"
  have ok: "db_ok ?db" using o1 by (simp add: owned_def)
  from False obtain oid1 kid sv out r0 where a: "tk_ids tk = Some (oid1, kid)" "answer tk backend = Some r0"
      "out_tokens (r0\<lparr>rsp_model := ''dexa-cua-vlm''\<rparr>) = Inr out" "price tk out (is_hit tk) = Inr sv"
      "meter_record tok now day oid1 kid (charge_of sv (tk_redundant tk) (is_hit tk)) ?db = Inr (g_db g')"
    using finish_ledger_db(3) [OF c] by blast
  have le: "c_usd (ours sv) \<le> m" using m(1) a by (simp add: cost_at_most_def)
  have ow: "owns ?db oid1 kid" using o1 a(1) by (simp add: owned_def f ticket_owned_def)
  have rows: "\<forall>x\<in>set (usage_rows ?db). ud_key_id x = kid \<longrightarrow> ud_org_id x = oid1"
    using o1 owns_unique [OF ok] ow by (auto simp: owned_def list_all_iff row_owned_def)
  show ?thesis using le a(1) record_credit [OF ok a(5) rows, of oid] by (simp add: charge_of_def)
qed

lemma gstep_owned: "gstep cf K m s s' \<Longrightarrow> cf_accounts cf \<Longrightarrow> owned s \<Longrightarrow> owned s'"
proof (induction rule: gstep.induct)
  case (g_refuse now rq s out g') then show ?case using begin_owned(1) by blast
next
  case (g_begin now rq s tk g')
  have "owned (s\<lparr>sv_gw := g'\<rparr>)" by (rule begin_owned(1) [OF g_begin(3,4,1)])
  moreover have "ticket_owned (g_db g') tk"
    using begin_owned(2) [OF g_begin(3,4,1)] begin_frame [OF g_begin(1)] by (auto simp: ticket_owned_def)
  ultimately show ?case by (simp add: owned_def)
next
  case (g_finish s pre tk post backend now tok day res g')
  from finish_owned [OF g_finish(5,1,3)] show ?case by (simp add: owned_def)
qed

lemma gstep_credit:
  "gstep cf K m s s' \<Longrightarrow> cf_accounts cf \<Longrightarrow> 0 \<le> m \<Longrightarrow> owned s \<Longrightarrow> credit_inv K m s \<Longrightarrow> credit_inv K m s'"
proof (induction rule: gstep.induct)
  case (g_refuse now rq s out g') then show ?case using begin_frame by (auto simp: credit_inv_def in_flight_def)
next
  case (g_begin now rq s tk g')
  obtain oid kid where t: "tk_ids tk = Some (oid, kid)" "quota_ok (g_db (sv_gw s)) oid"
    using begin_owned(2) [OF g_begin(3,5,1)] by blast
  have db: "g_db g' = g_db (sv_gw s)" using begin_frame [OF g_begin(1)] by simp
  have "in_flight oid s \<le> length (sv_flight s)" by (simp add: in_flight_def)
  then have "Suc (in_flight oid s) \<le> K" using g_begin(2) by simp
  then have "of_nat (Suc (in_flight oid s)) \<le> (of_nat K :: rat)" by (simp only: of_nat_le_iff)
  then have "0 \<le> (of_nat K - of_nat (Suc (in_flight oid s))) * m"
    using g_begin(4) by (intro mult_nonneg_nonneg) (simp_all only: diff_ge_0_iff_ge)
  moreover have "0 < remaining_credit (g_db (sv_gw s)) oid" using t(2) by (simp add: quota_ok_def)
  ultimately have this_org: "- ((of_nat K - of_nat (Suc (in_flight oid s))) * m) \<le> remaining_credit (g_db (sv_gw s)) oid"
    by linarith
  let ?s' = "s\<lparr>sv_gw := g', sv_flight := sv_flight s @ [tk]\<rparr>"
  have "- ((of_nat K - of_nat (in_flight o2 ?s')) * m) \<le> remaining_credit (g_db g') o2" for o2
  proof (cases "o2 = oid")
    case True
    then have "in_flight o2 ?s' = Suc (in_flight oid s)" using t(1) by (simp add: in_flight_def)
    then show ?thesis using this_org True by (simp only: db)
  next
    case False
    then have "in_flight o2 ?s' = in_flight o2 s" using t(1) by (simp add: in_flight_def)
    then show ?thesis using g_begin(6) by (simp only: db credit_inv_def)
  qed
  then show ?case using g_begin(2) by (simp add: credit_inv_def)
next
  case (g_finish s pre tk post backend now tok day res g')
  let ?s' = "\<lparr>sv_gw = g', sv_flight = pre @ post,
      sv_log = sv_log s @ (if is_hit tk then [] else case answer tk backend of None \<Rightarrow> [] | Some r \<Rightarrow> [(tk, r)])\<rparr>"
  have "- ((of_nat K - of_nat (in_flight oid ?s')) * m) \<le> remaining_credit (g_db g') oid" for oid
  proof -
    have "in_flight oid s = in_flight oid ?s' + (if map_option fst (tk_ids tk) = Some oid then 1 else 0)"
      by (simp add: in_flight_def g_finish(1))
    moreover have "- ((of_nat K - of_nat (in_flight oid s)) * m) \<le> remaining_credit (g_db (sv_gw s)) oid"
      using g_finish(7) by (simp add: credit_inv_def)
    ultimately show ?thesis using finish_credit [OF g_finish(6,1,2,5,3), of oid] by (auto simp: algebra_simps split: if_splits)
  qed
  moreover have "length (pre @ post) \<le> K" using g_finish(1,7) by (simp add: credit_inv_def)
  ultimately show ?case by (simp add: credit_inv_def)
qed

section \<open>Serving\<close>

lemma finish_serves:
  assumes p: "priced (tk_baseline tk)" and a: "answer tk backend = Some r0" "rsp_message r0 \<noteq> None"
    and c: "cache_enabled (tk_route tk)"
    and m: "\<And>oid kid c. tk_ids tk = Some (oid, kid) \<Longrightarrow> \<exists>db. meter_record tok now day oid kid c (g_db g) = Inr db"
  shows "\<exists>rp g' r. chat_finish now tok day tk backend g = (Inr (Inr rp), g') \<and> g_meter g' = g_meter g
    \<and> same_completion (rp_response rp) r0 \<and> rp_cache_hit rp = is_hit tk \<and> (is_hit tk \<longrightarrow> rp_cost_usd rp = 0)
    \<and> map_of (g_cache g') (tk_session tk) = Some (tk_img_hash tk, tk_text_hash tk, r) \<and> same_completion r r0"
proof -
  let ?r = "r0\<lparr>rsp_model := ''dexa-cua-vlm''\<rparr>"
  obtain y where "rsp_message r0 = Some y" using a(2) by blast
  then have "\<exists>out. out_tokens ?r = Inr out" by (cases "rsp_completion_tokens r0") (simp_all add: out_tokens_def)
  then obtain out where out: "out_tokens ?r = Inr out" by blast
  obtain s where s: "price tk out (is_hit tk) = Inr s" "is_hit tk \<longrightarrow> c_usd (ours s) = 0" using price_total [OF p] by blast
  let ?r2 = "?r\<lparr>rsp_dexa := Some (info_of tk s (is_hit tk))\<rparr>"
  let ?rp = "reply_of tk s (is_hit tk) ?r2"
  have z: "round_to 8 0 = 0" by (simp add: round_to_def py_round_def)
  have rp: "same_completion (rp_response ?rp) r0" "rp_cache_hit ?rp = is_hit tk" "is_hit tk \<longrightarrow> rp_cost_usd ?rp = 0"
    "same_completion ?r2 r0" using s(2) by (simp_all add: reply_of_def same_completion_def z)
  show ?thesis
  proof (cases "tk_ids tk")
    case None
    let ?g = "(cache_put tk ?r2 (cache_put tk ?r g))\<lparr>g_ledger :=
        ledger_record now (tk_session tk) s (tk_redundant tk) (is_hit tk) (g_ledger (cache_put tk ?r g))\<rparr>"
    have "chat_finish now tok day tk backend g = (Inr (Inr ?rp), ?g)"
      using a(1) None out s(1) by (simp add: chat_finish_def answer_def [symmetric] Let_def)
    moreover have "g_meter ?g = g_meter g" "map_of (g_cache ?g) (tk_session tk) = Some (tk_img_hash tk, tk_text_hash tk, ?r2)"
      using c by (simp_all add: cache_put_def)
    ultimately show ?thesis using rp by blast
  next
    case (Some i)
    obtain oid kid where i: "tk_ids tk = Some (oid, kid)" using Some by (cases i) simp
    have gd: "g_db (cache_put tk ?r g) = g_db g" by (simp add: cache_put_def)
    obtain db where db: "meter_record tok now day oid kid (charge_of s (tk_redundant tk) (is_hit tk)) (g_db g) = Inr db"
      using m [OF i] by blast
    let ?g = "(cache_put tk ?r2 (cache_put tk ?r g))\<lparr>g_db := db\<rparr>"
    have "chat_finish now tok day tk backend g = (Inr (Inr ?rp), ?g)"
      using a(1) i out s(1) db by (simp add: chat_finish_def answer_def [symmetric] Let_def gd)
    moreover have "g_meter ?g = g_meter g" "map_of (g_cache ?g) (tk_session tk) = Some (tk_img_hash tk, tk_text_hash tk, ?r2)"
      using c by (simp_all add: cache_put_def)
    ultimately show ?thesis using rp by blast
  qed
qed

lemma begin_repeats:
  assumes a: "authenticate cf now rq g = Inr ((t, ids), g1)" and c: "cache_enabled t"
    and e: "extract_messages (cf_size cf) (rq_messages rq) = (dims, imgs, text)" "imgs \<noteq> []"
    and h: "m_hash (g_meter g) (session_key t rq) = Some (cf_hash_img cf (last imgs))"
    and ce: "map_of (g_cache g) (session_key t rq) = Some (cf_hash_img cf (last imgs), cf_hash_text cf text, r)"
  shows "\<exists>tk g'. chat_begin cf now rq g = (Ready tk, g') \<and> tk_choice tk = Hit r \<and> tk_route tk = t \<and> tk_ids tk = ids"
proof -
  have g1: "m_hash (g_meter g1) (session_key t rq) = Some (cf_hash_img cf (last imgs))"
    "map_of (g_cache g1) (session_key t rq) = Some (cf_hash_img cf (last imgs), cf_hash_text cf text, r)"
    using authenticate_frame [OF a] h ce by simp_all
  obtain m where "observe (cf_hash_img cf) (cf_luma cf) (cf_cv cf) (session_key t rq) (last imgs) (g_meter g1)
      = (Inr (observation_of False True 0), m)"
    using g1(1) by (simp add: observe_def observe_tail_def Let_def)
  then show ?thesis using e a c g1(2)
    by (simp add: chat_begin_def Let_def make_ticket_def decide_choice_def observation_of_def)
qed

lemma observe_hash: "observe H luma cv s img m = (Inr ob, m') \<Longrightarrow> m_hash m' s = Some (H img)"
  by (simp add: observe_spec(4))

text \<open>Two successive requests: the first is answered, the second has the same session key, last
  image and text.\<close>

lemma second_request_hits:
  assumes b: "chat_begin cf now0 rq g = (Ready tk, g1)"
    and e: "extract_messages (cf_size cf) (rq_messages rq) = (dims, imgs, text)" "imgs \<noteq> []"
    and c: "cache_enabled (tk_route tk)" and a: "answer tk backend = Some r0" "rsp_message r0 \<noteq> None"
    and f: "chat_finish now tok day tk backend g1 = (res, g2)"
    and m: "\<forall>oid kid c. tk_ids tk = Some (oid, kid) \<longrightarrow> (\<exists>db. meter_record tok now day oid kid c (g_db g1) = Inr db)"
    and a2: "authenticate cf now2 rq2 g2 = Inr ((t2, ids2), g3)" "cache_enabled t2"
    and e2: "extract_messages (cf_size cf) (rq_messages rq2) = (dims2, imgs2, text)" "imgs2 \<noteq> []" "last imgs2 = last imgs"
    and s: "session_key t2 rq2 = session_key (tk_route tk) rq"
  shows "\<exists>tk2 g4 r. chat_begin cf now2 rq2 g2 = (Ready tk2, g4) \<and> tk_choice tk2 = Hit r \<and> same_completion r r0
    \<and> tk_route tk2 = t2 \<and> tk_ids tk2 = ids2"
proof -
  obtain t ids g0 rd ex where b1: "tk = make_ticket cf t ids rq g0 rd ex" using begin_ready [OF b] by blast
  have tk: "tk_route tk = t" "tk_session tk = session_key t rq" "tk_img_hash tk = cf_hash_img cf (last imgs)"
    "tk_text_hash tk = cf_hash_text cf text" using e by (simp_all add: b1 make_ticket_def Let_def)
  obtain rp g' r where fs: "chat_finish now tok day tk backend g1 = (Inr (Inr rp), g')" "g_meter g' = g_meter g1"
      "map_of (g_cache g') (tk_session tk) = Some (tk_img_hash tk, tk_text_hash tk, r)" "same_completion r r0"
    using finish_serves [OF make_ticket_baseline [of cf t ids rq g0 rd ex, folded b1] a c] m by blast
  have g2: "g' = g2" using fs(1) f by simp
  have "m_hash (g_meter g1) (session_key t rq) = Some (cf_hash_img cf (last imgs))"
  proof -
    obtain t' ids' g0' ob mm where o1: "authenticate cf now0 rq g = Inr ((t', ids'), g0')"
        "observe (cf_hash_img cf) (cf_luma cf) (cf_cv cf) (session_key t' rq) (last imgs) (g_meter g0') = (Inr ob, mm)"
        "g1 = g0'\<lparr>g_meter := mm\<rparr>" "tk_route tk = t'"
      using b e by (auto simp: chat_begin_def Let_def make_ticket_def split: sum.splits prod.splits if_splits)
    then show ?thesis using observe_hash [OF o1(2)] tk(1) by simp
  qed
  then have "m_hash (g_meter g2) (session_key t2 rq2) = Some (cf_hash_img cf (last imgs2))"
    "map_of (g_cache g2) (session_key t2 rq2) = Some (cf_hash_img cf (last imgs2), cf_hash_text cf text, r)"
    using fs(2,3) s tk e2(3) by (simp_all add: g2)
  from begin_repeats [OF a2 e2(1,2) this] fs(4) show ?thesis by blast
qed

section \<open>Properties\<close>

text \<open>Refusals are clean: a request is refused before the backend only with status 401 or 402,
  402 exactly for a resolved principal without credit, and a refusal leaves frames, cached
  completions, ledger and database as they are.\<close>

theorem refusal_is_clean:
  assumes "chat_begin cf now rq g = (Refused status, g')"
  shows "(status = 401 \<or> status = 402) \<and> g' = g\<lparr>g_keys := g_keys g'\<rparr>
    \<and> (status = 402 \<longleftrightarrow> cf_accounts cf \<and> (\<exists>p. \<not> quota_ok (g_db g) (pr_org_id p) \<and>
         fst (resolve_key (cf_hash_secret cf) (cf_pool cf) (cf_ttl cf) (g_db g) now (bearer rq) (g_keys g)) = Inr (Some p)))"
proof -
  have a: "authenticate cf now rq g = Inl (Inl status)"
    "g' = (if cf_accounts cf
           then g\<lparr>g_keys := snd (resolve_key (cf_hash_secret cf) (cf_pool cf) (cf_ttl cf) (g_db g) now (bearer rq) (g_keys g))\<rparr>
           else g)"
    using assms by (auto simp: chat_begin_def Let_def split: sum.splits prod.splits if_splits)
  show ?thesis using a by (auto simp: authenticate_def split: if_splits prod.splits sum.splits option.splits)
qed

definition demo_request :: "string \<Rightarrow> content list \<Rightarrow> request" where
  "demo_request key ms = \<lparr>rq_authorization = '''', rq_api_key = Some key, rq_session = None,
     rq_baseline = None, rq_user = None, rq_messages = ms\<rparr>"

definition demo_config :: "bool \<Rightarrow> config" where
  "demo_config acc = \<lparr>cf_accounts = acc, cf_registry = acme_registry, cf_hash_secret = id, cf_pool = ''http://pool'',
     cf_ttl = 30, cf_hash_img = map char_of, cf_hash_text = id, cf_size = (\<lambda>_. None), cf_luma = (\<lambda>_. Some []), cf_cv = True\<rparr>"

theorem refusal_is_clean_witness:
  "fst (chat_begin (demo_config False) 0 (demo_request ''stranger'' []) (sv_gw (boot empty_db 0))) = Refused 401
   \<and> snd (chat_begin (demo_config False) 0 (demo_request ''stranger'' []) (sv_gw (boot empty_db 0))) = sv_gw (boot empty_db 0)"
proof -
  have r: "bearer (demo_request ''stranger'' []) = Some ''stranger''"
    by (simp add: bearer_def demo_request_def starts_with_def)
  have "resolve acme_registry (Some ''stranger'') = None" by (simp add: acme_registry_def acme_eval resolve_def)
  then have b: "chat_begin (demo_config False) 0 (demo_request ''stranger'' []) (sv_gw (boot empty_db 0))
      = (Refused 401, sv_gw (boot empty_db 0))"
    by (simp add: chat_begin_def authenticate_def r demo_config_def)
  from refusal_is_clean [OF b] b show ?thesis by simp
qed

text \<open>C11. Cached completions are sound under concurrency: in every state the server can reach with any
  number of requests in flight, a request served from the cache gets a completion that was
  computed for an earlier request with its session key, last image digest and text digest.\<close>

theorem cache_hits_sound:
  assumes "(gstep cf K m)\<^sup>*\<^sup>* (boot db t0) s" "chat_begin cf now rq (sv_gw s) = (Ready tk, g')" "tk_choice tk = Hit r"
  shows "\<exists>(tk0, r0) \<in> set (sv_log s). tk_session tk0 = tk_session tk \<and> tk_img_hash tk0 = tk_img_hash tk
    \<and> tk_text_hash tk0 = tk_text_hash tk \<and> same_completion r r0"
  using begin_hit_backed [OF gsteps_cache_sound [OF assms(1)] assms(2,3)] by (simp add: backed_def)


text \<open>Two organisations whose users never named them: both are called \<^verbatim>\<open>workspace\<close>.\<close>

definition two_orgs :: database where
  "two_orgs = demo_db\<lparr>orgs := map (\<lambda>i. (hd (orgs demo_db))\<lparr>o_id := i, o_name := ''workspace''\<rparr>) [''org_1'', ''org_2''],
     api_keys := [demo_key, demo_key\<lparr>k_id := ''key_2'', k_org_id := ''org_2'', k_hash := ''dexa_live_2''\<rparr>],
     credits := [\<lparr>cr_id = ''a'', cr_org_id = ''org_1'', cr_delta_usd = 5, cr_reason = '''', cr_created_at = 0\<rparr>,
                 \<lparr>cr_id = ''b'', cr_org_id = ''org_2'', cr_delta_usd = 5, cr_reason = '''', cr_created_at = 0\<rparr>]\<rparr>"

definition workspace_route :: route where
  "workspace_route = \<lparr>t_name = ''workspace'', t_mode = ''hosted'', backend_url = ''http://pool'',
     backend_model = ''dexa-cua-vlm'', default_baseline = ''gpt-4o'', cache_enabled = True\<rparr>"

definition screen :: content where
  "screen = Parts [TextPart ''next action?'', ImagePart ''data:image/png;base64,AAIC'']"

lemma screen_extract:
  "extract_messages (cf_size (demo_config acc)) [screen] = ([(1280, 800)], [[0, 2, 2]], ''next action?'')"
  by (simp add: extract_messages_def screen_def data_uri_def starts_with_def b64decode_def b64_value_def
    img_dims_def demo_config_def Let_def)

lemma two_orgs_resolve:
  assumes "(i, h) = (''1'', ''dexa_live_1'') \<or> (i, h) = (''2'', ''dexa_live_2'')" "map_of ks h = None"
    and "orgs db = orgs two_orgs" "api_keys db = api_keys two_orgs \<or> api_keys db = api_keys (touch_key t ''key_1'' two_orgs)"
  shows "\<exists>ks'. resolve_key id ''http://pool'' 30 db now (Some h) ks
    = (Inr (Some \<lparr>pr_tenant = workspace_route, pr_org_id = ''org_'' @ i, pr_key_id = ''key_'' @ i\<rparr>), ks')
    \<and> (\<forall>h'. h' \<noteq> h \<longrightarrow> map_of ks' h' = map_of ks h')"
  using assms by (auto simp: resolve_key_def looks_like_key_def starts_with_def lookup_def key_by_hash_def two_orgs_def
    demo_db_def demo_key_def get_org_def build_def workspace_route_def touch_key_def update_key_def Let_def)

lemma two_orgs_authenticate:
  assumes "(i, h) = (''1'', ''dexa_live_1'') \<or> (i, h) = (''2'', ''dexa_live_2'')" "map_of (g_keys g) h = None"
    and "orgs (g_db g) = orgs two_orgs" "quota_ok (g_db g) (''org_'' @ i)"
    and "api_keys (g_db g) = api_keys two_orgs \<or> api_keys (g_db g) = api_keys (touch_key t ''key_1'' two_orgs)"
  shows "\<exists>ks'. authenticate (demo_config True) now (demo_request h ms) g
    = Inr ((workspace_route, Some (''org_'' @ i, ''key_'' @ i)), g\<lparr>g_keys := ks'\<rparr>)
    \<and> (\<forall>h'. h' \<noteq> h \<longrightarrow> map_of ks' h' = map_of (g_keys g) h')"
proof -
  have b: "bearer (demo_request h ms) = Some h" by (simp add: bearer_def demo_request_def starts_with_def)
  obtain ks' where "resolve_key id ''http://pool'' 30 (g_db g) now (Some h) (g_keys g)
      = (Inr (Some \<lparr>pr_tenant = workspace_route, pr_org_id = ''org_'' @ i, pr_key_id = ''key_'' @ i\<rparr>), ks')"
      "\<forall>h'. h' \<noteq> h \<longrightarrow> map_of ks' h' = map_of (g_keys g) h'"
    using two_orgs_resolve [OF assms(1,2,3,5)] by blast
  then show ?thesis using assms(4) by (intro exI [of _ ks']) (simp add: authenticate_def b demo_config_def)
qed

lemma two_orgs_ok: "db_ok two_orgs" "quota_ok two_orgs ''org_1''" "quota_ok two_orgs ''org_2''" "usage_rows two_orgs = []"
  by (simp_all add: two_orgs_def db_ok_def demo_db_def demo_user_def demo_key_def quota_ok_def remaining_credit_def
    granted_def spent_def)

definition private_answer :: response where
  "private_answer = \<lparr>rsp_model = ''m'', rsp_completion_tokens = Some 3,
     rsp_message = Some (Some ''answer for org 1''), rsp_dexa = None\<rparr>"

lemma two_orgs_first:
  "\<exists>tk g1 ks. chat_begin (demo_config True) 0 (demo_request ''dexa_live_1'' [screen]) (sv_gw (boot two_orgs 0)) = (Ready tk, g1)
   \<and> tk_ids tk = Some (''org_1'', ''key_1'') \<and> tk_choice tk = Forward \<and> tk_route tk = workspace_route
   \<and> g_db g1 = two_orgs \<and> g_keys g1 = ks \<and> (\<forall>h'. h' \<noteq> ''dexa_live_1'' \<longrightarrow> map_of ks h' = None)"
proof -
  let ?cf = "demo_config True" and ?g = "sv_gw (boot two_orgs 0)"
  let ?rq1 = "demo_request ''dexa_live_1'' [screen]"
  have g: "g_db ?g = two_orgs" "g_keys ?g = []" "g_meter ?g = new_meter" "g_cache ?g = []" by (simp_all add: boot_def)
  obtain ks where a: "authenticate ?cf 0 ?rq1 ?g = Inr ((workspace_route, Some (''org_1'', ''key_1'')), ?g\<lparr>g_keys := ks\<rparr>)"
      "\<forall>h'. h' \<noteq> ''dexa_live_1'' \<longrightarrow> map_of ks h' = None"
    using two_orgs_authenticate [of "''1''" "''dexa_live_1''" ?g 0 0 "[screen]"] two_orgs_ok by (auto simp: g)
  have e: "extract_messages (cf_size ?cf) (rq_messages ?rq1) = ([(1280, 800)], [[0, 2, 2]], ''next action?'')"
    using screen_extract by (simp add: demo_request_def)
  let ?s = "session_key workspace_route ?rq1"
  obtain ob m where ob: "observe (cf_hash_img ?cf) (cf_luma ?cf) (cf_cv ?cf) ?s [0, 2, 2] new_meter = (Inr ob, m)"
    by (auto simp: observe_def observe_tail_def new_meter_def demo_config_def Let_def)
  let ?tk = "make_ticket ?cf workspace_route (Some (''org_1'', ''key_1'')) ?rq1 (?g\<lparr>g_keys := ks\<rparr>) (redundant_frac ob) (exact_duplicate ob)"
  let ?g1 = "?g\<lparr>g_keys := ks, g_meter := m\<rparr>"
  have b: "chat_begin ?cf 0 ?rq1 ?g = (Ready ?tk, ?g1)" by (simp add: chat_begin_def a(1) e g ob Let_def)
  have tk: "tk_ids ?tk = Some (''org_1'', ''key_1'')" "tk_choice ?tk = Forward" "tk_route ?tk = workspace_route"
    by (simp_all add: make_ticket_def decide_choice_def e g Let_def uses_mock_def workspace_route_def)
  show ?thesis using b tk a(2) by (intro exI [of _ ?tk] exI [of _ ?g1] exI [of _ ks] conjI) (simp_all add: g)
qed

text \<open>The session key does not isolate accounts: it is built from the organisation's display name,
  which is not unique, so after organisation 1 was served by the backend, the same frame and text
  from organisation 2 in its default session is answered with organisation 1's completion.\<close>

theorem same_name_shares_completions:
  "\<exists>tk g1 tk2 g4 r.
     chat_begin (demo_config True) 0 (demo_request ''dexa_live_1'' [screen]) (sv_gw (boot two_orgs 0)) = (Ready tk, g1)
   \<and> tk_ids tk = Some (''org_1'', ''key_1'') \<and> tk_choice tk = Forward
   \<and> chat_begin (demo_config True) 2 (demo_request ''dexa_live_2'' [screen])
       (snd (chat_finish 1 ''u'' ''d'' tk (Some private_answer) g1)) = (Ready tk2, g4)
   \<and> tk_ids tk2 = Some (''org_2'', ''key_2'') \<and> tk_choice tk2 = Hit r \<and> rsp_message r = Some (Some ''answer for org 1'')"
proof -
  let ?cf = "demo_config True" and ?g = "sv_gw (boot two_orgs 0)"
  let ?rq1 = "demo_request ''dexa_live_1'' [screen]" and ?rq2 = "demo_request ''dexa_live_2'' [screen]"
  obtain tk g1 ks where b: "chat_begin ?cf 0 ?rq1 ?g = (Ready tk, g1)" and
      tk: "tk_ids tk = Some (''org_1'', ''key_1'')" "tk_choice tk = Forward" "tk_route tk = workspace_route" and
      g: "g_db g1 = two_orgs" "g_keys g1 = ks" "\<forall>h'. h' \<noteq> ''dexa_live_1'' \<longrightarrow> map_of ks h' = None"
    using two_orgs_first by blast
  have e: "extract_messages (cf_size ?cf) (rq_messages ?rq1) = ([(1280, 800)], [[0, 2, 2]], ''next action?'')"
    "extract_messages (cf_size ?cf) (rq_messages ?rq2) = ([(1280, 800)], [[0, 2, 2]], ''next action?'')"
    using screen_extract by (simp_all add: demo_request_def)
  obtain res g2 where f: "chat_finish 1 ''u'' ''d'' tk (Some private_answer) g1 = (res, g2)" by (metis surj_pair)
  have mt: "\<forall>oid kid c. tk_ids tk = Some (oid, kid) \<longrightarrow> (\<exists>db. meter_record ''u'' 1 ''d'' oid kid c (g_db g1) = Inr db)"
    using meter_record_total [OF two_orgs_ok(1), of "''u''"] by (simp add: two_orgs_ok g)
  have k2: "g_keys g2 = ks" using finish_ledger_db(2) [OF f] g(2) by simp
  have db2: "orgs (g_db g2) = orgs two_orgs \<and> quota_ok (g_db g2) ''org_2''
      \<and> (api_keys (g_db g2) = api_keys two_orgs \<or> api_keys (g_db g2) = api_keys (touch_key 1 ''key_1'' two_orgs))"
    using finish_ledger_db(3) [OF f]
  proof (elim disjE exE conjE)
    fix oid kid c assume "tk_ids tk = Some (oid, kid)" and
      "meter_record ''u'' 1 ''d'' oid kid (charge_of c (tk_redundant tk) (is_hit tk)) (g_db g1) = Inr (g_db g2)"
    then have r: "meter_record ''u'' 1 ''d'' ''org_1'' ''key_1'' (charge_of c (tk_redundant tk) (is_hit tk)) two_orgs = Inr (g_db g2)"
      using tk(1) by (simp add: g)
    show ?thesis using meter_record_cases [OF two_orgs_ok(1) r] record_credit [OF two_orgs_ok(1) r, of "''org_2''"] two_orgs_ok(3,4)
      by (auto simp: quota_ok_def)
  qed (use two_orgs_ok in \<open>simp add: g\<close>)
  obtain ks2 where a2: "authenticate ?cf 2 ?rq2 g2 = Inr ((workspace_route, Some (''org_2'', ''key_2'')), g2\<lparr>g_keys := ks2\<rparr>)"
    using two_orgs_authenticate [of "''2''" "''dexa_live_2''" g2 1 2 "[screen]"] g(3) db2 by (auto simp: k2)
  have s: "session_key workspace_route ?rq2 = session_key (tk_route tk) ?rq1"
    unfolding tk(3) by (simp add: session_key_def raw_session_def demo_request_def)
  have c: "cache_enabled (tk_route tk)" "cache_enabled workspace_route" unfolding tk(3) by (simp_all add: workspace_route_def)
  have an: "answer tk (Some private_answer) = Some private_answer" "rsp_message private_answer \<noteq> None"
    by (simp_all add: answer_def tk private_answer_def)
  obtain tk2 g4 r where h: "chat_begin ?cf 2 ?rq2 g2 = (Ready tk2, g4)" "tk_choice tk2 = Hit r"
      "same_completion r private_answer" "tk_ids tk2 = Some (''org_2'', ''key_2'')"
    using second_request_hits [OF b e(1) _ c(1) an f mt a2 c(2) e(2) _ _ s] by auto
  have "rsp_message r = Some (Some ''answer for org 1'')" using h(3) by (simp add: same_completion_def private_answer_def)
  with b tk h f show ?thesis by (intro exI [of _ tk] exI [of _ g1] exI [of _ tk2] exI [of _ g4] exI [of _ r] conjI) simp_all
qed

text \<open>Two requests of one tenant in registry mode, with the same text and the same last image.\<close>

definition acme_route :: route where
  "acme_route = \<lparr>t_name = ''sk-acme1'', t_mode = ''byoc'', backend_url = ''http://b'',
     backend_model = ''dexa-cua-vlm'', default_baseline = ''gpt-4o'', cache_enabled = True\<rparr>"

lemma acme_authenticate:
  "authenticate (demo_config False) now (demo_request ''sk-acme1'' ms) g = Inr ((acme_route, None), g)"
  by (simp add: authenticate_def demo_config_def bearer_def demo_request_def starts_with_def resolve_def
    acme_registry_def acme_eval acme_route_def route.truncate_def)

lemma acme_pair:
  assumes e: "extract_messages (cf_size (demo_config False)) ms1 = (d1, imgs1, text)" "imgs1 \<noteq> []"
    "extract_messages (cf_size (demo_config False)) ms2 = (d2, imgs2, text)" "imgs2 \<noteq> []" "last imgs2 = last imgs1"
  shows "\<exists>tk g1 res g2 tk2 g4 r.
     chat_begin (demo_config False) 0 (demo_request ''sk-acme1'' ms1) (sv_gw (boot empty_db 0)) = (Ready tk, g1)
   \<and> tk_choice tk = Forward \<and> chat_finish 1 ''u'' ''d'' tk (Some private_answer) g1 = (res, g2)
   \<and> chat_begin (demo_config False) 2 (demo_request ''sk-acme1'' ms2) g2 = (Ready tk2, g4)
   \<and> tk_choice tk2 = Hit r \<and> same_completion r private_answer"
proof -
  let ?cf = "demo_config False" and ?g = "sv_gw (boot empty_db 0)"
  let ?rq1 = "demo_request ''sk-acme1'' ms1" and ?rq2 = "demo_request ''sk-acme1'' ms2"
  have g: "g_meter ?g = new_meter" "g_cache ?g = []" by (simp_all add: boot_def)
  have e': "extract_messages (cf_size ?cf) (rq_messages ?rq1) = (d1, imgs1, text)"
    "extract_messages (cf_size ?cf) (rq_messages ?rq2) = (d2, imgs2, text)" using e by (simp_all add: demo_request_def)
  obtain ob m where ob: "observe (cf_hash_img ?cf) (cf_luma ?cf) (cf_cv ?cf) (session_key acme_route ?rq1) (last imgs1) new_meter = (Inr ob, m)"
    by (auto simp: observe_def observe_tail_def new_meter_def demo_config_def Let_def)
  define tk where "tk = make_ticket ?cf acme_route None ?rq1 ?g (redundant_frac ob) (exact_duplicate ob)"
  have b: "chat_begin ?cf 0 ?rq1 ?g = (Ready tk, ?g\<lparr>g_meter := m\<rparr>)"
    using e(2) by (simp add: chat_begin_def acme_authenticate e' g ob Let_def tk_def)
  have tk: "tk_ids tk = None" "tk_choice tk = Forward" "tk_route tk = acme_route"
    by (simp_all add: tk_def make_ticket_def decide_choice_def e' g Let_def uses_mock_def acme_route_def)
  obtain res g2 where f: "chat_finish 1 ''u'' ''d'' tk (Some private_answer) (?g\<lparr>g_meter := m\<rparr>) = (res, g2)" by (metis surj_pair)
  have s: "session_key acme_route ?rq2 = session_key (tk_route tk) ?rq1"
    unfolding tk(3) by (simp add: session_key_def raw_session_def demo_request_def)
  have c: "cache_enabled (tk_route tk)" "cache_enabled acme_route" unfolding tk(3) by (simp_all add: acme_route_def)
  have an: "answer tk (Some private_answer) = Some private_answer" "rsp_message private_answer \<noteq> None"
    by (simp_all add: answer_def tk private_answer_def)
  have mt: "\<forall>oid kid c. tk_ids tk = Some (oid, kid) \<longrightarrow> (\<exists>db. meter_record ''u'' 1 ''d'' oid kid c (g_db (?g\<lparr>g_meter := m\<rparr>)) = Inr db)"
    by (simp add: tk)
  from second_request_hits [OF b e'(1) e(2) c(1) an f mt acme_authenticate c(2) e'(2) e(4,5) s]
  obtain tk2 g4 r where "chat_begin ?cf 2 ?rq2 g2 = (Ready tk2, g4)" "tk_choice tk2 = Hit r" "same_completion r private_answer"
    by blast
  with b tk(2) f show ?thesis by blast
qed

definition two_screens :: "string \<Rightarrow> content" where
  "two_screens payload = Parts [TextPart ''compare'', ImagePart (''data:image/png;base64,'' @ payload),
     ImagePart ''data:image/png;base64,AAIC'']"

lemma two_screens_extract:
  "extract_messages (cf_size (demo_config acc)) [two_screens ''AAAA''] = ([(1280, 800), (1280, 800)], [[0, 0, 0], [0, 2, 2]], ''compare'')"
  "extract_messages (cf_size (demo_config acc)) [two_screens ''////''] = ([(1280, 800), (1280, 800)], [[255, 255, 255], [0, 2, 2]], ''compare'')"
  by (simp_all add: extract_messages_def two_screens_def data_uri_def starts_with_def b64decode_def b64_value_def
    img_dims_def demo_config_def Let_def)

text \<open>Only a request's last image keys the cached completion: a second request whose first image
  is different, with the same text and last image, is answered with the first one's completion.\<close>

theorem only_last_image_keys_cache:
  "\<exists>tk g1 res g2 tk2 g4 r.
     chat_begin (demo_config False) 0 (demo_request ''sk-acme1'' [two_screens ''AAAA'']) (sv_gw (boot empty_db 0)) = (Ready tk, g1)
   \<and> tk_choice tk = Forward \<and> chat_finish 1 ''u'' ''d'' tk (Some private_answer) g1 = (res, g2)
   \<and> chat_begin (demo_config False) 2 (demo_request ''sk-acme1'' [two_screens ''////'']) g2 = (Ready tk2, g4)
   \<and> tk_choice tk2 = Hit r \<and> same_completion r private_answer"
  by (rule acme_pair [OF two_screens_extract(1) _ two_screens_extract(2)]) simp_all

lemma cost_at_most_ex: "\<exists>m. 0 \<le> m \<and> cost_at_most m tk backend"
proof (cases "answer tk backend")
  case None then show ?thesis by (auto simp: cost_at_most_def intro: exI [of _ 0])
next
  case (Some r0)
  show ?thesis
  proof (cases "res_bind (out_tokens (r0\<lparr>rsp_model := ''dexa-cua-vlm''\<rparr>)) (\<lambda>out. price tk out (is_hit tk))")
    case (Inl e) then show ?thesis using Some by (auto simp: cost_at_most_def intro: exI [of _ 0])
  next
    case (Inr s)
    show ?thesis unfolding cost_at_most_def Some option.case Inr sum.case
      by (rule exI [of _ "max 0 (c_usd (ours s))"]) simp
  qed
qed

lemma serve_steps:
  assumes "chat_begin cf now rq (sv_gw s) = (Ready tk, g1)" "sv_flight s = []" "cost_at_most m tk backend"
    "chat_finish now1 tok day tk backend g1 = (res, g2)"
  shows "\<exists>l. (gstep cf 1 m)\<^sup>*\<^sup>* s \<lparr>sv_gw = g2, sv_flight = [], sv_log = l\<rparr>"
proof -
  let ?s1 = "s\<lparr>sv_gw := g1, sv_flight := sv_flight s @ [tk]\<rparr>"
  have 1: "gstep cf 1 m s ?s1" by (rule g_begin [OF assms(1)]) (simp add: assms(2))
  have 2: "gstep cf 1 m ?s1 \<lparr>sv_gw = g2, sv_flight = [] @ [],
      sv_log = sv_log ?s1 @ (if is_hit tk then [] else case answer tk backend of None \<Rightarrow> [] | Some r \<Rightarrow> [(tk, r)])\<rparr>"
    by (rule g_finish [where pre = "[]" and post = "[]"]) (use assms in simp_all)
  show ?thesis using rtranclp.rtrancl_into_rtrancl [OF r_into_rtranclp [of "gstep cf 1 m", OF 1] 2] by auto
qed

theorem cache_hits_sound_witness:
  "\<exists>m s tk g' r. (gstep (demo_config False) 1 m)\<^sup>*\<^sup>* (boot empty_db 0) s
     \<and> chat_begin (demo_config False) 2 (demo_request ''sk-acme1'' [screen]) (sv_gw s) = (Ready tk, g') \<and> tk_choice tk = Hit r
     \<and> (\<exists>(tk0, r0) \<in> set (sv_log s). tk_session tk0 = tk_session tk \<and> tk_img_hash tk0 = tk_img_hash tk
          \<and> tk_text_hash tk0 = tk_text_hash tk \<and> same_completion r r0)"
proof -
  obtain tk g1 res g2 tk2 g4 r where
      b: "chat_begin (demo_config False) 0 (demo_request ''sk-acme1'' [screen]) (sv_gw (boot empty_db 0)) = (Ready tk, g1)" and
      f: "chat_finish 1 ''u'' ''d'' tk (Some private_answer) g1 = (res, g2)" and
      b2: "chat_begin (demo_config False) 2 (demo_request ''sk-acme1'' [screen]) g2 = (Ready tk2, g4)" and h: "tk_choice tk2 = Hit r"
    using acme_pair [OF screen_extract _ screen_extract] by auto
  obtain m where m: "cost_at_most m tk (Some private_answer)" using cost_at_most_ex by blast
  have "sv_flight (boot empty_db 0) = []" by (simp add: boot_def)
  from serve_steps [OF b this m f] obtain l where
    s: "(gstep (demo_config False) 1 m)\<^sup>*\<^sup>* (boot empty_db 0) \<lparr>sv_gw = g2, sv_flight = [], sv_log = l\<rparr>" by blast
  from cache_hits_sound [OF s] b2 h s show ?thesis
    by (intro exI [of _ m] exI [of _ "\<lparr>sv_gw = g2, sv_flight = [], sv_log = l\<rparr>"] exI [of _ tk2] exI [of _ g4] exI [of _ r] conjI)
      simp_all
qed


end
