(* ===== verification/ControlApi.thy ===== *)
theory ControlApi imports Resolver Gateway begin

text \<open>
  The control plane's HTTP API, \<^verbatim>\<open>src/dexa_platform/control/api.py\<close>: authentication of a
  management call by its key, and the handlers over the accounts and metering operations. The
  framework's routing is not modelled; a handler returns its view and the database.
\<close>

text \<open>The token of the \<^verbatim>\<open>Authorization\<close> header, empty when it is not a bearer token.\<close>

definition bearer_token :: "string \<Rightarrow> string" where
  "bearer_token authorization =
     (if starts_with ''bearer '' (map to_lower authorization) then strip (drop 7 authorization) else '''')"

definition org_from_key :: "(string \<Rightarrow> string) \<Rightarrow> string \<Rightarrow> database \<Rightarrow> string result" where
  "org_from_key H authorization db =
     (let token = bearer_token authorization in
      if \<not> looks_like_key (Some token) then Inl (HTTPException 401 ''missing or malformed API key'')
      else res_bind (key_by_hash db (H token)) (\<lambda>rec.
        case rec of
          None \<Rightarrow> Inl (HTTPException 401 ''invalid or revoked API key'')
        | Some k \<Rightarrow> if k_revoked_at k \<noteq> None then Inl (HTTPException 401 ''invalid or revoked API key'')
                    else Inr (k_org_id k)))"

record credit_view =
  cv_granted :: rat
  cv_spent :: rat
  cv_remaining :: rat

definition credit_of :: "usage_view \<Rightarrow> credit_view" where
  "credit_of v = \<lparr>cv_granted = uv_granted v, cv_spent = uv_spent v, cv_remaining = uv_remaining v\<rparr>"

record signup_view =
  sg_org_id :: string
  sg_user_id :: string
  sg_returning :: bool
  sg_api_key :: "string option"
  sg_key_prefix :: "string option"
  sg_credit :: credit_view

definition api_signup ::
    "(string \<Rightarrow> string) \<Rightarrow> entropy \<Rightarrow> rat \<Rightarrow> string \<Rightarrow> string \<Rightarrow> string \<Rightarrow> string \<Rightarrow> database
     \<Rightarrow> (signup_view \<times> database) result" where
  "api_signup H rnd now provider subject email org_name db =
     res_bind (signup_oauth H rnd now provider subject email org_name db) (\<lambda>(u, nk, db').
       Inr (\<lparr>sg_org_id = u_org_id u, sg_user_id = u_id u, sg_returning = (nk = None),
             sg_api_key = map_option nk_secret nk, sg_key_prefix = map_option (\<lambda>n. k_prefix (nk_record n)) nk,
             sg_credit = credit_of (usage_snapshot db' (u_org_id u))\<rparr>, db'))"

record me_view =
  me_org_id :: string
  me_name :: string
  me_mode :: string
  me_backend_model :: string
  me_cache_enabled :: bool
  me_credit :: credit_view
  me_usage_total :: agg_view

definition api_me :: "(string \<Rightarrow> string) \<Rightarrow> string \<Rightarrow> database \<Rightarrow> me_view result" where
  "api_me H authorization db =
     res_bind (org_from_key H authorization db) (\<lambda>oid.
       case get_org db oid of
         None \<Rightarrow> Inl (RuntimeError ''AttributeError'')
       | Some og \<Rightarrow>
           (let v = usage_snapshot db oid
            in Inr \<lparr>me_org_id = o_id og, me_name = o_name og, me_mode = o_mode og, me_backend_model = o_backend_model og,
                    me_cache_enabled = o_cache_enabled og, me_credit = credit_of v, me_usage_total = uv_total v\<rparr>))"

record key_view =
  kv_id :: string
  kv_name :: string
  kv_prefix :: string
  kv_scopes :: string
  kv_active :: bool
  kv_created_at :: rat
  kv_last_used_at :: "rat option"

definition view_key :: "api_key \<Rightarrow> key_view" where
  "view_key k = \<lparr>kv_id = k_id k, kv_name = k_name k, kv_prefix = k_prefix k, kv_scopes = k_scopes k,
     kv_active = active k, kv_created_at = k_created_at k, kv_last_used_at = k_last_used_at k\<rparr>"

definition api_get_keys :: "(string \<Rightarrow> string) \<Rightarrow> string \<Rightarrow> database \<Rightarrow> key_view list result" where
  "api_get_keys H authorization db =
     res_bind (org_from_key H authorization db) (\<lambda>oid. Inr (map view_key (list_keys oid db)))"

record minted_view =
  mv_api_key :: string
  mv_id :: string
  mv_prefix :: string

definition view_minted :: "new_key \<Rightarrow> minted_view" where
  "view_minted nk = \<lparr>mv_api_key = nk_secret nk, mv_id = k_id (nk_record nk), mv_prefix = k_prefix (nk_record nk)\<rparr>"

definition api_post_key ::
    "(string \<Rightarrow> string) \<Rightarrow> entropy \<Rightarrow> rat \<Rightarrow> string \<Rightarrow> string \<Rightarrow> database \<Rightarrow> (minted_view \<times> database) result" where
  "api_post_key H rnd now authorization name db =
     res_bind (org_from_key H authorization db) (\<lambda>oid.
     res_bind (create_key H rnd now oid name ''live'' db) (\<lambda>(nk, db'). Inr (view_minted nk, db')))"

definition api_rotate ::
    "(string \<Rightarrow> string) \<Rightarrow> entropy \<Rightarrow> rat \<Rightarrow> string \<Rightarrow> string \<Rightarrow> database \<Rightarrow> (minted_view \<times> database) result" where
  "api_rotate H rnd now authorization key_id db =
     res_bind (org_from_key H authorization db) (\<lambda>oid.
     res_bind (rotate_key H rnd now oid key_id db) (\<lambda>(nk, db').
       case nk of None \<Rightarrow> Inl (HTTPException 404 ''key not found'') | Some n \<Rightarrow> Inr (view_minted n, db')))"

definition api_revoke ::
    "(string \<Rightarrow> string) \<Rightarrow> rat \<Rightarrow> string \<Rightarrow> string \<Rightarrow> database \<Rightarrow> (string \<times> database) result" where
  "api_revoke H now authorization key_id db =
     res_bind (org_from_key H authorization db) (\<lambda>oid.
       case revoke_key now oid key_id db of
         (True, db') \<Rightarrow> Inr (key_id, db')
       | (False, _) \<Rightarrow> Inl (HTTPException 404 ''key not found or already revoked''))"

definition api_usage :: "(string \<Rightarrow> string) \<Rightarrow> string \<Rightarrow> database \<Rightarrow> usage_view result" where
  "api_usage H authorization db =
     res_bind (org_from_key H authorization db) (\<lambda>oid. Inr (usage_snapshot db oid))"

section \<open>Management calls\<close>

text \<open>The state-changing management endpoints.\<close>

datatype mgmt = PostKey string | Rotate string | Revoke string

fun run_mgmt :: "(string \<Rightarrow> string) \<Rightarrow> entropy \<Rightarrow> rat \<Rightarrow> string \<Rightarrow> mgmt \<Rightarrow> database \<Rightarrow> database result" where
  "run_mgmt H rnd now auth (PostKey n) db = map_sum id snd (api_post_key H rnd now auth n db)"
| "run_mgmt H rnd now auth (Rotate kid) db = map_sum id snd (api_rotate H rnd now auth kid db)"
| "run_mgmt H rnd now auth (Revoke kid) db = map_sum id snd (api_revoke H now auth kid db)"

lemma map_sum_snd_Inr: "map_sum id snd r = Inr y \<longleftrightarrow> (\<exists>x. r = Inr (x, y))"
  by (cases r) auto

text \<open>The keys of another organisation are untouched.\<close>

definition keys_of :: "string \<Rightarrow> database \<Rightarrow> api_key list" where
  "keys_of oid db = filter (\<lambda>k. k_org_id k = oid) (api_keys db)"

lemma keys_of_update:
  assumes "db_ok db" "get_key db kid = Some r" "k_org_id r = oid" "o2 \<noteq> oid" "\<And>k. k_org_id (f k) = k_org_id k"
  shows "keys_of o2 (update_key kid f db) = keys_of o2 db"
proof -
  have r: "r \<in> set (api_keys db)" "k_id r = kid" using assms(2) by (auto simp: get_key_def dest: find_in)
  have "k_org_id k = oid" if "k \<in> set (api_keys db)" "k_id k = kid" for k
    using that r assms(1,3) by (auto simp: db_ok_def distinct_map dest: inj_onD)
  then have "filter (\<lambda>k. k_org_id k = o2) (map (\<lambda>k. if k_id k = kid then f k else k) ks) = filter (\<lambda>k. k_org_id k = o2) ks"
    if "set ks \<subseteq> set (api_keys db)" for ks
    using that assms(4,5) by (induction ks) auto
  then show ?thesis by (simp add: keys_of_def update_key_def)
qed

lemma mint_keys_of:
  "mint_key H rnd now oid nm env db = Inr (nk, db') \<Longrightarrow> o2 \<noteq> oid \<Longrightarrow> keys_of o2 db' = keys_of o2 db"
  by (auto simp: mint_key_def add_key_def Let_def keys_of_def split: if_splits)

lemma org_from_key_usable:
  assumes "db_ok db" "org_from_key H auth db = Inr oid"
  shows "usable db (H (bearer_token auth)) \<and> (\<exists>k\<in>set (api_keys db). k_hash k = H (bearer_token auth) \<and> k_org_id k = oid)"
  using assms(2) by (auto simp: org_from_key_def Let_def key_by_hash_total [OF assms(1)] usable_def active_def
    split: if_splits option.splits dest!: find_in)

lemma run_mgmt_cases:
  assumes "run_mgmt H rnd now auth c db = Inr db'"
  shows "\<exists>oid. org_from_key H auth db = Inr oid
    \<and> (case c of PostKey n \<Rightarrow> \<exists>nk. create_key H rnd now oid n ''live'' db = Inr (nk, db')
       | Rotate kid \<Rightarrow> \<exists>nk. rotate_key H rnd now oid kid db = Inr (Some nk, db')
       | Revoke kid \<Rightarrow> revoke_key now oid kid db = (True, db'))"
proof (cases c)
  case (Revoke kid)
  then obtain oid where o1: "org_from_key H auth db = Inr oid"
      "(case revoke_key now oid kid db of (True, db') \<Rightarrow> Inr (kid, db')
        | (False, _) \<Rightarrow> Inl (HTTPException 404 ''key not found or already revoked'')) = Inr (kid, db')"
    using assms by (fastforce simp: map_sum_snd_Inr api_revoke_def split: prod.splits bool.splits)
  obtain b d where "revoke_key now oid kid db = (b, d)" by fastforce
  then show ?thesis using o1 Revoke by (cases b) auto
qed (use assms in \<open>auto simp: map_sum_snd_Inr api_post_key_def api_rotate_def split: option.splits\<close>)

lemma run_mgmt_ok:
  assumes "db_ok db" "run_mgmt H rnd now auth c db = Inr db'" shows "db_ok db'"
proof -
  obtain oid where o1: "org_from_key H auth db = Inr oid" and
    c: "case c of PostKey n \<Rightarrow> \<exists>nk. create_key H rnd now oid n ''live'' db = Inr (nk, db')
       | Rotate kid \<Rightarrow> \<exists>nk. rotate_key H rnd now oid kid db = Inr (Some nk, db')
       | Revoke kid \<Rightarrow> revoke_key now oid kid db = (True, db')"
    using run_mgmt_cases [OF assms(2)] by blast
  have "oid \<in> o_id ` set (orgs db)" using org_from_key_usable [OF assms(1) o1] assms(1) by (auto simp: db_ok_def)
  then show ?thesis using c mint_key_ok [OF assms(1)] rotate_ok [OF assms(1)] revoke_ok [OF assms(1)]
    by (cases c) (auto simp: create_key_def, metis snd_conv)
qed

text \<open>Management is confined to the caller's organisation: a successful call was authenticated by
  a usable key of some organisation, keeps the schema's constraints, and leaves every other
  organisation's keys exactly as they were.\<close>

theorem management_confined:
  assumes "db_ok db" "run_mgmt H rnd now auth c db = Inr db'"
  shows "db_ok db' \<and> (\<exists>oid. org_from_key H auth db = Inr oid \<and> usable db (H (bearer_token auth))
    \<and> (\<forall>o2. o2 \<noteq> oid \<longrightarrow> keys_of o2 db' = keys_of o2 db))"
proof -
  obtain oid where o1: "org_from_key H auth db = Inr oid" and
    c: "case c of PostKey n \<Rightarrow> \<exists>nk. create_key H rnd now oid n ''live'' db = Inr (nk, db')
       | Rotate kid \<Rightarrow> \<exists>nk. rotate_key H rnd now oid kid db = Inr (Some nk, db')
       | Revoke kid \<Rightarrow> revoke_key now oid kid db = (True, db')"
    using run_mgmt_cases [OF assms(2)] by blast
  have "keys_of o2 db' = keys_of o2 db" if n: "o2 \<noteq> oid" for o2
  proof (cases c)
    case (PostKey x) then show ?thesis using c mint_keys_of n by (auto simp: create_key_def)
  next
    case (Rotate kid)
    then show ?thesis using c mint_keys_of n keys_of_update [OF assms(1) _ _ n]
      by (auto simp: rotate_key_def split: option.splits if_splits)
  next
    case (Revoke kid)
    then show ?thesis using c n keys_of_update [OF assms(1) _ _ n]
      by (auto simp: revoke_key_def split: option.splits if_splits)
  qed
  then show ?thesis using run_mgmt_ok [OF assms] org_from_key_usable [OF assms(1) o1] o1 by blast
qed

definition demo_other_db :: database where
  "demo_other_db = snd (revoke_key 1 ''org_2'' ''key_2'' two_orgs)"

lemma two_orgs_bearer: "bearer_token ''bearer dexa_live_2'' = ''dexa_live_2''"
proof -
  have "to_lower c = c" if "c \<in> set ''bearer dexa_live_2''" for c
    using that by (auto simp: to_lower_def)
  then have "map to_lower ''bearer dexa_live_2'' = ''bearer dexa_live_2''" by (rule map_idI)
  then show ?thesis by (simp add: bearer_token_def starts_with_def strip_def is_space_def)
qed

lemma revoke_own: "run_mgmt id rnd 1 ''bearer dexa_live_2'' (Revoke ''key_2'') two_orgs = Inr demo_other_db"
  by (simp add: api_revoke_def org_from_key_def two_orgs_bearer looks_like_key_def starts_with_def key_by_hash_def
    demo_other_db_def revoke_key_def get_key_def two_orgs_def demo_db_def demo_key_def Let_def)

theorem management_confined_witness:
  "run_mgmt id (demo_rnd ''9'') 1 ''bearer dexa_live_2'' (Revoke ''key_2'') two_orgs = Inr demo_other_db
   \<and> db_ok demo_other_db \<and> usable two_orgs ''dexa_live_2'' \<and> keys_of ''org_1'' demo_other_db = keys_of ''org_1'' two_orgs"
proof -
  have o1: "org_from_key id ''bearer dexa_live_2'' two_orgs = Inr ''org_2''"
    by (simp add: org_from_key_def two_orgs_bearer looks_like_key_def starts_with_def key_by_hash_def two_orgs_def
      demo_key_def Let_def)
  from management_confined [OF two_orgs_ok(1) revoke_own] show ?thesis
    by (auto simp: revoke_own [simplified] o1 two_orgs_bearer)
qed

end
