(* ===== verification/Tiering.thy ===== *)
theory Tiering imports Prelude begin

text \<open>
  The tiering policy, \<^verbatim>\<open>src/dexa_platform/sessions/tiering.py\<close>: the measured profile and its
  interpolation, the break-even idle times, the tier decision and the savings estimate. An
  infinite break-even is \<^const>\<open>None\<close>; the reason string of a decision is not kept.
\<close>

section \<open>Profile\<close>

record profile =
  kv_gb :: rat
  prefill_ms :: rat
  restore_cpu_ms :: rat
  restore_nvme_ms :: rat

definition PROFILE :: "(rat \<times> profile) list" where
  "PROFILE =
     [(4096, \<lparr>kv_gb = 23/100, prefill_ms = 296, restore_cpu_ms = 25, restore_nvme_ms = 246\<rparr>),
      (16384, \<lparr>kv_gb = 94/100, prefill_ms = 1321, restore_cpu_ms = 115, restore_nvme_ms = 390\<rparr>),
      (32768, \<lparr>kv_gb = 188/100, prefill_ms = 3167, restore_cpu_ms = 182, restore_nvme_ms = 646\<rparr>),
      (65536, \<lparr>kv_gb = 376/100, prefill_ms = 8567, restore_cpu_ms = 297, restore_nvme_ms = 1228\<rparr>)]"

definition GPU_USD_HR :: rat where "GPU_USD_HR = 18/10"
definition RAM_USD_GB_HR :: rat where "RAM_USD_GB_HR = 6/1000"
definition NVME_USD_GB_HR :: rat where "NVME_USD_GB_HR = 2/10000"
definition GPU_USABLE_GB :: rat where "GPU_USABLE_GB = 60"
definition GPU_USD_S :: rat where "GPU_USD_S = GPU_USD_HR / 3600"

definition scale_profile :: "rat \<Rightarrow> profile \<Rightarrow> profile" where
  "scale_profile c p = \<lparr>kv_gb = kv_gb p * c, prefill_ms = prefill_ms p * c,
     restore_cpu_ms = restore_cpu_ms p * c, restore_nvme_ms = restore_nvme_ms p * c\<rparr>"

definition blend_profile :: "rat \<Rightarrow> profile \<Rightarrow> profile \<Rightarrow> profile" where
  "blend_profile f a b = \<lparr>kv_gb = kv_gb a + f * (kv_gb b - kv_gb a),
     prefill_ms = prefill_ms a + f * (prefill_ms b - prefill_ms a),
     restore_cpu_ms = restore_cpu_ms a + f * (restore_cpu_ms b - restore_cpu_ms a),
     restore_nvme_ms = restore_nvme_ms a + f * (restore_nvme_ms b - restore_nvme_ms a)\<rparr>"

fun profile_loop :: "rat \<Rightarrow> (rat \<times> profile) list \<Rightarrow> profile option" where
  "profile_loop t ((lo, a) # (hi, b) # rest) =
     (if t \<le> hi then Some (blend_profile ((t - lo) / (hi - lo)) a b) else profile_loop t ((hi, b) # rest))"
| "profile_loop t _ = None"

definition profile_for :: "int \<Rightarrow> profile" where
  "profile_for tokens =
     (let t = of_int tokens; (k0, p0) = hd PROFILE; (k1, p1) = last PROFILE in
      if t \<le> k0 then scale_profile (t / k0) p0
      else case profile_loop t PROFILE of Some p \<Rightarrow> p | None \<Rightarrow> scale_profile (t / k1) p1)"

section \<open>Decisions\<close>

record breakevens =
  warm_s :: "rat option"
  ram_s :: "rat option"
  nvme_s :: "rat option"

definition warm_hr :: "profile \<Rightarrow> rat" where "warm_hr p = kv_gb p / GPU_USABLE_GB * GPU_USD_HR"
definition ram_hr :: "profile \<Rightarrow> rat" where "ram_hr p = kv_gb p * RAM_USD_GB_HR"
definition nvme_hr :: "profile \<Rightarrow> rat" where "nvme_hr p = kv_gb p * NVME_USD_GB_HR"

definition breakeven :: "rat \<Rightarrow> rat \<Rightarrow> rat option" where
  "breakeven saved hr = (if hr \<noteq> 0 then Some (saved / hr * 3600) else None)"

definition breakevens_for :: "int \<Rightarrow> breakevens" where
  "breakevens_for tokens =
     (let p = profile_for tokens; prefill = prefill_ms p / 1000 * GPU_USD_S;
          r_cpu = restore_cpu_ms p / 1000 * GPU_USD_S; r_nvme = restore_nvme_ms p / 1000 * GPU_USD_S
      in \<lparr>warm_s = breakeven prefill (warm_hr p), ram_s = breakeven (prefill - r_cpu) (ram_hr p),
          nvme_s = breakeven (prefill - r_nvme) (nvme_hr p)\<rparr>)"

datatype tier = Warm | Ram | Nvme | Drop

record decision =
  d_tier :: tier
  d_idle_s :: rat
  d_breakevens :: breakevens

definition idle_within :: "rat \<Rightarrow> rat option \<Rightarrow> bool" where
  "idle_within idle be = (case be of None \<Rightarrow> True | Some b \<Rightarrow> idle \<le> b)"

definition decide :: "rat \<Rightarrow> int \<Rightarrow> decision" where
  "decide idle tokens =
     (let be = breakevens_for tokens;
          t = (if idle_within idle (warm_s be) then Warm else if idle_within idle (ram_s be) then Ram
               else if idle_within idle (nvme_s be) then Nvme else Drop)
      in \<lparr>d_tier = t, d_idle_s = idle, d_breakevens = be\<rparr>)"

record saving =
  sv_reprefill_ms :: rat
  sv_restore_ms :: rat
  sv_saved_ms :: rat
  sv_saved_usd :: rat
  sv_speedup :: "rat option"

definition estimated_savings :: "int \<Rightarrow> bool \<Rightarrow> saving" where
  "estimated_savings tokens warm =
     (let p = profile_for tokens; pre = prefill_ms p; res = restore_cpu_ms p in
      if \<not> warm then \<lparr>sv_reprefill_ms = round_to 1 pre, sv_restore_ms = round_to 1 res, sv_saved_ms = 0,
                     sv_saved_usd = 0, sv_speedup = None\<rparr>
      else let saved = max 0 (pre - res) in
        \<lparr>sv_reprefill_ms = round_to 1 pre, sv_restore_ms = round_to 1 res, sv_saved_ms = round_to 1 saved,
         sv_saved_usd = round_to 8 (saved / 1000 * GPU_USD_S),
         sv_speedup = (if res > 0 then Some (round_to 1 (pre / res)) else None)\<rparr>)"

section \<open>The interpolated profile stays in a cone\<close>

text \<open>The facts the policy rests on are linear in the profile, so they hold between and beyond the
  measured points because they hold at them.\<close>

definition sane :: "profile \<Rightarrow> bool" where
  "sane p \<longleftrightarrow> 0 < kv_gb p \<and> 0 < restore_cpu_ms p \<and> restore_cpu_ms p < restore_nvme_ms p
     \<and> restore_nvme_ms p < prefill_ms p \<and> 11 * restore_cpu_ms p \<le> prefill_ms p
     \<and> prefill_ms p \<le> 30 * (prefill_ms p - restore_nvme_ms p)"

lemma sane_scale: "sane p \<Longrightarrow> 0 < c \<Longrightarrow> sane (scale_profile c p)"
  by (simp add: sane_def scale_profile_def)

lemma convex_less:
  fixes f :: rat
  assumes "0 \<le> f" "f \<le> 1" "x < y" "x' < y'"
  shows "x + f * (x' - x) < y + f * (y' - y)"
proof -
  have "0 \<le> (1 - f) * (y - x) \<and> 0 \<le> f * (y' - x')" using assms by simp
  moreover have "(1 - f) * (y - x) > 0 \<or> f * (y' - x') > 0" using assms by (cases "f = 1") simp_all
  ultimately have "0 < (1 - f) * (y - x) + f * (y' - x')" by linarith
  then show ?thesis by (simp add: algebra_simps)
qed

lemma convex_le:
  fixes f :: rat
  assumes "0 \<le> f" "f \<le> 1" "x \<le> y" "x' \<le> y'"
  shows "x + f * (x' - x) \<le> y + f * (y' - y)"
proof -
  have "0 \<le> (1 - f) * (y - x)" "0 \<le> f * (y' - x')" using assms by simp_all
  then show ?thesis by (simp add: algebra_simps)
qed

lemma sane_blend:
  assumes "sane a" "sane b" "0 \<le> f" "f \<le> 1" shows "sane (blend_profile f a b)"
proof -
  note L = convex_less [OF assms(3,4)] and E = convex_le [OF assms(3,4)]
  have 1: "0 < kv_gb a + f * (kv_gb b - kv_gb a)" using L [of 0 "kv_gb a" 0 "kv_gb b"] assms by (simp add: sane_def)
  have 2: "0 < restore_cpu_ms a + f * (restore_cpu_ms b - restore_cpu_ms a)"
    using L [of 0 "restore_cpu_ms a" 0 "restore_cpu_ms b"] assms by (simp add: sane_def)
  have 3: "restore_cpu_ms a + f * (restore_cpu_ms b - restore_cpu_ms a) < restore_nvme_ms a + f * (restore_nvme_ms b - restore_nvme_ms a)"
    using L assms by (simp add: sane_def)
  have 4: "restore_nvme_ms a + f * (restore_nvme_ms b - restore_nvme_ms a) < prefill_ms a + f * (prefill_ms b - prefill_ms a)"
    using L assms by (simp add: sane_def)
  have 5: "11 * (restore_cpu_ms a + f * (restore_cpu_ms b - restore_cpu_ms a)) \<le> prefill_ms a + f * (prefill_ms b - prefill_ms a)"
    using E [of "11 * restore_cpu_ms a" "prefill_ms a" "11 * restore_cpu_ms b" "prefill_ms b"] assms
    by (simp add: sane_def algebra_simps)
  have 6: "prefill_ms a + f * (prefill_ms b - prefill_ms a)
      \<le> 30 * (prefill_ms a + f * (prefill_ms b - prefill_ms a) - (restore_nvme_ms a + f * (restore_nvme_ms b - restore_nvme_ms a)))"
    using E [of "prefill_ms a" "30 * (prefill_ms a - restore_nvme_ms a)" "prefill_ms b" "30 * (prefill_ms b - restore_nvme_ms b)"] assms
    by (simp add: sane_def algebra_simps)
  show ?thesis using 1 2 3 4 5 6 by (simp add: sane_def blend_profile_def)
qed

lemma sane_profile:
  assumes "0 < tokens" shows "sane (profile_for tokens)"
proof -
  have pts: "\<forall>(k, p)\<in>set PROFILE. sane p" by (simp add: PROFILE_def sane_def)
  have t: "0 < (of_int tokens :: rat)" using assms by simp
  show ?thesis using t pts
    by (auto simp: profile_for_def PROFILE_def Let_def intro!: sane_scale sane_blend)
qed

section \<open>What a tier costs\<close>

text \<open>Dollars of resuming after \<open>idle\<close> seconds: the tier's storage for that time and the restore;
  a dropped session is prefilled again.\<close>

definition resume_cost :: "tier \<Rightarrow> rat \<Rightarrow> profile \<Rightarrow> rat" where
  "resume_cost t idle p =
     (case t of Warm \<Rightarrow> warm_hr p * idle / 3600
      | Ram \<Rightarrow> ram_hr p * idle / 3600 + restore_cpu_ms p / 1000 * GPU_USD_S
      | Nvme \<Rightarrow> nvme_hr p * idle / 3600 + restore_nvme_ms p / 1000 * GPU_USD_S
      | Drop \<Rightarrow> prefill_ms p / 1000 * GPU_USD_S)"

lemmas rates = warm_hr_def ram_hr_def nvme_hr_def GPU_USD_S_def GPU_USD_HR_def RAM_USD_GB_HR_def NVME_USD_GB_HR_def
  GPU_USABLE_GB_def

lemma idle_within_breakeven:
  assumes "0 < hr" shows "idle_within idle (breakeven saved hr) \<longleftrightarrow> hr * idle / 3600 \<le> saved"
  using assms by (simp add: breakeven_def idle_within_def field_simps)

lemma rates_pos:
  assumes "sane p" shows "0 < warm_hr p" "0 < ram_hr p" "0 < nvme_hr p"
  using assms by (simp_all add: rates sane_def)

lemma idle_within_cost:
  assumes "0 < tokens"
  shows "idle_within idle (warm_s (breakevens_for tokens)) \<longleftrightarrow> resume_cost Warm idle (profile_for tokens) \<le> resume_cost Drop idle (profile_for tokens)"
    "idle_within idle (ram_s (breakevens_for tokens)) \<longleftrightarrow> resume_cost Ram idle (profile_for tokens) \<le> resume_cost Drop idle (profile_for tokens)"
    "idle_within idle (nvme_s (breakevens_for tokens)) \<longleftrightarrow> resume_cost Nvme idle (profile_for tokens) \<le> resume_cost Drop idle (profile_for tokens)"
  using rates_pos [OF sane_profile [OF assms]]
  by (simp_all add: breakevens_for_def Let_def idle_within_breakeven resume_cost_def le_diff_eq)

text \<open>The break-evens are ordered: what is worth keeping warm is worth keeping in RAM, and that on NVMe.\<close>

lemma worth_ordered:
  assumes "sane p" "0 \<le> idle"
  shows "resume_cost Warm idle p \<le> resume_cost Drop idle p \<Longrightarrow> resume_cost Ram idle p \<le> resume_cost Drop idle p"
    "resume_cost Ram idle p \<le> resume_cost Drop idle p \<Longrightarrow> resume_cost Nvme idle p \<le> resume_cost Drop idle p"
proof -
  have kv: "0 \<le> kv_gb p * idle" using assms by (simp add: sane_def)
  show "resume_cost Ram idle p \<le> resume_cost Drop idle p" if "resume_cost Warm idle p \<le> resume_cost Drop idle p"
    using that assms(1) by (simp add: resume_cost_def rates sane_def field_simps)
  show "resume_cost Nvme idle p \<le> resume_cost Drop idle p" if "resume_cost Ram idle p \<le> resume_cost Drop idle p"
    using that assms(1) kv by (simp add: resume_cost_def rates sane_def field_simps)
qed

section \<open>Properties\<close>

text \<open>A tier is chosen exactly when keeping the KV there costs no more than the re-prefill it
  saves and no faster tier qualifies: for every context size and idle time, the decision's tier
  qualifies, all tiers below it down to NVMe qualify too, none above it does, and the session is
  dropped only when every tier costs more than prefilling again.\<close>

theorem decide_fastest_worthwhile:
  assumes "0 < tokens" "0 \<le> idle"
  shows "(let t = d_tier (decide idle tokens);
            worth = (\<lambda>x. resume_cost x idle (profile_for tokens) \<le> resume_cost Drop idle (profile_for tokens)) in
     worth t
   \<and> (t = Warm \<longleftrightarrow> worth Warm) \<and> (t = Ram \<longleftrightarrow> \<not> worth Warm \<and> worth Ram)
   \<and> (t = Nvme \<longleftrightarrow> \<not> worth Warm \<and> \<not> worth Ram \<and> worth Nvme) \<and> (t = Drop \<longleftrightarrow> \<not> worth Nvme))"
  using idle_within_cost [OF assms(1), of idle] worth_ordered [OF sane_profile [OF assms(1)] assms(2)]
  by (auto simp: decide_def Let_def)

theorem decide_fastest_worthwhile_witness:
  "d_tier (decide 100 4096) = Ram \<longleftrightarrow>
     \<not> resume_cost Warm 100 (profile_for 4096) \<le> resume_cost Drop 100 (profile_for 4096)
     \<and> resume_cost Ram 100 (profile_for 4096) \<le> resume_cost Drop 100 (profile_for 4096)"
  using decide_fastest_worthwhile [of 4096 100] by (simp add: Let_def)

text \<open>A warm turn is always a saving: at every context size restoring from RAM is at least eleven
  times faster than prefilling, so the saved time is positive and is their difference.\<close>

theorem warm_turn_saves:
  assumes "0 < tokens"
  shows "11 * restore_cpu_ms (profile_for tokens) \<le> prefill_ms (profile_for tokens)
    \<and> sv_saved_ms (estimated_savings tokens True)
        = round_to 1 (prefill_ms (profile_for tokens) - restore_cpu_ms (profile_for tokens))
    \<and> 0 < prefill_ms (profile_for tokens) - restore_cpu_ms (profile_for tokens)
    \<and> sv_speedup (estimated_savings tokens True)
        = Some (round_to 1 (prefill_ms (profile_for tokens) / restore_cpu_ms (profile_for tokens)))"
  using sane_profile [OF assms] by (simp add: estimated_savings_def Let_def sane_def)

theorem warm_turn_saves_witness:
  "11 * restore_cpu_ms (profile_for 10000) \<le> prefill_ms (profile_for 10000)"
  using warm_turn_saves [of 10000] by simp

end
