(* ===== verification/Sessions.thy ===== *)
theory Sessions imports Tiering begin

text \<open>
  Stateful sessions: \<^verbatim>\<open>store.py\<close>, \<^verbatim>\<open>backend.py\<close> and \<^verbatim>\<open>service.py\<close> under
  \<^verbatim>\<open>src/dexa_platform/sessions/\<close>. Session objects live on a heap (a list, an object's address is
  its position), the dictionary of the store maps ids to addresses; a turn holds the address across
  its wait for the backend, so it is modelled in two halves. The clock and the random ids are
  arguments.
\<close>

section \<open>Messages\<close>

text \<open>A message's content: a string, or the texts of the text parts of a list.\<close>

datatype body = Text string | TextParts "string list"

record msg =
  role :: string
  body :: body

fun body_chars :: "body \<Rightarrow> nat" where
  "body_chars (Text s) = length s"
| "body_chars (TextParts ts) = sum_list (map length ts)"

definition est_tokens :: "msg list \<Rightarrow> nat" where
  "est_tokens ms = max 1 (sum_list (map (\<lambda>m. body_chars (body m)) ms) div 4)"

section \<open>The session store\<close>

record sess =
  s_id :: string
  s_model :: string
  s_messages :: "msg list"
  s_created_at :: rat
  s_last_active :: rat
  s_turns :: nat
  s_tokens :: nat
  s_tier :: tier
  s_saved_usd :: rat
  s_saved_ms :: rat

record session_store =
  heap :: "sess list"
  by_id :: "(string, nat) dict"

definition empty_sessions :: session_store where
  "empty_sessions = \<lparr>heap = [], by_id = []\<rparr>"

definition new_sess :: "string \<Rightarrow> rat \<Rightarrow> string \<Rightarrow> msg list \<Rightarrow> sess" where
  "new_sess sid now model ms = \<lparr>s_id = sid, s_model = model, s_messages = ms, s_created_at = now, s_last_active = now,
     s_turns = 0, s_tokens = est_tokens ms, s_tier = Warm, s_saved_usd = 0, s_saved_ms = 0\<rparr>"

definition create :: "string \<Rightarrow> rat \<Rightarrow> string \<Rightarrow> msg list \<Rightarrow> session_store \<Rightarrow> nat \<times> session_store" where
  "create tok now model ms st =
     (let sid = ''sess_'' @ tok; a = length (heap st)
      in (a, \<lparr>heap = heap st @ [new_sess sid now model ms], by_id = AList.update sid a (by_id st)\<rparr>))"

definition find_session :: "string \<Rightarrow> session_store \<Rightarrow> nat option" where
  "find_session sid st = map_of (by_id st) sid"

definition delete_session :: "string \<Rightarrow> session_store \<Rightarrow> bool \<times> session_store" where
  "delete_session sid st = (map_of (by_id st) sid \<noteq> None, st\<lparr>by_id := AList.delete sid (by_id st)\<rparr>)"

definition list_sessions :: "session_store \<Rightarrow> nat list" where
  "list_sessions st = map snd (by_id st)"

definition idle_seconds :: "rat \<Rightarrow> sess \<Rightarrow> rat" where
  "idle_seconds now s = now - s_last_active s"

definition record_turn :: "rat \<Rightarrow> nat \<Rightarrow> msg \<Rightarrow> msg \<Rightarrow> tier \<Rightarrow> saving \<Rightarrow> session_store \<Rightarrow> session_store" where
  "record_turn now a user_msg assistant_msg t saved st =
     (let s = heap st ! a; ms = s_messages s @ [user_msg] @ [assistant_msg]
      in st\<lparr>heap := (heap st)[a := s\<lparr>s_messages := ms, s_turns := Suc (s_turns s), s_tokens := est_tokens ms,
           s_tier := t, s_saved_usd := s_saved_usd s + sv_saved_usd saved,
           s_saved_ms := s_saved_ms s + sv_saved_ms saved, s_last_active := now\<rparr>]\<rparr>)"

record sess_view =
  vw_id :: string
  vw_model :: string
  vw_turns :: nat
  vw_tokens :: nat
  vw_tier :: tier
  vw_idle_s :: rat
  vw_saved_usd :: rat
  vw_saved_ms :: rat
  vw_messages :: nat

definition public_session :: "rat \<Rightarrow> sess \<Rightarrow> sess_view" where
  "public_session now s = \<lparr>vw_id = s_id s, vw_model = s_model s, vw_turns = s_turns s, vw_tokens = s_tokens s,
     vw_tier = s_tier s, vw_idle_s = round_to 1 (now - s_last_active s), vw_saved_usd = round_to 6 (s_saved_usd s),
     vw_saved_ms = round_to 1 (s_saved_ms s), vw_messages = length (s_messages s)\<rparr>"

section \<open>The backend\<close>

record turn_result =
  tr_content :: string
  tr_latency_ms :: rat
  tr_prompt_tokens :: nat
  tr_completion_tokens :: nat
  tr_warm :: bool

definition content_of :: "msg \<Rightarrow> string" where
  "content_of m = (case body m of Text s \<Rightarrow> s | TextParts _ \<Rightarrow> '''')"

definition mock_turn :: "msg list \<Rightarrow> nat \<Rightarrow> bool \<Rightarrow> turn_result" where
  "mock_turn ms tokens warm =
     (let p = profile_for (int tokens)
      in \<lparr>tr_content = ''ACK: '' @ take 40 (if ms = [] then '''' else content_of (last ms)),
          tr_latency_ms = (if warm then restore_cpu_ms p else prefill_ms p),
          tr_prompt_tokens = tokens, tr_completion_tokens = 8, tr_warm = warm\<rparr>)"

text \<open>A served answer: content, latency and reported usage; \<^const>\<open>None\<close> when the call failed.\<close>

type_synonym served = "(string \<times> rat \<times> nat option \<times> nat option) option"

definition run_turn :: "bool \<Rightarrow> served \<Rightarrow> msg list \<Rightarrow> nat \<Rightarrow> bool \<Rightarrow> turn_result option" where
  "run_turn mock answer ms tokens first_touch =
     (if mock then Some (mock_turn ms tokens (\<not> first_touch))
      else case answer of None \<Rightarrow> None
        | Some (content, latency, pt, ct) \<Rightarrow>
            Some \<lparr>tr_content = content, tr_latency_ms = latency,
                  tr_prompt_tokens = (case pt of None \<Rightarrow> tokens | Some n \<Rightarrow> n),
                  tr_completion_tokens = (case ct of None \<Rightarrow> 0 | Some n \<Rightarrow> n), tr_warm = \<not> first_touch\<rparr>)"

section \<open>The service\<close>

definition initial_messages :: "string option \<Rightarrow> string option \<Rightarrow> msg list" where
  "initial_messages system context =
     (case system of Some (c # cs) \<Rightarrow> [\<lparr>role = ''system'', body = Text (c # cs)\<rparr>] | _ \<Rightarrow> []) @
     (case context of Some (c # cs) \<Rightarrow> [\<lparr>role = ''user'', body = Text (c # cs)\<rparr>,
                                         \<lparr>role = ''assistant'', body = Text ''Context loaded. Ready.''\<rparr>] | _ \<Rightarrow> [])"

definition service_create ::
    "string \<Rightarrow> rat \<Rightarrow> string \<Rightarrow> string option \<Rightarrow> string option \<Rightarrow> session_store \<Rightarrow> sess_view \<times> session_store" where
  "service_create tok now model system context st =
     (case create tok now model (initial_messages system context) st of
        (a, st') \<Rightarrow> (public_session now (heap st' ! a), st'))"

record turn_ticket =
  tt_addr :: nat
  tt_user :: msg
  tt_full :: "msg list"
  tt_tokens :: nat
  tt_first_touch :: bool
  tt_decision :: decision

definition turn_begin :: "rat \<Rightarrow> string \<Rightarrow> string \<Rightarrow> session_store \<Rightarrow> turn_ticket result" where
  "turn_begin now sid text st =
     (case find_session sid st of
        None \<Rightarrow> Inl (HTTPException 404 ''session not found'')
      | Some a \<Rightarrow>
          (let s = heap st ! a; u = \<lparr>role = ''user'', body = Text text\<rparr>; full = s_messages s @ [u]; n = est_tokens full
           in Inr \<lparr>tt_addr = a, tt_user = u, tt_full = full, tt_tokens = n, tt_first_touch = (s_turns s = 0),
                   tt_decision = decide (idle_seconds now s) (int n)\<rparr>))"

record turn_reply =
  ty_content :: string
  ty_session :: sess_view
  ty_warm :: bool
  ty_latency_ms :: rat
  ty_context_tokens :: nat
  ty_tier :: tier
  ty_idle_s :: rat
  ty_savings :: saving

definition turn_finish ::
    "rat \<Rightarrow> turn_ticket \<Rightarrow> turn_result option \<Rightarrow> session_store \<Rightarrow> (turn_reply \<times> session_store) result" where
  "turn_finish now tk res st =
     (case res of
        None \<Rightarrow> Inl (HTTPException 502 ''backend error'')
      | Some r \<Rightarrow>
          (let saved = estimated_savings (int (tt_tokens tk)) (tr_warm r);
               a = \<lparr>role = ''assistant'', body = Text (tr_content r)\<rparr>;
               st' = record_turn now (tt_addr tk) (tt_user tk) a (d_tier (tt_decision tk)) saved st
           in Inr (\<lparr>ty_content = tr_content r, ty_session = public_session now (heap st' ! tt_addr tk),
                    ty_warm = tr_warm r, ty_latency_ms = round_to 1 (tr_latency_ms r),
                    ty_context_tokens = tt_tokens tk, ty_tier = d_tier (tt_decision tk),
                    ty_idle_s = round_to 1 (d_idle_s (tt_decision tk)), ty_savings = saved\<rparr>, st')))"

text \<open>The whole handler when nothing else runs while it waits.\<close>

definition turn ::
    "bool \<Rightarrow> served \<Rightarrow> rat \<Rightarrow> rat \<Rightarrow> string \<Rightarrow> string \<Rightarrow> session_store \<Rightarrow> (turn_reply \<times> session_store) result" where
  "turn mock answer now now' sid text st =
     res_bind (turn_begin now sid text st) (\<lambda>tk.
       turn_finish now' tk (run_turn mock answer (tt_full tk) (tt_tokens tk) (tt_first_touch tk)) st)"

definition service_get :: "rat \<Rightarrow> string \<Rightarrow> session_store \<Rightarrow> sess_view result" where
  "service_get now sid st =
     (case find_session sid st of None \<Rightarrow> Inl (HTTPException 404 ''session not found'')
      | Some a \<Rightarrow> Inr (public_session now (heap st ! a)))"

definition service_list :: "rat \<Rightarrow> session_store \<Rightarrow> sess_view list" where
  "service_list now st = map (\<lambda>a. public_session now (heap st ! a)) (list_sessions st)"

definition service_delete :: "string \<Rightarrow> session_store \<Rightarrow> session_store result" where
  "service_delete sid st =
     (case delete_session sid st of (True, st') \<Rightarrow> Inr st' | (False, _) \<Rightarrow> Inl (HTTPException 404 ''session not found''))"

section \<open>Concurrent turns\<close>

text \<open>The service with turns in flight. The ghost log records, per finished turn, the address, the
  context it sent and the message pair it appended; \<open>sx_init\<close> the messages each object began with.\<close>

record service =
  sx_store :: session_store
  sx_flight :: "turn_ticket list"
  sx_init :: "msg list list"
  sx_log :: "(nat \<times> msg list \<times> msg \<times> msg) list"

inductive sstep :: "service \<Rightarrow> service \<Rightarrow> bool" where
  s_create: "create tok now model ms (sx_store x) = (a, st') \<Longrightarrow>
    sstep x (x\<lparr>sx_store := st', sx_init := sx_init x @ [ms]\<rparr>)"
| s_begin: "turn_begin now sid text (sx_store x) = Inr tk \<Longrightarrow> sstep x (x\<lparr>sx_flight := sx_flight x @ [tk]\<rparr>)"
| s_finish: "sx_flight x = pre @ tk # post \<Longrightarrow> turn_finish now tk (Some r) (sx_store x) = Inr (rp, st') \<Longrightarrow>
    sstep x \<lparr>sx_store = st', sx_flight = pre @ post, sx_init = sx_init x,
      sx_log = sx_log x @ [(tt_addr tk, tt_full tk, tt_user tk, \<lparr>role = ''assistant'', body = Text (tr_content r)\<rparr>)]\<rparr>"
| s_fail: "sx_flight x = pre @ tk # post \<Longrightarrow> sstep x (x\<lparr>sx_flight := pre @ post\<rparr>)"
| s_delete: "sstep x (x\<lparr>sx_store := snd (delete_session sid (sx_store x))\<rparr>)"

definition history :: "nat \<Rightarrow> (nat \<times> msg list \<times> msg \<times> msg) list \<Rightarrow> msg list" where
  "history a lg = concat (map (\<lambda>(_, _, u, r). [u, r]) (filter (\<lambda>t. fst t = a) lg))"

definition finished :: "nat \<Rightarrow> (nat \<times> msg list \<times> msg \<times> msg) list \<Rightarrow> nat" where
  "finished a lg = length (filter (\<lambda>t. fst t = a) lg)"

definition sess_ok :: "msg list \<Rightarrow> (nat \<times> msg list \<times> msg \<times> msg) list \<Rightarrow> nat \<Rightarrow> sess \<Rightarrow> bool" where
  "sess_ok init lg a s \<longleftrightarrow> s_messages s = init @ history a lg \<and> s_turns s = finished a lg
     \<and> s_tokens s = est_tokens (s_messages s)"

definition service_ok :: "service \<Rightarrow> bool" where
  "service_ok x \<longleftrightarrow> length (sx_init x) = length (heap (sx_store x))
     \<and> (\<forall>(k, a)\<in>set (by_id (sx_store x)). a < length (heap (sx_store x)))
     \<and> (\<forall>tk\<in>set (sx_flight x). tt_addr tk < length (heap (sx_store x)))
     \<and> (\<forall>t\<in>set (sx_log x). fst t < length (heap (sx_store x)))
     \<and> (\<forall>a < length (heap (sx_store x)). sess_ok (sx_init x ! a) (sx_log x) a (heap (sx_store x) ! a))"

lemma history_append: "history a (lg @ [(b, f, u, r)]) = history a lg @ (if b = a then [u, r] else [])"
  "finished a (lg @ [(b, f, u, r)]) = finished a lg + (if b = a then 1 else 0)"
  by (simp_all add: history_def finished_def)

lemma history_fresh: "\<forall>t\<in>set lg. fst t < a \<Longrightarrow> history a lg = [] \<and> finished a lg = 0"
proof -
  assume "\<forall>t\<in>set lg. fst t < a"
  then have "filter (\<lambda>t. fst t = a) lg = []" by (auto simp: filter_empty_conv)
  then show ?thesis by (simp add: history_def finished_def)
qed

lemma sstep_ok: "sstep x y \<Longrightarrow> service_ok x \<Longrightarrow> service_ok y"
proof (induction rule: sstep.induct)
  case (s_create tok now model ms x a st')
  let ?h = "heap (sx_store x)"
  have st: "heap st' = ?h @ [new_sess (''sess_'' @ tok) now model ms]" "a = length ?h"
      "by_id st' = AList.update (''sess_'' @ tok) (length ?h) (by_id (sx_store x))"
    using s_create(1) by (auto simp: create_def Let_def)
  have len: "length (sx_init x) = length ?h" and lg: "\<forall>t\<in>set (sx_log x). fst t < length ?h"
    using s_create(2) by (simp_all add: service_ok_def)
  have "sess_ok ((sx_init x @ [ms]) ! b) (sx_log x) b (heap st' ! b)" if "b < length (heap st')" for b
  proof (cases "b = length ?h")
    case True then show ?thesis using history_fresh [OF lg] len by (simp add: st sess_ok_def new_sess_def nth_append)
  next
    case False then show ?thesis using s_create(2) that len by (simp add: st service_ok_def nth_append)
  qed
  moreover have "\<forall>(k, b)\<in>set (by_id st'). b < length (heap st')"
  proof -
    have "set (by_id st') \<subseteq> insert (''sess_'' @ tok, length ?h) (set (by_id (sx_store x)))"
      unfolding st by (rule set_update_subset)
    then show ?thesis using s_create(2) by (fastforce simp: service_ok_def st)
  qed
  ultimately show ?case using s_create(2) len by (auto simp: service_ok_def st less_SucI)
next
  case (s_begin now sid content x tk)
  then have "tt_addr tk < length (heap (sx_store x))"
    by (auto simp: turn_begin_def find_session_def service_ok_def Let_def split: option.splits dest!: map_of_SomeD)
  then show ?case using s_begin(2) by (auto simp: service_ok_def)
next
  case (s_finish x pre tk post now r rp st')
  let ?a = "tt_addr tk" and ?h = "heap (sx_store x)"
  have st: "st' = record_turn now ?a (tt_user tk) \<lparr>role = ''assistant'', body = Text (tr_content r)\<rparr>
      (d_tier (tt_decision tk)) (estimated_savings (int (tt_tokens tk)) (tr_warm r)) (sx_store x)"
    using s_finish(2) by (auto simp: turn_finish_def Let_def)
  have a: "?a < length ?h" using s_finish(1,3) by (auto simp: service_ok_def)
  have old: "sess_ok (sx_init x ! b) (sx_log x) b (?h ! b)" if "b < length ?h" for b
    using s_finish(3) that by (simp add: service_ok_def)
  have "sess_ok (sx_init x ! b) (sx_log x @ [(?a, tt_full tk, tt_user tk, \<lparr>role = ''assistant'', body = Text (tr_content r)\<rparr>)]) b (heap st' ! b)"
    if "b < length ?h" for b
    using old [OF that] that a by (cases "b = ?a") (simp_all add: st record_turn_def Let_def sess_ok_def history_append)
  then show ?case using s_finish(1,3) a by (auto simp: service_ok_def st record_turn_def Let_def)
next
  case (s_fail x pre tk post) then show ?case by (auto simp: service_ok_def)
next
  case (s_delete x sid)
  show ?case using s_delete set_delete_subset [of sid "by_id (sx_store x)"]
    by (fastforce simp: service_ok_def delete_session_def)
qed

section \<open>Properties\<close>

definition sx_start :: service where
  "sx_start = \<lparr>sx_store = empty_sessions, sx_flight = [], sx_init = [], sx_log = []\<rparr>"

lemma sx_start_ok: "service_ok sx_start"
  by (simp add: service_ok_def sx_start_def empty_sessions_def)

lemma ssteps_ok: "sstep\<^sup>*\<^sup>* sx_start x \<Longrightarrow> service_ok x"
  by (induction rule: rtranclp_induct) (auto intro: sstep_ok sx_start_ok)

text \<open>C39. Whatever turns, failures and deletions interleave, no exchange is lost, split or counted
  twice: a session's messages are those it was created with followed by the pair of every finished
  turn in the order they finished, and its turn and token counters agree with them.\<close>

theorem session_history:
  assumes "sstep\<^sup>*\<^sup>* sx_start x" "a < length (heap (sx_store x))"
  shows "s_messages (heap (sx_store x) ! a)
      = sx_init x ! a @ concat (map (\<lambda>(_, _, u, r). [u, r]) (filter (\<lambda>t. fst t = a) (sx_log x)))
    \<and> s_turns (heap (sx_store x) ! a) = length (filter (\<lambda>t. fst t = a) (sx_log x))
    \<and> s_tokens (heap (sx_store x) ! a) = est_tokens (s_messages (heap (sx_store x) ! a))"
  using ssteps_ok [OF assms(1)] assms(2) by (simp add: service_ok_def sess_ok_def history_def finished_def)

definition one_session :: session_store where
  "one_session = snd (create ''1'' 0 ''m'' [] empty_sessions)"

theorem session_history_witness:
  "sstep\<^sup>*\<^sup>* sx_start (sx_start\<lparr>sx_store := one_session, sx_init := [[]]\<rparr>)
   \<and> s_messages (heap one_session ! 0) = [] \<and> s_tokens (heap one_session ! 0) = est_tokens []"
proof -
  have "sstep sx_start (sx_start\<lparr>sx_store := one_session, sx_init := sx_init sx_start @ [[]]\<rparr>)"
    by (rule s_create [where tok = "''1''" and now = 0 and model = "''m''" and a = 0])
      (simp add: sx_start_def one_session_def create_def empty_sessions_def Let_def)
  then have s: "sstep\<^sup>*\<^sup>* sx_start (sx_start\<lparr>sx_store := one_session, sx_init := [[]]\<rparr>)"
    by (simp add: sx_start_def r_into_rtranclp)
  show ?thesis using session_history [OF s, of 0] s
    by (simp add: sx_start_def one_session_def create_def empty_sessions_def Let_def)
qed

text \<open>Turns of one session are not serialised: of two turns in flight, the second's context lacks
  the first exchange although the history places it before, and both run cold, as first touches.\<close>

theorem concurrent_turns_lose_context:
  "(case turn_begin 1 ''sess_1'' ''a'' one_session of Inr t1 \<Rightarrow>
     (case turn_begin 2 ''sess_1'' ''b'' one_session of Inr t2 \<Rightarrow>
       (case turn_finish 3 t1 (run_turn True None (tt_full t1) (tt_tokens t1) (tt_first_touch t1)) one_session of
          Inr (r1, st1) \<Rightarrow>
            (case turn_finish 4 t2 (run_turn True None (tt_full t2) (tt_tokens t2) (tt_first_touch t2)) st1 of
               Inr (r2, st2) \<Rightarrow>
                 map body (tt_full t2) = [Text ''b''] \<and> \<not> ty_warm r1 \<and> \<not> ty_warm r2
               \<and> map body (s_messages (heap st2 ! 0)) = [Text ''a'', Text ''ACK: a'', Text ''b'', Text ''ACK: b'']
             | _ \<Rightarrow> False)
        | _ \<Rightarrow> False)
     | _ \<Rightarrow> False)
   | _ \<Rightarrow> False)"
  by (simp add: turn_begin_def turn_finish_def run_turn_def mock_turn_def one_session_def create_def empty_sessions_def
    find_session_def new_sess_def record_turn_def content_of_def Let_def)

text \<open>With nothing else in flight a turn sends the whole history, and the history grows by exactly
  the exchange it returned.\<close>

lemma sequential_turn:
  assumes "turn mock answer now now' sid text st = Inr (rp, st')" "find_session sid st = Some a" "a < length (heap st)"
  shows "\<exists>r. s_messages (heap st' ! a) = s_messages (heap st ! a) @ [\<lparr>role = ''user'', body = Text text\<rparr>, r]
    \<and> body r = Text (ty_content rp) \<and> ty_warm rp = (s_turns (heap st ! a) \<noteq> 0)
    \<and> s_turns (heap st' ! a) = Suc (s_turns (heap st ! a))"
  using assms by (auto simp: turn_def turn_begin_def turn_finish_def run_turn_def mock_turn_def record_turn_def Let_def
    split: if_splits option.splits prod.splits)

end
