(* ===== verification/KVTypes.thy ===== *)
theory KVTypes imports Prelude "HOL-Library.Word" begin

text \<open>
  \<^verbatim>\<open>dexa/core/types.py\<close>: the data model of the inference-state engine. An array of shape
  \<^verbatim>\<open>[heads, T, head_dim]\<close> is a list over heads of lists over tokens of vectors; the vector type is a
  parameter. The content hash is a parameter \<open>H\<close> on byte strings (BLAKE2b is not modelled);
  the byte encoding it is applied to is modelled at its width and proved invertible, so distinct
  token lists are always given distinct hash inputs.
\<close>

section \<open>Model and caches\<close>

record model_spec =
  ms_name :: string
  n_layers :: nat
  n_q_heads :: nat
  n_kv_heads :: nat
  head_dim :: nat
  hidden_size :: nat
  ms_dtype :: string

definition group_size :: "model_spec \<Rightarrow> nat result" where
  "group_size sp = (if n_kv_heads sp = 0 then Inl ZeroDivisionError
     else Inr (n_q_heads sp div n_kv_heads sp))"

definition kv_head_of :: "model_spec \<Rightarrow> nat \<Rightarrow> nat result" where
  "kv_head_of sp q = res_bind (group_size sp)
     (\<lambda>g. if g = 0 then Inl ZeroDivisionError else Inr (q div g))"

record 'v layer_kv =
  lkey :: "'v list list"
  lval :: "'v list list"

text \<open>\<^verbatim>\<open>key.shape[1]\<close>: every head holds the same tokens.\<close>

definition n_tokens :: "'v layer_kv \<Rightarrow> nat" where
  "n_tokens l = (case lkey l of [] \<Rightarrow> 0 | h # _ \<Rightarrow> length h)"

record 'v kvcache =
  kv_spec :: model_spec
  kv_layers :: "'v layer_kv list"
  kv_positions :: "int list"
  kv_token_ids :: "int list option"

definition seq_len :: "'v kvcache \<Rightarrow> nat" where
  "seq_len c = length (kv_positions c)"

text \<open>Bytes of one ragged array whose vectors hold \<open>d\<close> float32 components.\<close>

definition rows_bytes :: "nat \<Rightarrow> 'v list list \<Rightarrow> nat" where
  "rows_bytes d a = sum_list (map (\<lambda>h. 4 * d * length h) a)"

definition kv_nbytes :: "'v kvcache \<Rightarrow> nat" where
  "kv_nbytes c = sum_list (map (\<lambda>l. rows_bytes (head_dim (kv_spec c)) (lkey l)
     + rows_bytes (head_dim (kv_spec c)) (lval l)) (kv_layers c))"

record 'v compact_layer =
  ckeys :: "'v list list"
  cvalues :: "'v list list"
  cbiases :: "real list list"
  cpositions :: "int list list"

definition layer_budget :: "'v compact_layer \<Rightarrow> nat" where
  "layer_budget l = sum_list (map length (ckeys l))"

record 'v compact_cache =
  cc_spec :: model_spec
  cc_layers :: "'v compact_layer list"
  cc_logical :: nat
  cc_method :: string

definition budget :: "'v compact_cache \<Rightarrow> nat" where
  "budget c = sum_list (map layer_budget (cc_layers c))"

text \<open>\<open>None\<close> is the float infinity. A non-zero budget over a spec with no layer or no kv-head
  divides by zero, first in \<^verbatim>\<open>logical_length / mean_t\<close>'s divisor.\<close>

definition compression_ratio :: "'v compact_cache \<Rightarrow> rat option result" where
  "compression_ratio c = (let per_layer = n_layers (cc_spec c) * n_kv_heads (cc_spec c) in
     if budget c = 0 then Inr None
     else if per_layer = 0 then Inl ZeroDivisionError
     else let mean_t = rat_of_nat (budget c) / rat_of_nat per_layer in
       if mean_t \<noteq> 0 then Inr (Some (rat_of_nat (cc_logical c) / mean_t)) else Inr None)"

definition cc_nbytes :: "'v compact_cache \<Rightarrow> nat" where
  "cc_nbytes c = sum_list (map (\<lambda>l. rows_bytes (head_dim (cc_spec c)) (ckeys l)
     + rows_bytes (head_dim (cc_spec c)) (cvalues l) + rows_bytes 1 (cbiases l)) (cc_layers c))"

record 'v ref_queries =
  rq_spec :: model_spec
  rq_layers :: "'v list list list"

definition n_ref :: "'v ref_queries \<Rightarrow> nat" where
  "n_ref q = (case rq_layers q of [] \<Rightarrow> 0 | [] # _ \<Rightarrow> 0 | (h # _) # _ \<Rightarrow> length h)"

section \<open>Cost model\<close>

record cost_model =
  cm_name :: string
  prefill_tok_per_s :: rat
  decode_tok_per_s :: rat
  gpu_dollars_per_hour :: rat
  kv_bytes_per_token :: rat

definition default_cost_model :: cost_model where
  "default_cost_model = \<lparr>cm_name = ''a100-80g/8B'', prefill_tok_per_s = 9000, decode_tok_per_s = 120,
     gpu_dollars_per_hour = 9/5, kv_bytes_per_token = 320000\<rparr>"

definition prefill_seconds :: "cost_model \<Rightarrow> nat \<Rightarrow> rat result" where
  "prefill_seconds m n = (if prefill_tok_per_s m = 0 then Inl ZeroDivisionError
     else Inr (rat_of_nat n / prefill_tok_per_s m))"

definition gpu_dollars :: "cost_model \<Rightarrow> rat \<Rightarrow> rat" where
  "gpu_dollars m s = s * gpu_dollars_per_hour m / 3600"

definition kv_bytes :: "cost_model \<Rightarrow> nat \<Rightarrow> rat" where
  "kv_bytes m n = rat_of_nat n * kv_bytes_per_token m"

section \<open>Content hash\<close>

type_synonym byte = "8 word"

fun le_bytes :: "nat \<Rightarrow> nat \<Rightarrow> byte list" where
  "le_bytes 0 n = []"
| "le_bytes (Suc w) n = of_nat (n mod 256) # le_bytes w (n div 256)"

fun from_le :: "byte list \<Rightarrow> nat" where
  "from_le [] = 0"
| "from_le (b # bs) = unat b + 256 * from_le bs"

text \<open>\<^verbatim>\<open>n.to_bytes(8, "little")\<close> and \<^verbatim>\<open>t.to_bytes(4, "little", signed=True)\<close>.\<close>

definition len_bytes :: "nat \<Rightarrow> byte list result" where
  "len_bytes n = (if n < 2 ^ 64 then Inr (le_bytes 8 n) else Inl OverflowError)"

definition token_bytes :: "int \<Rightarrow> byte list result" where
  "token_bytes t = (if - (2 ^ 31) \<le> t \<and> t < 2 ^ 31 then Inr (le_bytes 4 (nat (t mod 2 ^ 32)))
     else Inl OverflowError)"

fun tokens_bytes :: "int list \<Rightarrow> byte list result" where
  "tokens_bytes [] = Inr []"
| "tokens_bytes (t # ts) = res_bind (token_bytes t)
     (\<lambda>b. res_bind (tokens_bytes ts) (\<lambda>bs. Inr (b @ bs)))"

definition hash_input :: "int list \<Rightarrow> byte list result" where
  "hash_input ts = res_bind (len_bytes (length ts))
     (\<lambda>b. res_bind (tokens_bytes ts) (\<lambda>bs. Inr (b @ bs)))"

definition hash_tokens :: "(byte list \<Rightarrow> string) \<Rightarrow> int list \<Rightarrow> string result" where
  "hash_tokens H ts = res_bind (hash_input ts) (\<lambda>b. Inr (H b))"

text \<open>The inverse of the encoding, for the proof that it loses nothing.\<close>

definition word_int :: "byte list \<Rightarrow> int" where
  "word_int bs = (let u = int (from_le bs) in if u < 2 ^ 31 then u else u - 2 ^ 32)"

fun read_tokens :: "nat \<Rightarrow> byte list \<Rightarrow> int list" where
  "read_tokens 0 bs = []"
| "read_tokens (Suc n) bs = word_int (take 4 bs) # read_tokens n (drop 4 bs)"

definition hash_preimage :: "byte list \<Rightarrow> int list" where
  "hash_preimage bs = read_tokens (from_le (take 8 bs)) (drop 8 bs)"

section \<open>Lemmas\<close>

lemma le_bytes_numeral:
  "le_bytes (numeral k) n = of_nat (n mod 256) # le_bytes (pred_numeral k) (n div 256)"
  by (simp only: numeral_eq_Suc [of k] le_bytes.simps)

lemma length_le_bytes [simp]: "length (le_bytes w n) = w"
  by (induction w n rule: le_bytes.induct) auto

lemma from_le_bytes: "n < 256 ^ w \<Longrightarrow> from_le (le_bytes w n) = n"
proof (induction w n rule: le_bytes.induct)
  case (2 w n)
  have "n div 256 < 256 ^ w" using 2(2) by (simp add: div_less_iff_less_mult mult.commute)
  moreover have "unat (of_nat (n mod 256) :: byte) = n mod 256"
    by (simp add: unat_of_nat)
  ultimately show ?case using 2(1) by simp
qed simp

lemma from_len_bytes: "len_bytes n = Inr b \<Longrightarrow> length b = 8 \<and> from_le b = n"
  using from_le_bytes [of n 8] length_le_bytes [of 8 n]
  by (simp add: len_bytes_def split: if_splits del: length_le_bytes)

lemma from_token_bytes: assumes "token_bytes t = Inr b" shows "length b = 4 \<and> word_int b = t"
proof -
  have r: "- (2 ^ 31) \<le> t" "t < 2 ^ 31" and b: "b = le_bytes 4 (nat (t mod 2 ^ 32))"
    using assms by (auto simp: token_bytes_def split: if_splits)
  have "nat (t mod 2 ^ 32) < 256 ^ 4" by simp
  then have u: "int (from_le b) = t mod 2 ^ 32" unfolding b by (simp add: from_le_bytes)
  have "t mod 2 ^ 32 = (if 0 \<le> t then t else t + 2 ^ 32)"
  proof (cases "0 \<le> t")
    case True then show ?thesis using r by simp
  next
    case False
    have "(t + 2 ^ 32) mod 2 ^ 32 = t + 2 ^ 32" using r False by (intro mod_pos_pos_trivial) auto
    then show ?thesis using False by simp
  qed
  then have "word_int b = t" using r by (auto simp: word_int_def u)
  then show ?thesis by (simp add: b)
qed

lemma read_tokens_bytes: "tokens_bytes ts = Inr bs \<Longrightarrow> read_tokens (length ts) bs = ts"
  by (induction ts arbitrary: bs) (auto dest: from_token_bytes)

lemma hash_preimage_input: "hash_input ts = Inr b \<Longrightarrow> hash_preimage b = ts"
  by (auto simp: hash_input_def hash_preimage_def read_tokens_bytes dest: from_len_bytes)

lemma hash_input_inj: "hash_input a = Inr x \<Longrightarrow> hash_input b = Inr x \<Longrightarrow> a = b"
  using hash_preimage_input by metis

definition int32 :: "int \<Rightarrow> bool" where
  "int32 t \<longleftrightarrow> - (2 ^ 31) \<le> t \<and> t < 2 ^ 31"

lemma tokens_bytes_ok_iff: "(\<exists>b. tokens_bytes ts = Inr b) \<longleftrightarrow> list_all int32 ts"
proof (induction ts)
  case (Cons t ts)
  then show ?case
    by (cases "tokens_bytes ts") (auto simp: token_bytes_def int32_def split: if_splits)
qed simp

lemma hash_input_ok_iff: "(\<exists>b. hash_input ts = Inr b) \<longleftrightarrow> length ts < 2 ^ 64 \<and> list_all int32 ts"
  by (auto simp: hash_input_def len_bytes_def tokens_bytes_ok_iff [symmetric])

text \<open>C29. The content identity of a token list loses nothing before hashing: whatever
  \<^verbatim>\<open>hash_tokens\<close> hands to the hash function decodes back to the token list, and it raises
  \<^verbatim>\<open>OverflowError\<close> exactly when a token is outside the signed 32-bit range (or the length outside
  64 bits). So under a collision-free hash two lists have the same content id only when they are
  equal.\<close>

theorem hash_tokens_identity:
  "(hash_input ts = Inr b \<longrightarrow> hash_preimage b = ts) \<and>
   ((\<exists>h. hash_tokens H ts = Inr h) \<longleftrightarrow> length ts < 2 ^ 64 \<and> list_all int32 ts) \<and>
   (inj_on H {x. hash_input us = Inr x \<or> hash_input vs = Inr x} \<and>
      hash_tokens H us = Inr h \<and> hash_tokens H vs = Inr h \<longrightarrow> us = vs)"
proof (intro conjI impI)
  show "(\<exists>h. hash_tokens H ts = Inr h) \<longleftrightarrow> length ts < 2 ^ 64 \<and> list_all int32 ts"
    unfolding hash_input_ok_iff [symmetric] by (auto simp: hash_tokens_def)
next
  assume a: "inj_on H {x. hash_input us = Inr x \<or> hash_input vs = Inr x} \<and>
    hash_tokens H us = Inr h \<and> hash_tokens H vs = Inr h"
  then obtain x y where xy: "hash_input us = Inr x" "hash_input vs = Inr y" "H x = h" "H y = h"
    by (auto simp: hash_tokens_def)
  then have "x = y" using a by (auto dest: inj_onD)
  with xy show "us = vs" by (metis hash_input_inj)
qed (rule hash_preimage_input)

theorem hash_tokens_identity_witness:
  "hash_preimage [2, 0, 0, 0, 0, 0, 0, 0, 7, 0, 0, 0, 255, 255, 255, 255] = [7, - 1]"
proof -
  have "hash_input [7, - 1] = Inr [2, 0, 0, 0, 0, 0, 0, 0, 7, 0, 0, 0, 255, 255, 255, 255]"
    by (simp add: hash_input_def len_bytes_def token_bytes_def le_bytes_numeral)
  then show ?thesis using hash_tokens_identity [of "[7, - 1]"] by blast
qed

text \<open>The compression ratio is logical tokens per mean compact token: it times the budget is the
  size of the full cache in (layer, head, token) slots.\<close>

lemma compression_ratio_budget:
  assumes "compression_ratio c = Inr (Some r)"
  shows "r * rat_of_nat (budget c)
    = rat_of_nat (cc_logical c * (n_layers (cc_spec c) * n_kv_heads (cc_spec c)))"
  using assms by (auto simp: compression_ratio_def Let_def field_simps split: if_splits)

lemma compression_ratio_total:
  "n_layers (cc_spec c) * n_kv_heads (cc_spec c) \<noteq> 0 \<Longrightarrow> \<exists>r. compression_ratio c = Inr r"
  by (auto simp: compression_ratio_def Let_def)

text \<open>With as many query heads as a whole number of groups, every query head has a kv-head.\<close>

lemma kv_head_of_bound:
  assumes "n_kv_heads sp dvd n_q_heads sp" "0 < n_q_heads sp" "q < n_q_heads sp"
  shows "\<exists>h. kv_head_of sp q = Inr h \<and> h < n_kv_heads sp"
proof -
  obtain g where g: "n_q_heads sp = n_kv_heads sp * g" using assms(1) by (rule dvdE)
  then have "n_kv_heads sp \<noteq> 0" "g \<noteq> 0" using assms by auto
  then show ?thesis using assms(3)
    by (auto simp: kv_head_of_def group_size_def g div_less_iff_less_mult)
qed

end
