(* ===== verification/SegmentPlan.thy ===== *)
theory SegmentPlan imports KVTypes "HOL-Library.Product_Lexorder" begin

text \<open>
  \<^verbatim>\<open>dexa/segment/model.py\<close> and \<^verbatim>\<open>dexa/segment/plan.py\<close>: the segmented context, the recompute
  plan and its token ranges. A Python \<^verbatim>\<open>SegmentedContext\<close> is the list of its segments. The
  content hash is the parameter \<open>H\<close> of \<^const>\<open>hash_tokens\<close>, which may raise; so does a plan that
  has to hash such a segment.
\<close>

section \<open>Segments and contexts\<close>

record segment =
  seg_name :: string
  seg_tokens :: "int list"
  seg_role :: string

type_synonym ctx = "segment list"

definition seg_n :: "segment \<Rightarrow> nat" where
  "seg_n s = length (seg_tokens s)"

definition content_id :: "(byte list \<Rightarrow> string) \<Rightarrow> segment \<Rightarrow> string result" where
  "content_id H s = hash_tokens H (seg_tokens s)"

definition ctx_tokens :: "ctx \<Rightarrow> int list" where
  "ctx_tokens c = concat (map seg_tokens c)"

definition ctx_n :: "ctx \<Rightarrow> nat" where
  "ctx_n c = sum_list (map seg_n c)"

fun offsets_from :: "nat \<Rightarrow> ctx \<Rightarrow> nat list" where
  "offsets_from acc [] = []"
| "offsets_from acc (s # ss) = acc # offsets_from (acc + seg_n s) ss"

definition offsets :: "ctx \<Rightarrow> nat list" where
  "offsets c = offsets_from 0 c"

definition span :: "ctx \<Rightarrow> nat \<Rightarrow> (nat \<times> nat) result" where
  "span c i = (if i < length c then Inr (offsets c ! i, offsets c ! i + seg_n (c ! i)) else Inl IndexError)"

section \<open>Plans\<close>

datatype action = REUSE_EXACT | REUSE_SHIFTED | RECOMPUTE

record plan_item =
  pi_index :: nat
  pi_action :: action
  pi_segment :: segment
  pi_new_span :: "nat \<times> nat"
  pi_prev_index :: "nat option"
  pi_shift :: int

datatype plan_meta = ColdMeta string | WarmMeta string nat bool

record recompute_plan =
  rp_items :: "plan_item list"
  rp_total :: nat
  rp_exact :: bool
  rp_meta :: plan_meta

definition tokens_with :: "action \<Rightarrow> recompute_plan \<Rightarrow> nat" where
  "tokens_with a p = sum_list (map (\<lambda>it. seg_n (pi_segment it)) (filter (\<lambda>it. pi_action it = a) (rp_items p)))"

abbreviation "reused_exact_tokens \<equiv> tokens_with REUSE_EXACT"
abbreviation "reuse_shifted_tokens \<equiv> tokens_with REUSE_SHIFTED"
abbreviation "recompute_tokens \<equiv> tokens_with RECOMPUTE"

text \<open>The list \<^verbatim>\<open>merged\<close> is kept with its last range first.\<close>

fun merge_range :: "(nat \<times> nat) list \<Rightarrow> nat \<times> nat \<Rightarrow> (nat \<times> nat) list" where
  "merge_range [] (a, b) = [(a, b)]"
| "merge_range ((x, y) # m) (a, b) = (if a \<le> y then (x, max y b) # m else (a, b) # (x, y) # m)"

definition recompute_ranges :: "recompute_plan \<Rightarrow> (nat \<times> nat) list" where
  "recompute_ranges p = (let raw = sort (map pi_new_span (filter (\<lambda>it. pi_action it = RECOMPUTE) (rp_items p)))
     in rev (foldl merge_range [] raw))"

record savings_row =
  sv_total :: nat
  sv_reused :: nat
  sv_shifted :: nat
  sv_recomputed :: int
  sv_recompute_fraction :: rat
  sv_prefix_fraction :: rat

definition plan_savings :: "recompute_plan \<Rightarrow> savings_row" where
  "plan_savings p = (let full = rp_total p; recomputed = int full - int (reused_exact_tokens p) in
     \<lparr>sv_total = full, sv_reused = reused_exact_tokens p, sv_shifted = reuse_shifted_tokens p,
      sv_recomputed = recomputed,
      sv_recompute_fraction = (if full \<noteq> 0 then rat_of_int recomputed / rat_of_nat full else 0),
      sv_prefix_fraction = (if full \<noteq> 0 then rat_of_nat (reused_exact_tokens p) / rat_of_nat full else 0)\<rparr>)"

section \<open>Planning\<close>

fun common_prefix_len :: "(byte list \<Rightarrow> string) \<Rightarrow> ctx \<Rightarrow> ctx \<Rightarrow> nat result" where
  "common_prefix_len H (a # as) (b # bs) = res_bind (content_id H a) (\<lambda>ca.
     res_bind (content_id H b) (\<lambda>cb.
       if ca = cb then res_bind (common_prefix_len H as bs) (\<lambda>n. Inr (Suc n)) else Inr 0))"
| "common_prefix_len H as bs = Inr 0"

type_synonym pool = "(string, nat list) dict"

text \<open>\<^verbatim>\<open>shifted_pool.setdefault(cid, []).append(j)\<close> for the segments from index \<open>j\<close> on.\<close>

fun build_pool :: "(byte list \<Rightarrow> string) \<Rightarrow> pool \<Rightarrow> nat \<Rightarrow> ctx \<Rightarrow> pool result" where
  "build_pool H pool j [] = Inr pool"
| "build_pool H pool j (s # ss) = res_bind (content_id H s) (\<lambda>c.
     build_pool H (AList.update c ((case map_of pool c of None \<Rightarrow> [] | Some js \<Rightarrow> js) @ [j]) pool) (Suc j) ss)"

definition item :: "nat \<Rightarrow> nat \<Rightarrow> segment \<Rightarrow> action \<Rightarrow> nat option \<Rightarrow> int \<Rightarrow> plan_item" where
  "item i start seg a prev shift = \<lparr>pi_index = i, pi_action = a, pi_segment = seg,
     pi_new_span = (start, start + seg_n seg), pi_prev_index = prev, pi_shift = shift\<rparr>"

fun plan_items :: "(byte list \<Rightarrow> string) \<Rightarrow> string \<Rightarrow> nat \<Rightarrow> nat list \<Rightarrow> pool \<Rightarrow> nat \<Rightarrow> nat \<Rightarrow> ctx
    \<Rightarrow> plan_item list result" where
  "plan_items H mode prefix poffs pool i start [] = Inr []"
| "plan_items H mode prefix poffs pool i start (seg # segs) = (let next = start + seg_n seg in
     if i < prefix then
       res_bind (plan_items H mode prefix poffs pool (Suc i) next segs)
         (\<lambda>its. Inr (item i start seg REUSE_EXACT (Some i) 0 # its))
     else if mode = ''selective'' then
       res_bind (content_id H seg) (\<lambda>c. case map_of pool c of
         Some (j # js) \<Rightarrow>
           res_bind (plan_items H mode prefix poffs (AList.update c js pool) (Suc i) next segs)
             (\<lambda>its. Inr (item i start seg REUSE_SHIFTED (Some j) (int start - int (poffs ! j)) # its))
       | _ \<Rightarrow>
           res_bind (plan_items H mode prefix poffs pool (Suc i) next segs)
             (\<lambda>its. Inr (item i start seg RECOMPUTE None 0 # its)))
     else
       res_bind (plan_items H mode prefix poffs pool (Suc i) next segs)
         (\<lambda>its. Inr (item i start seg RECOMPUTE None 0 # its)))"

definition cold_items :: "ctx \<Rightarrow> plan_item list" where
  "cold_items new = map (\<lambda>(i, start, seg). item i start seg RECOMPUTE None 0)
     (zip [0..<length new] (zip (offsets new) new))"

definition plan_incremental ::
    "(byte list \<Rightarrow> string) \<Rightarrow> ctx option \<Rightarrow> ctx \<Rightarrow> string \<Rightarrow> recompute_plan result" where
  "plan_incremental H prev new mode =
    (if mode \<notin> {''exact'', ''selective''} then Inl (ValueError ''unknown mode'')
     else case prev of
       None \<Rightarrow> Inr \<lparr>rp_items = cold_items new, rp_total = ctx_n new, rp_exact = True, rp_meta = ColdMeta mode\<rparr>
     | Some old \<Rightarrow> res_bind (common_prefix_len H old new) (\<lambda>prefix.
         res_bind (build_pool H [] prefix (drop prefix old)) (\<lambda>pool.
         res_bind (plan_items H mode prefix (offsets old) pool 0 0 new) (\<lambda>its.
           Inr \<lparr>rp_items = its, rp_total = ctx_n new,
                rp_exact = list_all (\<lambda>it. pi_action it \<noteq> REUSE_SHIFTED) its,
                rp_meta = WarmMeta mode prefix (list_ex (\<lambda>it. pi_action it = REUSE_EXACT) its)\<rparr>))))"

section \<open>Contexts\<close>

lemma ctx_tokens_simps [simp]:
  "ctx_tokens [] = []" "ctx_tokens (s # c) = seg_tokens s @ ctx_tokens c"
  "ctx_tokens (a @ b) = ctx_tokens a @ ctx_tokens b"
  by (simp_all add: ctx_tokens_def)

lemma ctx_n_simps [simp]:
  "ctx_n [] = 0" "ctx_n (s # c) = seg_n s + ctx_n c" "ctx_n (a @ b) = ctx_n a + ctx_n b"
  by (simp_all add: ctx_n_def)

lemma length_ctx_tokens [simp]: "length (ctx_tokens c) = ctx_n c"
  by (induction c) (simp_all add: seg_n_def)

lemma length_offsets_from [simp]: "length (offsets_from a c) = length c"
  by (induction c arbitrary: a) auto

lemma nth_offsets_from: "i < length c \<Longrightarrow> offsets_from a c ! i = a + ctx_n (take i c)"
  by (induction c arbitrary: a i) (auto simp: nth_Cons split: nat.split)

lemma length_offsets [simp]: "length (offsets c) = length c"
  by (simp add: offsets_def)

lemma nth_offsets: "i < length c \<Longrightarrow> offsets c ! i = ctx_n (take i c)"
  by (simp add: offsets_def nth_offsets_from)

text \<open>A segment's span is where its tokens lie in the flattened context.\<close>

lemma span_tokens:
  assumes "span c i = Inr (a, b)"
  shows "take (b - a) (drop a (ctx_tokens c)) = seg_tokens (c ! i) \<and> a \<le> b \<and> b \<le> ctx_n c"
proof -
  have i: "i < length c" and ab: "a = ctx_n (take i c)" "b = a + seg_n (c ! i)"
    using assms by (auto simp: span_def nth_offsets split: if_splits)
  have c: "c = take i c @ c ! i # drop (Suc i) c" using i by (simp add: id_take_nth_drop)
  have "ctx_tokens c = ctx_tokens (take i c) @ seg_tokens (c ! i) @ ctx_tokens (drop (Suc i) c)"
    by (subst c) simp
  moreover have "ctx_n c = ctx_n (take i c) + (seg_n (c ! i) + ctx_n (drop (Suc i) c))"
    by (subst c) simp
  ultimately show ?thesis by (auto simp: ab seg_n_def)
qed

section \<open>What the planner computes\<close>

definition no_collision :: "(byte list \<Rightarrow> string) \<Rightarrow> segment set \<Rightarrow> bool" where
  "no_collision H S \<longleftrightarrow> (\<forall>a\<in>S. \<forall>b\<in>S. \<forall>c. content_id H a = Inr c \<and> content_id H b = Inr c \<longrightarrow>
     seg_tokens a = seg_tokens b)"

lemma no_collisionD:
  "no_collision H S \<Longrightarrow> a \<in> S \<Longrightarrow> b \<in> S \<Longrightarrow> content_id H a = Inr c \<Longrightarrow> content_id H b = Inr c \<Longrightarrow>
   seg_tokens a = seg_tokens b"
  unfolding no_collision_def by blast

lemma common_prefix_spec:
  "common_prefix_len H old new = Inr n \<Longrightarrow>
   n \<le> length old \<and> n \<le> length new \<and>
   (\<forall>i<n. \<exists>c. content_id H (old ! i) = Inr c \<and> content_id H (new ! i) = Inr c) \<and>
   (n < length old \<and> n < length new \<longrightarrow> content_id H (old ! n) \<noteq> content_id H (new ! n))"
proof (induction H old new arbitrary: n rule: common_prefix_len.induct)
  case (1 H a as b bs)
  from 1(2) obtain ca cb where c: "content_id H a = Inr ca" "content_id H b = Inr cb" by auto
  show ?case
  proof (cases "ca = cb")
    case False then show ?thesis using 1(2) c by auto
  next
    case True
    then obtain m where m: "common_prefix_len H as bs = Inr m" "n = Suc m" using 1(2) c by auto
    note IH = 1(1) [OF True m(1)]
    then show ?thesis using c True m(2) by (auto simp: nth_Cons split: nat.split)
  qed
qed auto

lemma common_prefix_tokens:
  assumes "common_prefix_len H old new = Inr n" "no_collision H (set old \<union> set new)"
  shows "map seg_tokens (take n old) = map seg_tokens (take n new)"
proof (rule nth_equalityI)
  note s = common_prefix_spec [OF assms(1)]
  then show "length (map seg_tokens (take n old)) = length (map seg_tokens (take n new))" by simp
  fix i assume "i < length (map seg_tokens (take n old))"
  then have i: "i < n" "i < length old" "i < length new" using s by auto
  then obtain c where "content_id H (old ! i) = Inr c" "content_id H (new ! i) = Inr c" using s by blast
  then show "map seg_tokens (take n old) ! i = map seg_tokens (take n new) ! i"
    using i no_collisionD [OF assms(2), of "old ! i" "new ! i"] by simp
qed

definition pool_ok :: "(byte list \<Rightarrow> string) \<Rightarrow> ctx \<Rightarrow> nat \<Rightarrow> pool \<Rightarrow> bool" where
  "pool_ok H old prefix pool \<longleftrightarrow> (\<forall>c js. map_of pool c = Some js \<longrightarrow> distinct js \<and>
     (\<forall>j\<in>set js. prefix \<le> j \<and> j < length old \<and> content_id H (old ! j) = Inr c))"

definition in_pool :: "pool \<Rightarrow> nat \<Rightarrow> bool" where
  "in_pool pool j \<longleftrightarrow> (\<exists>c js. map_of pool c = Some js \<and> j \<in> set js)"

definition pool_count :: "pool \<Rightarrow> string \<Rightarrow> nat" where
  "pool_count pool c = (case map_of pool c of None \<Rightarrow> 0 | Some js \<Rightarrow> length js)"

definition count_id :: "(byte list \<Rightarrow> string) \<Rightarrow> string \<Rightarrow> ctx \<Rightarrow> nat" where
  "count_id H c segs = length (filter (\<lambda>s. content_id H s = Inr c) segs)"

lemma count_id_simps [simp]:
  "count_id H c [] = 0"
  "count_id H c (s # ss) = (if content_id H s = Inr c then 1 else 0) + count_id H c ss"
  by (simp_all add: count_id_def)

lemma pool_okD:
  "pool_ok H old prefix pool \<Longrightarrow> map_of pool c = Some js \<Longrightarrow> distinct js"
  "pool_ok H old prefix pool \<Longrightarrow> map_of pool c = Some js \<Longrightarrow> j \<in> set js \<Longrightarrow>
     prefix \<le> j \<and> j < length old \<and> content_id H (old ! j) = Inr c"
  by (auto simp: pool_ok_def)

lemma in_poolI: "map_of pool c = Some js \<Longrightarrow> j \<in> set js \<Longrightarrow> in_pool pool j"
  by (auto simp: in_pool_def)

lemma build_pool_spec:
  assumes "build_pool H pool j segs = Inr p" "segs = drop j old" "j \<le> length old"
    "pool_ok H old prefix pool" "prefix \<le> j" "\<forall>k. in_pool pool k \<longrightarrow> k < j"
  shows "pool_ok H old prefix p \<and> (\<forall>c. pool_count p c = pool_count pool c + count_id H c segs)"
  using assms
proof (induction segs arbitrary: pool j)
  case (Cons s ss)
  from Cons(2) obtain c where c: "content_id H s = Inr c" by auto
  define js where "js = (case map_of pool c of None \<Rightarrow> [] | Some js \<Rightarrow> js)"
  define q where "q = AList.update c (js @ [j]) pool"
  have b: "build_pool H q (Suc j) ss = Inr p" using Cons(2) c by (simp add: js_def q_def)
  have j: "j < length old" using Cons(3) by (metis drop_all leI list.distinct(1))
  have s: "s = old ! j" "ss = drop (Suc j) old" using Cons(3) j by (metis Cons_nth_drop_Suc list.inject)+
  have js: "distinct js" "\<forall>k\<in>set js. prefix \<le> k \<and> k < length old \<and> content_id H (old ! k) = Inr c \<and> k < j"
    using pool_okD [OF Cons(5)] Cons(7) by (cases "map_of pool c"; auto simp: js_def intro: in_poolI)+
  have q1: "pool_ok H old prefix q" using Cons(5,6) js c s j by (auto simp: q_def pool_ok_def)
  have q2: "\<forall>k. in_pool q k \<longrightarrow> k < Suc j" using Cons(7) js(2)
    by (auto simp: q_def in_pool_def less_Suc_eq split: if_splits)
  have q3: "pool_count q d = pool_count pool d + (if d = c then 1 else 0)" for d
    by (auto simp: q_def js_def pool_count_def split: option.split)
  have "pool_ok H old prefix p \<and> (\<forall>c. pool_count p c = pool_count q c + count_id H c ss)"
    by (rule Cons(1) [OF b s(2) _ q1 _ q2]) (use j Cons(6) in auto)
  then show ?case using c by (auto simp: q3)
qed simp

definition item_ok :: "(byte list \<Rightarrow> string) \<Rightarrow> ctx \<Rightarrow> nat \<Rightarrow> plan_item \<Rightarrow> bool" where
  "item_ok H old prefix it \<longleftrightarrow>
     snd (pi_new_span it) = fst (pi_new_span it) + seg_n (pi_segment it) \<and>
     (case pi_action it of
        REUSE_EXACT \<Rightarrow> pi_index it < prefix \<and> pi_prev_index it = Some (pi_index it) \<and> pi_shift it = 0
      | REUSE_SHIFTED \<Rightarrow> prefix \<le> pi_index it \<and> (\<exists>j c. pi_prev_index it = Some j \<and> prefix \<le> j \<and> j < length old \<and>
          content_id H (old ! j) = Inr c \<and> content_id H (pi_segment it) = Inr c \<and>
          pi_shift it = int (fst (pi_new_span it)) - int (offsets old ! j))
      | RECOMPUTE \<Rightarrow> prefix \<le> pi_index it \<and> pi_prev_index it = None)"

definition shifted_prevs :: "plan_item list \<Rightarrow> nat list" where
  "shifted_prevs its = map (\<lambda>it. the (pi_prev_index it)) (filter (\<lambda>it. pi_action it = REUSE_SHIFTED) its)"

definition shifted_count :: "(byte list \<Rightarrow> string) \<Rightarrow> string \<Rightarrow> plan_item list \<Rightarrow> nat" where
  "shifted_count H c its = length (filter (\<lambda>it. pi_action it = REUSE_SHIFTED \<and>
     content_id H (pi_segment it) = Inr c) its)"

lemma item_simps [simp]:
  "pi_index (item i st s a p d) = i" "pi_action (item i st s a p d) = a"
  "pi_segment (item i st s a p d) = s" "pi_new_span (item i st s a p d) = (st, st + seg_n s)"
  "pi_prev_index (item i st s a p d) = p" "pi_shift (item i st s a p d) = d"
  by (simp_all add: item_def)

lemma shifted_prevs_simps [simp]:
  "shifted_prevs [] = []"
  "shifted_prevs (it # its) = (if pi_action it = REUSE_SHIFTED then the (pi_prev_index it) # shifted_prevs its
     else shifted_prevs its)"
  by (simp_all add: shifted_prevs_def)

lemma shifted_count_simps [simp]:
  "shifted_count H c [] = 0"
  "shifted_count H c (it # its) = (if pi_action it = REUSE_SHIFTED \<and> content_id H (pi_segment it) = Inr c
     then 1 else 0) + shifted_count H c its"
  by (simp_all add: shifted_count_def)

definition placed :: "nat \<Rightarrow> nat \<Rightarrow> ctx \<Rightarrow> plan_item list \<Rightarrow> bool" where
  "placed i start segs its \<longleftrightarrow> map pi_segment its = segs \<and> map pi_index its = [i..<i + length segs] \<and>
     map (\<lambda>it. fst (pi_new_span it)) its = offsets_from start segs"

lemma placed_Nil [simp]: "placed i start [] its \<longleftrightarrow> its = []"
  by (auto simp: placed_def)

lemma placed_Cons [simp]:
  "placed i start (s # ss) (it # its) \<longleftrightarrow> pi_segment it = s \<and> pi_index it = i \<and>
     fst (pi_new_span it) = start \<and> placed (Suc i) (start + seg_n s) ss its"
  by (auto simp: placed_def upt_rec [of i])

definition items_ok :: "(byte list \<Rightarrow> string) \<Rightarrow> ctx \<Rightarrow> nat \<Rightarrow> pool \<Rightarrow> nat \<Rightarrow> nat \<Rightarrow> ctx \<Rightarrow> plan_item list \<Rightarrow> bool" where
  "items_ok H old prefix pool i start segs its \<longleftrightarrow> list_all (item_ok H old prefix) its \<and>
     placed i start segs its \<and> distinct (shifted_prevs its) \<and> (\<forall>j\<in>set (shifted_prevs its). in_pool pool j)"

lemma items_ok_Cons:
  assumes "items_ok H old prefix pool (Suc i) (start + seg_n s) ss its" "item_ok H old prefix it"
    "pi_action it \<noteq> REUSE_SHIFTED" "pi_segment it = s" "pi_index it = i" "fst (pi_new_span it) = start"
  shows "items_ok H old prefix pool i start (s # ss) (it # its)"
  using assms by (simp add: items_ok_def)

lemma pool_pop:
  assumes ok: "pool_ok H old prefix pool" and c: "map_of pool c = Some (j # js)"
  shows "pool_ok H old prefix (AList.update c js pool)"
    "\<not> in_pool (AList.update c js pool) j"
    "in_pool (AList.update c js pool) k \<Longrightarrow> in_pool pool k"
    "pool_count (AList.update c js pool) d = pool_count pool d - (if d = c then 1 else 0)"
proof -
  note cj = pool_okD [OF ok c]
  show "pool_ok H old prefix (AList.update c js pool)"
    using ok cj by (auto simp: pool_ok_def)
  show "\<not> in_pool (AList.update c js pool) j"
  proof
    assume "in_pool (AList.update c js pool) j"
    then obtain d ks where d: "((map_of pool)(c \<mapsto> js)) d = Some ks" "j \<in> set ks"
      by (auto simp: in_pool_def)
    have "d \<noteq> c" using d cj(1) by auto
    then have "content_id H (old ! j) = Inr d" using d pool_okD(2) [OF ok] by auto
    then show False using cj(2) [of j] \<open>d \<noteq> c\<close> by simp
  qed
  show "in_pool pool k" if "in_pool (AList.update c js pool) k"
    using that c by (auto simp: in_pool_def split: if_splits) (metis list.set_intros(2))
  show "pool_count (AList.update c js pool) d = pool_count pool d - (if d = c then 1 else 0)"
    using c by (simp add: pool_count_def)
qed

lemma plan_items_spec:
  "plan_items H mode prefix (offsets old) pool i start segs = Inr its \<Longrightarrow> pool_ok H old prefix pool \<Longrightarrow>
   items_ok H old prefix pool i start segs its \<and>
   (mode \<noteq> ''selective'' \<longrightarrow> shifted_prevs its = []) \<and>
   (mode = ''selective'' \<and> prefix \<le> i \<longrightarrow>
     (\<forall>c. shifted_count H c its = min (pool_count pool c) (count_id H c segs)))"
proof (induction segs arbitrary: pool i start its)
  case Nil then show ?case by (simp add: items_ok_def)
next
  case (Cons s ss)
  let ?next = "start + seg_n s"
  consider (exact) "i < prefix" | (shift) c j js where "\<not> i < prefix" "mode = ''selective''"
      "content_id H s = Inr c" "map_of pool c = Some (j # js)"
    | (none) c where "\<not> i < prefix" "mode = ''selective''" "content_id H s = Inr c" "pool_count pool c = 0"
        "\<forall>j js. map_of pool c \<noteq> Some (j # js)"
    | (plain) "\<not> i < prefix" "mode \<noteq> ''selective''"
  proof (cases "i < prefix \<or> mode \<noteq> ''selective''")
    case True then show ?thesis using exact plain by blast
  next
    case False
    then obtain c where c: "content_id H s = Inr c" using Cons(2) by (auto simp: Let_def)
    consider "map_of pool c = None" | "map_of pool c = Some []" | j js where "map_of pool c = Some (j # js)"
      by (metis option.exhaust list.exhaust)
    then show ?thesis using False c shift none by cases (auto simp: pool_count_def)
  qed
  then show ?case
  proof cases
    case exact
    then obtain r where r: "plan_items H mode prefix (offsets old) pool (Suc i) ?next ss = Inr r"
      "its = item i start s REUSE_EXACT (Some i) 0 # r" using Cons(2) by (auto simp: Let_def)
    show ?thesis using Cons(1) [OF r(1) Cons(3)] exact
      by (auto simp: r(2) item_ok_def intro!: items_ok_Cons)
  next
    case shift
    let ?q = "AList.update c js pool"
    obtain r where r: "plan_items H mode prefix (offsets old) ?q (Suc i) ?next ss = Inr r"
      "its = item i start s REUSE_SHIFTED (Some j) (int start - int (offsets old ! j)) # r"
      using shift Cons(2) by (auto simp: Let_def)
    note pop = pool_pop [OF Cons(3) shift(4)]
    note IH = Cons(1) [OF r(1) pop(1)]
    have j: "prefix \<le> j \<and> j < length old \<and> content_id H (old ! j) = Inr c"
      using pool_okD(2) [OF Cons(3) shift(4), of j] by simp
    have "items_ok H old prefix pool i start (s # ss) its"
      using IH pop(2,3) j shift in_poolI [OF shift(4), of j]
      by (auto simp: r(2) items_ok_def item_ok_def)
    moreover have "shifted_count H d its = min (pool_count pool d) (count_id H d (s # ss))" for d
    proof -
      have "shifted_count H d r = min (pool_count ?q d) (count_id H d ss)" using IH shift by simp
      moreover have "pool_count pool c = Suc (length js)" using shift by (simp add: pool_count_def)
      ultimately show ?thesis using shift(3) by (auto simp: r(2) pop(4))
    qed
    ultimately show ?thesis using shift by auto
  next
    case none
    then obtain r where r: "plan_items H mode prefix (offsets old) pool (Suc i) ?next ss = Inr r"
      "its = item i start s RECOMPUTE None 0 # r"
      using Cons(2) by (auto simp: Let_def split: option.splits list.splits)
    note IH = Cons(1) [OF r(1) Cons(3)]
    have "shifted_count H d its = min (pool_count pool d) (count_id H d (s # ss))" for d
      using IH none by (auto simp: r(2))
    then show ?thesis using IH none by (auto simp: r(2) item_ok_def intro!: items_ok_Cons)
  next
    case plain
    then obtain r where r: "plan_items H mode prefix (offsets old) pool (Suc i) ?next ss = Inr r"
      "its = item i start s RECOMPUTE None 0 # r" using Cons(2) by (auto simp: Let_def)
    show ?thesis using Cons(1) [OF r(1) Cons(3)] plain
      by (auto simp: r(2) item_ok_def intro!: items_ok_Cons)
  qed
qed

lemma plan_cases:
  assumes "plan_incremental H (Some old) new mode = Inr p"
  obtains n pool where "common_prefix_len H old new = Inr n"
    "build_pool H [] n (drop n old) = Inr pool"
    "plan_items H mode n (offsets old) pool 0 0 new = Inr (rp_items p)"
    "rp_total p = ctx_n new" "rp_exact p = list_all (\<lambda>it. pi_action it \<noteq> REUSE_SHIFTED) (rp_items p)"
    "items_ok H old n pool 0 0 new (rp_items p)" "mode \<noteq> ''selective'' \<longrightarrow> shifted_prevs (rp_items p) = []"
    "\<forall>c. mode = ''selective'' \<and> n = 0 \<longrightarrow> shifted_count H c (rp_items p) = min (count_id H c (drop n old)) (count_id H c new)"
proof -
  obtain n pool where n: "common_prefix_len H old new = Inr n"
    and pool: "build_pool H [] n (drop n old) = Inr pool"
    and its: "plan_items H mode n (offsets old) pool 0 0 new = Inr (rp_items p)"
    and rest: "rp_total p = ctx_n new"
      "rp_exact p = list_all (\<lambda>it. pi_action it \<noteq> REUSE_SHIFTED) (rp_items p)"
    using assms by (auto simp: plan_incremental_def split: if_splits)
  have "n \<le> length old" using common_prefix_spec [OF n] by blast
  then have p: "pool_ok H old n pool \<and> (\<forall>c. pool_count pool c = count_id H c (drop n old))"
    using build_pool_spec [OF pool, of old n] by (simp add: pool_ok_def in_pool_def pool_count_def)
  show thesis using that [OF n pool its rest] plan_items_spec [OF its] p by auto
qed

lemma placed_exact_sum:
  assumes "placed i start segs its" "list_all (item_ok H old n) its"
  shows "sum_list (map (\<lambda>it. seg_n (pi_segment it)) (filter (\<lambda>it. pi_action it = REUSE_EXACT) its))
    = ctx_n (take (n - i) segs)"
  using assms
proof (induction its arbitrary: i start segs)
  case Nil then show ?case by (cases segs) (auto simp: placed_def)
next
  case (Cons it its)
  then obtain s ss where s: "segs = s # ss" by (cases segs) (auto simp: placed_def)
  have "pi_action it = REUSE_EXACT \<longleftrightarrow> i < n" using Cons(2,3) s
    by (auto simp: item_ok_def split: action.splits)
  then show ?case using Cons(1) [of "Suc i" _ ss] Cons(2,3) s
    by (cases "i < n") (auto simp: Suc_diff_Suc [symmetric])
qed

lemma exact_prefix:
  assumes "plan_incremental H (Some old) new mode = Inr p"
  shows "\<exists>n. common_prefix_len H old new = Inr n \<and> reused_exact_tokens p = ctx_n (take n new)"
  using plan_cases [OF assms] placed_exact_sum [of 0 0 new "rp_items p" H old]
  by (auto simp: items_ok_def tokens_with_def) (metis diff_zero)

lemma tokens_with_split:
  "sum_list (map (\<lambda>it. seg_n (pi_segment it)) its) =
   sum_list (map (\<lambda>it. seg_n (pi_segment it)) (filter (\<lambda>it. pi_action it = REUSE_EXACT) its))
   + sum_list (map (\<lambda>it. seg_n (pi_segment it)) (filter (\<lambda>it. pi_action it = REUSE_SHIFTED) its))
   + sum_list (map (\<lambda>it. seg_n (pi_segment it)) (filter (\<lambda>it. pi_action it = RECOMPUTE) its))"
  by (induction its) (auto split: action.splits, (metis action.exhaust)+)

lemma placed_tokens: "placed i start segs its \<Longrightarrow> sum_list (map (\<lambda>it. seg_n (pi_segment it)) its) = ctx_n segs"
  by (auto simp: placed_def ctx_n_def o_def)

definition same_content :: "ctx \<Rightarrow> plan_item \<Rightarrow> bool" where
  "same_content old it \<longleftrightarrow> (case pi_prev_index it of None \<Rightarrow> pi_action it = RECOMPUTE
     | Some j \<Rightarrow> j < length old \<and> seg_tokens (old ! j) = seg_tokens (pi_segment it) \<and>
         (\<exists>a b. span old j = Inr (a, b) \<and> b - a = seg_n (pi_segment it) \<and>
            int (fst (pi_new_span it)) = int a + pi_shift it \<and>
            (pi_action it = REUSE_EXACT \<longrightarrow> pi_new_span it = (a, b))))"

lemma placed_nth:
  assumes "placed i start segs its" "k < length its"
  shows "k < length segs" "pi_segment (its ! k) = segs ! k" "pi_index (its ! k) = i + k"
    "fst (pi_new_span (its ! k)) = start + ctx_n (take k segs)"
proof -
  have l: "length its = length segs" using assms(1) by (metis placed_def length_map)
  then show k: "k < length segs" using assms(2) by simp
  have m: "map pi_segment its = segs" "map pi_index its = [i..<i + length segs]"
    "map (\<lambda>it. fst (pi_new_span it)) its = offsets_from start segs" using assms(1) by (auto simp: placed_def)
  show "pi_segment (its ! k) = segs ! k" using m(1) assms(2) by (metis nth_map)
  show "pi_index (its ! k) = i + k" using m(2) k assms(2) by (metis nth_map nth_upt nat_add_left_cancel_less)
  show "fst (pi_new_span (its ! k)) = start + ctx_n (take k segs)"
    using m(3) k assms(2) nth_offsets_from [OF k, of start] by (metis nth_map)
qed

lemma ctx_n_cong: "map seg_tokens a = map seg_tokens b \<Longrightarrow> ctx_n a = ctx_n b \<and> ctx_tokens a = ctx_tokens b"
proof -
  assume m: "map seg_tokens a = map seg_tokens b"
  then have "ctx_tokens a = ctx_tokens b" by (simp add: ctx_tokens_def)
  then show ?thesis by (metis length_ctx_tokens)
qed

lemma item_same_content:
  assumes p: "common_prefix_len H old new = Inr n" "no_collision H (set old \<union> set new)"
    and pl: "placed 0 0 new its" and ok: "list_all (item_ok H old n) its" and it: "it \<in> set its"
  shows "same_content old it"
proof -
  obtain k where k: "k < length its" "it = its ! k" using it by (auto simp: in_set_conv_nth)
  note at = placed_nth [OF pl k(1)]
  have io: "item_ok H old n it" using ok it by (auto simp: list_all_iff)
  note pre = common_prefix_spec [OF p(1)]
  have toks: "map seg_tokens (take n old) = map seg_tokens (take n new)"
    by (rule common_prefix_tokens [OF p])
  show ?thesis
  proof (cases "pi_action it")
    case REUSE_EXACT
    then have kn: "k < n" "pi_prev_index it = Some k" "pi_shift it = 0"
      "snd (pi_new_span it) = fst (pi_new_span it) + seg_n (pi_segment it)"
      using io at k(2) by (auto simp: item_ok_def)
    have "map seg_tokens (take k old) = map seg_tokens (take k new)"
      using arg_cong [OF toks, of "take k"] kn(1) by (simp add: take_map min_absorb1)
    then have c: "ctx_n (take k old) = ctx_n (take k new)" using ctx_n_cong by blast
    have "k < length old" using kn(1) pre by auto
    moreover have "seg_tokens (old ! k) = seg_tokens (new ! k)"
      using arg_cong [OF toks, of "\<lambda>l. l ! k"] kn(1) pre by auto
    moreover have "pi_new_span it = (ctx_n (take k new), ctx_n (take k new) + seg_n (new ! k))"
      using kn at k(2) by (simp add: prod_eq_iff)
    ultimately show ?thesis using kn at c k(2) by (simp add: same_content_def span_def nth_offsets seg_n_def)
  next
    case REUSE_SHIFTED
    then obtain j c where j: "pi_prev_index it = Some j" "j < length old" "content_id H (old ! j) = Inr c"
      "content_id H (pi_segment it) = Inr c"
      "pi_shift it = int (fst (pi_new_span it)) - int (offsets old ! j)"
      using io by (auto simp: item_ok_def)
    have "pi_segment it \<in> set new" using at k(2) by simp
    then have "seg_tokens (old ! j) = seg_tokens (pi_segment it)"
      using no_collisionD [OF p(2), of "old ! j" "pi_segment it"] j by simp
    then show ?thesis using j REUSE_SHIFTED by (simp add: same_content_def span_def seg_n_def)
  next
    case RECOMPUTE
    then show ?thesis using io by (simp add: item_ok_def same_content_def)
  qed
qed

text \<open>C9. A recompute plan is a sound and complete account of the new context. Its items are the
  new segments in order at their own offsets, their tokens split into exactly reused, shifted and
  recomputed add up to the whole, and every reused item names a segment of the old context with
  the very same tokens: an exact one at the same absolute span, a shifted one at a position that
  differs by the recorded shift. No old segment is reused for two shifted ones, the plan is marked
  exact iff nothing is shifted, which is always so in exact mode, and the reuse extent is
  the longest common segment prefix.\<close>

theorem plan_sound:
  assumes "plan_incremental H (Some old) new mode = Inr p" "no_collision H (set old \<union> set new)"
  shows "map pi_segment (rp_items p) = new \<and>
    map (\<lambda>it. fst (pi_new_span it)) (rp_items p) = offsets new \<and>
    reused_exact_tokens p + reuse_shifted_tokens p + recompute_tokens p = length (ctx_tokens new) \<and>
    rp_total p = length (ctx_tokens new) \<and>
    (\<forall>it\<in>set (rp_items p). same_content old it) \<and>
    distinct (shifted_prevs (rp_items p)) \<and>
    (rp_exact p \<longleftrightarrow> shifted_prevs (rp_items p) = []) \<and>
    (mode = ''exact'' \<longrightarrow> rp_exact p) \<and>
    (\<exists>n. reused_exact_tokens p = ctx_n (take n new) \<and> take n (map seg_tokens old) = take n (map seg_tokens new)
      \<and> (n < length old \<and> n < length new \<longrightarrow> content_id H (old ! n) \<noteq> content_id H (new ! n)))"
proof -
  obtain n pool where n: "common_prefix_len H old new = Inr n" and rest:
    "rp_total p = ctx_n new" "rp_exact p = list_all (\<lambda>it. pi_action it \<noteq> REUSE_SHIFTED) (rp_items p)"
    "items_ok H old n pool 0 0 new (rp_items p)" "mode \<noteq> ''selective'' \<longrightarrow> shifted_prevs (rp_items p) = []"
    by (rule plan_cases [OF assms(1)]) blast
  have pl: "placed 0 0 new (rp_items p)" and ok: "list_all (item_ok H old n) (rp_items p)"
    and d: "distinct (shifted_prevs (rp_items p))" using rest(3) by (auto simp: items_ok_def)
  show ?thesis
  proof (intro conjI)
    show "map pi_segment (rp_items p) = new" "map (\<lambda>it. fst (pi_new_span it)) (rp_items p) = offsets new"
      using pl by (auto simp: placed_def offsets_def)
    show "reused_exact_tokens p + reuse_shifted_tokens p + recompute_tokens p = length (ctx_tokens new)"
      using tokens_with_split [of "rp_items p"] placed_tokens [OF pl] by (simp add: tokens_with_def)
    show "rp_total p = length (ctx_tokens new)" by (simp add: rest(1))
    show "\<forall>it\<in>set (rp_items p). same_content old it"
      using item_same_content [OF n assms(2) pl ok] by blast
    show "distinct (shifted_prevs (rp_items p))" by (rule d)
    show e: "rp_exact p \<longleftrightarrow> shifted_prevs (rp_items p) = []"
      by (auto simp: rest(2) shifted_prevs_def list_all_iff filter_empty_conv)
    show "mode = ''exact'' \<longrightarrow> rp_exact p" using rest(4) e by auto
    show "\<exists>n. reused_exact_tokens p = ctx_n (take n new) \<and> take n (map seg_tokens old) = take n (map seg_tokens new)
        \<and> (n < length old \<and> n < length new \<longrightarrow> content_id H (old ! n) \<noteq> content_id H (new ! n))"
      using exact_prefix [OF assms(1)] n common_prefix_spec [OF n] common_prefix_tokens [OF n assms(2)]
      by (auto simp: take_map)
  qed
qed

abbreviation "demo_seg n ts \<equiv> \<lparr>seg_name = n, seg_tokens = ts, seg_role = ''doc''\<rparr>"

text \<open>A hash that tells the example segments apart: the low byte of the first token.\<close>

definition demo_hash :: "byte list \<Rightarrow> string" where
  "demo_hash bs = replicate (unat (bs ! 8)) CHR ''x''"

lemmas hash_eval = content_id_def hash_tokens_def hash_input_def len_bytes_def token_bytes_def
  le_bytes_numeral demo_hash_def

lemma replicate_num: "replicate (numeral k) x = x # replicate (pred_numeral k) x"
  by (simp only: numeral_eq_Suc [of k] replicate_Suc)

lemma demo_ids:
  "content_id demo_hash (demo_seg a [3]) = Inr ''xxx''" "content_id demo_hash (demo_seg a [4]) = Inr ''xxxx''"
  "content_id demo_hash (demo_seg a [5]) = Inr ''xxxxx''" "content_id demo_hash (demo_seg a [6, 7]) = Inr ''xxxxxx''"
  by (simp_all add: hash_eval replicate_num)

lemma content_id_ok: "length (seg_tokens s) < 2 ^ 64 \<Longrightarrow> list_all int32 (seg_tokens s) \<Longrightarrow> \<exists>c. content_id H s = Inr c"
  using hash_input_ok_iff [of "seg_tokens s"] by (auto simp: content_id_def hash_tokens_def)

theorem plan_sound_witness:
  "\<exists>p. plan_incremental demo_hash (Some [demo_seg ''s'' [3], demo_seg ''d'' [4], demo_seg ''q'' [5]])
      [demo_seg ''s'' [3], demo_seg ''d'' [6, 7], demo_seg ''q'' [5]] ''selective'' = Inr p \<and>
    reused_exact_tokens p + reuse_shifted_tokens p + recompute_tokens p = 4 \<and> shifted_prevs (rp_items p) = [2] \<and>
    distinct (shifted_prevs (rp_items p)) \<and> \<not> rp_exact p"
proof -
  let ?old = "[demo_seg ''s'' [3], demo_seg ''d'' [4], demo_seg ''q'' [5]]"
  let ?new = "[demo_seg ''s'' [3], demo_seg ''d'' [6, 7], demo_seg ''q'' [5]]"
  obtain p where p: "plan_incremental demo_hash (Some ?old) ?new ''selective'' = Inr p"
      "shifted_prevs (rp_items p) = [2]"
    by (simp add: plan_incremental_def demo_ids Let_def)
  have "no_collision demo_hash (set ?old \<union> set ?new)"
    by (simp add: no_collision_def demo_ids)
  note s = plan_sound [OF p(1) this]
  show ?thesis by (rule exI [of _ p]) (use p s in simp)
qed

section \<open>Ranges\<close>

definition covered :: "(nat \<times> nat) list \<Rightarrow> nat set" where
  "covered rs = (\<Union>(a, b)\<in>set rs. {a..<b})"

lemma covered_simps [simp]:
  "covered [] = {}" "covered ((a, b) # rs) = {a..<b} \<union> covered rs" "covered (rs @ qs) = covered rs \<union> covered qs"
  "covered (rev rs) = covered rs"
  by (auto simp: covered_def)

text \<open>\<open>merged\<close>, last range first: ranges proper, and separated by a gap.\<close>

definition separated :: "(nat \<times> nat) list \<Rightarrow> bool" where
  "separated m \<longleftrightarrow> list_all (\<lambda>(a, b). a \<le> b) m \<and> sorted_wrt (\<lambda>r s. snd s < fst r) m"

lemma merge_range_spec:
  assumes "separated m" "a \<le> b" "\<forall>r\<in>set m. fst r \<le> a"
  shows "separated (merge_range m (a, b)) \<and> covered (merge_range m (a, b)) = covered m \<union> {a..<b} \<and>
    (\<forall>r\<in>set (merge_range m (a, b)). fst r \<le> a)"
proof (cases m)
  case (Cons r ms)
  obtain x y where r: "r = (x, y)" by (cases r)
  have "x \<le> y" "x \<le> a" using assms Cons r by (auto simp: separated_def)
  then show ?thesis using assms Cons r
    by (auto simp: separated_def list_all_iff)
qed (use assms in \<open>auto simp: separated_def\<close>)

lemma merge_all_spec:
  assumes "separated m" "list_all (\<lambda>(a, b). a \<le> b) rs" "sorted (map fst rs)" "\<forall>r\<in>set m. \<forall>s\<in>set rs. fst r \<le> fst s"
  shows "separated (foldl merge_range m rs) \<and> covered (foldl merge_range m rs) = covered m \<union> covered rs"
  using assms
proof (induction rs arbitrary: m)
  case (Cons r rs)
  obtain a b where r: "r = (a, b)" by (cases r)
  have s: "separated (merge_range m (a, b)) \<and> covered (merge_range m (a, b)) = covered m \<union> {a..<b} \<and>
    (\<forall>r\<in>set (merge_range m (a, b)). fst r \<le> a)"
    by (rule merge_range_spec) (use Cons r in auto)
  show ?case using Cons(1) [of "merge_range m (a, b)"] s Cons(3,4) r by force
qed simp

lemma sorted_fst: "sorted rs \<Longrightarrow> sorted (map fst (rs :: (nat \<times> nat) list))"
  by (induction rs) (auto simp: less_eq_prod_def)

lemma covered_finite: "finite (covered rs)"
  by (auto simp: covered_def)

lemma separated_card: "separated m \<Longrightarrow> card (covered m) = sum_list (map (\<lambda>(a, b). b - a) m)"
proof (induction m)
  case (Cons r m)
  obtain a b where r: "r = (a, b)" by (cases r)
  have "{a..<b} \<inter> covered m = {}" using Cons(2) r by (force simp: separated_def covered_def)
  then show ?case using Cons r by (auto simp: card_Un_disjoint covered_finite separated_def)
qed simp

lemma placed_covered:
  assumes "placed i start segs its" "list_all (item_ok H old n) its"
  shows "card (covered (map pi_new_span (filter P its))) = sum_list (map (\<lambda>it. seg_n (pi_segment it)) (filter P its))
    \<and> covered (map pi_new_span (filter P its)) \<subseteq> {start..}"
  using assms
proof (induction its arbitrary: i start segs)
  case (Cons it its)
  then obtain s ss where s: "segs = s # ss" by (cases segs) (auto simp: placed_def)
  have IH: "card (covered (map pi_new_span (filter P its))) = sum_list (map (\<lambda>it. seg_n (pi_segment it)) (filter P its))"
    "covered (map pi_new_span (filter P its)) \<subseteq> {start + seg_n s..}"
    using Cons(1) [of "Suc i" "start + seg_n s" ss] Cons(2,3) s by auto
  have sp: "pi_new_span it = (start, start + seg_n s)" "pi_segment it = s"
    using Cons(2,3) s by (auto simp: item_ok_def prod_eq_iff)
  have "{start..<start + seg_n s} \<inter> covered (map pi_new_span (filter P its)) = {}" using IH(2) by fastforce
  then show ?case using IH sp by (auto simp: card_Un_disjoint covered_finite)
qed simp

lemma zip_items_placed:
  "placed i start segs (map (\<lambda>(i, start, seg). item i start seg RECOMPUTE None 0)
     (zip [i..<i + length segs] (zip (offsets_from start segs) segs)))"
proof (induction segs arbitrary: i start)
  case (Cons s ss)
  have "[i..<i + length (s # ss)] = i # [Suc i..<Suc i + length ss]" by (simp add: upt_rec)
  then show ?case using Cons [of "Suc i"] by simp
qed simp

lemma cold_items_ok: "placed 0 0 new (cold_items new) \<and> list_all (item_ok H [] 0) (cold_items new)"
  using zip_items_placed [of 0 0 new]
  by (auto simp: cold_items_def offsets_def list_all_iff item_ok_def)

lemma plan_placed:
  assumes "plan_incremental H prev new mode = Inr p"
  shows "\<exists>old n. placed 0 0 new (rp_items p) \<and> list_all (item_ok H old n) (rp_items p)"
proof (cases prev)
  case None
  then have "rp_items p = cold_items new" using assms by (auto simp: plan_incremental_def split: if_splits)
  then show ?thesis using cold_items_ok by metis
next
  case (Some old)
  show ?thesis by (rule plan_cases [OF assms [unfolded Some]]) (auto simp: items_ok_def)
qed

lemma foldl_sort_filter:
  assumes "placed i start segs its" "list_all (item_ok H old n) its"
  shows "list_all (\<lambda>(a, b). a \<le> b) (map pi_new_span (filter P its))"
  using assms by (auto simp: list_all_iff item_ok_def split: prod.splits)

text \<open>The token ranges handed to the engine are exactly the recompute segments: a position is
  in some range iff a RECOMPUTE item's span contains it, the ranges are proper, in increasing order
  and separated by a gap (touching ones were merged), and their lengths add up to
  \<^verbatim>\<open>recompute_tokens\<close>, so no position is run twice.\<close>

theorem recompute_ranges_exact:
  assumes "plan_incremental H prev new mode = Inr p"
  shows "covered (recompute_ranges p) = covered (map pi_new_span (filter (\<lambda>it. pi_action it = RECOMPUTE) (rp_items p)))
    \<and> list_all (\<lambda>(a, b). a \<le> b) (recompute_ranges p) \<and> sorted_wrt (\<lambda>r s. snd r < fst s) (recompute_ranges p)
    \<and> sum_list (map (\<lambda>(a, b). b - a) (recompute_ranges p)) = recompute_tokens p"
proof -
  define raw where "raw = map pi_new_span (filter (\<lambda>it. pi_action it = RECOMPUTE) (rp_items p))"
  obtain old n where pl: "placed 0 0 new (rp_items p)" "list_all (item_ok H old n) (rp_items p)"
    using plan_placed [OF assms] by blast
  have proper: "list_all (\<lambda>(a, b). a \<le> b) (sort raw)"
    using foldl_sort_filter [OF pl, of "\<lambda>it. pi_action it = RECOMPUTE"] by (auto simp: raw_def list_all_iff)
  have cov: "covered (sort raw) = covered raw" by (simp add: covered_def)
  have m: "separated (foldl merge_range [] (sort raw)) \<and> covered (foldl merge_range [] (sort raw)) = covered raw"
    using merge_all_spec [of "[]" "sort raw"] proper sorted_fst [OF sorted_sort [of raw]]
    by (simp add: separated_def cov)
  have r: "recompute_ranges p = rev (foldl merge_range [] (sort raw))"
    by (simp add: recompute_ranges_def raw_def)
  have "sum_list (map (\<lambda>(a, b). b - a) (recompute_ranges p)) = card (covered raw)"
    using separated_card [OF conjunct1 [OF m]] m by (simp add: r rev_map [symmetric] sum_list_rev)
  also have "\<dots> = recompute_tokens p"
    using placed_covered [OF pl] by (simp add: raw_def tokens_with_def)
  finally show ?thesis using m by (simp add: r raw_def [symmetric] separated_def sorted_wrt_rev)
qed

theorem recompute_ranges_exact_witness:
  "\<exists>p. plan_incremental demo_hash None [demo_seg ''a'' [3], demo_seg ''b'' [6, 7]] ''exact'' = Inr p \<and>
    sum_list (map (\<lambda>(a, b). b - a) (recompute_ranges p)) = recompute_tokens p \<and> recompute_tokens p = 3"
proof -
  let ?new = "[demo_seg ''a'' [3], demo_seg ''b'' [6, 7]]"
  obtain p where p: "plan_incremental demo_hash None ?new ''exact'' = Inr p" "recompute_tokens p = 3"
    by (simp add: plan_incremental_def cold_items_def offsets_def tokens_with_def seg_n_def)
  show ?thesis using recompute_ranges_exact [OF p(1)] p by blast
qed

text \<open>In selective mode over a context with no common prefix, as many copies of each content are
  reused as both contexts have: no reusable segment is recomputed.\<close>

lemma selective_reuse_maximal:
  assumes "plan_incremental H (Some old) new ''selective'' = Inr p" "common_prefix_len H old new = Inr 0"
  shows "shifted_count H c (rp_items p) = min (count_id H c old) (count_id H c new)"
  by (rule plan_cases [OF assms(1)]) (use assms(2) in auto)

text \<open>The savings view never reports a negative recompute.\<close>

lemma plan_savings_bounds:
  assumes "plan_incremental H (Some old) new mode = Inr p"
  shows "0 \<le> sv_recomputed (plan_savings p)"
    "sv_recomputed (plan_savings p) = int (reuse_shifted_tokens p) + int (recompute_tokens p)"
proof -
  have "rp_total p = reused_exact_tokens p + reuse_shifted_tokens p + recompute_tokens p"
    by (rule plan_cases [OF assms])
      (use tokens_with_split [of "rp_items p"] placed_tokens [of 0 0 new "rp_items p"] in
        \<open>simp add: tokens_with_def items_ok_def\<close>)
  then show "0 \<le> sv_recomputed (plan_savings p)"
    "sv_recomputed (plan_savings p) = int (reuse_shifted_tokens p) + int (recompute_tokens p)"
    by (simp_all add: plan_savings_def Let_def)
qed

end
