(* ===== verification/Backend.thy ===== *)
theory Backend imports KVTypes begin

text \<open>
  The stateful part of the model backends: \<^verbatim>\<open>prefill\<close>, \<^verbatim>\<open>extend\<close>, the prefix slice and
  \<^verbatim>\<open>generate_and_extend\<close> of \<^verbatim>\<open>dexa/engine/hf_backend.py\<close>, and the toy backend of
  \<^verbatim>\<open>dexa/engine/fake.py\<close>. The transformer's forward pass is a parameter \<open>fwd\<close>: given the past
  key/values, the input tokens and their position ids it returns the grown past key/values
  (\<^verbatim>\<open>out.past_key_values\<close>). What the code relies on is the locale \<open>causal_forward\<close>: the documented
  behaviour of a causal transformer with a key/value cache. Conversions between bfloat16 tensors and
  float32 arrays at the edges are lossless in this direction and not modelled.
\<close>

section \<open>The Hugging Face backend\<close>

definition arange :: "nat \<Rightarrow> nat \<Rightarrow> int list" where
  "arange a b = map int [a..<b]"

type_synonym 'v raw_cache = "'v layer_kv list"

type_synonym 'v forward = "'v raw_cache \<Rightarrow> int list \<Rightarrow> int list \<Rightarrow> 'v raw_cache"

text \<open>\<^verbatim>\<open>past_key_values=None\<close>: nothing cached in any layer and kv-head.\<close>

definition empty_raw :: "model_spec \<Rightarrow> 'v raw_cache" where
  "empty_raw sp = replicate (n_layers sp)
     \<lparr>lkey = replicate (n_kv_heads sp) [], lval = replicate (n_kv_heads sp) []\<rparr>"

definition hf_prefill :: "model_spec \<Rightarrow> 'v forward \<Rightarrow> int list \<Rightarrow> nat \<Rightarrow> 'v kvcache" where
  "hf_prefill sp fwd toks off = (let ps = arange off (off + length toks) in
     \<lparr>kv_spec = sp, kv_layers = fwd (empty_raw sp) toks ps, kv_positions = ps, kv_token_ids = Some toks\<rparr>)"

text \<open>\<^verbatim>\<open>_build_raw_cache\<close> and \<^verbatim>\<open>_cache_to_kvcache\<close>.\<close>

definition build_raw_cache :: "'v kvcache \<Rightarrow> 'v raw_cache" where
  "build_raw_cache kv = kv_layers kv"

definition cache_to_kvcache :: "model_spec \<Rightarrow> 'v raw_cache \<Rightarrow> int list \<Rightarrow> int list \<Rightarrow> 'v kvcache" where
  "cache_to_kvcache sp cache ps toks =
     \<lparr>kv_spec = sp, kv_layers = cache, kv_positions = ps, kv_token_ids = Some toks\<rparr>"

definition tokens_or_empty :: "'v kvcache \<Rightarrow> int list" where
  "tokens_or_empty c = (case kv_token_ids c of None \<Rightarrow> [] | Some ts \<Rightarrow> ts)"

definition hf_extend :: "model_spec \<Rightarrow> 'v forward \<Rightarrow> 'v kvcache \<Rightarrow> int list \<Rightarrow> 'v kvcache" where
  "hf_extend sp fwd c toks = (if toks = [] then c else let start = seq_len c in
     cache_to_kvcache sp (fwd (build_raw_cache c) toks (arange start (start + length toks)))
       (arange 0 (start + length toks)) (tokens_or_empty c @ toks))"

definition take_layer :: "nat \<Rightarrow> 'v layer_kv \<Rightarrow> 'v layer_kv" where
  "take_layer n l = \<lparr>lkey = map (take n) (lkey l), lval = map (take n) (lval l)\<rparr>"

definition slice_kv :: "'v kvcache \<Rightarrow> nat \<Rightarrow> 'v kvcache" where
  "slice_kv kv n = kv\<lparr>kv_layers := map (take_layer n) (kv_layers kv),
     kv_positions := take n (kv_positions kv), kv_token_ids := map_option (take n) (kv_token_ids kv)\<rparr>"

text \<open>The decode loop: \<open>pick past ids ps\<close> is the next token the sampler takes from the logits of that
  forward pass. The generated tokens and the grown cache.\<close>

fun decode_loop :: "'v forward \<Rightarrow> ('v raw_cache \<Rightarrow> int list \<Rightarrow> int list \<Rightarrow> int) \<Rightarrow> nat \<Rightarrow> 'v raw_cache \<Rightarrow> int
    \<Rightarrow> nat \<Rightarrow> int list \<times> 'v raw_cache" where
  "decode_loop fwd pick 0 cache nxt cur = ([], cache)"
| "decode_loop fwd pick (Suc n) cache nxt cur = (let ps = [int cur];
     (gs, cache') = decode_loop fwd pick n (fwd cache [nxt] ps) (pick cache [nxt] ps) (Suc cur) in (nxt # gs, cache'))"

definition generate_and_extend :: "model_spec \<Rightarrow> 'v forward \<Rightarrow> ('v raw_cache \<Rightarrow> int list \<Rightarrow> int list \<Rightarrow> int)
    \<Rightarrow> 'v kvcache \<Rightarrow> int list \<Rightarrow> nat \<Rightarrow> int list \<times> 'v kvcache" where
  "generate_and_extend sp fwd pick c prompt max_new = (let start = seq_len c; cache = build_raw_cache c;
     ps = arange start (start + length prompt);
     (gs, cache') = decode_loop fwd pick max_new (fwd cache prompt ps) (pick cache prompt ps) (start + length prompt) in
     (gs, cache_to_kvcache sp cache' (arange 0 (start + length prompt + length gs))
            (tokens_or_empty c @ prompt @ gs)))"

section \<open>The toy backend\<close>

text \<open>\<open>vec t l h True\<close> is \<^verbatim>\<open>_kv_vec(t, l, h, "k")\<close>, with \<open>False\<close> for \<^verbatim>\<open>"v"\<close>: the seeded random
  generator behind it is a parameter.\<close>

type_synonym 'v kv_vec = "int \<Rightarrow> nat \<Rightarrow> nat \<Rightarrow> bool \<Rightarrow> 'v"

definition fake_layers :: "model_spec \<Rightarrow> 'v kv_vec \<Rightarrow> int list \<Rightarrow> 'v raw_cache" where
  "fake_layers sp vec toks = map (\<lambda>l.
     \<lparr>lkey = map (\<lambda>h. map (\<lambda>t. vec t l h True) toks) [0..<n_kv_heads sp],
      lval = map (\<lambda>h. map (\<lambda>t. vec t l h False) toks) [0..<n_kv_heads sp]\<rparr>) [0..<n_layers sp]"

definition fake_prefill :: "model_spec \<Rightarrow> 'v kv_vec \<Rightarrow> int list \<Rightarrow> nat \<Rightarrow> 'v kvcache" where
  "fake_prefill sp vec toks off = \<lparr>kv_spec = sp, kv_layers = fake_layers sp vec toks,
     kv_positions = arange off (off + length toks), kv_token_ids = Some toks\<rparr>"

definition fake_extend :: "model_spec \<Rightarrow> 'v kv_vec \<Rightarrow> 'v kvcache \<Rightarrow> int list \<Rightarrow> 'v kvcache" where
  "fake_extend sp vec c toks = fake_prefill sp vec (tokens_or_empty c @ toks) 0"

text \<open>\<^verbatim>\<open>np.linspace(0, T - 1, n).astype(int)\<close> with exact arithmetic.\<close>

definition linspace_idx :: "nat \<Rightarrow> nat \<Rightarrow> nat list" where
  "linspace_idx t n = (if n = 1 then [0] else map (\<lambda>i. (i * (t - 1)) div (n - 1)) [0..<n])"

definition fake_reference_queries :: "model_spec \<Rightarrow> (int \<Rightarrow> nat \<Rightarrow> nat \<Rightarrow> 'v) \<Rightarrow> int list \<Rightarrow> nat \<Rightarrow> 'v ref_queries" where
  "fake_reference_queries sp qvec toks n_per_head = (let t = length toks;
     sub = (\<lambda>row. if t > n_per_head then map (\<lambda>i. row ! i) (linspace_idx t n_per_head) else row) in
     \<lparr>rq_spec = sp, rq_layers = map (\<lambda>l. map (\<lambda>qh. sub (map (\<lambda>x. qvec x l qh) toks)) [0..<n_q_heads sp])
        [0..<n_layers sp]\<rparr>)"

section \<open>Shapes\<close>

definition shaped :: "model_spec \<Rightarrow> nat \<Rightarrow> 'v raw_cache \<Rightarrow> bool" where
  "shaped sp n c \<longleftrightarrow> length c = n_layers sp \<and> list_all (\<lambda>l.
     length (lkey l) = n_kv_heads sp \<and> length (lval l) = n_kv_heads sp \<and>
     list_all (\<lambda>h. length h = n) (lkey l) \<and> list_all (\<lambda>h. length h = n) (lval l)) c"

lemma map_take_all: "list_all (\<lambda>h. length h = n) hs \<Longrightarrow> n \<le> m \<Longrightarrow> map (take m) hs = hs"
  by (induction hs) auto

lemma map_take_zero: "list_all (\<lambda>h. length h = n) hs \<Longrightarrow> map (take 0) hs = replicate (length hs) []"
  by (induction hs) auto

lemma take_layer_take: "take_layer m (take_layer n l) = take_layer (min m n) l"
  by (simp add: take_layer_def o_def)

lemma shaped_take_all: "shaped sp n c \<Longrightarrow> n \<le> m \<Longrightarrow> map (take_layer m) c = c"
  by (auto simp: shaped_def take_layer_def map_take_all list_all_iff intro!: map_idI layer_kv.equality)

lemma shaped_take_zero: "shaped sp n c \<Longrightarrow> map (take_layer 0) c = empty_raw sp"
  by (auto simp: shaped_def empty_raw_def take_layer_def list_all_iff map_replicate_const [symmetric]
      intro!: nth_equalityI)

lemma shaped_empty [simp]: "shaped sp 0 (empty_raw sp)"
  by (auto simp: shaped_def empty_raw_def list_all_iff)

lemma length_arange [simp]: "length (arange a b) = b - a"
  by (simp add: arange_def)

lemma arange_app: "a \<le> b \<Longrightarrow> b \<le> c \<Longrightarrow> arange a b @ arange b c = arange a c"
  using upt_add_eq_append [of a b "c - b"] by (simp add: arange_def flip: map_append)

lemma take_arange: "n \<le> b - a \<Longrightarrow> take n (arange a b) = arange a (a + n)"
  by (cases "n = 0") (simp_all add: arange_def take_map take_upt)

section \<open>What the sessions rely on\<close>

text \<open>A causal transformer with a key/value cache: a pass over a non-empty input appends one column
  per token, leaves the past columns alone, and running two inputs one after the other is running
  them together.\<close>

locale causal_forward =
  fixes sp :: model_spec and fwd :: "'v forward"
  assumes fwd_shape: "shaped sp n past \<Longrightarrow> ts \<noteq> [] \<Longrightarrow> length ps = length ts \<Longrightarrow>
      shaped sp (n + length ts) (fwd past ts ps)"
    and fwd_keeps: "shaped sp n past \<Longrightarrow> ts \<noteq> [] \<Longrightarrow> length ps = length ts \<Longrightarrow>
      map (take_layer n) (fwd past ts ps) = past"
    and fwd_split: "shaped sp n past \<Longrightarrow> ts \<noteq> [] \<Longrightarrow> us \<noteq> [] \<Longrightarrow> length ps = length ts \<Longrightarrow>
      length qs = length us \<Longrightarrow> fwd past (ts @ us) (ps @ qs) = fwd (fwd past ts ps) us qs"

text \<open>What a session manager needs of a backend: the cache of a token list, growing it, and cutting it
  back to a prefix.\<close>

locale kv_backend =
  fixes prefill :: "int list \<Rightarrow> 'v kvcache" and extend :: "'v kvcache \<Rightarrow> int list \<Rightarrow> 'v kvcache"
  assumes pre_tokens: "ts \<noteq> [] \<Longrightarrow> kv_token_ids (prefill ts) = Some ts"
    and pre_len: "ts \<noteq> [] \<Longrightarrow> seq_len (prefill ts) = length ts"
    and ext_pre: "ts \<noteq> [] \<Longrightarrow> extend (prefill ts) us = prefill (ts @ us)"
    and ext_slice: "ts \<noteq> [] \<Longrightarrow> us \<noteq> [] \<Longrightarrow> extend (slice_kv (prefill ts) n) us = prefill (take n ts @ us)"
    and slice_pre: "ts \<noteq> [] \<Longrightarrow> 0 < n \<Longrightarrow> slice_kv (prefill ts) n = prefill (take n ts)"

context causal_forward
begin

abbreviation "pre ts \<equiv> hf_prefill sp fwd ts 0"

abbreviation "cols ts \<equiv> fwd (empty_raw sp) ts (arange 0 (length ts))"

lemma cols_shaped: "ts \<noteq> [] \<Longrightarrow> shaped sp (length ts) (cols ts)"
  using fwd_shape [OF shaped_empty, of ts "arange 0 (length ts)"] by simp

lemma cols_app:
  assumes "ts \<noteq> []" "us \<noteq> []"
  shows "fwd (cols ts) us (arange (length ts) (length ts + length us)) = cols (ts @ us)"
  using fwd_split [OF shaped_empty assms, of "arange 0 (length ts)" "arange (length ts) (length ts + length us)"]
  by (simp add: arange_app)

lemma cols_take:
  assumes "ts \<noteq> []" "0 < n"
  shows "map (take_layer n) (cols ts) = cols (take n ts)"
proof (cases "n < length ts")
  case True
  then have ne: "take n ts \<noteq> []" "drop n ts \<noteq> []" using assms by auto
  have "cols ts = fwd (cols (take n ts)) (drop n ts) (arange n (length ts))"
    using cols_app [OF ne] True by simp
  then show ?thesis using fwd_keeps [OF cols_shaped [OF ne(1)] ne(2), of "arange n (length ts)"] True by simp
next
  case False
  then show ?thesis using shaped_take_all [OF cols_shaped [OF assms(1)], of n] by simp
qed

lemma pre_simps [simp]:
  "kv_layers (pre ts) = cols ts" "kv_positions (pre ts) = arange 0 (length ts)"
  "kv_token_ids (pre ts) = Some ts" "kv_spec (pre ts) = sp" "seq_len (pre ts) = length ts"
  by (simp_all add: hf_prefill_def seq_len_def Let_def)

lemma pre_eqI:
  "kv_layers c = cols ts \<Longrightarrow> kv_positions c = arange 0 (length ts) \<Longrightarrow> kv_token_ids c = Some ts \<Longrightarrow>
   kv_spec c = sp \<Longrightarrow> c = pre ts"
  by (simp add: hf_prefill_def Let_def)

lemma slice_simps [simp]:
  "kv_layers (slice_kv c n) = map (take_layer n) (kv_layers c)"
  "kv_positions (slice_kv c n) = take n (kv_positions c)"
  "kv_token_ids (slice_kv c n) = map_option (take n) (kv_token_ids c)" "kv_spec (slice_kv c n) = kv_spec c"
  by (simp_all add: slice_kv_def)

lemma take_arange0: "take n (arange 0 m) = arange 0 (min n m)"
  by (cases "n \<le> m") (simp_all add: take_arange min_def)

lemma slice_pre_pos:
  assumes "ts \<noteq> []" "0 < n" shows "slice_kv (pre ts) n = pre (take n ts)"
  by (rule pre_eqI) (use cols_take [OF assms] in \<open>simp_all add: take_arange0 min.commute\<close>)

lemma extend_pre: "ts \<noteq> [] \<Longrightarrow> hf_extend sp fwd (pre ts) us = pre (ts @ us)"
  by (cases "us = []")
    (auto simp: hf_extend_def Let_def cache_to_kvcache_def build_raw_cache_def tokens_or_empty_def cols_app
      intro!: pre_eqI)

lemma slice_zero: "ts \<noteq> [] \<Longrightarrow> kv_layers (slice_kv (pre ts) 0) = empty_raw sp"
  using shaped_take_zero [OF cols_shaped, of ts] by simp

lemma extend_slice:
  assumes "ts \<noteq> []" "us \<noteq> []"
  shows "hf_extend sp fwd (slice_kv (pre ts) n) us = pre (take n ts @ us)"
proof (cases "n = 0")
  case True
  have "seq_len (slice_kv (pre ts) 0) = 0" by (simp add: seq_len_def)
  then show ?thesis using True assms slice_zero [OF assms(1)]
    by (auto simp: hf_extend_def Let_def cache_to_kvcache_def build_raw_cache_def tokens_or_empty_def
        intro!: pre_eqI simp del: slice_simps(1))
next
  case False
  then show ?thesis using assms slice_pre_pos [OF assms(1), of n] extend_pre [of "take n ts" us] by simp
qed

lemma decode_loop_cols:
  assumes "ts \<noteq> []"
  shows "\<exists>gs. decode_loop fwd pick n (cols ts) x (length ts) = (gs, cols (ts @ gs)) \<and> length gs = n"
  using assms
proof (induction n arbitrary: ts x)
  case (Suc n)
  have "fwd (cols ts) [x] [int (length ts)] = cols (ts @ [x])"
    using cols_app [OF Suc(2), of "[x]"] by (simp add: arange_def)
  moreover obtain gs where "decode_loop fwd pick n (cols (ts @ [x])) (pick (cols ts) [x] [int (length ts)])
      (length (ts @ [x])) = (gs, cols ((ts @ [x]) @ gs))" "length gs = n"
    using Suc(1) [of "ts @ [x]"] by blast
  ultimately show ?case by (auto simp: Let_def)
qed simp

lemma generate_grows:
  assumes "ts \<noteq> []" "prompt \<noteq> []"
  shows "\<exists>gs. generate_and_extend sp fwd pick (pre ts) prompt n = (gs, pre (ts @ prompt @ gs)) \<and> length gs = n"
proof -
  have "fwd (cols ts) prompt (arange (length ts) (length ts + length prompt)) = cols (ts @ prompt)"
    by (rule cols_app [OF assms])
  moreover obtain gs where "decode_loop fwd pick n (cols (ts @ prompt))
      (pick (cols ts) prompt (arange (length ts) (length ts + length prompt)))
      (length (ts @ prompt)) = (gs, cols ((ts @ prompt) @ gs))" "length gs = n"
    using decode_loop_cols [of "ts @ prompt"] assms by blast
  ultimately show ?thesis
    by (intro exI [of _ gs])
      (auto simp: generate_and_extend_def Let_def build_raw_cache_def cache_to_kvcache_def tokens_or_empty_def
        add.assoc intro!: pre_eqI)
qed

end

sublocale causal_forward \<subseteq> hf: kv_backend "\<lambda>ts. hf_prefill sp fwd ts 0" "hf_extend sp fwd"
  by unfold_locales (simp_all add: extend_pre extend_slice slice_pre_pos)

section \<open>The toy backend meets the contracts\<close>

text \<open>The columns \<^verbatim>\<open>FakeBackend.prefill\<close> builds, appended to a past: the vectors depend on the token
  alone.\<close>

definition glue :: "'v layer_kv \<Rightarrow> 'v layer_kv \<Rightarrow> 'v layer_kv" where
  "glue p l = \<lparr>lkey = map2 (@) (lkey p) (lkey l), lval = map2 (@) (lval p) (lval l)\<rparr>"

definition fake_fwd :: "model_spec \<Rightarrow> 'v kv_vec \<Rightarrow> 'v forward" where
  "fake_fwd sp vec past toks ps = map2 glue past (fake_layers sp vec toks)"

lemma fake_layers_shaped: "shaped sp (length toks) (fake_layers sp vec toks)"
  by (auto simp: shaped_def fake_layers_def list_all_iff)

lemma list_all_map2_app:
  "list_all (\<lambda>h. length h = n) xs \<Longrightarrow> list_all (\<lambda>h. length h = m) ys \<Longrightarrow>
   list_all (\<lambda>h. length h = n + m) (map2 (@) xs ys)"
  by (induction xs ys rule: list_induct2') auto

lemma map2_take_app:
  "length xs = length ys \<Longrightarrow> list_all (\<lambda>h. length h = n) xs \<Longrightarrow> map (take n) (map2 (@) xs ys) = xs"
  by (induction xs ys rule: list_induct2) auto

lemma glue_shaped:
  assumes "shaped sp n p" "shaped sp m l" shows "shaped sp (n + m) (map2 glue p l)"
  using assms unfolding shaped_def
  by (auto simp: list_all_length glue_def)

lemma glue_keeps:
  assumes "shaped sp n p" "shaped sp m l" shows "map (take_layer n) (map2 glue p l) = p"
proof (rule nth_equalityI)
  fix i assume "i < length (map (take_layer n) (map2 glue p l))"
  then have i: "i < length p" "i < length l" by auto
  have s: "length (lkey (p ! i)) = length (lkey (l ! i))" "length (lval (p ! i)) = length (lval (l ! i))"
    "list_all (\<lambda>h. length h = n) (lkey (p ! i))" "list_all (\<lambda>h. length h = n) (lval (p ! i))"
    using assms i by (auto simp: shaped_def list_all_length)
  show "map (take_layer n) (map2 glue p l) ! i = p ! i"
    using i s by (simp add: glue_def take_layer_def map2_take_app del: map_map)
qed (use assms in \<open>simp add: shaped_def\<close>)

lemma fake_split: 
  assumes "shaped sp n p"
  shows "map2 glue p (fake_layers sp vec (ts @ us)) = map2 glue (map2 glue p (fake_layers sp vec ts)) (fake_layers sp vec us)"
  using assms
  by (auto simp: shaped_def fake_layers_def glue_def list_all_length intro!: nth_equalityI)

interpretation fake: causal_forward sp "fake_fwd sp vec" for sp vec
proof unfold_locales
  fix n past ts ps us qs assume s: "shaped sp n (past :: 'a raw_cache)"
  show "shaped sp (n + length ts) (fake_fwd sp vec past ts ps)" for ts ps
    unfolding fake_fwd_def by (rule glue_shaped [OF s fake_layers_shaped])
  show "map (take_layer n) (fake_fwd sp vec past ts ps) = past" for ts ps
    unfolding fake_fwd_def by (rule glue_keeps [OF s fake_layers_shaped])
  show "fake_fwd sp vec past (ts @ us) (ps @ qs) = fake_fwd sp vec (fake_fwd sp vec past ts ps) us qs" for ts us ps qs
    unfolding fake_fwd_def by (rule fake_split [OF s])
qed

lemma fake_cols: "fake_fwd sp vec (empty_raw sp) ts ps = fake_layers sp vec ts"
  by (auto simp: fake_fwd_def empty_raw_def fake_layers_def glue_def intro!: nth_equalityI)

lemma fake_prefill_hf: "fake_prefill sp vec ts off = hf_prefill sp (fake_fwd sp vec) ts off"
  by (simp add: fake_prefill_def hf_prefill_def fake_cols Let_def)

interpretation toy: kv_backend "\<lambda>ts. fake_prefill sp vec ts 0" "fake_extend sp vec" for sp vec
proof unfold_locales
  show "ts \<noteq> [] \<Longrightarrow> slice_kv (fake_prefill sp vec ts 0) n = fake_prefill sp vec (take n ts) 0" if "0 < n" for ts n
    using fake.slice_pre_pos [of ts n sp vec] that by (simp add: fake_prefill_hf)
qed (simp_all add: fake_prefill_hf fake_extend_def tokens_or_empty_def slice_kv_def)

text \<open>The subsampled query index list starts at the first token, ends at the last and stays in range.\<close>

lemma linspace_idx_bounds:
  assumes "i \<in> set (linspace_idx t n)" "0 < t" shows "i < t"
proof (cases "n = 1")
  case True then show ?thesis using assms by (simp add: linspace_idx_def)
next
  case False
  then obtain j where j: "j < n" "i = (j * (t - 1)) div (n - 1)" using assms by (auto simp: linspace_idx_def)
  have "j * (t - 1) \<le> (n - 1) * (t - 1)" using j(1) by (intro mult_le_mono1) simp
  then have "i \<le> ((n - 1) * (t - 1)) div (n - 1)" unfolding j(2) by (rule div_le_mono)
  also have "\<dots> \<le> t - 1" by simp
  finally show ?thesis using assms(2) by simp
qed

lemma linspace_idx_ends:
  "1 < n \<Longrightarrow> hd (linspace_idx t n) = 0" "1 < n \<Longrightarrow> last (linspace_idx t n) = t - 1"
proof -
  assume n: "1 < n"
  then show "hd (linspace_idx t n) = 0" by (simp add: linspace_idx_def hd_map)
  have "[0..<n] \<noteq> []" "last [0..<n] = n - 1" using n by auto
  then show "last (linspace_idx t n) = t - 1" using n by (simp add: linspace_idx_def last_map)
qed

end
