(* ===== verification/SegmentSession.thy ===== *)
theory SegmentSession imports SegmentPlan Backend "HOL-Library.List_Lexorder" "HOL-Library.Char_ord" begin

text \<open>
  \<^verbatim>\<open>dexa/segment/session.py\<close>, \<^verbatim>\<open>dexa/engine/torch_session.py\<close> and
  \<^verbatim>\<open>HFBackend.recompute_incremental\<close>: the live, mutable, versioned context, on the host (a portable
  cache recomputed incrementally) and on the device (a resident cache truncated and re-extended).
  Arrays are values, so the copies the code makes to avoid aliasing are identities. An operation
  returns its result or exception together with the session it leaves.
\<close>

section \<open>Incremental recompute on the host\<close>

record apply_stats =
  st_reused :: nat
  st_recomputed :: nat
  st_total :: nat
  st_fraction :: "rat option"

definition recompute_incremental :: "(byte list \<Rightarrow> string) \<Rightarrow> model_spec \<Rightarrow> 'v forward \<Rightarrow> 'v kvcache
    \<Rightarrow> ctx \<Rightarrow> ctx \<Rightarrow> ('v kvcache \<times> apply_stats) result" where
  "recompute_incremental H sp fwd prev_kv prev_ctx new_ctx =
     res_bind (plan_incremental H (Some prev_ctx) new_ctx ''exact'') (\<lambda>plan.
       let prefix = reused_exact_tokens plan; new_tokens = ctx_tokens new_ctx;
           base = slice_kv prev_kv prefix; tail = drop prefix new_tokens;
           kv = (if tail = [] then base else hf_extend sp fwd base tail) in
       Inr (kv, \<lparr>st_reused = prefix, st_recomputed = length tail, st_total = length new_tokens,
         st_fraction = Some (if new_tokens \<noteq> [] then rat_of_nat (length tail) / rat_of_nat (length new_tokens) else 0)\<rparr>))"

section \<open>The resident cache\<close>

record 'v dev =
  dv_cache :: "'v raw_cache option"
  dv_tokens :: "int list"

definition dev_n :: "'v dev \<Rightarrow> nat" where
  "dev_n d = length (dv_tokens d)"

definition dev_append :: "model_spec \<Rightarrow> 'v forward \<Rightarrow> int list \<Rightarrow> 'v dev \<Rightarrow> nat \<times> 'v dev" where
  "dev_append sp fwd toks d = (if toks = [] then (0, d) else
     let past = (case dv_cache d of None \<Rightarrow> empty_raw sp | Some c \<Rightarrow> c);
         ps = arange (dev_n d) (dev_n d + length toks) in
     (length toks, \<lparr>dv_cache = Some (fwd past toks ps), dv_tokens = dv_tokens d @ toks\<rparr>))"

definition dev_new :: "model_spec \<Rightarrow> 'v forward \<Rightarrow> int list \<Rightarrow> 'v dev" where
  "dev_new sp fwd toks = snd (dev_append sp fwd toks \<lparr>dv_cache = None, dv_tokens = []\<rparr>)"

definition dev_truncate :: "nat \<Rightarrow> 'v dev \<Rightarrow> 'v dev" where
  "dev_truncate n d = (case dv_cache d of
     None \<Rightarrow> d\<lparr>dv_tokens := take n (dv_tokens d)\<rparr>
   | Some c \<Rightarrow> if dev_n d \<le> n then d\<lparr>dv_tokens := take n (dv_tokens d)\<rparr>
       else \<lparr>dv_cache = Some (map (take_layer n) c), dv_tokens = take n (dv_tokens d)\<rparr>)"

definition dev_edit_suffix :: "model_spec \<Rightarrow> 'v forward \<Rightarrow> nat \<Rightarrow> int list \<Rightarrow> 'v dev \<Rightarrow> nat \<times> 'v dev" where
  "dev_edit_suffix sp fwd n tail d = dev_append sp fwd tail (dev_truncate n d)"

definition dev_apply :: "(byte list \<Rightarrow> string) \<Rightarrow> model_spec \<Rightarrow> 'v forward \<Rightarrow> ctx \<Rightarrow> ctx \<Rightarrow> 'v dev
    \<Rightarrow> (apply_stats \<times> 'v dev) result" where
  "dev_apply H sp fwd prev_ctx new_ctx d =
     res_bind (plan_incremental H (Some prev_ctx) new_ctx ''exact'') (\<lambda>plan.
       let prefix = reused_exact_tokens plan;
           (recomputed, d') = dev_edit_suffix sp fwd prefix (drop prefix (ctx_tokens new_ctx)) d in
       Inr (\<lparr>st_reused = prefix, st_recomputed = recomputed, st_total = ctx_n new_ctx, st_fraction = None\<rparr>, d'))"

text \<open>An operation on a missing cache (\<^verbatim>\<open>None\<close>) raises \<^verbatim>\<open>AttributeError\<close>.\<close>

definition dev_from_kvcache :: "'v kvcache option \<Rightarrow> 'v dev result" where
  "dev_from_kvcache kv = (case kv of None \<Rightarrow> Inl AttributeError
     | Some kv \<Rightarrow> Inr \<lparr>dv_cache = Some (build_raw_cache kv), dv_tokens = tokens_or_empty kv\<rparr>)"

definition dev_to_kvcache :: "model_spec \<Rightarrow> 'v dev \<Rightarrow> 'v kvcache result" where
  "dev_to_kvcache sp d = (case dv_cache d of
     None \<Rightarrow> if n_layers sp = 0 then Inr (cache_to_kvcache sp [] (arange 0 (dev_n d)) (dv_tokens d))
             else Inl AttributeError
   | Some c \<Rightarrow> Inr (cache_to_kvcache sp c (arange 0 (dev_n d)) (dv_tokens d)))"

section \<open>The session\<close>

record 'v session =
  ss_ctx :: ctx
  ss_on_device :: bool
  ss_dev :: "'v dev option"
  ss_kv :: "'v kvcache option"
  ss_versions :: "(string, ctx \<times> 'v kvcache option) dict"
  ss_mutations :: nat
  ss_recomputed :: nat
  ss_full :: nat

definition new_session :: "model_spec \<Rightarrow> 'v forward \<Rightarrow> ctx \<Rightarrow> bool \<Rightarrow> 'v session" where
  "new_session sp fwd segs on_device =
     \<lparr>ss_ctx = segs, ss_on_device = on_device,
      ss_dev = (if segs \<noteq> [] \<and> on_device then Some (dev_new sp fwd (ctx_tokens segs)) else None),
      ss_kv = (if segs \<noteq> [] \<and> \<not> on_device then Some (hf_prefill sp fwd (ctx_tokens segs) 0) else None),
      ss_versions = [], ss_mutations = 0, ss_recomputed = 0, ss_full = 0\<rparr>"

text \<open>The property \<^verbatim>\<open>kv\<close>, which materializes a resident cache once.\<close>

definition sess_kv :: "model_spec \<Rightarrow> 'v session \<Rightarrow> 'v kvcache option result \<times> 'v session" where
  "sess_kv sp s = (if ss_on_device s then
     (case (ss_kv s, ss_dev s) of
        (None, Some d) \<Rightarrow> (case dev_to_kvcache sp d of Inl e \<Rightarrow> (Inl e, s)
          | Inr kv \<Rightarrow> (Inr (Some kv), s\<lparr>ss_kv := Some kv\<rparr>))
      | _ \<Rightarrow> (Inr (ss_kv s), s))
   else (Inr (ss_kv s), s))"

datatype seg_ref = ByIndex int | ByName string

definition index_of :: "seg_ref \<Rightarrow> 'v session \<Rightarrow> int result" where
  "index_of r s = (case r of ByIndex i \<Rightarrow> Inr i
     | ByName nm \<Rightarrow> (case find (\<lambda>(i, g). seg_name g = nm) (zip [0..<length (ss_ctx s)] (ss_ctx s)) of
         None \<Rightarrow> Inl (KeyError nm) | Some (i, g) \<Rightarrow> Inr (int i)))"

text \<open>The element a Python index names in a list of length \<open>n\<close>.\<close>

definition py_index :: "nat \<Rightarrow> int \<Rightarrow> nat result" where
  "py_index n i = (if 0 \<le> i \<and> i < int n then Inr (nat i)
     else if - int n \<le> i \<and> i < 0 then Inr (nat (i + int n)) else Inl IndexError)"

definition finish_apply :: "ctx \<Rightarrow> apply_stats \<Rightarrow> 'v session \<Rightarrow> apply_stats result \<times> 'v session" where
  "finish_apply new_ctx st s = (Inr st, s\<lparr>ss_ctx := new_ctx,
     ss_kv := (if ss_on_device s then None else ss_kv s), ss_mutations := ss_mutations s + 1,
     ss_recomputed := ss_recomputed s + st_recomputed st, ss_full := ss_full s + ctx_n new_ctx\<rparr>)"

definition sess_apply :: "(byte list \<Rightarrow> string) \<Rightarrow> model_spec \<Rightarrow> 'v forward \<Rightarrow> ctx \<Rightarrow> 'v session
    \<Rightarrow> apply_stats result \<times> 'v session" where
  "sess_apply H sp fwd new_ctx s =
    (let cold = ss_dev s = None \<and> ss_kv s = None \<or> ss_ctx s = [];
         cold_stats = \<lparr>st_reused = 0, st_recomputed = ctx_n new_ctx, st_total = ctx_n new_ctx,
           st_fraction = None\<rparr> in
     if ss_on_device s then
       if cold then finish_apply new_ctx cold_stats (s\<lparr>ss_dev := Some (dev_new sp fwd (ctx_tokens new_ctx))\<rparr>)
       else (case ss_dev s of None \<Rightarrow> (Inl AttributeError, s) | Some d \<Rightarrow>
         (case dev_apply H sp fwd (ss_ctx s) new_ctx d of Inl e \<Rightarrow> (Inl e, s)
          | Inr (st, d') \<Rightarrow> finish_apply new_ctx st (s\<lparr>ss_dev := Some d'\<rparr>)))
     else
       if cold then finish_apply new_ctx cold_stats (s\<lparr>ss_kv := Some (hf_prefill sp fwd (ctx_tokens new_ctx) 0)\<rparr>)
       else (case ss_kv s of None \<Rightarrow> (Inl AttributeError, s) | Some kv \<Rightarrow>
         (case recompute_incremental H sp fwd kv (ss_ctx s) new_ctx of Inl e \<Rightarrow> (Inl e, s)
          | Inr (kv', st) \<Rightarrow> finish_apply new_ctx st (s\<lparr>ss_kv := Some kv'\<rparr>))))"

definition sess_append :: "(byte list \<Rightarrow> string) \<Rightarrow> model_spec \<Rightarrow> 'v forward \<Rightarrow> segment \<Rightarrow> 'v session
    \<Rightarrow> apply_stats result \<times> 'v session" where
  "sess_append H sp fwd seg s = sess_apply H sp fwd (ss_ctx s @ [seg]) s"

definition sess_edit :: "(byte list \<Rightarrow> string) \<Rightarrow> model_spec \<Rightarrow> 'v forward \<Rightarrow> seg_ref \<Rightarrow> segment \<Rightarrow> 'v session
    \<Rightarrow> apply_stats result \<times> 'v session" where
  "sess_edit H sp fwd r seg s =
     (case res_bind (index_of r s) (py_index (length (ss_ctx s))) of Inl e \<Rightarrow> (Inl e, s)
      | Inr i \<Rightarrow> sess_apply H sp fwd ((ss_ctx s)[i := seg]) s)"

definition sess_delete :: "(byte list \<Rightarrow> string) \<Rightarrow> model_spec \<Rightarrow> 'v forward \<Rightarrow> seg_ref \<Rightarrow> 'v session
    \<Rightarrow> apply_stats result \<times> 'v session" where
  "sess_delete H sp fwd r s =
     (case res_bind (index_of r s) (py_index (length (ss_ctx s))) of Inl e \<Rightarrow> (Inl e, s)
      | Inr i \<Rightarrow> sess_apply H sp fwd (take i (ss_ctx s) @ drop (Suc i) (ss_ctx s)) s)"

definition sess_commit :: "model_spec \<Rightarrow> string \<Rightarrow> 'v session \<Rightarrow> unit result \<times> 'v session" where
  "sess_commit sp label s = (case sess_kv sp s of (Inl e, s') \<Rightarrow> (Inl e, s')
     | (Inr kv, s') \<Rightarrow> (Inr (), s'\<lparr>ss_versions := AList.update label (ss_ctx s', kv) (ss_versions s')\<rparr>))"

definition sess_rollback :: "string \<Rightarrow> 'v session \<Rightarrow> unit result \<times> 'v session" where
  "sess_rollback label s = (case map_of (ss_versions s) label of
     None \<Rightarrow> (Inl (KeyError label), s)
   | Some (segs, kv) \<Rightarrow> let s1 = s\<lparr>ss_ctx := segs\<rparr> in
       if ss_on_device s then (case dev_from_kvcache kv of Inl e \<Rightarrow> (Inl e, s1)
         | Inr d \<Rightarrow> (Inr (), s1\<lparr>ss_dev := Some d, ss_kv := None\<rparr>))
       else (Inr (), s1\<lparr>ss_kv := kv\<rparr>))"

definition sess_versions :: "'v session \<Rightarrow> string list" where
  "sess_versions s = sort (map fst (ss_versions s))"

definition sess_branch :: "model_spec \<Rightarrow> 'v forward \<Rightarrow> 'v session \<Rightarrow> 'v session" where
  "sess_branch sp fwd s = (let child = (new_session sp fwd [] (ss_on_device s))\<lparr>ss_ctx := ss_ctx s\<rparr> in
     if ss_on_device s then child\<lparr>ss_dev := ss_dev s\<rparr> else child\<lparr>ss_kv := ss_kv s\<rparr>)"

record sess_diff =
  df_prefix :: nat
  df_self :: "string list"
  df_other :: "string list"

definition sess_diff_of :: "(byte list \<Rightarrow> string) \<Rightarrow> 'v session \<Rightarrow> 'v session \<Rightarrow> sess_diff result" where
  "sess_diff_of H a b = res_bind (common_prefix_len H (ss_ctx a) (ss_ctx b)) (\<lambda>n.
     Inr \<lparr>df_prefix = n, df_self = map seg_name (drop n (ss_ctx a)), df_other = map seg_name (drop n (ss_ctx b))\<rparr>)"

text \<open>What \<^verbatim>\<open>save\<close> hands to the store, and \<^verbatim>\<open>load\<close> of what the store returned.\<close>

definition sess_save :: "model_spec \<Rightarrow> 'v session \<Rightarrow> 'v kvcache result \<times> 'v session" where
  "sess_save sp s = (case sess_kv sp s of (Inl e, s') \<Rightarrow> (Inl e, s')
     | (Inr None, s') \<Rightarrow> (Inl (ValueError ''nothing to persist (empty session)''), s')
     | (Inr (Some kv), s') \<Rightarrow> (Inr kv, s'))"

definition sess_load :: "model_spec \<Rightarrow> 'v forward \<Rightarrow> 'v kvcache result \<Rightarrow> ctx \<Rightarrow> bool \<Rightarrow> 'v session result" where
  "sess_load sp fwd loaded segs on_device =
    (let s = (new_session sp fwd [] on_device)\<lparr>ss_ctx := segs\<rparr> in
     res_bind loaded (\<lambda>kv.
       if seq_len kv \<noteq> ctx_n segs then Inl (ValueError ''loaded KV length does not match the provided segmentation'')
       else if on_device then res_bind (dev_from_kvcache (Some kv)) (\<lambda>d. Inr (s\<lparr>ss_dev := Some d\<rparr>))
       else Inr (s\<lparr>ss_kv := Some kv\<rparr>)))"

section \<open>Runs\<close>

text \<open>A caller's sequence of operations on one session; \<open>OpBranch\<close> goes on with the child and \<open>OpRead\<close>
  reads \<^verbatim>\<open>kv\<close>. An operation that raises leaves the state it had reached.\<close>

datatype sess_op = OpAppend segment | OpEdit seg_ref segment | OpDelete seg_ref
  | OpCommit string | OpRollback string | OpBranch | OpRead

fun sess_step :: "(byte list \<Rightarrow> string) \<Rightarrow> model_spec \<Rightarrow> 'v forward \<Rightarrow> sess_op \<Rightarrow> 'v session \<Rightarrow> 'v session" where
  "sess_step H sp fwd (OpAppend g) s = snd (sess_append H sp fwd g s)"
| "sess_step H sp fwd (OpEdit r g) s = snd (sess_edit H sp fwd r g s)"
| "sess_step H sp fwd (OpDelete r) s = snd (sess_delete H sp fwd r s)"
| "sess_step H sp fwd (OpCommit l) s = snd (sess_commit sp l s)"
| "sess_step H sp fwd (OpRollback l) s = snd (sess_rollback l s)"
| "sess_step H sp fwd OpBranch s = sess_branch sp fwd s"
| "sess_step H sp fwd OpRead s = snd (sess_kv sp s)"

definition sess_run :: "(byte list \<Rightarrow> string) \<Rightarrow> model_spec \<Rightarrow> 'v forward \<Rightarrow> sess_op list \<Rightarrow> 'v session \<Rightarrow> 'v session" where
  "sess_run H sp fwd ops s = fold (sess_step H sp fwd) ops s"

fun op_segments :: "sess_op \<Rightarrow> segment set" where
  "op_segments (OpAppend g) = {g}"
| "op_segments (OpEdit r g) = {g}"
| "op_segments _ = {}"

section \<open>Exactness\<close>

context kv_backend
begin

lemma incremental_exact:
  assumes "old \<noteq> []" "new \<noteq> []" "take n old = take n new" "n \<le> length new"
  shows "(if drop n new = [] then slice_kv (prefill old) n else extend (slice_kv (prefill old) n) (drop n new))
    = prefill new"
proof (cases "drop n new = []")
  case True
  then have n: "n = length new" using assms(4) by simp
  then have "take n old = new" using assms(3) by simp
  then show ?thesis using True slice_pre [OF assms(1), of n] n assms(2) by simp
next
  case False
  show ?thesis using False ext_slice [OF assms(1) False, of n] assms(3) append_take_drop_id [of n new] by simp
qed

end

lemma reuse_prefix:
  assumes "plan_incremental H (Some old) new mode = Inr p" "no_collision H (set old \<union> set new)"
  shows "take (reused_exact_tokens p) (ctx_tokens old) = take (reused_exact_tokens p) (ctx_tokens new)
    \<and> reused_exact_tokens p \<le> ctx_n new"
proof -
  obtain n where n: "common_prefix_len H old new = Inr n" "reused_exact_tokens p = ctx_n (take n new)"
    using exact_prefix [OF assms(1)] by blast
  have m: "map seg_tokens (take n old) = map seg_tokens (take n new)"
    by (rule common_prefix_tokens [OF n(1) assms(2)])
  note c = ctx_n_cong [OF m]
  have o: "ctx_tokens old = ctx_tokens (take n old) @ ctx_tokens (drop n old)" for old
    by (metis append_take_drop_id ctx_tokens_simps(3))
  have l: "length (ctx_tokens (take n new)) = ctx_n (take n new)" by simp
  have "take (ctx_n (take n new)) (ctx_tokens x) = ctx_tokens (take n new)"
    if "ctx_tokens (take n x) = ctx_tokens (take n new)" for x
    by (subst o [of x]) (simp add: that l)
  moreover have "ctx_n new = ctx_n (take n new) + ctx_n (drop n new)"
    by (metis append_take_drop_id ctx_n_simps(3))
  ultimately show ?thesis using c n(2) by simp
qed

context causal_forward
begin

lemma recompute_incremental_exact:
  assumes r: "recompute_incremental H sp fwd (pre (ctx_tokens old)) old new = Inr (kv, st)"
    and nc: "no_collision H (set old \<union> set new)" and ne: "ctx_tokens old \<noteq> []" "ctx_tokens new \<noteq> []"
  shows "kv = pre (ctx_tokens new) \<and> st_recomputed st \<le> ctx_n new"
proof -
  obtain p where p: "plan_incremental H (Some old) new ''exact'' = Inr p"
    using r by (auto simp: recompute_incremental_def)
  note rp = reuse_prefix [OF p nc]
  show ?thesis using hf.incremental_exact [OF ne, of "reused_exact_tokens p"] rp r
    by (auto simp: recompute_incremental_def p Let_def)
qed

abbreviation "colsx ts \<equiv> (if ts = [] then empty_raw sp else cols ts)"

definition dev_holds :: "int list \<Rightarrow> 'v dev \<Rightarrow> bool" where
  "dev_holds ts d \<longleftrightarrow> dv_tokens d = ts \<and> (case dv_cache d of None \<Rightarrow> ts = [] | Some c \<Rightarrow> c = colsx ts)"

lemma cols_appx: "us \<noteq> [] \<Longrightarrow> fwd (colsx ts) us (arange (length ts) (length ts + length us)) = cols (ts @ us)"
  using cols_app by auto

lemma dev_append_holds:
  "dev_holds ts d \<Longrightarrow> dev_holds (ts @ us) (snd (dev_append sp fwd us d)) \<and> fst (dev_append sp fwd us d) = length us"
  using cols_appx [of us ts]
  by (auto simp: dev_append_def dev_holds_def dev_n_def Let_def split: option.splits)

lemma cols_takex: "ts \<noteq> [] \<Longrightarrow> map (take_layer n) (cols ts) = colsx (take n ts)"
  using cols_take [of ts n] shaped_take_zero [OF cols_shaped, of ts] by (cases "n = 0") auto

lemma dev_truncate_holds: "dev_holds ts d \<Longrightarrow> dev_holds (take n ts) (dev_truncate n d)"
  by (auto simp: dev_truncate_def dev_holds_def dev_n_def cols_takex split: option.splits)

lemma dev_new_holds: "dev_holds ts (dev_new sp fwd ts)"
  using dev_append_holds [of "[]" "\<lparr>dv_cache = None, dv_tokens = []\<rparr>" ts]
  by (simp add: dev_new_def dev_holds_def)

lemma dev_apply_exact:
  assumes r: "dev_apply H sp fwd old new d = Inr (st, d')" and d: "dev_holds (ctx_tokens old) d"
    and nc: "no_collision H (set old \<union> set new)"
  shows "dev_holds (ctx_tokens new) d' \<and> st_recomputed st \<le> ctx_n new"
proof -
  obtain p where p: "plan_incremental H (Some old) new ''exact'' = Inr p" using r by (auto simp: dev_apply_def)
  let ?n = "reused_exact_tokens p"
  note rp = reuse_prefix [OF p nc]
  have "dev_holds (take ?n (ctx_tokens new)) (dev_truncate ?n d)"
    using dev_truncate_holds [OF d, of ?n] rp by simp
  from dev_append_holds [OF this, of "drop ?n (ctx_tokens new)"] show ?thesis using r
    by (auto simp: dev_apply_def p dev_edit_suffix_def Let_def split: prod.splits)
qed

lemma dev_to_kvcache_pre: "dev_holds ts d \<Longrightarrow> ts \<noteq> [] \<Longrightarrow> dev_to_kvcache sp d = Inr (pre ts)"
  by (auto simp: dev_holds_def dev_to_kvcache_def cache_to_kvcache_def dev_n_def split: option.splits intro!: pre_eqI)

lemma dev_from_kvcache_holds: "ts \<noteq> [] \<Longrightarrow> \<exists>d. dev_from_kvcache (Some (pre ts)) = Inr d \<and> dev_holds ts d"
  by (simp add: dev_from_kvcache_def dev_holds_def build_raw_cache_def tokens_or_empty_def)

end

lemma recompute_bound: "recompute_incremental H sp fwd kv old new = Inr (kv', st) \<Longrightarrow> st_recomputed st \<le> ctx_n new"
  by (auto simp: recompute_incremental_def Let_def)

lemma ctx_tokens_ne: "set c \<subseteq> S \<Longrightarrow> \<forall>g\<in>S. seg_tokens g \<noteq> [] \<Longrightarrow> c \<noteq> [] \<Longrightarrow> ctx_tokens c \<noteq> []"
  by (cases c) auto

lemma finish_apply_simps [simp]:
  "ss_ctx (snd (finish_apply new st s)) = new" "ss_on_device (snd (finish_apply new st s)) = ss_on_device s"
  "ss_dev (snd (finish_apply new st s)) = ss_dev s"
  "ss_kv (snd (finish_apply new st s)) = (if ss_on_device s then None else ss_kv s)"
  "ss_versions (snd (finish_apply new st s)) = ss_versions s"
  "ss_recomputed (snd (finish_apply new st s)) = ss_recomputed s + st_recomputed st"
  "ss_full (snd (finish_apply new st s)) = ss_full s + ctx_n new"
  by (simp_all add: finish_apply_def)

context causal_forward
begin

definition sess_holds :: "int list \<Rightarrow> 'v session \<Rightarrow> bool" where
  "sess_holds ts s \<longleftrightarrow> (if ss_on_device s
     then (\<exists>d. ss_dev s = Some d \<and> dev_holds ts d) \<and> (ss_kv s = None \<or> ss_kv s = Some (pre ts))
     else ss_kv s = Some (pre ts))"

definition sess_inv :: "segment set \<Rightarrow> 'v session \<Rightarrow> bool" where
  "sess_inv S s \<longleftrightarrow> set (ss_ctx s) \<subseteq> S \<and> (ss_ctx s \<noteq> [] \<longrightarrow> sess_holds (ctx_tokens (ss_ctx s)) s) \<and>
     (\<forall>l segs kv. map_of (ss_versions s) l = Some (segs, kv) \<longrightarrow>
        set segs \<subseteq> S \<and> (segs \<noteq> [] \<longrightarrow> kv = Some (pre (ctx_tokens segs)))) \<and>
     ss_recomputed s \<le> ss_full s"

lemma sess_invD:
  assumes "sess_inv S s"
  shows "set (ss_ctx s) \<subseteq> S" "ss_ctx s \<noteq> [] \<Longrightarrow> sess_holds (ctx_tokens (ss_ctx s)) s"
    "map_of (ss_versions s) l = Some (segs, kv) \<Longrightarrow> set segs \<subseteq> S"
    "map_of (ss_versions s) l = Some (segs, kv) \<Longrightarrow> segs \<noteq> [] \<Longrightarrow> kv = Some (pre (ctx_tokens segs))"
    "ss_recomputed s \<le> ss_full s"
  using assms unfolding sess_inv_def by blast+

lemma finish_inv:
  assumes "sess_inv S s" "set new \<subseteq> S" "st_recomputed st \<le> ctx_n new" "ss_versions s' = ss_versions s"
    "ss_recomputed s' = ss_recomputed s" "ss_full s' = ss_full s"
    "new \<noteq> [] \<Longrightarrow> if ss_on_device s' then \<exists>d. ss_dev s' = Some d \<and> dev_holds (ctx_tokens new) d
      else ss_kv s' = Some (pre (ctx_tokens new))"
  shows "sess_inv S (snd (finish_apply new st s'))"
  using assms unfolding sess_inv_def sess_holds_def by auto

lemma sess_apply_inv:
  assumes inv: "sess_inv S s" and new: "set new \<subseteq> S" and nc: "no_collision H S"
    and ne: "\<forall>g\<in>S. seg_tokens g \<noteq> []"
  shows "sess_inv S (snd (sess_apply H sp fwd new s))"
proof (cases "ss_dev s = None \<and> ss_kv s = None \<or> ss_ctx s = []")
  case True
  then show ?thesis
    by (cases "ss_on_device s")
      (auto simp: sess_apply_def Let_def intro!: finish_inv [OF inv new] dev_new_holds)
next
  case False
  have c: "set (ss_ctx s) \<union> set new \<subseteq> S" using sess_invD(1) [OF inv] new by simp
  then have nc': "no_collision H (set (ss_ctx s) \<union> set new)"
    using nc unfolding no_collision_def by (meson subsetD)
  have h: "sess_holds (ctx_tokens (ss_ctx s)) s" using sess_invD(2) [OF inv] False by simp
  have t: "ctx_tokens (ss_ctx s) \<noteq> []" using ctx_tokens_ne [OF sess_invD(1) [OF inv] ne] False by simp
  show ?thesis
  proof (cases "ss_on_device s")
    case True
    then obtain d where d: "ss_dev s = Some d" "dev_holds (ctx_tokens (ss_ctx s)) d"
      using h by (auto simp: sess_holds_def)
    show ?thesis
    proof (cases "dev_apply H sp fwd (ss_ctx s) new d")
      case (Inr r)
      obtain st d' where r: "r = (st, d')" by (cases r)
      note e = dev_apply_exact [OF Inr [unfolded r] d(2) nc']
      show ?thesis using True False d(1) Inr r e
        by (auto simp: sess_apply_def intro!: finish_inv [OF inv new])
    qed (use True False d(1) inv in \<open>simp add: sess_apply_def\<close>)
  next
    case F: False
    then have kv: "ss_kv s = Some (pre (ctx_tokens (ss_ctx s)))" using h by (simp add: sess_holds_def)
    show ?thesis
    proof (cases "recompute_incremental H sp fwd (pre (ctx_tokens (ss_ctx s))) (ss_ctx s) new")
      case (Inr r)
      obtain kv' st where r: "r = (kv', st)" by (cases r)
      have "new \<noteq> [] \<Longrightarrow> kv' = pre (ctx_tokens new)"
        using recompute_incremental_exact [OF Inr [unfolded r] nc' t] ctx_tokens_ne [OF new ne] by blast
      then show ?thesis using F False kv Inr r recompute_bound [OF Inr [unfolded r]]
        by (auto simp: sess_apply_def intro!: finish_inv [OF inv new])
    qed (use F False kv inv in \<open>simp add: sess_apply_def\<close>)
  qed
qed

lemma sess_kv_holds:
  assumes "sess_holds ts s" "ts \<noteq> []"
  shows "fst (sess_kv sp s) = Inr (Some (pre ts)) \<and> sess_holds ts (snd (sess_kv sp s))"
  using assms dev_to_kvcache_pre
  by (auto simp: sess_kv_def sess_holds_def split: option.splits)

lemma sess_kv_frame:
  "ss_ctx (snd (sess_kv sp s)) = ss_ctx s" "ss_versions (snd (sess_kv sp s)) = ss_versions s"
  "ss_recomputed (snd (sess_kv sp s)) = ss_recomputed s" "ss_full (snd (sess_kv sp s)) = ss_full s"
  by (auto simp: sess_kv_def split: option.splits sum.splits)

lemma sess_kv_inv:
  assumes "sess_inv S s" "\<forall>g\<in>S. seg_tokens g \<noteq> []"
  shows "sess_inv S (snd (sess_kv sp s))"
  using assms(1) sess_kv_holds [of "ctx_tokens (ss_ctx s)" s] ctx_tokens_ne [OF sess_invD(1) [OF assms(1)] assms(2)]
  unfolding sess_inv_def sess_kv_frame by blast

end

context causal_forward
begin

lemma sess_commit_inv:
  assumes inv: "sess_inv S s" and ne: "\<forall>g\<in>S. seg_tokens g \<noteq> []"
  shows "sess_inv S (snd (sess_commit sp l s))"
proof (cases "sess_kv sp s")
  case (Pair r s')
  have s': "s' = snd (sess_kv sp s)" and i': "sess_inv S s'" using sess_kv_inv [OF inv ne] Pair by simp_all
  have c: "ss_ctx s' = ss_ctx s" using sess_kv_frame(1) [of s] s' by simp
  have k: "ss_ctx s \<noteq> [] \<Longrightarrow> r = Inr (Some (pre (ctx_tokens (ss_ctx s))))"
    using sess_kv_holds [OF sess_invD(2) [OF inv] ctx_tokens_ne [OF sess_invD(1) [OF inv] ne]] Pair by simp
  show ?thesis using i' k c
    by (cases r) (auto simp: sess_commit_def Pair sess_inv_def sess_holds_def)
qed

lemma sess_rollback_inv:
  assumes inv: "sess_inv S s" and ne: "\<forall>g\<in>S. seg_tokens g \<noteq> []"
  shows "sess_inv S (snd (sess_rollback l s))"
proof (cases "map_of (ss_versions s) l")
  case (Some v)
  obtain segs kv where v: "v = (segs, kv)" by (cases v)
  note d = sess_invD(3,4) [OF inv Some [unfolded v]]
  show ?thesis
  proof (cases "segs = []")
    case True
    then show ?thesis using inv
      by (auto simp: sess_rollback_def Some v sess_inv_def Let_def split: sum.splits)
  next
    case False
    have ts: "ctx_tokens segs \<noteq> []" by (rule ctx_tokens_ne [OF d(1) ne False])
    obtain dv where dv: "dev_from_kvcache (Some (pre (ctx_tokens segs))) = Inr dv" "dev_holds (ctx_tokens segs) dv"
      using dev_from_kvcache_holds [OF ts] by blast
    show ?thesis using inv d False dv
      by (auto simp: sess_rollback_def Some v sess_inv_def sess_holds_def Let_def)
  qed
qed (use inv in \<open>simp add: sess_rollback_def\<close>)

lemma sess_branch_inv: "sess_inv S s \<Longrightarrow> sess_inv S (sess_branch sp fwd s)"
  by (auto simp: sess_branch_def sess_inv_def sess_holds_def new_session_def Let_def)

lemma new_session_inv: "set segs \<subseteq> S \<Longrightarrow> sess_inv S (new_session sp fwd segs dev)"
  by (auto simp: sess_inv_def new_session_def sess_holds_def dev_new_holds)

lemma list_update_subset: "set xs \<subseteq> S \<Longrightarrow> x \<in> S \<Longrightarrow> set (xs[i := x]) \<subseteq> S"
  using set_update_subset_insert [of xs i x] by blast

lemma delete_subset: "set xs \<subseteq> S \<Longrightarrow> set (take i xs @ drop j xs) \<subseteq> S"
  by (auto dest: in_set_takeD in_set_dropD)

lemma sess_step_inv:
  assumes "sess_inv S s" "no_collision H S" "\<forall>g\<in>S. seg_tokens g \<noteq> []" "op_segments op \<subseteq> S"
  shows "sess_inv S (sess_step H sp fwd op s)"
proof -
  note a = sess_apply_inv [OF assms(1) _ assms(2,3)] and c = sess_invD(1) [OF assms(1)]
  show ?thesis
  proof (cases op)
    case (OpAppend g)
    then show ?thesis using a [of "ss_ctx s @ [g]"] c assms(4) by (simp add: sess_append_def)
  next
    case (OpEdit r g)
    then show ?thesis using a [OF list_update_subset [OF c]] assms(1,4)
      by (simp add: sess_edit_def split: sum.split)
  next
    case (OpDelete r)
    then show ?thesis using a [OF delete_subset [OF c]] assms(1)
      by (simp add: sess_delete_def split: sum.split)
  qed (use assms in \<open>simp_all add: sess_commit_inv sess_rollback_inv sess_branch_inv sess_kv_inv\<close>)
qed

lemma sess_run_inv:
  assumes "sess_inv S s" "no_collision H S" "\<forall>g\<in>S. seg_tokens g \<noteq> []" "\<forall>op\<in>set ops. op_segments op \<subseteq> S"
  shows "sess_inv S (sess_run H sp fwd ops s)"
  using assms(1,4) unfolding sess_run_def
  by (induction ops arbitrary: s) (simp_all add: sess_step_inv [OF _ assms(2,3)])

lemma run_exact:
  assumes "set init \<subseteq> S" "no_collision H S" "\<forall>g\<in>S. seg_tokens g \<noteq> []" "\<forall>op\<in>set ops. op_segments op \<subseteq> S"
    and s: "s = sess_run H sp fwd ops (new_session sp fwd init on_device)"
  shows "(ss_ctx s \<noteq> [] \<longrightarrow> fst (sess_kv sp s) = Inr (Some (pre (ctx_tokens (ss_ctx s))))) \<and>
    ss_recomputed s \<le> ss_full s"
proof -
  have inv: "sess_inv S s" unfolding s by (rule sess_run_inv [OF new_session_inv [OF assms(1)] assms(2-4)])
  show ?thesis using sess_kv_holds [OF sess_invD(2) [OF inv] ctx_tokens_ne [OF sess_invD(1) [OF inv] assms(3)]]
    sess_invD(5) [OF inv] by auto
qed

end

text \<open>C1. Exactness of the mutable session. Over a causal forward pass, whatever sequence of
  appends, edits, deletes, commits, rollbacks and branches an application makes, on the host path or
  with a device-resident cache, the key/value state the session exposes is the one a full prefill of
  its current tokens computes (so the two paths agree), and the tokens it recomputed never exceed
  what re-prefilling at every mutation would have cost. The content hash must tell the segments in
  use apart and segments must not be empty.\<close>

theorem session_kv_exact:
  assumes "causal_forward sp fwd" "no_collision H S" "\<forall>g\<in>S. seg_tokens g \<noteq> []"
    and "set init \<subseteq> S" "\<forall>op\<in>set ops. op_segments op \<subseteq> S"
    and "s = sess_run H sp fwd ops (new_session sp fwd init on_device)"
  shows "(ss_ctx s \<noteq> [] \<longrightarrow>
      fst (sess_kv sp s) = Inr (Some (hf_prefill sp fwd (ctx_tokens (ss_ctx s)) 0))) \<and>
    ss_recomputed s \<le> ss_full s"
  by (rule causal_forward.run_exact [OF assms(1,4,2,3,5,6)])

abbreviation "tiny_spec \<equiv> \<lparr>ms_name = ''tiny'', n_layers = Suc 0, n_q_heads = Suc 0, n_kv_heads = Suc 0, head_dim = Suc 0,
  hidden_size = Suc 0, ms_dtype = ''float32''\<rparr>"

abbreviation "tok_vec \<equiv> (\<lambda>t l h k. t) :: int kv_vec"

lemmas run_eval = sess_run_def new_session_def sess_append_def sess_edit_def sess_delete_def sess_commit_def
  sess_rollback_def sess_kv_def sess_apply_def dev_apply_def dev_edit_suffix_def dev_truncate_def dev_append_def
  dev_new_def dev_n_def dev_to_kvcache_def dev_from_kvcache_def cache_to_kvcache_def build_raw_cache_def
  tokens_or_empty_def index_of_def py_index_def plan_incremental_def tokens_with_def offsets_def item_def seg_n_def
  finish_apply_def demo_ids Let_def

theorem session_kv_exact_witness:
  "fst (sess_kv tiny_spec (sess_run demo_hash tiny_spec (fake_fwd tiny_spec tok_vec)
      [OpAppend (demo_seg ''q'' [5]), OpCommit ''v'', OpEdit (ByName ''d'') (demo_seg ''d'' [6, 7]), OpRollback ''v'',
       OpDelete (ByIndex 0)]
      (new_session tiny_spec (fake_fwd tiny_spec tok_vec) [demo_seg ''s'' [3], demo_seg ''d'' [4]] True))) =
   Inr (Some (hf_prefill tiny_spec (fake_fwd tiny_spec tok_vec) [4, 5] 0))"
proof -
  let ?S = "{demo_seg ''s'' [3], demo_seg ''d'' [4], demo_seg ''d'' [6, 7], demo_seg ''q'' [5]}"
  let ?ops = "[OpAppend (demo_seg ''q'' [5]), OpCommit ''v'', OpEdit (ByName ''d'') (demo_seg ''d'' [6, 7]),
    OpRollback ''v'', OpDelete (ByIndex 0)]"
  let ?f = "fake_fwd tiny_spec tok_vec"
  define s where "s = sess_run demo_hash tiny_spec ?f ?ops
    (new_session tiny_spec ?f [demo_seg ''s'' [3], demo_seg ''d'' [4]] True)"
  have nc: "no_collision demo_hash ?S" by (simp add: no_collision_def demo_ids)
  have c: "ss_ctx s = [demo_seg ''d'' [4], demo_seg ''q'' [5]]"
    by (simp add: s_def run_eval)
  show ?thesis
    using session_kv_exact [OF fake.causal_forward_axioms nc _ _ _ s_def] c by (simp add: s_def)
qed

section \<open>Reloading and empty versions\<close>

context causal_forward
begin

lemma load_inv:
  assumes "set segs \<subseteq> S" "segs \<noteq> []" "\<forall>g\<in>S. seg_tokens g \<noteq> []"
  shows "\<exists>s. sess_load sp fwd (Inr (pre (ctx_tokens segs))) segs on_device = Inr s \<and> ss_ctx s = segs \<and> sess_inv S s"
  using assms ctx_tokens_ne [OF assms(1,3,2)]
  by (auto simp: sess_load_def new_session_def sess_inv_def sess_holds_def dev_from_kvcache_def dev_holds_def
      build_raw_cache_def tokens_or_empty_def Let_def)

text \<open>A session reloaded with the tokens it was saved with goes on as if it had never been saved.\<close>

lemma save_load_exact:
  assumes inv: "sess_inv S s" and ne: "\<forall>g\<in>S. seg_tokens g \<noteq> []" "ss_ctx s \<noteq> []"
  shows "\<exists>t. sess_load sp fwd (fst (sess_save sp s)) (ss_ctx s) d = Inr t \<and> sess_inv S t \<and>
    fst (sess_kv sp t) = fst (sess_kv sp s)"
proof -
  note t = ctx_tokens_ne [OF sess_invD(1) [OF inv] ne]
  have k: "fst (sess_kv sp x) = Inr (Some (pre (ctx_tokens (ss_ctx s))))" if "sess_inv S x" "ss_ctx x = ss_ctx s" for x
    using sess_kv_holds [OF sess_invD(2) [OF that(1)]] that(2) t ne(2) by simp
  have "fst (sess_save sp s) = Inr (pre (ctx_tokens (ss_ctx s)))"
    using k [OF inv refl] by (auto simp: sess_save_def split: prod.splits)
  then show ?thesis using load_inv [OF sess_invD(1) [OF inv] ne(2,1), of d] k [OF inv refl] k by fastforce
qed

end

text \<open>\<^verbatim>\<open>load\<close> checks the length of the stored cache and nothing else, though its contract says
  that the tokens must match: a cache of the tokens 3, 4 is accepted for a segmentation that reads
  6, 7, and the next append keeps it, so the session then exposes a cache that no prefill of its own
  tokens computes.\<close>

theorem load_trusts_length:
  "let f = fake_fwd tiny_spec tok_vec; segs = [demo_seg ''d'' [6, 7]] in
   \<exists>s. sess_load tiny_spec f (Inr (hf_prefill tiny_spec f [3, 4] 0)) segs False = Inr s \<and>
     ss_ctx s = segs \<and>
     (let s' = snd (sess_append demo_hash tiny_spec f (demo_seg ''q'' [5]) s) in
       ctx_tokens (ss_ctx s') = [6, 7, 5] \<and>
       fst (sess_kv tiny_spec s') = Inr (Some (hf_prefill tiny_spec f [3, 4, 5] 0)) \<and>
       fst (sess_kv tiny_spec s') \<noteq> Inr (Some (hf_prefill tiny_spec f [6, 7, 5] 0)))"
  by (simp add: run_eval sess_load_def hf_prefill_def seq_len_def recompute_incremental_def slice_kv_def
      hf_extend_def arange_def fake_cols fake_layers_def take_layer_def fake_fwd_def glue_def empty_raw_def)

text \<open>Committing an empty session and rolling back to it works on the host and raises on the device.\<close>

lemma rollback_to_empty:
  "fst (sess_rollback ''v'' (snd (sess_commit sp ''v'' (new_session sp fwd [] True)))) = Inl AttributeError"
  "fst (sess_rollback ''v'' (snd (sess_commit sp ''v'' (new_session sp fwd [] False)))) = Inr ()"
  by (simp_all add: sess_rollback_def sess_commit_def sess_kv_def new_session_def dev_from_kvcache_def Let_def)

text \<open>A name that is not in the context, or an index outside it, changes nothing.\<close>

lemma edit_missing:
  "find (\<lambda>(i, g). seg_name g = nm) (zip [0..<length (ss_ctx s)] (ss_ctx s)) = None \<Longrightarrow>
   sess_edit H sp fwd (ByName nm) g s = (Inl (KeyError nm), s) \<and> sess_delete H sp fwd (ByName nm) s = (Inl (KeyError nm), s)"
  by (simp add: sess_edit_def sess_delete_def index_of_def)

lemma py_index_bound: "py_index n i = Inr k \<Longrightarrow> k < n \<and> (int k = i \<or> int k = i + int n)"
  by (auto simp: py_index_def split: if_splits)

end
