(* ===== verification/KVPersist.thy ===== *)
theory KVPersist imports SegmentSession begin

unbundle bit_operations_syntax

text \<open>
  \<^verbatim>\<open>dexa/session/state.py\<close>, \<^verbatim>\<open>blob.py\<close> and \<^verbatim>\<open>store.py\<close>: the portable session state. Floats
  are their bit patterns: a float32 is a \<^typ>\<open>32 word\<close>, a bfloat16 or float16 a \<^typ>\<open>16 word\<close>,
  and the bfloat16 rounding is the code's integer arithmetic on them. The casts to and from float16
  (numpy's) and the JSON text of a blob header are parameters. An \<^verbatim>\<open>.npz\<close> container is a record of
  the arrays put in it, with \<^verbatim>\<open>json.dumps\<close>/\<^verbatim>\<open>loads\<close> of the spec and the metadata as the
  identity; a blob is its bytes. The metadata of a cache is an arbitrary value. Session ids contain
  no path separator. The native codec (Rust) writes the same bytes and is not modelled.
\<close>

section \<open>Storage precision\<close>

definition lower_char :: "char \<Rightarrow> char" where
  "lower_char c = (if CHR ''A'' \<le> c \<and> c \<le> CHR ''Z'' then char_of (of_char c + (32 :: nat)) else c)"

datatype store_dtype = F32 | F16 | BF16

definition dtype_aliases :: "(string \<times> store_dtype) list" where
  "dtype_aliases = [(''float32'', F32), (''fp32'', F32), (''torch.float32'', F32),
     (''float16'', F16), (''fp16'', F16), (''half'', F16), (''torch.float16'', F16),
     (''bfloat16'', BF16), (''bf16'', BF16), (''torch.bfloat16'', BF16)]"

definition resolve_store_dtype :: "string \<Rightarrow> string \<Rightarrow> store_dtype result" where
  "resolve_store_dtype precision spec_dtype = (let tag = (if precision = ''auto'' then spec_dtype else precision) in
     case map_of dtype_aliases (map lower_char tag) of None \<Rightarrow> Inl (ValueError ''unknown storage precision'')
     | Some d \<Rightarrow> Inr d)"

type_synonym f32 = "32 word"

type_synonym f16 = "16 word"

definition f32_to_bf16_bits :: "f32 \<Rightarrow> f16" where
  "f32_to_bf16_bits u = (let bias = (drop_bit 16 u AND 1) + 0x7FFF in ucast (drop_bit 16 (u + bias)))"

definition bf16_bits_to_f32 :: "f16 \<Rightarrow> f32" where
  "bf16_bits_to_f32 w = push_bit 16 (ucast w)"

text \<open>numpy's float16 casts.\<close>

record casts =
  to_f16 :: "f32 \<Rightarrow> f16"
  of_f16 :: "f16 \<Rightarrow> f32"

type_synonym 'w arr = "'w list list list"

datatype enc_arr = E32 "f32 arr" | E16 "f16 arr"

definition map_arr :: "('a \<Rightarrow> 'b) \<Rightarrow> 'a arr \<Rightarrow> 'b arr" where
  "map_arr f a = map (map (map f)) a"

definition encode_arr :: "casts \<Rightarrow> store_dtype \<Rightarrow> f32 arr \<Rightarrow> enc_arr" where
  "encode_arr cs d a = (case d of F32 \<Rightarrow> E32 a | F16 \<Rightarrow> E16 (map_arr (to_f16 cs) a) | BF16 \<Rightarrow> E16 (map_arr f32_to_bf16_bits a))"

definition decode_arr :: "casts \<Rightarrow> store_dtype \<Rightarrow> enc_arr \<Rightarrow> f32 arr" where
  "decode_arr cs d e = (case e of E32 a \<Rightarrow> a
     | E16 a \<Rightarrow> (if d = BF16 then map_arr bf16_bits_to_f32 a else map_arr (of_f16 cs) a))"

section \<open>The npz form\<close>

type_synonym kv = "f32 list kvcache"

record 'm npz =
  z_keys :: "enc_arr list"
  z_values :: "enc_arr list"
  z_positions :: "int list"
  z_tokens :: "int list"
  z_spec :: model_spec
  z_meta :: 'm
  z_dtype :: "store_dtype option"

definition arr_shape :: "'w arr \<Rightarrow> nat \<times> nat \<times> nat" where
  "arr_shape a = (length a, case a of [] \<Rightarrow> 0 | h # _ \<Rightarrow> length h,
     case a of (v # _) # _ \<Rightarrow> length v | _ \<Rightarrow> 0)"

text \<open>\<^verbatim>\<open>np.stack\<close> takes at least one array and arrays of one shape.\<close>

definition same_shape :: "'w arr list \<Rightarrow> bool" where
  "same_shape as \<longleftrightarrow> length (remdups (map arr_shape as)) \<le> 1"

definition save_kvcache :: "casts \<Rightarrow> string \<Rightarrow> kv \<times> 'm \<Rightarrow> 'm npz result" where
  "save_kvcache cs precision x = (case x of (c, meta) \<Rightarrow>
     res_bind (resolve_store_dtype precision (ms_dtype (kv_spec c))) (\<lambda>d.
       if kv_layers c = [] then Inl (ValueError ''need at least one array to stack'') else
       if \<not> (same_shape (map lkey (kv_layers c)) \<and> same_shape (map lval (kv_layers c)))
       then Inl (ValueError ''all input arrays must have the same shape'') else
       Inr \<lparr>z_keys = map (\<lambda>l. encode_arr cs d (lkey l)) (kv_layers c), z_values = map (\<lambda>l. encode_arr cs d (lval l)) (kv_layers c),
         z_positions = kv_positions c, z_tokens = (case kv_token_ids c of None \<Rightarrow> [] | Some ts \<Rightarrow> ts),
         z_spec = kv_spec c, z_meta = meta, z_dtype = Some d\<rparr>))"

definition load_kvcache :: "casts \<Rightarrow> 'm npz \<Rightarrow> kv \<times> 'm" where
  "load_kvcache cs z = (let d = (case z_dtype z of Some d \<Rightarrow> d | None \<Rightarrow> F32) in
     (\<lparr>kv_spec = z_spec z,
       kv_layers = map2 (\<lambda>k v. \<lparr>lkey = decode_arr cs d k, lval = decode_arr cs d v\<rparr>) (z_keys z) (z_values z),
       kv_positions = z_positions z, kv_token_ids = (if z_tokens z = [] then None else Some (z_tokens z))\<rparr>, z_meta z))"

section \<open>The blob form\<close>

definition MAGIC :: "byte list" where
  "MAGIC = [0x44, 0x45, 0x58, 0x41, 0x4B, 0x56, 0x30, 0x31]"

definition align_up :: "nat \<Rightarrow> nat" where
  "align_up n = (64 - n mod 64) mod 64"

record 'm header =
  h_spec :: model_spec
  h_dtype :: store_dtype
  h_layers :: nat
  h_shape :: "nat \<times> nat \<times> nat"
  h_positions :: "int list"
  h_tokens :: "int list option"
  h_meta :: 'm

record 'm json =
  dumps :: "'m header \<Rightarrow> byte list"
  loads :: "byte list \<Rightarrow> 'm header result"

fun word_bytes :: "nat \<Rightarrow> 'w::len word \<Rightarrow> byte list" where
  "word_bytes 0 w = []"
| "word_bytes (Suc n) w = ucast w # word_bytes n (drop_bit 8 w)"

fun bytes_word :: "byte list \<Rightarrow> 'w::len word" where
  "bytes_word [] = 0"
| "bytes_word (b # bs) = ucast b OR push_bit 8 (bytes_word bs)"

definition enc_bytes :: "enc_arr \<Rightarrow> byte list" where
  "enc_bytes e = (case e of E32 a \<Rightarrow> concat (map (word_bytes 4) (concat (concat a)))
     | E16 a \<Rightarrow> concat (map (word_bytes 2) (concat (concat a))))"

definition blob_header :: "store_dtype \<Rightarrow> nat \<times> nat \<times> nat \<Rightarrow> kv \<times> 'm \<Rightarrow> 'm header" where
  "blob_header d sh x = (case x of (c, meta) \<Rightarrow>
     \<lparr>h_spec = kv_spec c, h_dtype = d, h_layers = length (kv_layers c), h_shape = sh,
      h_positions = kv_positions c, h_tokens = kv_token_ids c, h_meta = meta\<rparr>)"

definition save_blob :: "'m json \<Rightarrow> casts \<Rightarrow> string \<Rightarrow> kv \<times> 'm \<Rightarrow> byte list result" where
  "save_blob js cs precision x = (case x of (c, meta) \<Rightarrow>
     res_bind (resolve_store_dtype precision (ms_dtype (kv_spec c))) (\<lambda>d.
     case kv_layers c of [] \<Rightarrow> Inl IndexError | l0 # _ \<Rightarrow>
       (let hdr = dumps js (blob_header d (arr_shape (lkey l0)) x) in
        res_bind (len_bytes (length hdr)) (\<lambda>n. let front = MAGIC @ n @ hdr in
          Inr (front @ replicate (align_up (length front)) 0
            @ concat (map (\<lambda>l. enc_bytes (encode_arr cs d (lkey l))) (kv_layers c))
            @ concat (map (\<lambda>l. enc_bytes (encode_arr cs d (lval l))) (kv_layers c)))))))"

text \<open>Consecutive words of \<open>w\<close> bytes, and the C-order reshape of a flat array.\<close>

definition read_words :: "nat \<Rightarrow> nat \<Rightarrow> byte list \<Rightarrow> 'w::len word list" where
  "read_words w n bs = map (\<lambda>i. bytes_word (take w (drop (i * w) bs))) [0..<n]"

definition reshape :: "nat \<times> nat \<times> nat \<Rightarrow> 'w list \<Rightarrow> 'w arr" where
  "reshape sh xs = (case sh of (n, t, d) \<Rightarrow>
     map (\<lambda>h. map (\<lambda>i. take d (drop ((h * t + i) * d) xs)) [0..<t]) [0..<n])"

definition read_arr :: "store_dtype \<Rightarrow> nat \<times> nat \<times> nat \<Rightarrow> byte list \<Rightarrow> enc_arr" where
  "read_arr d sh bs = (case sh of (n, t, dd) \<Rightarrow>
     if d = F32 then E32 (reshape sh (read_words 4 (n * t * dd) bs)) else E16 (reshape sh (read_words 2 (n * t * dd) bs)))"

definition dtype_bytes :: "store_dtype \<Rightarrow> nat" where
  "dtype_bytes d = (case d of F32 \<Rightarrow> 4 | F16 \<Rightarrow> 2 | BF16 \<Rightarrow> 2)"

text \<open>The header and the arrays in their storage dtype: what \<^verbatim>\<open>keep_native=True\<close> hands back.\<close>

definition load_native :: "'m json \<Rightarrow> byte list \<Rightarrow> ('m header \<times> enc_arr list \<times> enc_arr list) result" where
  "load_native js file =
    (if take 8 file \<noteq> MAGIC then Inl (ValueError ''not a DEXAKV blob'') else
     let hdr_len = from_le (take 8 (drop 8 file)) in
     res_bind (loads js (take hdr_len (drop 16 file))) (\<lambda>h.
       let off = length (take (16 + hdr_len) file); payload = drop (off + align_up off) file;
           (n, t, d) = h_shape h; per_layer = n * t * d; w = dtype_bytes (h_dtype h);
           arr = (\<lambda>i. read_arr (h_dtype h) (h_shape h) (drop (i * per_layer * w) payload)) in
       if length payload < 2 * h_layers h * per_layer * w then Inl (ValueError ''truncated payload'')
       else Inr (h, map arr [0..<h_layers h], map arr [h_layers h..<2 * h_layers h])))"

definition load_blob :: "'m json \<Rightarrow> casts \<Rightarrow> byte list \<Rightarrow> (kv \<times> 'm) result" where
  "load_blob js cs file = res_bind (load_native js file) (\<lambda>(h, ks, vs).
     Inr (\<lparr>kv_spec = h_spec h, kv_layers = map2 (\<lambda>k v. \<lparr>lkey = decode_arr cs (h_dtype h) k, lval = decode_arr cs (h_dtype h) v\<rparr>) ks vs,
       kv_positions = h_positions h,
       kv_token_ids = (case h_tokens h of Some (t # ts) \<Rightarrow> Some (t # ts) | _ \<Rightarrow> None)\<rparr>, h_meta h))"

section \<open>The session store\<close>

datatype 'm stored_file = Npz "'m npz" | Blob "byte list"

datatype store_format = FNpz | FBlob

record 'm sstore =
  st_format :: store_format
  st_files :: "(string, 'm stored_file) dict"

definition suffix :: "store_format \<Rightarrow> string" where
  "suffix f = (case f of FNpz \<Rightarrow> ''.npz'' | FBlob \<Rightarrow> ''.dexakv'')"

definition new_sstore :: "string \<Rightarrow> 'm sstore result" where
  "new_sstore fmt = (if fmt = ''npz'' then Inr \<lparr>st_format = FNpz, st_files = []\<rparr>
     else if fmt = ''blob'' then Inr \<lparr>st_format = FBlob, st_files = []\<rparr>
     else Inl (ValueError ''unknown format''))"

text \<open>The savers append the suffix again to a path whose \<^verbatim>\<open>Path.suffix\<close> is not it, which happens for
  the empty id: a file named by a suffix alone has none.\<close>

definition save_name :: "store_format \<Rightarrow> string \<Rightarrow> string" where
  "save_name f sid = (if sid = [] then suffix f @ suffix f else sid @ suffix f)"

definition resolve_file :: "'m sstore \<Rightarrow> string \<Rightarrow> 'm stored_file option" where
  "resolve_file s sid = (case map_of (st_files s) (sid @ suffix (st_format s)) of Some f \<Rightarrow> Some f
     | None \<Rightarrow> (case map_of (st_files s) (sid @ suffix FNpz) of Some f \<Rightarrow> Some f
        | None \<Rightarrow> map_of (st_files s) (sid @ suffix FBlob)))"

definition store_save :: "'m json \<Rightarrow> casts \<Rightarrow> string \<Rightarrow> string \<Rightarrow> kv \<times> 'm \<Rightarrow> 'm sstore \<Rightarrow> 'm sstore result" where
  "store_save js cs precision sid x s = res_bind (case st_format s of
       FBlob \<Rightarrow> res_bind (save_blob js cs precision x) (\<lambda>b. Inr (Blob b))
     | FNpz \<Rightarrow> res_bind (save_kvcache cs precision x) (\<lambda>z. Inr (Npz z)))
     (\<lambda>f. Inr (s\<lparr>st_files := AList.update (save_name (st_format s) sid) f (st_files s)\<rparr>))"

definition store_load :: "'m json \<Rightarrow> casts \<Rightarrow> string \<Rightarrow> 'm sstore \<Rightarrow> (kv \<times> 'm) result" where
  "store_load js cs sid s = (case resolve_file s sid of
     None \<Rightarrow> Inl (FileNotFoundError sid)
   | Some (Npz z) \<Rightarrow> Inr (load_kvcache cs z)
   | Some (Blob b) \<Rightarrow> load_blob js cs b)"

definition store_has :: "'m sstore \<Rightarrow> string \<Rightarrow> bool" where
  "store_has s sid \<longleftrightarrow> resolve_file s sid \<noteq> None"

definition store_delete :: "string \<Rightarrow> 'm sstore \<Rightarrow> 'm sstore" where
  "store_delete sid s = s\<lparr>st_files := AList.delete (sid @ suffix FBlob) (AList.delete (sid @ suffix FNpz) (st_files s))\<rparr>"

definition ids_with :: "store_format \<Rightarrow> 'm sstore \<Rightarrow> string list" where
  "ids_with f s = map (\<lambda>n. take (length n - length (suffix f)) n)
     (filter (\<lambda>n. drop (length n - length (suffix f)) n = suffix f) (map fst (st_files s)))"

definition store_list_ids :: "'m sstore \<Rightarrow> string list" where
  "store_list_ids s = sort (remdups (ids_with FNpz s @ ids_with FBlob s))"

section \<open>The casts lose nothing they need not\<close>

lemma bf16_unat: assumes "unat u + 0x8000 < 2 ^ 32"
  shows "unat (f32_to_bf16_bits u) = (unat u + (unat u div 65536) mod 2 + 0x7FFF) div 65536"
proof -
  have d: "unat (drop_bit 16 v) = unat v div 65536" for v :: f32
    using unsigned_less [of v, where 'a = nat]
    by (simp only: unsigned_drop_bit_eq drop_bit_eq_div [where 'a = nat]) (simp add: take_bit_nat_eq_self)
  have b: "unat ((drop_bit 16 u AND 1) + 0x7FFF) = (unat u div 65536) mod 2 + 0x7FFF"
  proof -
    have "unat (drop_bit 16 u AND 1) = (unat u div 65536) mod 2"
      unfolding and_one_eq unat_mod_distrib d by simp
    then show ?thesis by (subst unat_add_lem [THEN iffD1]) simp_all
  qed
  have s: "unat (u + ((drop_bit 16 u AND 1) + 0x7FFF)) = unat u + ((unat u div 65536) mod 2 + 0x7FFF)"
    using assms by (subst unat_add_lem [THEN iffD1]) (simp_all add: b)
  have l: "(unat u + ((unat u div 65536) mod 2 + 0x7FFF)) div 65536 < 65536"
    using assms by (simp add: div_less_iff_less_mult)
  have "unat (f32_to_bf16_bits u) = take_bit 16 ((unat u + ((unat u div 65536) mod 2 + 0x7FFF)) div 65536)"
    unfolding f32_to_bf16_bits_def Let_def unsigned_ucast_eq d s by simp
  also have "\<dots> = (unat u + ((unat u div 65536) mod 2 + 0x7FFF)) div 65536"
    by (rule take_bit_nat_eq_self) (use l in simp)
  finally show ?thesis by (simp only: add.assoc)
qed

lemma bf16_nearest: assumes "unat u + 0x8000 < 2 ^ 32"
  shows "\<bar>int (unat (f32_to_bf16_bits u)) * 65536 - int (unat u)\<bar> \<le> 32768
    \<and> (\<bar>int (unat (f32_to_bf16_bits u)) * 65536 - int (unat u)\<bar> = 32768 \<longrightarrow> even (unat (f32_to_bf16_bits u)))"
proof -
  define q r where "q = unat u div 65536" and "r = unat u mod 65536"
  have u: "unat u = 65536 * q + r" "r < 65536" by (simp_all add: q_def r_def)
  have e: "unat (f32_to_bf16_bits u) = (65536 * q + r + q mod 2 + 32767) div 65536"
    by (simp only: u(1) [symmetric]) (simp only: q_def bf16_unat [OF assms])
  have "(65536 * q + r + q mod 2 + 32767) div 65536 = (if r + q mod 2 > 32768 then Suc q else q)"
    using u(2) by (auto intro!: div_nat_eqI)
  with e u show ?thesis by (auto simp: abs_le_iff)
qed

lemma bf16_exact: "f32_to_bf16_bits (bf16_bits_to_f32 w) = w"
proof -
  have m: "unat (bf16_bits_to_f32 w) = unat w * 65536"
    unfolding bf16_bits_to_f32_def push_bit_eq_mult unat_word_ariths unsigned_ucast_eq
    using unsigned_less [of w, where 'a = nat] by (simp add: take_bit_eq_mod)
  have "unat w < 65536" using unsigned_less [of w, where 'a = nat] by simp
  then have "unat (bf16_bits_to_f32 w) + 0x8000 < 2 ^ 32" using m by simp
  from bf16_unat [OF this] have "unat (f32_to_bf16_bits (bf16_bits_to_f32 w)) = unat w"
    by (auto simp: m intro!: div_nat_eqI)
  then show ?thesis by (simp add: word_unat_eq_iff)
qed

lemma bf16_nan_overflow: "f32_to_bf16_bits 0x7FFFFFFF = 0x8000 \<and> f32_to_bf16_bits 0xFFFFFFFF = 0"
  by (simp add: f32_to_bf16_bits_def drop_bit_eq_div)

text \<open>The values a storage dtype holds exactly.\<close>

definition native_word :: "casts \<Rightarrow> store_dtype \<Rightarrow> f32 \<Rightarrow> bool" where
  "native_word cs d u = (case d of F32 \<Rightarrow> True | F16 \<Rightarrow> of_f16 cs (to_f16 cs u) = u | BF16 \<Rightarrow> take_bit 16 u = 0)"

lemma bf16_native: assumes "take_bit 16 u = 0" shows "bf16_bits_to_f32 (f32_to_bf16_bits u) = u"
proof -
  have "u = bf16_bits_to_f32 (ucast (drop_bit 16 u))"
    using assms unfolding bf16_bits_to_f32_def
    by (auto simp: bit_eq_iff bit_simps)
  then show ?thesis by (metis bf16_exact)
qed

lemma map_arr_id: "(\<And>h v u. h \<in> set a \<Longrightarrow> v \<in> set h \<Longrightarrow> u \<in> set v \<Longrightarrow> f (g u) = u) \<Longrightarrow> map_arr f (map_arr g a) = a"
  by (auto simp: map_arr_def intro!: map_idI)

definition native_arr :: "casts \<Rightarrow> store_dtype \<Rightarrow> f32 arr \<Rightarrow> bool" where
  "native_arr cs d a \<longleftrightarrow> (\<forall>h\<in>set a. \<forall>v\<in>set h. \<forall>u\<in>set v. native_word cs d u)"

lemma decode_encode: "native_arr cs d a \<Longrightarrow> decode_arr cs d (encode_arr cs d a) = a"
  by (cases d) (auto simp: decode_arr_def encode_arr_def native_arr_def native_word_def bf16_native intro!: map_arr_id)

section \<open>Bytes\<close>

lemma length_word_bytes [simp]: "length (word_bytes n w) = n"
  by (induction n arbitrary: w) auto

lemma bytes_word_bytes: "bytes_word (word_bytes n w) = take_bit (8 * n) w"
proof (induction n arbitrary: w)
  case (Suc n)
  show ?case unfolding word_bytes.simps bytes_word.simps Suc
    by (auto simp: bit_eq_iff bit_simps) 
qed simp

lemma bytes_word_4 [simp]: "bytes_word (word_bytes 4 w) = (w :: 32 word)"
  by (simp add: bytes_word_bytes take_bit_word_eq_self)

lemma bytes_word_2 [simp]: "bytes_word (word_bytes 2 w) = (w :: 16 word)"
  by (simp add: bytes_word_bytes take_bit_word_eq_self)

lemma drop_concat_uniform: "(\<And>x. x \<in> set xss \<Longrightarrow> length x = d) \<Longrightarrow> drop (k * d) (concat xss) = concat (drop k xss)"
proof (induction k arbitrary: xss)
  case (Suc k) then show ?case by (cases xss) (auto simp: add.commute)
qed simp

lemma concat_nth_append:
  assumes "\<And>x. x \<in> set xss \<Longrightarrow> length x = d" "k < length xss"
  shows "drop (k * d) (concat xss @ r) = xss ! k @ concat (drop (Suc k) xss) @ r"
proof -
  have "length (concat xss) = length xss * d"
    using assms(1) by (induction xss) auto
  then have "k * d \<le> length (concat xss)" using assms(2) by simp
  then show ?thesis
    using assms by (simp add: drop_concat_uniform Cons_nth_drop_Suc [symmetric])
qed

lemma take_drop_uniform:
  assumes "\<And>x. x \<in> set xss \<Longrightarrow> length x = d" "k < length xss"
  shows "take d (drop (k * d) (concat xss @ r)) = xss ! k"
  by (subst concat_nth_append) (use assms in auto)

lemma concat_uniform_nth:
  assumes "\<And>x. x \<in> set xss \<Longrightarrow> length x = d" "k < length xss" "i < d"
  shows "concat xss ! (k * d + i) = xss ! k ! i"
proof -
  have "length (concat xss) = length xss * d" using assms(1) by (induction xss) auto
  then have "k * d \<le> length (concat xss)" using assms(2) by simp
  then have "concat xss ! (k * d + i) = drop (k * d) (concat xss @ []) ! i" by simp
  also have "\<dots> = xss ! k ! i"
    by (subst concat_nth_append [of xss d k]) (use assms in \<open>simp_all add: nth_append\<close>)
  finally show ?thesis .
qed

text \<open>Arrays of one shape, the ones numpy has.\<close>

definition regular :: "nat \<times> nat \<times> nat \<Rightarrow> 'w arr \<Rightarrow> bool" where
  "regular sh a \<longleftrightarrow> (case sh of (n, t, d) \<Rightarrow> length a = n \<and> (\<forall>h\<in>set a. length h = t \<and> (\<forall>v\<in>set h. length v = d)))"

lemma read_words_encoded:
  assumes "\<And>x. x \<in> set xs \<Longrightarrow> bytes_word (word_bytes w x) = x"
  shows "read_words w (length xs) (concat (map (word_bytes w) xs) @ r) = xs"
proof (rule nth_equalityI)
  fix i assume "i < length (read_words w (length xs) (concat (map (word_bytes w) xs) @ r))"
  then have i: "i < length xs" by (simp add: read_words_def)
  have "take w (drop (i * w) (concat (map (word_bytes w) xs) @ r)) = word_bytes w (xs ! i)"
    by (subst take_drop_uniform [of "map (word_bytes w) xs" w i r]) (use i in auto)
  then show "read_words w (length xs) (concat (map (word_bytes w) xs) @ r) ! i = xs ! i"
    using i assms by (simp add: read_words_def)
qed (simp add: read_words_def)

lemma reshape_concat: assumes "regular (n, t, d) a" shows "reshape (n, t, d) (concat (concat a)) = a"
proof -
  have r: "length a = n" "\<And>h. h \<in> set a \<Longrightarrow> length h = t" "\<And>v. v \<in> set (concat a) \<Longrightarrow> length v = d"
    using assms by (auto simp: regular_def)
  have l: "length (concat a) = n * t" using r(1,2) by (induction a arbitrary: n) auto
  have row: "take d (drop ((h * t + i) * d) (concat (concat a))) = a ! h ! i" if "h < n" "i < t" for h i
  proof -
    have "h * t + i < Suc h * t" using that by simp
    also have "\<dots> \<le> n * t" using that by (intro mult_le_mono1) simp
    finally have "h * t + i < n * t" .
    then show ?thesis using take_drop_uniform [of "concat a" d "h * t + i" "[]"] r l concat_uniform_nth [of a t h i] that by simp
  qed
  show ?thesis
    by (rule nth_equalityI) (auto simp: reshape_def r row intro!: nth_equalityI)
qed

lemma length_concat_arr: "regular (n, t, d) a \<Longrightarrow> length (concat (concat a)) = n * t * d"
proof -
  assume "regular (n, t, d) a"
  then have r: "length a = n" "\<And>h. h \<in> set a \<Longrightarrow> length h = t" "\<And>v. v \<in> set (concat a) \<Longrightarrow> length v = d"
    by (auto simp: regular_def)
  have l: "length (concat a) = n * t" using r(1,2) by (induction a arbitrary: n) auto
  have "length (concat xss) = length xss * d" if "\<And>x. x \<in> set xss \<Longrightarrow> length x = d" for xss :: "'a list list"
    using that by (induction xss) auto
  from this [of "concat a"] r(3) l show ?thesis by simp
qed

lemma regular_map_arr [simp]: "regular sh (map_arr f a) = regular sh a"
  by (auto simp: regular_def map_arr_def split: prod.splits)

lemma flat_map_arr: "concat (concat (map_arr f a)) = map f (concat (concat a))"
  by (simp add: map_arr_def map_concat comp_def)

lemma length_word_list: "length (concat (map (word_bytes w) xs)) = length xs * w"
  by (induction xs) auto

lemma enc_bytes_length: "regular (n, t, dd) a \<Longrightarrow> length (enc_bytes (encode_arr cs d a)) = n * t * dd * dtype_bytes d"
  using length_concat_arr [of n t dd a]
  by (cases d) (simp_all add: encode_arr_def enc_bytes_def dtype_bytes_def length_word_list flat_map_arr del: map_map)

lemma read_encoded: assumes "regular sh a" shows "read_arr d sh (enc_bytes (encode_arr cs d a) @ r) = encode_arr cs d a"
proof -
  obtain n t dd where sh: "sh = (n, t, dd)" by (cases sh) auto
  have l: "length (concat (concat a)) = n * t * dd" using assms length_concat_arr sh by blast
  have r4: "read_words 4 (n * t * dd) (concat (map (word_bytes 4) (concat (concat a))) @ r) = concat (concat a)"
    using read_words_encoded [of "concat (concat a)" 4 r] l by simp
  have r2: "read_words 2 (n * t * dd) (concat (map (word_bytes 2) (map f (concat (concat a)))) @ r)
      = map f (concat (concat a))" for f :: "f32 \<Rightarrow> f16"
    using read_words_encoded [of "map f (concat (concat a))" 2 r] l by simp
  have rs: "reshape (n, t, dd) (map f (concat (concat a))) = map_arr f a" for f :: "f32 \<Rightarrow> f16"
    using reshape_concat [of n t dd "map_arr f a"] assms sh by (simp add: flat_map_arr)
  note reshape_concat [of n t dd a] r4 r2 rs assms
  then show ?thesis
    by (cases d) (simp_all add: sh read_arr_def encode_arr_def enc_bytes_def flat_map_arr)
qed

definition shaped_kv :: "nat \<times> nat \<times> nat \<Rightarrow> kv \<Rightarrow> bool" where
  "shaped_kv sh c \<longleftrightarrow> 0 < fst sh \<and> 0 < fst (snd sh) \<and> kv_layers c \<noteq> []
     \<and> (\<forall>l\<in>set (kv_layers c). regular sh (lkey l) \<and> regular sh (lval l))"

definition native_kv :: "casts \<Rightarrow> store_dtype \<Rightarrow> kv \<Rightarrow> bool" where
  "native_kv cs d c \<longleftrightarrow> (\<forall>l\<in>set (kv_layers c). native_arr cs d (lkey l) \<and> native_arr cs d (lval l))"

lemma regular_shape: "regular sh a \<Longrightarrow> 0 < fst sh \<Longrightarrow> 0 < fst (snd sh) \<Longrightarrow> arr_shape a = sh"
  by (cases a) (auto simp: regular_def arr_shape_def split: list.splits)

definition norm_tokens :: "kv \<Rightarrow> kv" where
  "norm_tokens c = c\<lparr>kv_token_ids := (case kv_token_ids c of Some (t # ts) \<Rightarrow> Some (t # ts) | _ \<Rightarrow> None)\<rparr>"

lemma decoded_layers:
  "native_kv cs d c \<Longrightarrow> map2 (\<lambda>k v. \<lparr>lkey = decode_arr cs d k, lval = decode_arr cs d v\<rparr>)
    (map (\<lambda>l. encode_arr cs d (lkey l)) (kv_layers c)) (map (\<lambda>l. encode_arr cs d (lval l)) (kv_layers c)) = kv_layers c"
  unfolding native_kv_def zip_map_map by (auto simp: zip_same_conv_map decode_encode intro!: map_idI)

lemma npz_roundtrip:
  assumes "shaped_kv sh c" "resolve_store_dtype precision (ms_dtype (kv_spec c)) = Inr d" "native_kv cs d c"
  shows "\<exists>z. save_kvcache cs precision (c, m) = Inr z \<and> load_kvcache cs z = (norm_tokens c, m)"
proof -
  have one: "same_shape (map f (kv_layers c))" if "\<And>l. l \<in> set (kv_layers c) \<Longrightarrow> arr_shape (f l) = sh" for f :: "f32 list layer_kv \<Rightarrow> f32 arr"
  proof -
    have "set (map arr_shape (map f (kv_layers c))) \<subseteq> {sh}" using that by auto
    then have "card (set (map arr_shape (map f (kv_layers c)))) \<le> card {sh}" by (rule card_mono [rotated]) simp
    then show ?thesis by (simp add: same_shape_def length_remdups_card_conv)
  qed
  have "same_shape (map lkey (kv_layers c))" "same_shape (map lval (kv_layers c))"
    using assms(1) by (auto intro!: one regular_shape simp: shaped_kv_def)
  moreover have "kv_layers c \<noteq> []" using assms(1) by (simp add: shaped_kv_def)
  ultimately show ?thesis using decoded_layers [OF assms(3)] assms(2)
    by (cases "kv_token_ids c") (auto simp: save_kvcache_def load_kvcache_def norm_tokens_def split: list.splits)
qed

text \<open>The payload is a sequence of equally long chunks, one per layer.\<close>

lemma read_chunk:
  assumes "\<And>a. a \<in> set as \<Longrightarrow> regular (n, t, dd) a" "i < length as"
  shows "read_arr d (n, t, dd) (drop (i * (n * t * dd) * dtype_bytes d) (concat (map (\<lambda>a. enc_bytes (encode_arr cs d a)) as) @ r))
    = encode_arr cs d (as ! i)"
proof -
  let ?b = "\<lambda>a. enc_bytes (encode_arr cs d a)"
  have u: "length x = n * t * dd * dtype_bytes d" if "x \<in> set (map ?b as)" for x
    using that assms(1) enc_bytes_length by auto
  have "drop (i * (n * t * dd * dtype_bytes d)) (concat (map ?b as) @ r)
      = map ?b as ! i @ concat (drop (Suc i) (map ?b as)) @ r"
    by (rule concat_nth_append [OF u]) (use assms(2) in auto)
  then have e: "drop (i * (n * t * dd) * dtype_bytes d) (concat (map ?b as) @ r)
      = ?b (as ! i) @ concat (drop (Suc i) (map ?b as)) @ r"
    using assms(2) by (simp add: mult.assoc)
  show ?thesis unfolding e by (rule read_encoded) (use assms in simp)
qed

lemma payload_length:
  assumes "\<And>a. a \<in> set as \<Longrightarrow> regular (n, t, dd) a"
  shows "length (concat (map (\<lambda>a. enc_bytes (encode_arr cs d a)) as)) = length as * (n * t * dd) * dtype_bytes d"
  using assms
proof (induction as)
  case (Cons a as)
  have "length (enc_bytes (encode_arr cs d a)) = n * t * dd * dtype_bytes d" by (rule enc_bytes_length) (use Cons in auto)
  then show ?case using Cons by (auto simp: algebra_simps)
qed simp

lemma native_roundtrip:
  assumes s: "shaped_kv sh c" "resolve_store_dtype precision (ms_dtype (kv_spec c)) = Inr d"
    and js: "loads js (dumps js (blob_header d sh (c, m))) = Inr (blob_header d sh (c, m))"
    and b: "save_blob js cs precision (c, m) = Inr file"
  shows "load_native js file = Inr (blob_header d sh (c, m),
    map (\<lambda>l. encode_arr cs d (lkey l)) (kv_layers c), map (\<lambda>l. encode_arr cs d (lval l)) (kv_layers c))"
proof -
  obtain n t dd where sh: "sh = (n, t, dd)" by (cases sh) auto
  obtain l0 ls where L: "kv_layers c = l0 # ls" using s(1) by (cases "kv_layers c") (auto simp: shaped_kv_def)
  have reg: "\<And>l. l \<in> set (kv_layers c) \<Longrightarrow> regular (n, t, dd) (lkey l) \<and> regular (n, t, dd) (lval l)"
    using s(1) sh by (auto simp: shaped_kv_def)
  have a: "arr_shape (lkey l0) = sh" using s(1) L by (auto simp: shaped_kv_def intro!: regular_shape)
  let ?h = "blob_header d sh (c, m)"
  let ?as = "map lkey (kv_layers c) @ map lval (kv_layers c)"
  let ?pay = "concat (map (\<lambda>a. enc_bytes (encode_arr cs d a)) ?as)"
  define hdr where "hdr = dumps js ?h"
  obtain nb where nb: "len_bytes (length hdr) = Inr nb" and f: "file = (let front = MAGIC @ nb @ hdr in
      front @ replicate (align_up (length front)) 0 @ ?pay)"
    using b s(2) a L by (auto simp: save_blob_def hdr_def Let_def comp_def)
  have lnb: "length nb = 8" "from_le nb = length hdr" using nb
    by (auto simp: len_bytes_def from_le_bytes split: if_splits)
  have lm: "length MAGIC = 8" by (simp add: MAGIC_def)
  have t8: "take 8 file = MAGIC" "take 8 (drop 8 file) = nb" "take (length hdr) (drop 16 file) = hdr"
    "length (take (16 + length hdr) file) = 16 + length hdr"
    by (simp_all add: f Let_def lm lnb)
  have p: "drop (16 + length hdr + align_up (16 + length hdr)) file = ?pay"
    by (simp add: f Let_def lm lnb ac_simps)
  have reg': "\<And>x. x \<in> set ?as \<Longrightarrow> regular (n, t, dd) x" using reg by auto
  have len: "length ?pay = 2 * length (kv_layers c) * (n * t * dd) * dtype_bytes d"
    using payload_length [of ?as, OF reg'] by simp
  have ch: "read_arr d (n, t, dd) (drop (i * (n * t * dd) * dtype_bytes d) ?pay) = encode_arr cs d (?as ! i)"
    if "i < 2 * length (kv_layers c)" for i
    using read_chunk [of ?as n t dd i d cs "[]", OF reg'] that by (simp del: map_append concat_append)
  have ks: "map (\<lambda>i. read_arr d (n, t, dd) (drop (i * (n * t * dd) * dtype_bytes d) ?pay)) [0..<length (kv_layers c)]
      = map (\<lambda>l. encode_arr cs d (lkey l)) (kv_layers c)"
    by (rule nth_equalityI) (auto simp: ch nth_append simp del: map_append concat_append)
  have vs: "map (\<lambda>i. read_arr d (n, t, dd) (drop (i * (n * t * dd) * dtype_bytes d) ?pay)) [length (kv_layers c)..<2 * length (kv_layers c)]
      = map (\<lambda>l. encode_arr cs d (lval l)) (kv_layers c)"
    by (rule nth_equalityI) (auto simp: ch nth_append simp del: map_append concat_append)
  have ld: "loads js hdr = Inr ?h" using js by (simp add: hdr_def)
  have h: "h_dtype ?h = d" "h_layers ?h = length (kv_layers c)" "h_shape ?h = (n, t, dd)"
    by (simp_all add: blob_header_def sh)
  show ?thesis unfolding load_native_def Let_def t8 lnb(2) ld res_bind.simps p
    by (simp add: ks vs len h del: map_append concat_append)
qed

lemma blob_roundtrip:
  assumes "shaped_kv sh c" "resolve_store_dtype precision (ms_dtype (kv_spec c)) = Inr d" "native_kv cs d c"
    and "loads js (dumps js (blob_header d sh (c, m))) = Inr (blob_header d sh (c, m))"
    and "save_blob js cs precision (c, m) = Inr file"
  shows "load_blob js cs file = Inr (norm_tokens c, m)"
  unfolding load_blob_def native_roundtrip [OF assms(1,2,4,5)]
  using decoded_layers [OF assms(3)] by (simp add: blob_header_def norm_tokens_def)

lemma suffix_neq: "x @ suffix FNpz \<noteq> y @ suffix FBlob"
proof
  assume "x @ suffix FNpz = y @ suffix FBlob"
  then have "last (x @ suffix FNpz) = last (y @ suffix FBlob)" by simp
  then show False by (simp add: suffix_def)
qed

lemma suffix_inj: "x @ suffix f = y @ suffix g \<longleftrightarrow> x = y \<and> f = g"
  by (cases f; cases g) (auto simp: suffix_neq suffix_neq [symmetric])

lemma resolve_saved:
  "sid \<noteq> [] \<Longrightarrow> resolve_file (s\<lparr>st_files := AList.update (save_name (st_format s) sid) f (st_files s)\<rparr>) sid' =
     (if sid' = sid then Some f else resolve_file s sid')"
  by (auto simp: resolve_file_def save_name_def suffix_inj split: option.splits)


abbreviation demo_spec :: "string \<Rightarrow> model_spec" where
  "demo_spec dt \<equiv> \<lparr>ms_name = ''m'', n_layers = 1, n_q_heads = 1, n_kv_heads = 1, head_dim = 2, hidden_size = 2, ms_dtype = dt\<rparr>"

abbreviation demo_kv :: kv where
  "demo_kv \<equiv> \<lparr>kv_spec = demo_spec ''BF16'', kv_layers = [\<lparr>lkey = [[[0x3F800000, 0xC0490000]]], lval = [[[0, 0x80000000]]]\<rparr>],
     kv_positions = [0], kv_token_ids = Some [7]\<rparr>"

abbreviation demo_json :: "nat json" where
  "demo_json \<equiv> \<lparr>dumps = (\<lambda>h. [0x7B, 0x7D]), loads = (\<lambda>b. Inr (blob_header BF16 (1, 1, 2) (demo_kv, 5)))\<rparr>"

abbreviation demo_casts :: casts where
  "demo_casts \<equiv> \<lparr>to_f16 = (\<lambda>u. 0), of_f16 = (\<lambda>w. 0)\<rparr>"

lemma demo_dtype: "resolve_store_dtype ''auto'' ''BF16'' = Inr BF16"
  by code_simp

lemma demo_saved: "\<exists>s'. store_save demo_json demo_casts ''auto'' ''a'' (demo_kv, 5) \<lparr>st_format = FBlob, st_files = []\<rparr> = Inr s'"
  by (simp add: store_save_def save_blob_def demo_dtype len_bytes_def Let_def)


text \<open>C30. For a finite float32 the stored bfloat16 is the nearest one (on the bit patterns, which order the
  floats of one sign), an exact half-way case goes to the even neighbour, and the sign bit is kept; the
  not-a-number pattern \<open>0x7FFFFFFF\<close> instead overflows into the sign and comes back as minus zero.\<close>

theorem bf16_rounding:
  assumes "take_bit 8 (unat (u :: f32) div 2 ^ 23) \<noteq> 0xFF"
  shows "(\<forall>w. \<bar>int (unat (f32_to_bf16_bits u)) * 65536 - int (unat u)\<bar> \<le> \<bar>int (unat (w :: f16)) * 65536 - int (unat u)\<bar>)
    \<and> (\<bar>int (unat (f32_to_bf16_bits u)) * 65536 - int (unat u)\<bar> = 32768 \<longrightarrow> even (unat (f32_to_bf16_bits u)))
    \<and> unat (f32_to_bf16_bits u) div 2 ^ 15 = unat u div 2 ^ 31
    \<and> f32_to_bf16_bits 0x7FFFFFFF = 0x8000"
proof -
  define n where "n = unat u"
  have n: "n < 2 ^ 32" using unsigned_less [of u, where 'a = nat] by (simp add: n_def)
  have f: "n div 2 ^ 23 mod 256 \<noteq> 255" using assms by (simp add: take_bit_eq_mod n_def)
  have "n div 2 ^ 23 < 512" using n by (simp add: div_less_iff_less_mult)
  moreover have "q < 255 \<or> 256 \<le> q \<and> q < 511" if "q < 512" "q mod 256 \<noteq> 255" for q :: nat
    using that by (cases "q < 256") (auto simp: le_mod_geq)
  ultimately have "n div 2 ^ 23 < 255 \<or> 256 \<le> n div 2 ^ 23 \<and> n div 2 ^ 23 < 511" using f by blast
  then have lo: "n < 0x7F800000 \<or> 0x80000000 \<le> n \<and> n < 0xFF800000"
    by (auto simp: div_less_iff_less_mult less_eq_div_iff_mult_less_eq)
  then have b: "unat u + 0x8000 < 2 ^ 32" by (auto simp: n_def)
  define r where "r = unat (f32_to_bf16_bits u)"
  have near: "\<bar>int r * 65536 - int n\<bar> \<le> 32768" "\<bar>int r * 65536 - int n\<bar> = 32768 \<longrightarrow> even r"
    using bf16_nearest [OF b] by (simp_all add: r_def n_def)
  have "\<bar>int r * 65536 - int n\<bar> \<le> \<bar>int k * 65536 - int n\<bar>" for k
  proof -
    have "k = r \<or> int k * 65536 + 65536 \<le> int r * 65536 \<or> int r * 65536 + 65536 \<le> int k * 65536"
      by (cases k r rule: linorder_cases) auto
    then show ?thesis using near(1) by linarith
  qed
  moreover have "r div 2 ^ 15 = n div 2 ^ 31"
  proof -
    have "if n < 0x7F800000 then r < 32768 else 32768 \<le> r \<and> r < 65536" "if n < 0x7F800000 then n < 2147483648 else 2147483648 \<le> n"
      using near(1) lo by (auto simp: abs_le_iff)
    moreover have "r div 2 ^ 15 = 1" if "32768 \<le> r" "r < 65536" using that by (auto intro!: div_nat_eqI)
    moreover have "n div 2 ^ 31 = 1" if "2147483648 \<le> n" using that n by (auto intro!: div_nat_eqI)
    ultimately show ?thesis by (auto split: if_splits)
  qed
  ultimately show ?thesis using near(2) bf16_nan_overflow unfolding r_def n_def by blast
qed

theorem bf16_rounding_witness:
  "f32_to_bf16_bits 0x40490FDB = 0x4049 \<and> even (unat (f32_to_bf16_bits 0x3F808000))"
  using bf16_rounding [of "0x3F808000"]
  by (simp add: f32_to_bf16_bits_def drop_bit_eq_div take_bit_eq_mod)

section \<open>The compacted state\<close>

record compact_file =
  zc_keys :: "f32 list list list list"
  zc_values :: "f32 list list list list"
  zc_biases :: "real list list list"
  zc_positions :: "int list"
  zc_logical :: nat
  zc_spec :: model_spec
  zc_method :: string

text \<open>Element \<open>i\<close> of a sequence the code indexes.\<close>

definition get_at :: "'a list \<Rightarrow> nat \<Rightarrow> 'a result" where
  "get_at xs i = (if i < length xs then Inr (xs ! i) else Inl IndexError)"

text \<open>The arrays are allocated for the layers the spec names, so a missing layer stays zero. Values and
  biases have as many rows as the keys.\<close>

definition save_layer :: "model_spec \<Rightarrow> nat \<Rightarrow> f32 list compact_layer
    \<Rightarrow> (f32 list list list \<times> f32 list list list \<times> real list list) result" where
  "save_layer sp t l = res_bind (res_map (\<lambda>h. res_bind (get_at (ckeys l) h) (\<lambda>k.
       if length k \<noteq> t then Inl (ValueError ''save_compactcache requires uniform compact length t'')
       else res_bind (get_at (cvalues l) h) (\<lambda>v. res_bind (get_at (cbiases l) h) (\<lambda>b. Inr (k, v, b)))))
     [0..<n_kv_heads sp]) (\<lambda>rows. Inr (map fst rows, map (fst \<circ> snd) rows, map (snd \<circ> snd) rows))"

definition zero_layer :: "model_spec \<Rightarrow> nat \<Rightarrow> f32 list list list \<times> f32 list list list \<times> real list list" where
  "zero_layer sp t = (let z = replicate (n_kv_heads sp) (replicate t (replicate (head_dim sp) 0)) in
     (z, z, replicate (n_kv_heads sp) (replicate t 0)))"

definition save_compactcache :: "f32 list compact_cache \<Rightarrow> compact_file result" where
  "save_compactcache c = res_bind (get_at (cc_layers c) 0) (\<lambda>l0. res_bind (get_at (ckeys l0) 0) (\<lambda>k0.
     let sp = cc_spec c; t = length k0 in
     res_bind (res_map (\<lambda>(li, l). if n_layers sp \<le> li \<and> 0 < n_kv_heads sp then Inl IndexError else save_layer sp t l)
       (zip [0..<length (cc_layers c)] (cc_layers c))) (\<lambda>saved.
     res_bind (get_at (cpositions l0) 0) (\<lambda>ps.
       let rows = take (n_layers sp) saved @ replicate (n_layers sp - length saved) (zero_layer sp t) in
       Inr \<lparr>zc_keys = map fst rows, zc_values = map (fst \<circ> snd) rows, zc_biases = map (snd \<circ> snd) rows,
         zc_positions = ps, zc_logical = cc_logical c, zc_spec = sp, zc_method = cc_method c\<rparr>))))"

definition load_compactcache :: "compact_file \<Rightarrow> f32 list compact_cache" where
  "load_compactcache z = (let hs = n_kv_heads (zc_spec z) in
     \<lparr>cc_spec = zc_spec z, cc_layers = map (\<lambda>li. \<lparr>ckeys = map (\<lambda>h. zc_keys z ! li ! h) [0..<hs],
        cvalues = map (\<lambda>h. zc_values z ! li ! h) [0..<hs], cbiases = map (\<lambda>h. zc_biases z ! li ! h) [0..<hs],
        cpositions = replicate hs (zc_positions z)\<rparr>) [0..<length (zc_keys z)],
      cc_logical = zc_logical z, cc_method = zc_method z\<rparr>)"

text \<open>Every layer and head has the spec's count of heads and one compact length.\<close>

definition uniform_cc :: "nat \<Rightarrow> f32 list compact_cache \<Rightarrow> bool" where
  "uniform_cc t c \<longleftrightarrow> 0 < n_layers (cc_spec c) \<and> 0 < n_kv_heads (cc_spec c) \<and> length (cc_layers c) = n_layers (cc_spec c)
     \<and> (\<forall>l\<in>set (cc_layers c). length (ckeys l) = n_kv_heads (cc_spec c) \<and> length (cvalues l) = n_kv_heads (cc_spec c)
         \<and> length (cbiases l) = n_kv_heads (cc_spec c) \<and> length (cpositions l) = n_kv_heads (cc_spec c)
         \<and> (\<forall>k\<in>set (ckeys l). length k = t))"

lemma save_layer_uniform:
  assumes "length (ckeys l) = n_kv_heads sp" "length (cvalues l) = n_kv_heads sp" "length (cbiases l) = n_kv_heads sp"
    "\<forall>k\<in>set (ckeys l). length k = t"
  shows "save_layer sp t l = Inr (ckeys l, cvalues l, cbiases l)"
proof -
  have "res_map (\<lambda>h. res_bind (get_at (ckeys l) h) (\<lambda>k.
       if length k \<noteq> t then Inl (ValueError ''save_compactcache requires uniform compact length t'')
       else res_bind (get_at (cvalues l) h) (\<lambda>v. res_bind (get_at (cbiases l) h) (\<lambda>b. Inr (k, v, b)))))
     [0..<n_kv_heads sp] = Inr (map (\<lambda>h. (ckeys l ! h, cvalues l ! h, cbiases l ! h)) [0..<n_kv_heads sp])"
    using assms by (auto simp: res_map_Inr_iff list_all2_conv_all_nth get_at_def)
  then show ?thesis using map_nth [of "ckeys l"] map_nth [of "cvalues l"] map_nth [of "cbiases l"]
    by (simp add: save_layer_def comp_def assms(1-3))
qed

text \<open>C31. Persisting a compacted cache of one compact length keeps every key, value, bias, the logical
  length and the method, but stores one position list: every layer and head comes back with the positions
  of layer 0, head 0, so the state round-trips exactly when all of them agree.\<close>

theorem compact_roundtrip:
  assumes u: "uniform_cc t c" and z: "save_compactcache c = Inr z"
  shows "load_compactcache z = c\<lparr>cc_layers := map (\<lambda>l. l\<lparr>cpositions :=
      replicate (n_kv_heads (cc_spec c)) (hd (cpositions (hd (cc_layers c))))\<rparr>) (cc_layers c)\<rparr>"
proof -
  let ?sp = "cc_spec c" and ?ls = "cc_layers c"
  obtain l0 ls where L: "?ls = l0 # ls" using u by (cases ?ls) (auto simp: uniform_cc_def)
  obtain k0 ks where K: "ckeys l0 = k0 # ks" using u L by (cases "ckeys l0") (auto simp: uniform_cc_def)
  obtain p0 ps where P: "cpositions l0 = p0 # ps" using u L by (cases "cpositions l0") (auto simp: uniform_cc_def)
  have t: "length k0 = t" using u L K by (auto simp: uniform_cc_def)
  have len: "length ?ls = n_layers ?sp" using u by (simp add: uniform_cc_def)
  have hs: "length (ckeys l) = n_kv_heads ?sp" "length (cvalues l) = n_kv_heads ?sp" "length (cbiases l) = n_kv_heads ?sp"
    if "l \<in> set ?ls" for l using u that by (auto simp: uniform_cc_def)
  have sl: "save_layer ?sp t l = Inr (ckeys l, cvalues l, cbiases l)" if "l \<in> set ?ls" for l
    using u that by (intro save_layer_uniform) (auto simp: uniform_cc_def)
  have saved: "res_map (\<lambda>(li, l). if n_layers ?sp \<le> li \<and> 0 < n_kv_heads ?sp then Inl IndexError else save_layer ?sp t l)
      (zip [0..<length ?ls] ?ls) = Inr (map (\<lambda>l. (ckeys l, cvalues l, cbiases l)) ?ls)"
    by (auto simp: res_map_Inr_iff list_all2_conv_all_nth len sl)
  have zz: "z = \<lparr>zc_keys = map ckeys ?ls, zc_values = map cvalues ?ls, zc_biases = map cbiases ?ls,
      zc_positions = p0, zc_logical = cc_logical c, zc_spec = ?sp, zc_method = cc_method c\<rparr>"
  proof -
    have g: "get_at ?ls 0 = Inr l0" "get_at (ckeys l0) 0 = Inr k0" "get_at (cpositions l0) 0 = Inr p0"
      by (simp_all add: get_at_def L K P)
    show ?thesis using z len unfolding save_compactcache_def g res_bind.simps Let_def t saved
      by (auto simp: comp_def)
  qed
  have rebuild: "\<lparr>ckeys = map ((!) (ckeys l)) [0..<n_kv_heads ?sp], cvalues = map ((!) (cvalues l)) [0..<n_kv_heads ?sp],
      cbiases = map ((!) (cbiases l)) [0..<n_kv_heads ?sp], cpositions = q\<rparr> = l\<lparr>cpositions := q\<rparr>" if "l \<in> set ?ls" for l q
    using hs [OF that] map_nth [of "ckeys l"] map_nth [of "cvalues l"] map_nth [of "cbiases l"] by (cases l) simp
  have "cc_layers (load_compactcache z) = map (\<lambda>l. l\<lparr>cpositions := replicate (n_kv_heads ?sp) p0\<rparr>) ?ls"
    by (rule nth_equalityI) (simp_all add: load_compactcache_def zz Let_def rebuild)
  moreover have "cc_spec (load_compactcache z) = ?sp" "cc_logical (load_compactcache z) = cc_logical c"
      "cc_method (load_compactcache z) = cc_method c" by (simp_all add: load_compactcache_def zz Let_def)
  moreover have "hd (cpositions (hd ?ls)) = p0" by (simp add: L P)
  ultimately show ?thesis by (cases c; cases "load_compactcache z") simp
qed

abbreviation demo_cc :: "int \<Rightarrow> f32 list compact_cache" where
  "demo_cc p \<equiv> \<lparr>cc_spec = (demo_spec ''F32'')\<lparr>n_kv_heads := 2\<rparr>,
     cc_layers = [\<lparr>ckeys = [[[0, 1]], [[2, 3]]], cvalues = [[[4, 5]], [[6, 7]]], cbiases = [[0], [1]], cpositions = [[3], [p]]\<rparr>],
     cc_logical = 9, cc_method = ''am''\<rparr>"

abbreviation demo_z :: compact_file where
  "demo_z \<equiv> \<lparr>zc_keys = [[[[0, 1]], [[2, 3]]]], zc_values = [[[[4, 5]], [[6, 7]]]],
    zc_biases = [[[0], [1]]], zc_positions = [3], zc_logical = 9, zc_spec = (demo_spec ''F32'')\<lparr>n_kv_heads := 2\<rparr>, zc_method = ''am''\<rparr>"

lemma demo_cc_saved: "save_compactcache (demo_cc p) = Inr demo_z"
  by (simp add: save_compactcache_def get_at_def save_layer_def Let_def upt_rec)

theorem compact_roundtrip_witness:
  "\<exists>z. save_compactcache (demo_cc 8) = Inr z \<and> load_compactcache z \<noteq> demo_cc 8"
proof -
  have "load_compactcache demo_z \<noteq> demo_cc 8"
    using compact_roundtrip [OF _ demo_cc_saved [of 8], of 1] by (simp add: uniform_cc_def numeral_2_eq_2)
  then show ?thesis using demo_cc_saved [of 8] by blast
qed

section \<open>Ids\<close>

text \<open>The empty id is saved under the doubled suffix and cannot be loaded back.\<close>

theorem empty_id_unloadable:
  assumes "store_save js cs precision [] x \<lparr>st_format = f, st_files = []\<rparr> = Inr s'"
  shows "store_load js cs [] s' = Inl (FileNotFoundError []) \<and> store_list_ids s' = [suffix f]"
proof -
  obtain v where "s' = \<lparr>st_format = f, st_files = [(suffix f @ suffix f, v)]\<rparr>"
    using assms by (auto simp: store_save_def save_name_def)
  then show ?thesis by (cases f) (simp_all add: store_load_def resolve_file_def store_list_ids_def ids_with_def suffix_def)
qed

end
