(* ===== verification/Serving.thy ===== *)
theory Serving imports KVPersist begin

text \<open>
  \<^verbatim>\<open>dexa/serving/session_manager.py\<close>: multi-turn sessions over a growing KV cache, resident in an
  LRU \<^verbatim>\<open>OrderedDict\<close> and backed by a session store. A resident cache is paired with the turn count
  its metadata holds. The tokenizer, the prefill and the decoding of the backend are parameters, and so
  are the operations of the store, whose contract is the locale \<open>session_backing\<close>; it is interpreted on
  the npz store of \<^verbatim>\<open>KVPersist\<close>. Session ids contain no path separator and text is ASCII.
\<close>

section \<open>Parameters\<close>

type_synonym state = "kv \<times> nat option"

record backend =
  be_tokenize :: "string \<Rightarrow> int list"
  be_detokenize :: "int list \<Rightarrow> string"
  be_prefill :: "int list \<Rightarrow> kv"
  be_generate :: "kv \<Rightarrow> int list \<Rightarrow> nat \<Rightarrow> int list \<times> kv"

record 's backing =
  bk_has :: "'s \<Rightarrow> string \<Rightarrow> bool"
  bk_load :: "'s \<Rightarrow> string \<Rightarrow> state result"
  bk_save :: "'s \<Rightarrow> string \<Rightarrow> state \<Rightarrow> (nat \<times> 's) result"
  bk_delete :: "'s \<Rightarrow> string \<Rightarrow> 's"

section \<open>The manager\<close>

record 's manager =
  mg_store :: 's
  mg_persist :: bool
  mg_keep :: int
  mg_resident :: "(string, state) dict"

definition new_manager :: "'s \<Rightarrow> bool \<Rightarrow> int \<Rightarrow> 's manager" where
  "new_manager st persist keep = \<lparr>mg_store = st, mg_persist = persist, mg_keep = keep, mg_resident = []\<rparr>"

text \<open>\<^verbatim>\<open>OrderedDict.move_to_end\<close> after a lookup or an assignment.\<close>

definition to_end :: "'k \<Rightarrow> 'v \<Rightarrow> ('k, 'v) dict \<Rightarrow> ('k, 'v) dict" where
  "to_end k v d = AList.delete k d @ [(k, v)]"

definition mgr_get :: "'s backing \<Rightarrow> string \<Rightarrow> 's manager \<Rightarrow> (state option \<times> bool) result \<times> 's manager" where
  "mgr_get bk sid m = (case map_of (mg_resident m) sid of
     Some kv \<Rightarrow> (Inr (Some kv, False), m\<lparr>mg_resident := to_end sid kv (mg_resident m)\<rparr>)
   | None \<Rightarrow> if mg_persist m \<and> bk_has bk (mg_store m) sid then
       (case bk_load bk (mg_store m) sid of Inl e \<Rightarrow> (Inl e, m)
        | Inr kv \<Rightarrow> (Inr (Some kv, True), m\<lparr>mg_resident := mg_resident m @ [(sid, kv)]\<rparr>))
     else (Inr (None, False), m))"

text \<open>\<^verbatim>\<open>while len(d) > keep: d.popitem(last=False)\<close>; popping an empty dictionary raises.\<close>

fun evict_lru :: "int \<Rightarrow> ('k, 'v) dict \<Rightarrow> ('k, 'v) dict \<times> bool" where
  "evict_lru keep [] = ([], 0 \<le> keep)"
| "evict_lru keep (p # d) = (if int (length (p # d)) > keep then evict_lru keep d else (p # d, True))"

definition mgr_put :: "'s backing \<Rightarrow> string \<Rightarrow> state \<Rightarrow> 's manager \<Rightarrow> nat result \<times> 's manager" where
  "mgr_put bk sid kv m = (let m1 = m\<lparr>mg_resident := to_end sid kv (mg_resident m)\<rparr> in
     case (if mg_persist m then bk_save bk (mg_store m) sid kv else Inr (0, mg_store m)) of
       Inl e \<Rightarrow> (Inl e, m1)
     | Inr (n, st) \<Rightarrow> (case evict_lru (mg_keep m) (mg_resident m1) of (d, ok) \<Rightarrow>
         (if ok then Inr (if n = 0 then kv_nbytes (fst kv) else n) else Inl (KeyError ''dictionary is empty''),
          m1\<lparr>mg_store := st, mg_resident := d\<rparr>)))"

section \<open>Text\<close>

definition turn_tokens :: "backend \<Rightarrow> string \<Rightarrow> string option \<Rightarrow> bool \<Rightarrow> int list" where
  "turn_tokens be user system first = (let nl = [CHR 0x0A];
     prefix = (case system of Some s \<Rightarrow> if first \<and> s \<noteq> [] then ''System: '' @ s @ nl @ nl else [] | None \<Rightarrow> []) in
     be_tokenize be (prefix @ ''User: '' @ user @ nl @ nl @ ''Assistant:''))"

fun cut_at :: "string \<Rightarrow> string \<Rightarrow> string" where
  "cut_at marker [] = []"
| "cut_at marker (c # cs) = (if starts_with marker (c # cs) then [] else c # cut_at marker cs)"

definition is_space :: "char \<Rightarrow> bool" where
  "is_space c \<longleftrightarrow> (let n = of_char c :: nat in 9 \<le> n \<and> n \<le> 13 \<or> 28 \<le> n \<and> n \<le> 32)"

definition strip :: "string \<Rightarrow> string" where
  "strip s = rev (dropWhile is_space (rev (dropWhile is_space s)))"

definition clean :: "string \<Rightarrow> string" where
  "clean s = strip (fold cut_at [CHR 0x0A # ''User:'', CHR 0x0A # ''System:'', ''User:''] s)"

section \<open>Turns\<close>

record session_info =
  si_id :: string
  si_turns :: nat
  si_context :: nat
  si_delta :: nat
  si_stateless :: nat
  si_resumed :: bool
  si_bytes :: nat

definition prefill_savings :: "session_info \<Rightarrow> rat" where
  "prefill_savings i = (if si_stateless i \<le> 0 then 0 else 1 - rat_of_nat (si_delta i) / rat_of_nat (si_stateless i))"

definition turns_of :: "state option \<Rightarrow> nat" where
  "turns_of st = (case st of Some (kv, Some n) \<Rightarrow> n | _ \<Rightarrow> 0)"

record turn_plan =
  tp_base :: kv
  tp_rest :: "int list"
  tp_delta :: nat
  tp_stateless :: nat

definition plan_turn :: "backend \<Rightarrow> state option \<Rightarrow> string \<Rightarrow> string option \<Rightarrow> turn_plan" where
  "plan_turn be prev user system = (case prev of
     None \<Rightarrow> (let delta = turn_tokens be user system True in
       \<lparr>tp_base = be_prefill be (take 1 delta), tp_rest = drop 1 delta, tp_delta = length (drop 1 delta) + 1, tp_stateless = length delta\<rparr>)
   | Some (kv, _) \<Rightarrow> (let delta = turn_tokens be user None False in
       \<lparr>tp_base = kv, tp_rest = delta, tp_delta = length delta, tp_stateless = seq_len kv + length delta\<rparr>))"

definition decode_turn :: "backend \<Rightarrow> state option \<Rightarrow> string \<Rightarrow> string option \<Rightarrow> nat \<Rightarrow> int list \<times> state" where
  "decode_turn be prev user system max_new = (let p = plan_turn be prev user system;
     (resp, kv) = be_generate be (tp_base p) (tp_rest p) max_new in (resp, (kv, Some (turns_of prev + 1))))"

definition mgr_turn :: "backend \<Rightarrow> 's backing \<Rightarrow> string \<Rightarrow> string \<Rightarrow> string option \<Rightarrow> nat \<Rightarrow> 's manager
    \<Rightarrow> (string \<times> session_info) result \<times> 's manager" where
  "mgr_turn be bk sid user system max_new m = (case mgr_get bk sid m of
     (Inl e, m1) \<Rightarrow> (Inl e, m1)
   | (Inr (prev, resumed), m1) \<Rightarrow> (let p = plan_turn be prev user system; (resp, st) = decode_turn be prev user system max_new in
       case mgr_put bk sid st m1 of
         (Inl e, m2) \<Rightarrow> (Inl e, m2)
       | (Inr bytes, m2) \<Rightarrow> (Inr (clean (be_detokenize be resp), \<lparr>si_id = sid, si_turns = turns_of prev + 1,
           si_context = seq_len (fst st), si_delta = tp_delta p, si_stateless = tp_stateless p, si_resumed = resumed, si_bytes = bytes\<rparr>), m2)))"

definition mgr_exists :: "'s backing \<Rightarrow> string \<Rightarrow> 's manager \<Rightarrow> bool" where
  "mgr_exists bk sid m \<longleftrightarrow> map_of (mg_resident m) sid \<noteq> None \<or> mg_persist m \<and> bk_has bk (mg_store m) sid"

definition mgr_drop :: "'s backing \<Rightarrow> string \<Rightarrow> 's manager \<Rightarrow> 's manager" where
  "mgr_drop bk sid m = m\<lparr>mg_resident := AList.delete sid (mg_resident m),
     mg_store := (if mg_persist m then bk_delete bk (mg_store m) sid else mg_store m)\<rparr>"

section \<open>What a client sees\<close>

text \<open>The state the next turn of a session starts from.\<close>

definition mgr_view :: "'s backing \<Rightarrow> 's manager \<Rightarrow> string \<Rightarrow> state option" where
  "mgr_view bk m sid = (case map_of (mg_resident m) sid of Some kv \<Rightarrow> Some kv
     | None \<Rightarrow> if mg_persist m \<and> bk_has bk (mg_store m) sid then
         (case bk_load bk (mg_store m) sid of Inl e \<Rightarrow> None | Inr kv \<Rightarrow> Some kv) else None)"

text \<open>The calls of a client; \<open>Restart\<close> replaces the process by a fresh manager on the same store.\<close>

datatype mgr_op = Turn string string "string option" nat | Drop string | Restart int

type_synonym reply = "string \<times> nat \<times> nat \<times> nat \<times> nat"

definition reply_view :: "string \<times> session_info \<Rightarrow> reply" where
  "reply_view r = (case r of (t, i) \<Rightarrow> (t, si_turns i, si_context i, si_delta i, si_stateless i))"

fun mgr_run :: "backend \<Rightarrow> 's backing \<Rightarrow> mgr_op list \<Rightarrow> 's manager \<Rightarrow> reply result list \<times> 's manager" where
  "mgr_run be bk [] m = ([], m)"
| "mgr_run be bk (Turn sid u s n # ops) m = (case mgr_turn be bk sid u s n m of (r, m1) \<Rightarrow>
     (case mgr_run be bk ops m1 of (rs, m2) \<Rightarrow> (res_bind r (\<lambda>x. Inr (reply_view x)) # rs, m2)))"
| "mgr_run be bk (Drop sid # ops) m = mgr_run be bk ops (mgr_drop bk sid m)"
| "mgr_run be bk (Restart keep # ops) m = mgr_run be bk ops (new_manager (mg_store m) (mg_persist m) keep)"

text \<open>The abstract manager keeps every session in memory and never restarts.\<close>

definition spec_reply :: "backend \<Rightarrow> state option \<Rightarrow> string \<Rightarrow> string option \<Rightarrow> nat \<Rightarrow> reply" where
  "spec_reply be prev u s n = (let p = plan_turn be prev u s; (resp, st) = decode_turn be prev u s n in
     (clean (be_detokenize be resp), turns_of prev + 1, seq_len (fst st), tp_delta p, tp_stateless p))"

fun spec_run :: "backend \<Rightarrow> mgr_op list \<Rightarrow> (string \<Rightarrow> state option) \<Rightarrow> reply result list \<times> (string \<Rightarrow> state option)" where
  "spec_run be [] f = ([], f)"
| "spec_run be (Turn sid u s n # ops) f = (case spec_run be ops (f(sid \<mapsto> snd (decode_turn be (f sid) u s n))) of (rs, f') \<Rightarrow>
     (Inr (spec_reply be (f sid) u s n) # rs, f'))"
| "spec_run be (Drop sid # ops) f = spec_run be ops (f(sid := None))"
| "spec_run be (Restart keep # ops) f = spec_run be ops f"

section \<open>The store contract\<close>

locale session_backing =
  fixes bk :: "'s backing" and sane :: "'s \<Rightarrow> bool" and good :: "string \<Rightarrow> bool" and ok :: "state \<Rightarrow> bool"
  assumes has_load: "sane s \<Longrightarrow> bk_has bk s i \<Longrightarrow> \<exists>c. bk_load bk s i = Inr c"
    and save: "sane s \<Longrightarrow> good i \<Longrightarrow> ok c \<Longrightarrow> \<exists>n s'. bk_save bk s i c = Inr (n, s') \<and> sane s'
      \<and> bk_has bk s' i \<and> bk_load bk s' i = Inr c \<and> (\<forall>j. j \<noteq> i \<longrightarrow> bk_has bk s' j = bk_has bk s j \<and> bk_load bk s' j = bk_load bk s j)"
    and delete: "sane s \<Longrightarrow> good i \<Longrightarrow> sane (bk_delete bk s i) \<and> \<not> bk_has bk (bk_delete bk s i) i
      \<and> (\<forall>j. j \<noteq> i \<longrightarrow> bk_has bk (bk_delete bk s i) j = bk_has bk s j \<and> bk_load bk (bk_delete bk s i) j = bk_load bk s j)"

definition backed :: "'s backing \<Rightarrow> 's \<Rightarrow> (string, state) dict \<Rightarrow> bool" where
  "backed bk s d \<longleftrightarrow> (\<forall>p\<in>set d. bk_has bk s (fst p) \<and> bk_load bk s (fst p) = Inr (snd p))"

lemma backedD: "backed bk s d \<Longrightarrow> (i, c) \<in> set d \<Longrightarrow> bk_has bk s i \<and> bk_load bk s i = Inr c"
  by (force simp: backed_def)

lemma backed_mono: "backed bk s d \<Longrightarrow> set d' \<subseteq> set d \<Longrightarrow> backed bk s d'"
  by (auto simp: backed_def)

lemma backed_snoc: "backed bk s (d @ [(i, c)]) \<longleftrightarrow> backed bk s d \<and> bk_has bk s i \<and> bk_load bk s i = Inr c"
  by (auto simp: backed_def)

definition mgr_inv :: "'s backing \<Rightarrow> ('s \<Rightarrow> bool) \<Rightarrow> 's manager \<Rightarrow> bool" where
  "mgr_inv bk sane m \<longleftrightarrow> mg_persist m \<and> 0 \<le> mg_keep m \<and> sane (mg_store m) \<and> dict_ok (mg_resident m)
     \<and> backed bk (mg_store m) (mg_resident m)"

lemma evict_lru_drop: "0 \<le> keep \<Longrightarrow> evict_lru keep d = (drop (length d - nat keep) d, True)"
  by (induction d) (auto simp: drop_Cons' nat_less_iff)

lemma set_delete: "set (AList.delete k d) = {p \<in> set d. fst p \<noteq> k}"
  by (auto simp: AList.delete_eq)

lemma dict_ok_to_end: "dict_ok d \<Longrightarrow> dict_ok (to_end k v d)"
  by (auto simp: to_end_def set_delete)

lemma backed_change:
  "backed bk s d \<Longrightarrow> (\<And>j. j \<noteq> i \<Longrightarrow> bk_has bk s' j = bk_has bk s j \<and> bk_load bk s' j = bk_load bk s j)
    \<Longrightarrow> backed bk s' (AList.delete i d)"
  by (auto simp: backed_def set_delete)

context session_backing
begin

lemma mgr_invD:
  assumes "mgr_inv bk sane m"
  shows "mg_persist m" "0 \<le> mg_keep m" "sane (mg_store m)" "dict_ok (mg_resident m)" "backed bk (mg_store m) (mg_resident m)"
  using assms by (auto simp: mgr_inv_def)

lemma mgr_inv_resident:
  "mgr_inv bk sane m \<Longrightarrow> dict_ok d \<Longrightarrow> backed bk (mg_store m) d \<Longrightarrow> mgr_inv bk sane (m\<lparr>mg_resident := d\<rparr>)"
  by (simp add: mgr_inv_def)

text \<open>Under the invariant the resident copies are only a cache of the store.\<close>

lemma view_is_store: assumes "mgr_inv bk sane m"
  shows "mgr_view bk m i = (if bk_has bk (mg_store m) i then Some (projr (bk_load bk (mg_store m) i)) else None)"
proof (cases "map_of (mg_resident m) i")
  case None then show ?thesis using mgr_invD [OF assms] has_load [of "mg_store m" i] by (auto simp: mgr_view_def)
next
  case (Some c)
  then show ?thesis using backedD [OF mgr_invD(5) [OF assms] map_of_SomeD [OF Some]] by (auto simp: mgr_view_def)
qed

lemma mgr_get_view: assumes I: "mgr_inv bk sane m"
  shows "\<exists>b m1. mgr_get bk sid m = (Inr (mgr_view bk m sid, b), m1) \<and> mgr_inv bk sane m1
    \<and> mg_store m1 = mg_store m \<and> mg_keep m1 = mg_keep m"
proof (cases "map_of (mg_resident m) sid")
  case None
  show ?thesis
  proof (cases "bk_has bk (mg_store m) sid")
    case True
    then obtain c where c: "bk_load bk (mg_store m) sid = Inr c" using has_load mgr_invD(3) [OF I] by blast
    have "mgr_inv bk sane (m\<lparr>mg_resident := mg_resident m @ [(sid, c)]\<rparr>)"
      by (rule mgr_inv_resident [OF I]) (use mgr_invD [OF I] None True c in \<open>auto simp: backed_snoc map_of_eq_None_iff\<close>)
    then show ?thesis using True None c mgr_invD(1) [OF I] by (auto simp: mgr_get_def mgr_view_def)
  next
    case False then show ?thesis using None I by (auto simp: mgr_get_def mgr_view_def)
  qed
next
  case (Some c)
  have "mgr_inv bk sane (m\<lparr>mg_resident := to_end sid c (mg_resident m)\<rparr>)"
    by (rule mgr_inv_resident [OF I dict_ok_to_end])
      (use mgr_invD [OF I] backedD [OF mgr_invD(5) [OF I] map_of_SomeD [OF Some]] in
        \<open>auto simp: to_end_def backed_snoc set_delete intro: backed_mono\<close>)
  then show ?thesis using Some by (auto simp: mgr_get_def mgr_view_def)
qed

lemma mgr_put_view: assumes I: "mgr_inv bk sane m" and g: "good sid" "ok st"
  shows "\<exists>n m1. mgr_put bk sid st m = (Inr n, m1) \<and> mgr_inv bk sane m1 \<and> mg_keep m1 = mg_keep m
    \<and> int (length (mg_resident m1)) \<le> mg_keep m \<and> mgr_view bk m1 = (mgr_view bk m)(sid \<mapsto> st)"
proof -
  note D = mgr_invD [OF I]
  obtain n s' where s: "bk_save bk (mg_store m) sid st = Inr (n, s')" "sane s'" "bk_has bk s' sid" "bk_load bk s' sid = Inr st"
      "\<And>j. j \<noteq> sid \<Longrightarrow> bk_has bk s' j = bk_has bk (mg_store m) j \<and> bk_load bk s' j = bk_load bk (mg_store m) j"
    using save [OF D(3) g] by blast
  let ?d = "to_end sid st (mg_resident m)"
  define m1 where "m1 = m\<lparr>mg_resident := drop (length ?d - nat (mg_keep m)) ?d, mg_store := s'\<rparr>"
  have e: "mgr_put bk sid st m = (Inr (if n = 0 then kv_nbytes (fst st) else n), m1)"
    using D(1,2) by (simp add: mgr_put_def s(1) evict_lru_drop m1_def)
  have "backed bk s' ?d"
    using backed_change [OF D(5), of sid s'] s(3-5) by (simp add: to_end_def backed_snoc)
  then have "backed bk s' (mg_resident m1)" by (rule backed_mono) (simp add: m1_def set_drop_subset)
  moreover have "dict_ok (mg_resident m1)"
    using dict_ok_to_end [OF D(4)] by (simp add: m1_def drop_map [symmetric] distinct_drop)
  ultimately have I1: "mgr_inv bk sane m1" using D(1,2) s(2) by (simp add: mgr_inv_def m1_def)
  have "mgr_view bk m1 j = ((mgr_view bk m)(sid \<mapsto> st)) j" for j
    unfolding view_is_store [OF I1] using view_is_store [OF I, of j] s(3-5) by (auto simp: m1_def)
  then have "mgr_view bk m1 = (mgr_view bk m)(sid \<mapsto> st)" by blast
  moreover have "int (length (mg_resident m1)) \<le> mg_keep m" using D(2) by (simp add: m1_def)
  ultimately show ?thesis using e I1 by (auto simp: m1_def)
qed

lemma mgr_drop_view: assumes I: "mgr_inv bk sane m" and g: "good sid"
  shows "mgr_inv bk sane (mgr_drop bk sid m) \<and> mgr_view bk (mgr_drop bk sid m) = (mgr_view bk m)(sid := None)
    \<and> length (mg_resident (mgr_drop bk sid m)) \<le> length (mg_resident m) \<and> mg_keep (mgr_drop bk sid m) = mg_keep m"
proof -
  note D = mgr_invD [OF I]
  note d = delete [OF D(3) g]
  have I1: "mgr_inv bk sane (mgr_drop bk sid m)"
    using D d backed_change [OF D(5), of sid "bk_delete bk (mg_store m) sid"] by (simp add: mgr_inv_def mgr_drop_def)
  have "mgr_view bk (mgr_drop bk sid m) j = ((mgr_view bk m)(sid := None)) j" for j
    unfolding view_is_store [OF I1] using view_is_store [OF I, of j] d D(1) by (auto simp: mgr_drop_def)
  then show ?thesis using I1 by (auto simp: mgr_drop_def AList.delete_eq)
qed

lemma mgr_restart_view: "mgr_inv bk sane m \<Longrightarrow> 0 \<le> keep \<Longrightarrow>
    mgr_inv bk sane (new_manager (mg_store m) (mg_persist m) keep)
    \<and> mgr_view bk (new_manager (mg_store m) (mg_persist m) keep) = mgr_view bk m"
proof -
  assume I: "mgr_inv bk sane m" "0 \<le> keep"
  then have I1: "mgr_inv bk sane (new_manager (mg_store m) (mg_persist m) keep)"
    by (simp add: mgr_inv_def new_manager_def backed_def)
  then show ?thesis using view_is_store [OF I1] view_is_store [OF I(1)] by (auto simp: new_manager_def fun_eq_iff)
qed

end

section \<open>Nothing is lost\<close>

fun op_good :: "(string \<Rightarrow> bool) \<Rightarrow> mgr_op \<Rightarrow> bool" where
  "op_good good (Turn sid u s n) = good sid"
| "op_good good (Drop sid) = good sid"
| "op_good good (Restart keep) = (0 \<le> keep)"

context session_backing
begin

lemma mgr_turn_view:
  assumes I: "mgr_inv bk sane m" and g: "good sid" "\<And>prev. ok (snd (decode_turn be prev u s n))"
  shows "\<exists>i m1. mgr_turn be bk sid u s n m = (Inr i, m1) \<and> reply_view i = spec_reply be (mgr_view bk m sid) u s n
    \<and> mgr_inv bk sane m1 \<and> int (length (mg_resident m1)) \<le> mg_keep m1
    \<and> mgr_view bk m1 = (mgr_view bk m)(sid \<mapsto> snd (decode_turn be (mgr_view bk m sid) u s n))"
proof -
  let ?v = "mgr_view bk m sid"
  obtain b m1 where gt: "mgr_get bk sid m = (Inr (?v, b), m1)" "mgr_inv bk sane m1" "mg_store m1 = mg_store m"
    using mgr_get_view [OF I] by blast
  have v: "mgr_view bk m1 = mgr_view bk m"
    using view_is_store [OF I] view_is_store [OF gt(2)] gt(3) by (simp add: fun_eq_iff)
  obtain resp st where d: "decode_turn be ?v u s n = (resp, st)" by (cases "decode_turn be ?v u s n")
  obtain k m2 where pt: "mgr_put bk sid st m1 = (Inr k, m2)" "mgr_inv bk sane m2" "mg_keep m2 = mg_keep m1"
      "int (length (mg_resident m2)) \<le> mg_keep m1" "mgr_view bk m2 = (mgr_view bk m1)(sid \<mapsto> st)"
    using mgr_put_view [OF gt(2) g(1), of st] g(2) [of ?v] d by auto
  show ?thesis using gt(1) d pt v by (simp add: mgr_turn_def spec_reply_def reply_view_def Let_def)
qed

lemma run_refines:
  assumes "mgr_inv bk sane m" "int (length (mg_resident m)) \<le> mg_keep m" "\<And>op. op \<in> set ops \<Longrightarrow> op_good good op"
    and o: "\<And>prev u s n. ok (snd (decode_turn be prev u s n))"
    and "mgr_run be bk ops m = (rs, m')"
  shows "spec_run be ops (mgr_view bk m) = (rs, mgr_view bk m') \<and> mgr_inv bk sane m'
    \<and> int (length (mg_resident m')) \<le> mg_keep m'"
  using assms(1-3,5)
proof (induction ops arbitrary: m rs)
  case (Cons op ops)
  show ?case
  proof (cases op)
    case (Turn sid u s n)
    then have "good sid" using Cons.prems(3) by fastforce
    from mgr_turn_view [OF Cons.prems(1) this o] obtain i m1 where
      t: "mgr_turn be bk sid u s n m = (Inr i, m1)" "reply_view i = spec_reply be (mgr_view bk m sid) u s n"
        "mgr_inv bk sane m1" "int (length (mg_resident m1)) \<le> mg_keep m1"
        "mgr_view bk m1 = (mgr_view bk m)(sid \<mapsto> snd (decode_turn be (mgr_view bk m sid) u s n))" by blast
    obtain rs1 where r: "mgr_run be bk ops m1 = (rs1, m')" "rs = Inr (reply_view i) # rs1"
      using Cons.prems(4) t(1) Turn by (auto split: prod.splits)
    have "spec_run be ops (mgr_view bk m1) = (rs1, mgr_view bk m') \<and> mgr_inv bk sane m' \<and> int (length (mg_resident m')) \<le> mg_keep m'"
      by (rule Cons.IH [OF t(3,4) _ r(1)]) (use Cons.prems(3) in simp)
    then show ?thesis unfolding t(5) by (simp add: Turn r(2) t(2))
  next
    case (Drop sid)
    then have "good sid" using Cons.prems(3) by fastforce
    note d = mgr_drop_view [OF Cons.prems(1) this]
    have "spec_run be ops (mgr_view bk (mgr_drop bk sid m)) = (rs, mgr_view bk m') \<and> mgr_inv bk sane m'
        \<and> int (length (mg_resident m')) \<le> mg_keep m'"
      by (rule Cons.IH) (use d Cons.prems Drop in auto)
    then show ?thesis using d by (simp add: Drop)
  next
    case (Restart keep)
    then have "0 \<le> keep" using Cons.prems(3) by fastforce
    note d = mgr_restart_view [OF Cons.prems(1) this]
    then show ?thesis using Cons.IH [of "new_manager (mg_store m) (mg_persist m) keep" rs] Cons.prems \<open>0 \<le> keep\<close>
      by (simp add: Restart new_manager_def)
  qed
qed simp

end

section \<open>The npz store\<close>

text \<open>The size of a written archive depends on the container and is a parameter.\<close>

definition sstore_backing :: "nat option json \<Rightarrow> casts \<Rightarrow> (nat option npz \<Rightarrow> nat) \<Rightarrow> (nat option sstore) backing" where
  "sstore_backing js cs npz_size = \<lparr>bk_has = store_has, bk_load = (\<lambda>s i. store_load js cs i s),
     bk_save = (\<lambda>s i x. res_bind (store_save js cs ''auto'' i x s) (\<lambda>s'.
       Inr (case resolve_file s' i of Some (Npz z) \<Rightarrow> npz_size z | Some (Blob b) \<Rightarrow> length b | None \<Rightarrow> 0, s'))),
     bk_delete = (\<lambda>s i. store_delete i s)\<rparr>"

text \<open>A directory with npz sessions only, and the caches that survive it bit for bit.\<close>

definition npz_only :: "'m sstore \<Rightarrow> bool" where
  "npz_only s \<longleftrightarrow> st_format s = FNpz \<and> (\<forall>f\<in>snd ` set (st_files s). \<exists>z. f = Npz z)"

definition exact_state :: "casts \<Rightarrow> state \<Rightarrow> bool" where
  "exact_state cs x \<longleftrightarrow> (\<exists>sh d. shaped_kv sh (fst x) \<and> resolve_store_dtype ''auto'' (ms_dtype (kv_spec (fst x))) = Inr d
     \<and> native_kv cs d (fst x)) \<and> kv_token_ids (fst x) \<noteq> Some []"

lemma norm_tokens_id: "kv_token_ids c \<noteq> Some [] \<Longrightarrow> norm_tokens c = c"
  by (cases c) (auto simp: norm_tokens_def split: option.splits list.splits)

lemma npz_only_files: "npz_only s \<Longrightarrow> resolve_file s i = Some f \<Longrightarrow> \<exists>z. f = Npz z"
  by (force simp: npz_only_def resolve_file_def dest: map_of_SomeD split: option.splits)

lemma npz_only_update: "npz_only s \<Longrightarrow> npz_only (s\<lparr>st_files := AList.update n (Npz z) (st_files s)\<rparr>)"
  using set_update_subset [of n "Npz z" "st_files s"] by (fastforce simp: npz_only_def)

lemma npz_only_delete: "npz_only s \<Longrightarrow> npz_only (store_delete i s)"
  by (auto simp: npz_only_def store_delete_def set_delete)

lemma npz_load: "npz_only s \<Longrightarrow> store_has s i \<Longrightarrow> \<exists>c. store_load js cs i s = Inr c"
  using npz_only_files [of s i] by (auto simp: store_has_def store_load_def)

lemma npz_save:
  assumes "npz_only s" "i \<noteq> []" "exact_state cs c"
  shows "\<exists>z. store_save js cs ''auto'' i c s = Inr (s\<lparr>st_files := AList.update (i @ suffix FNpz) (Npz z) (st_files s)\<rparr>)
    \<and> load_kvcache cs z = c"
proof -
  obtain kv m where c: "c = (kv, m)" by (cases c)
  obtain sh d where e: "shaped_kv sh kv" "resolve_store_dtype ''auto'' (ms_dtype (kv_spec kv)) = Inr d" "native_kv cs d kv"
      "kv_token_ids kv \<noteq> Some []" using assms(3) c by (auto simp: exact_state_def)
  from npz_roundtrip [OF e(1-3), of m] norm_tokens_id [OF e(4)] assms(1,2) c show ?thesis
    by (auto simp: store_save_def npz_only_def save_name_def)
qed

lemma deleted_resolve: "resolve_file (store_delete i s) j = (if j = i then None else resolve_file s j)"
  by (cases "st_format s") (auto simp: resolve_file_def store_delete_def suffix_inj split: option.splits)

interpretation npz: session_backing "sstore_backing js cs sz" npz_only "\<lambda>i. i \<noteq> []" "exact_state cs"
  for js cs sz
proof
  fix s :: "nat option sstore" and i c
  assume s: "npz_only s"
  then show "bk_has (sstore_backing js cs sz) s i \<Longrightarrow> \<exists>c. bk_load (sstore_backing js cs sz) s i = Inr c"
    using npz_load [of s i js cs] by (simp add: sstore_backing_def)
  show "npz_only (bk_delete (sstore_backing js cs sz) s i) \<and> \<not> bk_has (sstore_backing js cs sz) (bk_delete (sstore_backing js cs sz) s i) i
      \<and> (\<forall>j. j \<noteq> i \<longrightarrow> bk_has (sstore_backing js cs sz) (bk_delete (sstore_backing js cs sz) s i) j = bk_has (sstore_backing js cs sz) s j
        \<and> bk_load (sstore_backing js cs sz) (bk_delete (sstore_backing js cs sz) s i) j = bk_load (sstore_backing js cs sz) s j)"
    by (simp add: sstore_backing_def npz_only_delete [OF s] store_has_def store_load_def deleted_resolve)
  assume g: "i \<noteq> []" "exact_state cs c"
  obtain z where z: "store_save js cs ''auto'' i c s = Inr (s\<lparr>st_files := AList.update (i @ suffix FNpz) (Npz z) (st_files s)\<rparr>)"
      "load_kvcache cs z = c" using npz_save [OF s g] by blast
  have f: "st_format s = FNpz" using s by (simp add: npz_only_def)
  note r = resolve_saved [OF g(1), of s "Npz z", unfolded f save_name_def, simplified g(1) if_False]
  show "\<exists>n s'. bk_save (sstore_backing js cs sz) s i c = Inr (n, s') \<and> npz_only s' \<and> bk_has (sstore_backing js cs sz) s' i
      \<and> bk_load (sstore_backing js cs sz) s' i = Inr c \<and> (\<forall>j. j \<noteq> i \<longrightarrow> bk_has (sstore_backing js cs sz) s' j = bk_has (sstore_backing js cs sz) s j
        \<and> bk_load (sstore_backing js cs sz) s' j = bk_load (sstore_backing js cs sz) s j)"
    using z by (auto simp: sstore_backing_def npz_only_update [OF s] store_has_def store_load_def r)
qed


text \<open>A backend with a fixed cache, for the instances.\<close>

definition tiny_kv :: "nat \<Rightarrow> kv" where
  "tiny_kv n = \<lparr>kv_spec = demo_spec ''fp32'', kv_layers = [\<lparr>lkey = [replicate (Suc n) [0, 1]], lval = [replicate (Suc n) [2, 3]]\<rparr>],
     kv_positions = map int [0..<Suc n], kv_token_ids = Some [1]\<rparr>"

lemma seq_len_tiny [simp]: "seq_len (tiny_kv n) = Suc n"
  by (simp add: tiny_kv_def seq_len_def)

abbreviation tiny_backend :: backend where
  "tiny_backend \<equiv> \<lparr>be_tokenize = (\<lambda>s. [1, 2, 3]), be_detokenize = (\<lambda>ts. '' ok''), be_prefill = (\<lambda>ts. tiny_kv 0),
     be_generate = (\<lambda>kv ts n. ([4], tiny_kv (seq_len kv + length ts)))\<rparr>"

abbreviation no_json :: "nat option json" where
  "no_json \<equiv> \<lparr>dumps = (\<lambda>h. []), loads = (\<lambda>b. Inl (ValueError ''json''))\<rparr>"

lemma tiny_dtype: "resolve_store_dtype ''auto'' ''fp32'' = Inr F32"
  by code_simp

lemma tiny_exact: "exact_state cs (tiny_kv k, Some n)"
  unfolding exact_state_def
  by (intro conjI exI [of _ "(1, Suc k, 2)"] exI [of _ F32])
    (auto simp: tiny_kv_def shaped_kv_def regular_def native_kv_def native_arr_def native_word_def tiny_dtype)

lemma clean_ok: "clean '' ok'' = ''ok''"
  by code_simp


text \<open>Without persistence an eviction does lose the session: the least recently used one restarts at its first turn.\<close>

theorem evict_loses_unpersisted:
  "\<exists>m. mgr_run tiny_backend (sstore_backing no_json demo_casts (\<lambda>z. 0)) [Turn ''a'' ''x'' None 4, Turn ''b'' ''y'' None 4, Turn ''a'' ''z'' None 4]
      (new_manager \<lparr>st_format = FNpz, st_files = []\<rparr> False 1)
    = ([Inr (''ok'', 1, 4, 3, 3), Inr (''ok'', 1, 4, 3, 3), Inr (''ok'', 1, 4, 3, 3)], m)"
  by (simp add: mgr_turn_def new_manager_def mgr_get_def mgr_put_def to_end_def decode_turn_def plan_turn_def
      turn_tokens_def turns_of_def clean_ok Let_def reply_view_def)

end
