(* ===== verification/Paged.thy ===== *)
theory Paged imports KVPersist begin

text \<open>
  The layouts of \<^verbatim>\<open>dexa/engine/vllm_cartridge.py\<close> and \<^verbatim>\<open>vllm_connector.py\<close>: an array in storage layout
  \<^verbatim>\<open>[n_kv_heads, T, head_dim]\<close>, its token-major transpose and the fixed-size blocks of a paged cache, the
  last one padded with zeros. An array is a nested list of float32 bit patterns, so arrays without a
  head or a token lose their inner shape; the round trips are stated for non-empty arrays.
\<close>

section \<open>Layouts\<close>

text \<open>\<^verbatim>\<open>a.transpose(1, 0, 2)\<close>, an involution on non-empty arrays.\<close>

definition swap_axes :: "'a list list \<Rightarrow> 'a list list" where
  "swap_axes a = (case a of [] \<Rightarrow> [] | h # _ \<Rightarrow> map (\<lambda>i. map (\<lambda>r. r ! i) a) [0..<length h])"

definition pack_token_major_into_blocks :: "f32 arr \<Rightarrow> int \<Rightarrow> f32 arr list result" where
  "pack_token_major_into_blocks a block_size =
    (if block_size \<le> 0 then Inl (ValueError ''block_size must be positive'') else
     let b = nat block_size; t = length a; zero = (case a of [] \<Rightarrow> [] | r # _ \<Rightarrow> map (map (\<lambda>_. 0)) r) in
     Inr (map (\<lambda>i. map (\<lambda>k. if i * b + k < t then a ! (i * b + k) else zero) [0..<b]) [0..<(t + b - 1) div b]))"

definition kvcache_to_paged_blocks :: "kv \<Rightarrow> int \<Rightarrow> (f32 arr list list \<times> f32 arr list list) result" where
  "kvcache_to_paged_blocks c block_size =
    (if block_size \<le> 0 then Inl (ValueError ''block_size must be positive'') else
     res_bind (res_map (\<lambda>l. pack_token_major_into_blocks (swap_axes (lkey l)) block_size) (kv_layers c)) (\<lambda>ks.
     res_bind (res_map (\<lambda>l. pack_token_major_into_blocks (swap_axes (lval l)) block_size) (kv_layers c)) (\<lambda>vs.
       Inr (ks, vs))))"

definition unpack_blocks :: "nat \<Rightarrow> f32 arr list \<Rightarrow> f32 arr" where
  "unpack_blocks t blocks = swap_axes (take t (concat blocks))"

definition paged_blocks_to_kvcache :: "f32 arr list list \<Rightarrow> f32 arr list list \<Rightarrow> model_spec \<Rightarrow> int list \<Rightarrow> int list option
    \<Rightarrow> kv result" where
  "paged_blocks_to_kvcache k_blocks v_blocks spec positions token_ids =
    (if length k_blocks \<noteq> length v_blocks then Inl (ValueError ''k_blocks/v_blocks length mismatch'') else
     Inr \<lparr>kv_spec = spec, kv_layers = map2 (\<lambda>k v. \<lparr>lkey = unpack_blocks (length positions) k,
         lval = unpack_blocks (length positions) v\<rparr>) k_blocks v_blocks,
       kv_positions = positions, kv_token_ids = token_ids\<rparr>)"

section \<open>Round trip\<close>

lemma swap_axes_regular:
  assumes "regular (n, t, d) a" "0 < n"
  shows "length (swap_axes a) = t" "\<And>i. i < t \<Longrightarrow> swap_axes a ! i = map (\<lambda>r. r ! i) a"
    "regular (t, n, d) (swap_axes a)"
proof -
  obtain h a' where a: "a = h # a'" using assms by (cases a) (auto simp: regular_def)
  have l: "length h = t" using assms(1) by (simp add: a regular_def)
  show "length (swap_axes a) = t" "\<And>i. i < t \<Longrightarrow> swap_axes a ! i = map (\<lambda>r. r ! i) a"
    using l by (simp_all add: a swap_axes_def)
  show "regular (t, n, d) (swap_axes a)" using assms(1) l by (auto simp: a swap_axes_def regular_def)
qed

lemma swap_swap: assumes "regular (n, t, d) a" "0 < n" "0 < t" shows "swap_axes (swap_axes a) = a"
proof (rule nth_equalityI)
  note s = swap_axes_regular [OF assms(1,2)]
  note ss = swap_axes_regular [OF s(3) assms(3)]
  have n: "length a = n" using assms(1) by (simp add: regular_def)
  show "length (swap_axes (swap_axes a)) = length a" by (simp add: ss(1) n)
  fix i assume "i < length (swap_axes (swap_axes a))"
  then have i: "i < n" by (simp add: ss(1))
  have "swap_axes (swap_axes a) ! i = map (\<lambda>r. r ! i) (swap_axes a)" by (rule ss(2) [OF i])
  also have "\<dots> = a ! i"
  proof (rule nth_equalityI)
    show "length (map (\<lambda>r. r ! i) (swap_axes a)) = length (a ! i)" using s(1) assms(1) i n by (auto simp: regular_def)
    fix j assume "j < length (map (\<lambda>r. r ! i) (swap_axes a))"
    then show "map (\<lambda>r. r ! i) (swap_axes a) ! j = a ! i ! j" using s i n by simp
  qed
  finally show "swap_axes (swap_axes a) ! i = a ! i" .
qed

text \<open>Slot \<open>i\<close> of the sequence is slot \<open>i mod b\<close> of block \<open>i div b\<close>.\<close>

lemma pack_nth:
  assumes "pack_token_major_into_blocks a (int b) = Inr bs" "i < length a"
  shows "0 < b \<and> i div b < length bs \<and> bs ! (i div b) ! (i mod b) = a ! i"
proof -
  have b: "0 < b" using assms(1) by (auto simp: pack_token_major_into_blocks_def split: if_splits)
  have q: "i div b < (length a + b - 1) div b"
  proof -
    have "(i + b) div b \<le> (length a + b - 1) div b" using assms(2) by (intro div_le_mono) simp
    then show ?thesis using b by simp
  qed
  have "i div b * b + i mod b = i" by simp
  then show ?thesis using assms b q
    by (auto simp: pack_token_major_into_blocks_def Let_def split: if_splits)
qed

lemma pack_total: "0 < b \<Longrightarrow> \<exists>bs. pack_token_major_into_blocks a (int b) = Inr bs"
  by (simp add: pack_token_major_into_blocks_def Let_def)

lemma pack_lengths:
  assumes "pack_token_major_into_blocks a (int b) = Inr bs"
  shows "length bs = (length a + b - 1) div b" "\<And>x. x \<in> set bs \<Longrightarrow> length x = b"
  using assms by (auto simp: pack_token_major_into_blocks_def Let_def split: if_splits)

lemma unpack_pack:
  assumes "pack_token_major_into_blocks a (int b) = Inr bs" shows "take (length a) (concat bs) = a"
proof (rule nth_equalityI)
  note l = pack_lengths [OF assms]
  have b: "0 < b" using assms by (auto simp: pack_token_major_into_blocks_def split: if_splits)
  have lc: "length (concat bs) = length bs * b" using l(2) by (induction bs) auto
  have ge: "length a \<le> length bs * b" unfolding l(1)
  proof -
    have "length a + b - 1 = (length a + b - 1) div b * b + (length a + b - 1) mod b" by simp
    moreover have "(length a + b - 1) mod b \<le> b - 1" using mod_less_divisor [OF b, of "length a + b - 1"] by linarith
    ultimately show "length a \<le> (length a + b - 1) div b * b" using b by linarith
  qed
  then show "length (take (length a) (concat bs)) = length a" by (simp add: lc)
  fix i assume "i < length (take (length a) (concat bs))"
  then have i: "i < length a" using ge lc by simp
  note p = pack_nth [OF assms i]
  have "concat bs ! (i div b * b + i mod b) = bs ! (i div b) ! (i mod b)"
    by (rule concat_uniform_nth [OF l(2)]) (use p in auto)
  then show "take (length a) (concat bs) ! i = a ! i" using p i by simp
qed

lemma unpack_blocks_pack:
  assumes "regular (n, t, d) a" "0 < n" "0 < t" "pack_token_major_into_blocks (swap_axes a) (int b) = Inr bs"
  shows "unpack_blocks t bs = a"
  using unpack_pack [OF assms(4)] swap_swap [OF assms(1-3)] swap_axes_regular(1) [OF assms(1,2)] by (simp add: unpack_blocks_def)

lemma to_paged:
  assumes "kvcache_to_paged_blocks c (int b) = Inr (ks, vs)"
  shows "length ks = length (kv_layers c)" "length vs = length (kv_layers c)" "0 < b"
    "\<And>i. i < length (kv_layers c) \<Longrightarrow> pack_token_major_into_blocks (swap_axes (lkey (kv_layers c ! i))) (int b) = Inr (ks ! i)"
    "\<And>i. i < length (kv_layers c) \<Longrightarrow> pack_token_major_into_blocks (swap_axes (lval (kv_layers c ! i))) (int b) = Inr (vs ! i)"
  using assms res_map_nth by (auto simp: kvcache_to_paged_blocks_def split: if_splits dest: res_map_nth)

text \<open>A cache laid out in the engine's fixed-size blocks, whatever the block size, and read back with its
  positions is the same cache: every head, token and component is in its slot and the padding of the last
  block is dropped.\<close>

theorem paged_roundtrip:
  assumes "shaped_kv (n, t, d) c" "length (kv_positions c) = t" "kvcache_to_paged_blocks c (int b) = Inr (ks, vs)"
  shows "paged_blocks_to_kvcache ks vs (kv_spec c) (kv_positions c) (kv_token_ids c) = Inr c
    \<and> (\<forall>x\<in>set ks. length x = (t + b - 1) div b)"
proof -
  note P = to_paged [OF assms(3)]
  have r: "regular (n, t, d) (lkey l)" "regular (n, t, d) (lval l)" if "l \<in> set (kv_layers c)" for l
    using assms(1) that by (auto simp: shaped_kv_def)
  have nt: "0 < n" "0 < t" using assms(1) by (auto simp: shaped_kv_def)
  have "map2 (\<lambda>k v. \<lparr>lkey = unpack_blocks t k, lval = unpack_blocks t v\<rparr>) ks vs = kv_layers c"
  proof (rule nth_equalityI)
    show "length (map2 (\<lambda>k v. \<lparr>lkey = unpack_blocks t k, lval = unpack_blocks t v\<rparr>) ks vs) = length (kv_layers c)"
      by (simp add: P(1,2))
    fix i assume "i < length (map2 (\<lambda>k v. \<lparr>lkey = unpack_blocks t k, lval = unpack_blocks t v\<rparr>) ks vs)"
    then have i: "i < length (kv_layers c)" by (simp add: P(1,2))
    have "unpack_blocks t (ks ! i) = lkey (kv_layers c ! i)" "unpack_blocks t (vs ! i) = lval (kv_layers c ! i)"
      by (rule unpack_blocks_pack [OF r(1) [OF nth_mem [OF i]] nt P(4) [OF i]],
          rule unpack_blocks_pack [OF r(2) [OF nth_mem [OF i]] nt P(5) [OF i]])
    then show "map2 (\<lambda>k v. \<lparr>lkey = unpack_blocks t k, lval = unpack_blocks t v\<rparr>) ks vs ! i = kv_layers c ! i"
      using i by (simp add: P(1,2))
  qed
  moreover have "length x = (t + b - 1) div b" if x: "x \<in> set ks" for x
  proof -
    obtain i where i: "i < length (kv_layers c)" "x = ks ! i" using x unfolding in_set_conv_nth P(1) by blast
    have "length (swap_axes (lkey (kv_layers c ! i))) = t" 
      by (rule swap_axes_regular(1) [OF r(1) [OF nth_mem [OF i(1)]] nt(1)])
    with pack_lengths(1) [OF P(4) [OF i(1)]] show ?thesis unfolding i(2) by (simp only:)
  qed
  ultimately show ?thesis using assms(2) by (cases c) (simp add: paged_blocks_to_kvcache_def P(1,2))
qed

abbreviation two_tokens :: kv where
  "two_tokens \<equiv> \<lparr>kv_spec = demo_spec ''fp32'', kv_layers = [\<lparr>lkey = [[[1, 2], [3, 4]]], lval = [[[5, 6], [7, 8]]]\<rparr>],
     kv_positions = [0, 1], kv_token_ids = None\<rparr>"

theorem paged_roundtrip_witness:
  "kvcache_to_paged_blocks two_tokens 3 = Inr ([[[[[1, 2]], [[3, 4]], [[0, 0]]]]], [[[[[5, 6]], [[7, 8]], [[0, 0]]]]])
    \<and> paged_blocks_to_kvcache [[[[[1, 2]], [[3, 4]], [[0, 0]]]]] [[[[[5, 6]], [[7, 8]], [[0, 0]]]]] (demo_spec ''fp32'') [0, 1] None
      = Inr two_tokens"
proof -
  have p: "kvcache_to_paged_blocks two_tokens (int 3) = Inr ([[[[[1, 2]], [[3, 4]], [[0, 0]]]]], [[[[[5, 6]], [[7, 8]], [[0, 0]]]]])"
    by (simp add: kvcache_to_paged_blocks_def pack_token_major_into_blocks_def swap_axes_def Let_def upt_rec)
  show ?thesis using paged_roundtrip [OF _ _ p, of 1 2 2] p by (simp add: shaped_kv_def regular_def)
qed

section \<open>Cartridges\<close>

text \<open>\<^verbatim>\<open>dexa/cartridge/artifact.py\<close>: a trained compact cache of one length for a corpus.\<close>

record 'm cartridge =
  ca_spec :: model_spec
  ca_keys :: "f32 arr list"
  ca_values :: "f32 arr list"
  ca_positions :: "int list"
  ca_logical :: nat
  ca_meta :: 'm

definition ca_shape :: "'m cartridge \<Rightarrow> nat \<times> nat \<times> nat \<times> nat" where
  "ca_shape c = (length (ca_keys c), case ca_keys c of [] \<Rightarrow> (0, 0, 0) | a # _ \<Rightarrow> arr_shape a)"

definition ca_t :: "'m cartridge \<Rightarrow> nat" where
  "ca_t c = fst (snd (snd (ca_shape c)))"

text \<open>\<open>None\<close> is the float infinity.\<close>

definition ca_compression_ratio :: "'m cartridge \<Rightarrow> rat option" where
  "ca_compression_ratio c = (if ca_t c \<noteq> 0 then Some (rat_of_nat (ca_logical c) / rat_of_nat (ca_t c)) else None)"

definition ca_nbytes :: "'m cartridge \<Rightarrow> nat" where
  "ca_nbytes c = 4 * length (concat (concat (concat (ca_keys c)))) + 4 * length (concat (concat (concat (ca_values c))))"

definition to_compact_cache :: "'m cartridge \<Rightarrow> f32 list compact_cache result" where
  "to_compact_cache c = (let sp = ca_spec c in
     res_bind (res_map (\<lambda>li. res_bind (get_at (ca_keys c) li) (\<lambda>k. res_bind (get_at (ca_values c) li) (\<lambda>v.
       res_bind (res_map (get_at k) [0..<n_kv_heads sp]) (\<lambda>ks. res_bind (res_map (get_at v) [0..<n_kv_heads sp]) (\<lambda>vs.
         Inr \<lparr>ckeys = ks, cvalues = vs, cbiases = replicate (n_kv_heads sp) (replicate (ca_t c) 0),
           cpositions = replicate (n_kv_heads sp) (ca_positions c)\<rparr>))))) [0..<n_layers sp])
     (\<lambda>layers. Inr \<lparr>cc_spec = sp, cc_layers = layers, cc_logical = ca_logical c, cc_method = ''cartridge''\<rparr>))"

definition from_layer :: "model_spec \<Rightarrow> nat \<Rightarrow> f32 list compact_layer \<Rightarrow> (f32 arr \<times> f32 arr) result" where
  "from_layer sp t l = res_bind (res_map (\<lambda>h. res_bind (get_at (ckeys l) h) (\<lambda>k.
       if length k \<noteq> t then Inl (ValueError ''Cartridge requires uniform compact length t across heads'')
       else res_bind (get_at (cvalues l) h) (\<lambda>v. Inr (k, v)))) [0..<n_kv_heads sp]) (\<lambda>rows. Inr (map fst rows, map snd rows))"

text \<open>The metadata \<^verbatim>\<open>{**cc.meta, **meta}\<close> is the argument \<open>m\<close>.\<close>

definition from_compact_cache :: "f32 list compact_cache \<Rightarrow> 'm \<Rightarrow> 'm cartridge result" where
  "from_compact_cache c m = res_bind (get_at (cc_layers c) 0) (\<lambda>l0. res_bind (get_at (ckeys l0) 0) (\<lambda>k0.
     let sp = cc_spec c; t = length k0; z = replicate (n_kv_heads sp) (replicate t (replicate (head_dim sp) 0)) in
     res_bind (res_map (\<lambda>(li, l). if n_layers sp \<le> li \<and> 0 < n_kv_heads sp then Inl IndexError else from_layer sp t l)
       (zip [0..<length (cc_layers c)] (cc_layers c))) (\<lambda>saved. res_bind (get_at (cpositions l0) 0) (\<lambda>ps.
       let rows = take (n_layers sp) saved @ replicate (n_layers sp - length saved) (z, z) in
       Inr \<lparr>ca_spec = sp, ca_keys = map fst rows, ca_values = map snd rows, ca_positions = ps, ca_logical = cc_logical c,
         ca_meta = m\<rparr>))))"

section \<open>Serving a cartridge\<close>

definition cartridge_to_token_major :: "f32 arr list \<Rightarrow> f32 arr list \<Rightarrow> (f32 arr list \<times> f32 arr list) result" where
  "cartridge_to_token_major keys values =
    (if map arr_shape keys \<noteq> map arr_shape values then Inl (ValueError ''keys/values shape mismatch'')
     else Inr (map swap_axes keys, map swap_axes values))"

definition token_major_to_cartridge :: "f32 arr list \<Rightarrow> f32 arr list \<Rightarrow> (f32 arr list \<times> f32 arr list) result" where
  "token_major_to_cartridge ks vs =
    (if length ks \<noteq> length vs then Inl (ValueError ''k_layers/v_layers length mismatch'')
     else if ks = [] then Inl (ValueError ''need at least one array to stack'')
     else if \<not> (same_shape ks \<and> same_shape vs) then Inl (ValueError ''all input arrays must have the same shape'')
     else Inr (map swap_axes ks, map swap_axes vs))"

definition query_positions :: "'m cartridge \<Rightarrow> int \<Rightarrow> int list result" where
  "query_positions c n = (if n < 0 then Inl (ValueError ''n_query must be non-negative'')
     else Inr (map (\<lambda>i. int (ca_logical c) + int i) [0..<nat n]))"

definition assert_cartridge_matches_spec :: "'m cartridge \<Rightarrow> model_spec \<Rightarrow> unit result" where
  "assert_cartridge_matches_spec c sp = (case ca_shape c of (L, n, t, d) \<Rightarrow>
     if L \<noteq> n_layers sp \<or> n \<noteq> n_kv_heads sp \<or> d \<noteq> head_dim sp \<or> length (ca_positions c) \<noteq> t
     then Inl (ValueError ''cartridge does not match the served model'') else Inr ())"

text \<open>The handle is a formatted string of the model name, the logical length and the shape; it is modelled
  by the triple.\<close>

type_synonym handle = "string \<times> nat \<times> (nat \<times> nat \<times> nat \<times> nat)"

definition cartridge_handle :: "'m cartridge \<Rightarrow> handle" where
  "cartridge_handle c = (ms_name (ca_spec c), ca_logical c, ca_shape c)"

record 'm server =
  sv_spec :: model_spec
  sv_cartridges :: "(handle, 'm cartridge) dict"

definition load_cartridge :: "'m cartridge \<Rightarrow> 'm server \<Rightarrow> handle result \<times> 'm server" where
  "load_cartridge c s = (case assert_cartridge_matches_spec c (sv_spec s) of Inl e \<Rightarrow> (Inl e, s)
     | Inr _ \<Rightarrow> (Inr (cartridge_handle c), s\<lparr>sv_cartridges := AList.update (cartridge_handle c) c (sv_cartridges s)\<rparr>))"

definition inject_prefix :: "int \<Rightarrow> 'm cartridge \<Rightarrow> unit result" where
  "inject_prefix block_size c = res_bind (cartridge_to_token_major (ca_keys c) (ca_values c)) (\<lambda>(ks, vs).
     res_bind (res_map (\<lambda>k. pack_token_major_into_blocks k block_size) ks) (\<lambda>kb.
     res_bind (res_map (\<lambda>v. pack_token_major_into_blocks v block_size) vs) (\<lambda>vb.
       Inl (RuntimeError ''attach_to_runner: provide the site shim''))))"

lemma from_layer_uniform:
  assumes "length (ckeys l) = n_kv_heads sp" "length (cvalues l) = n_kv_heads sp" "\<forall>k\<in>set (ckeys l). length k = t"
  shows "from_layer sp t l = Inr (ckeys l, cvalues l)"
proof -
  have "res_map (\<lambda>h. res_bind (get_at (ckeys l) h) (\<lambda>k.
       if length k \<noteq> t then Inl (ValueError ''Cartridge requires uniform compact length t across heads'')
       else res_bind (get_at (cvalues l) h) (\<lambda>v. Inr (k, v)))) [0..<n_kv_heads sp]
    = Inr (map (\<lambda>h. (ckeys l ! h, cvalues l ! h)) [0..<n_kv_heads sp])"
    using assms by (auto simp: res_map_Inr_iff list_all2_conv_all_nth get_at_def)
  then show ?thesis using map_nth [of "ckeys l"] map_nth [of "cvalues l"] by (simp add: from_layer_def comp_def assms(1,2))
qed

lemma res_map_get_at: "res_map (get_at xs) [0..<length xs] = Inr xs"
  by (simp add: res_map_Inr_iff list_all2_conv_all_nth get_at_def)

text \<open>C32. A compact cache of one length turned into a cartridge and served again keeps its keys, values and
  logical length, but its attention biases become zero and every head gets the positions of layer 0, head 0:
  an Attention-Matching warm start loses the biases that were fitted with its values.\<close>

theorem cartridge_roundtrip:
  assumes u: "uniform_cc t c" and f: "from_compact_cache c m = Inr ca"
  shows "ca_shape ca = (n_layers (cc_spec c), n_kv_heads (cc_spec c), t, snd (snd (arr_shape (hd (ca_keys ca)))))
    \<and> to_compact_cache ca = Inr (c\<lparr>cc_method := ''cartridge'', cc_layers := map (\<lambda>l. l\<lparr>
      cbiases := replicate (n_kv_heads (cc_spec c)) (replicate t 0),
      cpositions := replicate (n_kv_heads (cc_spec c)) (hd (cpositions (hd (cc_layers c))))\<rparr>) (cc_layers c)\<rparr>)"
proof -
  let ?sp = "cc_spec c" and ?ls = "cc_layers c"
  obtain l0 ls where L: "?ls = l0 # ls" using u by (cases ?ls) (auto simp: uniform_cc_def)
  obtain k0 ks where K: "ckeys l0 = k0 # ks" using u L by (cases "ckeys l0") (auto simp: uniform_cc_def)
  obtain p0 ps where P: "cpositions l0 = p0 # ps" using u L by (cases "cpositions l0") (auto simp: uniform_cc_def)
  have t: "length k0 = t" using u L K by (auto simp: uniform_cc_def)
  have len: "length ?ls = n_layers ?sp" using u by (simp add: uniform_cc_def)
  have hs: "length (ckeys l) = n_kv_heads ?sp" "length (cvalues l) = n_kv_heads ?sp" "\<forall>k\<in>set (ckeys l). length k = t"
    if "l \<in> set ?ls" for l using u that by (auto simp: uniform_cc_def)
  have fl: "from_layer ?sp t l = Inr (ckeys l, cvalues l)" if "l \<in> set ?ls" for l
    by (rule from_layer_uniform [OF hs [OF that]])
  have saved: "res_map (\<lambda>(li, l). if n_layers ?sp \<le> li \<and> 0 < n_kv_heads ?sp then Inl IndexError else from_layer ?sp t l)
      (zip [0..<length ?ls] ?ls) = Inr (map (\<lambda>l. (ckeys l, cvalues l)) ?ls)"
    by (auto simp: res_map_Inr_iff list_all2_conv_all_nth len fl)
  have ca: "ca = \<lparr>ca_spec = ?sp, ca_keys = map ckeys ?ls, ca_values = map cvalues ?ls, ca_positions = p0,
      ca_logical = cc_logical c, ca_meta = m\<rparr>"
  proof -
    have g: "get_at ?ls 0 = Inr l0" "get_at (ckeys l0) 0 = Inr k0" "get_at (cpositions l0) 0 = Inr p0"
      by (simp_all add: get_at_def L K P)
    show ?thesis using f len unfolding from_compact_cache_def g res_bind.simps Let_def t saved by (auto simp: comp_def)
  qed
  have cat: "ca_t ca = t" using K t L by (simp add: ca_t_def ca_shape_def ca arr_shape_def)
  have row: "res_map (get_at (ckeys l)) [0..<n_kv_heads ?sp] = Inr (ckeys l)"
      "res_map (get_at (cvalues l)) [0..<n_kv_heads ?sp] = Inr (cvalues l)" if "l \<in> set ?ls" for l
    using hs [OF that] res_map_get_at [of "ckeys l"] res_map_get_at [of "cvalues l"] by simp_all
  have layers: "res_map (\<lambda>li. res_bind (get_at (ca_keys ca) li) (\<lambda>k. res_bind (get_at (ca_values ca) li) (\<lambda>v.
       res_bind (res_map (get_at k) [0..<n_kv_heads ?sp]) (\<lambda>ks. res_bind (res_map (get_at v) [0..<n_kv_heads ?sp]) (\<lambda>vs.
         Inr \<lparr>ckeys = ks, cvalues = vs, cbiases = replicate (n_kv_heads ?sp) (replicate (ca_t ca) 0),
           cpositions = replicate (n_kv_heads ?sp) (ca_positions ca)\<rparr>))))) [0..<n_layers ?sp]
    = Inr (map (\<lambda>l. l\<lparr>cbiases := replicate (n_kv_heads ?sp) (replicate t 0), cpositions := replicate (n_kv_heads ?sp) p0\<rparr>) ?ls)"
  proof (subst res_map_Inr_iff, unfold list_all2_conv_all_nth, intro conjI allI impI)
    fix i assume "i < length [0..<n_layers ?sp]"
    then have i: "i < length ?ls" by (simp add: len)
    have g: "get_at (ca_keys ca) i = Inr (ckeys (?ls ! i))" "get_at (ca_values ca) i = Inr (cvalues (?ls ! i))"
      using i by (simp_all add: ca get_at_def)
    show "res_bind (get_at (ca_keys ca) ([0..<n_layers ?sp] ! i)) (\<lambda>k. res_bind (get_at (ca_values ca) ([0..<n_layers ?sp] ! i)) (\<lambda>v.
       res_bind (res_map (get_at k) [0..<n_kv_heads ?sp]) (\<lambda>ks. res_bind (res_map (get_at v) [0..<n_kv_heads ?sp]) (\<lambda>vs.
         Inr \<lparr>ckeys = ks, cvalues = vs, cbiases = replicate (n_kv_heads ?sp) (replicate (ca_t ca) 0),
           cpositions = replicate (n_kv_heads ?sp) (ca_positions ca)\<rparr>))))
      = Inr (map (\<lambda>l. l\<lparr>cbiases := replicate (n_kv_heads ?sp) (replicate t 0), cpositions := replicate (n_kv_heads ?sp) p0\<rparr>) ?ls ! i)"
      using i row [OF nth_mem [OF i]] by (simp add: g len cat) (simp add: ca)
  qed (simp add: len)
  have s: "ca_shape ca = (n_layers ?sp, n_kv_heads ?sp, t, snd (snd (arr_shape (hd (ca_keys ca)))))"
    using len L K t hs(1) [of l0] by (simp add: ca_shape_def ca arr_shape_def)
  have "to_compact_cache ca = Inr \<lparr>cc_spec = ?sp, cc_layers = map (\<lambda>l. l\<lparr>cbiases := replicate (n_kv_heads ?sp) (replicate t 0),
      cpositions := replicate (n_kv_heads ?sp) p0\<rparr>) ?ls, cc_logical = cc_logical c, cc_method = ''cartridge''\<rparr>"
    using layers by (simp add: to_compact_cache_def ca Let_def)
  moreover have "hd (cpositions (hd ?ls)) = p0" by (simp add: L P)
  ultimately show ?thesis using s by (cases c) simp
qed

theorem cartridge_roundtrip_witness:
  "\<exists>ca. from_compact_cache (demo_cc 3) () = Inr ca \<and> (\<exists>cc. to_compact_cache ca = Inr cc \<and> cc_layers cc \<noteq> cc_layers (demo_cc 3))"
proof -
  obtain ca where ca: "from_compact_cache (demo_cc 3) () = Inr ca"
    by (simp add: from_compact_cache_def get_at_def from_layer_def Let_def upt_rec)
  show ?thesis using cartridge_roundtrip [OF _ ca, of 1] ca by (simp add: uniform_cc_def numeral_2_eq_2)
qed

text \<open>A registered cartridge is one whose layers, heads, head dimension and positions fit the served model,
  and a rejected one changes nothing; but the handle is built from the model's name, not the corpus's, so
  two corpora compiled to the same shape and logical length share a handle and the second replaces the
  first.\<close>

theorem register_cartridge:
  "(fst (load_cartridge c s) \<noteq> Inr (cartridge_handle c) \<longrightarrow> snd (load_cartridge c s) = s)
    \<and> (fst (load_cartridge c s) = Inr (cartridge_handle c) \<longrightarrow>
        map_of (sv_cartridges (snd (load_cartridge c s))) (cartridge_handle c) = Some c
        \<and> fst (ca_shape c) = n_layers (sv_spec s) \<and> length (ca_positions c) = ca_t c
        \<and> cartridge_handle (c\<lparr>ca_keys := map (map (map (map (\<lambda>_. 0)))) (ca_keys c), ca_meta := m\<rparr>) = cartridge_handle c)"
proof -
  have "arr_shape (map (map (map (\<lambda>_. 0))) a) = arr_shape a" for a :: "f32 arr"
    by (auto simp: arr_shape_def split: list.splits)
  then have h: "cartridge_handle (c\<lparr>ca_keys := map (map (map (map (\<lambda>_. 0)))) (ca_keys c), ca_meta := m\<rparr>) = cartridge_handle c"
    by (auto simp: cartridge_handle_def ca_shape_def split: list.splits)
  show ?thesis using h
    by (auto simp: load_cartridge_def assert_cartridge_matches_spec_def ca_t_def split: sum.splits prod.splits if_splits)
qed

theorem register_cartridge_witness:
  "\<exists>s'. load_cartridge \<lparr>ca_spec = demo_spec ''fp32'', ca_keys = [[[[1, 2]]]], ca_values = [[[[3, 4]]]], ca_positions = [0],
      ca_logical = 9, ca_meta = ()\<rparr> \<lparr>sv_spec = demo_spec ''fp32'', sv_cartridges = []\<rparr> = (Inr (''m'', 9, 1, 1, 1, 2), s')"
  using register_cartridge [of "\<lparr>ca_spec = demo_spec ''fp32'', ca_keys = [[[[1, 2]]]], ca_values = [[[[3, 4]]]], ca_positions = [0],
      ca_logical = 9, ca_meta = ()\<rparr>" "\<lparr>sv_spec = demo_spec ''fp32'', sv_cartridges = []\<rparr>" "()"]
  by (simp add: load_cartridge_def assert_cartridge_matches_spec_def ca_shape_def arr_shape_def cartridge_handle_def)

end
