(* ===== verification/Connector.thy ===== *)
theory Connector imports Serving Paged begin

text \<open>
  \<^verbatim>\<open>dexa/engine/vllm_connector.py\<close>: the key of a prompt's cache, the load-or-recompute decision, and the
  hooks of the V1 connector on the scheduler and on the worker. The engine's paged tensors are lists of
  physical blocks per layer, a block holding \<^verbatim>\<open>[block_size, n_kv_heads, head_dim]\<close>; the store is a
  \<open>session_backing\<close> of \<^verbatim>\<open>Serving\<close>, interpreted here on the blob format the connector uses. The text hash is
  a parameter. Loading with \<^verbatim>\<open>keep_native\<close> and reinterpreting the bits on the device yields the values the
  plain load decodes, so the plain load is used. A request is its id and its prompt tokens. An asynchronous
  load is a job that runs at some later point, atomically. The probes for attribute names across vLLM releases, the
  K/V axis split and the CUDA streams are not modelled.
\<close>

section \<open>Keys\<close>

definition is_alnum :: "char \<Rightarrow> bool" where
  "is_alnum c \<longleftrightarrow> CHR ''0'' \<le> c \<and> c \<le> CHR ''9'' \<or> CHR ''A'' \<le> c \<and> c \<le> CHR ''Z'' \<or> CHR ''a'' \<le> c \<and> c \<le> CHR ''z''"

definition safe_name :: "string \<Rightarrow> string" where
  "safe_name s = map (\<lambda>c. if is_alnum c \<or> c \<in> set ''-_.'' then c else CHR ''_'') s"

text \<open>A missing model name and an empty one are both falsy.\<close>

definition prefix_key :: "(byte list \<Rightarrow> string) \<Rightarrow> string \<Rightarrow> int list \<Rightarrow> string result" where
  "prefix_key H model tokens = res_bind (hash_tokens H tokens) (\<lambda>digest.
     Inr (if model \<noteq> [] then safe_name model @ ''-'' @ digest else ''dexa-'' @ digest))"

section \<open>Load or recompute\<close>

definition load_decision :: "nat \<Rightarrow> string \<Rightarrow> int \<Rightarrow> rat \<Rightarrow> bool" where
  "load_decision n policy min_load factor = (if policy = ''always'' then True else if policy = ''never'' then False
     else of_int min_load * max (1 / 10 ^ 6) factor \<le> rat_of_nat n)"

definition contention_factor_from_busy :: "rat \<Rightarrow> rat \<Rightarrow> rat" where
  "contention_factor_from_busy busy lo = (let busy = min 1 (max 0 busy); lo = min 1 (max 0 lo) in 1 - busy * (1 - lo))"

section \<open>State\<close>

record config =
  cf_model :: string
  cf_spec :: model_spec
  cf_block :: int
  cf_policy :: string
  cf_min_load :: int
  cf_aware :: bool
  cf_factor :: rat
  cf_floor :: rat
  cf_batch :: nat
  cf_seqs :: nat
  cf_async :: bool

definition default_config :: "string \<Rightarrow> model_spec \<Rightarrow> int \<Rightarrow> nat \<Rightarrow> nat \<Rightarrow> config" where
  "default_config model sp block batch seqs = \<lparr>cf_model = model, cf_spec = sp, cf_block = block, cf_policy = ''adaptive'',
     cf_min_load = 32768, cf_aware = False, cf_factor = 1, cf_floor = 1/10, cf_batch = batch, cf_seqs = seqs, cf_async = True\<rparr>"

record meta =
  md_loads :: "(string, string \<times> nat list) dict"
  md_saves :: "(string, string \<times> nat list \<times> int list) dict"

type_synonym layer_cache = "f32 arr list \<times> f32 arr list"

text \<open>A submitted load with its outcome once the pool has run it.\<close>

record job =
  jb_key :: string
  jb_blocks :: "nat list"
  jb_done :: "unit result option"

record 's conn =
  cn_store :: 's
  cn_busy :: rat
  cn_needs :: "(string, string) dict"
  cn_blocks :: "(string, nat list) dict"
  cn_caches :: "(string, layer_cache) dict"
  cn_meta :: "meta option"
  cn_saving :: "(string, f32 arr list list \<times> f32 arr list list) dict"
  cn_pending :: "(string, job) dict"

definition new_conn :: "'s \<Rightarrow> 's conn" where
  "new_conn st = \<lparr>cn_store = st, cn_busy = 0, cn_needs = [], cn_blocks = [], cn_caches = [], cn_meta = None, cn_saving = [],
     cn_pending = []\<rparr>"

section \<open>The store helpers\<close>

definition store_kvcache :: "(byte list \<Rightarrow> string) \<Rightarrow> 's backing \<Rightarrow> string \<Rightarrow> int list \<Rightarrow> state \<Rightarrow> 's \<Rightarrow> (string \<times> 's) result" where
  "store_kvcache H bk model tokens kv st = res_bind (prefix_key H model tokens) (\<lambda>key.
     res_bind (bk_save bk st key kv) (\<lambda>(n, st'). Inr (key, st')))"

definition load_kvcache_for :: "(byte list \<Rightarrow> string) \<Rightarrow> 's backing \<Rightarrow> string \<Rightarrow> int list \<Rightarrow> 's \<Rightarrow> state option result" where
  "load_kvcache_for H bk model tokens st = res_bind (prefix_key H model tokens) (\<lambda>key.
     if \<not> bk_has bk st key then Inr None else res_bind (bk_load bk st key) (\<lambda>kv. Inr (Some kv)))"

definition has_prefix :: "(byte list \<Rightarrow> string) \<Rightarrow> 's backing \<Rightarrow> string \<Rightarrow> int list \<Rightarrow> 's \<Rightarrow> bool result" where
  "has_prefix H bk model tokens st = res_bind (prefix_key H model tokens) (\<lambda>key. Inr (bk_has bk st key))"

section \<open>The scheduler side\<close>

definition should_load :: "config \<Rightarrow> nat \<Rightarrow> 's conn \<Rightarrow> bool" where
  "should_load cf n c = load_decision n (cf_policy cf) (cf_min_load cf)
     (if cf_aware cf \<and> (0 < cf_batch cf \<or> 0 < cf_seqs cf) then contention_factor_from_busy (cn_busy c) (cf_floor cf) else cf_factor cf)"

definition get_num_new_matched_tokens :: "(byte list \<Rightarrow> string) \<Rightarrow> 's backing \<Rightarrow> config \<Rightarrow> string \<times> int list \<Rightarrow> nat \<Rightarrow> 's conn
    \<Rightarrow> (nat \<times> bool) result \<times> 's conn" where
  "get_num_new_matched_tokens H bk cf req computed c = (case req of (rid, tokens) \<Rightarrow>
     case prefix_key H (cf_model cf) tokens of Inl e \<Rightarrow> (Inl e, c) | Inr key \<Rightarrow>
     if \<not> bk_has bk (cn_store c) key then (Inr (0, False), c) else
     if cf_block cf = 0 then (Inl ZeroDivisionError, c) else
     let n0 = min (int (length tokens) - int computed) (int (length tokens) - 1);
         n = n0 div cf_block cf * cf_block cf in
     if n \<le> 0 then (Inr (0, False), c)
     else if \<not> should_load cf (nat n) c then (Inr (0, False), c)
     else (Inr (nat n, cf_async cf), c\<lparr>cn_needs := AList.update rid key (cn_needs c)\<rparr>))"

datatype blocks = Group "nat list" | Single nat

definition block_ids :: "blocks list \<Rightarrow> nat list" where
  "block_ids bs = concat (map (\<lambda>b. case b of Group xs \<Rightarrow> xs | Single x \<Rightarrow> [x]) bs)"

definition update_state_after_alloc :: "string \<Rightarrow> blocks list \<Rightarrow> nat \<Rightarrow> 's conn \<Rightarrow> 's conn" where
  "update_state_after_alloc rid bs n_external c =
    (if map_of (cn_needs c) rid \<noteq> None \<and> 0 < n_external
     then c\<lparr>cn_blocks := AList.update rid (block_ids bs) (cn_blocks c)\<rparr> else c)"

record new_req =
  nr_id :: string
  nr_prompt :: "int list"
  nr_computed :: nat
  nr_blocks :: "blocks list"

record sched_output =
  so_total :: nat
  so_new :: "new_req list"
  so_cached :: nat
  so_num :: "(string, nat) dict"

definition get_default :: "'v \<Rightarrow> ('k, 'v) dict \<Rightarrow> 'k \<Rightarrow> 'v" where
  "get_default v d k = (case map_of d k of None \<Rightarrow> v | Some x \<Rightarrow> x)"

definition observe_busy :: "config \<Rightarrow> sched_output \<Rightarrow> rat \<Rightarrow> rat" where
  "observe_busy cf so busy = (if 0 < cf_batch cf \<or> 0 < cf_seqs cf then
     (let tok_full = (if cf_batch cf \<noteq> 0 then rat_of_nat (so_total so) / rat_of_nat (cf_batch cf) else 0);
          seq_full = (if cf_seqs cf \<noteq> 0 then rat_of_nat (length (so_new so) + so_cached so) / rat_of_nat (cf_seqs cf) else 0);
          fullness = min 1 (max tok_full seq_full) in 7/10 * busy + 3/10 * fullness)
     else busy)"

fun plan_saves :: "(byte list \<Rightarrow> string) \<Rightarrow> 's backing \<Rightarrow> config \<Rightarrow> 's conn \<Rightarrow> (string, nat) dict \<Rightarrow> new_req list
    \<Rightarrow> (string, string \<times> nat list \<times> int list) dict \<Rightarrow> (string, string \<times> nat list \<times> int list) dict result" where
  "plan_saves H bk cf c num [] saves = Inr saves"
| "plan_saves H bk cf c num (r # rs) saves =
    (if map_of (cn_needs c) (nr_id r) \<noteq> None then plan_saves H bk cf c num rs saves
     else if nr_computed r + get_default 0 num (nr_id r) < length (nr_prompt r) then plan_saves H bk cf c num rs saves
     else res_bind (prefix_key H (cf_model cf) (nr_prompt r)) (\<lambda>key.
       if bk_has bk (cn_store c) key then plan_saves H bk cf c num rs saves
       else plan_saves H bk cf c num rs (AList.update (nr_id r) (key, block_ids (nr_blocks r), nr_prompt r) saves)))"

definition build_connector_meta :: "(byte list \<Rightarrow> string) \<Rightarrow> 's backing \<Rightarrow> config \<Rightarrow> sched_output \<Rightarrow> 's conn \<Rightarrow> meta result \<times> 's conn" where
  "build_connector_meta H bk cf so c = (let c1 = c\<lparr>cn_busy := observe_busy cf so (cn_busy c)\<rparr>;
     loads = map (\<lambda>(rid, key). (rid, key, get_default [] (cn_blocks c) rid)) (cn_needs c) in
     case plan_saves H bk cf c (so_num so) (so_new so) [] of Inl e \<Rightarrow> (Inl e, c1)
     | Inr saves \<Rightarrow> (Inr \<lparr>md_loads = loads, md_saves = saves\<rparr>, c1\<lparr>cn_needs := [], cn_blocks := []\<rparr>))"

definition request_finished :: "'s conn \<Rightarrow> (bool \<times> unit option) \<times> 's conn" where
  "request_finished c = ((False, None), c)"

section \<open>The worker side\<close>

definition bind_connector_metadata :: "meta \<Rightarrow> 's conn \<Rightarrow> 's conn" where
  "bind_connector_metadata m c = c\<lparr>cn_meta := Some m\<rparr>"

definition register_kv_caches :: "(string, layer_cache) dict \<Rightarrow> 's conn \<Rightarrow> 's conn" where
  "register_kv_caches d c = c\<lparr>cn_caches := d\<rparr>"

text \<open>\<^verbatim>\<open>dst[phys] = src[:n]\<close> and \<^verbatim>\<open>index_select\<close>.\<close>

definition scatter :: "nat list \<Rightarrow> 'a list \<Rightarrow> 'a list \<Rightarrow> 'a list result" where
  "scatter ids src dst = (if \<forall>i\<in>set (take (length src) ids). i < length dst
     then Inr (fold (\<lambda>(i, b) d. d[i := b]) (zip ids src) dst) else Inl IndexError)"

definition gather :: "nat list \<Rightarrow> 'a list \<Rightarrow> 'a list result" where
  "gather ids src = (if \<forall>i\<in>set ids. i < length src then Inr (map ((!) src) ids) else Inl IndexError)"

fun load_layers :: "nat list \<Rightarrow> f32 arr list list \<Rightarrow> f32 arr list list \<Rightarrow> (string, layer_cache) dict
    \<Rightarrow> unit result \<times> (string, layer_cache) dict" where
  "load_layers ids ks vs [] = (Inr (), [])"
| "load_layers ids (k # ks) (v # vs) ((name, kd, vd) # cs) = (case scatter ids k kd of
     Inl e \<Rightarrow> (Inl e, (name, kd, vd) # cs)
   | Inr kd' \<Rightarrow> (case scatter ids v vd of Inl e \<Rightarrow> (Inl e, (name, kd', vd) # cs)
     | Inr vd' \<Rightarrow> (case load_layers ids ks vs cs of (r, cs') \<Rightarrow> (r, (name, kd', vd') # cs'))))"
| "load_layers ids _ _ (c # cs) = (Inl IndexError, c # cs)"

definition load_one :: "'s backing \<Rightarrow> config \<Rightarrow> string \<Rightarrow> nat list \<Rightarrow> 's conn \<Rightarrow> unit result \<times> 's conn" where
  "load_one bk cf key ids c = (case bk_load bk (cn_store c) key of Inl e \<Rightarrow> (Inl e, c) | Inr (kv, _) \<Rightarrow>
     (case kvcache_to_paged_blocks kv (cf_block cf) of Inl e \<Rightarrow> (Inl e, c) | Inr (ks, vs) \<Rightarrow>
     (case load_layers ids ks vs (cn_caches c) of (r, cs) \<Rightarrow> (r, c\<lparr>cn_caches := cs\<rparr>))))"

fun start_loads :: "'s backing \<Rightarrow> config \<Rightarrow> (string, string \<times> nat list) dict \<Rightarrow> 's conn \<Rightarrow> unit result \<times> 's conn" where
  "start_loads bk cf [] c = (Inr (), c)"
| "start_loads bk cf ((rid, key, ids) # ls) c = (if cf_async cf
     then start_loads bk cf ls (c\<lparr>cn_pending := AList.update rid \<lparr>jb_key = key, jb_blocks = ids, jb_done = None\<rparr> (cn_pending c)\<rparr>)
     else (case load_one bk cf key ids c of (Inl e, c1) \<Rightarrow> (Inl e, c1) | (Inr _, c1) \<Rightarrow> start_loads bk cf ls c1))"

definition start_load_kv :: "'s backing \<Rightarrow> config \<Rightarrow> 's conn \<Rightarrow> unit result \<times> 's conn" where
  "start_load_kv bk cf c = (case cn_meta c of None \<Rightarrow> (Inr (), c) | Some m \<Rightarrow> start_loads bk cf (md_loads m) c)"

text \<open>A pool thread runs the submitted job of a request.\<close>

definition run_job :: "'s backing \<Rightarrow> config \<Rightarrow> string \<Rightarrow> 's conn \<Rightarrow> 's conn" where
  "run_job bk cf rid c = (case map_of (cn_pending c) rid of None \<Rightarrow> c | Some j \<Rightarrow>
     if jb_done j \<noteq> None then c else
     (case load_one bk cf (jb_key j) (jb_blocks j) c of (r, c1) \<Rightarrow>
       c1\<lparr>cn_pending := AList.update rid (j\<lparr>jb_done := Some r\<rparr>) (cn_pending c1)\<rparr>))"

fun save_requests :: "layer_cache \<Rightarrow> (string, string \<times> nat list \<times> int list) dict
    \<Rightarrow> (string, f32 arr list list \<times> f32 arr list list) dict \<Rightarrow> unit result \<times> (string, f32 arr list list \<times> f32 arr list list) dict" where
  "save_requests lc [] sv = (Inr (), sv)"
| "save_requests lc ((rid, key, ids, toks) # rs) sv = (case gather ids (fst lc) of Inl e \<Rightarrow> (Inl e, sv) | Inr k \<Rightarrow>
     (case gather ids (snd lc) of Inl e \<Rightarrow> (Inl e, sv) | Inr v \<Rightarrow>
       (let slot = get_default ([], []) sv rid in
        save_requests lc rs (AList.update rid (fst slot @ [k], snd slot @ [v]) sv))))"

definition save_kv_layer :: "layer_cache \<Rightarrow> 's conn \<Rightarrow> unit result \<times> 's conn" where
  "save_kv_layer lc c = (case cn_meta c of None \<Rightarrow> (Inr (), c) | Some m \<Rightarrow>
     (case save_requests lc (md_saves m) (cn_saving c) of (r, sv) \<Rightarrow> (r, c\<lparr>cn_saving := sv\<rparr>)))"

definition save_geometry :: "int list \<Rightarrow> nat \<times> int list \<times> int list" where
  "save_geometry toks = (length toks, map int [0..<length toks], toks)"

fun persist_saves :: "'s backing \<Rightarrow> config \<Rightarrow> meta \<Rightarrow> (string, f32 arr list list \<times> f32 arr list list) dict \<Rightarrow> 's
    \<Rightarrow> unit result \<times> 's" where
  "persist_saves bk cf m [] st = (Inr (), st)"
| "persist_saves bk cf m ((rid, ks, vs) # rs) st = (case map_of (md_saves m) rid of None \<Rightarrow> (Inl (KeyError rid), st)
   | Some (key, ids, toks) \<Rightarrow> (case save_geometry toks of (t, positions, token_ids) \<Rightarrow>
     (case paged_blocks_to_kvcache ks vs (cf_spec cf) positions (Some token_ids) of Inl e \<Rightarrow> (Inl e, st) | Inr kv \<Rightarrow>
     (case bk_save bk st key (kv, None) of Inl e \<Rightarrow> (Inl e, st) | Inr (n, st') \<Rightarrow> persist_saves bk cf m rs st'))))"

definition wait_for_save :: "'s backing \<Rightarrow> config \<Rightarrow> 's conn \<Rightarrow> unit result \<times> 's conn" where
  "wait_for_save bk cf c = (case cn_meta c of None \<Rightarrow> (Inr (), c) | Some m \<Rightarrow> if cn_saving c = [] then (Inr (), c) else
     (case persist_saves bk cf m (cn_saving c) (cn_store c) of
        (Inl e, st) \<Rightarrow> (Inl e, c\<lparr>cn_store := st\<rparr>)
      | (Inr _, st) \<Rightarrow> (Inr (), c\<lparr>cn_store := st, cn_saving := []\<rparr>)))"

fun finish_loop :: "(string, job) dict \<Rightarrow> string list \<Rightarrow> (string, job) dict \<Rightarrow> string list result \<times> (string, job) dict" where
  "finish_loop [] fin pend = (Inr fin, pend)"
| "finish_loop ((rid, j) # js) fin pend = (case jb_done j of
     None \<Rightarrow> finish_loop js fin pend
   | Some (Inl e) \<Rightarrow> (Inl e, pend)
   | Some (Inr _) \<Rightarrow> finish_loop js (fin @ [rid]) (AList.delete rid pend))"

text \<open>The second component of the pair; the first is always \<^verbatim>\<open>None\<close>.\<close>

definition get_finished :: "'s conn \<Rightarrow> string list option result \<times> 's conn" where
  "get_finished c = (if cn_pending c = [] then (Inr None, c) else
     (case finish_loop (cn_pending c) [] (cn_pending c) of
        (Inl e, pend) \<Rightarrow> (Inl e, c\<lparr>cn_pending := pend\<rparr>)
      | (Inr fin, pend) \<Rightarrow> (Inr (if fin = [] then None else Some fin), c\<lparr>cn_pending := pend\<rparr>)))"

section \<open>Keys and decisions\<close>

text \<open>Under one model name the key names the prompt; the name itself is sanitized lossily, so two models whose names
  differ only in a replaced character share every key.\<close>

lemma prefix_key_identity:
  assumes "prefix_key H m us = Inr k" "prefix_key H m vs = Inr k"
    and "inj_on H {x. hash_input us = Inr x \<or> hash_input vs = Inr x}"
  shows "us = vs"
proof -
  obtain x y where xy: "hash_input us = Inr x" "hash_input vs = Inr y" "H x = H y"
    using assms(1,2) by (auto simp: prefix_key_def hash_tokens_def split: if_splits)
  then have "x = y" using assms(3) by (auto dest: inj_onD)
  with xy show ?thesis by (metis hash_input_inj)
qed

lemma models_share_keys: "prefix_key H ''org/m'' ts = prefix_key H ''org_m'' ts"
  by (simp add: prefix_key_def safe_name_def is_alnum_def less_eq_char_def)

lemma prefix_key_ne: "prefix_key H m ts = Inr k \<Longrightarrow> k \<noteq> []"
  by (auto simp: prefix_key_def split: if_splits)

lemma contention_factor_range:
  "min 1 (max 0 lo) \<le> contention_factor_from_busy busy lo \<and> contention_factor_from_busy busy lo \<le> 1"
proof -
  define b l where "b = min 1 (max 0 busy)" and "l = min 1 (max 0 lo)"
  have r: "0 \<le> b" "b \<le> 1" "0 \<le> l" "l \<le> 1" by (simp_all add: b_def l_def)
  have "b * (1 - l) \<le> 1 * (1 - l)" by (rule mult_right_mono) (use r in simp_all)
  moreover have "0 \<le> b * (1 - l)" using r by simp
  ultimately show ?thesis by (simp add: contention_factor_from_busy_def Let_def b_def [symmetric] l_def [symmetric])
qed

lemma contention_factor_antimono: assumes "b \<le> b'"
  shows "contention_factor_from_busy b' lo \<le> contention_factor_from_busy b lo"
proof -
  have "min 1 (max 0 b) * (1 - min 1 (max 0 lo)) \<le> min 1 (max 0 b') * (1 - min 1 (max 0 lo))"
    by (rule mult_right_mono) (use assms in \<open>auto simp: min_def max_def\<close>)
  then show ?thesis by (simp add: contention_factor_from_busy_def Let_def)
qed

lemma load_decision_mono:
  assumes "load_decision n p m f" "n \<le> n'" "f' \<le> f" "0 \<le> m" shows "load_decision n' p m f'"
proof -
  have "of_int m * max (1 / 10 ^ 6) f' \<le> of_int m * max (1 / 10 ^ 6) f"
    by (rule mult_left_mono) (use assms in auto)
  moreover have "rat_of_nat n \<le> rat_of_nat n'" using assms(2) by simp
  ultimately show ?thesis using assms(1) by (auto simp: load_decision_def split: if_splits)
qed

text \<open>C27. What the scheduler is told can be loaded is sound: the store holds the prompt's key, the count is a
  positive whole number of blocks, at most the tokens not yet computed and less than the prompt, the policy
  wants it, and the load is remembered; otherwise nothing is claimed and nothing changes. Longer prompts and
  (when the contention rule is on) a busier engine never turn a load into a recompute.\<close>

theorem matched_tokens_sound:
  assumes r: "get_num_new_matched_tokens H bk cf (rid, ts) computed c = (Inr (n, a), c')" and b: "0 < cf_block cf"
  shows "(n = 0 \<and> \<not> a \<and> c' = c) \<or>
    (\<exists>key. prefix_key H (cf_model cf) ts = Inr key \<and> bk_has bk (cn_store c) key \<and> 0 < n \<and> int n mod cf_block cf = 0
      \<and> n + computed \<le> length ts \<and> n < length ts \<and> should_load cf n c \<and> a = cf_async cf
      \<and> c' = c\<lparr>cn_needs := AList.update rid key (cn_needs c)\<rparr>
      \<and> (\<forall>n' busy. n \<le> n' \<and> cn_busy c \<le> busy \<and> 0 \<le> cf_min_load cf \<longrightarrow> should_load cf n' (c\<lparr>cn_busy := busy\<rparr>)))"
proof -
  let ?room = "min (int (length ts) - int computed) (int (length ts) - 1)"
  let ?n = "?room div cf_block cf * cf_block cf"
  obtain key where k: "prefix_key H (cf_model cf) ts = Inr key"
    using r by (auto simp: get_num_new_matched_tokens_def split: sum.splits)
  show ?thesis
  proof (cases "bk_has bk (cn_store c) key \<and> 0 < ?n \<and> should_load cf (nat ?n) c")
    case False
    then show ?thesis using r k b by (auto simp: get_num_new_matched_tokens_def Let_def split: if_splits)
  next
    case True
    have e: "n = nat ?n" "a = cf_async cf" "c' = c\<lparr>cn_needs := AList.update rid key (cn_needs c)\<rparr>"
      using r k b True by (auto simp: get_num_new_matched_tokens_def Let_def split: if_splits)
    have n: "int n = ?n" using True e(1) by simp
    have le: "?n \<le> ?room" using div_mult_mod_eq [of ?room "cf_block cf"] pos_mod_sign [OF b, of ?room] by linarith
    have s: "should_load cf n' (c\<lparr>cn_busy := busy\<rparr>)" if "n \<le> n'" "cn_busy c \<le> busy" "0 \<le> cf_min_load cf" for n' busy
      using True e(1) that load_decision_mono contention_factor_antimono [OF that(2)]
      by (auto simp: should_load_def split: if_splits intro: load_decision_mono)
    have "int n mod cf_block cf = 0" by (simp add: n)
    moreover have "n + computed \<le> length ts" "n < length ts" using n le by linarith+
    ultimately show ?thesis using k True e n s by auto
  qed
qed

abbreviation has_all :: "unit backing" where
  "has_all \<equiv> \<lparr>bk_has = \<lambda>s k. True, bk_load = \<lambda>s k. Inl IndexError, bk_save = \<lambda>s k x. Inl IndexError, bk_delete = \<lambda>s k. s\<rparr>"

lemma demo_prefix_key: "prefix_key (\<lambda>b. ''h'') ''m'' [1, 2, 3, 4, 5] = Inr ''m-h''"
  by (simp add: prefix_key_def hash_tokens_def hash_input_def len_bytes_def token_bytes_def safe_name_def is_alnum_def
      less_eq_char_def)

theorem matched_tokens_sound_witness:
  "\<exists>c'. get_num_new_matched_tokens (\<lambda>b. ''h'') has_all ((default_config ''m'' tiny_spec 2 0 0)\<lparr>cf_policy := ''always''\<rparr>)
      (''r'', [1, 2, 3, 4, 5]) 0 (new_conn ()) = (Inr (4, True), c') \<and> 4 < length [1 :: int, 2, 3, 4, 5]"
proof -
  have r: "get_num_new_matched_tokens (\<lambda>b. ''h'') has_all ((default_config ''m'' tiny_spec 2 0 0)\<lparr>cf_policy := ''always''\<rparr>)
      (''r'', [1, 2, 3, 4, 5]) 0 (new_conn ()) = (Inr (4, True), (new_conn ())\<lparr>cn_needs := [(''r'', ''m-h'')]\<rparr>)"
    by (simp add: get_num_new_matched_tokens_def default_config_def demo_prefix_key should_load_def load_decision_def new_conn_def Let_def)
  show ?thesis using matched_tokens_sound [OF r] r by (simp add: default_config_def)
qed

section \<open>The step plan\<close>

lemma observe_busy_range: "0 \<le> b \<Longrightarrow> b \<le> 1 \<Longrightarrow> 0 \<le> observe_busy cf so b \<and> observe_busy cf so b \<le> 1"
  by (auto simp: observe_busy_def Let_def min_def max_def intro!: add_nonneg_nonneg mult_nonneg_nonneg divide_nonneg_nonneg)

lemma plan_saves_sound:
  assumes "plan_saves H bk cf c num rs sv = Inr sv'" "(rid, key, ids, toks) \<in> set sv'"
  shows "(rid, key, ids, toks) \<in> set sv \<or> (\<exists>r\<in>set rs. nr_id r = rid \<and> toks = nr_prompt r \<and> ids = block_ids (nr_blocks r)
     \<and> map_of (cn_needs c) rid = None \<and> length toks \<le> nr_computed r + get_default 0 num rid
     \<and> prefix_key H (cf_model cf) toks = Inr key \<and> \<not> bk_has bk (cn_store c) key)"
  using assms
proof (induction rs arbitrary: sv)
  case (Cons r rs)
  have upd: "(rid, key, ids, toks) \<in> set (AList.update (nr_id r) x sv) \<Longrightarrow> (rid, key, ids, toks) \<in> set sv \<or> nr_id r = rid \<and> x = (key, ids, toks)" for x
    using set_update_subset [of "nr_id r" x sv] by auto
  show ?case
  proof (cases "map_of (cn_needs c) (nr_id r) = None \<and> length (nr_prompt r) \<le> nr_computed r + get_default 0 num (nr_id r)")
    case False then show ?thesis using Cons by (auto split: if_splits)
  next
    case True
    then obtain k where k: "prefix_key H (cf_model cf) (nr_prompt r) = Inr k" using Cons.prems(1) by (auto split: if_splits)
    show ?thesis
    proof (cases "bk_has bk (cn_store c) k")
      case True then show ?thesis using Cons k \<open>map_of _ _ = None \<and> _\<close> by (auto split: if_splits)
    next
      case False
      then have "plan_saves H bk cf c num rs (AList.update (nr_id r) (k, block_ids (nr_blocks r), nr_prompt r) sv) = Inr sv'"
        using Cons.prems(1) k True by (auto split: if_splits)
      from Cons.IH [OF this Cons.prems(2)] show ?thesis using upd k True False by auto
    qed
  qed
qed simp

text \<open>C26. A step's plan is sound: it loads exactly the requests that matched, each into the blocks allocated for
  it, saves only requests that are not being loaded, whose whole prompt is computed by the end of the step
  and whose key the store does not hold yet, under that key and into those prompt tokens, and leaves no load
  pending for the next step; the busyness estimate stays between 0 and 1.\<close>

theorem step_plan_sound:
  assumes "build_connector_meta H bk cf so c = (Inr m, c')" "0 \<le> cn_busy c" "cn_busy c \<le> 1"
  shows "md_loads m = map (\<lambda>(rid, key). (rid, key, get_default [] (cn_blocks c) rid)) (cn_needs c)
    \<and> (\<forall>rid key ids toks. (rid, key, ids, toks) \<in> set (md_saves m) \<longrightarrow> map_of (md_loads m) rid = None
        \<and> (\<exists>r\<in>set (so_new so). nr_id r = rid \<and> toks = nr_prompt r \<and> ids = block_ids (nr_blocks r)
            \<and> length toks \<le> nr_computed r + get_default 0 (so_num so) rid)
        \<and> prefix_key H (cf_model cf) toks = Inr key \<and> \<not> bk_has bk (cn_store c) key)
    \<and> cn_needs c' = [] \<and> cn_blocks c' = [] \<and> cn_store c' = cn_store c \<and> 0 \<le> cn_busy c' \<and> cn_busy c' \<le> 1"
proof -
  obtain sv where p: "plan_saves H bk cf c (so_num so) (so_new so) [] = Inr sv"
    and m: "m = \<lparr>md_loads = map (\<lambda>(rid, key). (rid, key, get_default [] (cn_blocks c) rid)) (cn_needs c), md_saves = sv\<rparr>"
    and c': "c' = c\<lparr>cn_busy := observe_busy cf so (cn_busy c), cn_needs := [], cn_blocks := []\<rparr>"
    using assms(1) by (auto simp: build_connector_meta_def Let_def split: sum.splits)
  have l: "map_of (md_loads m) rid = None" if "map_of (cn_needs c) rid = None" for rid
    using that by (simp add: m map_of_eq_None_iff image_image case_prod_unfold comp_def)
  show ?thesis using plan_saves_sound [OF p] l observe_busy_range [OF assms(2,3), of cf so] by (fastforce simp: m c')
qed

theorem step_plan_sound_witness:
  "\<exists>c'. build_connector_meta (\<lambda>b. ''h'') (has_all\<lparr>bk_has := \<lambda>s k. False\<rparr>) (default_config ''m'' tiny_spec 2 0 0)
      \<lparr>so_total = 5, so_new = [\<lparr>nr_id = ''r'', nr_prompt = [1, 2, 3, 4, 5], nr_computed = 0, nr_blocks = [Group [4, 5, 6]]\<rparr>], so_cached = 0,
        so_num = [(''r'', 5)]\<rparr> ((new_conn ())\<lparr>cn_needs := [(''q'', ''m-g'')]\<rparr>)
    = (Inr \<lparr>md_loads = [(''q'', ''m-g'', [])], md_saves = [(''r'', ''m-h'', [4, 5, 6], [1, 2, 3, 4, 5])]\<rparr>, c') \<and> cn_needs c' = []"
proof -
  obtain c' where r: "build_connector_meta (\<lambda>b. ''h'') (has_all\<lparr>bk_has := \<lambda>s k. False\<rparr>) (default_config ''m'' tiny_spec 2 0 0)
      \<lparr>so_total = 5, so_new = [\<lparr>nr_id = ''r'', nr_prompt = [1, 2, 3, 4, 5], nr_computed = 0, nr_blocks = [Group [4, 5, 6]]\<rparr>], so_cached = 0,
        so_num = [(''r'', 5)]\<rparr> ((new_conn ())\<lparr>cn_needs := [(''q'', ''m-g'')]\<rparr>)
    = (Inr \<lparr>md_loads = [(''q'', ''m-g'', [])], md_saves = [(''r'', ''m-h'', [4, 5, 6], [1, 2, 3, 4, 5])]\<rparr>, c')"
    by (simp add: build_connector_meta_def default_config_def demo_prefix_key get_default_def block_ids_def new_conn_def Let_def)
  from step_plan_sound [OF r] r show ?thesis by (auto simp: new_conn_def)
qed

text \<open>A request whose prompt is prefilled in more than one step is never saved: it is a new request only in its first.\<close>

lemma chunked_never_saved:
  assumes "build_connector_meta H bk cf so c = (Inr m, c')"
    and "\<forall>r\<in>set (so_new so). nr_id r = rid \<longrightarrow> nr_computed r + get_default 0 (so_num so) rid < length (nr_prompt r)"
  shows "map_of (md_saves m) rid = None"
proof (rule ccontr)
  assume "map_of (md_saves m) rid \<noteq> None"
  then obtain key ids toks where s: "(rid, key, ids, toks) \<in> set (md_saves m)" by (auto dest: map_of_SomeD)
  obtain sv where p: "plan_saves H bk cf c (so_num so) (so_new so) [] = Inr sv" "md_saves m = sv"
    using assms(1) by (auto simp: build_connector_meta_def Let_def split: sum.splits)
  from plan_saves_sound [OF p(1)] s p(2) assms(2) show False by fastforce
qed

section \<open>Completed loads\<close>

definition finished_ids :: "(string, job) dict \<Rightarrow> string list" where
  "finished_ids d = map fst (filter (\<lambda>p. jb_done (snd p) \<noteq> None) d)"

lemma finish_loop_ok:
  "\<forall>p\<in>set js. \<forall>e. jb_done (snd p) \<noteq> Some (Inl e) \<Longrightarrow>
    finish_loop js fin pend = (Inr (fin @ finished_ids js), fold AList.delete (finished_ids js) pend)"
proof (induction js arbitrary: fin pend)
  case (Cons p js)
  obtain rid j where p: "p = (rid, j)" by (cases p)
  show ?case
  proof (cases "jb_done j")
    case None then show ?thesis using Cons p by (simp add: finished_ids_def)
  next
    case (Some r)
    then obtain u where "r = Inr u" using Cons.prems p by (cases r) auto
    then show ?thesis using Cons Some p by (simp add: finished_ids_def)
  qed
qed (simp add: finished_ids_def)

lemma set_fold_delete: "set (fold AList.delete ks d) = {p \<in> set d. fst p \<notin> set ks}"
  by (induction ks arbitrary: d) (auto simp: set_delete)


lemma whole_prompt_claimed:
  "\<exists>c'. get_num_new_matched_tokens (\<lambda>b. ''h'') \<lparr>bk_has = \<lambda>s k. True, bk_load = \<lambda>s k. Inl IndexError, bk_save = \<lambda>s k x. Inl IndexError,
      bk_delete = \<lambda>s k. s\<rparr> ((default_config ''m'' sp 16 0 0)\<lparr>cf_policy := ''always''\<rparr>) (''r'', replicate 32 7) 16 (new_conn ())
    = (Inr (16, True), c') \<and> 16 + 16 = length (replicate 32 (7 :: int))"
proof -
  have t: "tokens_bytes (replicate n 7) = Inr (concat (replicate n (le_bytes 4 7)))" for n
    by (induction n) (simp_all add: token_bytes_def)
  have "\<exists>k. prefix_key (\<lambda>b. ''h'') ''m'' (replicate 32 7) = Inr k"
    by (simp add: prefix_key_def hash_tokens_def hash_input_def len_bytes_def t)
  then show ?thesis
    by (auto simp: get_num_new_matched_tokens_def default_config_def should_load_def load_decision_def new_conn_def Let_def)
qed


section \<open>From one engine's blocks to another's\<close>

text \<open>A forward pass streams every layer in the order they were registered, then waits for the save.\<close>

fun save_stream :: "(string, layer_cache) dict \<Rightarrow> 's conn \<Rightarrow> unit result \<times> 's conn" where
  "save_stream [] c = (Inr (), c)"
| "save_stream (p # ps) c = (case save_kv_layer (snd p) c of (Inl e, c1) \<Rightarrow> (Inl e, c1) | (Inr _, c1) \<Rightarrow> save_stream ps c1)"

definition save_step :: "'s backing \<Rightarrow> config \<Rightarrow> 's conn \<Rightarrow> unit result \<times> 's conn" where
  "save_step bk cf c = (case save_stream (cn_caches c) c of (Inl e, c1) \<Rightarrow> (Inl e, c1) | (Inr _, c1) \<Rightarrow> wait_for_save bk cf c1)"

text \<open>The cache the connector persists for a prompt in blocks \<open>ids\<close>.\<close>

definition saved_kv :: "config \<Rightarrow> int list \<Rightarrow> nat list \<Rightarrow> (string, layer_cache) dict \<Rightarrow> kv" where
  "saved_kv cf toks ids caches = \<lparr>kv_spec = cf_spec cf, kv_layers = map (\<lambda>(nm, k, v).
     \<lparr>lkey = unpack_blocks (length toks) (map ((!) k) ids), lval = unpack_blocks (length toks) (map ((!) v) ids)\<rparr>) caches,
     kv_positions = map int [0..<length toks], kv_token_ids = Some toks\<rparr>"

definition blocks_ok :: "nat \<times> nat \<times> nat \<Rightarrow> nat list \<Rightarrow> (string, layer_cache) dict \<Rightarrow> bool" where
  "blocks_ok sh ids caches \<longleftrightarrow> (\<forall>(nm, k, v)\<in>set caches. \<forall>i\<in>set ids. i < length k \<and> i < length v \<and> regular sh (k ! i) \<and> regular sh (v ! i))"

lemma blocks_okD:
  "blocks_ok sh ids caches \<Longrightarrow> (nm, k, v) \<in> set caches \<Longrightarrow> i \<in> set ids \<Longrightarrow>
    i < length k \<and> i < length v \<and> regular sh (k ! i) \<and> regular sh (v ! i)"
  by (fastforce simp: blocks_ok_def)

lemma save_stream_collects:
  assumes "blocks_ok sh ids ps" "cn_meta c = Some \<lparr>md_loads = ls, md_saves = [(rid, key, ids, toks)]\<rparr>"
    "cn_saving c = [(rid, ks, vs)] \<or> cn_saving c = [] \<and> ks = [] \<and> vs = []"
  shows "save_stream ps c = (Inr (), if ps = [] then c else c\<lparr>cn_saving :=
    [(rid, ks @ map (\<lambda>p. map ((!) (fst (snd p))) ids) ps, vs @ map (\<lambda>p. map ((!) (snd (snd p))) ids) ps)]\<rparr>)"
  using assms
proof (induction ps arbitrary: c ks vs)
  case (Cons p ps)
  obtain nm k v where p: "p = (nm, k, v)" by (cases p)
  have g: "gather ids k = Inr (map ((!) k) ids)" "gather ids v = Inr (map ((!) v) ids)"
    using blocks_okD [OF Cons.prems(1)] p by (auto simp: gather_def)
  let ?c = "c\<lparr>cn_saving := [(rid, ks @ [map ((!) k) ids], vs @ [map ((!) v) ids])]\<rparr>"
  have s: "save_kv_layer (k, v) c = (Inr (), ?c)"
    using Cons.prems(2,3) g by (auto simp: save_kv_layer_def get_default_def)
  have "blocks_ok sh ids ps" using Cons.prems(1) by (simp add: blocks_ok_def)
  from Cons.IH [OF this, of ?c "ks @ [map ((!) k) ids]" "vs @ [map ((!) v) ids]"] Cons.prems(2)
  show ?case by (simp add: p s)
qed simp

lemma scatter_nth:
  assumes "distinct ids" "scatter ids src dst = Inr dst'"
  shows "length dst' = length dst" "\<And>j. j < length ids \<Longrightarrow> j < length src \<Longrightarrow> dst' ! (ids ! j) = src ! j"
    "\<And>i. i \<notin> set ids \<Longrightarrow> dst' ! i = dst ! i"
proof -
  have f: "length (fold (\<lambda>(i, b) d. d[i := b]) ps d) = length d" for ps :: "(nat \<times> 'a) list" and d
    by (induction ps arbitrary: d) auto
  have out: "fold (\<lambda>(i, b) d. d[i := b]) ps d ! i = d ! i" if "i \<notin> set (map fst ps)" for ps :: "(nat \<times> 'a) list" and d i
    using that by (induction ps arbitrary: d) auto
  have inn: "fold (\<lambda>(i, b) d. d[i := b]) ps d ! fst (ps ! j) = snd (ps ! j)"
    if "distinct (map fst ps)" "j < length ps" "\<forall>p\<in>set ps. fst p < length d" for ps :: "(nat \<times> 'a) list" and d j
    using that
  proof (induction ps arbitrary: d j)
    case (Cons p ps)
    show ?case
    proof (cases j)
      case 0 then show ?thesis using Cons.prems out [of "fst p" ps "d[fst p := snd p]"] by (auto simp: case_prod_unfold)
    next
      case (Suc i) then show ?thesis using Cons by (auto simp: case_prod_unfold)
    qed
  qed simp
  have d: "dst' = fold (\<lambda>(i, b) d. d[i := b]) (zip ids src) dst" "\<forall>i\<in>set (take (length src) ids). i < length dst"
    using assms(2) by (auto simp: scatter_def split: if_splits)
  have z: "map fst (zip ids src) = take (length src) ids" by (simp add: map_fst_zip_take min_def)
  show "length dst' = length dst" by (simp add: d f)
  show "dst' ! i = dst ! i" if "i \<notin> set ids" for i
    unfolding d(1) by (rule out) (use that z in \<open>auto dest: in_set_takeD\<close>)
  fix j assume j: "j < length ids" "j < length src"
  have r: "\<forall>p\<in>set (zip ids src). fst p < length dst" using d(2) z by (metis imageI set_map)
  show "dst' ! (ids ! j) = src ! j"
    using inn [of "zip ids src" j dst] j r z assms(1) unfolding d(1) by simp
qed

lemma load_layers_nth:
  assumes "length ks = length cs" "length vs = length cs" "distinct ids" "\<forall>(nm, k, v)\<in>set cs. \<forall>i\<in>set ids. i < length k \<and> i < length v"
  shows "\<exists>cs'. load_layers ids ks vs cs = (Inr (), cs') \<and> length cs' = length cs \<and> (\<forall>l<length cs. fst (cs' ! l) = fst (cs ! l)
    \<and> scatter ids (ks ! l) (fst (snd (cs ! l))) = Inr (fst (snd (cs' ! l)))
    \<and> scatter ids (vs ! l) (snd (snd (cs ! l))) = Inr (snd (snd (cs' ! l))))"
  using assms
proof (induction cs arbitrary: ks vs)
  case (Cons p cs)
  obtain nm kd vd where p: "p = (nm, kd, vd)" by (cases p)
  obtain k ks' v vs' where kv: "ks = k # ks'" "vs = v # vs'" using Cons.prems(1,2) by (cases ks; cases vs) auto
  have "\<forall>i\<in>set (take (length k) ids). i < length kd" "\<forall>i\<in>set (take (length v) ids). i < length vd"
    using Cons.prems(4) p by (auto dest: in_set_takeD)
  then obtain kd' vd' where s: "scatter ids k kd = Inr kd'" "scatter ids v vd = Inr vd'" by (simp add: scatter_def)
  obtain cs' where "load_layers ids ks' vs' cs = (Inr (), cs')" "length cs' = length cs" "\<forall>l<length cs. fst (cs' ! l) = fst (cs ! l)
    \<and> scatter ids (ks' ! l) (fst (snd (cs ! l))) = Inr (fst (snd (cs' ! l)))
    \<and> scatter ids (vs' ! l) (snd (snd (cs ! l))) = Inr (snd (snd (cs' ! l)))"
    using Cons.IH [of ks' vs'] Cons.prems kv by auto
  then show ?case using s by (auto simp: p kv nth_Cons split: nat.splits)
qed simp

lemma taken_regular:
  assumes "\<And>i. i \<in> set ids \<Longrightarrow> regular (b, n, d) (k ! i)" "t \<le> b * length ids"
  shows "regular (t, n, d) (take t (concat (map ((!) k) ids)))"
proof -
  have "length (concat (map ((!) k) ids)) = b * length ids"
    using assms(1) by (induction ids) (auto simp: regular_def)
  then show ?thesis using assms by (fastforce simp: regular_def dest: in_set_takeD)
qed

lemma block_slot:
  assumes "\<And>i. i \<in> set ids \<Longrightarrow> regular (b, n, d) (k ! i)" "t \<le> b * length ids" "0 < t" "0 < n" "i < t"
    and "pack_token_major_into_blocks (swap_axes (unpack_blocks t (map ((!) k) ids))) (int b) = Inr bs"
  shows "i div b < length bs \<and> bs ! (i div b) ! (i mod b) = k ! (ids ! (i div b)) ! (i mod b)"
proof -
  let ?g = "concat (map ((!) k) ids)"
  note r = taken_regular [OF assms(1,2)]
  have sw: "swap_axes (unpack_blocks t (map ((!) k) ids)) = take t ?g"
    unfolding unpack_blocks_def by (rule swap_swap [OF r assms(3,4)])
  have l: "length (take t ?g) = t" using r by (simp add: regular_def)
  note p = pack_nth [OF assms(6) [unfolded sw], unfolded l, OF assms(5)]
  have b: "0 < b" "i div b * b + i mod b = i" using p by simp_all
  have j: "i div b < length ids" using assms(2,5) b(1) by (simp add: div_less_iff_less_mult mult.commute)
  have "?g ! (i div b * b + i mod b) = map ((!) k) ids ! (i div b) ! (i mod b)"
    by (rule concat_uniform_nth) (use assms(1) j b(1) in \<open>auto simp: regular_def\<close>)
  then show ?thesis using p assms(5) j b(2) by simp
qed

text \<open>Slot \<open>i\<close> of the prompt holds the same vectors in both engines, layer by layer.\<close>

definition same_slots :: "nat \<Rightarrow> nat \<Rightarrow> nat list \<Rightarrow> (string, layer_cache) dict \<Rightarrow> nat list \<Rightarrow> (string, layer_cache) dict \<Rightarrow> bool" where
  "same_slots b t ids cs ids' cs' \<longleftrightarrow> length cs' = length cs \<and> (\<forall>l<length cs. \<forall>i<t. i div b < length ids' \<longrightarrow>
     fst (snd (cs' ! l)) ! (ids' ! (i div b)) ! (i mod b) = fst (snd (cs ! l)) ! (ids ! (i div b)) ! (i mod b)
     \<and> snd (snd (cs' ! l)) ! (ids' ! (i div b)) ! (i mod b) = snd (snd (cs ! l)) ! (ids ! (i div b)) ! (i mod b))"

definition others_kept :: "nat list \<Rightarrow> (string, layer_cache) dict \<Rightarrow> (string, layer_cache) dict \<Rightarrow> bool" where
  "others_kept ids cs cs' \<longleftrightarrow> (\<forall>l<length cs. \<forall>i. i \<notin> set ids \<longrightarrow>
     fst (snd (cs' ! l)) ! i = fst (snd (cs ! l)) ! i \<and> snd (snd (cs' ! l)) ! i = snd (snd (cs ! l)) ! i)"

lemma load_saved:
  assumes b: "cf_block cf = int b" "0 < b" and t: "0 < length toks" "length toks \<le> b * length ids" "0 < n"
    and ok: "blocks_ok (b, n, d) ids cs" and r: "length (cn_caches w) = length cs" "distinct ids'"
      "\<forall>(nm, k, v)\<in>set (cn_caches w). \<forall>i\<in>set ids'. i < length k \<and> i < length v"
    and l: "bk_load bk (cn_store w) key = Inr (saved_kv cf toks ids cs, m)"
  shows "\<exists>w'. load_one bk cf key ids' w = (Inr (), w') \<and> same_slots b (length toks) ids cs ids' (cn_caches w')
    \<and> others_kept ids' (cn_caches w) (cn_caches w')"
proof -
  let ?c = "saved_kv cf toks ids cs"
  obtain ks where ks: "res_map (\<lambda>l. pack_token_major_into_blocks (swap_axes (lkey l)) (int b)) (kv_layers ?c) = Inr ks"
    using res_map_total pack_total [OF b(2)] by metis
  obtain vs where vs: "res_map (\<lambda>l. pack_token_major_into_blocks (swap_axes (lval l)) (int b)) (kv_layers ?c) = Inr vs"
    using res_map_total pack_total [OF b(2)] by metis
  have pg: "kvcache_to_paged_blocks ?c (int b) = Inr (ks, vs)" using ks vs b(2) by (simp add: kvcache_to_paged_blocks_def)
  note P = to_paged [OF pg]
  have L: "length (kv_layers ?c) = length cs" by (simp add: saved_kv_def)
  obtain cs' where ll: "load_layers ids' ks vs (cn_caches w) = (Inr (), cs')" "length cs' = length cs"
      "\<And>l. l < length cs \<Longrightarrow> scatter ids' (ks ! l) (fst (snd (cn_caches w ! l))) = Inr (fst (snd (cs' ! l)))
        \<and> scatter ids' (vs ! l) (snd (snd (cn_caches w ! l))) = Inr (snd (snd (cs' ! l)))"
    using load_layers_nth [of ks "cn_caches w" vs ids'] P(1,2) L r by auto
  have e: "load_one bk cf key ids' w = (Inr (), w\<lparr>cn_caches := cs'\<rparr>)"
    using l pg ll(1) by (simp add: load_one_def b(1))
  have slot: "fst (snd (cs' ! l)) ! (ids' ! (i div b)) ! (i mod b) = fst (snd (cs ! l)) ! (ids ! (i div b)) ! (i mod b)
      \<and> snd (snd (cs' ! l)) ! (ids' ! (i div b)) ! (i mod b) = snd (snd (cs ! l)) ! (ids ! (i div b)) ! (i mod b)"
    if l: "l < length cs" and i: "i < length toks" "i div b < length ids'" for l i
  proof -
    obtain nm k v where c: "cs ! l = (nm, k, v)" by (cases "cs ! l")
    then have m: "(nm, k, v) \<in> set cs" using l by (metis nth_mem)
    have "pack_token_major_into_blocks (swap_axes (unpack_blocks (length toks) (map ((!) k) ids))) (int b) = Inr (ks ! l)"
      "pack_token_major_into_blocks (swap_axes (unpack_blocks (length toks) (map ((!) v) ids))) (int b) = Inr (vs ! l)"
      using P(4) [of l] P(5) [of l] l c by (simp_all add: saved_kv_def)
    note q = block_slot [OF _ t(2,1,3) i(1) this(1), of d] block_slot [OF _ t(2,1,3) i(1) this(2), of d]
    have "i div b < length (ks ! l) \<and> (ks ! l) ! (i div b) ! (i mod b) = k ! (ids ! (i div b)) ! (i mod b)"
      "i div b < length (vs ! l) \<and> (vs ! l) ! (i div b) ! (i mod b) = v ! (ids ! (i div b)) ! (i mod b)"
      using q blocks_okD [OF ok m] by blast+
    then show ?thesis using scatter_nth(2) [OF r(2) conjunct1 [OF ll(3) [OF l]] i(2)]
        scatter_nth(2) [OF r(2) conjunct2 [OF ll(3) [OF l]] i(2)] c by simp
  qed
  have "others_kept ids' (cn_caches w) cs'"
    using scatter_nth(3) [OF r(2)] ll(3) r(1) by (fastforce simp: others_kept_def)
  then show ?thesis using e slot ll(2) by (auto simp: same_slots_def)
qed

context session_backing
begin

lemma transfer:
  assumes c: "sane (cn_store c)" "cn_meta c = Some \<lparr>md_loads = ls, md_saves = [(rid, key, ids, toks)]\<rparr>" "cn_saving c = []"
    and k: "good key" "ok (saved_kv cf toks ids (cn_caches c), None)" "cn_caches c \<noteq> []" "blocks_ok sh ids (cn_caches c)"
  shows "\<exists>c'. save_step bk cf c = (Inr (), c') \<and> sane (cn_store c') \<and> cn_saving c' = [] \<and> cn_caches c' = cn_caches c
    \<and> bk_has bk (cn_store c') key \<and> bk_load bk (cn_store c') key = Inr (saved_kv cf toks ids (cn_caches c), None)
    \<and> (\<forall>k. k \<noteq> key \<longrightarrow> bk_has bk (cn_store c') k = bk_has bk (cn_store c) k \<and> bk_load bk (cn_store c') k = bk_load bk (cn_store c) k)"
proof -
  let ?ks = "map (\<lambda>p. map ((!) (fst (snd p))) ids) (cn_caches c)" and ?vs = "map (\<lambda>p. map ((!) (snd (snd p))) ids) (cn_caches c)"
  have st: "save_stream (cn_caches c) c = (Inr (), c\<lparr>cn_saving := [(rid, ?ks, ?vs)]\<rparr>)"
    using save_stream_collects [OF k(4) c(2), of "[]" "[]"] c(3) k(3) by simp
  obtain s' n where s: "bk_save bk (cn_store c) key (saved_kv cf toks ids (cn_caches c), None) = Inr (n, s')" "sane s'"
      "bk_has bk s' key" "bk_load bk s' key = Inr (saved_kv cf toks ids (cn_caches c), None)"
      "\<forall>j. j \<noteq> key \<longrightarrow> bk_has bk s' j = bk_has bk (cn_store c) j \<and> bk_load bk s' j = bk_load bk (cn_store c) j"
    using save [OF c(1) k(1,2)] by blast
  have m: "map2 (\<lambda>k v. \<lparr>lkey = unpack_blocks (length toks) k, lval = unpack_blocks (length toks) v\<rparr>) ?ks ?vs
      = kv_layers (saved_kv cf toks ids (cn_caches c))"
    by (simp add: saved_kv_def zip_map_map zip_same_conv_map comp_def case_prod_unfold)
  then have pb: "paged_blocks_to_kvcache ?ks ?vs (cf_spec cf) (map int [0..<length toks]) (Some toks)
      = Inr (saved_kv cf toks ids (cn_caches c))"
    by (simp add: paged_blocks_to_kvcache_def) (simp add: saved_kv_def)
  have "wait_for_save bk cf (c\<lparr>cn_saving := [(rid, ?ks, ?vs)]\<rparr>) = (Inr (), c\<lparr>cn_store := s', cn_saving := []\<rparr>)"
    using c(2) s(1) pb by (simp add: wait_for_save_def save_geometry_def)
  then have "save_step bk cf c = (Inr (), c\<lparr>cn_store := s', cn_saving := []\<rparr>)" by (simp add: save_step_def st)
  then show ?thesis using s by auto
qed

end

section \<open>The blob store\<close>

text \<open>A directory with readable blobs only, and the caches that survive it bit for bit.\<close>

definition blob_only :: "nat option json \<Rightarrow> casts \<Rightarrow> nat option sstore \<Rightarrow> bool" where
  "blob_only js cs s \<longleftrightarrow> st_format s = FBlob \<and> (\<forall>f\<in>snd ` set (st_files s). \<exists>b c. f = Blob b \<and> load_blob js cs b = Inr c)"

definition blob_exact :: "nat option json \<Rightarrow> casts \<Rightarrow> state \<Rightarrow> bool" where
  "blob_exact js cs x \<longleftrightarrow> (\<exists>sh d. shaped_kv sh (fst x) \<and> resolve_store_dtype ''auto'' (ms_dtype (kv_spec (fst x))) = Inr d
     \<and> native_kv cs d (fst x) \<and> loads js (dumps js (blob_header d sh x)) = Inr (blob_header d sh x)
     \<and> length (dumps js (blob_header d sh x)) < 2 ^ 64) \<and> kv_token_ids (fst x) \<noteq> Some []"

lemma blob_save:
  assumes "blob_only js cs s" "i \<noteq> []" "blob_exact js cs x"
  shows "\<exists>b. store_save js cs ''auto'' i x s = Inr (s\<lparr>st_files := AList.update (i @ suffix FBlob) (Blob b) (st_files s)\<rparr>)
    \<and> load_blob js cs b = Inr x"
proof -
  obtain kv m where x: "x = (kv, m)" by (cases x)
  obtain sh d where e: "shaped_kv sh kv" "resolve_store_dtype ''auto'' (ms_dtype (kv_spec kv)) = Inr d" "native_kv cs d kv"
      "loads js (dumps js (blob_header d sh (kv, m))) = Inr (blob_header d sh (kv, m))"
      "length (dumps js (blob_header d sh (kv, m))) < 2 ^ 64" "kv_token_ids kv \<noteq> Some []"
    using assms(3) x by (auto simp: blob_exact_def)
  obtain l0 ls where L: "kv_layers kv = l0 # ls" using e(1) by (cases "kv_layers kv") (auto simp: shaped_kv_def)
  have a: "arr_shape (lkey l0) = sh" using e(1) L by (auto simp: shaped_kv_def intro!: regular_shape)
  obtain b where b: "save_blob js cs ''auto'' (kv, m) = Inr b"
    using e(2,5) L a by (auto simp: save_blob_def Let_def len_bytes_def)
  show ?thesis using blob_roundtrip [OF e(1-4) b] norm_tokens_id [OF e(6)] b assms(1,2) x
    by (auto simp: store_save_def blob_only_def save_name_def)
qed

lemma blob_only_update:
  assumes "blob_only js cs s" "load_blob js cs b = Inr x" shows "blob_only js cs (s\<lparr>st_files := AList.update k (Blob b) (st_files s)\<rparr>)"
proof -
  have "\<exists>b c. f = Blob b \<and> load_blob js cs b = Inr c" if m: "f \<in> snd ` set (AList.update k (Blob b) (st_files s))" for f
  proof -
    obtain k' where "(k', f) \<in> set (AList.update k (Blob b) (st_files s))" using m by auto
    then have "(k', f) = (k, Blob b) \<or> (k', f) \<in> set (st_files s)" using set_update_subset by fastforce
    then show ?thesis using assms by (force simp: blob_only_def)
  qed
  then show ?thesis using assms(1) by (simp add: blob_only_def)
qed

lemma blob_only_delete: "blob_only js cs s \<Longrightarrow> blob_only js cs (store_delete i s)"
  by (auto simp: blob_only_def store_delete_def set_delete)

interpretation blob: session_backing "sstore_backing js cs sz" "blob_only js cs" "\<lambda>i. i \<noteq> []" "blob_exact js cs"
  for js cs sz
proof
  fix s :: "nat option sstore" and i x
  assume s: "blob_only js cs s"
  have rf: "\<exists>b c. f = Blob b \<and> load_blob js cs b = Inr c" if "resolve_file s i = Some f" for f
    using s that by (force simp: blob_only_def resolve_file_def dest: map_of_SomeD split: option.splits)
  then show "bk_has (sstore_backing js cs sz) s i \<Longrightarrow> \<exists>c. bk_load (sstore_backing js cs sz) s i = Inr c"
    by (auto simp: sstore_backing_def store_has_def store_load_def)
  show "blob_only js cs (bk_delete (sstore_backing js cs sz) s i) \<and> \<not> bk_has (sstore_backing js cs sz) (bk_delete (sstore_backing js cs sz) s i) i
      \<and> (\<forall>j. j \<noteq> i \<longrightarrow> bk_has (sstore_backing js cs sz) (bk_delete (sstore_backing js cs sz) s i) j = bk_has (sstore_backing js cs sz) s j
        \<and> bk_load (sstore_backing js cs sz) (bk_delete (sstore_backing js cs sz) s i) j = bk_load (sstore_backing js cs sz) s j)"
    by (simp add: sstore_backing_def blob_only_delete [OF s] store_has_def store_load_def deleted_resolve)
  assume g: "i \<noteq> []" "blob_exact js cs x"
  obtain b where b: "store_save js cs ''auto'' i x s = Inr (s\<lparr>st_files := AList.update (i @ suffix FBlob) (Blob b) (st_files s)\<rparr>)"
      "load_blob js cs b = Inr x" using blob_save [OF s g] by blast
  have f: "st_format s = FBlob" using s by (simp add: blob_only_def)
  note r = resolve_saved [OF g(1), of s "Blob b", unfolded f save_name_def, simplified g(1) if_False]
  have s': "blob_only js cs (s\<lparr>st_files := AList.update (i @ suffix FBlob) (Blob b) (st_files s)\<rparr>)"
    by (rule blob_only_update [OF s b(2)])
  show "\<exists>n s'. bk_save (sstore_backing js cs sz) s i x = Inr (n, s') \<and> blob_only js cs s' \<and> bk_has (sstore_backing js cs sz) s' i
      \<and> bk_load (sstore_backing js cs sz) s' i = Inr x \<and> (\<forall>j. j \<noteq> i \<longrightarrow> bk_has (sstore_backing js cs sz) s' j = bk_has (sstore_backing js cs sz) s j
        \<and> bk_load (sstore_backing js cs sz) s' j = bk_load (sstore_backing js cs sz) s j)"
    using b s' by (auto simp: sstore_backing_def store_has_def store_load_def r)
qed


abbreviation demo_pages :: "(string, layer_cache) dict" where
  "demo_pages \<equiv> [(''l0'', [[[[1, 2]], [[3, 4]]], [[[0, 0]], [[0, 0]]], [[[5, 6]], [[7, 8]]]],
     [[[[9, 9]], [[8, 8]]], [[[0, 0]], [[0, 0]]], [[[7, 7]], [[6, 6]]]])]"

abbreviation empty_pages :: "(string, layer_cache) dict" where
  "empty_pages \<equiv> [(''l0'', replicate 2 [[[0, 0]], [[0, 0]]], replicate 2 [[[0, 0]], [[0, 0]]])]"

abbreviation demo_config :: config where
  "demo_config \<equiv> default_config ''m'' (demo_spec ''fp32'') 2 0 0"

abbreviation page_json :: "nat option json" where
  "page_json \<equiv> \<lparr>dumps = (\<lambda>h. []), loads = (\<lambda>b. Inr (blob_header F32 (1, 3, 2) (saved_kv demo_config [7, 8, 9] [2, 0] demo_pages, None)))\<rparr>"

abbreviation demo_sender :: "nat option sstore conn" where
  "demo_sender \<equiv> (new_conn \<lparr>st_format = FBlob, st_files = []\<rparr>)\<lparr>cn_caches := demo_pages,
     cn_meta := Some \<lparr>md_loads = [], md_saves = [(''r'', ''k'', [2, 0], [7, 8, 9])]\<rparr>\<rparr>"

abbreviation demo_receiver :: "nat option sstore conn" where
  "demo_receiver \<equiv> (new_conn \<lparr>st_format = FBlob, st_files = []\<rparr>)\<lparr>cn_caches := empty_pages\<rparr>"

lemma demo_page_exact: "blob_exact page_json demo_casts (saved_kv demo_config [7, 8, 9] [2, 0] demo_pages, None)"
  unfolding blob_exact_def
  by (intro conjI exI [of _ "(1, 3, 2)"] exI [of _ F32])
    (simp_all add: saved_kv_def default_config_def unpack_blocks_def swap_axes_def shaped_kv_def regular_def tiny_dtype
      native_kv_def native_arr_def native_word_def upt_rec)

lemma same_slotsD: "same_slots b t ids cs ids' cs' \<Longrightarrow> l < length cs \<Longrightarrow> i < t \<Longrightarrow> i div b < length ids' \<Longrightarrow>
    fst (snd (cs' ! l)) ! (ids' ! (i div b)) ! (i mod b) = fst (snd (cs ! l)) ! (ids ! (i div b)) ! (i mod b)"
  by (simp add: same_slots_def)


end
