(* ===== verification/CacheStoreSpec.thy ===== *)
theory CacheStoreSpec imports Prelude begin

text \<open>
  The \<^verbatim>\<open>CacheStore\<close> protocol of \<^verbatim>\<open>src/dexa/core/types.py\<close> as a locale: what a client of the
  tiered store (the reuse baseline of \<^verbatim>\<open>bench/lmcache_baseline.py\<close>) calls, and what the provider
  promises. A store may drop an object at any operation (eviction), so the laws bound the
  contents from above.
\<close>

locale cache_store =
  fixes st_put :: "string \<Rightarrow> string \<Rightarrow> 'c \<Rightarrow> nat \<Rightarrow> 's \<Rightarrow> (string \<times> 's) result option"
    and st_get :: "string \<Rightarrow> 's \<Rightarrow> ('c option \<times> 's) result option"
    and st_has :: "string \<Rightarrow> string \<Rightarrow> 's \<Rightarrow> string option \<times> 's"
    and st_inv :: "'s \<Rightarrow> bool"
    and st_contents :: "'s \<Rightarrow> string \<times> string \<Rightarrow> 'c option"
    and st_tenant :: "string \<Rightarrow> bool"
  assumes put_law: "st_inv s \<Longrightarrow> st_tenant tn \<Longrightarrow>
      \<exists>h s'. st_put tn k c n s = Some (Inr (h, s')) \<and> st_inv s'
        \<and> st_contents s' \<subseteq>\<^sub>m (st_contents s)((tn, k) \<mapsto> (case st_contents s (tn, k) of None \<Rightarrow> c | Some c0 \<Rightarrow> c0))"
    and has_law: "st_inv s \<Longrightarrow> st_inv (snd (st_has tn k s)) \<and> st_contents (snd (st_has tn k s)) = st_contents s
        \<and> (fst (st_has tn k s) \<noteq> None \<longleftrightarrow> st_contents s (tn, k) \<noteq> None)"
    and get_law: "st_inv s \<Longrightarrow> fst (st_has tn k s) = Some h \<Longrightarrow>
      \<exists>s'. st_get h (snd (st_has tn k s)) = Some (Inr (st_contents s (tn, k), s')) \<and> st_inv s'
        \<and> st_contents s' \<subseteq>\<^sub>m st_contents s"

text \<open>
  A store that counts what it drops: an operation that did not raise the counter has lost nothing,
  so the bounds above become equations.
\<close>

locale counted_store = cache_store st_put st_get st_has st_inv st_contents st_tenant
  for st_put :: "string \<Rightarrow> string \<Rightarrow> 'c \<Rightarrow> nat \<Rightarrow> 's \<Rightarrow> (string \<times> 's) result option"
    and st_get :: "string \<Rightarrow> 's \<Rightarrow> ('c option \<times> 's) result option"
    and st_has :: "string \<Rightarrow> string \<Rightarrow> 's \<Rightarrow> string option \<times> 's"
    and st_inv :: "'s \<Rightarrow> bool"
    and st_contents :: "'s \<Rightarrow> string \<times> string \<Rightarrow> 'c option"
    and st_tenant :: "string \<Rightarrow> bool" +
  fixes st_drops :: "'s \<Rightarrow> nat"
  assumes put_keeps: "st_inv s \<Longrightarrow> st_tenant tn \<Longrightarrow> st_put tn k c n s = Some (Inr (h, s')) \<Longrightarrow>
      st_drops s \<le> st_drops s' \<and> (st_drops s' = st_drops s \<longrightarrow> st_contents s' =
        (st_contents s)((tn, k) \<mapsto> (case st_contents s (tn, k) of None \<Rightarrow> c | Some c0 \<Rightarrow> c0)))"
    and get_keeps: "st_inv s \<Longrightarrow> fst (st_has tn k s) = Some h \<Longrightarrow>
      st_get h (snd (st_has tn k s)) = Some (Inr (r, s')) \<Longrightarrow>
      st_drops s \<le> st_drops s' \<and> (st_drops s' = st_drops s \<longrightarrow> st_contents s' = st_contents s)"
    and has_keeps: "st_drops (snd (st_has tn k s)) = st_drops s"

end
