(* ===== verification/TieredStore.thy ===== *)
theory TieredStore imports CacheStoreSpec begin

text \<open>
  The tiered KV cache store, \<^verbatim>\<open>src/dexa/memory/store.py\<close>. A store is an ordered list of
  tiers (fast to slow), a dictionary of resident entries, a reuse index from (tenant, content key)
  to handles, an LRU clock, the byte counters per tier and the statistics counters. The model
  keeps the entry dictionary as the list of its values in insertion order: an entry carries its
  own handle, which is its key. Loops that the code bounds by the shrinking tier are
  \<^theory_text>\<open>partial_function (option)\<close>, so that not returning is \<^const>\<open>None\<close>; that
  they return is proved. The objects cached are of any type \<open>'c\<close> and an operation takes their
  \<^verbatim>\<open>nbytes()\<close> as an argument.
\<close>

section \<open>State\<close>

record tier_spec =
  ts_name :: string
  capacity_bytes :: int
  read_bandwidth :: rat
  fixed_latency :: rat

definition access_seconds :: "tier_spec \<Rightarrow> nat \<Rightarrow> rat" where
  "access_seconds t n = fixed_latency t + of_nat n / max 1 (read_bandwidth t)"

definition default_tiers :: "int \<Rightarrow> int \<Rightarrow> int \<Rightarrow> tier_spec list" where
  "default_tiers gpu_bytes cpu_bytes nvme_bytes =
     [\<lparr>ts_name = ''gpu'', capacity_bytes = gpu_bytes, read_bandwidth = 2000000000000, fixed_latency = 0\<rparr>,
      \<lparr>ts_name = ''cpu'', capacity_bytes = cpu_bytes, read_bandwidth = 25000000000, fixed_latency = 10 / 1000000\<rparr>,
      \<lparr>ts_name = ''nvme'', capacity_bytes = nvme_bytes, read_bandwidth = 3000000000, fixed_latency = 100 / 1000000\<rparr>]"

record 'c entry =
  e_handle :: string
  e_key :: string
  e_tenant :: string
  e_cache :: 'c
  e_nbytes :: nat
  e_tier :: string
  e_last_used :: nat

record 'c store =
  tiers :: "tier_spec list"
  entries :: "'c entry list"
  index :: "(string \<times> string, string) dict"
  clock :: nat
  used :: "string \<Rightarrow> int"
  peak :: "string \<Rightarrow> int"
  reuse_lookups :: nat
  reuse_hits :: nat
  gets :: nat
  get_hits :: nat
  get_misses :: nat
  demotions :: nat
  promotions :: nat
  evictions_dropped :: nat
  modeled_access_seconds :: rat

text \<open>\<^verbatim>\<open>self.tiers = tiers or default_tiers()\<close>: an empty list takes the defaults too, so the
  constructor's \<^verbatim>\<open>ValueError\<close> branch is the second one.\<close>

definition new_store :: "tier_spec list option \<Rightarrow> 'c store result" where
  "new_store ts =
     (let ts' = (case ts of Some (t # r) \<Rightarrow> t # r
                 | _ \<Rightarrow> default_tiers (8 * 1024 ^ 2) (64 * 1024 ^ 2) (4 * 1024 ^ 3))
      in if ts' = [] then Inl (ValueError ''TieredCacheStore needs at least one tier'')
         else Inr \<lparr>tiers = ts', entries = [], index = [], clock = 0, used = (\<lambda>_. 0), peak = (\<lambda>_. 0),
           reuse_lookups = 0, reuse_hits = 0, gets = 0, get_hits = 0, get_misses = 0,
           demotions = 0, promotions = 0, evictions_dropped = 0, modeled_access_seconds = 0\<rparr>)"

section \<open>Internals\<close>

definition lookup_entry :: "'c store \<Rightarrow> string \<Rightarrow> 'c entry option" where
  "lookup_entry s h = List.find (\<lambda>e. e_handle e = h) (entries s)"

definition update_entry :: "'c entry \<Rightarrow> 'c entry list \<Rightarrow> 'c entry list" where
  "update_entry e es = map (\<lambda>x. if e_handle x = e_handle e then e else x) es"

text \<open>\<^verbatim>\<open>self._entries[handle] = entry\<close>.\<close>

definition put_entry :: "'c entry \<Rightarrow> 'c entry list \<Rightarrow> 'c entry list" where
  "put_entry e es = (if e_handle e \<in> e_handle ` set es then update_entry e es else es @ [e])"

definition tick :: "'c store \<Rightarrow> nat \<times> 'c store" where
  "tick s = (Suc (clock s), s\<lparr>clock := Suc (clock s)\<rparr>)"

text \<open>\<^verbatim>\<open>_touch\<close>: the entry object becomes most recently used; the updated entry is returned.\<close>

definition touch :: "'c entry \<Rightarrow> 'c store \<Rightarrow> 'c entry \<times> 'c store" where
  "touch e s = (let (t, s1) = tick s; e' = e\<lparr>e_last_used := t\<rparr>
     in (e', s1\<lparr>entries := update_entry e' (entries s1)\<rparr>))"

text \<open>\<^verbatim>\<open>_tier\<close> goes through \<^verbatim>\<open>_tier_index\<close>, whose comprehension keeps the last of equal names.\<close>

definition tier_named :: "'c store \<Rightarrow> string \<Rightarrow> tier_spec option" where
  "tier_named s n = List.find (\<lambda>t. ts_name t = n) (rev (tiers s))"

definition record_peak :: "string \<Rightarrow> 'c store \<Rightarrow> 'c store" where
  "record_peak n s = (if used s n > peak s n then s\<lparr>peak := (peak s)(n := used s n)\<rparr> else s)"

definition move :: "'c entry \<Rightarrow> string \<Rightarrow> 'c store \<Rightarrow> 'c store" where
  "move e dst s =
     (let s1 = s\<lparr>used := (used s)(e_tier e := used s (e_tier e) - int (e_nbytes e))\<rparr>;
          e' = e\<lparr>e_tier := dst\<rparr>;
          s2 = s1\<lparr>entries := update_entry e' (entries s1)\<rparr>;
          s3 = s2\<lparr>used := (used s2)(dst := used s2 dst + int (e_nbytes e))\<rparr>
      in record_peak dst s3)"

text \<open>\<^verbatim>\<open>min(candidates, key=...)\<close> returns the first of the minima.\<close>

fun min_used :: "'c entry list \<Rightarrow> 'c entry option" where
  "min_used [] = None"
| "min_used (e # es) =
     (case min_used es of None \<Rightarrow> Some e
      | Some m \<Rightarrow> if e_last_used e \<le> e_last_used m then Some e else Some m)"

definition lru_in :: "string \<Rightarrow> 'c store \<Rightarrow> 'c entry option" where
  "lru_in n s = min_used (filter (\<lambda>e. e_tier e = n) (entries s))"

definition evict :: "string \<Rightarrow> 'c store \<Rightarrow> 'c store" where
  "evict h s =
     (case lookup_entry s h of None \<Rightarrow> s
      | Some e \<Rightarrow> s\<lparr>entries := filter (\<lambda>x. e_handle x \<noteq> h) (entries s),
                    index := AList.delete (e_tenant e, e_key e) (index s),
                    used := (used s)(e_tier e := used s (e_tier e) - int (e_nbytes e))\<rparr>)"

text \<open>One round of the \<^verbatim>\<open>while\<close> loop of \<^verbatim>\<open>_enforce_capacity\<close> for tier \<open>i\<close>.\<close>

definition spill :: "nat \<Rightarrow> 'c entry \<Rightarrow> 'c store \<Rightarrow> 'c store" where
  "spill i victim s =
     (if Suc i = length (tiers s)
      then (evict (e_handle victim) s)\<lparr>evictions_dropped := Suc (evictions_dropped s)\<rparr>
      else (move victim (ts_name (tiers s ! Suc i)) s)\<lparr>demotions := Suc (demotions s)\<rparr>)"

partial_function (option) drain :: "nat \<Rightarrow> tier_spec \<Rightarrow> 'c store \<Rightarrow> 'c store option" where
  "drain i t s =
     (if used s (ts_name t) > capacity_bytes t
      then (case lru_in (ts_name t) s of None \<Rightarrow> Some s
            | Some victim \<Rightarrow> drain i t (spill i victim s))
      else Some s)"

fun enforce_from :: "nat \<Rightarrow> tier_spec list \<Rightarrow> 'c store \<Rightarrow> 'c store option" where
  "enforce_from i [] s = Some s"
| "enforce_from i (t # ts) s = drain i t s \<bind> enforce_from (Suc i) ts"

definition enforce_capacity :: "'c store \<Rightarrow> 'c store option" where
  "enforce_capacity s = enforce_from 0 (tiers s) s"

definition promote :: "'c entry \<Rightarrow> 'c store \<Rightarrow> 'c store option" where
  "promote e s =
     (let top = ts_name (hd (tiers s)) in
      if e_tier e \<noteq> top
      then enforce_capacity ((move e top s)\<lparr>promotions := Suc (promotions s)\<rparr>)
      else Some s)"

section \<open>The CacheStore protocol\<close>

definition handle_of :: "string \<Rightarrow> string \<Rightarrow> string" where
  "handle_of tenant key = tenant @ ''::'' @ key"

text \<open>\<^verbatim>\<open>put\<close>. The outer option is \<^const>\<open>None\<close> when the call does not return; the inner sum
  is the exception or the handle and the new store.\<close>

definition put :: "string \<Rightarrow> string \<Rightarrow> 'c \<Rightarrow> nat \<Rightarrow> 'c store \<Rightarrow> (string \<times> 'c store) result option" where
  "put tenant key cache nbytes s =
     (case map_of (index s) (tenant, key) of
        Some handle \<Rightarrow>
          (case lookup_entry s handle of
             None \<Rightarrow> Some (Inl (KeyError handle))
           | Some e \<Rightarrow> (case touch e s of (e', s1) \<Rightarrow>
               promote e' s1 \<bind> (\<lambda>s2. Some (Inr (handle, s2)))))
      | None \<Rightarrow>
          (let handle = handle_of tenant key; top = ts_name (hd (tiers s)); (t, s0) = tick s;
               e = \<lparr>e_handle = handle, e_key = key, e_tenant = tenant, e_cache = cache,
                    e_nbytes = nbytes, e_tier = top, e_last_used = t\<rparr>;
               s1 = s0\<lparr>entries := put_entry e (entries s0),
                        index := AList.update (tenant, key) handle (index s0),
                        used := (used s0)(top := used s0 top + int nbytes)\<rparr>;
               s2 = record_peak top s1;
               s3 = s2\<lparr>modeled_access_seconds :=
                          modeled_access_seconds s2 + access_seconds (hd (tiers s2)) nbytes\<rparr>
           in enforce_capacity s3 \<bind> (\<lambda>s4. Some (Inr (handle, s4)))))"

definition get :: "string \<Rightarrow> 'c store \<Rightarrow> ('c option \<times> 'c store) result option" where
  "get handle s0 =
     (let s = s0\<lparr>gets := Suc (gets s0)\<rparr> in
      case lookup_entry s handle of
        None \<Rightarrow> Some (Inr (None, s\<lparr>get_misses := Suc (get_misses s)\<rparr>))
      | Some e \<Rightarrow>
          (case tier_named s (e_tier e) of
             None \<Rightarrow> Some (Inl (KeyError (e_tier e)))
           | Some t \<Rightarrow>
               (let s1 = s\<lparr>get_hits := Suc (get_hits s), modeled_access_seconds :=
                             modeled_access_seconds s + access_seconds t (e_nbytes e)\<rparr>
                in case touch e s1 of (e', s2) \<Rightarrow>
                     promote e' s2 \<bind> (\<lambda>s3. Some (Inr (Some (e_cache e), s3))))))"

definition has :: "string \<Rightarrow> string \<Rightarrow> 'c store \<Rightarrow> string option \<times> 'c store" where
  "has tenant key s =
     (let h = map_of (index s) (tenant, key);
          s1 = s\<lparr>reuse_lookups := Suc (reuse_lookups s)\<rparr>
      in (h, if h \<noteq> None then s1\<lparr>reuse_hits := Suc (reuse_hits s1)\<rparr> else s1))"

text \<open>\<^verbatim>\<open>stats\<close>: the per-tier snapshot and the aggregates.\<close>

record tier_stats =
  st_capacity :: int
  st_used :: int
  st_peak :: int
  st_n_entries :: nat

record store_stats =
  s_tiers :: "(string, tier_stats) dict"
  s_n_entries :: nat
  s_total_bytes :: int
  s_peak_total_bytes :: int
  s_reuse_hit_rate :: rat

definition stats :: "'c store \<Rightarrow> store_stats" where
  "stats s =
     \<lparr>s_tiers = foldl (\<lambda>d t. AList.update (ts_name t)
          \<lparr>st_capacity = capacity_bytes t, st_used = used s (ts_name t), st_peak = peak s (ts_name t),
           st_n_entries = length (filter (\<lambda>e. e_tier e = ts_name t) (entries s))\<rparr> d) [] (tiers s),
      s_n_entries = length (entries s),
      s_total_bytes = sum_list (map (used s) (remdups (map ts_name (tiers s)))),
      s_peak_total_bytes = sum_list (map (peak s) (remdups (map ts_name (tiers s)))),
      s_reuse_hit_rate =
        (if reuse_lookups s \<noteq> 0 then of_nat (reuse_hits s) / of_nat (reuse_lookups s) else 0)\<rparr>"


section \<open>Invariants\<close>

definition tier_names :: "'c store \<Rightarrow> string list" where
  "tier_names s = map ts_name (tiers s)"

definition ids :: "'c entry list \<Rightarrow> (string \<times> string) list" where
  "ids es = map (\<lambda>e. (e_tenant e, e_key e)) es"

definition tier_bytes :: "string \<Rightarrow> 'c entry list \<Rightarrow> nat" where
  "tier_bytes n es = sum_list (map e_nbytes (filter (\<lambda>e. e_tier e = n) es))"

text \<open>Well-formedness: the index, the entries and the byte counters agree.\<close>

definition wf_entry :: "string list \<Rightarrow> nat \<Rightarrow> 'c entry \<Rightarrow> bool" where
  "wf_entry ns c e \<longleftrightarrow> e_tier e \<in> set ns \<and> e_handle e = handle_of (e_tenant e) (e_key e)
     \<and> CHR '':'' \<notin> set (e_tenant e) \<and> e_last_used e \<le> c"

definition wf :: "'c store \<Rightarrow> bool" where
  "wf s \<longleftrightarrow> tiers s \<noteq> [] \<and> distinct (tier_names s) \<and> distinct (map e_handle (entries s))
     \<and> list_all (wf_entry (tier_names s) (clock s)) (entries s)
     \<and> distinct (map e_last_used (entries s))
     \<and> dict_ok (index s)
     \<and> (\<forall>p. map_of (index s) p =
             (if p \<in> set (ids (entries s)) then Some (handle_of (fst p) (snd p)) else None))
     \<and> (\<forall>n. used s n = int (tier_bytes n (entries s)))
     \<and> (\<forall>n. int (tier_bytes n (entries s)) \<le> peak s n)"

text \<open>Capacity: no tier holds more than its capacity.\<close>

definition fits :: "'c store \<Rightarrow> bool" where
  "fits s \<longleftrightarrow> list_all (\<lambda>t. used s (ts_name t) \<le> capacity_bytes t) (tiers s)"

definition caps_ok :: "'c store \<Rightarrow> bool" where
  "caps_ok s \<longleftrightarrow> list_all (\<lambda>t. 0 \<le> capacity_bytes t) (tiers s)"

text \<open>Recency: every entry of a faster tier was used after every entry of a slower one.\<close>

definition ranked_es :: "string list \<Rightarrow> 'c entry set \<Rightarrow> bool" where
  "ranked_es ns E \<longleftrightarrow> (\<forall>i j e f. i < j \<longrightarrow> j < length ns \<longrightarrow> e \<in> E \<longrightarrow> f \<in> E \<longrightarrow>
     e_tier e = ns ! i \<longrightarrow> e_tier f = ns ! j \<longrightarrow> e_last_used f < e_last_used e)"

definition ranked :: "'c store \<Rightarrow> bool" where
  "ranked s \<longleftrightarrow> ranked_es (tier_names s) (set (entries s))"

text \<open>What an entry is apart from where it lives.\<close>

definition core :: "'c entry \<Rightarrow> 'c entry" where
  "core e = e\<lparr>e_tier := []\<rparr>"

lemma core_tier [simp]: "core (e\<lparr>e_tier := t\<rparr>) = core e"
  by (simp add: core_def)

lemma core_eqD:
  "core e = core f \<Longrightarrow> e_handle e = e_handle f \<and> e_key e = e_key f \<and> e_tenant e = e_tenant f
     \<and> e_cache e = e_cache f \<and> e_nbytes e = e_nbytes f \<and> e_last_used e = e_last_used f"
  by (cases e; cases f) (simp add: core_def)

text \<open>
  The effect of enforcing capacity on the entries: nothing new appears, every drop is counted, and
  what is dropped was used before everything that is kept.
\<close>

definition shrinks :: "'c store \<Rightarrow> 'c store \<Rightarrow> bool" where
  "shrinks s s' \<longleftrightarrow> tiers s' = tiers s \<and> clock s' = clock s
     \<and> core ` set (entries s') \<subseteq> core ` set (entries s)
     \<and> length (entries s') + evictions_dropped s' = length (entries s) + evictions_dropped s
     \<and> (\<forall>d \<in> set (entries s). core d \<notin> core ` set (entries s') \<longrightarrow>
           (\<forall>e \<in> set (entries s'). e_last_used d < e_last_used e))"

lemma shrinks_refl [simp]: "shrinks s s"
  by (auto simp: shrinks_def)

lemma shrinks_trans:
  assumes "shrinks a b" "shrinks b c" shows "shrinks a c"
proof -
  have "e_last_used d < e_last_used e"
    if d: "d \<in> set (entries a)" "core d \<notin> core ` set (entries c)" and e: "e \<in> set (entries c)" for d e
  proof (cases "core d \<in> core ` set (entries b)")
    case True
    then obtain d' where d': "d' \<in> set (entries b)" "core d = core d'" by auto
    with d e assms(2) have "e_last_used d' < e_last_used e" by (auto simp: shrinks_def)
    with core_eqD [OF d'(2)] show ?thesis by simp
  next
    case False
    from e assms(2) obtain e' where e': "e' \<in> set (entries b)" "core e = core e'"
      by (auto simp: shrinks_def)
    with False d assms(1) have "e_last_used d < e_last_used e'" by (auto simp: shrinks_def)
    with core_eqD [OF e'(2)] show ?thesis by simp
  qed
  moreover have "core ` set (entries c) \<subseteq> core ` set (entries a)"
    using assms by (meson shrinks_def order_trans)
  ultimately show ?thesis using assms unfolding shrinks_def by simp
qed

lemma shrinks_fields:
  assumes "entries s' = entries s" "tiers s' = tiers s" "clock s' = clock s"
    "evictions_dropped s' = evictions_dropped s"
  shows "shrinks s s'"
  using assms by (auto simp: shrinks_def)

section \<open>Splitting the entry list at one entry\<close>

lemma update_entry_split:
  assumes "distinct (map e_handle (xs @ e # ys))" "e_handle e' = e_handle e"
  shows "update_entry e' (xs @ e # ys) = xs @ e' # ys"
proof -
  have "update_entry e' zs = zs" if "e_handle e' \<notin> e_handle ` set zs" for zs :: "'a entry list"
    using that by (induction zs) (auto simp: update_entry_def)
  with assms show ?thesis by (auto simp: update_entry_def)
qed

lemma filter_handle_split:
  assumes "distinct (map e_handle (xs @ e # ys))"
  shows "filter (\<lambda>x. e_handle x \<noteq> e_handle e) (xs @ e # ys) = xs @ ys"
proof -
  have "filter (\<lambda>x. e_handle x \<noteq> e_handle e) zs = zs" if "e_handle e \<notin> e_handle ` set zs" for zs
    using that by (induction zs) auto
  from this [of xs] this [of ys] assms show ?thesis by simp
qed

lemma lookup_entry_split:
  assumes "distinct (map e_handle (xs @ e # ys))" "entries s = xs @ e # ys"
  shows "lookup_entry s (e_handle e) = Some e"
proof -
  have "List.find (\<lambda>x. e_handle x = e_handle e) (zs @ e # ys) = Some e"
    if "e_handle e \<notin> e_handle ` set zs" for zs
    using that by (induction zs) auto
  with assms show ?thesis by (simp add: lookup_entry_def)
qed

lemma lookup_entry_Some:
  assumes "lookup_entry s h = Some e"
  obtains xs ys where "entries s = xs @ e # ys" "e_handle e = h"
  using assms by (auto simp: lookup_entry_def find_Some_iff in_set_conv_decomp)
    (metis id_take_nth_drop)

lemma tier_bytes_simps [simp]:
  "tier_bytes n [] = 0"
  "tier_bytes n (e # es) = (if e_tier e = n then e_nbytes e else 0) + tier_bytes n es"
  "tier_bytes n (xs @ ys) = tier_bytes n xs + tier_bytes n ys"
  by (simp_all add: tier_bytes_def)

lemma ids_simps [simp]:
  "ids [] = []" "ids (e # es) = (e_tenant e, e_key e) # ids es" "ids (xs @ ys) = ids xs @ ids ys"
  by (simp_all add: ids_def)

lemma wf_handles: "list_all (wf_entry ns c) es \<Longrightarrow> map e_handle es = map (\<lambda>p. handle_of (fst p) (snd p)) (ids es)"
  by (induction es) (auto simp: wf_entry_def)

lemma wf_used: "wf s \<Longrightarrow> used s n = int (tier_bytes n (entries s))"
  and wf_peak_bytes: "wf s \<Longrightarrow> int (tier_bytes n (entries s)) \<le> peak s n"
  and wf_index: "wf s \<Longrightarrow> map_of (index s) p =
      (if p \<in> set (ids (entries s)) then Some (handle_of (fst p) (snd p)) else None)"
  unfolding wf_def by blast+

lemma wf_peak: "wf s \<Longrightarrow> used s n \<le> peak s n"
  by (simp add: wf_used wf_peak_bytes)

lemma wf_ids_distinct: "wf s \<Longrightarrow> distinct (ids (entries s))"
proof -
  assume w: "wf s"
  have "list_all (wf_entry (tier_names s) (clock s)) (entries s)" using w unfolding wf_def by blast
  from wf_handles [OF this]
  have "distinct (map (\<lambda>p. handle_of (fst p) (snd p)) (ids (entries s)))"
    using w unfolding wf_def by metis
  then show ?thesis by (rule distinct_map [THEN iffD1, THEN conjunct1])
qed

lemma handle_inj:
  assumes "CHR '':'' \<notin> set a" "CHR '':'' \<notin> set b" "handle_of a x = handle_of b y"
  shows "a = b \<and> x = y"
  using sep_inj [of "CHR '':''" a b "'':'' @ x" "'':'' @ y"] assms by (simp add: handle_of_def)



lemma wf_counters [simp]:
  "wf (s\<lparr>demotions := x1\<rparr>) = wf s" "wf (s\<lparr>promotions := x1\<rparr>) = wf s"
  "wf (s\<lparr>evictions_dropped := x1\<rparr>) = wf s" "wf (s\<lparr>gets := x1\<rparr>) = wf s"
  "wf (s\<lparr>get_hits := x1\<rparr>) = wf s" "wf (s\<lparr>get_misses := x1\<rparr>) = wf s"
  "wf (s\<lparr>reuse_hits := x1\<rparr>) = wf s" "wf (s\<lparr>reuse_lookups := x1\<rparr>) = wf s"
  "wf (s\<lparr>modeled_access_seconds := x2\<rparr>) = wf s"
  by (simp_all add: wf_def tier_names_def)

lemma ranked_counters [simp]:
  "ranked (s\<lparr>demotions := x1\<rparr>) = ranked s" "ranked (s\<lparr>promotions := x1\<rparr>) = ranked s"
  "ranked (s\<lparr>evictions_dropped := x1\<rparr>) = ranked s" "ranked (s\<lparr>gets := x1\<rparr>) = ranked s"
  "ranked (s\<lparr>get_hits := x1\<rparr>) = ranked s" "ranked (s\<lparr>get_misses := x1\<rparr>) = ranked s"
  "ranked (s\<lparr>reuse_hits := x1\<rparr>) = ranked s" "ranked (s\<lparr>reuse_lookups := x1\<rparr>) = ranked s"
  "ranked (s\<lparr>modeled_access_seconds := x2\<rparr>) = ranked s"
  by (simp_all add: ranked_def tier_names_def)

lemma record_peak_fields [simp]:
  "entries (record_peak n s) = entries s" "tiers (record_peak n s) = tiers s"
  "index (record_peak n s) = index s" "clock (record_peak n s) = clock s"
  "used (record_peak n s) = used s" "evictions_dropped (record_peak n s) = evictions_dropped s"
  "modeled_access_seconds (record_peak n s) = modeled_access_seconds s"
  by (simp_all add: record_peak_def)

lemma peak_record_peak: "peak (record_peak n s) m = (if m = n then max (peak s n) (used s n) else peak s m)"
  by (auto simp: record_peak_def)

lemma move_fields [simp]:
  "tiers (move e d s) = tiers s" "index (move e d s) = index s" "clock (move e d s) = clock s"
  "evictions_dropped (move e d s) = evictions_dropped s"
  by (simp_all add: move_def Let_def)

lemma move_used:
  "used (move e d s) n = used s n - (if e_tier e = n then int (e_nbytes e) else 0) + (if d = n then int (e_nbytes e) else 0)"
  by (simp add: move_def Let_def)

lemma move_entries: "entries (move e d s) = update_entry (e\<lparr>e_tier := d\<rparr>) (entries s)"
  by (simp add: move_def Let_def)

lemma move_peak: "peak s n \<le> peak (move e d s) n" "used (move e d s) d \<le> peak (move e d s) d"
  by (auto simp: move_def Let_def peak_record_peak)

lemma move_wf:
  assumes "wf s" "entries s = xs @ e # ys" "d \<in> set (tier_names s)"
  shows "wf (move e d s)" "entries (move e d s) = xs @ e\<lparr>e_tier := d\<rparr> # ys"
proof -
  show E: "entries (move e d s) = xs @ e\<lparr>e_tier := d\<rparr> # ys"
    using assms(1,2) by (simp add: move_entries update_entry_split wf_def)
  have P: "used (move e d s) n \<le> peak (move e d s) n" for n
  proof (cases "n = d")
    case True then show ?thesis using move_peak(2) by metis
  next
    case False
    have "used (move e d s) n \<le> used s n" using False by (simp add: move_used)
    also have "\<dots> \<le> peak s n" using assms(1) by (rule wf_peak)
    finally show ?thesis using move_peak(1) [of s n e d] by simp
  qed
  have U: "used (move e d s) n = int (tier_bytes n (entries (move e d s)))" for n
    using assms(1,2) by (auto simp: move_used E wf_def)
  show "wf (move e d s)"
    unfolding wf_def
    using assms P U by (auto simp: E wf_def wf_entry_def tier_names_def)
qed

lemma evict_wf:
  assumes "wf s" "entries s = xs @ e # ys"
  shows "wf (evict (e_handle e) s)" "entries (evict (e_handle e) s) = xs @ ys"
    "tiers (evict (e_handle e) s) = tiers s" "clock (evict (e_handle e) s) = clock s"
    "evictions_dropped (evict (e_handle e) s) = evictions_dropped s"
    "used (evict (e_handle e) s) n \<le> used s n"
proof -
  have D: "distinct (map e_handle (xs @ e # ys))" using assms by (simp add: wf_def)
  have L: "lookup_entry s (e_handle e) = Some e" using lookup_entry_split [OF D] assms(2) by simp
  have I: "distinct (ids (xs @ e # ys))" using wf_ids_distinct [OF assms(1)] assms(2) by simp
  show E: "entries (evict (e_handle e) s) = xs @ ys"
    using filter_handle_split [OF D] by (simp add: evict_def L assms(2))
  show F: "tiers (evict (e_handle e) s) = tiers s" "clock (evict (e_handle e) s) = clock s"
    "evictions_dropped (evict (e_handle e) s) = evictions_dropped s"
    by (simp_all add: evict_def L)
  have le: "used (evict (e_handle e) s) n \<le> used s n" for n by (simp add: evict_def L)
  then show "used (evict (e_handle e) s) n \<le> used s n" .
  have U: "used (evict (e_handle e) s) n = int (tier_bytes n (xs @ ys))" for n
    using assms(2) wf_used [OF assms(1)] by (simp add: evict_def L)
  have P: "used (evict (e_handle e) s) n \<le> peak (evict (e_handle e) s) n" for n
    using order_trans [OF le wf_peak [OF assms(1)]] by (simp add: evict_def L)
  have M: "map_of (index (evict (e_handle e) s)) p =
      (if p \<in> set (ids (xs @ ys)) then Some (handle_of (fst p) (snd p)) else None)" for p
    using assms(2) I wf_index [OF assms(1)] by (cases p) (auto simp: evict_def L)
  have W: "tiers s \<noteq> []" "distinct (tier_names s)" "distinct (map e_handle (xs @ ys))"
    "list_all (wf_entry (tier_names s) (clock s)) (xs @ ys)"
    "distinct (map e_last_used (xs @ ys))" "dict_ok (index s)"
    using assms by (auto simp: wf_def)
  have N: "tier_names (evict (e_handle e) s) = tier_names s" by (simp add: tier_names_def F)
  have "dict_ok (index (evict (e_handle e) s))" using W(6) by (simp add: evict_def L)
  moreover have "int (tier_bytes n (xs @ ys)) \<le> peak (evict (e_handle e) s) n" for n
    using P [of n] U [of n] by simp
  ultimately show "wf (evict (e_handle e) s)" using W U M unfolding wf_def E F N by blast
qed

lemma min_used_props:
  "min_used es = Some m \<Longrightarrow> m \<in> set es \<and> (\<forall>e \<in> set es. e_last_used m \<le> e_last_used e)"
proof (induction es arbitrary: m)
  case Nil then show ?case by simp
next
  case (Cons e es)
  show ?case
  proof (cases "min_used es")
    case None
    then have "es = []" by (cases es) (auto split: option.splits if_splits)
    with Cons.prems show ?thesis by simp
  next
    case (Some k)
    with Cons.IH [OF Some] Cons.prems show ?thesis by (auto split: if_splits)
  qed
qed

lemma min_used_None: "min_used es = None \<longleftrightarrow> es = []"
  by (cases es) (auto split: option.splits if_splits)

lemma lru_in_Some:
  assumes "lru_in n s = Some v"
  shows "v \<in> set (entries s)" "e_tier v = n"
    "\<And>e. e \<in> set (entries s) \<Longrightarrow> e_tier e = n \<Longrightarrow> e_last_used v \<le> e_last_used e"
  using min_used_props [OF assms [unfolded lru_in_def]] by auto

lemma lru_in_None: "lru_in n s = None \<Longrightarrow> wf s \<Longrightarrow> used s n = 0"
  by (auto simp: lru_in_def min_used_None wf_def tier_bytes_def)


section \<open>One step of the cascade\<close>

lemma ranked_es_mono: "ranked_es ns E \<Longrightarrow> F \<subseteq> E \<Longrightarrow> ranked_es ns F"
  unfolding ranked_es_def by blast

lemma ranked_es_top:
  assumes "ranked_es ns E" "distinct ns" "e_tier e = ns ! 0"
    "\<And>f. f \<in> E \<Longrightarrow> e_last_used f < e_last_used e"
  shows "ranked_es ns (insert e E)"
  unfolding ranked_es_def
proof (intro allI impI)
  fix i j a b
  assume ij: "i < j" "j < length ns" "a \<in> insert e E" "b \<in> insert e E"
    "e_tier a = ns ! i" "e_tier b = ns ! j"
  then have "0 < j" by simp
  then have "ns ! 0 \<noteq> ns ! j" using ij assms(2) nth_eq_iff_index_eq [of ns 0 j] by (cases ns) auto
  with ij assms(3) have "b \<noteq> e" by auto
  with ij assms(1,4) show "e_last_used b < e_last_used a" unfolding ranked_es_def by auto
qed

lemma ranked_es_demote:
  assumes r: "ranked_es ns (insert v E)" and d: "distinct ns" and i: "Suc i < length ns"
    and t: "e_tier v = ns ! i"
    and least: "\<And>e. e \<in> E \<Longrightarrow> e_tier e = ns ! i \<Longrightarrow> e_last_used v < e_last_used e"
  shows "ranked_es ns (insert (v\<lparr>e_tier := ns ! Suc i\<rparr>) E)"
  unfolding ranked_es_def
proof (intro allI impI)
  let ?v = "v\<lparr>e_tier := ns ! Suc i\<rparr>"
  fix a b e f
  assume ab: "a < b" "b < length ns" and e: "e \<in> insert ?v E" "e_tier e = ns ! a"
    and f: "f \<in> insert ?v E" "e_tier f = ns ! b"
  have R: "e_last_used y < e_last_used x"
    if "p < q" "q < length ns" "x \<in> insert v E" "y \<in> insert v E" "e_tier x = ns ! p" "e_tier y = ns ! q"
    for p q x y
    using r that unfolding ranked_es_def by blast
  have N: "ns ! p = ns ! q \<longleftrightarrow> p = q" if "p < length ns" "q < length ns" for p q
    using d that by (simp add: nth_eq_iff_index_eq)
  consider "e = ?v" "f = ?v" | "e = ?v" "f \<in> E" | "e \<in> E" "f = ?v" | "e \<in> E" "f \<in> E"
    using e f by auto
  then show "e_last_used f < e_last_used e"
  proof cases
    case 1 then show ?thesis using ab e f N [of a b] by simp
  next
    case 2
    then have "a = Suc i" using e ab i N [of "Suc i" a] by simp
    then show ?thesis using R [of i b v f] ab 2 f t by simp
  next
    case 3
    then have b: "b = Suc i" using f ab i N [of "Suc i" b] by simp
    show ?thesis
    proof (cases "a = i")
      case True then show ?thesis using least [of e] 3 e by simp
    next
      case False then show ?thesis using R [of a i e v] ab b i 3 e t by simp
    qed
  next
    case 4 then show ?thesis using R [of a b e f] ab e f by simp
  qed
qed

text \<open>The precondition of a step on tier \<open>i\<close> and what it establishes.\<close>

lemma spill_ok:
  assumes w: "wf s" and r: "ranked s" and i: "i < length (tiers s)"
    and v: "lru_in (ts_name (tiers s ! i)) s = Some v"
  shows "wf (spill i v s)" "ranked (spill i v s)" "shrinks s (spill i v s)"
    "j \<le> i \<Longrightarrow> used (spill i v s) (tier_names s ! j) \<le> used s (tier_names s ! j)"
    "length (filter (\<lambda>e. e_tier e = tier_names s ! i) (entries (spill i v s)))
       < length (filter (\<lambda>e. e_tier e = tier_names s ! i) (entries s))"
proof -
  define ns where "ns = tier_names s"
  have nsi: "ts_name (tiers s ! i) = ns ! i" "length ns = length (tiers s)"
    using i by (auto simp: ns_def tier_names_def)
  have dn: "distinct ns" using w by (simp add: wf_def ns_def)
  note V = lru_in_Some [OF v]
  from V(1) obtain xs ys where es: "entries s = xs @ v # ys" by (auto simp: in_set_conv_decomp)
  have inj: "e_last_used v < e_last_used e" if "e \<in> set xs \<union> set ys" "e_tier e = ns ! i" for e
  proof -
    have "e_last_used v \<le> e_last_used e" using V(3) [of e] that es nsi by auto
    moreover have "e_last_used v \<noteq> e_last_used e" using w that es by (auto simp: wf_def)
    ultimately show ?thesis by simp
  qed
  have r': "ranked_es ns (insert v (set xs \<union> set ys))" using r es by (simp add: ranked_def ns_def)
  have tv: "e_tier v = ns ! i" using V(2) nsi by simp
  have len: "length (filter (\<lambda>e. e_tier e = ns ! i) (xs @ ys)) <
      length (filter (\<lambda>e. e_tier e = ns ! i) (entries s))" by (simp add: es tv)
  have main: "wf (spill i v s) \<and> ranked (spill i v s) \<and> shrinks s (spill i v s) \<and>
      (j \<le> i \<longrightarrow> used (spill i v s) (tier_names s ! j) \<le> used s (tier_names s ! j)) \<and>
      length (filter (\<lambda>e. e_tier e = tier_names s ! i) (entries (spill i v s)))
       < length (filter (\<lambda>e. e_tier e = tier_names s ! i) (entries s))"
  proof (cases "Suc i = length (tiers s)")
    case True
    note E = evict_wf [OF w es]
    have sp: "spill i v s = (evict (e_handle v) s)\<lparr>evictions_dropped := Suc (evictions_dropped s)\<rparr>"
      using True by (simp add: spill_def)
    have "e_last_used v < e_last_used e" if e: "e \<in> set xs \<union> set ys" for e
    proof -
      have "e_tier e \<in> set ns" using w e es by (auto simp: wf_def wf_entry_def list_all_iff ns_def)
      then obtain a where a: "a < length ns" "e_tier e = ns ! a" by (metis in_set_conv_nth)
      show ?thesis
      proof (cases "a = i")
        case True then show ?thesis using inj e a by simp
      next
        case False
        then have "a < i" using a True nsi by simp
        with r' a e tv i nsi show ?thesis unfolding ranked_es_def by (metis Un_iff insert_iff)
      qed
    qed
    then have "shrinks s (spill i v s)"
      using E by (auto simp: sp shrinks_def es)
    moreover have "ranked (spill i v s)"
      using ranked_es_mono [OF r', of "set xs \<union> set ys"] E by (auto simp: sp ranked_def ns_def tier_names_def)
    ultimately show ?thesis
      using E len by (simp add: sp ns_def)
  next
    case False
    define d where "d = ns ! Suc i"
    have d: "ts_name (tiers s ! Suc i) = d" "d \<in> set ns" "Suc i < length ns"
      using False i by (auto simp: d_def ns_def tier_names_def)
    have sp: "spill i v s = (move v d s)\<lparr>demotions := Suc (demotions s)\<rparr>"
      using False d by (simp add: spill_def)
    note M = move_wf [OF w es d(2) [unfolded ns_def]]
    have rk: "ranked (spill i v s)"
      using ranked_es_demote [OF r' dn d(3) tv inj] M(2)
      by (simp add: sp ranked_def d_def ns_def tier_names_def)
    have sh: "shrinks s (spill i v s)" using M(2) by (auto simp: sp shrinks_def es)
    have us: "used (spill i v s) (ns ! j) \<le> used s (ns ! j)" if "j \<le> i"
      using that d i nsi nth_eq_iff_index_eq [OF dn, of "Suc i" j] by (simp add: sp move_used d_def)
    have "ns ! Suc i \<noteq> ns ! i" using nth_eq_iff_index_eq [OF dn, of "Suc i" i] d by simp
    then have "length (filter (\<lambda>e. e_tier e = ns ! i) (entries (spill i v s)))
       < length (filter (\<lambda>e. e_tier e = ns ! i) (entries s))"
      using len M(2) by (simp add: sp d_def)
    with rk sh us M(1) show ?thesis
      by (simp add: sp ns_def)
  qed
  then show "wf (spill i v s)" "ranked (spill i v s)" "shrinks s (spill i v s)"
    "j \<le> i \<Longrightarrow> used (spill i v s) (tier_names s ! j) \<le> used s (tier_names s ! j)"
    "length (filter (\<lambda>e. e_tier e = tier_names s ! i) (entries (spill i v s)))
       < length (filter (\<lambda>e. e_tier e = tier_names s ! i) (entries s))"
    by blast+
qed

lemma shrinks_tiers: "shrinks s s' \<Longrightarrow> tiers s' = tiers s" "shrinks s s' \<Longrightarrow> tier_names s' = tier_names s"
  by (simp_all add: shrinks_def tier_names_def)

lemma drain_ok:
  assumes "wf s" "ranked s" "i < length (tiers s)" "t = tiers s ! i" "0 \<le> capacity_bytes t"
  shows "\<exists>s'. drain i t s = Some s' \<and> wf s' \<and> ranked s' \<and> shrinks s s'
    \<and> used s' (ts_name t) \<le> capacity_bytes t
    \<and> (\<forall>j \<le> i. used s' (tier_names s ! j) \<le> used s (tier_names s ! j))"
  using assms
proof (induction "length (filter (\<lambda>e. e_tier e = tier_names s ! i) (entries s))" arbitrary: s rule: less_induct)
  case less
  show ?case
  proof (cases "used s (ts_name t) > capacity_bytes t")
    case False then show ?thesis using less.prems by (simp add: drain.simps)
  next
    case True
    then obtain v where v: "lru_in (ts_name t) s = Some v"
      using lru_in_None [of "ts_name t" s] less.prems by (cases "lru_in (ts_name t) s") auto
    have S: "wf (spill i v s)" "ranked (spill i v s)" "shrinks s (spill i v s)"
      "\<And>j. j \<le> i \<Longrightarrow> used (spill i v s) (tier_names s ! j) \<le> used s (tier_names s ! j)"
      "length (filter (\<lambda>e. e_tier e = tier_names s ! i) (entries (spill i v s)))
       < length (filter (\<lambda>e. e_tier e = tier_names s ! i) (entries s))"
      using spill_ok [of s i v] v less.prems by auto
    have T: "tiers (spill i v s) = tiers s" "tier_names (spill i v s) = tier_names s"
      using shrinks_tiers [OF S(3)] by auto
    obtain s' where s': "drain i t (spill i v s) = Some s'" "wf s'" "ranked s'" "shrinks (spill i v s) s'"
      "used s' (ts_name t) \<le> capacity_bytes t"
      "\<forall>j \<le> i. used s' (tier_names s ! j) \<le> used (spill i v s) (tier_names s ! j)"
      using less.hyps [of "spill i v s"] S less.prems T by auto
    have "shrinks s s'" using shrinks_trans [OF S(3) s'(4)] .
    moreover have "\<forall>j \<le> i. used s' (tier_names s ! j) \<le> used s (tier_names s ! j)"
      using s'(6) S(4) by (meson order_trans)
    moreover have "drain i t s = Some s'" using True v s'(1) by (subst drain.simps) simp
    ultimately show ?thesis using s' by blast
  qed
qed


lemma enforce_from_ok:
  assumes "wf s" "ranked s" "caps_ok s" "ts = drop i (tiers s)" "i \<le> length (tiers s)"
    "\<forall>j < i. used s (ts_name (tiers s ! j)) \<le> capacity_bytes (tiers s ! j)"
  shows "\<exists>s'. enforce_from i ts s = Some s' \<and> wf s' \<and> ranked s' \<and> fits s' \<and> shrinks s s'"
  using assms
proof (induction ts arbitrary: i s)
  case Nil
  then show ?case by (auto simp: fits_def list_all_length)
next
  case (Cons t ts)
  have i: "i < length (tiers s)" "t = tiers s ! i" "ts = drop (Suc i) (tiers s)"
    using Cons.prems(4) by (metis drop_all list.distinct(1) not_le, metis nth_via_drop, metis drop_Suc list.sel(3) tl_drop)
  have "0 \<le> capacity_bytes t" using Cons.prems(3) i by (auto simp: caps_ok_def list_all_length)
  with drain_ok [OF Cons.prems(1,2) i(1,2)] obtain s1 where
    s1: "drain i t s = Some s1" "wf s1" "ranked s1" "shrinks s s1"
      "used s1 (ts_name t) \<le> capacity_bytes t"
      "\<forall>j \<le> i. used s1 (tier_names s ! j) \<le> used s (tier_names s ! j)" by auto
  have T: "tiers s1 = tiers s" using shrinks_tiers [OF s1(4)] by simp
  have "\<forall>j < Suc i. used s1 (ts_name (tiers s1 ! j)) \<le> capacity_bytes (tiers s1 ! j)"
  proof (intro allI impI)
    fix j assume "j < Suc i"
    then consider "j = i" | "j < i" by linarith
    then show "used s1 (ts_name (tiers s1 ! j)) \<le> capacity_bytes (tiers s1 ! j)"
    proof cases
      case 1 then show ?thesis using s1(5) i T by simp
    next
      case 2
      then have "used s1 (tier_names s ! j) \<le> used s (tier_names s ! j)" using s1(6) by simp
      moreover have "tier_names s ! j = ts_name (tiers s ! j)" using 2 i(1) by (simp add: tier_names_def)
      ultimately show ?thesis using Cons.prems(6) 2 T by force
    qed
  qed
  then obtain s' where "enforce_from (Suc i) ts s1 = Some s'" "wf s'" "ranked s'" "fits s'" "shrinks s1 s'"
    using Cons.IH [of s1 "Suc i"] s1 T i Cons.prems(3) by (auto simp: caps_ok_def)
  then show ?case using s1(1) shrinks_trans [OF s1(4)] by auto
qed

lemma enforce_capacity_ok:
  assumes "wf s" "ranked s" "caps_ok s"
  shows "\<exists>s'. enforce_capacity s = Some s' \<and> wf s' \<and> ranked s' \<and> fits s' \<and> shrinks s s'"
  unfolding enforce_capacity_def using enforce_from_ok [OF assms, of "tiers s" 0] by simp

section \<open>The operations\<close>

definition store_inv :: "'c store \<Rightarrow> bool" where
  "store_inv s \<longleftrightarrow> wf s \<and> ranked s \<and> fits s \<and> caps_ok s"

text \<open>The abstract state: which object is resident for a (tenant, key) pair.\<close>

definition contents :: "'c store \<Rightarrow> string \<times> string \<Rightarrow> 'c option" where
  "contents s p = map_option e_cache (List.find (\<lambda>e. (e_tenant e, e_key e) = p) (entries s))"

lemma contents_None: "contents s p = None \<longleftrightarrow> p \<notin> set (ids (entries s))"
  by (auto simp: contents_def find_None_iff ids_def)

lemma contents_Some:
  assumes "wf s"
  shows "contents s p = Some c \<longleftrightarrow> (\<exists>e \<in> set (entries s). (e_tenant e, e_key e) = p \<and> e_cache e = c)"
proof -
  have "List.find (\<lambda>e. (e_tenant e, e_key e) = p) es = Some e"
    if "distinct (ids es)" "e \<in> set es" "(e_tenant e, e_key e) = p" for es e
    using that by (induction es) (auto simp: ids_def)
  note ex = this [OF wf_ids_distinct [OF assms]]
  show ?thesis
  proof
    assume "contents s p = Some c"
    then obtain e where "List.find (\<lambda>e. (e_tenant e, e_key e) = p) (entries s) = Some e" "e_cache e = c"
      by (auto simp: contents_def)
    then show "\<exists>e \<in> set (entries s). (e_tenant e, e_key e) = p \<and> e_cache e = c"
      by (auto simp: find_Some_iff)
  next
    assume "\<exists>e \<in> set (entries s). (e_tenant e, e_key e) = p \<and> e_cache e = c"
    then obtain e where "e \<in> set (entries s)" "(e_tenant e, e_key e) = p" "e_cache e = c" by blast
    with ex [OF this(1,2)] show "contents s p = Some c" by (simp add: contents_def)
  qed
qed

lemma shrinks_contents:
  assumes "wf s" "wf s'" "shrinks s s'" shows "contents s' \<subseteq>\<^sub>m contents s"
  unfolding map_le_def
proof
  fix p assume "p \<in> dom (contents s')"
  then obtain c where c: "contents s' p = Some c" by auto
  then obtain e where e: "e \<in> set (entries s')" "(e_tenant e, e_key e) = p" "e_cache e = c"
    using contents_Some [OF assms(2)] by metis
  with assms(3) obtain f where f: "f \<in> set (entries s)" "core e = core f" by (auto simp: shrinks_def)
  with e core_eqD [OF f(2)] have "contents s p = Some c" using contents_Some [OF assms(1)] by metis
  with c show "contents s' p = contents s p" by simp
qed

text \<open>Touching an entry gives it the newest stamp and changes nothing else.\<close>

lemma touch_ok:
  assumes w: "wf s" and es: "entries s = xs @ e # ys" and t: "touch e s = (e', s')"
  shows "e' = e\<lparr>e_last_used := Suc (clock s)\<rparr>" "entries s' = xs @ e' # ys" "wf s'"
    "tiers s' = tiers s" "clock s' = Suc (clock s)" "used s' = used s" "index s' = index s"
    "evictions_dropped s' = evictions_dropped s"
    "\<And>f. f \<in> set xs \<union> set ys \<Longrightarrow> e_last_used f < e_last_used e'"
proof -
  have D: "distinct (map e_handle (xs @ e # ys))" using w es by (simp add: wf_def)
  show e': "e' = e\<lparr>e_last_used := Suc (clock s)\<rparr>" using t by (simp add: touch_def tick_def Let_def)
  have s': "s' = s\<lparr>clock := Suc (clock s), entries := xs @ e' # ys\<rparr>"
    using t update_entry_split [OF D, of e'] by (auto simp: touch_def tick_def Let_def es)
  show F: "entries s' = xs @ e' # ys" "tiers s' = tiers s" "clock s' = Suc (clock s)" "used s' = used s"
    "index s' = index s" "evictions_dropped s' = evictions_dropped s" by (simp_all add: s')
  have old: "e_last_used f \<le> clock s" if "f \<in> set (entries s)" for f
    using w that by (auto simp: wf_def wf_entry_def list_all_iff)
  then show lt: "\<And>f. f \<in> set xs \<union> set ys \<Longrightarrow> e_last_used f < e_last_used e'"
    using es by (force simp: e')
  have "Suc (clock s) \<notin> e_last_used ` (set xs \<union> set ys)" using old es by force
  then have "distinct (map e_last_used (xs @ e' # ys))" using w es by (auto simp: e' wf_def)
  moreover have "list_all (wf_entry (tier_names s) (Suc (clock s))) (xs @ e' # ys)"
    using w es by (auto simp: e' wf_def wf_entry_def list_all_iff intro: le_SucI)
  moreover have "tier_bytes n (xs @ e' # ys) = tier_bytes n (entries s)" "ids (xs @ e' # ys) = ids (entries s)"
    "map e_handle (xs @ e' # ys) = map e_handle (entries s)" for n by (simp_all add: es e')
  ultimately show "wf s'" using w unfolding wf_def tier_names_def F by (simp add: s')
qed

text \<open>An entry with the newest stamp ends in the top tier, and the rest shrinks by LRU.\<close>

lemma ranked_newest_top:
  assumes "wf s" "ranked_es (tier_names s) (set xs \<union> set ys)" "entries s = xs @ e # ys"
    "e_tier e = ts_name (hd (tiers s))" "\<And>f. f \<in> set xs \<union> set ys \<Longrightarrow> e_last_used f < e_last_used e"
  shows "ranked s"
proof -
  have "e_tier e = tier_names s ! 0" using assms(1,4) by (cases "tiers s") (auto simp: tier_names_def wf_def)
  with ranked_es_top [OF assms(2) _ this assms(5)] assms(1,3) show ?thesis
    by (simp add: ranked_def wf_def Un_insert_right)
qed

lemma promote_ok:
  assumes w: "wf s" and r: "ranked_es (tier_names s) (set xs \<union> set ys)" and es: "entries s = xs @ e # ys"
    and new: "\<And>f. f \<in> set xs \<union> set ys \<Longrightarrow> e_last_used f < e_last_used e"
    and c: "caps_ok s" and f: "fits s"
  shows "\<exists>s'. promote e s = Some s' \<and> store_inv s' \<and> shrinks s s'"
proof (cases "e_tier e = ts_name (hd (tiers s))")
  case True
  with ranked_newest_top [OF w r es True new] w c f show ?thesis
    by (auto simp: promote_def store_inv_def)
next
  case False
  define top where "top = ts_name (hd (tiers s))"
  have "top \<in> set (tier_names s)" using w by (auto simp: top_def tier_names_def wf_def)
  note M = move_wf [OF w es this]
  define s1 where "s1 = (move e top s)\<lparr>promotions := Suc (promotions s)\<rparr>"
  have s1: "wf s1" "entries s1 = xs @ e\<lparr>e_tier := top\<rparr> # ys" "tiers s1 = tiers s" "tier_names s1 = tier_names s"
    "caps_ok s1" using M c by (simp_all add: s1_def tier_names_def caps_ok_def)
  have "ranked s1"
    by (rule ranked_newest_top [OF s1(1) _ s1(2)]) (use r new s1(3,4) in \<open>auto simp: top_def\<close>)
  with enforce_capacity_ok [OF s1(1) _ s1(5)] obtain s' where
    s': "enforce_capacity s1 = Some s'" "wf s'" "ranked s'" "fits s'" "shrinks s1 s'" by blast
  have "shrinks s s1" using s1(2,3) es by (auto simp: shrinks_def s1_def)
  then have "shrinks s s'" using s'(5) by (rule shrinks_trans)
  moreover have "promote e s = Some s'"
    using False s'(1) by (simp add: promote_def top_def s1_def Let_def)
  ultimately show ?thesis using s' shrinks_tiers [OF \<open>shrinks s s'\<close>] c
    by (auto simp: store_inv_def caps_ok_def)
qed


lemma store_invD: "store_inv s \<Longrightarrow> wf s" "store_inv s \<Longrightarrow> ranked s" "store_inv s \<Longrightarrow> fits s" "store_inv s \<Longrightarrow> caps_ok s"
  by (simp_all add: store_inv_def)

lemma new_store_inv:
  assumes "new_store ts = Inr s" "distinct (tier_names s)" "caps_ok s"
  shows "store_inv s" "contents s = Map.empty"
proof -
  have s: "entries s = []" "index s = []" "used s = (\<lambda>_. 0)" "peak s = (\<lambda>_. 0)" "tiers s \<noteq> []"
    using assms(1) by (auto simp: new_store_def Let_def split: if_splits option.splits list.splits)
  show "store_inv s" using s assms by (auto simp: store_inv_def wf_def ranked_def ranked_es_def fits_def caps_ok_def list_all_iff)
  show "contents s = Map.empty" by (simp add: fun_eq_iff contents_def s)
qed

lemma index_contents:
  assumes "wf s"
  shows "map_of (index s) p = (if contents s p = None then None else Some (handle_of (fst p) (snd p)))"
  using wf_index [OF assms, of p] contents_None [of s p] by auto

lemma resident_entry:
  assumes w: "wf s" and c: "contents s (tn, k) = Some c"
  obtains xs e ys where "entries s = xs @ e # ys" "e_tenant e = tn" "e_key e = k" "e_cache e = c"
    "e_handle e = handle_of tn k" "lookup_entry s (handle_of tn k) = Some e"
proof -
  from c contents_Some [OF w] obtain e where e: "e \<in> set (entries s)" "e_tenant e = tn" "e_key e = k" "e_cache e = c"
    by auto
  then obtain xs ys where es: "entries s = xs @ e # ys" by (auto simp: in_set_conv_decomp)
  have "e_handle e = handle_of tn k" using w e by (auto simp: wf_def wf_entry_def list_all_iff)
  moreover have "distinct (map e_handle (xs @ e # ys))" using w es by (simp add: wf_def)
  ultimately show ?thesis using that [OF es] e lookup_entry_split [of xs e ys s] es by simp
qed

text \<open>Touch and promote a resident entry, the common part of \<^const>\<open>get\<close> and a repeated \<^const>\<open>put\<close>.\<close>

lemma touch_promote_ok:
  assumes w: "wf s" and r: "ranked s" and f: "fits s" and c: "caps_ok s" and es: "entries s = xs @ e # ys"
    and t: "touch e s = (e', s1)"
  shows "\<exists>s'. promote e' s1 = Some s' \<and> store_inv s' \<and> contents s' \<subseteq>\<^sub>m contents s
    \<and> length (entries s') + evictions_dropped s' = length (entries s) + evictions_dropped s
    \<and> (\<forall>d \<in> set (entries s). d \<noteq> e \<longrightarrow> core d \<notin> core ` set (entries s') \<longrightarrow>
          (\<forall>g \<in> set (entries s'). e_last_used d < e_last_used g))"
proof -
  note T = touch_ok [OF w es t]
  have "ranked_es (tier_names s1) (set xs \<union> set ys)"
    using r by (auto simp: ranked_def es T tier_names_def intro: ranked_es_mono)
  moreover have "caps_ok s1" "fits s1" using c f by (auto simp: caps_ok_def fits_def T)
  ultimately obtain s' where s': "promote e' s1 = Some s'" "store_inv s'" "shrinks s1 s'"
    using promote_ok [OF T(3) _ T(2) T(9)] by blast
  have cs: "contents s1 = contents s"
  proof
    fix p
    show "contents s1 p = contents s p"
    proof (cases "contents s p")
      case None
      then show ?thesis using contents_None [of s1 p] contents_None [of s p] by (simp add: T es)
    next
      case (Some c)
      with contents_Some [OF w] have "contents s1 p = Some c"
        using contents_Some [OF T(3)] by (auto simp: T es)
      with Some show ?thesis by simp
    qed
  qed
  moreover have "length (entries s') + evictions_dropped s' = length (entries s) + evictions_dropped s"
    using s'(3) T by (simp add: shrinks_def es)
  moreover have "\<forall>d \<in> set (entries s). d \<noteq> e \<longrightarrow> core d \<notin> core ` set (entries s') \<longrightarrow>
          (\<forall>g \<in> set (entries s'). e_last_used d < e_last_used g)"
    using s'(3) T(2) es by (auto simp: shrinks_def)
  ultimately show ?thesis using s' shrinks_contents [OF T(3) _ s'(3)] by (auto simp: store_inv_def)
qed

lemma put_resident:
  assumes i: "store_inv s" and c: "contents s (tn, k) = Some c0"
  shows "\<exists>s'. put tn k c n s = Some (Inr (handle_of tn k, s')) \<and> store_inv s' \<and> contents s' \<subseteq>\<^sub>m contents s
    \<and> length (entries s') + evictions_dropped s' = length (entries s) + evictions_dropped s"
proof -
  note I = store_invD [OF i]
  obtain xs e ys where e: "entries s = xs @ e # ys" "lookup_entry s (handle_of tn k) = Some e"
    using resident_entry [OF I(1) c] by metis
  obtain e' s1 where t: "touch e s = (e', s1)" by fastforce
  from touch_promote_ok [OF I e(1) t] show ?thesis
    using index_contents [OF I(1), of "(tn, k)"] c e(2) t by (auto simp: put_def)
qed

lemma insert_ok:
  assumes w: "wf s" and r: "ranked s" and c: "caps_ok s" and tn: "CHR '':'' \<notin> set tn"
    and new: "(tn, k) \<notin> set (ids (entries s))"
    and e: "e = \<lparr>e_handle = handle_of tn k, e_key = k, e_tenant = tn, e_cache = x, e_nbytes = n,
                e_tier = ts_name (hd (tiers s)), e_last_used = Suc (clock s)\<rparr>"
    and s1: "s1 = record_peak (e_tier e) (s\<lparr>clock := Suc (clock s), entries := entries s @ [e],
        index := AList.update (tn, k) (handle_of tn k) (index s),
        used := (used s)(e_tier e := used s (e_tier e) + int n)\<rparr>)"
  shows "wf s1" "ranked s1" "e_handle e \<notin> e_handle ` set (entries s)"
proof -
  have top: "e_tier e \<in> set (tier_names s)" using w by (cases "tiers s") (auto simp: wf_def tier_names_def e)
  have "handle_of tn k \<noteq> e_handle f" if "f \<in> set (entries s)" for f
  proof -
    have "wf_entry (tier_names s) (clock s) f" using w that by (simp add: wf_def list_all_iff)
    moreover have "(e_tenant f, e_key f) \<noteq> (tn, k)" using new that by (force simp: ids_def)
    ultimately show ?thesis using handle_inj [OF tn, of "e_tenant f" k "e_key f"] by (auto simp: wf_entry_def)
  qed
  then show H: "e_handle e \<notin> e_handle ` set (entries s)" by (force simp: e)
  have old: "e_last_used f \<le> clock s" if "f \<in> set (entries s)" for f
    using w that by (auto simp: wf_def wf_entry_def list_all_iff)
  have A: "distinct (map e_handle (entries s @ [e]))" using w H by (simp add: wf_def)
  have B: "distinct (map e_last_used (entries s @ [e]))" using w old by (force simp: wf_def e)
  have C: "list_all (wf_entry (tier_names s) (Suc (clock s))) (entries s @ [e])"
    using w top tn by (auto simp: wf_def wf_entry_def list_all_iff e intro: le_SucI)
  have D: "map_of (AList.update (tn, k) (handle_of tn k) (index s)) p =
      (if p \<in> set (ids (entries s @ [e])) then Some (handle_of (fst p) (snd p)) else None)" for p
    using wf_index [OF w, of p] by (auto simp: e)
  have U: "(((used s)(e_tier e := used s (e_tier e) + int n)) m) = int (tier_bytes m (entries s @ [e]))" for m
    using wf_used [OF w, of m] by (auto simp: e)
  have P: "int (tier_bytes m (entries s @ [e])) \<le> peak s1 m" for m
    using wf_peak_bytes [OF w, of m] wf_used [OF w, of m] by (auto simp: s1 peak_record_peak e)
  have N: "tiers s1 = tiers s" "tier_names s1 = tier_names s" by (simp_all add: s1 tier_names_def)
  have W: "tiers s \<noteq> []" "distinct (tier_names s)" "dict_ok (index s)" using w unfolding wf_def by blast+
  show "wf s1" unfolding wf_def N using W A B C D U P by (simp add: s1 del: ids_simps tier_bytes_simps map_append list_all_append)
  have "e_last_used f < e_last_used e" if "f \<in> set (entries s) \<union> set []" for f using old [of f] that by (simp add: e)
  from ranked_newest_top [OF \<open>wf s1\<close>, of "entries s" "[]" e, OF _ _ _ this] r
  show "ranked s1" by (simp add: N ranked_def) (simp add: s1 e)
qed


lemma put_entry_new: "e_handle e \<notin> e_handle ` set es \<Longrightarrow> put_entry e es = es @ [e]"
  by (simp add: put_entry_def)

lemma enforce_counter_irrelevant: "shrinks (s\<lparr>modeled_access_seconds := x\<rparr>) s' = shrinks s s'"
  by (simp add: shrinks_def)

lemma put_new:
  assumes i: "store_inv s" and tn: "CHR '':'' \<notin> set tn" and c: "contents s (tn, k) = None"
  shows "\<exists>s'. put tn k x n s = Some (Inr (handle_of tn k, s')) \<and> store_inv s'
    \<and> contents s' \<subseteq>\<^sub>m (contents s)((tn, k) \<mapsto> x)
    \<and> length (entries s') + evictions_dropped s' = Suc (length (entries s) + evictions_dropped s)
    \<and> (\<forall>d \<in> set (entries s). core d \<notin> core ` set (entries s') \<longrightarrow>
          (\<forall>g \<in> set (entries s'). e_last_used d < e_last_used g))"
proof -
  note I = store_invD [OF i]
  define e where "e = \<lparr>e_handle = handle_of tn k, e_key = k, e_tenant = tn, e_cache = x, e_nbytes = n,
      e_tier = ts_name (hd (tiers s)), e_last_used = Suc (clock s)\<rparr>"
  define s1 where "s1 = record_peak (e_tier e) (s\<lparr>clock := Suc (clock s), entries := entries s @ [e],
        index := AList.update (tn, k) (handle_of tn k) (index s),
        used := (used s)(e_tier e := used s (e_tier e) + int n)\<rparr>)"
  have new: "(tn, k) \<notin> set (ids (entries s))" using c contents_None by metis
  note J = insert_ok [OF I(1,2,4) tn new e_def s1_def]
  define s2 where "s2 = s1\<lparr>modeled_access_seconds := modeled_access_seconds s1 + access_seconds (hd (tiers s1)) n\<rparr>"
  have F: "entries s1 = entries s @ [e]" "tiers s1 = tiers s" "evictions_dropped s1 = evictions_dropped s"
    by (simp_all add: s1_def)
  have "wf s2" "ranked s2" "caps_ok s2" using J I(4) by (simp_all add: s2_def caps_ok_def F)
  from enforce_capacity_ok [OF this] obtain s' where
    s': "enforce_capacity s2 = Some s'" "wf s'" "ranked s'" "fits s'" "shrinks s2 s'" by blast
  have sh: "shrinks s1 s'" using s'(5) by (simp add: s2_def enforce_counter_irrelevant)
  have "put tn k x n s = Some (Inr (handle_of tn k, s'))"
    using index_contents [OF I(1), of "(tn, k)"] c s'(1) J(3)
    by (simp add: put_def Let_def tick_def put_entry_new s2_def s1_def e_def)
  moreover have "caps_ok s'" using I(4) shrinks_tiers [OF sh] F by (simp add: caps_ok_def)
  moreover have "contents s1 \<subseteq>\<^sub>m (contents s)((tn, k) \<mapsto> x)"
    unfolding map_le_def
  proof
    fix p assume "p \<in> dom (contents s1)"
    then obtain y where y1: "contents s1 p = Some y" by auto
    then obtain f where "f \<in> set (entries s @ [e])" "(e_tenant f, e_key f) = p" "e_cache f = y"
      using contents_Some [OF J(1), of p y] by (auto simp: F)
    note y = y1 this
    show "contents s1 p = ((contents s)((tn, k) \<mapsto> x)) p"
    proof (cases "f = e")
      case True then show ?thesis using y by (auto simp: e_def)
    next
      case False
      then have "contents s p = Some y" using y contents_Some [OF I(1)] by auto
      with y c show ?thesis by auto
    qed
  qed
  ultimately show ?thesis using s' sh shrinks_contents [OF J(1) s'(2) sh]
    by (auto simp: store_inv_def shrinks_def F intro: map_le_trans)
qed

lemma evict_ok:
  assumes i: "store_inv s"
  shows "store_inv (evict h s)" "contents (evict h s) \<subseteq>\<^sub>m contents s" "lookup_entry (evict h s) h = None"
proof -
  note I = store_invD [OF i]
  have "store_inv (evict h s) \<and> contents (evict h s) \<subseteq>\<^sub>m contents s \<and> lookup_entry (evict h s) h = None"
  proof (cases "lookup_entry s h")
    case None then show ?thesis using i by (simp add: evict_def)
  next
    case (Some e)
    then obtain xs ys where es: "entries s = xs @ e # ys" and h: "e_handle e = h" by (rule lookup_entry_Some)
    note E = evict_wf [OF I(1) es, unfolded h]
    have "ranked (evict h s)" using I(2) E es by (auto simp: ranked_def tier_names_def intro: ranked_es_mono)
    moreover have "fits (evict h s)" using I(3) E by (auto simp: fits_def list_all_iff intro: order_trans)
    moreover have "caps_ok (evict h s)" using I(4) E by (simp add: caps_ok_def)
    moreover have "contents (evict h s) \<subseteq>\<^sub>m contents s"
      unfolding map_le_def
    proof
      fix p assume "p \<in> dom (contents (evict h s))"
      then obtain c where c: "contents (evict h s) p = Some c" by auto
      then have "contents s p = Some c" using contents_Some [OF E(1)] contents_Some [OF I(1)] E(2) es by auto
      with c show "contents (evict h s) p = contents s p" by simp
    qed
    moreover have "h \<notin> e_handle ` set (xs @ ys)" using I(1) es h by (auto simp: wf_def)
    then have "lookup_entry (evict h s) h = None" using E(2) by (auto simp: lookup_entry_def find_None_iff)
    ultimately show ?thesis using E(1) by (simp add: store_inv_def)
  qed
  then show "store_inv (evict h s)" "contents (evict h s) \<subseteq>\<^sub>m contents s" "lookup_entry (evict h s) h = None" by auto
qed

lemma inv_counters [simp]:
  "store_inv (s\<lparr>gets := x1\<rparr>) = store_inv s" "store_inv (s\<lparr>get_misses := x1\<rparr>) = store_inv s"
  "store_inv (s\<lparr>get_hits := x1\<rparr>) = store_inv s" "store_inv (s\<lparr>modeled_access_seconds := x2\<rparr>) = store_inv s"
  "store_inv (s\<lparr>reuse_lookups := x1\<rparr>) = store_inv s" "store_inv (s\<lparr>reuse_hits := x1\<rparr>) = store_inv s"
  by (simp_all add: store_inv_def fits_def caps_ok_def)

lemma contents_counters [simp]:
  "contents (s\<lparr>gets := x1\<rparr>) = contents s" "contents (s\<lparr>get_misses := x1\<rparr>) = contents s"
  "contents (s\<lparr>get_hits := x1\<rparr>) = contents s" "contents (s\<lparr>modeled_access_seconds := x2\<rparr>) = contents s"
  "contents (s\<lparr>reuse_lookups := x1\<rparr>) = contents s" "contents (s\<lparr>reuse_hits := x1\<rparr>) = contents s"
  by (simp_all add: fun_eq_iff contents_def)

lemma tier_named_ok:
  assumes w: "wf s" and t: "n \<in> set (tier_names s)"
  shows "\<exists>t. tier_named s n = Some t \<and> t \<in> set (tiers s) \<and> ts_name t = n"
proof -
  have "List.find (\<lambda>t. ts_name t = n) (rev (tiers s)) \<noteq> None"
    using t by (auto simp: find_None_iff tier_names_def)
  then show ?thesis by (auto simp: tier_named_def find_Some_iff) (metis nth_mem length_rev set_rev)
qed

lemma get_resident:
  assumes i: "store_inv s" and e: "lookup_entry s h = Some e"
  shows "\<exists>s'. get h s = Some (Inr (Some (e_cache e), s')) \<and> store_inv s' \<and> contents s' \<subseteq>\<^sub>m contents s
    \<and> length (entries s') + evictions_dropped s' = length (entries s) + evictions_dropped s"
proof -
  note I = store_invD [OF i]
  obtain xs ys where es: "entries s = xs @ e # ys" using lookup_entry_Some [OF e] by metis
  have "wf_entry (tier_names s) (clock s) e" using I(1) es by (simp add: wf_def)
  then obtain t where t: "tier_named s (e_tier e) = Some t"
    using tier_named_ok [OF I(1)] by (auto simp: wf_entry_def)
  define s1 where "s1 = s\<lparr>gets := Suc (gets s), get_hits := Suc (get_hits s),
      modeled_access_seconds := modeled_access_seconds s + access_seconds t (e_nbytes e)\<rparr>"
  have s1: "store_inv s1" "entries s1 = xs @ e # ys" "contents s1 = contents s" "evictions_dropped s1 = evictions_dropped s"
    using i es by (simp_all add: s1_def)
  obtain e' s2 where tc: "touch e s1 = (e', s2)" by fastforce
  note J = store_invD [OF s1(1)]
  from touch_promote_ok [OF J s1(2) tc] obtain s' where
    s': "promote e' s2 = Some s'" "store_inv s'" "contents s' \<subseteq>\<^sub>m contents s1"
    "length (entries s') + evictions_dropped s' = length (entries s1) + evictions_dropped s1" by blast
  have L: "lookup_entry (s\<lparr>gets := Suc (gets s)\<rparr>) h = Some e" "tier_named (s\<lparr>gets := Suc (gets s)\<rparr>) (e_tier e) = Some t"
    using e t by (simp_all add: lookup_entry_def tier_named_def)
  have "get h s = Some (Inr (Some (e_cache e), s'))"
    using L tc s'(1) by (simp add: get_def Let_def s1_def)
  with s' s1 es show ?thesis by simp
qed

lemma get_unknown:
  "lookup_entry s h = None \<Longrightarrow>
    get h s = Some (Inr (None, s\<lparr>gets := Suc (gets s), get_misses := Suc (get_misses s)\<rparr>))"
  by (simp add: get_def Let_def lookup_entry_def)

section \<open>The protocol is implemented\<close>

lemma has_ok:
  assumes "store_inv s"
  shows "store_inv (snd (has tn k s))" "contents (snd (has tn k s)) = contents s"
    "fst (has tn k s) = (if contents s (tn, k) = None then None else Some (handle_of tn k))"
    "lookup_entry (snd (has tn k s)) h = lookup_entry s h"
  using assms index_contents [OF store_invD(1) [OF assms], of "(tn, k)"]
  by (auto simp: has_def Let_def lookup_entry_def)

interpretation tcs: cache_store put get has store_inv contents "\<lambda>tn. CHR '':'' \<notin> set tn"
proof unfold_locales
  fix s :: "'a store" and tn k x n
  assume i: "store_inv s" and tn: "CHR '':'' \<notin> set tn"
  show "\<exists>h s'. put tn k x n s = Some (Inr (h, s')) \<and> store_inv s' \<and> contents s' \<subseteq>\<^sub>m
      (contents s)((tn, k) \<mapsto> (case contents s (tn, k) of None \<Rightarrow> x | Some c0 \<Rightarrow> c0))"
  proof (cases "contents s (tn, k)")
    case None then show ?thesis using put_new [OF i tn None, of x n] by auto
  next
    case (Some c0)
    then have "(contents s)((tn, k) \<mapsto> c0) = contents s" by auto
    with put_resident [OF i Some, of x n] Some show ?thesis by auto
  qed
next
  fix s :: "'a store" and tn k
  assume i: "store_inv s"
  show "store_inv (snd (has tn k s)) \<and> contents (snd (has tn k s)) = contents s \<and>
      (fst (has tn k s) \<noteq> None \<longleftrightarrow> contents s (tn, k) \<noteq> None)"
    using has_ok [OF i, of tn k] by simp
next
  fix s :: "'a store" and tn k h
  assume i: "store_inv s" and h: "fst (has tn k s) = Some h"
  note H = has_ok [OF i, of tn k]
  from h H(3) obtain c where c: "contents s (tn, k) = Some c" "h = handle_of tn k" by (auto split: if_splits)
  obtain xs e ys where e: "e_cache e = c" "lookup_entry s h = Some e"
    using resident_entry [OF store_invD(1) [OF i] c(1)] c(2) by metis
  with get_resident [OF H(1), of h e] H c
  show "\<exists>s'. get h (snd (has tn k s)) = Some (Inr (contents s (tn, k), s')) \<and> store_inv s' \<and>
      contents s' \<subseteq>\<^sub>m contents s"
    by auto
qed

text \<open>The drop counter decides whether anything was lost: a well-formed store holds one entry per
  key, so the bound on the contents and the count of entries leave no room.\<close>

lemma contents_card: "wf s \<Longrightarrow> card (dom (contents s)) = length (entries s) \<and> finite (dom (contents s))"
proof -
  assume w: "wf s"
  have "dom (contents s) = set (ids (entries s))" using contents_None [of s] by (auto simp: dom_def)
  then show ?thesis using distinct_card [OF wf_ids_distinct [OF w]] by (simp add: ids_def)
qed

lemma map_le_card_eq:
  assumes le: "f \<subseteq>\<^sub>m g" and fin: "finite (dom g)" and c: "card (dom f) = card (dom g)"
  shows "f = g"
proof -
  have "dom f = dom g" using card_subset_eq [OF fin map_le_implies_dom_le [OF le] c] .
  then show ?thesis using le map_le_antisym by (metis map_le_def)
qed

lemma count_keeps:
  assumes w: "wf s" "wf s'" and le: "contents s' \<subseteq>\<^sub>m g" and g: "finite (dom g)" "card (dom g) = n"
    and c: "length (entries s') + evictions_dropped s' = n + evictions_dropped s"
  shows "evictions_dropped s \<le> evictions_dropped s' \<and> (evictions_dropped s' = evictions_dropped s \<longrightarrow> contents s' = g)"
proof -
  have "card (dom (contents s')) \<le> n" using card_mono [OF g(1) map_le_implies_dom_le [OF le]] g(2) by simp
  then have "length (entries s') \<le> n" using contents_card [OF w(2)] by simp
  moreover have "evictions_dropped s' = evictions_dropped s \<Longrightarrow> contents s' = g"
    using map_le_card_eq [OF le g(1)] contents_card [OF w(2)] g(2) c by simp
  ultimately show ?thesis using c by simp
qed

interpretation tcc: counted_store put get has store_inv contents "\<lambda>tn. CHR '':'' \<notin> set tn" evictions_dropped
proof unfold_locales
  fix s s' :: "'a store" and tn k c and n :: nat and h
  assume i: "store_inv s" and tn: "CHR '':'' \<notin> set tn" and p: "put tn k c n s = Some (Inr (h, s'))"
  note K = contents_card [OF store_invD(1) [OF i]]
  show "evictions_dropped s \<le> evictions_dropped s' \<and> (evictions_dropped s' = evictions_dropped s \<longrightarrow>
    contents s' = (contents s)((tn, k) \<mapsto> (case contents s (tn, k) of None \<Rightarrow> c | Some c0 \<Rightarrow> c0)))"
  proof (cases "contents s (tn, k)")
    case None
    have d: "finite (dom ((contents s)((tn, k) \<mapsto> c)))" "card (dom ((contents s)((tn, k) \<mapsto> c))) = Suc (length (entries s))"
      using K None by (simp_all add: domIff)
    from put_new [OF i tn None, of c n] p
    have N: "store_inv s'" "contents s' \<subseteq>\<^sub>m (contents s)((tn, k) \<mapsto> c)"
      "length (entries s') + evictions_dropped s' = Suc (length (entries s)) + evictions_dropped s" by auto
    then show ?thesis
      using count_keeps [OF store_invD(1) [OF i] store_invD(1) [OF N(1)] N(2) d N(3)] None by simp
  next
    case (Some c0)
    from put_resident [OF i Some, of c n] p
    have N: "store_inv s'" "contents s' \<subseteq>\<^sub>m contents s"
      "length (entries s') + evictions_dropped s' = length (entries s) + evictions_dropped s" by auto
    have "(contents s)((tn, k) \<mapsto> c0) = contents s" using Some by auto
    then show ?thesis
      using count_keeps [OF store_invD(1) [OF i] store_invD(1) [OF N(1)] N(2) _ _ N(3)] K Some by simp
  qed
next
  fix s s' :: "'a store" and tn k h r
  assume i: "store_inv s" and h: "fst (has tn k s) = Some h" and g: "get h (snd (has tn k s)) = Some (Inr (r, s'))"
  note H = has_ok [OF i, of tn k] and K = contents_card [OF store_invD(1) [OF i]]
  from h H(3) obtain c where c: "contents s (tn, k) = Some c" "h = handle_of tn k" by (auto split: if_splits)
  obtain e where e: "lookup_entry s h = Some e"
    using resident_entry [OF store_invD(1) [OF i] c(1)] c(2) by metis
  have n: "entries (snd (has tn k s)) = entries s" "evictions_dropped (snd (has tn k s)) = evictions_dropped s"
    by (simp_all add: has_def Let_def)
  from get_resident [OF H(1), of h e] H(2,4) e g n
  have N: "store_inv s'" "contents s' \<subseteq>\<^sub>m contents s"
    "length (entries s') + evictions_dropped s' = length (entries s) + evictions_dropped s" by auto
  show "evictions_dropped s \<le> evictions_dropped s' \<and> (evictions_dropped s' = evictions_dropped s \<longrightarrow> contents s' = contents s)"
    using count_keeps [OF store_invD(1) [OF i] store_invD(1) [OF N(1)] N(2) _ _ N(3)] K by simp
next
  fix s :: "'a store" and tn k
  show "evictions_dropped (snd (has tn k s)) = evictions_dropped s" by (simp add: has_def Let_def)
qed

section \<open>Evaluation\<close>

text \<open>Unfolds the operations on a closed store.\<close>

lemmas store_eval = new_store_def put_def get_def has_def evict_def touch_def promote_def Let_def tick_def
  lookup_entry_def enforce_capacity_def drain.simps lru_in_def spill_def move_def record_peak_def
  handle_of_def put_entry_def update_entry_def tier_named_def access_seconds_def

section \<open>Properties\<close>

text \<open>A client's run: any sequence of operations, stopped by the first exception.\<close>

datatype 'c cmd = Put string string 'c nat | Get string | Has string string | Evict string

fun run_cmd :: "'c cmd \<Rightarrow> 'c store \<Rightarrow> 'c store result option" where
  "run_cmd (Put tn k c n) s = map_option (map_sum id snd) (put tn k c n s)"
| "run_cmd (Get h) s = map_option (map_sum id snd) (get h s)"
| "run_cmd (Has tn k) s = Some (Inr (snd (has tn k s)))"
| "run_cmd (Evict h) s = Some (Inr (evict h s))"

fun run_cmds :: "'c cmd list \<Rightarrow> 'c store \<Rightarrow> 'c store result option" where
  "run_cmds [] s = Some (Inr s)"
| "run_cmds (c # cs) s =
     (case run_cmd c s of None \<Rightarrow> None | Some (Inl e) \<Rightarrow> Some (Inl e) | Some (Inr s') \<Rightarrow> run_cmds cs s')"

fun cmd_tenant_ok :: "'c cmd \<Rightarrow> bool" where
  "cmd_tenant_ok (Put tn k c n) = (CHR '':'' \<notin> set tn)"
| "cmd_tenant_ok _ = True"

lemma run_cmd_ok:
  assumes i: "store_inv s" and c: "cmd_tenant_ok c"
  shows "\<exists>s'. run_cmd c s = Some (Inr s') \<and> store_inv s'"
proof (cases c)
  case (Put tn k x n)
  then show ?thesis using tcs.put_law [OF i, of tn k x n] c by auto
next
  case (Get h)
  show ?thesis
  proof (cases "lookup_entry s h")
    case None then show ?thesis using Get i by (simp add: get_unknown)
  next
    case (Some e) then show ?thesis using get_resident [OF i Some] Get by auto
  qed
next
  case (Has tn k) then show ?thesis using has_ok [OF i] by simp
next
  case (Evict h) then show ?thesis using evict_ok [OF i] by simp
qed

lemma run_cmds_ok:
  "store_inv s \<Longrightarrow> list_all cmd_tenant_ok cs \<Longrightarrow> \<exists>s'. run_cmds cs s = Some (Inr s') \<and> store_inv s'"
proof (induction cs arbitrary: s)
  case (Cons c cs)
  from run_cmd_ok [of s c] Cons.prems obtain s1 where "run_cmd c s = Some (Inr s1)" "store_inv s1" by auto
  with Cons.IH [of s1] Cons.prems show ?case by auto
qed simp

definition demo_tiers :: "tier_spec list" where
  "demo_tiers = [\<lparr>ts_name = ''gpu'', capacity_bytes = 10, read_bandwidth = 100, fixed_latency = 0\<rparr>,
                 \<lparr>ts_name = ''cpu'', capacity_bytes = 15, read_bandwidth = 10, fixed_latency = 1\<rparr>]"

text \<open>C5. Every run of store operations by tenants without a colon returns (the eviction cascade
  always terminates), raises nothing, and leaves the byte counter of every tier equal to the bytes
  of the entries in it, at or below the recorded peak and within the tier's capacity.\<close>

theorem store_run_bounded:
  assumes "new_store ts = Inr s" "distinct (tier_names s)" "caps_ok s" "list_all cmd_tenant_ok cs"
  shows "\<exists>s'. run_cmds cs s = Some (Inr s')
    \<and> (\<forall>n. used s' n = int (tier_bytes n (entries s')) \<and> used s' n \<le> peak s' n) \<and> fits s'"
  using run_cmds_ok [OF new_store_inv(1) [OF assms(1-3)] assms(4)]
  by (auto simp: store_inv_def wf_used wf_peak_bytes)

definition demo_store :: "nat store" where
  "demo_store = (case new_store (Some demo_tiers) of Inr s \<Rightarrow> s)"

definition demo_cmds :: "nat cmd list" where
  "demo_cmds = [Put ''t'' ''a'' 1 8, Put ''t'' ''b'' 2 8, Put ''t'' ''c'' 3 8, Get ''t::b'']"

lemma demo_store_new: "new_store (Some demo_tiers) = Inr demo_store"
  by (simp add: demo_store_def new_store_def demo_tiers_def)

lemma demo_store_ok: "distinct (tier_names demo_store)" "caps_ok demo_store"
  by (simp_all add: demo_store_def new_store_def demo_tiers_def tier_names_def caps_ok_def)

theorem store_run_bounded_witness:
  "\<exists>s'. run_cmds demo_cmds demo_store = Some (Inr s')
    \<and> (\<forall>n. used s' n = int (tier_bytes n (entries s')) \<and> used s' n \<le> peak s' n) \<and> fits s'"
  by (rule store_run_bounded [OF demo_store_new demo_store_ok]) (simp add: demo_cmds_def)


lemma demo_store_inv: "store_inv demo_store" "contents demo_store = Map.empty"
  using new_store_inv [OF demo_store_new demo_store_ok] by auto


text \<open>The hierarchy is globally LRU: whatever a put drops off the bottom tier was last used
  before every entry that stays, in whatever tier.\<close>

theorem put_drops_least_recent:
  assumes "store_inv s" "CHR '':'' \<notin> set tn" "contents s (tn, k) = None"
    and "put tn k x n s = Some (Inr (h, s'))"
    and "d \<in> set (entries s)" "core d \<notin> core ` set (entries s')" "g \<in> set (entries s')"
  shows "e_last_used d < e_last_used g"
  using put_new [OF assms(1-3), of x n] assms(4-7) by auto

definition demo_full :: "nat store" where
  "demo_full = (case run_cmds [Put ''t'' ''a'' 1 8, Put ''t'' ''b'' 2 8] demo_store of Some (Inr s) \<Rightarrow> s)"

lemma demo_store_eq:
  "demo_store = \<lparr>tiers = demo_tiers, entries = [], index = [], clock = 0, used = (\<lambda>_. 0), peak = (\<lambda>_. 0),
     reuse_lookups = 0, reuse_hits = 0, gets = 0, get_hits = 0, get_misses = 0,
     demotions = 0, promotions = 0, evictions_dropped = 0, modeled_access_seconds = 0\<rparr>"
  by (simp add: demo_store_def new_store_def demo_tiers_def)

lemma demo_full_run:
  "run_cmds [Put ''t'' ''a'' 1 8, Put ''t'' ''b'' 2 8] demo_store = Some (Inr demo_full)"
proof -
  obtain s where "run_cmds [Put ''t'' ''a'' 1 8, Put ''t'' ''b'' 2 8] demo_store = Some (Inr s)"
    using run_cmds_ok [OF demo_store_inv(1), of "[Put ''t'' ''a'' 1 8, Put ''t'' ''b'' 2 8]"] by auto
  then show ?thesis by (simp add: demo_full_def)
qed

lemma demo_full_inv: "store_inv demo_full"
  using run_cmds_ok [OF demo_store_inv(1), of "[Put ''t'' ''a'' 1 8, Put ''t'' ''b'' 2 8]"] demo_full_run by simp

definition demo_a :: "nat entry" where
  "demo_a = \<lparr>e_handle = ''t::a'', e_key = ''a'', e_tenant = ''t'', e_cache = 1, e_nbytes = 8, e_tier = ''cpu'', e_last_used = 1\<rparr>"

definition demo_b :: "string \<Rightarrow> nat entry" where
  "demo_b t = \<lparr>e_handle = ''t::b'', e_key = ''b'', e_tenant = ''t'', e_cache = 2, e_nbytes = 8, e_tier = t, e_last_used = 2\<rparr>"

lemma demo_full_entries: "entries demo_full = [demo_a, demo_b ''gpu'']"
  by (simp add: demo_full_def demo_store_eq demo_tiers_def store_eval demo_a_def demo_b_def)

theorem put_drops_least_recent_witness:
  "\<exists>s'. put ''t'' ''c'' 3 8 demo_full = Some (Inr (''t::c'', s')) \<and> demo_b ''cpu'' \<in> set (entries s')
    \<and> core demo_a \<notin> core ` set (entries s') \<and> e_last_used demo_a < e_last_used (demo_b ''cpu'')"
proof -
  have c: "contents demo_full (''t'', ''c'') = None"
    by (simp add: contents_def demo_full_entries demo_a_def demo_b_def)
  obtain s' where s': "put ''t'' ''c'' 3 8 demo_full = Some (Inr (''t::c'', s'))"
    using put_new [OF demo_full_inv _ c, of 3 8] by (auto simp: handle_of_def)
  then have "entries s' = [demo_b ''cpu'', \<lparr>e_handle = ''t::c'', e_key = ''c'', e_tenant = ''t'', e_cache = 3,
      e_nbytes = 8, e_tier = ''gpu'', e_last_used = 3\<rparr>]"
    by (auto simp: demo_full_def demo_store_eq demo_tiers_def store_eval demo_b_def)
  then have m: "demo_b ''cpu'' \<in> set (entries s')" "core demo_a \<notin> core ` set (entries s')"
    by (auto simp: core_def demo_a_def demo_b_def)
  have "demo_a \<in> set (entries demo_full)" by (simp add: demo_full_entries)
  from put_drops_least_recent [OF demo_full_inv _ c s' this m(2,1)] s' m show ?thesis by auto
qed

text \<open>Loading a prefix that the reuse probe reported resident yields exactly the object the
  store holds for that tenant and key, and the store keeps its invariant.\<close>

theorem has_then_get:
  assumes "store_inv s" "fst (has tn k s) = Some h"
  shows "\<exists>c s'. contents s (tn, k) = Some c \<and> get h (snd (has tn k s)) = Some (Inr (Some c, s'))
    \<and> store_inv s' \<and> contents s' \<subseteq>\<^sub>m contents s"
proof -
  obtain c where "contents s (tn, k) = Some c" using tcs.has_law [OF assms(1), of tn k] assms(2) by auto
  with tcs.get_law [OF assms] show ?thesis by auto
qed

theorem has_then_get_witness:
  "\<exists>c s'. contents demo_full (''t'', ''a'') = Some c
    \<and> get ''t::a'' (snd (has ''t'' ''a'' demo_full)) = Some (Inr (Some c, s'))
    \<and> store_inv s' \<and> contents s' \<subseteq>\<^sub>m contents demo_full"
proof -
  have "contents demo_full (''t'', ''a'') = Some 1" by (simp add: contents_def demo_full_entries demo_a_def)
  then have "fst (has ''t'' ''a'' demo_full) = Some ''t::a''"
    using has_ok(3) [OF demo_full_inv, of "''t''" "''a''"] by (simp add: handle_of_def)
  from has_then_get [OF demo_full_inv this] show ?thesis .
qed

definition collided :: "nat store" where
  "collided = (case run_cmds [Put ''a'' ''b::c'' 1 3, Put ''a::b'' ''c'' 2 4] demo_store of Some (Inr s) \<Rightarrow> s)"

text \<open>Handles are built by joining tenant and key with two colons, so tenants whose names
  contain colons collide: after tenant \<open>a::b\<close> stores its object \<open>2\<close> under key \<open>c\<close>, the reuse
  probe of tenant \<open>a\<close> for key \<open>b::c\<close> is answered with tenant \<open>a::b\<close>'s object, the first
  object's bytes stay counted for ever, and once the shared handle is evicted the next put of
  one of the two keys raises a KeyError.\<close>

theorem handle_collision:
  "run_cmds [Put ''a'' ''b::c'' 1 3, Put ''a::b'' ''c'' 2 4] demo_store = Some (Inr collided)
   \<and> fst (has ''a'' ''b::c'' collided) = Some ''a::b::c''
   \<and> map_option (map_sum id fst) (get ''a::b::c'' collided) = Some (Inr (Some 2))
   \<and> used collided ''gpu'' = 7 \<and> tier_bytes ''gpu'' (entries collided) = 4
   \<and> put ''a'' ''b::c'' 1 3 (evict ''a::b::c'' collided) = Some (Inl (KeyError ''a::b::c''))"
  by (simp add: collided_def demo_store_eq demo_tiers_def store_eval)
end
