(* ===== verification/Selective.thy ===== *)
theory Selective imports SegmentSession "HOL-Library.Option_ord" "HOL-Library.Multiset" begin

text \<open>
  \<^verbatim>\<open>dexa/segment/selective.py\<close> and \<^verbatim>\<open>HFBackend._assemble_reused\<close> / \<^verbatim>\<open>recompute_selective\<close>:
  CacheBlend-style selective recomputation. Vectors are real lists (the L2 deviation and the rotation
  are over the reals). \<open>argsort\<close> stands for \<^verbatim>\<open>numpy.argsort\<close>, of which only the documented
  behaviour is used (a permutation that sorts, ties in any order), and \<open>rcs d\<close> for the model's own
  rotary embedding at position \<open>d\<close>. A deviation masked with minus infinity is \<open>None\<close>.
\<close>

section \<open>Re-phasing\<close>

type_synonym vec = "real list"

definition rotate_half :: "'a::comm_ring_1 list \<Rightarrow> 'a list" where
  "rotate_half x = map uminus (drop (length x div 2) x) @ take (length x div 2) x"

definition rope_key :: "'a::comm_ring_1 list \<Rightarrow> 'a list \<Rightarrow> 'a list \<Rightarrow> 'a list" where
  "rope_key k c s = map2 (+) (map2 (*) k c) (map2 (*) (rotate_half k) s)"

definition rope_rephase_keys :: "vec list list \<Rightarrow> vec \<Rightarrow> vec \<Rightarrow> vec list list" where
  "rope_rephase_keys keys c s = map (map (\<lambda>k. rope_key k c s)) keys"

section \<open>Deviation and selection\<close>

definition sq_dist :: "vec \<Rightarrow> vec \<Rightarrow> real" where
  "sq_dist x y = sum_list (map2 (\<lambda>a b. (a - b)\<^sup>2) x y)"

text \<open>The squared distance of one token's column, summed over heads.\<close>

definition col_sq_dist :: "nat \<Rightarrow> vec list list \<Rightarrow> vec list list \<Rightarrow> real" where
  "col_sq_dist i a b = sum_list (map2 (\<lambda>x y. sq_dist (x ! i) (y ! i)) a b)"

definition per_token_kv_deviation :: "vec kvcache \<Rightarrow> vec kvcache \<Rightarrow> nat \<times> nat \<Rightarrow> int option \<Rightarrow> real list" where
  "per_token_kv_deviation reused correct r layers = (let n_layers = length (kv_layers reused);
     use = (case layers of None \<Rightarrow> n_layers | Some l \<Rightarrow> nat (min l (int n_layers))) in
     map (\<lambda>i. sum_list (map2 (\<lambda>rk ck. sqrt (col_sq_dist i (lkey ck) (lkey rk) + col_sq_dist i (lval ck) (lval rk)))
         (take use (kv_layers reused)) (take use (kv_layers correct))))
       [fst r..<snd r])"

type_synonym dev = "real option"

definition hkvd_select :: "(dev list \<Rightarrow> nat list) \<Rightarrow> dev list \<Rightarrow> rat \<Rightarrow> nat \<Rightarrow> string \<Rightarrow> nat list result" where
  "hkvd_select argsort deviation share offset strategy = (let n = length deviation;
     k0 = (if share > 0 then nat \<lceil>share * rat_of_nat n\<rceil> else 0); k = max 0 (min k0 n) in
     if k = 0 then Inr [] else
     res_bind (if strategy = ''hkvd'' then Inr (take k (rev (argsort deviation)))
       else if strategy = ''recent'' then Inr [n - k..<n]
       else if strategy = ''random'' then
         Inr (take k (sort_key (\<lambda>i. (i * 2654435761) mod 2 ^ 32) [0..<n]))
       else Inl (ValueError ''unknown strategy''))
     (\<lambda>idx. Inr (map (\<lambda>i. i + offset) (sort idx))))"

section \<open>Blending\<close>

definition blend_row :: "nat list \<Rightarrow> 'v list \<Rightarrow> 'v list \<Rightarrow> 'v list" where
  "blend_row sel r c = foldl (\<lambda>r i. r[i := c ! i]) r sel"

definition blend_layer :: "nat list \<Rightarrow> 'v layer_kv \<Rightarrow> 'v layer_kv \<Rightarrow> 'v layer_kv" where
  "blend_layer sel rl cl = \<lparr>lkey = map2 (blend_row sel) (lkey rl) (lkey cl),
     lval = map2 (blend_row sel) (lval rl) (lval cl)\<rparr>"

definition blend_kv :: "'v kvcache \<Rightarrow> 'v kvcache \<Rightarrow> nat list \<Rightarrow> 'v kvcache result" where
  "blend_kv reused correct sel =
    (if list_all (\<lambda>i. i < seq_len reused \<and> i < seq_len correct) sel then
       Inr \<lparr>kv_spec = kv_spec reused, kv_layers = map2 (blend_layer sel) (kv_layers reused) (kv_layers correct),
            kv_positions = kv_positions reused, kv_token_ids = kv_token_ids correct\<rparr>
     else Inl IndexError)"

section \<open>Assembling the reused cache\<close>

text \<open>\<^verbatim>\<open>row[lo:hi] = src\<close> for a source of the same length.\<close>

definition put_range :: "nat \<Rightarrow> 'v list \<Rightarrow> 'v list \<Rightarrow> 'v list" where
  "put_range lo src row = take lo row @ src @ drop (lo + length src) row"

definition cut :: "nat \<times> nat \<Rightarrow> 'v list \<Rightarrow> 'v list" where
  "cut r row = take (snd r - fst r) (drop (fst r) row)"

definition copy_item :: "nat \<Rightarrow> nat \<times> nat \<Rightarrow> ('v \<Rightarrow> 'v) \<Rightarrow> 'v raw_cache \<Rightarrow> 'v raw_cache \<Rightarrow> 'v raw_cache" where
  "copy_item lo r f prev layers = map2 (\<lambda>p l.
     \<lparr>lkey = map2 (\<lambda>ph lh. put_range lo (map f (cut r ph)) lh) (lkey p) (lkey l),
      lval = map2 (\<lambda>ph lh. put_range lo (cut r ph) lh) (lval p) (lval l)\<rparr>) prev layers"

fun assemble_items :: "(int \<Rightarrow> vec \<times> vec) \<Rightarrow> vec raw_cache \<Rightarrow> ctx \<Rightarrow> plan_item list \<Rightarrow> vec raw_cache
    \<Rightarrow> vec raw_cache result" where
  "assemble_items rcs prev prev_ctx [] layers = Inr layers"
| "assemble_items rcs prev prev_ctx (it # its) layers = (let nlo = fst (pi_new_span it) in
     case pi_action it of
       REUSE_EXACT \<Rightarrow> res_bind (span prev_ctx (the (pi_prev_index it))) (\<lambda>r.
         assemble_items rcs prev prev_ctx its (copy_item nlo r id prev layers))
     | REUSE_SHIFTED \<Rightarrow> res_bind (span prev_ctx (the (pi_prev_index it))) (\<lambda>r.
         let (c, s) = rcs (pi_shift it) in
         assemble_items rcs prev prev_ctx its (copy_item nlo r (\<lambda>k. rope_key k c s) prev layers))
     | RECOMPUTE \<Rightarrow> assemble_items rcs prev prev_ctx its layers)"

definition assemble_reused :: "model_spec \<Rightarrow> (int \<Rightarrow> vec \<times> vec) \<Rightarrow> vec kvcache \<Rightarrow> vec kvcache \<Rightarrow> recompute_plan
    \<Rightarrow> ctx \<Rightarrow> vec kvcache result" where
  "assemble_reused sp rcs prev_kv correct plan prev_ctx =
     res_bind (assemble_items rcs (kv_layers prev_kv) prev_ctx (rp_items plan) (kv_layers correct)) (\<lambda>layers.
       Inr \<lparr>kv_spec = sp, kv_layers = layers, kv_positions = kv_positions correct,
            kv_token_ids = kv_token_ids correct\<rparr>)"

section \<open>Selective recompute\<close>

record sel_stats =
  sel_total :: nat
  sel_mandatory :: nat
  sel_candidates :: nat
  sel_selected :: nat
  sel_recomputed :: nat
  sel_fraction :: rat
  sel_strategy :: string
  sel_length_changed :: bool

definition span_range :: "nat \<times> nat \<Rightarrow> nat list" where
  "span_range r = [fst r..<snd r]"

definition positions_of :: "action \<Rightarrow> recompute_plan \<Rightarrow> nat list" where
  "positions_of a plan = concat (map (\<lambda>it. span_range (pi_new_span it)) (filter (\<lambda>it. pi_action it = a) (rp_items plan)))"

definition pick_tokens :: "(dev list \<Rightarrow> nat list) \<Rightarrow> vec kvcache \<Rightarrow> vec kvcache \<Rightarrow> nat list \<Rightarrow> rat \<Rightarrow> string \<Rightarrow> int option
    \<Rightarrow> nat list result" where
  "pick_tokens argsort reused correct candidate share select dev_layers =
    (if candidate = [] then Inr [] else
     let lo = Min (set candidate); hi = Max (set candidate) + 1;
         dev = map2 (\<lambda>i x. if i \<in> set candidate then Some x else None) [lo..<hi]
           (per_token_kv_deviation reused correct (lo, hi) dev_layers) in
     hkvd_select argsort dev share lo select)"

definition recompute_selective :: "(byte list \<Rightarrow> string) \<Rightarrow> model_spec \<Rightarrow> vec forward \<Rightarrow> (int \<Rightarrow> vec \<times> vec)
    \<Rightarrow> (dev list \<Rightarrow> nat list) \<Rightarrow> vec kvcache \<Rightarrow> ctx \<Rightarrow> ctx \<Rightarrow> rat \<Rightarrow> string \<Rightarrow> int option
    \<Rightarrow> (vec kvcache \<times> sel_stats) result" where
  "recompute_selective H sp fwd rcs argsort prev_kv prev_ctx new_ctx share select dev_layers =
     res_bind (plan_incremental H (Some prev_ctx) new_ctx ''selective'') (\<lambda>plan.
       let mandatory = positions_of RECOMPUTE plan; candidate = positions_of REUSE_SHIFTED plan;
           correct = hf_prefill sp fwd (ctx_tokens new_ctx) 0; n = ctx_n new_ctx in
       res_bind (assemble_reused sp rcs prev_kv correct plan prev_ctx) (\<lambda>reused.
       res_bind (pick_tokens argsort reused correct candidate share select dev_layers) (\<lambda>sel.
       let idx = sort (remdups (mandatory @ sel)) in
       res_bind (blend_kv reused correct idx) (\<lambda>blended.
         Inr (blended, \<lparr>sel_total = n, sel_mandatory = length mandatory, sel_candidates = length candidate,
           sel_selected = length sel, sel_recomputed = length idx,
           sel_fraction = (if n \<noteq> 0 then rat_of_nat (length idx) / rat_of_nat n else 0),
           sel_strategy = select, sel_length_changed = (seq_len prev_kv \<noteq> n)\<rparr>)))))"

section \<open>Rotations compose\<close>

lemma rope_halves:
  assumes "length a = length b" "length c = length a" "length s = length a"
  shows "rope_key (a @ b) (c @ c) (s @ s)
    = map2 (-) (map2 (*) a c) (map2 (*) b s) @ map2 (+) (map2 (*) b c) (map2 (*) a s)"
proof -
  have "(length a + length b) div 2 = length a" using assms by simp
  then show ?thesis using assms
    by (auto simp: rope_key_def rotate_half_def intro!: nth_equalityI simp: nth_append)
qed

lemma rope_compose:
  assumes "length a = length b" "length c = length a" "length s = length a" "length d = length a" "length t = length a"
  shows "rope_key (rope_key (a @ b) (c @ c) (s @ s)) (d @ d) (t @ t)
    = rope_key (a @ b) (let e = map2 (-) (map2 (*) c d) (map2 (*) s t) in e @ e)
        (let f = map2 (+) (map2 (*) s d) (map2 (*) c t) in f @ f)"
proof -
  have "rope_key (rope_key (a @ b) (c @ c) (s @ s)) (d @ d) (t @ t)
    = rope_key (map2 (-) (map2 (*) a c) (map2 (*) b s) @ map2 (+) (map2 (*) b c) (map2 (*) a s)) (d @ d) (t @ t)"
    using assms by (simp add: rope_halves)
  then show ?thesis using assms
    by (auto simp: rope_halves Let_def intro!: nth_equalityI simp: nth_append algebra_simps)
qed

text \<open>The rotation vectors of a position \<open>p\<close> under inverse frequencies \<open>fs\<close>, in the rotate-half
  convention: duplicated across the two halves.\<close>

definition rope_cos :: "real list \<Rightarrow> real \<Rightarrow> vec" where
  "rope_cos fs p = (let c = map (\<lambda>f. cos (p * f)) fs in c @ c)"

definition rope_sin :: "real list \<Rightarrow> real \<Rightarrow> vec" where
  "rope_sin fs p = (let s = map (\<lambda>f. sin (p * f)) fs in s @ s)"

text \<open>A key cached at position \<open>p\<close> and re-phased by a shift \<open>d\<close> is the key the model would have
  computed at position \<open>p + d\<close>: the claim of \<^verbatim>\<open>rope_rephase_keys\<close>, over the reals.\<close>

lemma rephase_shifts_position:
  assumes "length k = 2 * length fs"
  shows "rope_key (rope_key k (rope_cos fs p) (rope_sin fs p)) (rope_cos fs d) (rope_sin fs d)
    = rope_key k (rope_cos fs (p + d)) (rope_sin fs (p + d))"
proof -
  define a b where ab: "a = take (length fs) k" "b = drop (length fs) k"
  have k: "k = a @ b" "length a = length fs" "length b = length fs" using assms by (auto simp: ab)
  let ?c = "\<lambda>p. map (\<lambda>f. cos (p * f)) fs" and ?s = "\<lambda>p. map (\<lambda>f. sin (p * f)) fs"
  have c: "map2 (-) (map2 (*) (?c p) (?c d)) (map2 (*) (?s p) (?s d)) = ?c (p + d)"
    and s: "map2 (+) (map2 (*) (?s p) (?c d)) (map2 (*) (?c p) (?s d)) = ?s (p + d)"
    by (auto simp: cos_add sin_add distrib_right intro!: nth_equalityI)
  have "rope_key (rope_key (a @ b) (?c p @ ?c p) (?s p @ ?s p)) (?c d @ ?c d) (?s d @ ?s d)
    = rope_key (a @ b) (?c (p + d) @ ?c (p + d)) (?s (p + d) @ ?s (p + d))"
    by (subst rope_compose) (simp_all only: k length_map c s Let_def)
  then show ?thesis by (simp only: k(1) rope_cos_def rope_sin_def Let_def)
qed

section \<open>Where the blended cache is right\<close>

definition row_agrees :: "(nat \<Rightarrow> bool) \<Rightarrow> 'v list \<Rightarrow> 'v list \<Rightarrow> bool" where
  "row_agrees P x y \<longleftrightarrow> length x = length y \<and> (\<forall>i<length x. P i \<longrightarrow> x ! i = y ! i)"

text \<open>Two raw caches of the same shape that hold the same columns at the positions \<open>P\<close>.\<close>

definition agrees :: "(nat \<Rightarrow> bool) \<Rightarrow> 'v raw_cache \<Rightarrow> 'v raw_cache \<Rightarrow> bool" where
  "agrees P A B \<longleftrightarrow> list_all2 (\<lambda>a b. list_all2 (row_agrees P) (lkey a) (lkey b) \<and>
     list_all2 (row_agrees P) (lval a) (lval b)) A B"

lemma row_agrees_refl: "row_agrees P x x"
  by (simp add: row_agrees_def)

lemma agrees_refl: "agrees P A A"
  by (simp add: agrees_def list_all2_conv_all_nth row_agrees_refl)

lemma row_agrees_mono: "row_agrees P x y \<Longrightarrow> (\<And>i. Q i \<Longrightarrow> P i) \<Longrightarrow> row_agrees Q x y"
  by (simp add: row_agrees_def)

lemma agrees_mono: "agrees P A B \<Longrightarrow> (\<And>i. Q i \<Longrightarrow> P i) \<Longrightarrow> agrees Q A B"
  unfolding agrees_def
  by (erule list_all2_mono) (auto elim!: list_all2_mono intro: row_agrees_mono)

lemma agrees_all_eq: assumes "agrees (\<lambda>i. True) A B" shows "A = B"
proof -
  have r: "row_agrees (\<lambda>i. True) = (=)" by (auto simp: row_agrees_def fun_eq_iff intro: nth_equalityI)
  show ?thesis using assms unfolding agrees_def r list.rel_eq by (auto simp: list_all2_conv_all_nth intro!: nth_equalityI layer_kv.equality)
qed

lemma nth_put_range:
  assumes "lo + length src \<le> length row" "i < length row"
  shows "put_range lo src row ! i = (if lo \<le> i \<and> i < lo + length src then src ! (i - lo) else row ! i)"
proof -
  have "length (take lo row) = lo" using assms by simp
  then show ?thesis using assms by (auto simp: put_range_def nth_append)
qed

lemma length_put_range: "lo + length src \<le> length row \<Longrightarrow> length (put_range lo src row) = length row"
  by (simp add: put_range_def)

lemma row_put:
  "row_agrees P x y \<Longrightarrow> lo + length src \<le> length x \<Longrightarrow>
   row_agrees (\<lambda>i. P i \<and> \<not> (lo \<le> i \<and> i < lo + length src)) (put_range lo src x) y"
  by (auto simp: row_agrees_def nth_put_range length_put_range)

lemma row_put_same:
  "row_agrees P x y \<Longrightarrow> lo + length src \<le> length x \<Longrightarrow> \<forall>j<length src. src ! j = y ! (lo + j) \<Longrightarrow>
   row_agrees P (put_range lo src x) y"
  by (auto simp: row_agrees_def nth_put_range length_put_range)

lemma length_cut: "b \<le> length row \<Longrightarrow> length (cut (a, b) row) = b - a"
  by (simp add: cut_def)

lemma nth_cut: "b \<le> length row \<Longrightarrow> j < b - a \<Longrightarrow> cut (a, b) row ! j = row ! (a + j)"
  by (simp add: cut_def)

lemma shapedD:
  assumes "shaped sp n A" "l < n_layers sp" "h < n_kv_heads sp"
  shows "length (lkey (A ! l)) = n_kv_heads sp" "length (lval (A ! l)) = n_kv_heads sp"
    "length (lkey (A ! l) ! h) = n" "length (lval (A ! l) ! h) = n"
  using assms by (auto simp: shaped_def list_all_length)

lemma shaped_length: "shaped sp n A \<Longrightarrow> length A = n_layers sp"
  by (simp add: shaped_def)

lemma agreesI:
  assumes "shaped sp n A" "shaped sp n B"
    "\<And>l h i. l < n_layers sp \<Longrightarrow> h < n_kv_heads sp \<Longrightarrow> i < n \<Longrightarrow> P i \<Longrightarrow>
       lkey (A ! l) ! h ! i = lkey (B ! l) ! h ! i \<and> lval (A ! l) ! h ! i = lval (B ! l) ! h ! i"
  shows "agrees P A B"
  using assms shapedD [OF assms(1)] shapedD [OF assms(2)]
  by (auto simp: agrees_def list_all2_conv_all_nth row_agrees_def shaped_length)
   (auto simp: shaped_def list_all_length)

lemma agreesD:
  assumes "agrees P A B" "shaped sp n A" "l < n_layers sp" "h < n_kv_heads sp" "i < n" "P i"
  shows "lkey (A ! l) ! h ! i = lkey (B ! l) ! h ! i \<and> lval (A ! l) ! h ! i = lval (B ! l) ! h ! i"
proof -
  note s = shaped_length [OF assms(2)] shapedD [OF assms(2-4)]
  have "list_all2 (row_agrees P) (lkey (A ! l)) (lkey (B ! l))" "list_all2 (row_agrees P) (lval (A ! l)) (lval (B ! l))"
    using assms(1,3) s(1) by (auto simp: agrees_def list_all2_conv_all_nth)
  then have "row_agrees P (lkey (A ! l) ! h) (lkey (B ! l) ! h)" "row_agrees P (lval (A ! l) ! h) (lval (B ! l) ! h)"
    using assms(4) s by (auto dest: list_all2_nthD)
  then show ?thesis using assms(5,6) s by (simp add: row_agrees_def)
qed

lemma copy_item_nth:
  assumes "shaped sp m prev" "shaped sp n L" "l < n_layers sp" "h < n_kv_heads sp"
  shows "lkey (copy_item lo r f prev L ! l) ! h = put_range lo (map f (cut r (lkey (prev ! l) ! h))) (lkey (L ! l) ! h)"
    "lval (copy_item lo r f prev L ! l) ! h = put_range lo (cut r (lval (prev ! l) ! h)) (lval (L ! l) ! h)"
  using assms shapedD [OF assms(1,3,4)] shapedD [OF assms(2,3,4)]
  by (simp_all add: copy_item_def shaped_length)

lemma copy_item_shaped:
  assumes "shaped sp m prev" "shaped sp n L" "b \<le> m" "lo + (b - a) \<le> n"
  shows "shaped sp n (copy_item lo (a, b) f prev L)"
proof -
  have c: "length (put_range lo (map f (cut (a, b) ph)) lh) = n" "length (put_range lo (cut (a, b) ph) lh) = n"
    if "length ph = m" "length lh = n" for ph lh
    using that assms(3,4) by (simp_all add: length_put_range length_cut)
  show ?thesis using assms(1,2) c by (auto simp: copy_item_def shaped_def list_all_length)
qed

lemma copy_item_agrees:
  assumes s: "shaped sp m prev" "shaped sp n L" "shaped sp n C" and b: "b \<le> m" "lo + (b - a) \<le> n"
    and ag: "agrees P L C"
  shows "agrees (\<lambda>i. P i \<and> \<not> (lo \<le> i \<and> i < lo + (b - a))) (copy_item lo (a, b) f prev L) C"
proof (rule agreesI [OF copy_item_shaped [OF s(1,2) b] s(3)])
  fix l h i assume lh: "l < n_layers sp" "h < n_kv_heads sp" and i: "i < n" "P i \<and> \<not> (lo \<le> i \<and> i < lo + (b - a))"
  note d = shapedD [OF s(1) lh] shapedD [OF s(2) lh]
  show "lkey (copy_item lo (a, b) f prev L ! l) ! h ! i = lkey (C ! l) ! h ! i \<and>
    lval (copy_item lo (a, b) f prev L ! l) ! h ! i = lval (C ! l) ! h ! i"
    using agreesD [OF ag s(2) lh i(1)] i b d
    by (auto simp: copy_item_nth [OF s(1,2) lh] nth_put_range length_cut)
qed

lemma copy_item_same:
  assumes s: "shaped sp m prev" "shaped sp n L" "shaped sp n C" and b: "b \<le> m" "b \<le> n" "a \<le> b"
    and ag: "agrees P L C" and pre: "\<And>l h i. l < n_layers sp \<Longrightarrow> h < n_kv_heads sp \<Longrightarrow> i < b \<Longrightarrow>
      lkey (prev ! l) ! h ! i = lkey (C ! l) ! h ! i \<and> lval (prev ! l) ! h ! i = lval (C ! l) ! h ! i"
  shows "agrees P (copy_item a (a, b) id prev L) C"
proof (rule agreesI [OF copy_item_shaped [OF s(1,2) b(1)] s(3)])
  show "a + (b - a) \<le> n" using b by simp
  fix l h i assume lh: "l < n_layers sp" "h < n_kv_heads sp" and i: "i < n" "P i"
  note d = shapedD [OF s(1) lh] shapedD [OF s(2) lh]
  show "lkey (copy_item a (a, b) id prev L ! l) ! h ! i = lkey (C ! l) ! h ! i \<and>
    lval (copy_item a (a, b) id prev L ! l) ! h ! i = lval (C ! l) ! h ! i"
    using agreesD [OF ag s(2) lh i] pre [OF lh, of i] i b d
    by (auto simp: copy_item_nth [OF s(1,2) lh] nth_put_range length_cut nth_cut)
qed

text \<open>What the plan guarantees of one item when the old cache holds \<open>m\<close> tokens, the new one \<open>n\<close>, and the
  first \<open>k\<close> are common.\<close>

definition item_fits :: "ctx \<Rightarrow> nat \<Rightarrow> nat \<Rightarrow> nat \<Rightarrow> plan_item \<Rightarrow> bool" where
  "item_fits old m n k it \<longleftrightarrow> snd (pi_new_span it) \<le> n \<and> (pi_action it = RECOMPUTE \<or>
     (\<exists>a b. span old (the (pi_prev_index it)) = Inr (a, b) \<and> b \<le> m \<and> a \<le> b \<and>
        fst (pi_new_span it) + (b - a) = snd (pi_new_span it) \<and>
        (pi_action it = REUSE_EXACT \<longrightarrow> a = fst (pi_new_span it) \<and> b \<le> k)))"

lemma assemble_items_agrees:
  assumes "\<forall>it\<in>set its. item_fits old m n k it" "shaped sp m prev" "shaped sp n L" "shaped sp n C"
    and "agrees P L C" and pre: "\<And>l h i. l < n_layers sp \<Longrightarrow> h < n_kv_heads sp \<Longrightarrow> i < k \<Longrightarrow>
      lkey (prev ! l) ! h ! i = lkey (C ! l) ! h ! i \<and> lval (prev ! l) ! h ! i = lval (C ! l) ! h ! i"
    and "k \<le> n"
  shows "\<exists>L'. assemble_items rcs prev old its L = Inr L' \<and> shaped sp n L' \<and>
    agrees (\<lambda>i. P i \<and> (\<forall>it\<in>set its. pi_action it = REUSE_SHIFTED \<longrightarrow> i \<notin> set (span_range (pi_new_span it)))) L' C"
  using assms(1,3,5)
proof (induction its arbitrary: L P)
  case Nil then show ?case by simp
next
  case (Cons it its)
  note fit = Cons(2) [rule_format, of it, simplified]
  show ?case
  proof (cases "pi_action it")
    case RECOMPUTE
    then show ?thesis using Cons(1) [OF _ Cons(3,4)] Cons(2) by auto
  next
    case REUSE_EXACT
    then obtain a b where ab: "span old (the (pi_prev_index it)) = Inr (a, b)" "b \<le> m" "a \<le> b" "b \<le> k"
      "a = fst (pi_new_span it)" using fit by (auto simp: item_fits_def)
    have b: "b \<le> n" "a + (b - a) \<le> n" using ab assms(7) by auto
    have "agrees P (copy_item a (a, b) id prev L) C"
      by (rule copy_item_same [OF assms(2) Cons(3) assms(4) ab(2) b(1) ab(3) Cons(4)]) (use pre ab(4) in auto)
    from Cons(1) [OF _ copy_item_shaped [OF assms(2) Cons(3) ab(2) b(2)] this] Cons(2)
    show ?thesis using REUSE_EXACT ab by (auto simp: Let_def)
  next
    case REUSE_SHIFTED
    then obtain a b where ab: "span old (the (pi_prev_index it)) = Inr (a, b)" "b \<le> m" "a \<le> b"
      "fst (pi_new_span it) + (b - a) = snd (pi_new_span it)" "snd (pi_new_span it) \<le> n"
      using fit by (auto simp: item_fits_def)
    let ?lo = "fst (pi_new_span it)"
    obtain c s where r: "rcs (pi_shift it) = (c, s)" by (cases "rcs (pi_shift it)")
    have b: "?lo + (b - a) \<le> n" using ab by simp
    have "agrees (\<lambda>i. P i \<and> \<not> (?lo \<le> i \<and> i < ?lo + (b - a))) (copy_item ?lo (a, b) (\<lambda>k. rope_key k c s) prev L) C"
      by (rule copy_item_agrees [OF assms(2) Cons(3) assms(4) ab(2) b Cons(4)])
    from Cons(1) [OF _ copy_item_shaped [OF assms(2) Cons(3) ab(2) b] this] Cons(2)
    obtain L' where L': "assemble_items rcs prev old its (copy_item ?lo (a, b) (\<lambda>k. rope_key k c s) prev L) = Inr L'"
      "shaped sp n L'" "agrees (\<lambda>i. (P i \<and> \<not> (?lo \<le> i \<and> i < ?lo + (b - a))) \<and>
         (\<forall>it\<in>set its. pi_action it = REUSE_SHIFTED \<longrightarrow> i \<notin> set (span_range (pi_new_span it)))) L' C" by auto
    have "agrees (\<lambda>i. P i \<and> (\<forall>it\<in>set (it # its). pi_action it = REUSE_SHIFTED \<longrightarrow>
        i \<notin> set (span_range (pi_new_span it)))) L' C"
      by (rule agrees_mono [OF L'(3)]) (use REUSE_SHIFTED ab(4) in \<open>auto simp: span_range_def\<close>)
    then show ?thesis using L'(1,2) REUSE_SHIFTED ab(1) r by (intro exI [of _ L']) (simp add: Let_def)
  qed
qed

lemma length_blend_row [simp]: "length (blend_row sel r c) = length r"
  unfolding blend_row_def by (induction sel arbitrary: r) auto

lemma nth_blend_row: "i < length r \<Longrightarrow> blend_row sel r c ! i = (if i \<in> set sel then c ! i else r ! i)"
  unfolding blend_row_def by (induction sel arbitrary: r) (auto simp: nth_list_update)

lemma blend_agrees:
  assumes "shaped sp n R" "shaped sp n C" "agrees P R C"
  shows "shaped sp n (map2 (blend_layer sel) R C) \<and> agrees (\<lambda>i. P i \<or> i \<in> set sel) (map2 (blend_layer sel) R C) C"
proof -
  have s: "shaped sp n (map2 (blend_layer sel) R C)"
    using assms(1,2) by (auto simp: shaped_def list_all_length blend_layer_def)
  moreover have "agrees (\<lambda>i. P i \<or> i \<in> set sel) (map2 (blend_layer sel) R C) C"
  proof (rule agreesI [OF s assms(2)])
    fix l h i assume lh: "l < n_layers sp" "h < n_kv_heads sp" and i: "i < n" "P i \<or> i \<in> set sel"
    note d = shapedD [OF assms(1) lh] shapedD [OF assms(2) lh]
    show "lkey (map2 (blend_layer sel) R C ! l) ! h ! i = lkey (C ! l) ! h ! i \<and>
      lval (map2 (blend_layer sel) R C ! l) ! h ! i = lval (C ! l) ! h ! i"
      using agreesD [OF assms(3,1) lh i(1)] i(2) lh d i(1) shaped_length [OF assms(1)] shaped_length [OF assms(2)]
      by (auto simp: blend_layer_def nth_blend_row)
  qed
  ultimately show ?thesis by blast
qed

section \<open>The selection\<close>

definition argsort_ok :: "(dev list \<Rightarrow> nat list) \<Rightarrow> bool" where
  "argsort_ok f \<longleftrightarrow> (\<forall>xs. mset (f xs) = mset [0..<length xs] \<and> sorted (map (\<lambda>i. xs ! i) (f xs)))"

lemma argsort_set: "argsort_ok f \<Longrightarrow> set (f xs) = {0..<length xs} \<and> distinct (f xs) \<and> length (f xs) = length xs"
  unfolding argsort_ok_def
  by (metis atLeastLessThan_upt distinct_upt length_upt minus_nat.diff_0 mset_eq_imp_distinct_iff mset_eq_length mset_eq_setD)

definition n_selected :: "rat \<Rightarrow> nat \<Rightarrow> nat" where
  "n_selected share n = (if share > 0 then min (nat \<lceil>share * rat_of_nat n\<rceil>) n else 0)"

lemma take_perm:
  "set p = {0..<n} \<Longrightarrow> distinct p \<Longrightarrow> length p = n \<Longrightarrow> k \<le> n \<Longrightarrow>
   set (take k p) \<subseteq> {0..<n} \<and> distinct (take k p) \<and> length (take k p) = k"
  by (auto dest: in_set_takeD)

lemma sort_key_perm: "set (sort_key h [0..<n]) = {0..<n} \<and> distinct (sort_key h [0..<n]) \<and> length (sort_key h [0..<n]) = n"
  by simp

lemma hkvd_select_spec:
  assumes "argsort_ok f" "strategy \<in> {''hkvd'', ''recent'', ''random''}"
  shows "\<exists>sel. hkvd_select f dev share off strategy = Inr sel \<and> set sel \<subseteq> {off..<off + length dev} \<and>
    distinct sel \<and> sorted sel \<and> length sel = n_selected share (length dev)"
proof -
  let ?n = "length dev" and ?k = "n_selected share (length dev)"
  have k: "max 0 (min (if share > 0 then nat \<lceil>share * rat_of_nat ?n\<rceil> else 0) ?n) = ?k" "?k \<le> ?n"
    and k': "min (if share > 0 then nat \<lceil>share * rat_of_nat ?n\<rceil> else 0) ?n = ?k"
    by (simp_all add: n_selected_def)
  show ?thesis
  proof (cases "?k = 0")
    case True then show ?thesis by (simp add: hkvd_select_def k' Let_def)
  next
    case False
    note a = argsort_set [OF assms(1), of dev]
    define h where "h = (\<lambda>i::nat. (i * 2654435761) mod 2 ^ 32)"
    have 1: "set (take ?k (rev (f dev))) \<subseteq> {0..<?n} \<and> distinct (take ?k (rev (f dev))) \<and>
        length (take ?k (rev (f dev))) = ?k"
      by (rule take_perm) (use a k(2) in auto)
    have 2: "set (take ?k (sort_key h [0..<?n])) \<subseteq> {0..<?n} \<and> distinct (take ?k (sort_key h [0..<?n])) \<and>
        length (take ?k (sort_key h [0..<?n])) = ?k"
      by (rule take_perm) (use sort_key_perm [of h ?n] k(2) in auto)
    have 3: "set [?n - ?k..<?n] \<subseteq> {0..<?n} \<and> distinct [?n - ?k..<?n] \<and> length [?n - ?k..<?n] = ?k"
      using k(2) by simp
    obtain idx where idx: "(if strategy = ''hkvd'' then Inr (take ?k (rev (f dev)))
       else if strategy = ''recent'' then Inr [?n - ?k..<?n]
       else if strategy = ''random'' then Inr (take ?k (sort_key h [0..<?n]))
       else Inl (ValueError ''unknown strategy'')) = Inr idx" and
      i: "set idx \<subseteq> {0..<?n}" "distinct idx" "length idx = ?k"
      using assms(2) 1 2 3 by (cases "strategy = ''hkvd''"; cases "strategy = ''recent''") auto
    have s: "hkvd_select f dev share off strategy = Inr (map (\<lambda>i. i + off) (sort idx))"
      unfolding hkvd_select_def Let_def k(1) by (simp only: False if_False idx [unfolded h_def] res_bind.simps)
    have "sorted (map (\<lambda>i. i + off) (sort idx))" by (simp add: sorted_map sorted_wrt_mono_rel [OF _ sorted_sort])
    moreover have "distinct (map (\<lambda>i. i + off) (sort idx))" using i(2) by (simp add: distinct_map)
    ultimately show ?thesis using s i by (intro exI [of _ "map (\<lambda>i. i + off) (sort idx)"]) auto
  qed
qed

lemma pick_tokens_spec:
  assumes "argsort_ok f" "strategy \<in> {''hkvd'', ''recent'', ''random''}" "\<forall>i\<in>set cand. i < n"
  shows "\<exists>sel. pick_tokens f R C cand share strategy dl = Inr sel \<and> (\<forall>i\<in>set sel. i < n) \<and>
    (1 \<le> share \<longrightarrow> set cand \<subseteq> set sel)"
proof (cases "cand = []")
  case True then show ?thesis by (simp add: pick_tokens_def)
next
  case False
  define lo where "lo = Min (set cand)"
  define hi where "hi = Max (set cand) + 1"
  define dev where "dev = map2 (\<lambda>i x. if i \<in> set cand then Some x else None) [lo..<hi]
     (per_token_kv_deviation R C (lo, hi) dl)"
  have b: "\<forall>i\<in>set cand. lo \<le> i \<and> i < hi" by (auto simp: lo_def hi_def le_imp_less_Suc)
  have "Max (set cand) \<in> set cand" "Min (set cand) \<in> set cand" using False by auto
  then have hn: "hi \<le> n" "lo \<le> hi" using assms(3) b by (auto simp: hi_def lo_def Suc_le_eq)
  have len: "length dev = hi - lo" by (simp add: dev_def per_token_kv_deviation_def Let_def)
  obtain sel where sel: "hkvd_select f dev share lo strategy = Inr sel" "set sel \<subseteq> {lo..<lo + length dev}"
    "distinct sel" "length sel = n_selected share (length dev)"
    using hkvd_select_spec [OF assms(1,2), of dev share lo] by blast
  have all: "set cand \<subseteq> set sel" if "1 \<le> share"
  proof -
    have "rat_of_nat (hi - lo) \<le> share * rat_of_nat (hi - lo)" using that by (simp add: mult_le_cancel_right1)
    then have "int (hi - lo) \<le> \<lceil>share * rat_of_nat (hi - lo)\<rceil>"
      by (metis ceiling_mono ceiling_of_int of_int_of_nat_eq)
    then have "length sel = hi - lo" using sel(4) that len by (simp add: n_selected_def)
    then have "card (set sel) = card {lo..<lo + length dev}" using sel(3) len by (simp add: distinct_card)
    then have "set sel = {lo..<lo + length dev}" by (intro card_subset_eq) (use sel(2) in auto)
    then show ?thesis using b len hn by auto
  qed
  have "pick_tokens f R C cand share strategy dl = hkvd_select f dev share lo strategy"
    using False by (simp add: pick_tokens_def Let_def lo_def hi_def dev_def)
  moreover have "\<forall>i\<in>set sel. i < n" using sel(2) hn len by auto
  ultimately show ?thesis using sel(1) all by auto
qed

lemma plan_item_fits:
  assumes p: "plan_incremental H (Some old) new mode = Inr p" and nc: "no_collision H (set old \<union> set new)"
  shows "\<forall>it\<in>set (rp_items p). item_fits old (ctx_n old) (ctx_n new) (reused_exact_tokens p) it"
proof
  fix it assume it: "it \<in> set (rp_items p)"
  obtain n where n: "common_prefix_len H old new = Inr n" and pl: "placed 0 0 new (rp_items p)"
    and ok: "list_all (item_ok H old n) (rp_items p)"
    by (rule plan_cases [OF p]) (auto simp: items_ok_def)
  have e: "reused_exact_tokens p = ctx_n (take n new)" using exact_prefix [OF p] n by auto
  obtain k where k: "k < length (rp_items p)" "it = rp_items p ! k" using it by (auto simp: in_set_conv_nth)
  note at = placed_nth [OF pl k(1)]
  have io: "item_ok H old n it" using ok it by (auto simp: list_all_iff)
  have sp: "pi_new_span it = (ctx_n (take k new), ctx_n (take k new) + seg_n (new ! k))"
    using io at k(2) by (simp add: item_ok_def prod_eq_iff)
  have c: "ctx_n (take (Suc k) new) = ctx_n (take k new) + seg_n (new ! k)"
    using at(1) by (simp add: take_Suc_conv_app_nth)
  have mono: "ctx_n (take i new) \<le> ctx_n (take j new)" if "i \<le> j" for i j
    using that by (metis le_add1 le_iff_add take_add ctx_n_simps(3))
  have top: "snd (pi_new_span it) \<le> ctx_n new" using mono [of "Suc k" "max (Suc k) (length new)"] c sp by simp
  have sc: "same_content old it" by (rule item_same_content [OF n nc pl ok it])
  show "item_fits old (ctx_n old) (ctx_n new) (reused_exact_tokens p) it"
  proof (cases "pi_action it = RECOMPUTE")
    case False
    then obtain j where j: "pi_prev_index it = Some j" using sc by (auto simp: same_content_def split: option.splits)
    then obtain a b where ab: "span old j = Inr (a, b)" "b - a = seg_n (pi_segment it)"
      "pi_action it = REUSE_EXACT \<longrightarrow> pi_new_span it = (a, b)" using sc by (auto simp: same_content_def)
    have "k < n" if "pi_action it = REUSE_EXACT" using io that at k(2) by (simp add: item_ok_def)
    then have "pi_action it = REUSE_EXACT \<longrightarrow> b \<le> ctx_n (take n new)" using mono [of "Suc k" n] c sp ab(3) by auto
    then show ?thesis using top j ab sp at k(2) span_tokens [OF ab(1)] by (auto simp: item_fits_def e)
  qed (use top in \<open>simp add: item_fits_def\<close>)
qed

lemma positions_bound:
  assumes "\<forall>it\<in>set (rp_items p). item_fits old m n k it"
  shows "\<forall>i\<in>set (positions_of a p). i < n"
proof
  fix i assume "i \<in> set (positions_of a p)"
  then obtain it where it: "it \<in> set (rp_items p)" "i \<in> set (span_range (pi_new_span it))" by (auto simp: positions_of_def)
  then show "i < n" using assms by (auto simp: item_fits_def span_range_def)
qed

lemma prefix_columns:
  assumes c: "causal_forward sp fwd" and ne: "old \<noteq> []" "new \<noteq> []" and eq: "take k old = take k new"
    and lh: "l < n_layers sp" "h < n_kv_heads sp" and i: "i < k" "k \<le> length new"
  defines "A \<equiv> kv_layers (hf_prefill sp fwd old 0)" and "B \<equiv> kv_layers (hf_prefill sp fwd new 0)"
  shows "lkey (A ! l) ! h ! i = lkey (B ! l) ! h ! i \<and> lval (A ! l) ! h ! i = lval (B ! l) ! h ! i"
proof -
  have k: "0 < k" using i by simp
  have "map (take_layer k) A = map (take_layer k) B"
    using causal_forward.cols_take [OF c ne(1) k] causal_forward.cols_take [OF c ne(2) k] eq
    by (simp add: A_def B_def hf_prefill_def Let_def)
  moreover have s: "shaped sp (length old) A" "shaped sp (length new) B"
    using causal_forward.cols_shaped [OF c ne(1)] causal_forward.cols_shaped [OF c ne(2)]
    by (simp_all add: A_def B_def hf_prefill_def Let_def)
  ultimately have "take_layer k (A ! l) = take_layer k (B ! l)"
    using lh shaped_length by (metis nth_map)
  then have t: "map (take k) (lkey (A ! l)) = map (take k) (lkey (B ! l))"
    "map (take k) (lval (A ! l)) = map (take k) (lval (B ! l))" by (auto simp: take_layer_def)
  note d = shapedD [OF s(1) lh] shapedD [OF s(2) lh]
  have "take k (lkey (A ! l) ! h) = take k (lkey (B ! l) ! h)" "take k (lval (A ! l) ! h) = take k (lval (B ! l) ! h)"
    using arg_cong [OF t(1), of "\<lambda>x. x ! h"] arg_cong [OF t(2), of "\<lambda>x. x ! h"] lh(2) d by auto
  then show ?thesis using i(1) by (metis nth_take)
qed

text \<open>C8. Selective recompute keeps what it must. For a causal model and a correct previous cache, the
  call succeeds, and the blended cache carries the true columns of a full prefill at every position
  that is not a shifted-reuse candidate: the exact prefix, copied from the old cache, and the edited
  region. Its tokens and positions are the new context's, no more tokens are recomputed than there
  are, and with the whole share selected the blend is the full prefill.\<close>

theorem selective_blend:
  assumes c: "causal_forward sp fwd" and nc: "no_collision H (set old \<union> set new)" and ar: "argsort_ok f"
    and st: "strategy \<in> {''hkvd'', ''recent'', ''random''}"
    and ne: "ctx_tokens old \<noteq> []" "ctx_tokens new \<noteq> []"
    and p: "plan_incremental H (Some old) new ''selective'' = Inr p"
  shows "\<exists>b ss. recompute_selective H sp fwd rcs f (hf_prefill sp fwd (ctx_tokens old) 0) old new share strategy dl
      = Inr (b, ss) \<and> kv_token_ids b = Some (ctx_tokens new) \<and> kv_positions b = arange 0 (ctx_n new) \<and>
    agrees (\<lambda>i. i \<notin> set (positions_of REUSE_SHIFTED p)) (kv_layers b)
      (kv_layers (hf_prefill sp fwd (ctx_tokens new) 0)) \<and>
    sel_recomputed ss \<le> ctx_n new \<and>
    (1 \<le> share \<longrightarrow> b = hf_prefill sp fwd (ctx_tokens new) 0)"
proof -
  let ?old = "hf_prefill sp fwd (ctx_tokens old) 0" and ?C = "hf_prefill sp fwd (ctx_tokens new) 0"
  note fits = plan_item_fits [OF p nc] and rp = reuse_prefix [OF p nc]
  have sh: "shaped sp (ctx_n old) (kv_layers ?old)" "shaped sp (ctx_n new) (kv_layers ?C)"
    using causal_forward.cols_shaped [OF c ne(1)] causal_forward.cols_shaped [OF c ne(2)]
    by (simp_all add: hf_prefill_def Let_def)
  have C: "kv_positions ?C = arange 0 (ctx_n new)" "kv_token_ids ?C = Some (ctx_tokens new)" "kv_spec ?C = sp"
    by (simp_all add: hf_prefill_def Let_def)
  obtain L where L: "assemble_items rcs (kv_layers ?old) old (rp_items p) (kv_layers ?C) = Inr L" "shaped sp (ctx_n new) L"
    "agrees (\<lambda>i. True \<and> (\<forall>it\<in>set (rp_items p). pi_action it = REUSE_SHIFTED \<longrightarrow>
       i \<notin> set (span_range (pi_new_span it)))) L (kv_layers ?C)"
    using assemble_items_agrees [OF fits sh(1,2,2) agrees_refl, where rcs = rcs and P = "\<lambda>i. True"]
      prefix_columns [OF c ne, of "reused_exact_tokens p"] rp by auto
  define R where "R = \<lparr>kv_spec = sp, kv_layers = L, kv_positions = kv_positions ?C, kv_token_ids = kv_token_ids ?C\<rparr>"
  have R: "assemble_reused sp rcs ?old ?C p old = Inr R" by (simp add: assemble_reused_def L(1) R_def)
  let ?cand = "positions_of REUSE_SHIFTED p" and ?mand = "positions_of RECOMPUTE p"
  obtain sel where sel: "pick_tokens f R ?C ?cand share strategy dl = Inr sel" "\<forall>i\<in>set sel. i < ctx_n new"
    "1 \<le> share \<longrightarrow> set ?cand \<subseteq> set sel"
    using pick_tokens_spec [OF ar st positions_bound [OF fits]] by blast
  define idx where "idx = sort (remdups (?mand @ sel))"
  have ib: "\<forall>i\<in>set idx. i < ctx_n new" using sel(2) positions_bound [OF fits, of RECOMPUTE] by (auto simp: idx_def)
  define b where "b = \<lparr>kv_spec = sp, kv_layers = map2 (blend_layer idx) L (kv_layers ?C),
    kv_positions = kv_positions ?C, kv_token_ids = kv_token_ids ?C\<rparr>"
  have "seq_len R = ctx_n new" "seq_len ?C = ctx_n new" by (simp_all add: seq_len_def R_def C)
  then have b: "blend_kv R ?C idx = Inr b" using ib by (simp add: blend_kv_def list_all_iff R_def b_def)
  have ag: "agrees (\<lambda>i. i \<notin> set ?cand \<or> i \<in> set idx) (kv_layers b) (kv_layers ?C)"
    using conjunct2 [OF blend_agrees [OF L(2) sh(2) L(3), of idx]]
    by (simp add: b_def) (erule agrees_mono, auto simp: positions_of_def)
  have full: "b = ?C" if "1 \<le> share"
  proof -
    have "agrees (\<lambda>i. True) (kv_layers b) (kv_layers ?C)"
      by (rule agrees_mono [OF ag]) (use sel(3) that in \<open>auto simp: idx_def\<close>)
    from agrees_all_eq [OF this] show ?thesis by (simp add: b_def hf_prefill_def Let_def)
  qed
  have "length idx \<le> ctx_n new"
    using ib card_mono [of "{..<ctx_n new}" "set idx"] by (auto simp: idx_def distinct_card [symmetric] subset_eq)
  moreover obtain ss where "recompute_selective H sp fwd rcs f ?old old new share strategy dl = Inr (b, ss)"
    "sel_recomputed ss = length idx"
    using b by (simp add: recompute_selective_def p R sel(1) Let_def idx_def)
  moreover have "agrees (\<lambda>i. i \<notin> set ?cand) (kv_layers b) (kv_layers ?C)" by (rule agrees_mono [OF ag]) simp
  ultimately show ?thesis using full C by (intro exI [of _ b] exI [of _ ss]) (simp add: b_def)
qed

definition demo_argsort :: "dev list \<Rightarrow> nat list" where
  "demo_argsort xs = sort_key (\<lambda>i. xs ! i) [0..<length xs]"

lemma demo_argsort_ok: "argsort_ok demo_argsort"
  by (simp add: argsort_ok_def demo_argsort_def)

abbreviation "real_vec \<equiv> (\<lambda>t l h k. [real_of_int t]) :: vec kv_vec"

theorem selective_blend_witness:
  "\<exists>b ss. recompute_selective demo_hash tiny_spec (fake_fwd tiny_spec real_vec) (\<lambda>d. ([1], [0])) demo_argsort
      (hf_prefill tiny_spec (fake_fwd tiny_spec real_vec) [3, 4] 0) [demo_seg ''s'' [3], demo_seg ''d'' [4]]
      [demo_seg ''e'' [5], demo_seg ''d'' [4]] 1 ''hkvd'' None = Inr (b, ss) \<and>
    b = hf_prefill tiny_spec (fake_fwd tiny_spec real_vec) [5, 4] 0"
proof -
  let ?old = "[demo_seg ''s'' [3], demo_seg ''d'' [4]]" and ?new = "[demo_seg ''e'' [5], demo_seg ''d'' [4]]"
  obtain p where p: "plan_incremental demo_hash (Some ?old) ?new ''selective'' = Inr p"
    by (simp add: plan_incremental_def demo_ids Let_def)
  have nc: "no_collision demo_hash (set ?old \<union> set ?new)" by (simp add: no_collision_def demo_ids)
  show ?thesis
    using selective_blend [OF fake.causal_forward_axioms nc demo_argsort_ok _ _ _ p, of "''hkvd''" tiny_spec real_vec
      "\<lambda>d. ([1], [0])" 1 None] by auto
qed

text \<open>The mask does not keep a position inside the hull from being picked: with a share that asks for
  more tokens than there are candidates, a masked one is returned too, whatever \<^verbatim>\<open>argsort\<close> does with
  ties.\<close>

lemma masked_position_picked:
  assumes "argsort_ok f"
  shows "hkvd_select f [Some x, None, Some y] 1 off ''hkvd'' = Inr [off, Suc off, Suc (Suc off)]"
proof -
  let ?d = "[Some x, None, Some y]"
  obtain sel where sel: "hkvd_select f ?d 1 off ''hkvd'' = Inr sel" "set sel \<subseteq> {off..<off + length ?d}"
    "distinct sel" "sorted sel" "length sel = n_selected 1 (length ?d)"
    using hkvd_select_spec [OF assms, of "''hkvd''" ?d 1 off] by auto
  have n: "length sel = 3" using sel(5) by (simp add: n_selected_def)
  have "set sel = {off..<off + 3}"
    by (intro card_subset_eq) (use sel(2,3) n in \<open>auto simp: distinct_card eval_nat_numeral\<close>)
  then have "sel = sorted_list_of_set {off..<off + 3}" using sel(3,4) by (metis sorted_list_of_set.idem_if_sorted_distinct)
  then show ?thesis using sel(1) by (simp add: sorted_list_of_set_range eval_nat_numeral upt_rec)
qed

end
