(* ===== verification/Compaction.thy ===== *)
theory Compaction imports Selective begin

text \<open>
  \<^verbatim>\<open>dexa/compaction/base.py\<close>, \<^verbatim>\<open>dexa/compaction/baselines.py\<close> and the attention outputs of
  the toy backend: compaction budgets, the selection baselines and the quality signal they are scored
  by. Scores are real numbers; \<open>argsort\<close> is \<^verbatim>\<open>numpy.argsort\<close> (ties in any order) and
  \<open>draw seed T t\<close> stands for \<^verbatim>\<open>default_rng(seed).choice(T, size=t, replace=False)\<close>. Token budgets
  and recent shares are non-negative: the code never builds a negative one.
\<close>

section \<open>Budgets\<close>

record compaction_budget =
  cb_ratio :: "rat option"
  cb_tokens :: "nat option"
  cb_min :: nat

definition target_t :: "compaction_budget \<Rightarrow> nat \<Rightarrow> nat result" where
  "target_t b n = (case cb_ratio b of
     Some r \<Rightarrow> if r = 0 then Inl ZeroDivisionError
       else Inr (nat (max (int (cb_min b)) (py_round (rat_of_nat n / r))))
   | None \<Rightarrow> (case cb_tokens b of Some k \<Rightarrow> Inr (max (cb_min b) k)
       | None \<Rightarrow> Inl (ValueError ''CompactionBudget needs ratio or tokens_per_head'')))"

section \<open>Attention\<close>

definition dot :: "vec \<Rightarrow> vec \<Rightarrow> real" where
  "dot x y = sum_list (map2 (*) x y)"

text \<open>\<^verbatim>\<open>(Q @ K.T) * scale\<close>.\<close>

definition logits :: "vec list \<Rightarrow> vec list \<Rightarrow> real \<Rightarrow> vec list" where
  "logits q k scale = map (\<lambda>x. map (\<lambda>y. dot x y * scale) k) q"

definition attn_scale :: "model_spec \<Rightarrow> real" where
  "attn_scale sp = 1 / sqrt (real (head_dim sp))"

definition softmax_row :: "real \<Rightarrow> vec \<Rightarrow> vec" where
  "softmax_row eps z = (let m = Max (set z); e = map (\<lambda>x. exp (x - m)) z; s = max (sum_list e) eps in map (\<lambda>x. x / s) e)"

text \<open>\<^verbatim>\<open>_softmax(logits, axis=-1)\<close>; a row with no key raises.\<close>

definition softmax :: "vec list \<Rightarrow> vec list result" where
  "softmax a = (if [] \<in> set a then Inl (ValueError ''zero-size array'') else Inr (map (softmax_row (1 / 10 ^ 12)) a))"

definition col_sum :: "nat \<Rightarrow> vec list \<Rightarrow> vec" where
  "col_sum t a = map (\<lambda>j. sum_list (map (\<lambda>row. row ! j) a)) [0..<t]"

text \<open>\<^verbatim>\<open>w @ V\<close> for one row of weights.\<close>

definition weighted :: "nat \<Rightarrow> vec \<Rightarrow> vec list \<Rightarrow> vec" where
  "weighted d w v = map (\<lambda>j. sum_list (map2 (\<lambda>a x. a * x ! j) w v)) [0..<d]"

text \<open>One query head's output over keys, values and biases.\<close>

definition attn_head :: "nat \<Rightarrow> real \<Rightarrow> vec list \<Rightarrow> vec list \<Rightarrow> vec list \<Rightarrow> vec \<Rightarrow> vec list result" where
  "attn_head d scale q k v beta = (let l = map (\<lambda>row. map2 (+) row beta) (logits q k scale) in
     if [] \<in> set l then Inl (ValueError ''zero-size array'')
     else Inr (map (\<lambda>row. weighted d (softmax_row (1 / 10 ^ 8) row) v) l))"

definition attn_head_raw :: "nat \<Rightarrow> real \<Rightarrow> vec list \<Rightarrow> vec list \<Rightarrow> vec list \<Rightarrow> vec list result" where
  "attn_head_raw d scale q k v = (let l = logits q k scale in
     if [] \<in> set l then Inl (ValueError ''zero-size array'')
     else Inr (map (\<lambda>row. weighted d (softmax_row (1 / 10 ^ 8) row) v) l))"

datatype 'v context_cache = Raw "'v kvcache" | Compact "'v compact_cache"

definition attention_outputs :: "model_spec \<Rightarrow> vec context_cache \<Rightarrow> vec ref_queries \<Rightarrow> vec list list list result" where
  "attention_outputs sp c qs = res_map (\<lambda>l. res_map (\<lambda>qh. res_bind (kv_head_of sp qh) (\<lambda>h.
     let q = rq_layers qs ! l ! qh in
     case c of
       Raw kv \<Rightarrow> attn_head_raw (head_dim sp) (attn_scale sp) q (lkey (kv_layers kv ! l) ! h) (lval (kv_layers kv ! l) ! h)
     | Compact cc \<Rightarrow> attn_head (head_dim sp) (attn_scale sp) q (ckeys (cc_layers cc ! l) ! h)
         (cvalues (cc_layers cc ! l) ! h) (cbiases (cc_layers cc ! l) ! h)))
     [0..<n_q_heads sp]) [0..<n_layers sp]"

section \<open>Selection\<close>

definition make_layer :: "'v list list \<Rightarrow> 'v list list \<Rightarrow> int list \<Rightarrow> nat list list \<Rightarrow> 'v compact_layer" where
  "make_layer k v positions sels = (let ss = map sort sels in
     \<lparr>ckeys = map2 (\<lambda>kh s. map (\<lambda>i. kh ! i) s) k ss, cvalues = map2 (\<lambda>vh s. map (\<lambda>i. vh ! i) s) v ss,
      cbiases = map (\<lambda>s. replicate (length s) 0) ss, cpositions = map (\<lambda>s. map (\<lambda>i. positions ! i) s) ss\<rparr>)"

definition group_queries :: "model_spec \<Rightarrow> vec list list \<Rightarrow> nat \<Rightarrow> vec list result" where
  "group_queries sp q h = res_bind (res_map (kv_head_of sp) [0..<n_q_heads sp]) (\<lambda>hs.
     let qs = map snd (filter (\<lambda>p. fst p = h) (zip hs q)) in
     if qs = [] then Inl (ValueError ''need at least one array to concatenate'') else Inr (concat qs))"

definition topk_with_recent :: "(dev list \<Rightarrow> nat list) \<Rightarrow> vec \<Rightarrow> nat \<Rightarrow> nat \<Rightarrow> nat \<Rightarrow> nat list" where
  "topk_with_recent argsort scores t n recent0 = (let recent = min (min recent0 t) n;
     recent_idx = [n - recent..<n];
     masked = map (\<lambda>i. if n - recent \<le> i then None else Some (scores ! i)) [0..<n];
     need = t - recent in
     if need > 0 then sort (remdups (recent_idx @ take need (rev (argsort masked))))
     else sort (remdups recent_idx))"

text \<open>The layer and head loops all baselines share, over the index set each picks for a head.\<close>

definition select_compact :: "string \<Rightarrow> (nat \<Rightarrow> nat \<Rightarrow> nat list result) \<Rightarrow> 'v kvcache \<Rightarrow> 'v compact_cache result" where
  "select_compact name pick c = res_bind (res_map (\<lambda>l. res_bind (res_map (pick l) [0..<n_kv_heads (kv_spec c)])
       (\<lambda>sels. Inr (make_layer (lkey (kv_layers c ! l)) (lval (kv_layers c ! l)) (kv_positions c) sels)))
     [0..<n_layers (kv_spec c)])
   (\<lambda>layers. Inr \<lparr>cc_spec = kv_spec c, cc_layers = layers, cc_logical = seq_len c, cc_method = name\<rparr>)"

definition full_kv :: "'v kvcache \<Rightarrow> 'v compact_cache result" where
  "full_kv c = select_compact ''full_kv'' (\<lambda>l h. Inr [0..<seq_len c]) c"

definition recent_window :: "'v kvcache \<Rightarrow> compaction_budget \<Rightarrow> 'v compact_cache result" where
  "recent_window c b = res_bind (target_t b (seq_len c)) (\<lambda>t0. let n = seq_len c; t = min t0 n in
     select_compact ''recent_window'' (\<lambda>l h. Inr [n - t..<n]) c)"

definition recent_count :: "rat \<Rightarrow> nat \<Rightarrow> nat" where
  "recent_count recent_share t = nat (py_round (recent_share * rat_of_nat t))"

definition heavy_hitter :: "(dev list \<Rightarrow> nat list) \<Rightarrow> rat \<Rightarrow> vec kvcache \<Rightarrow> compaction_budget \<Rightarrow> vec ref_queries option
    \<Rightarrow> vec compact_cache result" where
  "heavy_hitter argsort recent_share c b refs = (case refs of
     None \<Rightarrow> Inl (ValueError ''HeavyHitter requires ref_queries'')
   | Some rq \<Rightarrow> res_bind (target_t b (seq_len c)) (\<lambda>t0. let n = seq_len c; t = min t0 n in
       select_compact ''heavy_hitter'' (\<lambda>l h.
         res_bind (group_queries (kv_spec c) (rq_layers rq ! l) h) (\<lambda>q.
         res_bind (softmax (logits q (lkey (kv_layers c ! l) ! h) (attn_scale (kv_spec c)))) (\<lambda>a.
           Inr (topk_with_recent argsort (col_sum n a) t n (recent_count recent_share t))))) c))"

definition snapkv :: "(dev list \<Rightarrow> nat list) \<Rightarrow> nat \<Rightarrow> rat \<Rightarrow> vec kvcache \<Rightarrow> compaction_budget \<Rightarrow> vec ref_queries option
    \<Rightarrow> vec compact_cache result" where
  "snapkv argsort window recent_share c b refs = (case refs of
     None \<Rightarrow> Inl (ValueError ''SnapKVLite requires ref_queries'')
   | Some rq \<Rightarrow> res_bind (target_t b (seq_len c)) (\<lambda>t0. let n = seq_len c; t = min t0 n in
       select_compact ''snapkv'' (\<lambda>l h. let qs = rq_layers rq ! l;
             n_ref = (case qs of [] \<Rightarrow> 0 | x # _ \<Rightarrow> length x); w = min n_ref window in
         res_bind (group_queries (kv_spec c) qs h) (\<lambda>_.
         res_bind (group_queries (kv_spec c) (map (drop (n_ref - w)) qs) h) (\<lambda>obs.
         res_bind (softmax (logits obs (lkey (kv_layers c ! l) ! h) (attn_scale (kv_spec c)))) (\<lambda>a.
           Inr (topk_with_recent argsort (col_sum n a) t n (recent_count recent_share t)))))) c))"

definition hex_digit :: "char \<Rightarrow> nat" where
  "hex_digit c = (let k = of_char c in if 97 \<le> k then k - 87 else k - 48)"

text \<open>\<^verbatim>\<open>int(s, 16)\<close> of a lower-case hexadecimal digest.\<close>

definition hex_value :: "string \<Rightarrow> nat" where
  "hex_value s = foldl (\<lambda>v c. 16 * v + hex_digit c) 0 s"

definition random_subset :: "(byte list \<Rightarrow> string) \<Rightarrow> (nat \<Rightarrow> nat \<Rightarrow> nat \<Rightarrow> nat list) \<Rightarrow> 'v kvcache \<Rightarrow> compaction_budget
    \<Rightarrow> 'v compact_cache result" where
  "random_subset H draw c b = res_bind (target_t b (seq_len c)) (\<lambda>t0. let n = seq_len c; t = min t0 n in
     res_bind (case kv_token_ids c of Some ts \<Rightarrow> hash_tokens H ts | None \<Rightarrow> hash_tokens H (kv_positions c)) (\<lambda>hex.
       let seed = hex_value (take 8 hex) in
       select_compact ''random_subset'' (\<lambda>l h. Inr (draw (seed + l * n_kv_heads (kv_spec c) + h) n t)) c))"

section \<open>What a selection keeps\<close>

definition kv_shaped :: "'v kvcache \<Rightarrow> bool" where
  "kv_shaped c \<longleftrightarrow> shaped (kv_spec c) (seq_len c) (kv_layers c)"

text \<open>A compact layer that holds \<open>t\<close> tokens of a full one in every kv-head: original keys, values and
  positions at increasing indices, with zero biases.\<close>

definition keeps_head :: "'v kvcache \<Rightarrow> nat \<Rightarrow> nat \<Rightarrow> nat \<Rightarrow> 'v compact_layer \<Rightarrow> bool" where
  "keeps_head c t l h cl \<longleftrightarrow> (\<exists>S. sorted S \<and> distinct S \<and> set S \<subseteq> {0..<seq_len c} \<and> length S = t \<and>
     ckeys cl ! h = map (\<lambda>i. lkey (kv_layers c ! l) ! h ! i) S \<and>
     cvalues cl ! h = map (\<lambda>i. lval (kv_layers c ! l) ! h ! i) S \<and>
     cbiases cl ! h = replicate t 0 \<and> cpositions cl ! h = map (\<lambda>i. kv_positions c ! i) S)"

definition keeps :: "'v kvcache \<Rightarrow> nat \<Rightarrow> 'v compact_cache \<Rightarrow> bool" where
  "keeps c t cc \<longleftrightarrow> cc_spec cc = kv_spec c \<and> cc_logical cc = seq_len c \<and>
     length (cc_layers cc) = n_layers (kv_spec c) \<and>
     (\<forall>l<n_layers (kv_spec c). length (ckeys (cc_layers cc ! l)) = n_kv_heads (kv_spec c) \<and>
        length (cvalues (cc_layers cc ! l)) = n_kv_heads (kv_spec c) \<and>
        (\<forall>h<n_kv_heads (kv_spec c). keeps_head c t l h (cc_layers cc ! l)))"

definition picks :: "nat \<Rightarrow> nat \<Rightarrow> nat list \<Rightarrow> bool" where
  "picks n t S \<longleftrightarrow> set S \<subseteq> {0..<n} \<and> distinct S \<and> length S = t"

lemma select_keeps:
  assumes "select_compact name pick c = Inr cc" "kv_shaped c"
    and p: "\<And>l h S. pick l h = Inr S \<Longrightarrow> picks (seq_len c) t S"
  shows "keeps c t cc"
proof -
  let ?L = "n_layers (kv_spec c)" and ?H = "n_kv_heads (kv_spec c)"
  obtain layers where ly: "res_map (\<lambda>l. res_bind (res_map (pick l) [0..<?H])
      (\<lambda>sels. Inr (make_layer (lkey (kv_layers c ! l)) (lval (kv_layers c ! l)) (kv_positions c) sels))) [0..<?L] = Inr layers"
    and cc: "cc = \<lparr>cc_spec = kv_spec c, cc_layers = layers, cc_logical = seq_len c, cc_method = name\<rparr>"
    using assms(1) by (auto simp: select_compact_def)
  note n = res_map_nth [OF ly]
  have "length (ckeys (layers ! l)) = ?H \<and> length (cvalues (layers ! l)) = ?H \<and> (\<forall>h<?H. keeps_head c t l h (layers ! l))"
    if l: "l < ?L" for l
  proof -
    obtain sels where s: "res_map (pick l) [0..<?H] = Inr sels"
      "layers ! l = make_layer (lkey (kv_layers c ! l)) (lval (kv_layers c ! l)) (kv_positions c) sels"
      using n(2) [of l] l by auto
    note m = res_map_nth [OF s(1)]
    have d: "length (lkey (kv_layers c ! l)) = ?H" "length (lval (kv_layers c ! l)) = ?H"
      using assms(2) l by (auto simp: kv_shaped_def shaped_def list_all_length)
    have "keeps_head c t l h (layers ! l)" if h: "h < ?H" for h
    proof -
      have "picks (seq_len c) t (sels ! h)" using m(2) [of h] h p by simp
      then show ?thesis using h m(1) d unfolding keeps_head_def s(2)
        by (intro exI [of _ "sort (sels ! h)"]) (simp add: make_layer_def Let_def picks_def)
    qed
    then show ?thesis using d m(1) by (simp add: s(2) make_layer_def Let_def)
  qed
  then show ?thesis using n(1) by (simp add: keeps_def cc)
qed

lemma keepsD:
  assumes "keeps c t cc"
  shows "length (cc_layers cc) = n_layers (kv_spec c)"
    "l < n_layers (kv_spec c) \<Longrightarrow> length (ckeys (cc_layers cc ! l)) = n_kv_heads (kv_spec c)"
    "l < n_layers (kv_spec c) \<Longrightarrow> h < n_kv_heads (kv_spec c) \<Longrightarrow> length (ckeys (cc_layers cc ! l) ! h) = t"
    "cc_logical cc = seq_len c" "cc_spec cc = kv_spec c"
proof -
  show "length (cc_layers cc) = n_layers (kv_spec c)" "cc_logical cc = seq_len c" "cc_spec cc = kv_spec c"
    "l < n_layers (kv_spec c) \<Longrightarrow> length (ckeys (cc_layers cc ! l)) = n_kv_heads (kv_spec c)"
    using assms by (auto simp: keeps_def)
  assume "l < n_layers (kv_spec c)" "h < n_kv_heads (kv_spec c)"
  then have "keeps_head c t l h (cc_layers cc ! l)" using assms by (simp add: keeps_def)
  then show "length (ckeys (cc_layers cc ! l) ! h) = t" by (auto simp: keeps_head_def)
qed

lemma keeps_budget:
  assumes "keeps c t cc" shows "budget cc = n_layers (kv_spec c) * (n_kv_heads (kv_spec c) * t)"
proof -
  have "layer_budget cl = n_kv_heads (kv_spec c) * t" if cl: "cl \<in> set (cc_layers cc)" for cl
  proof -
    obtain l where l: "l < n_layers (kv_spec c)" "cl = cc_layers cc ! l"
      using cl keepsD(1) [OF assms] by (auto simp: in_set_conv_nth)
    have "map length (ckeys cl) = replicate (n_kv_heads (kv_spec c)) t"
      using keepsD(2,3) [OF assms l(1)] l(2) by (auto intro!: nth_equalityI)
    then show ?thesis by (simp add: layer_budget_def sum_list_replicate)
  qed
  then have "map layer_budget (cc_layers cc) = replicate (n_layers (kv_spec c)) (n_kv_heads (kv_spec c) * t)"
    using keepsD(1) [OF assms] by (auto intro!: nth_equalityI)
  then show ?thesis by (simp add: budget_def sum_list_replicate)
qed

lemma target_t_min: "target_t b n = Inr t \<Longrightarrow> cb_min b \<le> t"
  by (auto simp: target_t_def split: option.splits if_splits)

lemma picks_full: "picks n n [0..<n]" and picks_recent: "t \<le> n \<Longrightarrow> picks n t [n - t..<n]"
  by (simp_all add: picks_def)

text \<open>Masking the recent window with minus infinity keeps it out of the top-scoring rest.\<close>

lemma count_masked:
  "k \<le> n \<Longrightarrow> length (filter (\<lambda>i. map (\<lambda>i. if k \<le> i then None else Some (s ! i)) [0..<n] ! i = None) [0..<n]) = n - k"
proof -
  assume "k \<le> n"
  then have "filter (\<lambda>i. map (\<lambda>i. if k \<le> i then None else Some (s ! i)) [0..<n] ! i = None) [0..<n] = [k..<n]"
  proof -
    have "filter (\<lambda>i. map (\<lambda>i. if k \<le> i then None else Some (s ! i)) [0..<n] ! i = None) [0..<n]
      = filter (\<lambda>i. k \<le> i) [0..<n]" by (rule filter_cong) auto
    also have "\<dots> = filter (\<lambda>i. k \<le> i) ([0..<k] @ [k..<n])"
      using \<open>k \<le> n\<close> by (metis le_add_diff_inverse upt_add_eq_append zero_le)
    also have "\<dots> = [k..<n]" by (simp add: filter_id_conv)
    finally show ?thesis .
  qed
  then show ?thesis by simp
qed

lemma sorted_none_prefix:
  assumes "sorted ys" "length (filter (\<lambda>y. y = None) ys) \<le> m" "m \<le> i" "i < length ys"
  shows "ys ! i \<noteq> (None :: 'a::linorder option)"
proof
  assume n: "ys ! i = None"
  have "\<forall>j\<le>i. ys ! j = None" using assms(1,4) n by (metis sorted_nth_mono less_eq_option_None_code less_eq_option_None_is_None is_none_code(1) Option.is_none_def)
  then have "filter (\<lambda>y. y = None) (take (Suc i) ys) = take (Suc i) ys"
    using assms(4) by (auto simp: filter_id_conv in_set_conv_nth)
  then have "Suc i \<le> length (filter (\<lambda>y. y = None) (take (Suc i) ys @ drop (Suc i) ys))"
    using assms(4) by (metis filter_append le_add1 length_append length_take min_absorb2 Suc_leI)
  then show False using assms(2,3) by simp
qed

lemma topk_picks:
  assumes "argsort_ok f" "t \<le> n"
  shows "picks n t (topk_with_recent f s t n r)"
proof -
  define k where "k = n - min (min r t) n"
  define m where "m = map (\<lambda>i. if k \<le> i then None else Some (s ! i)) [0..<n]"
  have rk: "min (min r t) n = n - k" "k \<le> n" "n - k \<le> t" by (auto simp: k_def)
  then have nt: "n - k = t \<longrightarrow> n - t = k" by auto
  note a = argsort_set [OF assms(1), of m]
  have lm: "length m = n" by (simp add: m_def)
  have srt: "sorted (map (\<lambda>i. m ! i) (f m))" and ms: "mset (f m) = mset [0..<n]"
    using assms(1) lm by (auto simp: argsort_ok_def)
  have "length (filter (\<lambda>y. y = None) (map (\<lambda>i. m ! i) (f m))) = length (filter (\<lambda>i. m ! i = None) (f m))"
    by (simp add: filter_map o_def)
  also have "\<dots> = length (filter (\<lambda>i. m ! i = None) [0..<n])" using ms by (metis mset_filter size_mset)
  also have "\<dots> = n - k" unfolding m_def by (rule count_masked [OF rk(2)])
  finally have cnt: "length (filter (\<lambda>y. y = None) (map (\<lambda>i. m ! i) (f m))) \<le> n - k" by simp
  define ex where "ex = take (t - (n - k)) (rev (f m))"
  have ex: "set ex \<subseteq> {0..<k}" "distinct ex" "length ex = t - (n - k)"
  proof -
    show "distinct ex" "length ex = t - (n - k)" using a lm assms(2) by (auto simp: ex_def)
    show "set ex \<subseteq> {0..<k}"
    proof
      fix x assume "x \<in> set ex"
      then obtain j where j: "j < t - (n - k)" "x = rev (f m) ! j" using a lm assms(2)
        by (auto simp: ex_def in_set_conv_nth)
      define i where "i = n - Suc j"
      have i: "x = f m ! i" "n - k \<le> i" "i < n" using j a lm assms(2) by (auto simp: i_def rev_nth)
      have "map (\<lambda>i. m ! i) (f m) ! i \<noteq> None"
        by (rule sorted_none_prefix [OF srt cnt i(2)]) (use a lm i in simp)
      moreover have "x < n" using a lm i by (metis atLeastLessThan_iff nth_mem)
      ultimately show "x \<in> {0..<k}" using i a lm by (auto simp: m_def split: if_splits)
    qed
  qed
  have "topk_with_recent f s t n r = sort (remdups ([k..<n] @ ex))"
    using rk nt by (simp add: topk_with_recent_def Let_def m_def [symmetric] ex_def k_def [symmetric])
  moreover have "distinct ([k..<n] @ ex)" using ex(1,2) by auto
  moreover have "length ([k..<n] @ ex) = t" using ex(3) rk by simp
  ultimately show ?thesis using ex(1) rk(2) unfolding picks_def
    by (simp only: length_sort distinct_remdups_id distinct_sort set_sort) auto
qed

definition draw_ok :: "(nat \<Rightarrow> nat \<Rightarrow> nat \<Rightarrow> nat list) \<Rightarrow> bool" where
  "draw_ok draw \<longleftrightarrow> (\<forall>seed n t. t \<le> n \<longrightarrow> picks n t (draw seed n t))"

text \<open>The baselines of the registry.\<close>

datatype baseline = BFull | BRecent | BHeavy rat | BSnap nat rat | BRandom

fun run_baseline :: "(dev list \<Rightarrow> nat list) \<Rightarrow> (byte list \<Rightarrow> string) \<Rightarrow> (nat \<Rightarrow> nat \<Rightarrow> nat \<Rightarrow> nat list) \<Rightarrow> baseline
    \<Rightarrow> vec kvcache \<Rightarrow> compaction_budget \<Rightarrow> vec ref_queries option \<Rightarrow> vec compact_cache result" where
  "run_baseline f H draw BFull c b rq = full_kv c"
| "run_baseline f H draw BRecent c b rq = recent_window c b"
| "run_baseline f H draw (BHeavy r) c b rq = heavy_hitter f r c b rq"
| "run_baseline f H draw (BSnap w r) c b rq = snapkv f w r c b rq"
| "run_baseline f H draw BRandom c b rq = random_subset H draw c b"

lemma heavy_hitter_picks:
  assumes "argsort_ok f" "heavy_hitter f r c b rq = Inr cc"
  shows "\<exists>t pick. target_t b (seq_len c) = Inr t \<and> select_compact ''heavy_hitter'' pick c = Inr cc \<and>
    (\<forall>l h S. pick l h = Inr S \<longrightarrow> picks (seq_len c) (min t (seq_len c)) S)"
  using assms(2)
  by (cases rq) (auto simp: heavy_hitter_def Let_def, intro exI conjI, assumption, auto intro: topk_picks [OF assms(1)])

lemma snapkv_picks:
  assumes "argsort_ok f" "snapkv f w r c b rq = Inr cc"
  shows "\<exists>t pick. target_t b (seq_len c) = Inr t \<and> select_compact ''snapkv'' pick c = Inr cc \<and>
    (\<forall>l h S. pick l h = Inr S \<longrightarrow> picks (seq_len c) (min t (seq_len c)) S)"
  using assms(2)
  by (cases rq) (auto simp: snapkv_def Let_def, intro exI conjI, assumption, auto intro: topk_picks [OF assms(1)])

lemma baseline_keeps:
  assumes "run_baseline f H draw bl c b rq = Inr cc" "kv_shaped c" "argsort_ok f" "draw_ok draw"
  shows "if bl = BFull then keeps c (seq_len c) cc
    else \<exists>t. target_t b (seq_len c) = Inr t \<and> keeps c (min t (seq_len c)) cc"
proof (cases bl)
  case BFull
  then show ?thesis using assms(1) by (auto simp: full_kv_def picks_full intro!: select_keeps [OF _ assms(2)])
next
  case BRecent
  then obtain t where t: "target_t b (seq_len c) = Inr t"
    "select_compact ''recent_window'' (\<lambda>l h. Inr [seq_len c - min t (seq_len c)..<seq_len c]) c = Inr cc"
    using assms(1) by (auto simp: recent_window_def Let_def)
  then show ?thesis using BRecent select_keeps [OF t(2) assms(2)] picks_recent by auto
next
  case (BHeavy r)
  then obtain t pick where t: "target_t b (seq_len c) = Inr t" "select_compact ''heavy_hitter'' pick c = Inr cc"
    "\<And>l h S. pick l h = Inr S \<Longrightarrow> picks (seq_len c) (min t (seq_len c)) S"
    using heavy_hitter_picks [OF assms(3)] assms(1) by (metis run_baseline.simps(3))
  then show ?thesis using BHeavy select_keeps [OF t(2) assms(2) t(3)] by auto
next
  case (BSnap w r)
  then obtain t pick where t: "target_t b (seq_len c) = Inr t" "select_compact ''snapkv'' pick c = Inr cc"
    "\<And>l h S. pick l h = Inr S \<Longrightarrow> picks (seq_len c) (min t (seq_len c)) S"
    using snapkv_picks [OF assms(3)] assms(1) by (metis run_baseline.simps(4))
  then show ?thesis using BSnap select_keeps [OF t(2) assms(2) t(3)] by auto
next
  case BRandom
  then obtain t seed where t: "target_t b (seq_len c) = Inr t" "select_compact ''random_subset''
      (\<lambda>l h. Inr (draw (seed + l * n_kv_heads (kv_spec c) + h) (seq_len c) (min t (seq_len c)))) c = Inr cc"
    using assms(1) by (auto simp: random_subset_def Let_def split: option.splits)
  have "picks (seq_len c) (min t (seq_len c)) S"
    if "Inr (draw (seed + l * n_kv_heads (kv_spec c) + h) (seq_len c) (min t (seq_len c))) = (Inr S :: nat list result)" for l h S
    using that assms(4) by (auto simp: draw_ok_def)
  from select_keeps [OF t(2) assms(2) this] t(1) BRandom show ?thesis by auto
qed

text \<open>C20. Every selection baseline delivers the contract compaction is benchmarked under: the compact
  cache holds, in every layer and kv-head, original keys, values and positions of the full cache at
  increasing distinct indices with zero biases, as many as the budget asks for and the sequence has
  (all of them for FullKV), and its physical budget is that number times the layers and heads.\<close>

theorem baselines_select:
  assumes "run_baseline f H draw bl c b rq = Inr cc" "kv_shaped c" "argsort_ok f" "draw_ok draw"
  shows "\<exists>t. keeps c t cc \<and> budget cc = n_layers (kv_spec c) * (n_kv_heads (kv_spec c) * t) \<and> t \<le> seq_len c \<and>
    (if bl = BFull then t = seq_len c else \<exists>u. target_t b (seq_len c) = Inr u \<and> t = min u (seq_len c))"
  using baseline_keeps [OF assms] keeps_budget by (auto split: if_splits)

lemma select_total: "(\<And>l h. \<exists>S. pick l h = Inr S) \<Longrightarrow> \<exists>cc. select_compact name pick c = Inr cc"
proof -
  assume p: "\<And>l h. \<exists>S. pick l h = Inr S"
  have i: "\<exists>ss. res_map (pick l) hs = Inr ss" for l hs by (rule res_map_total) (rule p)
  have "\<exists>ls. res_map (\<lambda>l. res_bind (res_map (pick l) [0..<n_kv_heads (kv_spec c)])
      (\<lambda>sels. Inr (make_layer (lkey (kv_layers c ! l)) (lval (kv_layers c ! l)) (kv_positions c) sels)))
      [0..<n_layers (kv_spec c)] = Inr ls"
    by (rule res_map_total) (use i in auto)
  then show ?thesis by (auto simp: select_compact_def)
qed

lemma recent_total: "target_t b (seq_len c) = Inr t \<Longrightarrow> \<exists>cc. recent_window c b = Inr cc"
  using select_total [of "\<lambda>l h. Inr [seq_len c - min t (seq_len c)..<seq_len c]"]
  by (simp add: recent_window_def Let_def)

lemma fake_kv_shaped: "kv_shaped (fake_prefill sp vec ts off)"
  using fake_layers_shaped [of sp ts vec] by (simp add: kv_shaped_def fake_prefill_def seq_len_def)

lemma kv_spec_fake [simp]: "kv_spec (fake_prefill sp vec ts off) = sp"
  by (simp add: fake_prefill_def)

abbreviation "demo_cache \<equiv> fake_prefill tiny_spec real_vec [3, 4, 5] 0"

abbreviation "demo_budget n \<equiv> \<lparr>cb_ratio = None, cb_tokens = Some n, cb_min = Suc 0\<rparr>"

lemma first_draw_ok: "draw_ok (\<lambda>seed n t. [0..<t])"
  by (simp add: draw_ok_def picks_def)

theorem baselines_select_witness:
  "\<exists>cc t. run_baseline demo_argsort demo_hash (\<lambda>seed n t. [0..<t]) BRecent demo_cache (demo_budget 2) None = Inr cc \<and>
    keeps demo_cache t cc \<and> budget cc = 2 \<and> t = 2"
proof -
  obtain cc where cc: "run_baseline demo_argsort demo_hash (\<lambda>seed n t. [0..<t]) BRecent demo_cache (demo_budget 2) None = Inr cc"
    using recent_total [of "demo_budget 2" demo_cache] by (auto simp: target_t_def)
  have n: "seq_len demo_cache = 3" by (simp add: fake_prefill_def seq_len_def)
  obtain t where t: "keeps demo_cache t cc" "budget cc = n_layers (kv_spec demo_cache) * (n_kv_heads (kv_spec demo_cache) * t)"
    "\<exists>u. target_t (demo_budget 2) (seq_len demo_cache) = Inr u \<and> t = min u (seq_len demo_cache)"
    using baselines_select [OF cc fake_kv_shaped demo_argsort_ok first_draw_ok] by auto
  have "t = 2" using t(3) n by (simp add: target_t_def)
  then show ?thesis using t(1,2) cc by (intro exI [of _ cc] exI [of _ t]) simp
qed

section \<open>FullKV is exact\<close>

lemma all_indices: "sorted S \<Longrightarrow> distinct S \<Longrightarrow> set S \<subseteq> {0..<n} \<Longrightarrow> length S = n \<Longrightarrow> S = [0..<n]"
proof -
  assume s: "sorted S" "distinct S" "set S \<subseteq> {0..<n}" "length S = n"
  have "set S = {0..<n}" by (rule card_subset_eq) (use s in \<open>auto simp: distinct_card\<close>)
  then show ?thesis using s by (intro sorted_distinct_set_unique) auto
qed

lemma map2_add_zero: "map2 (+) row (replicate (length row) 0) = (row :: real list)"
  by (induction row) auto

lemma attn_head_zero_bias:
  "length k = n \<Longrightarrow> attn_head d scale q k v (replicate n 0) = attn_head_raw d scale q k v"
proof -
  assume n: "length k = n"
  have "map (\<lambda>row. map2 (+) row (replicate n 0)) (logits q k scale) = logits q k scale"
    using n by (auto simp: logits_def intro!: map_idI) (metis length_map map2_add_zero)
  then show ?thesis by (simp add: attn_head_def attn_head_raw_def)
qed

lemma res_map_cong: "(\<And>x. x \<in> set xs \<Longrightarrow> f x = g x) \<Longrightarrow> res_map f xs = res_map g xs"
  by (induction xs) auto

lemma full_kv_outputs:
  assumes "full_kv c = Inr cc" "kv_shaped c" "n_kv_heads (kv_spec c) dvd n_q_heads (kv_spec c)"
  shows "attention_outputs (kv_spec c) (Compact cc) qs = attention_outputs (kv_spec c) (Raw c) qs"
  unfolding attention_outputs_def
proof (intro res_map_cong)
  fix l qh assume "l \<in> set [0..<n_layers (kv_spec c)]" "qh \<in> set [0..<n_q_heads (kv_spec c)]"
  then have l: "l < n_layers (kv_spec c)" and q: "0 < n_q_heads (kv_spec c)" "qh < n_q_heads (kv_spec c)" by auto
  obtain h where h: "kv_head_of (kv_spec c) qh = Inr h" "h < n_kv_heads (kv_spec c)"
    using kv_head_of_bound [OF assms(3) q] by blast
  have k: "keeps c (seq_len c) cc"
    using assms(1) by (auto simp: full_kv_def picks_full intro!: select_keeps [OF _ assms(2)])
  then obtain S where S: "S = [0..<seq_len c]" "ckeys (cc_layers cc ! l) ! h = map (\<lambda>i. lkey (kv_layers c ! l) ! h ! i) S"
    "cvalues (cc_layers cc ! l) ! h = map (\<lambda>i. lval (kv_layers c ! l) ! h ! i) S"
    "cbiases (cc_layers cc ! l) ! h = replicate (seq_len c) 0"
    using l h(2) all_indices unfolding keeps_def keeps_head_def by metis
  have d: "length (lkey (kv_layers c ! l) ! h) = seq_len c" "length (lval (kv_layers c ! l) ! h) = seq_len c"
    using shapedD [OF assms(2) [unfolded kv_shaped_def] l h(2)] by simp_all
  have "ckeys (cc_layers cc ! l) ! h = lkey (kv_layers c ! l) ! h" "cvalues (cc_layers cc ! l) ! h = lval (kv_layers c ! l) ! h"
    using S d by (metis map_nth)+
  then show "res_bind (kv_head_of (kv_spec c) qh) (\<lambda>h. let q = rq_layers qs ! l ! qh in case Compact cc of
      Raw kv \<Rightarrow> attn_head_raw (head_dim (kv_spec c)) (attn_scale (kv_spec c)) q (lkey (kv_layers kv ! l) ! h) (lval (kv_layers kv ! l) ! h)
    | Compact cc \<Rightarrow> attn_head (head_dim (kv_spec c)) (attn_scale (kv_spec c)) q (ckeys (cc_layers cc ! l) ! h)
        (cvalues (cc_layers cc ! l) ! h) (cbiases (cc_layers cc ! l) ! h)) =
    res_bind (kv_head_of (kv_spec c) qh) (\<lambda>h. let q = rq_layers qs ! l ! qh in case Raw c of
      Raw kv \<Rightarrow> attn_head_raw (head_dim (kv_spec c)) (attn_scale (kv_spec c)) q (lkey (kv_layers kv ! l) ! h) (lval (kv_layers kv ! l) ! h)
    | Compact cc \<Rightarrow> attn_head (head_dim (kv_spec c)) (attn_scale (kv_spec c)) q (ckeys (cc_layers cc ! l) ! h)
        (cvalues (cc_layers cc ! l) ! h) (cbiases (cc_layers cc ! l) ! h))"
    using S(4) d by (simp add: h(1) attn_head_zero_bias map_replicate)
qed

text \<open>Keeping every token is no compaction: over the FullKV cache, whose biases are all zero, every
  query head's attention output is that over the raw cache, for any queries.\<close>

theorem full_kv_exact:
  assumes "full_kv c = Inr cc" "kv_shaped c" "n_kv_heads (kv_spec c) dvd n_q_heads (kv_spec c)"
  shows "attention_outputs (kv_spec c) (Compact cc) qs = attention_outputs (kv_spec c) (Raw c) qs"
  by (rule full_kv_outputs [OF assms])

theorem full_kv_exact_witness:
  "\<exists>cc. full_kv demo_cache = Inr cc \<and>
    attention_outputs tiny_spec (Compact cc) \<lparr>rq_spec = tiny_spec, rq_layers = [[[[2]]]]\<rparr> =
    attention_outputs tiny_spec (Raw demo_cache) \<lparr>rq_spec = tiny_spec, rq_layers = [[[[2]]]]\<rparr>"
proof -
  obtain cc where cc: "full_kv demo_cache = Inr cc" using select_total [of "\<lambda>l h. Inr [0..<seq_len demo_cache]"] by (auto simp: full_kv_def)
  show ?thesis using full_kv_exact [OF cc fake_kv_shaped] cc by simp
qed

text \<open>Softmax weights are positive and, over rows whose mass is not tiny, sum to one.\<close>

lemma softmax_row_sum:
  assumes "z \<noteq> []" "eps \<le> 1" shows "sum_list (softmax_row eps z) = 1" "\<forall>x\<in>set (softmax_row eps z). 0 < x"
proof -
  define e where "e = map (\<lambda>x. exp (x - Max (set z))) z"
  have pos: "\<forall>x\<in>set e. 0 < x" by (auto simp: e_def)
  have "Max (set z) \<in> set z" using assms(1) by simp
  then have "1 \<in> set e" by (auto simp: e_def intro!: image_eqI [of _ _ "Max (set z)"])
  then have "1 \<le> sum_list e" using pos by (intro member_le_sum_list) (auto intro: less_imp_le)
  then have s: "max (sum_list e) eps = sum_list e" "0 < sum_list e" using assms(2) by auto
  have r: "softmax_row eps z = map (\<lambda>x. x / sum_list e) e"
    unfolding softmax_row_def Let_def e_def [symmetric] s(1) ..
  have "sum_list (map (\<lambda>x. x / sum_list e) e) = sum_list e / sum_list e" for e :: "real list"
    by (simp add: sum_list_mult_const divide_inverse)
  then show "sum_list (softmax_row eps z) = 1" using s(2) by (simp add: r)
  show "\<forall>x\<in>set (softmax_row eps z). 0 < x" using pos s(2) by (auto simp: r)
qed

end
