(* ===== verification/AttnMatching.thy ===== *)
theory AttnMatching imports Compaction begin

text \<open>
  \<^verbatim>\<open>dexa/compaction/attention_matching.py\<close>: the flagship compactor. Numerical solvers are parameters:
  \<open>nnls a b k\<close> is \<^verbatim>\<open>scipy.optimize.nnls(a, b, maxiter=k)\<close> with \<open>None\<close> for its
  \<^verbatim>\<open>RuntimeError\<close>, \<open>lstsq\<close> and \<open>solve\<close> the numpy routines. Matrices are lists of rows over the reals.
  What is proved is what the selection and the budget promise, whatever the solvers return.
\<close>

section \<open>Configuration and numerics\<close>

record am_config =
  am_selection :: string
  am_alloc :: string
  am_ridge :: real
  am_train :: rat
  am_mass :: rat
  am_recent :: rat

definition new_am :: "string \<Rightarrow> string \<Rightarrow> real \<Rightarrow> rat \<Rightarrow> rat \<Rightarrow> rat \<Rightarrow> am_config result" where
  "new_am selection alloc ridge train mass recent =
    (if selection \<notin> {''highest_attention'', ''omp''} then Inl (ValueError ''unknown key_selection'')
     else if alloc \<notin> {''uniform'', ''sensitivity''} then Inl (ValueError ''unknown budget_alloc'')
     else if ridge < 0 then Inl (ValueError ''value_ridge must be >= 0'')
     else if \<not> (0 < train \<and> train \<le> 1) then Inl (ValueError ''value_train_frac must be in (0, 1]'')
     else if \<not> (0 \<le> mass \<and> mass \<le> 1) then Inl (ValueError ''mass_frac must be in [0, 1]'')
     else if \<not> (0 \<le> recent \<and> recent \<le> 1) then Inl (ValueError ''recent_frac must be in [0, 1]'')
     else Inr \<lparr>am_selection = selection, am_alloc = alloc, am_ridge = ridge, am_train = train,
       am_mass = mass, am_recent = recent\<rparr>)"

record solvers =
  s_nnls :: "vec list \<Rightarrow> vec \<Rightarrow> nat \<Rightarrow> vec option"
  s_lstsq :: "vec list \<Rightarrow> vec \<Rightarrow> vec"
  s_solve :: "vec list \<Rightarrow> vec list \<Rightarrow> vec list"
  s_argsort :: "dev list \<Rightarrow> nat list"

definition n_cols :: "vec list \<Rightarrow> nat" where
  "n_cols a = (case a of [] \<Rightarrow> 0 | r # _ \<Rightarrow> length r)"

definition nnls_robust :: "solvers \<Rightarrow> vec list \<Rightarrow> vec \<Rightarrow> vec" where
  "nnls_robust sv a b = (case s_nnls sv a b (max 50 (20 * n_cols a)) of Some w \<Rightarrow> w
     | None \<Rightarrow> map (max 0) (s_lstsq sv a b))"

text \<open>RMS attention probability of every key over the reference queries.\<close>

definition rms_importance :: "nat \<Rightarrow> vec list \<Rightarrow> vec" where
  "rms_importance n a = map (\<lambda>j. sqrt (sum_list (map (\<lambda>row. (row ! j)\<^sup>2) a) / real (length a))) [0..<n]"

definition descending :: "(dev list \<Rightarrow> nat list) \<Rightarrow> vec \<Rightarrow> nat list" where
  "descending argsort x = rev (argsort (map Some x))"

section \<open>Step 0: the budget of each head\<close>

definition allocate_budget :: "am_config \<Rightarrow> vec list list \<Rightarrow> vec list list \<Rightarrow> nat \<Rightarrow> nat \<Rightarrow> nat \<Rightarrow> real \<Rightarrow> nat list result" where
  "allocate_budget cf qs k_all t n min_t0 scale = (let n_kv = length qs in
     if am_alloc cf = ''uniform'' \<or> n \<le> t then Inr (replicate n_kv t)
     else let total = t * n_kv; min_t = max 1 (min min_t0 t) in
       res_bind (res_map (\<lambda>h. res_bind (softmax (logits (qs ! h) (k_all ! h) scale))
           (\<lambda>a. Inr (rev (sort (rms_importance n a))))) [0..<n_kv]) (\<lambda>imp.
         if total \<le> min_t * n_kv then Inr (map (\<lambda>a. min a n) (replicate n_kv min_t))
         else let remaining = total - min_t * n_kv;
             cands = sort_key (\<lambda>x. - fst x) (concat (map (\<lambda>h. map (\<lambda>r. (imp ! h ! r, h)) [min_t..<n]) [0..<n_kv]));
             alloc = foldl (\<lambda>al x. al[snd x := al ! snd x + 1]) (replicate n_kv min_t) (take remaining cands) in
           Inr (map (\<lambda>a. min a n) alloc)))"

section \<open>Step 1: key selection\<close>

text \<open>The closure \<^verbatim>\<open>take\<close>: walk the order, adding unseen indices while some are still wanted.\<close>

fun take_unseen :: "nat list \<Rightarrow> nat \<Rightarrow> nat list \<Rightarrow> nat list" where
  "take_unseen [] k chosen = chosen"
| "take_unseen (i # order) k chosen = (if k = 0 then chosen
     else if i \<in> set chosen then take_unseen order k chosen
     else take_unseen order (k - 1) (chosen @ [i]))"

definition select_hybrid :: "solvers \<Rightarrow> am_config \<Rightarrow> vec list \<Rightarrow> nat \<Rightarrow> nat \<Rightarrow> nat list result" where
  "select_hybrid sv cf l t n = res_bind (softmax l) (\<lambda>a.
     let importance = rms_importance n a; mass = col_sum n a;
         n_recent = min (nat (py_round (am_recent cf * rat_of_nat t))) t;
         n_mass = min (nat (py_round (am_mass cf * rat_of_nat t))) (t - n_recent);
         c1 = take_unseen (rev [0..<n]) n_recent [];
         c2 = take_unseen (descending (s_argsort sv) mass) n_mass c1 in
     Inr (take_unseen (descending (s_argsort sv) importance) (t - length c2) c2))"

definition select_highest_attention :: "solvers \<Rightarrow> vec list \<Rightarrow> nat \<Rightarrow> nat list result" where
  "select_highest_attention sv l n = res_bind (softmax l) (\<lambda>a. Inr (descending (s_argsort sv) (rms_importance n a)))"

definition argmax :: "dev list \<Rightarrow> nat" where
  "argmax xs = length (takeWhile (\<lambda>x. x \<noteq> Max (set xs)) xs)"

definition mat_vec :: "vec list \<Rightarrow> vec \<Rightarrow> vec" where
  "mat_vec a w = map (\<lambda>row. dot row w) a"

text \<open>One round of the greedy pursuit over \<open>phi\<close>: the selected columns and the residual.\<close>

fun omp_loop :: "solvers \<Rightarrow> nat \<Rightarrow> vec list \<Rightarrow> vec \<Rightarrow> vec \<Rightarrow> nat \<Rightarrow> nat list \<Rightarrow> vec \<Rightarrow> nat list" where
  "omp_loop sv n phi m norms 0 sel residual = sel"
| "omp_loop sv n phi m norms (Suc k) sel residual =
    (let corr = map (\<lambda>j. if j \<in> set sel then None
           else Some (\<bar>sum_list (map2 (\<lambda>row r. row ! j * r) phi residual)\<bar> / norms ! j)) [0..<n];
         sel' = sel @ [argmax corr];
         a = map (\<lambda>row. map (\<lambda>j. row ! j) sel') phi;
         w = nnls_robust sv a m in
     omp_loop sv n phi m norms k sel' (map2 (-) m (mat_vec a w)))"

definition select_omp :: "solvers \<Rightarrow> vec list \<Rightarrow> nat \<Rightarrow> nat \<Rightarrow> nat list" where
  "select_omp sv l t n = (let phi = map (\<lambda>row. map (\<lambda>x. exp (x - Max (set row))) row) l;
     m = map sum_list phi;
     norms = map (\<lambda>j. sqrt (sum_list (map (\<lambda>row. (row ! j)\<^sup>2) phi)) + 1 / 10 ^ 12) [0..<n] in
     omp_loop sv n phi m norms (min t n) [] m)"

section \<open>Steps 2 and 3: biases and values\<close>

definition fit_bias :: "solvers \<Rightarrow> vec list \<Rightarrow> vec list \<Rightarrow> vec list \<Rightarrow> real \<Rightarrow> vec" where
  "fit_bias sv q ck full scale = (let c = map (\<lambda>row. Max (set row)) full;
     a = map2 (\<lambda>row m. map (\<lambda>x. exp (x - m)) row) (logits q ck scale) c;
     m = map2 (\<lambda>row x. sum_list (map (\<lambda>y. exp (y - x)) row)) full c in
     map (\<lambda>w. ln (max w (1 / 10 ^ 9))) (nnls_robust sv a m))"

definition transpose_mul :: "nat \<Rightarrow> vec list \<Rightarrow> nat \<Rightarrow> vec list \<Rightarrow> vec list" where
  "transpose_mul n x d y = map (\<lambda>i. map (\<lambda>j. sum_list (map2 (\<lambda>a b. a ! i * b ! j) x y)) [0..<d]) [0..<n]"

definition solve_value_map :: "solvers \<Rightarrow> am_config \<Rightarrow> nat \<Rightarrow> nat \<Rightarrow> vec list \<Rightarrow> vec list \<Rightarrow> vec list" where
  "solve_value_map sv cf n d x y = (let xtx = transpose_mul n x n x;
     lam = (if am_ridge cf > 0 then am_ridge cf
       else 1 / 10 ^ 6 * (sum_list (map (\<lambda>i. xtx ! i ! i) [0..<n]) / real (max n 1)) + 1 / 10 ^ 12);
     xr = map (\<lambda>i. map (\<lambda>j. xtx ! i ! j + (if i = j then lam else 0)) [0..<n]) [0..<n] in
     s_solve sv xr (transpose_mul n x d y))"

definition clip :: "real \<Rightarrow> real \<Rightarrow> real \<Rightarrow> real" where
  "clip lo hi x = min (max x lo) hi"

definition fit_values :: "solvers \<Rightarrow> am_config \<Rightarrow> nat \<Rightarrow> vec list \<Rightarrow> vec list \<Rightarrow> vec list \<Rightarrow> vec list \<Rightarrow> vec \<Rightarrow> real
    \<Rightarrow> vec list result" where
  "fit_values sv cf d q ck k v beta scale =
     res_bind (softmax (map (\<lambda>row. map2 (+) row beta) (logits q ck scale))) (\<lambda>x0.
     res_bind (softmax (logits q k scale)) (\<lambda>w.
       let y0 = map (\<lambda>row. weighted d row v) w;
           idx = linspace_idx (length x0) (max (length ck) (nat (py_round (am_train cf * rat_of_nat (length x0)))));
           sub = am_train cf < 1 \<and> length ck < length x0;
           x = (if sub then map (\<lambda>i. x0 ! i) idx else x0);
           y = (if sub then map (\<lambda>i. y0 ! i) idx else y0);
           t = n_cols x;
           live = filter (\<lambda>j. sum_list (map (\<lambda>row. row ! j) x) > 1 / 10 ^ 6 * real (length x)) [0..<t];
           fitted = (if live \<noteq> [] then solve_value_map sv cf (length live) d (map (\<lambda>row. map (\<lambda>j. row ! j) live) x) y else []);
           lo = map (\<lambda>j. Min ((\<lambda>r. r ! j) ` set v)) [0..<d];
           hi = map (\<lambda>j. Max ((\<lambda>r. r ! j) ` set v)) [0..<d] in
       Inr (map (\<lambda>j. case map_of (zip live fitted) j of Some r \<Rightarrow> r
                | None \<Rightarrow> map2 (\<lambda>l h. clip l h 0) lo hi) [0..<t])))"

section \<open>Compaction\<close>

record head_fit =
  hf_keys :: "vec list"
  hf_vals :: "vec list"
  hf_beta :: vec
  hf_idx :: "nat list"

definition fit_head :: "solvers \<Rightarrow> am_config \<Rightarrow> nat \<Rightarrow> vec list \<Rightarrow> vec list \<Rightarrow> vec list \<Rightarrow> nat \<Rightarrow> real \<Rightarrow> head_fit result" where
  "fit_head sv cf d q k v t scale = (let n = length k in
     if n \<le> t then Inr \<lparr>hf_keys = k, hf_vals = v, hf_beta = replicate n 0, hf_idx = [0..<n]\<rparr>
     else let full = logits q k scale in
       res_bind (if am_mass cf > 0 \<or> am_recent cf > 0 then select_hybrid sv cf full t n
         else if am_selection cf = ''omp'' then Inr (select_omp sv full t n)
         else res_bind (select_highest_attention sv full n) (\<lambda>order. Inr (take t order))) (\<lambda>s0.
       let s = sort s0; ck = map (\<lambda>i. k ! i) s; beta = fit_bias sv q ck full scale in
       res_bind (fit_values sv cf d q ck k v beta scale) (\<lambda>cv.
         Inr \<lparr>hf_keys = ck, hf_vals = cv, hf_beta = beta, hf_idx = s\<rparr>)))"

definition am_layer :: "solvers \<Rightarrow> am_config \<Rightarrow> vec kvcache \<Rightarrow> vec ref_queries \<Rightarrow> nat \<Rightarrow> nat \<Rightarrow> nat \<Rightarrow> vec compact_layer result" where
  "am_layer sv cf c rq t min_t l = (let sp = kv_spec c; k_all = lkey (kv_layers c ! l); v_all = lval (kv_layers c ! l) in
     res_bind (res_map (group_queries sp (rq_layers rq ! l)) [0..<n_kv_heads sp]) (\<lambda>qs.
     res_bind (allocate_budget cf qs k_all t (seq_len c) min_t (attn_scale sp)) (\<lambda>ts.
     res_bind (res_map (\<lambda>h. fit_head sv cf (head_dim sp) (qs ! h) (k_all ! h) (v_all ! h) (ts ! h) (attn_scale sp))
       [0..<n_kv_heads sp]) (\<lambda>fits.
     Inr \<lparr>ckeys = map hf_keys fits, cvalues = map hf_vals fits, cbiases = map hf_beta fits,
       cpositions = map (\<lambda>f. map (\<lambda>i. kv_positions c ! i) (hf_idx f)) fits\<rparr>))))"

definition attention_matching :: "solvers \<Rightarrow> am_config \<Rightarrow> vec kvcache \<Rightarrow> compaction_budget \<Rightarrow> vec ref_queries option
    \<Rightarrow> vec compact_cache result" where
  "attention_matching sv cf c b refs = (case refs of
     None \<Rightarrow> Inl (ValueError ''AttentionMatching requires ref_queries'')
   | Some rq \<Rightarrow> res_bind (target_t b (seq_len c)) (\<lambda>t0. let n = seq_len c; t = min t0 n; min_t = min (cb_min b) n in
       res_bind (res_map (am_layer sv cf c rq t min_t) [0..<n_layers (kv_spec c)]) (\<lambda>layers.
         Inr \<lparr>cc_spec = kv_spec c, cc_layers = layers, cc_logical = n, cc_method = ''attention_matching''\<rparr>)))"

section \<open>The registry\<close>

datatype compactor = AM am_config | Base baseline

definition build_compactor :: "string \<Rightarrow> compactor result" where
  "build_compactor name =
    (if name = ''attention_matching'' then
       res_bind (new_am ''highest_attention'' ''uniform'' 0 1 0 0) (\<lambda>cf. Inr (AM cf))
     else if name = ''full_kv'' then Inr (Base BFull)
     else if name = ''recent_window'' then Inr (Base BRecent)
     else if name = ''heavy_hitter'' then Inr (Base (BHeavy (1/5)))
     else if name = ''snapkv'' then Inr (Base (BSnap 32 (1/5)))
     else if name = ''random_subset'' then Inr (Base BRandom)
     else Inl (ValueError ''unknown compactor''))"

section \<open>Budgets\<close>

lemma sum_list_incr:
  "i < length al \<Longrightarrow> sum_list (al[i := Suc (al ! i)]) = Suc (sum_list al)"
  by (induction al arbitrary: i) (auto split: nat.split)

lemma foldl_incr:
  assumes "\<forall>x\<in>set xs. snd x < length al"
  shows "length (foldl (\<lambda>al x. al[snd x := al ! snd x + 1]) al xs) = length al"
    "sum_list (foldl (\<lambda>al x. al[snd x := al ! snd x + (1 :: nat)]) al xs) = sum_list al + length xs"
    "h < length al \<Longrightarrow> foldl (\<lambda>al x. al[snd x := al ! snd x + 1]) al xs ! h = al ! h + length (filter (\<lambda>x. snd x = h) xs)"
  using assms by (induction xs arbitrary: al) (auto simp: sum_list_incr nth_list_update)

lemma length_filter_concat_heads:
  "h < m \<Longrightarrow> length (filter (\<lambda>x. snd x = h) (concat (map (\<lambda>h. map (\<lambda>r. (g h r, h)) [a..<n]) [0..<m]))) = n - a"
proof (induction m)
  case (Suc m)
  show ?case
  proof (cases "h = m")
    case True
    have "filter (\<lambda>x. snd x = m) (concat (map (\<lambda>h. map (\<lambda>r. (g h r, h)) [a..<n]) [0..<m])) = []"
      by (auto simp: filter_empty_conv)
    then show ?thesis using True by (simp add: filter_map o_def)
  next
    case False
    then show ?thesis using Suc by (simp add: filter_map o_def)
  qed
qed simp

lemma length_concat_heads:
  "length (concat (map (\<lambda>h. map (\<lambda>r. (g h r, h)) [a..<n]) [0..<m])) = m * (n - a)"
  by (induction m) auto

lemma filter_take_le: "length (filter P (take k xs)) \<le> length (filter P xs)"
  by (metis append_take_drop_id filter_append le_add1 length_append)

lemma sum_list_cap: "\<forall>a\<in>set xs. a \<le> n \<Longrightarrow> map (\<lambda>a. min a n) xs = xs"
  by (induction xs) (auto simp: min_absorb1)

lemma allocate_spec:
  assumes "allocate_budget cf qs k t n m scale = Inr ts" "t \<le> n" "0 < t"
  shows "length ts = length qs \<and> sum_list ts = t * length qs \<and> (\<forall>a\<in>set ts. 0 < a \<and> a \<le> n)"
proof (cases "am_alloc cf = ''uniform'' \<or> n \<le> t")
  case True
  then have "ts = replicate (length qs) t" using assms(1) by (auto simp: allocate_budget_def Let_def)
  then show ?thesis using assms(2,3) by (auto simp: sum_list_replicate)
next
  case False
  let ?kv = "length qs" and ?min = "max 1 (min m t)"
  obtain imp where imp: "res_map (\<lambda>h. res_bind (softmax (logits (qs ! h) (k ! h) scale))
      (\<lambda>a. Inr (rev (sort (rms_importance n a))))) [0..<?kv] = Inr imp"
    using assms(1) False by (auto simp: allocate_budget_def Let_def split: if_splits)
  define cands where "cands = sort_key (\<lambda>x. - fst x) (concat (map (\<lambda>h. map (\<lambda>r. (imp ! h ! r, h)) [?min..<n]) [0..<?kv]))"
  define rem where "rem = t * ?kv - ?min * ?kv"
  define al where "al = foldl (\<lambda>al x. al[snd x := al ! snd x + 1]) (replicate ?kv ?min) (take rem cands)"
  have ts: "ts = (if t * ?kv \<le> ?min * ?kv then map (\<lambda>a. min a n) (replicate ?kv ?min) else map (\<lambda>a. min a n) al)"
    using assms(1) False imp by (auto simp: allocate_budget_def Let_def cands_def rem_def al_def split: if_splits)
  show ?thesis
  proof (cases "t * ?kv \<le> ?min * ?kv")
    case True
    have "?kv = 0 \<or> ?min = t" using True assms(3) by auto
    then show ?thesis using ts True assms(2,3) by (auto simp: sum_list_replicate min_absorb1)
  next
    case gt: False
    have min: "?min < t" using gt by (metis mult_le_mono1 not_less)
    have c1: "\<forall>x\<in>set (take rem cands). snd x < length (replicate ?kv ?min)"
      by (auto simp: cands_def dest!: in_set_takeD)
    have lc: "length cands = ?kv * (n - ?min)" by (simp add: cands_def length_concat_heads)
    have rl: "rem \<le> length cands"
    proof -
      have "rem = ?kv * (t - ?min)" by (simp add: rem_def diff_mult_distrib2 mult.commute)
      then show ?thesis using lc assms(2) by (simp add: diff_le_mono)
    qed
    have len: "length al = ?kv" and sum: "sum_list al = ?kv * ?min + rem"
      using foldl_incr(1,2) [OF c1] rl by (simp_all add: al_def sum_list_replicate)
    have "al ! h \<le> n \<and> 0 < al ! h" if h: "h < ?kv" for h
    proof -
      have "al ! h = ?min + length (filter (\<lambda>x. snd x = h) (take rem cands))"
        using foldl_incr(3) [OF c1, of h] h by (simp add: al_def)
      moreover have "length (filter (\<lambda>x. snd x = h) (take rem cands)) \<le> n - ?min"
      proof -
        have "length (filter (\<lambda>x. snd x = h) cands) = n - ?min"
          using length_filter_concat_heads [OF h, of "\<lambda>h r. imp ! h ! r" ?min n]
          by (simp add: cands_def filter_sort)
        then show ?thesis using filter_take_le by metis
      qed
      ultimately show ?thesis using min assms(2) by auto
    qed
    then have bd: "\<forall>a\<in>set al. a \<le> n \<and> 0 < a" using len by (auto simp: in_set_conv_nth)
    then have "ts = al" using ts gt sum_list_cap [of al n] by auto
    moreover have "?kv * ?min + rem = t * ?kv" using gt by (simp add: rem_def mult.commute)
    ultimately show ?thesis using bd len sum by auto
  qed
qed

section \<open>Selections\<close>

lemma take_unseen_spec:
  assumes "distinct chosen" "distinct order"
  shows "distinct (take_unseen order k chosen) \<and> set (take_unseen order k chosen) \<subseteq> set chosen \<union> set order \<and>
    length (take_unseen order k chosen) = length chosen + min k (length (filter (\<lambda>i. i \<notin> set chosen) order))"
  using assms
proof (induction order k chosen rule: take_unseen.induct)
  case (2 i order k chosen)
  have "filter (\<lambda>j. j \<notin> set (chosen @ [i])) order = filter (\<lambda>j. j \<notin> set chosen) order"
    using 2(4) by (intro filter_cong) auto
  then show ?case using 2 by (cases "k = 0"; cases "i \<in> set chosen") auto
qed simp

lemma unseen_count:
  assumes "set order = {0..<n}" "distinct order" "set chosen \<subseteq> {0..<n}" "distinct chosen"
  shows "length (filter (\<lambda>i. i \<notin> set chosen) order) = n - length chosen"
proof -
  have "length (filter (\<lambda>i. i \<notin> set chosen) order) = card (set order - set chosen)"
    using distinct_card [of "filter (\<lambda>i. i \<notin> set chosen) order"] assms(2) by (simp add: set_diff_eq)
  then show ?thesis using assms by (simp add: card_Diff_subset distinct_card)
qed

lemma take_unseen_picks:
  assumes "picks n m chosen" "set order = {0..<n}" "distinct order" "m + k \<le> n"
  shows "picks n (m + k) (take_unseen order k chosen)"
proof -
  have c: "set chosen \<subseteq> {0..<n}" "distinct chosen" "length chosen = m" using assms(1) by (auto simp: picks_def)
  note u = unseen_count [OF assms(2,3) c(1,2)] and t = take_unseen_spec [OF c(2) assms(3), of k]
  have "length (take_unseen order k chosen) = m + k" using t u c(3) assms(4) by simp
  moreover have "set (take_unseen order k chosen) \<subseteq> {0..<n}" using t c(1) assms(2) by blast
  ultimately show ?thesis using t by (simp add: picks_def)
qed

lemma descending_perm: "argsort_ok f \<Longrightarrow> set (descending f x) = {0..<length x} \<and> distinct (descending f x)"
  using argsort_set [of f "map Some x"] by (simp add: descending_def)

lemma select_hybrid_picks:
  assumes "select_hybrid sv cf l t n = Inr s" "argsort_ok (s_argsort sv)" "t \<le> n"
  shows "picks n t s"
proof -
  obtain a where a: "softmax l = Inr a" using assms(1) by (auto simp: select_hybrid_def)
  define nr where "nr = min (nat (py_round (am_recent cf * rat_of_nat t))) t"
  define nm where "nm = min (nat (py_round (am_mass cf * rat_of_nat t))) (t - nr)"
  have le: "nr + nm \<le> t" by (simp add: nr_def nm_def)
  define c1 where "c1 = take_unseen (rev [0..<n]) nr []"
  have c1: "picks n (0 + nr) c1" unfolding c1_def
    by (rule take_unseen_picks) (use le assms(3) in \<open>auto simp: picks_def\<close>)
  define c2 where "c2 = take_unseen (descending (s_argsort sv) (col_sum n a)) nm c1"
  have c2: "picks n (0 + nr + nm) c2" unfolding c2_def
    by (rule take_unseen_picks [OF c1])
      (use descending_perm [OF assms(2), of "col_sum n a"] le assms(3) in \<open>auto simp: col_sum_def\<close>)
  have "picks n (0 + nr + nm + (t - length c2)) s"
    using assms(1) take_unseen_picks [OF c2, of "descending (s_argsort sv) (rms_importance n a)" "t - length c2"]
      descending_perm [OF assms(2), of "rms_importance n a"] le assms(3) c2
    by (auto simp: select_hybrid_def a Let_def nr_def [symmetric] nm_def [symmetric] c1_def [symmetric]
        c2_def [symmetric] rms_importance_def picks_def)
  then show ?thesis using c2 le by (simp add: picks_def)
qed

lemma nth_takeWhile_length:
  "x \<in> set xs \<Longrightarrow> length (takeWhile (\<lambda>y. y \<noteq> x) xs) < length xs \<and> xs ! length (takeWhile (\<lambda>y. y \<noteq> x) xs) = x"
  by (induction xs) auto

lemma argmax_some:
  assumes "Some v \<in> set xs" shows "argmax xs < length xs \<and> xs ! argmax xs \<noteq> None"
proof -
  have "Max (set xs) \<in> set xs" using assms by (intro Max_in) auto
  from nth_takeWhile_length [OF this] have "argmax xs < length xs" "xs ! argmax xs = Max (set xs)"
    by (simp_all add: argmax_def)
  moreover have "Some v \<le> Max (set xs)" using assms by simp
  ultimately show ?thesis by (cases "Max (set xs)") auto
qed

lemma omp_loop_picks:
  assumes "picks n m sel" "m + k \<le> n"
  shows "picks n (m + k) (omp_loop sv n phi w norms k sel res)"
  using assms
proof (induction k arbitrary: m sel res)
  case (Suc k)
  define corr where "corr = map (\<lambda>j. if j \<in> set sel then None
    else Some (\<bar>sum_list (map2 (\<lambda>row r. row ! j * r) phi res)\<bar> / norms ! j)) [0..<n]"
  have "\<exists>j<n. j \<notin> set sel"
  proof (rule ccontr)
    assume "\<not> ?thesis"
    then have "{0..<n} \<subseteq> set sel" by auto
    then have "n \<le> length sel" by (metis card_atLeastLessThan card_length card_mono diff_zero finite_set le_trans)
    then show False using Suc(2,3) by (simp add: picks_def)
  qed
  then obtain v where "Some v \<in> set corr" by (force simp: corr_def)
  from argmax_some [OF this] have "argmax corr < n" "argmax corr \<notin> set sel"
    by (auto simp: corr_def split: if_splits)
  then have "picks n (Suc m) (sel @ [argmax corr])" using Suc(2) by (auto simp: picks_def)
  from Suc(1) [OF this] Suc(3) show ?case by (simp add: Let_def corr_def [symmetric])
qed simp

lemma select_omp_picks: "t \<le> n \<Longrightarrow> picks n t (select_omp sv l t n)"
  using omp_loop_picks [of n 0 "[]" t] by (simp add: select_omp_def Let_def picks_def)

lemma fit_head_spec:
  assumes "fit_head sv cf d q k v t scale = Inr hf" "argsort_ok (s_argsort sv)"
  shows "sorted (hf_idx hf) \<and> picks (length k) (min t (length k)) (hf_idx hf) \<and> hf_keys hf = map (\<lambda>i. k ! i) (hf_idx hf)"
proof (cases "length k \<le> t")
  case True
  then show ?thesis using assms(1) by (auto simp: fit_head_def Let_def picks_def map_nth)
next
  case False
  then have t: "t \<le> length k" by simp
  let ?full = "logits q k scale"
  obtain s0 where s0: "(if am_mass cf > 0 \<or> am_recent cf > 0 then select_hybrid sv cf ?full t (length k)
         else if am_selection cf = ''omp'' then Inr (select_omp sv ?full t (length k))
         else res_bind (select_highest_attention sv ?full (length k)) (\<lambda>order. Inr (take t order))) = Inr s0"
      "hf_idx hf = sort s0" "hf_keys hf = map (\<lambda>i. k ! i) (sort s0)"
    using assms(1) False by (auto simp: fit_head_def Let_def)
  have "picks (length k) t s0"
  proof (cases "am_mass cf > 0 \<or> am_recent cf > 0")
    case True
    then show ?thesis using s0(1) select_hybrid_picks [OF _ assms(2) t] by auto
  next
    case F: False
    show ?thesis
    proof (cases "am_selection cf = ''omp''")
      case True
      then show ?thesis using s0(1) F select_omp_picks [OF t] by auto
    next
      case False
      then obtain a where "s0 = take t (descending (s_argsort sv) (rms_importance (length k) a))"
        using s0(1) F by (auto simp: select_highest_attention_def)
      then show ?thesis
        using take_perm [of "descending (s_argsort sv) (rms_importance (length k) a)" "length k" t]
          descending_perm [OF assms(2), of "rms_importance (length k) a"] t argsort_set [OF assms(2)]
        by (auto simp: picks_def rms_importance_def descending_def)
    qed
  qed
  then show ?thesis using s0(2,3) t by (auto simp: picks_def)
qed

section \<open>The compact cache\<close>

definition fits_head :: "vec kvcache \<Rightarrow> nat \<Rightarrow> nat \<Rightarrow> vec compact_layer \<Rightarrow> bool" where
  "fits_head c l h cl \<longleftrightarrow> (\<exists>S. sorted S \<and> distinct S \<and> set S \<subseteq> {0..<seq_len c} \<and> 0 < length S \<and>
     ckeys cl ! h = map (\<lambda>i. lkey (kv_layers c ! l) ! h ! i) S \<and> cpositions cl ! h = map (\<lambda>i. kv_positions c ! i) S)"

lemma am_layer_spec:
  assumes r: "am_layer sv cf c rq t m l = Inr cl" and sh: "kv_shaped c" and ar: "argsort_ok (s_argsort sv)"
    and t: "0 < t" "t \<le> seq_len c" and l: "l < n_layers (kv_spec c)"
  shows "layer_budget cl = t * n_kv_heads (kv_spec c) \<and> (\<forall>h<n_kv_heads (kv_spec c). fits_head c l h cl)"
proof -
  let ?H = "n_kv_heads (kv_spec c)" and ?k = "lkey (kv_layers c ! l)" and ?v = "lval (kv_layers c ! l)"
  obtain qs ts fits where q: "res_map (group_queries (kv_spec c) (rq_layers rq ! l)) [0..<?H] = Inr qs"
    and a: "allocate_budget cf qs ?k t (seq_len c) m (attn_scale (kv_spec c)) = Inr ts"
    and f: "res_map (\<lambda>h. fit_head sv cf (head_dim (kv_spec c)) (qs ! h) (?k ! h) (?v ! h) (ts ! h) (attn_scale (kv_spec c)))
      [0..<?H] = Inr fits"
    and cl: "cl = \<lparr>ckeys = map hf_keys fits, cvalues = map hf_vals fits, cbiases = map hf_beta fits,
       cpositions = map (\<lambda>f. map (\<lambda>i. kv_positions c ! i) (hf_idx f)) fits\<rparr>"
    using r by (auto simp: am_layer_def Let_def)
  have lq: "length qs = ?H" and lf: "length fits = ?H" using res_map_nth(1) [OF q] res_map_nth(1) [OF f] by simp_all
  note al = allocate_spec [OF a t(2,1)]
  have sp: "length (hf_keys (fits ! h)) = ts ! h \<and> fits_head c l h cl" if h: "h < ?H" for h
  proof -
    have lk: "length (?k ! h) = seq_len c" using shapedD [OF sh [unfolded kv_shaped_def] l h] by simp
    have "fit_head sv cf (head_dim (kv_spec c)) (qs ! h) (?k ! h) (?v ! h) (ts ! h) (attn_scale (kv_spec c)) = Inr (fits ! h)"
      using res_map_nth(2) [OF f, of h] h by simp
    note s = fit_head_spec [OF this ar]
    have "0 < ts ! h" "ts ! h \<le> seq_len c" using al h lq by auto
    then show ?thesis using s h lf lk by (auto simp: cl fits_head_def picks_def intro!: exI [of _ "hf_idx (fits ! h)"])
  qed
  have "map (\<lambda>f. length (hf_keys f)) fits = ts" using sp lf al lq by (auto intro!: nth_equalityI)
  then have "layer_budget cl = sum_list ts" by (simp add: layer_budget_def cl o_def)
  then show ?thesis using al lq sp by simp
qed

text \<open>C14. Attention matching keeps its budget promise exactly, whatever the numerical solvers return and
  however the per-head allocation distributes it: in every layer the kv-heads together hold
  \<open>t\<close> tokens per head, so the whole cache holds layers times heads times \<open>t\<close>; every head keeps at
  least one key, and its keys and positions are original ones at increasing distinct indices.\<close>

theorem am_budget_exact:
  assumes "attention_matching sv cf c b refs = Inr cc" "kv_shaped c" "argsort_ok (s_argsort sv)"
    and "target_t b (seq_len c) = Inr u" "0 < u" "0 < seq_len c"
  shows "budget cc = n_layers (kv_spec c) * (min u (seq_len c) * n_kv_heads (kv_spec c)) \<and>
    cc_logical cc = seq_len c \<and> length (cc_layers cc) = n_layers (kv_spec c) \<and>
    (\<forall>l<n_layers (kv_spec c). layer_budget (cc_layers cc ! l) = min u (seq_len c) * n_kv_heads (kv_spec c) \<and>
       (\<forall>h<n_kv_heads (kv_spec c). fits_head c l h (cc_layers cc ! l)))"
proof -
  let ?t = "min u (seq_len c)"
  obtain rq layers where ly: "res_map (am_layer sv cf c rq ?t (min (cb_min b) (seq_len c))) [0..<n_layers (kv_spec c)] = Inr layers"
    and cc: "cc = \<lparr>cc_spec = kv_spec c, cc_layers = layers, cc_logical = seq_len c, cc_method = ''attention_matching''\<rparr>"
    using assms(1,4) by (auto simp: attention_matching_def Let_def split: option.splits)
  note n = res_map_nth [OF ly]
  have t: "0 < ?t" "?t \<le> seq_len c" using assms(5,6) by auto
  have sp: "layer_budget (layers ! l) = ?t * n_kv_heads (kv_spec c) \<and> (\<forall>h<n_kv_heads (kv_spec c). fits_head c l h (layers ! l))"
    if l: "l < n_layers (kv_spec c)" for l
  proof -
    have "am_layer sv cf c rq ?t (min (cb_min b) (seq_len c)) l = Inr (layers ! l)" using n(2) [of l] l by simp
    from am_layer_spec [OF this assms(2,3) t l] show ?thesis .
  qed
  have "map layer_budget layers = replicate (n_layers (kv_spec c)) (?t * n_kv_heads (kv_spec c))"
    using sp n(1) by (auto intro!: nth_equalityI)
  then have "budget cc = n_layers (kv_spec c) * (?t * n_kv_heads (kv_spec c))"
    by (simp add: budget_def cc sum_list_replicate)
  then show ?thesis using sp n(1) by (simp add: cc)
qed

abbreviation "demo_solvers \<equiv> \<lparr>s_nnls = (\<lambda>a b k. Some (map (\<lambda>x. 1) [0..<n_cols a])), s_lstsq = (\<lambda>a b. []),
  s_solve = (\<lambda>a b. b), s_argsort = demo_argsort\<rparr>"

abbreviation "demo_am \<equiv> \<lparr>am_selection = ''highest_attention'', am_alloc = ''uniform'', am_ridge = 0, am_train = 1,
  am_mass = 0, am_recent = 0\<rparr>"

theorem am_budget_exact_witness:
  "\<exists>cc. attention_matching demo_solvers demo_am demo_cache (demo_budget 4)
      (Some \<lparr>rq_spec = tiny_spec, rq_layers = [[[[2]]]]\<rparr>) = Inr cc \<and> budget cc = 3"
proof -
  have n: "seq_len demo_cache = 3" by (simp add: fake_prefill_def seq_len_def)
  have k: "kv_layers demo_cache = [\<lparr>lkey = [[[3], [4], [5]]], lval = [[[3], [4], [5]]]\<rparr>]"
    by (simp add: fake_prefill_def fake_layers_def)
  obtain cc where cc: "attention_matching demo_solvers demo_am demo_cache (demo_budget 4)
      (Some \<lparr>rq_spec = tiny_spec, rq_layers = [[[[2]]]]\<rparr>) = Inr cc"
    by (simp add: attention_matching_def target_t_def n k am_layer_def group_queries_def kv_head_of_def group_size_def
        allocate_budget_def fit_head_def Let_def)
  have u: "target_t (demo_budget 4) (seq_len demo_cache) = Inr 4" by (simp add: target_t_def)
  have "budget cc = n_layers (kv_spec demo_cache) * (min 4 (seq_len demo_cache) * n_kv_heads (kv_spec demo_cache))"
    using am_budget_exact [OF cc fake_kv_shaped _ u] demo_argsort_ok n by simp
  then show ?thesis using cc n by (intro exI [of _ cc]) simp
qed

text \<open>A clipped row stays in the range of the original values: the row of a dead key does, too.\<close>

lemma clip_range: "lo \<le> hi \<Longrightarrow> lo \<le> clip lo hi x \<and> clip lo hi x \<le> hi"
  by (auto simp: clip_def)

text \<open>The step that clips a dropped row is not a no-op: where every original value of a dimension is
  positive, the zero of a dead key is raised to the least of them.\<close>

lemma clip_dead_row: "0 < lo \<Longrightarrow> lo \<le> hi \<Longrightarrow> clip lo hi 0 = lo"
  by (simp add: clip_def)

lemma build_unknown:
  "name \<notin> {''attention_matching'', ''full_kv'', ''recent_window'', ''heavy_hitter'', ''snapkv'', ''random_subset''} \<longleftrightarrow>
   (\<exists>e. build_compactor name = Inl e)"
  by (simp add: build_compactor_def new_am_def)

end
