(* ===== verification/WorkingMem.thy ===== *)
theory WorkingMem imports AttnMatching begin

text \<open>
  \<^verbatim>\<open>dexa/memory/working_memory.py\<close>: the bounded, iteratively compacted working memory. The backend's
  \<^verbatim>\<open>prefill\<close> and \<^verbatim>\<open>reference_queries\<close> and the compactor are parameters of the operations; what the
  memory relies on is the locale \<open>bounded_compactor\<close>, interpreted on the compactors of the previous
  theories. An operation returns its result or exception with the state it leaves. The wall-clock
  field \<^verbatim>\<open>compute_seconds\<close> is left out, and \<^verbatim>\<open>deepcopy\<close> is the identity on values.
\<close>

section \<open>State\<close>

record wm =
  wm_spec :: model_spec
  wm_budget :: nat
  wm_keep :: nat
  wm_all :: "int list"
  wm_compact :: "vec compact_cache option"
  wm_recent :: "vec kvcache option"
  wm_end :: nat
  wm_total :: nat
  wm_compactions :: nat
  wm_peak :: nat
  wm_peak_recompute :: nat
  wm_version :: nat

record mem_snapshot =
  ms_compact :: "vec compact_cache option"
  ms_end :: nat
  ms_total :: nat
  ms_recent :: nat
  ms_version :: nat

definition new_wm :: "model_spec \<Rightarrow> int \<Rightarrow> int \<Rightarrow> wm result" where
  "new_wm sp budget_tokens keep =
    (if budget_tokens \<le> keep then Inl (ValueError ''keep_recent_tokens must be < budget_tokens'')
     else if keep < 0 then Inl (ValueError ''keep_recent_tokens must be >= 0'')
     else Inr \<lparr>wm_spec = sp, wm_budget = nat budget_tokens, wm_keep = nat keep, wm_all = [], wm_compact = None,
       wm_recent = None, wm_end = 0, wm_total = 0, wm_compactions = 0, wm_peak = 0, wm_peak_recompute = 0,
       wm_version = 0\<rparr>)"

definition n_recent :: "wm \<Rightarrow> nat" where
  "n_recent w = (case wm_recent w of None \<Rightarrow> 0 | Some kv \<Rightarrow> seq_len kv)"

text \<open>\<^verbatim>\<open>layers[0].keys[0].shape[0]\<close>.\<close>

definition phys_tokens :: "'v compact_cache \<Rightarrow> nat result" where
  "phys_tokens cc = (case cc_layers cc of [] \<Rightarrow> Inl IndexError
     | l # _ \<Rightarrow> (case ckeys l of [] \<Rightarrow> Inl IndexError | k # _ \<Rightarrow> Inr (length k)))"

definition compact_phys :: "wm \<Rightarrow> nat result" where
  "compact_phys w = (case wm_compact w of None \<Rightarrow> Inr 0 | Some cc \<Rightarrow> phys_tokens cc)"

definition current_tokens :: "wm \<Rightarrow> nat result" where
  "current_tokens w = res_bind (compact_phys w) (\<lambda>p. Inr (p + n_recent w))"

section \<open>Operations\<close>

type_synonym prefill = "int list \<Rightarrow> nat \<Rightarrow> vec kvcache"

type_synonym compact_fun = "vec kvcache \<Rightarrow> compaction_budget \<Rightarrow> vec ref_queries option \<Rightarrow> vec compact_cache result"

definition refresh_recent :: "prefill \<Rightarrow> wm \<Rightarrow> wm" where
  "refresh_recent pre w = (let recent = drop (wm_end w) (take (wm_total w) (wm_all w)) in
     w\<lparr>wm_recent := (if recent = [] then None else Some (pre recent (wm_end w)))\<rparr>)"

definition max_abs :: "vec list list \<Rightarrow> real" where
  "max_abs v = (let xs = concat (concat v) in if xs = [] then 0 else Max (set (map abs xs)))"

definition clip_layer :: "vec compact_layer \<Rightarrow> vec layer_kv \<Rightarrow> vec compact_layer" where
  "clip_layer cl fl = (let vmax = max_abs (lval fl) in
     if vmax \<le> 0 then cl else cl\<lparr>cvalues := map (map (map (clip (- vmax) vmax))) (cvalues cl)\<rparr>)"

text \<open>\<^verbatim>\<open>zip\<close> stops at the shorter list; layers beyond it stay as they are.\<close>

definition clip_values :: "vec compact_cache \<Rightarrow> vec kvcache \<Rightarrow> vec compact_cache" where
  "clip_values cc kv = cc\<lparr>cc_layers := map2 clip_layer (cc_layers cc) (kv_layers kv)
     @ drop (length (kv_layers kv)) (cc_layers cc)\<rparr>"

definition compact_step :: "prefill \<Rightarrow> compact_fun \<Rightarrow> (int list \<Rightarrow> vec ref_queries) option \<Rightarrow> wm \<Rightarrow> unit result \<times> wm" where
  "compact_step pre cmp refq w = (let new_end = wm_total w - wm_keep w; old = take new_end (wm_all w);
     w1 = w\<lparr>wm_peak_recompute := max (wm_peak_recompute w) (length old)\<rparr>;
     full_old = pre old 0; refs = map_option (\<lambda>f. f old) refq;
     b = \<lparr>cb_ratio = None, cb_tokens = Some (wm_budget w - wm_keep w), cb_min = 1\<rparr> in
     case cmp full_old b refs of Inl e \<Rightarrow> (Inl e, w1)
     | Inr cc \<Rightarrow> (let w2 = refresh_recent pre (w1\<lparr>wm_compact := Some (clip_values cc full_old), wm_end := new_end\<rparr>) in
         (Inr (), w2\<lparr>wm_compactions := wm_compactions w2 + 1, wm_version := wm_version w2 + 1\<rparr>)))"

lemma compact_step_end:
  "compact_step pre cmp refq w = (Inr (), w') \<Longrightarrow> wm_end w' = wm_total w - wm_keep w \<and> wm_total w' = wm_total w"
  by (auto simp: compact_step_def refresh_recent_def Let_def split: sum.splits)

function maybe_compact :: "prefill \<Rightarrow> compact_fun \<Rightarrow> (int list \<Rightarrow> vec ref_queries) option \<Rightarrow> wm \<Rightarrow> unit result \<times> wm" where
  "maybe_compact pre cmp refq w = (case current_tokens w of Inl e \<Rightarrow> (Inl e, w)
   | Inr n \<Rightarrow> if wm_budget w < n \<and> wm_keep w < wm_total w - wm_end w then
       (case compact_step pre cmp refq w of (Inl e, w') \<Rightarrow> (Inl e, w')
        | (Inr u, w') \<Rightarrow> if wm_end w' \<le> wm_end w then (Inr (), w') else maybe_compact pre cmp refq w')
     else (Inr (), w))"
  by pat_completeness auto

termination
  by (relation "measure (\<lambda>(pre, cmp, refq, w). wm_total w - wm_end w)") (auto dest!: compact_step_end [OF sym])

declare maybe_compact.simps [simp del]

definition bump_peak :: "wm \<Rightarrow> unit result \<times> wm" where
  "bump_peak w = (case current_tokens w of Inl e \<Rightarrow> (Inl e, w)
     | Inr n \<Rightarrow> (Inr (), w\<lparr>wm_peak := max (wm_peak w) n\<rparr>))"

definition wm_append :: "prefill \<Rightarrow> compact_fun \<Rightarrow> (int list \<Rightarrow> vec ref_queries) option \<Rightarrow> int list \<Rightarrow> wm \<Rightarrow> unit result \<times> wm" where
  "wm_append pre cmp refq toks w = (if toks = [] then (Inr (), w) else
     let w1 = refresh_recent pre (w\<lparr>wm_all := wm_all w @ toks, wm_total := length (wm_all w @ toks)\<rparr>) in
     case bump_peak w1 of (Inl e, w2) \<Rightarrow> (Inl e, w2)
     | (Inr u, w2) \<Rightarrow> (case maybe_compact pre cmp refq w2 of (Inl e, w3) \<Rightarrow> (Inl e, w3)
        | (Inr u, w3) \<Rightarrow> bump_peak w3))"

definition wm_snapshot :: "wm \<Rightarrow> mem_snapshot" where
  "wm_snapshot w = \<lparr>ms_compact = wm_compact w, ms_end = wm_end w, ms_total = wm_total w, ms_recent = n_recent w,
     ms_version = wm_version w\<rparr>"

definition compact_budget_of :: "mem_snapshot \<Rightarrow> nat" where
  "compact_budget_of s = (case ms_compact s of None \<Rightarrow> 0 | Some cc \<Rightarrow> budget cc)"

definition wm_commit :: "wm \<Rightarrow> mem_snapshot \<times> wm" where
  "wm_commit w = (let w' = w\<lparr>wm_version := wm_version w + 1\<rparr> in (wm_snapshot w', w'))"

record wm_stats_row =
  ws_current :: nat
  ws_peak :: nat
  ws_compactions :: nat
  ws_compact :: nat
  ws_recent :: nat
  ws_total :: nat
  ws_peak_recompute :: nat
  ws_version :: nat

definition wm_stats :: "wm \<Rightarrow> wm_stats_row result" where
  "wm_stats w = res_bind (current_tokens w) (\<lambda>n. res_bind (compact_phys w) (\<lambda>p.
     Inr \<lparr>ws_current = n, ws_peak = wm_peak w, ws_compactions = wm_compactions w, ws_compact = p,
       ws_recent = n_recent w, ws_total = wm_total w, ws_peak_recompute = wm_peak_recompute w,
       ws_version = wm_version w\<rparr>))"

definition fuse_layer :: "nat \<Rightarrow> nat \<Rightarrow> int list \<Rightarrow> vec compact_layer \<Rightarrow> vec layer_kv \<Rightarrow> vec compact_layer" where
  "fuse_layer n_kv nrec ps cl rl =
     \<lparr>ckeys = map (\<lambda>h. ckeys cl ! h @ lkey rl ! h) [0..<n_kv], cvalues = map (\<lambda>h. cvalues cl ! h @ lval rl ! h) [0..<n_kv],
      cbiases = map (\<lambda>h. cbiases cl ! h @ replicate nrec 0) [0..<n_kv],
      cpositions = map (\<lambda>h. cpositions cl ! h @ ps) [0..<n_kv]\<rparr>"

definition combined :: "wm \<Rightarrow> vec context_cache result" where
  "combined w = (case (wm_compact w, wm_recent w) of
     (None, None) \<Rightarrow> Inl (ValueError ''empty working memory: nothing to query'')
   | (None, Some rr) \<Rightarrow> Inr (Raw rr)
   | (Some cm, None) \<Rightarrow> Inr (Compact cm)
   | (Some cm, Some rr) \<Rightarrow> if seq_len rr = 0 then Inr (Compact cm) else
       Inr (Compact \<lparr>cc_spec = wm_spec w, cc_layers = map (\<lambda>l. fuse_layer (n_kv_heads (wm_spec w)) (seq_len rr)
            (kv_positions rr) (cc_layers cm ! l) (kv_layers rr ! l)) [0..<n_layers (wm_spec w)],
          cc_logical = wm_total w, cc_method = ''working_memory''\<rparr>))"

text \<open>\<^verbatim>\<open>query\<close>: scoring with targets, generation without, both the backend's.\<close>

definition wm_query :: "(vec context_cache \<Rightarrow> int list \<Rightarrow> int list \<Rightarrow> 'a) \<Rightarrow> (vec context_cache \<Rightarrow> int list \<Rightarrow> 'a)
    \<Rightarrow> int list \<Rightarrow> int list option \<Rightarrow> wm \<Rightarrow> 'a result" where
  "wm_query score gen prompt targets w = res_bind (combined w) (\<lambda>c.
     Inr (case targets of Some ts \<Rightarrow> score c prompt ts | None \<Rightarrow> gen c prompt))"

text \<open>A trajectory of appends, stopped by the first exception.\<close>

fun wm_run :: "prefill \<Rightarrow> compact_fun \<Rightarrow> (int list \<Rightarrow> vec ref_queries) option \<Rightarrow> int list list \<Rightarrow> wm \<Rightarrow> unit result \<times> wm" where
  "wm_run pre cmp refq [] w = (Inr (), w)"
| "wm_run pre cmp refq (c # cs) w = (case wm_append pre cmp refq c w of (Inl e, w') \<Rightarrow> (Inl e, w')
     | (Inr u, w') \<Rightarrow> wm_run pre cmp refq cs w')"

section \<open>The contract of a compactor\<close>

definition prefill_ok :: "model_spec \<Rightarrow> prefill \<Rightarrow> bool" where
  "prefill_ok sp pre \<longleftrightarrow> (\<forall>ts off. ts \<noteq> [] \<longrightarrow> kv_spec (pre ts off) = sp \<and> kv_shaped (pre ts off) \<and>
     kv_positions (pre ts off) = arange off (off + length ts))"

locale bounded_compactor =
  fixes cmp :: compact_fun
  assumes comp_bound: "kv_shaped c \<Longrightarrow> 0 < seq_len c \<Longrightarrow> 0 < k \<Longrightarrow>
      cmp c \<lparr>cb_ratio = None, cb_tokens = Some k, cb_min = 1\<rparr> rq = Inr cc \<Longrightarrow>
      length (cc_layers cc) = n_layers (kv_spec c) \<and> cc_logical cc = seq_len c \<and>
      (\<forall>l<n_layers (kv_spec c). length (ckeys (cc_layers cc ! l)) = n_kv_heads (kv_spec c) \<and>
         (\<forall>h<n_kv_heads (kv_spec c). length (ckeys (cc_layers cc ! l) ! h) \<le> k))"

lemma keeps_bounded:
  assumes "keeps c t cc" "t \<le> k"
  shows "length (cc_layers cc) = n_layers (kv_spec c) \<and> cc_logical cc = seq_len c \<and>
      (\<forall>l<n_layers (kv_spec c). length (ckeys (cc_layers cc ! l)) = n_kv_heads (kv_spec c) \<and>
         (\<forall>h<n_kv_heads (kv_spec c). length (ckeys (cc_layers cc ! l) ! h) \<le> k))"
  using keepsD [OF assms(1)] assms(2) by simp

lemma baseline_bounded:
  assumes "argsort_ok f" "draw_ok draw" "bl \<noteq> BFull"
  shows "bounded_compactor (\<lambda>c b rq. run_baseline f H draw bl c b rq)"
proof
  fix c k rq cc assume a: "kv_shaped c" "0 < k"
    and r: "run_baseline f H draw bl c \<lparr>cb_ratio = None, cb_tokens = Some k, cb_min = 1\<rparr> rq = Inr cc"
  obtain t where t: "target_t \<lparr>cb_ratio = None, cb_tokens = Some k, cb_min = 1\<rparr> (seq_len c) = Inr t"
    "keeps c (min t (seq_len c)) cc" using baseline_keeps [OF r a(1) assms(1,2)] assms(3) by auto
  have "min t (seq_len c) \<le> k" using t(1) a(2) by (auto simp: target_t_def)
  from keeps_bounded [OF t(2) this] show "length (cc_layers cc) = n_layers (kv_spec c) \<and> cc_logical cc = seq_len c \<and>
      (\<forall>l<n_layers (kv_spec c). length (ckeys (cc_layers cc ! l)) = n_kv_heads (kv_spec c) \<and>
         (\<forall>h<n_kv_heads (kv_spec c). length (ckeys (cc_layers cc ! l) ! h) \<le> k))" .
qed

interpretation window: bounded_compactor "\<lambda>c b rq. recent_window c b"
  using baseline_bounded [OF demo_argsort_ok first_draw_ok, of BRecent] by simp

section \<open>The working set stays bounded\<close>

definition wm_inv :: "model_spec \<Rightarrow> prefill \<Rightarrow> wm \<Rightarrow> bool" where
  "wm_inv sp pre w \<longleftrightarrow> wm_spec w = sp \<and> wm_keep w < wm_budget w \<and> wm_total w = length (wm_all w) \<and> wm_end w \<le> wm_total w \<and>
     wm_recent w = (if drop (wm_end w) (wm_all w) = [] then None else Some (pre (drop (wm_end w) (wm_all w)) (wm_end w))) \<and>
     (case wm_compact w of None \<Rightarrow> wm_end w = 0
      | Some cc \<Rightarrow> length (cc_layers cc) = n_layers sp \<and> cc_logical cc = wm_end w \<and>
          (\<forall>l<n_layers sp. length (ckeys (cc_layers cc ! l)) = n_kv_heads sp \<and>
             (\<forall>h<n_kv_heads sp. length (ckeys (cc_layers cc ! l) ! h) \<le> wm_budget w - wm_keep w)))"

definition spec_ok :: "model_spec \<Rightarrow> bool" where
  "spec_ok sp \<longleftrightarrow> 0 < n_layers sp \<and> 0 < n_kv_heads sp"

lemma refresh_simps [simp]:
  "wm_spec (refresh_recent pre w) = wm_spec w" "wm_budget (refresh_recent pre w) = wm_budget w"
  "wm_keep (refresh_recent pre w) = wm_keep w" "wm_all (refresh_recent pre w) = wm_all w"
  "wm_total (refresh_recent pre w) = wm_total w" "wm_end (refresh_recent pre w) = wm_end w"
  "wm_compact (refresh_recent pre w) = wm_compact w"
  by (simp_all add: refresh_recent_def Let_def)

lemma recent_len:
  assumes "wm_inv sp pre w" "prefill_ok sp pre"
  shows "n_recent w = wm_total w - wm_end w"
  using assms by (auto simp: wm_inv_def n_recent_def prefill_ok_def seq_len_def)

lemma phys_bound:
  assumes "wm_inv sp pre w" "spec_ok sp"
  shows "\<exists>p. compact_phys w = Inr p \<and> p \<le> wm_budget w - wm_keep w"
proof (cases "wm_compact w")
  case None then show ?thesis by (simp add: compact_phys_def)
next
  case (Some cc)
  then have c: "length (cc_layers cc) = n_layers sp" "length (ckeys (cc_layers cc ! 0)) = n_kv_heads sp"
    "length (ckeys (cc_layers cc ! 0) ! 0) \<le> wm_budget w - wm_keep w"
    using assms by (auto simp: wm_inv_def spec_ok_def)
  obtain l ls where l: "cc_layers cc = l # ls" using c(1) assms(2) by (cases "cc_layers cc") (auto simp: spec_ok_def)
  obtain k ks where k: "ckeys l = k # ks" using c(2) assms(2) l by (cases "ckeys l") (auto simp: spec_ok_def)
  show ?thesis using c(3) Some l k by (simp add: compact_phys_def phys_tokens_def)
qed

lemma current_spec:
  assumes "wm_inv sp pre w" "spec_ok sp" "prefill_ok sp pre"
  shows "\<exists>n. current_tokens w = Inr n \<and> n \<le> (wm_budget w - wm_keep w) + (wm_total w - wm_end w)"
  using phys_bound [OF assms(1,2)] recent_len [OF assms(1,3)] by (auto simp: current_tokens_def)

context bounded_compactor
begin

lemma compact_step_inv:
  assumes inv: "wm_inv sp pre w" and pre: "prefill_ok sp pre" and go: "wm_keep w < wm_total w - wm_end w"
    and r: "compact_step pre cmp refq w = (Inr (), w')"
  shows "wm_inv sp pre w' \<and> wm_end w' = wm_total w - wm_keep w \<and> wm_all w' = wm_all w \<and> wm_budget w' = wm_budget w \<and>
    wm_keep w' = wm_keep w"
proof -
  define new where "new = wm_total w - wm_keep w"
  define old where "old = take new (wm_all w)"
  have w: "wm_spec w = sp" "wm_keep w < wm_budget w" "wm_total w = length (wm_all w)" using inv by (auto simp: wm_inv_def)
  have new: "0 < new" "new \<le> length (wm_all w)" using go w by (auto simp: new_def)
  then have old: "old \<noteq> []" "length old = new" by (auto simp: old_def)
  have p: "kv_spec (pre old 0) = sp" "kv_shaped (pre old 0)" "seq_len (pre old 0) = new"
    using pre old by (auto simp: prefill_ok_def seq_len_def)
  obtain cc where cc: "cmp (pre old 0) \<lparr>cb_ratio = None, cb_tokens = Some (wm_budget w - wm_keep w), cb_min = 1\<rparr>
      (map_option (\<lambda>f. f old) refq) = Inr cc"
    and w': "w' = (let w2 = refresh_recent pre (w\<lparr>wm_peak_recompute := max (wm_peak_recompute w) (length old),
        wm_compact := Some (clip_values cc (pre old 0)), wm_end := new\<rparr>) in
      w2\<lparr>wm_compactions := wm_compactions w2 + 1, wm_version := wm_version w2 + 1\<rparr>)"
    using r by (auto simp: compact_step_def Let_def old_def [symmetric] new_def [symmetric] split: sum.splits)
  have b: "0 < wm_budget w - wm_keep w" using w by simp
  have law: "length (cc_layers cc) = n_layers sp \<and> cc_logical cc = new \<and>
      (\<forall>l<n_layers sp. length (ckeys (cc_layers cc ! l)) = n_kv_heads sp \<and>
         (\<forall>h<n_kv_heads sp. length (ckeys (cc_layers cc ! l) ! h) \<le> wm_budget w - wm_keep w))"
    using comp_bound [OF p(2) _ b cc] p new(1) by simp
  have kl: "length (kv_layers (pre old 0)) = n_layers sp" using p(1,2) by (simp add: kv_shaped_def shaped_def)
  have cl: "cc_layers (clip_values cc (pre old 0)) = map2 clip_layer (cc_layers cc) (kv_layers (pre old 0))"
    "cc_logical (clip_values cc (pre old 0)) = new" using law kl by (simp_all add: clip_values_def)
  have ck: "ckeys (clip_layer l f) = ckeys l" for l f by (simp add: clip_layer_def Let_def)
  show ?thesis using w new law cl kl
    by (auto simp: w' wm_inv_def Let_def refresh_recent_def ck new_def)
qed

lemma compact_step_err: "compact_step pre cmp refq w = (Inl e, w') \<Longrightarrow> \<exists>c m rq. cmp c \<lparr>cb_ratio = None, cb_tokens = Some m, cb_min = 1\<rparr> rq = Inl e"
  by (auto simp: compact_step_def Let_def split: sum.splits)

lemma maybe_compact_inv:
  assumes "wm_inv sp pre w" "prefill_ok sp pre" "spec_ok sp" "maybe_compact pre cmp refq w = (r, w')"
  shows "(r = Inr () \<longrightarrow> wm_inv sp pre w' \<and> wm_all w' = wm_all w \<and> wm_budget w' = wm_budget w \<and>
      wm_keep w' = wm_keep w \<and> (\<exists>n. current_tokens w' = Inr n \<and> n \<le> wm_budget w)) \<and>
    ((\<forall>c m rq. \<exists>cc. cmp c \<lparr>cb_ratio = None, cb_tokens = Some m, cb_min = 1\<rparr> rq = Inr cc) \<longrightarrow> r = Inr ())"
proof (cases "\<exists>n. current_tokens w = Inr n \<and> wm_budget w < n \<and> wm_keep w < wm_total w - wm_end w")
  case False
  obtain n where n: "current_tokens w = Inr n" "n \<le> (wm_budget w - wm_keep w) + (wm_total w - wm_end w)"
    using current_spec [OF assms(1,3,2)] by blast
  have "r = Inr ()" "w' = w" using assms(4) False n(1) by (auto simp: maybe_compact.simps [of _ _ _ w] split: if_splits)
  moreover have "n \<le> wm_budget w" using False n assms(1) by (auto simp: wm_inv_def)
  ultimately show ?thesis using assms(1) n(1) by auto
next
  case True
  then obtain n where n: "current_tokens w = Inr n" "wm_budget w < n" and go: "wm_keep w < wm_total w - wm_end w" by blast
  obtain r1 w1 where s: "compact_step pre cmp refq w = (r1, w1)" by (cases "compact_step pre cmp refq w")
  show ?thesis
  proof (cases r1)
    case (Inl e)
    then have "r = Inl e" using assms(4) n go s by (auto simp: maybe_compact.simps [of _ _ _ w])
    then show ?thesis using compact_step_err [OF s [unfolded Inl]] by (metis Inl_Inr_False)
  next
    case (Inr u)
    then have s: "compact_step pre cmp refq w = (Inr (), w1)" using s by simp
    note i = compact_step_inv [OF assms(1,2) go s]
    have t: "wm_total w1 = wm_total w" using compact_step_end [OF s] by simp
    then have prog: "\<not> wm_end w1 \<le> wm_end w" and stop: "\<not> wm_keep w1 < wm_total w1 - wm_end w1" using i go by auto
    obtain m where m: "current_tokens w1 = Inr m" "m \<le> (wm_budget w1 - wm_keep w1) + (wm_total w1 - wm_end w1)"
      using current_spec [of sp pre w1] i assms(2,3) by blast
    have "maybe_compact pre cmp refq w1 = (Inr (), w1)"
      using stop m(1) by (simp add: maybe_compact.simps [of _ _ _ w1])
    then have "r = Inr ()" "w' = w1" using assms(4) n go s prog by (auto simp: maybe_compact.simps [of _ _ _ w])
    moreover have "m \<le> wm_budget w" using m(2) stop i by (auto simp: wm_inv_def)
    ultimately show ?thesis using i m(1) by auto
  qed
qed

lemma append_inv:
  assumes "wm_inv sp pre w" "prefill_ok sp pre" "spec_ok sp" "wm_append pre cmp refq toks w = (r, w')"
    "\<exists>n. current_tokens w = Inr n \<and> n \<le> wm_budget w"
  shows "(r = Inr () \<longrightarrow> wm_inv sp pre w' \<and> wm_all w' = wm_all w @ toks \<and> wm_budget w' = wm_budget w \<and>
      wm_keep w' = wm_keep w \<and> (\<exists>n. current_tokens w' = Inr n \<and> n \<le> wm_budget w')) \<and>
    ((\<forall>c m rq. \<exists>cc. cmp c \<lparr>cb_ratio = None, cb_tokens = Some m, cb_min = 1\<rparr> rq = Inr cc) \<longrightarrow> r = Inr ())"
proof (cases "toks = []")
  case True then show ?thesis using assms by (auto simp: wm_append_def)
next
  case False
  define w1 where "w1 = refresh_recent pre (w\<lparr>wm_all := wm_all w @ toks, wm_total := length (wm_all w @ toks)\<rparr>)"
  have i1: "wm_inv sp pre w1" using assms(1)
    by (cases "wm_compact w") (auto simp: w1_def wm_inv_def refresh_recent_def Let_def)
  obtain n1 where n1: "current_tokens w1 = Inr n1" using current_spec [OF i1 assms(3,2)] by blast
  define w2 where "w2 = w1\<lparr>wm_peak := max (wm_peak w1) n1\<rparr>"
  have i2: "wm_inv sp pre w2" "wm_all w2 = wm_all w @ toks" "wm_budget w2 = wm_budget w" "wm_keep w2 = wm_keep w"
    using i1 by (cases "wm_compact w"; simp add: w2_def wm_inv_def w1_def refresh_recent_def Let_def)+
  have b1: "bump_peak w1 = (Inr (), w2)" by (simp add: bump_peak_def n1 w2_def)
  obtain r3 w3 where m: "maybe_compact pre cmp refq w2 = (r3, w3)" by (cases "maybe_compact pre cmp refq w2")
  note i3 = maybe_compact_inv [OF i2(1) assms(2,3) m]
  have u: "wm_append pre cmp refq toks w = (case (r3, w3) of (Inl e, w3) \<Rightarrow> (Inl e, w3) | (Inr u, w3) \<Rightarrow> bump_peak w3)"
    using False unfolding wm_append_def Let_def w1_def [symmetric] b1 prod.case sum.case m by (simp only: if_False)
  show ?thesis
  proof (cases r3)
    case (Inl e) then show ?thesis using u assms(4) i3 by auto
  next
    case (Inr x)
    then obtain n3 where n3: "current_tokens w3 = Inr n3" "n3 \<le> wm_budget w" and w3: "wm_inv sp pre w3"
      "wm_all w3 = wm_all w @ toks" "wm_budget w3 = wm_budget w" "wm_keep w3 = wm_keep w"
      using i3 i2 by auto
    have "r = Inr ()" "w' = w3\<lparr>wm_peak := max (wm_peak w3) n3\<rparr>"
      using u assms(4) Inr n3(1) by (auto simp: bump_peak_def)
    moreover have "current_tokens (w3\<lparr>wm_peak := k\<rparr>) = current_tokens w3" for k
      by (simp add: current_tokens_def compact_phys_def n_recent_def)
    moreover have "wm_inv sp pre (w3\<lparr>wm_peak := k\<rparr>)" for k
      using w3(1) by (cases "wm_compact w3"; simp add: wm_inv_def)
    ultimately show ?thesis using w3 n3 by auto
  qed
qed

lemma run_inv:
  assumes "wm_inv sp pre w" "prefill_ok sp pre" "spec_ok sp" "wm_run pre cmp refq cs w = (r, w')"
    "\<exists>n. current_tokens w = Inr n \<and> n \<le> wm_budget w"
  shows "(r = Inr () \<longrightarrow> wm_inv sp pre w' \<and> wm_all w' = wm_all w @ concat cs \<and> wm_budget w' = wm_budget w \<and>
      wm_keep w' = wm_keep w \<and> (\<exists>n. current_tokens w' = Inr n \<and> n \<le> wm_budget w')) \<and>
    ((\<forall>c m rq. \<exists>cc. cmp c \<lparr>cb_ratio = None, cb_tokens = Some m, cb_min = 1\<rparr> rq = Inr cc) \<longrightarrow> r = Inr ())"
  using assms(1,4,5)
proof (induction cs arbitrary: w)
  case Nil then show ?case by auto
next
  case (Cons c cs)
  obtain r1 w1 where a: "wm_append pre cmp refq c w = (r1, w1)" by (cases "wm_append pre cmp refq c w")
  note i = append_inv [OF Cons(2) assms(2,3) a Cons(4)]
  show ?case
  proof (cases r1)
    case (Inl e) then show ?thesis using Cons(3) a i by auto
  next
    case (Inr u)
    then have "wm_run pre cmp refq cs w1 = (r, w')" using Cons(3) a by simp
    from Cons(1) [OF _ this] i Inr show ?thesis by auto
  qed
qed

end

lemma new_wm_inv: "new_wm sp b k = Inr w \<Longrightarrow> wm_inv sp pre w \<and> current_tokens w = Inr 0 \<and> int (wm_budget w) = b \<and>
  int (wm_keep w) = k \<and> wm_all w = [] \<and> wm_total w = 0"
  by (auto simp: new_wm_def wm_inv_def current_tokens_def compact_phys_def n_recent_def split: if_splits)

text \<open>C10. The maintained working set is bounded however long the trajectory. Over any sequence of appends
  that does not raise, and with any compactor that honours its token budget, the compact tokens plus
  the raw recent ones never exceed the configured budget, no logical token is lost (the compacted
  prefix and the recent window together are exactly everything appended), and the recent window is
  the backend's prefill of the latest tokens at their true offset. With a compactor that never fails
  no append fails. The compaction loop terminates.\<close>

theorem wm_bounded:
  assumes "bounded_compactor cmp" "prefill_ok sp pre" "spec_ok sp" "new_wm sp b k = Inr w0"
    and "wm_run pre cmp refq cs w0 = (r, w)"
  shows "(r = Inr () \<longrightarrow> (\<exists>n. current_tokens w = Inr n \<and> int n \<le> b) \<and> wm_all w = concat cs \<and>
      wm_end w + n_recent w = length (concat cs) \<and>
      (drop (wm_end w) (concat cs) \<noteq> [] \<longrightarrow> wm_recent w = Some (pre (drop (wm_end w) (concat cs)) (wm_end w)))) \<and>
    ((\<forall>c m rq. \<exists>cc. cmp c \<lparr>cb_ratio = None, cb_tokens = Some m, cb_min = 1\<rparr> rq = Inr cc) \<longrightarrow> r = Inr ())"
proof -
  note z = new_wm_inv [OF assms(4), of pre]
  have "wm_inv sp pre w0" "\<exists>n. current_tokens w0 = Inr n \<and> n \<le> wm_budget w0" using z by auto
  note ri = bounded_compactor.run_inv [OF assms(1) this(1) assms(2,3,5) this(2)]
  have "(\<exists>n. current_tokens w = Inr n \<and> int n \<le> b) \<and> wm_all w = concat cs \<and>
      wm_end w + n_recent w = length (concat cs) \<and>
      (drop (wm_end w) (concat cs) \<noteq> [] \<longrightarrow> wm_recent w = Some (pre (drop (wm_end w) (concat cs)) (wm_end w)))"
    if "r = Inr ()"
  proof -
    have i: "wm_inv sp pre w" "wm_all w = concat cs" "\<exists>n. current_tokens w = Inr n \<and> n \<le> wm_budget w" "wm_budget w = wm_budget w0"
      using ri that z by auto
    then show ?thesis using recent_len [OF i(1) assms(2)] z by (auto simp: wm_inv_def)
  qed
  then show ?thesis using ri by blast
qed

lemma fake_prefill_ok: "prefill_ok sp (fake_prefill sp vec)"
  using fake_kv_shaped by (auto simp: prefill_ok_def fake_prefill_def)

lemma recent_window_never_fails:
  "cb_ratio b = None \<Longrightarrow> cb_tokens b = Some k \<Longrightarrow> \<exists>cc. recent_window c b = Inr cc"
  using recent_total [of b c] by (simp add: target_t_def)

theorem wm_bounded_witness:
  "\<exists>w0 w n. new_wm tiny_spec 2 1 = Inr w0 \<and>
    wm_run (fake_prefill tiny_spec real_vec) (\<lambda>c b rq. recent_window c b) None [[3, 4], [5]] w0 = (Inr (), w) \<and>
    wm_all w = [3, 4, 5] \<and> current_tokens w = Inr n \<and> n \<le> 2"
proof -
  obtain w0 where w0: "new_wm tiny_spec 2 1 = Inr w0" by (simp add: new_wm_def)
  obtain r w where r: "wm_run (fake_prefill tiny_spec real_vec) (\<lambda>c b rq. recent_window c b) None [[3, 4], [5]] w0 = (r, w)"
    by (cases "wm_run (fake_prefill tiny_spec real_vec) (\<lambda>c b rq. recent_window c b) None [[3, 4], [5]] w0")
  have sp: "spec_ok tiny_spec" by (simp add: spec_ok_def)
  have tot: "\<forall>c m rq. \<exists>cc. recent_window c \<lparr>cb_ratio = None, cb_tokens = Some m, cb_min = 1\<rparr> = (Inr cc :: vec compact_cache result)"
    by (intro allI recent_window_never_fails) simp_all
  note t = wm_bounded [OF window.bounded_compactor_axioms fake_prefill_ok sp w0 r]
  have "r = Inr ()" using t tot by auto
  then show ?thesis using t w0 r by auto
qed



lemma clip_layer_keys: "ckeys (clip_layer l f) = ckeys l"
  by (simp add: clip_layer_def Let_def)

text \<open>FullKV is a registered compactor that does not honour its budget: a memory built over it keeps
  every token, and the bound of the documentation fails after one append.\<close>

lemma full_kv_exceeds:
  "\<exists>w0 w. new_wm tiny_spec 2 0 = Inr w0 \<and>
    wm_append (fake_prefill tiny_spec real_vec) (\<lambda>c b rq. full_kv c) None [3, 4, 5] w0 = (Inr (), w) \<and>
    current_tokens w = Inr 3"
proof -
  define w0 where "w0 = \<lparr>wm_spec = tiny_spec, wm_budget = 2, wm_keep = 0, wm_all = [], wm_compact = None,
    wm_recent = None, wm_end = 0, wm_total = 0, wm_compactions = 0, wm_peak = 0, wm_peak_recompute = 0, wm_version = 0\<rparr>"
  have w0: "new_wm tiny_spec 2 0 = Inr w0" by (simp add: new_wm_def w0_def)
  have len: "seq_len (fake_prefill sp vec ts off) = length ts" for sp vec ts off by (simp add: fake_prefill_def seq_len_def)
  have k: "kv_layers (fake_prefill tiny_spec real_vec ts off) =
    [\<lparr>lkey = [map (\<lambda>t. [real_of_int t]) ts], lval = [map (\<lambda>t. [real_of_int t]) ts]\<rparr>]" for ts off
    by (simp add: fake_prefill_def fake_layers_def)
  obtain w where "wm_append (fake_prefill tiny_spec real_vec) (\<lambda>c b rq. full_kv c) None [3, 4, 5] w0 = (Inr (), w)"
    "current_tokens w = Inr 3"
    by (simp add: w0_def wm_append_def refresh_recent_def bump_peak_def current_tokens_def compact_phys_def
        n_recent_def len maybe_compact.simps compact_step_def full_kv_def select_compact_def make_layer_def k
        clip_values_def clip_layer_keys phys_tokens_def Let_def)
  then show ?thesis using w0 by blast
qed

end
