(* ===== verification/LMCache.thy ===== *)
theory LMCache imports TieredStore WorkingMem begin

text \<open>
  The reuse baseline, \<^verbatim>\<open>src/dexa/bench/lmcache_baseline.py\<close>: requests served over a cache store at
  page granularity, with pages keyed by the hash of the whole prefix they end. The store is a client's
  view (put, get, has) given as an argument, so the lemmas are proved once over the contract of
  \<^verbatim>\<open>CacheStore\<close> and hold for the tiered store by its interpretation. The backend's \<^verbatim>\<open>prefill\<close> and
  the content hash are parameters. A step that does not return is \<^const>\<open>None\<close>; an exception is \<^const>\<open>Inl\<close>.
\<close>

section \<open>State\<close>

text \<open>\<^verbatim>\<open>_chunk\<close>: the slices that start at the multiples of the size.\<close>

definition chunk :: "'a list \<Rightarrow> nat \<Rightarrow> 'a list list" where
  "chunk xs sz = map (\<lambda>i. take sz (drop (i * sz) xs)) [0..<(length xs + sz - 1) div sz]"

record request_result =
  rr_tokens :: nat
  rr_blocks :: nat
  rr_reused_tokens :: nat
  rr_recomputed_tokens :: nat
  rr_reused_blocks :: nat
  rr_recomputed_blocks :: nat

definition reuse_frac :: "request_result \<Rightarrow> rat" where
  "reuse_frac r = (if rr_tokens r \<noteq> 0 then rat_of_nat (rr_reused_tokens r) / rat_of_nat (rr_tokens r) else 0)"

record ('c, 's) store_ops =
  so_put :: "string \<Rightarrow> string \<Rightarrow> 'c \<Rightarrow> nat \<Rightarrow> 's \<Rightarrow> (string \<times> 's) result option"
  so_get :: "string \<Rightarrow> 's \<Rightarrow> ('c option \<times> 's) result option"
  so_has :: "string \<Rightarrow> string \<Rightarrow> 's \<Rightarrow> string option \<times> 's"

record 's lmcache =
  lm_store :: 's
  lm_block :: nat
  lm_tenant :: string
  lm_cost :: cost_model
  lm_results :: "request_result list"
  lm_total :: nat
  lm_reused :: nat
  lm_recomputed :: nat

definition new_lmcache :: "'s \<Rightarrow> int \<Rightarrow> string \<Rightarrow> cost_model option \<Rightarrow> 's lmcache result" where
  "new_lmcache s bs tn cost = (if bs \<le> 0 then Inl (ValueError ''block_size must be positive'')
     else Inr \<lparr>lm_store = s, lm_block = nat bs, lm_tenant = tn,
       lm_cost = (case cost of None \<Rightarrow> default_cost_model | Some c \<Rightarrow> c),
       lm_results = [], lm_total = 0, lm_reused = 0, lm_recomputed = 0\<rparr>)"

section \<open>Serving\<close>

text \<open>The locals of the loop of \<^verbatim>\<open>process\<close>.\<close>

record serve_locals =
  lp_offset :: nat
  lp_diverged :: bool
  lp_reused :: nat
  lp_recomputed :: nat
  lp_rblocks :: nat
  lp_cblocks :: nat

fun serve_blocks :: "('v kvcache, 's) store_ops \<Rightarrow> (byte list \<Rightarrow> string) \<Rightarrow> (int list \<Rightarrow> nat \<Rightarrow> 'v kvcache) \<Rightarrow> string
    \<Rightarrow> int list \<Rightarrow> int list list \<Rightarrow> serve_locals \<Rightarrow> 's \<Rightarrow> (serve_locals \<times> 's) result option" where
  "serve_blocks so H pre tn toks [] a s = Some (Inr (a, s))"
| "serve_blocks so H pre tn toks (b # bs) a s =
     (let stop = lp_offset a + length b in
      case hash_tokens H (take stop toks) of Inl e \<Rightarrow> Some (Inl e)
      | Inr key \<Rightarrow> (case so_has so tn key s of (handle, s1) \<Rightarrow>
         (case (lp_diverged a, handle) of
            (False, Some h) \<Rightarrow>
              (case so_get so h s1 of None \<Rightarrow> None | Some (Inl e) \<Rightarrow> Some (Inl e)
               | Some (Inr (kv, s2)) \<Rightarrow> serve_blocks so H pre tn toks bs
                   (a\<lparr>lp_reused := lp_reused a + length b, lp_rblocks := lp_rblocks a + 1, lp_offset := stop\<rparr>) s2)
          | _ \<Rightarrow>
              (let kv = pre b (lp_offset a) in
               case so_put so tn key kv (kv_nbytes kv) s1 of None \<Rightarrow> None | Some (Inl e) \<Rightarrow> Some (Inl e)
               | Some (Inr (h, s2)) \<Rightarrow> serve_blocks so H pre tn toks bs
                   (a\<lparr>lp_diverged := True, lp_recomputed := lp_recomputed a + length b, lp_cblocks := lp_cblocks a + 1,
                      lp_offset := stop\<rparr>) s2))))"

definition locals0 :: serve_locals where
  "locals0 = \<lparr>lp_offset = 0, lp_diverged = False, lp_reused = 0, lp_recomputed = 0, lp_rblocks = 0, lp_cblocks = 0\<rparr>"

definition process :: "('v kvcache, 's) store_ops \<Rightarrow> (byte list \<Rightarrow> string) \<Rightarrow> (int list \<Rightarrow> nat \<Rightarrow> 'v kvcache)
    \<Rightarrow> int list \<Rightarrow> 's lmcache \<Rightarrow> (request_result \<times> 's lmcache) result option" where
  "process so H pre toks m = (let blocks = chunk toks (lm_block m) in
     case serve_blocks so H pre (lm_tenant m) toks blocks locals0 (lm_store m) of None \<Rightarrow> None | Some (Inl e) \<Rightarrow> Some (Inl e)
     | Some (Inr (a, s)) \<Rightarrow>
       (let res = \<lparr>rr_tokens = length toks, rr_blocks = length blocks, rr_reused_tokens = lp_reused a,
           rr_recomputed_tokens = lp_recomputed a, rr_reused_blocks = lp_rblocks a, rr_recomputed_blocks = lp_cblocks a\<rparr>
        in Some (Inr (res, m\<lparr>lm_store := s, lm_results := lm_results m @ [res], lm_total := lm_total m + rr_tokens res,
             lm_reused := lm_reused m + lp_reused a, lm_recomputed := lm_recomputed m + lp_recomputed a\<rparr>))))"

text \<open>The request loop of \<^verbatim>\<open>run_lmcache_scenario\<close>; \<open>tot\<close> reads \<^verbatim>\<open>stats()["total_bytes"]\<close> after each request.\<close>

fun serve_requests :: "('v kvcache, 's) store_ops \<Rightarrow> (byte list \<Rightarrow> string) \<Rightarrow> (int list \<Rightarrow> nat \<Rightarrow> 'v kvcache)
    \<Rightarrow> ('s \<Rightarrow> int) \<Rightarrow> int list list \<Rightarrow> 's lmcache \<Rightarrow> (request_result list \<times> int list \<times> 's lmcache) result option" where
  "serve_requests so H pre tot [] m = Some (Inr ([], [], m))"
| "serve_requests so H pre tot (r # rs) m = (case process so H pre r m of None \<Rightarrow> None | Some (Inl e) \<Rightarrow> Some (Inl e)
     | Some (Inr (res, m1)) \<Rightarrow> (case serve_requests so H pre tot rs m1 of None \<Rightarrow> None | Some (Inl e) \<Rightarrow> Some (Inl e)
        | Some (Inr (out, foot, m2)) \<Rightarrow> Some (Inr (res # out, tot (lm_store m1) # foot, m2))))"

section \<open>Reporting\<close>

record lm_stats =
  lms_n_requests :: nat
  lms_total_tokens :: nat
  lms_reused_tokens :: nat
  lms_recomputed_tokens :: nat
  lms_hit_rate :: rat
  lms_peak_bytes :: int
  lms_peak_per_tier :: "(string \<times> int) list"
  lms_current_bytes :: int
  lms_resident :: nat
  lms_dropped :: nat
  lms_demotions :: nat
  lms_full_tokens :: nat
  lms_avoided_tokens :: nat
  lms_full_seconds :: rat
  lms_avoided_seconds :: rat
  lms_access_seconds :: rat

definition lmcache_stats :: "'v kvcache store lmcache \<Rightarrow> lm_stats result" where
  "lmcache_stats m = (let st = stats (lm_store m); full = lm_total m; avoided = lm_reused m in
     res_bind (prefill_seconds (lm_cost m) full) (\<lambda>fs. res_bind (prefill_seconds (lm_cost m) avoided) (\<lambda>as.
       Inr \<lparr>lms_n_requests = length (lm_results m), lms_total_tokens = lm_total m, lms_reused_tokens = lm_reused m,
         lms_recomputed_tokens = lm_recomputed m,
         lms_hit_rate = (if lm_total m \<noteq> 0 then rat_of_nat (lm_reused m) / rat_of_nat (lm_total m) else 0),
         lms_peak_bytes = s_peak_total_bytes st,
         lms_peak_per_tier = map (\<lambda>p. (fst p, st_peak (snd p))) (s_tiers st), lms_current_bytes = s_total_bytes st,
         lms_resident = s_n_entries st, lms_dropped = evictions_dropped (lm_store m),
         lms_demotions = demotions (lm_store m), lms_full_tokens = full, lms_avoided_tokens = avoided,
         lms_full_seconds = fs, lms_avoided_seconds = as,
         lms_access_seconds = modeled_access_seconds (lm_store m)\<rparr>)))"

definition tiered_ops :: "('v kvcache, 'v kvcache store) store_ops" where
  "tiered_ops = \<lparr>so_put = put, so_get = get, so_has = has\<rparr>"

section \<open>Scenarios\<close>

text \<open>\<^verbatim>\<open>_transcript_stream\<close>: call \<open>i\<close> of \<^verbatim>\<open>rng.randrange(50000)\<close> is \<open>rnd i\<close>.\<close>

definition draws :: "(nat \<Rightarrow> int) \<Rightarrow> nat \<Rightarrow> nat \<Rightarrow> int list" where
  "draws rnd i n = map rnd [i..<i + n]"

fun stream_loop :: "(nat \<Rightarrow> int) \<Rightarrow> nat \<Rightarrow> nat \<Rightarrow> nat \<Rightarrow> nat \<Rightarrow> int list list \<Rightarrow> int list list \<Rightarrow> int list list \<times> int list list" where
  "stream_loop rnd 0 turn probe i turns requests = (turns, requests)"
| "stream_loop rnd (Suc n) turn probe i turns requests =
     (let turns' = turns @ [draws rnd i turn]; pr = draws rnd (i + turn) probe in
      stream_loop rnd n turn probe (i + turn + probe) turns' (requests @ [concat turns' @ pr]))"

definition transcript_stream :: "(nat \<Rightarrow> int) \<Rightarrow> nat \<Rightarrow> nat \<Rightarrow> nat \<Rightarrow> int list list \<times> int list list" where
  "transcript_stream rnd n_requests turn_tokens probe_tokens = stream_loop rnd n_requests turn_tokens probe_tokens 0 [] []"

definition shared_prefix_requests :: "(nat \<Rightarrow> int) \<Rightarrow> nat \<Rightarrow> nat \<Rightarrow> int list list" where
  "shared_prefix_requests rnd n_requests turn_tokens = snd (transcript_stream rnd n_requests turn_tokens 8)"

definition run_scenario :: "(byte list \<Rightarrow> string) \<Rightarrow> (int list \<Rightarrow> nat \<Rightarrow> 'v kvcache) \<Rightarrow> int list list
    \<Rightarrow> 'v kvcache store \<Rightarrow> int \<Rightarrow> cost_model option \<Rightarrow> (lm_stats \<times> request_result list \<times> int list) result option" where
  "run_scenario H pre requests st bs cost = (case new_lmcache st bs ''default'' cost of Inl e \<Rightarrow> Some (Inl e)
     | Inr m0 \<Rightarrow> (case serve_requests tiered_ops H pre (\<lambda>s. s_total_bytes (stats s)) requests m0 of None \<Rightarrow> None | Some (Inl e) \<Rightarrow> Some (Inl e)
        | Some (Inr (out, foot, m)) \<Rightarrow> Some (res_bind (lmcache_stats m) (\<lambda>st. Inr (st, out, foot)))))"

text \<open>\<^verbatim>\<open>compare_with_dexa\<close>, the working-memory half: the footprint after every turn.\<close>

definition kv_bytes_per_tok :: "model_spec \<Rightarrow> rat" where
  "kv_bytes_per_tok sp = 2 * rat_of_nat (n_layers sp) * rat_of_nat (n_kv_heads sp) * rat_of_nat (head_dim sp) * 4"

fun dexa_series :: "prefill \<Rightarrow> compact_fun \<Rightarrow> (int list \<Rightarrow> vec ref_queries) option \<Rightarrow> rat \<Rightarrow> int list list \<Rightarrow> wm
    \<Rightarrow> (int list \<times> wm) result" where
  "dexa_series pre cmp refq per [] w = Inr ([], w)"
| "dexa_series pre cmp refq per (t # ts) w = (case wm_append pre cmp refq t w of (Inl e, w1) \<Rightarrow> Inl e
     | (Inr u, w1) \<Rightarrow> res_bind (current_tokens w1) (\<lambda>n. res_bind (dexa_series pre cmp refq per ts w1) (\<lambda>(xs, w2).
         Inr (\<lfloor>rat_of_nat n * per\<rfloor> # xs, w2))))"

record comparison =
  cmp_lm_peak :: int
  cmp_lm_series :: "int list"
  cmp_lm_hit_rate :: rat
  cmp_lm_avoided_seconds :: rat
  cmp_dexa_peak :: int
  cmp_dexa_series :: "int list"
  cmp_dexa_budget :: int
  cmp_dexa_compactions :: nat
  cmp_dexa_recompute :: nat
  cmp_n_requests :: nat
  cmp_unique :: nat

definition compare_with_dexa :: "(byte list \<Rightarrow> string) \<Rightarrow> prefill \<Rightarrow> compact_fun \<Rightarrow> (int list \<Rightarrow> vec ref_queries) option \<Rightarrow> model_spec
    \<Rightarrow> (nat \<Rightarrow> int) \<Rightarrow> nat \<Rightarrow> nat \<Rightarrow> int \<Rightarrow> int \<Rightarrow> int \<Rightarrow> cost_model option \<Rightarrow> comparison result option" where
  "compare_with_dexa H pre cmp refq sp rnd n_requests turn_tokens bs budget_tokens keep cost =
    (case transcript_stream rnd n_requests turn_tokens 8 of (turns, requests) \<Rightarrow>
     case new_store None of Inl e \<Rightarrow> Some (Inl e) | Inr st \<Rightarrow>
     case run_scenario H pre requests st bs cost of None \<Rightarrow> None | Some (Inl e) \<Rightarrow> Some (Inl e)
     | Some (Inr (lm, out, foot)) \<Rightarrow>
       Some (res_bind (new_wm sp budget_tokens keep) (\<lambda>w0.
         res_bind (dexa_series pre cmp refq (kv_bytes_per_tok sp) turns w0) (\<lambda>(ser, w).
         res_bind (wm_stats w) (\<lambda>ws. Inr
           \<lparr>cmp_lm_peak = lms_peak_bytes lm, cmp_lm_series = foot, cmp_lm_hit_rate = lms_hit_rate lm,
            cmp_lm_avoided_seconds = lms_avoided_seconds lm,
            cmp_dexa_peak = (if ser = [] then 0 else Max (set ser)), cmp_dexa_series = ser,
            cmp_dexa_budget = \<lfloor>rat_of_int budget_tokens * kv_bytes_per_tok sp\<rfloor>,
            cmp_dexa_compactions = ws_compactions ws, cmp_dexa_recompute = ws_peak_recompute ws,
            cmp_n_requests = n_requests, cmp_unique = sum_list (map length turns)\<rparr>)))))"

section \<open>Pages\<close>

lemma chunk_unfold:
  assumes "0 < sz"
  shows "chunk xs sz = (if xs = [] then [] else take sz xs # chunk (drop sz xs) sz)"
proof (cases "xs = []")
  case True then show ?thesis using assms by (simp add: chunk_def)
next
  case False
  define n where "n = length xs - 1"
  have n: "length xs = Suc n" using False by (simp add: n_def)
  have "(length xs + sz - 1) div sz = Suc ((length (drop sz xs) + sz - 1) div sz)"
  proof (cases "length xs \<le> sz")
    case True
    then have "(n + sz) div sz = Suc (n div sz)" "n div sz = 0" "(sz - 1) div sz = 0" using assms n by simp_all
    then show ?thesis using True n by simp
  next
    case f: False
    then have "length (drop sz xs) + sz - 1 = n" using n by simp
    then show ?thesis using assms n by simp
  qed
  then show ?thesis using False
    by (simp add: chunk_def upt_conv_Cons map_Suc_upt [symmetric] add.commute del: upt_Suc)
qed

definition page_start :: "nat \<Rightarrow> nat \<Rightarrow> nat" where
  "page_start bs n = (n - 1) div bs * bs"

text \<open>What is stored under the key of a prefix: the prefill of its last page at its true offset.\<close>

definition page_kv :: "nat \<Rightarrow> (int list \<Rightarrow> nat \<Rightarrow> 'v kvcache) \<Rightarrow> int list \<Rightarrow> 'v kvcache" where
  "page_kv bs pre ts = pre (drop (page_start bs (length ts)) ts) (page_start bs (length ts))"

definition page_end :: "nat \<Rightarrow> nat \<Rightarrow> nat \<Rightarrow> bool" where
  "page_end bs n e \<longleftrightarrow> e \<le> n \<and> (bs dvd e \<or> e = n)"

definition pages_ok :: "(byte list \<Rightarrow> string) \<Rightarrow> nat \<Rightarrow> (int list \<Rightarrow> nat \<Rightarrow> 'v kvcache) \<Rightarrow> string
    \<Rightarrow> (string \<times> string \<Rightarrow> 'v kvcache option) \<Rightarrow> bool" where
  "pages_ok H bs pre tn c \<longleftrightarrow> (\<forall>k kv. c (tn, k) = Some kv \<longrightarrow>
     (\<exists>ts. ts \<noteq> [] \<and> hash_tokens H ts = Inr k \<and> kv = page_kv bs pre ts))"

lemma pages_okD: "pages_ok H bs pre tn c \<Longrightarrow> c (tn, k) = Some kv \<Longrightarrow>
    \<exists>ts. ts \<noteq> [] \<and> hash_tokens H ts = Inr k \<and> kv = page_kv bs pre ts"
  by (simp add: pages_ok_def)

lemma pages_ok_mono: "pages_ok H bs pre tn c \<Longrightarrow> d \<subseteq>\<^sub>m c \<Longrightarrow> pages_ok H bs pre tn d"
  unfolding pages_ok_def map_le_def by (metis domI)

lemma pages_ok_add:
  assumes "pages_ok H bs pre tn c" "ts \<noteq> []" "hash_tokens H ts = Inr k"
  shows "pages_ok H bs pre tn (c((tn, k) \<mapsto> (case c (tn, k) of None \<Rightarrow> page_kv bs pre ts | Some x \<Rightarrow> x)))"
  using assms by (auto simp: pages_ok_def split: option.splits)

definition hashable :: "int list \<Rightarrow> bool" where
  "hashable ts \<longleftrightarrow> length ts < 2 ^ 64 \<and> list_all int32 ts"

lemma hashable_take: "hashable ts \<Longrightarrow> hashable (take n ts)"
  by (auto simp: hashable_def list_all_iff dest: in_set_takeD)

lemma hashable_key: assumes "hashable ts" shows "\<exists>k. hash_tokens H ts = Inr k"
proof -
  from assms obtain b where "hash_input ts = Inr b" using hash_input_ok_iff [of ts] by (auto simp: hashable_def)
  then show ?thesis by (simp add: hash_tokens_def)
qed

text \<open>One page of the loop: where it starts, where it stops, and what is stored for it.\<close>

lemma page_step:
  assumes bs: "0 < bs" and off: "off < length toks" "bs dvd off"
    and b: "b = take bs (drop off toks)" and stop: "stop = off + length b"
  shows "off < stop" "stop = min (length toks) (off + bs)" "page_end bs (length toks) stop"
    "drop stop toks = drop bs (drop off toks)" "pre b off = page_kv bs pre (take stop toks)" "take stop toks \<noteq> []"
proof -
  show s: "stop = min (length toks) (off + bs)" "off < stop" using bs off(1) b stop by auto
  then show "page_end bs (length toks) stop" using off(2) by (auto simp: page_end_def min_def)
  show "drop stop toks = drop bs (drop off toks)" using s by (auto simp: min_def add.commute)
  show ne: "take stop toks \<noteq> []" using off(1) s(2) by auto
  have len: "length (take stop toks) = stop" using s by simp
  obtain q where q: "off = bs * q" using off(2) by blast
  have "(stop - 1) div bs = q"
    by (rule div_nat_eqI) (use bs q s in \<open>auto simp: algebra_simps min_def\<close>)
  then have "page_start bs stop = off" by (simp add: page_start_def q mult.commute)
  moreover have "drop off (take stop toks) = b" using b s by (auto simp: min_def drop_take)
  ultimately show "pre b off = page_kv bs pre (take stop toks)" by (simp only: page_kv_def len)
qed
section \<open>The loop over the contract of the store\<close>

definition hit_locals :: "nat \<Rightarrow> serve_locals \<Rightarrow> serve_locals" where
  "hit_locals n a = a\<lparr>lp_reused := lp_reused a + n, lp_rblocks := lp_rblocks a + 1, lp_offset := lp_offset a + n\<rparr>"

definition miss_locals :: "nat \<Rightarrow> serve_locals \<Rightarrow> serve_locals" where
  "miss_locals n a = a\<lparr>lp_diverged := True, lp_recomputed := lp_recomputed a + n, lp_cblocks := lp_cblocks a + 1,
     lp_offset := lp_offset a + n\<rparr>"

lemma locals_simps [simp]:
  "lp_offset (hit_locals n a) = lp_offset a + n" "lp_offset (miss_locals n a) = lp_offset a + n"
  "lp_reused (hit_locals n a) = lp_reused a + n" "lp_reused (miss_locals n a) = lp_reused a"
  "lp_recomputed (hit_locals n a) = lp_recomputed a" "lp_recomputed (miss_locals n a) = lp_recomputed a + n"
  "lp_rblocks (hit_locals n a) = lp_rblocks a + 1" "lp_rblocks (miss_locals n a) = lp_rblocks a"
  "lp_cblocks (hit_locals n a) = lp_cblocks a" "lp_cblocks (miss_locals n a) = lp_cblocks a + 1"
  "lp_diverged (hit_locals n a) = lp_diverged a" "lp_diverged (miss_locals n a)"
  by (simp_all add: hit_locals_def miss_locals_def)

text \<open>The counters account for every token before the offset, and what was reused is a run of whole
  pages from the start.\<close>

definition acc_ok :: "nat \<Rightarrow> nat \<Rightarrow> serve_locals \<Rightarrow> bool" where
  "acc_ok bs n a \<longleftrightarrow> lp_offset a \<le> n \<and> (bs dvd lp_offset a \<or> lp_offset a = n) \<and>
     lp_reused a + lp_recomputed a = lp_offset a \<and> lp_reused a = min n (bs * lp_rblocks a) \<and>
     (\<not> lp_diverged a \<longrightarrow> lp_reused a = lp_offset a)"

lemma acc_ok_step:
  assumes a: "acc_ok bs n a" and lt: "lp_offset a < n" and m: "lp_offset a + m = min n (lp_offset a + bs)"
  shows "\<not> lp_diverged a \<Longrightarrow> acc_ok bs n (hit_locals m a)" "acc_ok bs n (miss_locals m a)"
proof -
  have d: "bs dvd lp_offset a" using a lt by (auto simp: acc_ok_def)
  have e: "bs dvd lp_offset a + m \<or> lp_offset a + m = n" using d m by (auto simp: min_def)
  show "acc_ok bs n (miss_locals m a)" using a e m by (auto simp: acc_ok_def)
  assume "\<not> lp_diverged a"
  then have "lp_reused a = bs * lp_rblocks a" "lp_reused a = lp_offset a" using a lt by (auto simp: acc_ok_def min_def split: if_splits)
  then show "acc_ok bs n (hit_locals m a)" using a e m by (auto simp: acc_ok_def algebra_simps)
qed

definition resident_upto :: "(byte list \<Rightarrow> string) \<Rightarrow> nat \<Rightarrow> string \<Rightarrow> int list \<Rightarrow> nat \<Rightarrow> nat
    \<Rightarrow> (string \<times> string \<Rightarrow> 'c option) \<Rightarrow> bool" where
  "resident_upto H bs tn toks lo hi c \<longleftrightarrow> (\<forall>e k. page_end bs (length toks) e \<longrightarrow> lo < e \<longrightarrow> e \<le> hi \<longrightarrow>
     hash_tokens H (take e toks) = Inr k \<longrightarrow> (tn, k) \<in> dom c)"

text \<open>What one request reports: every token is accounted for, and what was reused is a run of whole
  pages from its start.\<close>

definition result_ok :: "nat \<Rightarrow> int list \<Rightarrow> request_result \<Rightarrow> bool" where
  "result_ok bs toks q \<longleftrightarrow> rr_tokens q = length toks \<and> rr_blocks q = (length toks + bs - 1) div bs \<and>
     rr_reused_tokens q + rr_recomputed_tokens q = length toks \<and>
     rr_reused_blocks q + rr_recomputed_blocks q = rr_blocks q \<and>
     rr_reused_tokens q = min (length toks) (bs * rr_reused_blocks q)"

lemma acc_ok_start [simp]: "acc_ok bs n locals0"
  by (simp add: acc_ok_def locals0_def)

locale page_cache = counted_store st_put st_get st_has st_inv st_contents st_tenant st_drops
  for st_put :: "string \<Rightarrow> string \<Rightarrow> 'v kvcache \<Rightarrow> nat \<Rightarrow> 's \<Rightarrow> (string \<times> 's) result option"
    and st_get :: "string \<Rightarrow> 's \<Rightarrow> ('v kvcache option \<times> 's) result option"
    and st_has :: "string \<Rightarrow> string \<Rightarrow> 's \<Rightarrow> string option \<times> 's"
    and st_inv :: "'s \<Rightarrow> bool"
    and st_contents :: "'s \<Rightarrow> string \<times> string \<Rightarrow> 'v kvcache option"
    and st_tenant :: "string \<Rightarrow> bool"
    and st_drops :: "'s \<Rightarrow> nat"
begin

abbreviation ops :: "('v kvcache, 's) store_ops" where
  "ops \<equiv> \<lparr>so_put = st_put, so_get = st_get, so_has = st_has\<rparr>"

abbreviation filled :: "string \<Rightarrow> string \<Rightarrow> 'v kvcache \<Rightarrow> 's \<Rightarrow> string \<times> string \<Rightarrow> 'v kvcache option" where
  "filled tn k x s \<equiv> (st_contents s)((tn, k) \<mapsto> (case st_contents s (tn, k) of None \<Rightarrow> x | Some x0 \<Rightarrow> x0))"

lemma serve_step:
  assumes i: "st_inv s" and tn: "st_tenant tn" and k: "hash_tokens H (take (lp_offset a + length b) toks) = Inr k"
  shows "\<exists>s1. serve_blocks ops H pre tn toks (b # bl) a s = serve_blocks ops H pre tn toks bl
      (if \<not> lp_diverged a \<and> st_contents s (tn, k) \<noteq> None then hit_locals (length b) a else miss_locals (length b) a) s1
    \<and> st_inv s1 \<and> st_contents s1 \<subseteq>\<^sub>m filled tn k (pre b (lp_offset a)) s \<and> st_drops s \<le> st_drops s1
    \<and> (st_drops s1 = st_drops s \<longrightarrow> st_contents s1 = filled tn k (pre b (lp_offset a)) s)"
proof (cases "\<not> lp_diverged a \<and> st_contents s (tn, k) \<noteq> None")
  case True
  then obtain x where x: "st_contents s (tn, k) = Some x" by auto
  then obtain h where h: "fst (st_has tn k s) = Some h" using has_law [OF i, of tn k] by auto
  from get_law [OF i h] obtain s1 where
    g: "st_get h (snd (st_has tn k s)) = Some (Inr (st_contents s (tn, k), s1))" "st_inv s1" "st_contents s1 \<subseteq>\<^sub>m st_contents s"
    by blast
  have f: "filled tn k (pre b (lp_offset a)) s = st_contents s" using x by auto
  have "serve_blocks ops H pre tn toks (b # bl) a s = serve_blocks ops H pre tn toks bl (hit_locals (length b) a) s1"
    using True h g(1) k by (simp add: Let_def hit_locals_def prod.case_eq_if)
  with True f g(2,3) get_keeps [OF i h g(1)] show ?thesis by auto
next
  case False
  define s0 where "s0 = snd (st_has tn k s)"
  let ?kv = "pre b (lp_offset a)"
  have s0: "st_inv s0" "st_contents s0 = st_contents s" "st_drops s0 = st_drops s" and h: "fst (st_has tn k s) \<noteq> None \<longleftrightarrow> st_contents s (tn, k) \<noteq> None"
    using has_law [OF i, of tn k] has_keeps [of tn k s] by (simp_all add: s0_def)
  from put_law [OF s0(1) tn, of k ?kv "kv_nbytes ?kv"] obtain hd s1 where
    p: "st_put tn k ?kv (kv_nbytes ?kv) s0 = Some (Inr (hd, s1))" "st_inv s1" "st_contents s1 \<subseteq>\<^sub>m filled tn k ?kv s"
    unfolding s0(2) by blast
  have "serve_blocks ops H pre tn toks (b # bl) a s = serve_blocks ops H pre tn toks bl (miss_locals (length b) a) s1"
    using False h p(1) k
    by (cases "lp_diverged a"; cases "fst (st_has tn k s)") (auto simp: Let_def miss_locals_def prod.case_eq_if s0_def)
  with False p(2,3) put_keeps [OF s0(1) tn p(1)] s0 show ?thesis by auto
qed

text \<open>One page of the loop, from a state that satisfies the invariants.\<close>

lemma serve_page:
  assumes bs: "0 < bs" and tn: "st_tenant tn" and h: "hashable toks"
    and i: "st_inv s" "acc_ok bs (length toks) a" "pages_ok H bs pre tn (st_contents s)"
    and ch: "b # bl = chunk (drop (lp_offset a) toks) bs"
  obtains k a1 s1 where
    "serve_blocks ops H pre tn toks (b # bl) a s = serve_blocks ops H pre tn toks bl a1 s1"
    "st_inv s1" "acc_ok bs (length toks) a1" "pages_ok H bs pre tn (st_contents s1)"
    "bl = chunk (drop (lp_offset a1) toks) bs" "hash_tokens H (take (lp_offset a1) toks) = Inr k"
    "page_end bs (length toks) (lp_offset a1)" "lp_offset a < lp_offset a1"
    "\<And>e. page_end bs (length toks) e \<Longrightarrow> lp_offset a < e \<Longrightarrow> lp_offset a1 \<le> e"
    "st_drops s \<le> st_drops s1" "st_drops s1 = st_drops s \<longrightarrow> dom (st_contents s1) = insert (tn, k) (dom (st_contents s))"
    "\<not> lp_diverged a \<Longrightarrow> (tn, k) \<in> dom (st_contents s) \<Longrightarrow> \<not> lp_diverged a1"
    "lp_rblocks a1 + lp_cblocks a1 = lp_rblocks a + lp_cblocks a + 1" "lp_reused a \<le> lp_reused a1"
proof -
  note cu = chunk_unfold [OF bs, of "drop (lp_offset a) toks"]
  have ne: "drop (lp_offset a) toks \<noteq> []" using ch cu by auto
  then have lt: "lp_offset a < length toks" by simp
  with i(2) have d: "bs dvd lp_offset a" by (auto simp: acc_ok_def)
  have b: "b = take bs (drop (lp_offset a) toks)" and bl: "bl = chunk (drop bs (drop (lp_offset a) toks)) bs"
    using ch cu ne by auto
  define stop where "stop = lp_offset a + length b"
  note P = page_step [OF bs lt d b stop_def]
  obtain k where k: "hash_tokens H (take stop toks) = Inr k" using hashable_key [OF hashable_take [OF h]] by blast
  define a1 where "a1 = (if \<not> lp_diverged a \<and> st_contents s (tn, k) \<noteq> None then hit_locals (length b) a else miss_locals (length b) a)"
  from serve_step [OF i(1) tn k [unfolded stop_def], of pre bl] obtain s1 where
    s1: "serve_blocks ops H pre tn toks (b # bl) a s = serve_blocks ops H pre tn toks bl a1 s1" "st_inv s1"
      "st_contents s1 \<subseteq>\<^sub>m filled tn k (pre b (lp_offset a)) s" "st_drops s \<le> st_drops s1"
      "st_drops s1 = st_drops s \<longrightarrow> st_contents s1 = filled tn k (pre b (lp_offset a)) s"
    unfolding a1_def by blast
  have o1: "lp_offset a1 = stop" by (simp add: a1_def stop_def)
  have A: "acc_ok bs (length toks) a1"
    using acc_ok_step [OF i(2) lt] P(2) by (auto simp: a1_def stop_def)
  have G: "pages_ok H bs pre tn (st_contents s1)"
    by (rule pages_ok_mono [OF pages_ok_add [OF i(3) P(6) k] s1(3) [unfolded P(5)]])
  have nxt: "stop \<le> e" if "page_end bs (length toks) e" "lp_offset a < e" for e
  proof -
    have "lp_offset a + bs \<le> e \<or> e = length toks"
    proof (cases "bs dvd e")
      case True
      then have "bs dvd e - lp_offset a" using d by simp
      then have "bs \<le> e - lp_offset a" using that(2) by (intro dvd_imp_le) auto
      then have "lp_offset a + bs \<le> e" using that(2) by linarith
      then show ?thesis ..
    qed (use that in \<open>simp add: page_end_def\<close>)
    then show ?thesis using P(2) by auto
  qed
  show thesis
  proof (rule that [OF s1(1,2) A G])
    show "bl = chunk (drop (lp_offset a1) toks) bs" using bl P(4) o1 by simp
    show "st_drops s1 = st_drops s \<longrightarrow> dom (st_contents s1) = insert (tn, k) (dom (st_contents s))"
      using s1(5) by auto
    show "\<not> lp_diverged a1" if "\<not> lp_diverged a" "(tn, k) \<in> dom (st_contents s)" using that by (auto simp: a1_def)
    show "lp_rblocks a1 + lp_cblocks a1 = lp_rblocks a + lp_cblocks a + 1" "lp_reused a \<le> lp_reused a1" by (auto simp: a1_def)
  qed (use k P(1,3) nxt o1 s1(4) in auto)
qed

text \<open>Serving returns, keeps the store sound and accounts for every token.\<close>

lemma serve_ok:
  assumes bs: "0 < bs" and tn: "st_tenant tn" and h: "hashable toks"
  shows "st_inv s \<Longrightarrow> acc_ok bs (length toks) a \<Longrightarrow> pages_ok H bs pre tn (st_contents s) \<Longrightarrow>
    bl = chunk (drop (lp_offset a) toks) bs \<Longrightarrow>
    \<exists>a' s'. serve_blocks ops H pre tn toks bl a s = Some (Inr (a', s')) \<and> st_inv s' \<and> acc_ok bs (length toks) a'
      \<and> lp_offset a' = length toks \<and> lp_rblocks a' + lp_cblocks a' = lp_rblocks a + lp_cblocks a + length bl
      \<and> lp_reused a \<le> lp_reused a' \<and> pages_ok H bs pre tn (st_contents s') \<and> st_drops s \<le> st_drops s'"
proof (induction bl arbitrary: a s)
  case Nil
  then have "lp_offset a = length toks"
    using chunk_unfold [OF bs, of "drop (lp_offset a) toks"] by (auto simp: acc_ok_def split: if_splits)
  then show ?case using Nil.prems by simp
next
  case (Cons b bl)
  from serve_page [OF bs tn h Cons.prems(1-4)] obtain k a1 s1 where
    s1: "serve_blocks ops H pre tn toks (b # bl) a s = serve_blocks ops H pre tn toks bl a1 s1"
      "st_inv s1" "acc_ok bs (length toks) a1" "pages_ok H bs pre tn (st_contents s1)"
      "bl = chunk (drop (lp_offset a1) toks) bs" "st_drops s \<le> st_drops s1"
      "lp_rblocks a1 + lp_cblocks a1 = lp_rblocks a + lp_cblocks a + 1" "lp_reused a \<le> lp_reused a1" by metis
  from Cons.IH [OF s1(2-5)] s1 show ?case by auto
qed

text \<open>Serving without a drop leaves everything resident, every page of the request included, and
  reuses every page that was resident before.\<close>

lemma serve_full:
  assumes bs: "0 < bs" and tn: "st_tenant tn" and h: "hashable toks"
  shows "st_inv s \<Longrightarrow> acc_ok bs (length toks) a \<Longrightarrow> pages_ok H bs pre tn (st_contents s) \<Longrightarrow>
    bl = chunk (drop (lp_offset a) toks) bs \<Longrightarrow> serve_blocks ops H pre tn toks bl a s = Some (Inr (a', s')) \<Longrightarrow>
    st_drops s' = st_drops s \<Longrightarrow>
    dom (st_contents s) \<subseteq> dom (st_contents s') \<and> resident_upto H bs tn toks (lp_offset a) (length toks) (st_contents s') \<and>
    (\<forall>m. \<not> lp_diverged a \<longrightarrow> page_end bs (length toks) m \<longrightarrow> resident_upto H bs tn toks 0 m (st_contents s) \<longrightarrow> m \<le> lp_reused a')"
proof (induction bl arbitrary: a s)
  case Nil
  then have "lp_offset a = length toks"
    using chunk_unfold [OF bs, of "drop (lp_offset a) toks"] by (auto simp: acc_ok_def split: if_splits)
  then show ?case using Nil.prems by (auto simp: page_end_def acc_ok_def resident_upto_def)
next
  case (Cons b bl)
  from serve_page [OF bs tn h Cons.prems(1-4)] obtain k a1 s1 where
    s1: "serve_blocks ops H pre tn toks (b # bl) a s = serve_blocks ops H pre tn toks bl a1 s1"
      "st_inv s1" "acc_ok bs (length toks) a1" "pages_ok H bs pre tn (st_contents s1)"
      "bl = chunk (drop (lp_offset a1) toks) bs" and k: "hash_tokens H (take (lp_offset a1) toks) = Inr k"
    and e: "page_end bs (length toks) (lp_offset a1)" "lp_offset a < lp_offset a1"
      "\<And>e. page_end bs (length toks) e \<Longrightarrow> lp_offset a < e \<Longrightarrow> lp_offset a1 \<le> e"
    and d: "st_drops s \<le> st_drops s1" "st_drops s1 = st_drops s \<longrightarrow> dom (st_contents s1) = insert (tn, k) (dom (st_contents s))"
    and nd: "\<not> lp_diverged a \<Longrightarrow> (tn, k) \<in> dom (st_contents s) \<Longrightarrow> \<not> lp_diverged a1"
    and r: "lp_reused a \<le> lp_reused a1" by metis
  have run: "serve_blocks ops H pre tn toks bl a1 s1 = Some (Inr (a', s'))" using Cons.prems(5) s1(1) by simp
  from serve_ok [OF bs tn h s1(2-5)] run have mono: "st_drops s1 \<le> st_drops s'" "lp_reused a1 \<le> lp_reused a'" by auto
  with d Cons.prems(6) have eq: "st_drops s' = st_drops s1" "dom (st_contents s1) = insert (tn, k) (dom (st_contents s))" by auto
  from Cons.IH [OF s1(2-5) run eq(1)] eq(2) have
    I: "insert (tn, k) (dom (st_contents s)) \<subseteq> dom (st_contents s')" "resident_upto H bs tn toks (lp_offset a1) (length toks) (st_contents s')"
      "\<And>m. \<not> lp_diverged a1 \<Longrightarrow> page_end bs (length toks) m \<Longrightarrow> resident_upto H bs tn toks 0 m (st_contents s1) \<Longrightarrow> m \<le> lp_reused a'"
    by auto
  have "resident_upto H bs tn toks (lp_offset a) (length toks) (st_contents s')"
    unfolding resident_upto_def
  proof (intro allI impI)
    fix f k' assume f: "page_end bs (length toks) f" "lp_offset a < f" "f \<le> length toks" "hash_tokens H (take f toks) = Inr k'"
    show "(tn, k') \<in> dom (st_contents s')"
    proof (cases "f = lp_offset a1")
      case True then show ?thesis using f(4) k I(1) by auto
    next
      case False
      then have "lp_offset a1 < f" using e(3) [OF f(1,2)] by simp
      then show ?thesis using I(2) f unfolding resident_upto_def by blast
    qed
  qed
  moreover have "m \<le> lp_reused a'"
    if u: "\<not> lp_diverged a" "page_end bs (length toks) m" "resident_upto H bs tn toks 0 m (st_contents s)" for m
  proof (cases "lp_offset a < m")
    case False
    moreover have "lp_reused a = lp_offset a" using u(1) Cons.prems(2) unfolding acc_ok_def by blast
    ultimately have "m \<le> lp_reused a" by simp
    then show ?thesis using mono(2) r by simp
  next
    case True
    then have "lp_offset a1 \<le> m" "0 < lp_offset a1" using e(2) e(3) [OF u(2)] by auto
    then have "(tn, k) \<in> dom (st_contents s)" using u(3) e(1) k unfolding resident_upto_def by blast
    then have "\<not> lp_diverged a1" by (rule nd [OF u(1)])
    moreover have "resident_upto H bs tn toks 0 m (st_contents s1)" using u(3) eq(2) unfolding resident_upto_def by blast
    ultimately show ?thesis using I(3) u(2) by blast
  qed
  ultimately show ?case using I(1) by blast
qed

text \<open>A request and a run of requests.\<close>

abbreviation lm_sane :: "(byte list \<Rightarrow> string) \<Rightarrow> (int list \<Rightarrow> nat \<Rightarrow> 'v kvcache) \<Rightarrow> 's lmcache \<Rightarrow> bool" where
  "lm_sane H pre m \<equiv> 0 < lm_block m \<and> st_tenant (lm_tenant m) \<and> st_inv (lm_store m) \<and>
     pages_ok H (lm_block m) pre (lm_tenant m) (st_contents (lm_store m)) \<and>
     lm_reused m + lm_recomputed m = lm_total m"

lemma process_ok:
  assumes m: "lm_sane H pre m" and h: "hashable toks"
  shows "\<exists>q m1. process ops H pre toks m = Some (Inr (q, m1)) \<and> lm_sane H pre m1 \<and> result_ok (lm_block m) toks q
    \<and> lm_block m1 = lm_block m \<and> lm_tenant m1 = lm_tenant m \<and> lm_total m1 = lm_total m + length toks
    \<and> st_drops (lm_store m) \<le> st_drops (lm_store m1)"
proof -
  let ?bs = "lm_block m" and ?tn = "lm_tenant m" and ?s = "lm_store m"
  from m have "0 < ?bs" "st_tenant ?tn" "st_inv ?s" "pages_ok H ?bs pre ?tn (st_contents ?s)" by auto
  from serve_ok [OF this(1,2) h this(3) acc_ok_start this(4) refl] obtain a s where
    r: "serve_blocks ops H pre ?tn toks (chunk toks ?bs) locals0 ?s = Some (Inr (a, s))" "st_inv s"
      "acc_ok ?bs (length toks) a" "lp_offset a = length toks" "lp_rblocks a + lp_cblocks a = length (chunk toks ?bs)"
      "pages_ok H ?bs pre ?tn (st_contents s)" "st_drops ?s \<le> st_drops s"
    by (auto simp: locals0_def)
  have n: "length (chunk toks ?bs) = (length toks + ?bs - 1) div ?bs" by (simp add: chunk_def)
  show ?thesis using r m n by (auto simp: process_def Let_def result_ok_def acc_ok_def)
qed

lemma process_full:
  assumes m: "lm_sane H pre m" and h: "hashable toks"
    and p: "process ops H pre toks m = Some (Inr (q, m1))" and d: "st_drops (lm_store m1) = st_drops (lm_store m)"
  shows "dom (st_contents (lm_store m)) \<subseteq> dom (st_contents (lm_store m1))"
    "resident_upto H (lm_block m) (lm_tenant m) toks 0 (length toks) (st_contents (lm_store m1))"
    "page_end (lm_block m) (length toks) n \<Longrightarrow>
       resident_upto H (lm_block m) (lm_tenant m) toks 0 n (st_contents (lm_store m)) \<Longrightarrow> n \<le> rr_reused_tokens q"
proof -
  let ?bs = "lm_block m" and ?tn = "lm_tenant m" and ?s = "lm_store m"
  from m have c: "0 < ?bs" "st_tenant ?tn" "st_inv ?s" "pages_ok H ?bs pre ?tn (st_contents ?s)" by auto
  from p obtain a s where r: "serve_blocks ops H pre ?tn toks (chunk toks ?bs) locals0 ?s = Some (Inr (a, s))"
    "rr_reused_tokens q = lp_reused a" "lm_store m1 = s"
    by (auto simp: process_def Let_def split: option.splits sum.splits prod.splits)
  have ch: "chunk toks ?bs = chunk (drop (lp_offset locals0) toks) ?bs" by (simp add: locals0_def)
  from serve_full [OF c(1,2) h c(3) acc_ok_start c(4) ch r(1)] d r(2,3)
  show "dom (st_contents ?s) \<subseteq> dom (st_contents (lm_store m1))"
    "resident_upto H ?bs ?tn toks 0 (length toks) (st_contents (lm_store m1))"
    "page_end ?bs (length toks) n \<Longrightarrow> resident_upto H ?bs ?tn toks 0 n (st_contents ?s) \<Longrightarrow> n \<le> rr_reused_tokens q"
    by (auto simp: locals0_def)
qed

lemma requests_ok:
  "lm_sane H pre m \<Longrightarrow> list_all hashable rs \<Longrightarrow>
    \<exists>out foot m1. serve_requests ops H pre tot rs m = Some (Inr (out, foot, m1)) \<and> lm_sane H pre m1
      \<and> list_all2 (result_ok (lm_block m)) rs out \<and> lm_total m1 = lm_total m + sum_list (map length rs)
      \<and> lm_block m1 = lm_block m \<and> lm_tenant m1 = lm_tenant m \<and> st_drops (lm_store m) \<le> st_drops (lm_store m1)"
proof (induction rs arbitrary: m)
  case (Cons r rs)
  have hr: "hashable r" using Cons.prems(2) by simp
  from process_ok [OF Cons.prems(1) hr] obtain q m1 where
    p: "process ops H pre r m = Some (Inr (q, m1))" "lm_sane H pre m1" "result_ok (lm_block m) r q"
      "lm_block m1 = lm_block m" "lm_tenant m1 = lm_tenant m" "lm_total m1 = lm_total m + length r"
      "st_drops (lm_store m) \<le> st_drops (lm_store m1)" by blast
  from Cons.IH [OF p(2)] Cons.prems(2) obtain out foot m2 where
    q: "serve_requests ops H pre tot rs m1 = Some (Inr (out, foot, m2))" "lm_sane H pre m2"
      "list_all2 (result_ok (lm_block m1)) rs out" "lm_total m2 = lm_total m1 + sum_list (map length rs)"
      "lm_block m2 = lm_block m1" "lm_tenant m2 = lm_tenant m1" "st_drops (lm_store m1) \<le> st_drops (lm_store m2)" by auto
  have "serve_requests ops H pre tot (r # rs) m = Some (Inr (q # out, tot (lm_store m1) # foot, m2))" using p(1) q(1) by simp
  then show ?case using p q by auto
qed simp

lemma requests_full:
  "lm_sane H pre m \<Longrightarrow> list_all hashable rs \<Longrightarrow> serve_requests ops H pre tot rs m = Some (Inr (out, foot, m1)) \<Longrightarrow>
    st_drops (lm_store m1) = st_drops (lm_store m) \<Longrightarrow>
    dom (st_contents (lm_store m)) \<subseteq> dom (st_contents (lm_store m1)) \<and>
    (\<forall>r \<in> set rs. resident_upto H (lm_block m) (lm_tenant m) r 0 (length r) (st_contents (lm_store m1)))"
proof (induction rs arbitrary: m out foot)
  case (Cons r rs)
  have h: "hashable r" "list_all hashable rs" using Cons.prems(2) by auto
  from process_ok [OF Cons.prems(1) h(1)] obtain q m2 where
    p: "process ops H pre r m = Some (Inr (q, m2))" "lm_sane H pre m2" "lm_block m2 = lm_block m" "lm_tenant m2 = lm_tenant m"
      "st_drops (lm_store m) \<le> st_drops (lm_store m2)" by blast
  from Cons.prems(3) p(1) obtain out' foot' where s: "serve_requests ops H pre tot rs m2 = Some (Inr (out', foot', m1))"
    by (auto split: option.splits sum.splits prod.splits)
  from requests_ok [OF p(2) h(2), of tot] s have "st_drops (lm_store m2) \<le> st_drops (lm_store m1)" by auto
  with p(5) Cons.prems(4) have d: "st_drops (lm_store m2) = st_drops (lm_store m)" "st_drops (lm_store m1) = st_drops (lm_store m2)" by auto
  note F = process_full [OF Cons.prems(1) h(1) p(1) d(1)] and I = Cons.IH [OF p(2) h(2) s d(2)]
  have "resident_upto H (lm_block m) (lm_tenant m) r 0 (length r) (st_contents (lm_store m1))"
    using F(2) I unfolding resident_upto_def by blast
  with F(1) I p(3,4) show ?case by auto
qed simp

text \<open>A request is served from the cache as far as it shares pages with an earlier one.\<close>

lemma shared_prefix:
  assumes m: "lm_sane H pre m" and h: "list_all hashable rs" "hashable toks"
    and run: "serve_requests ops H pre tot rs m = Some (Inr (out, foot, m1))"
    and p: "process ops H pre toks m1 = Some (Inr (q, m2))" and d: "st_drops (lm_store m2) = st_drops (lm_store m)"
    and r: "r \<in> set rs" "take n r = take n toks" "page_end (lm_block m) (length r) n" "page_end (lm_block m) (length toks) n"
  shows "n \<le> rr_reused_tokens q"
proof -
  from requests_ok [OF m h(1), of tot] run have m1: "lm_sane H pre m1" "lm_block m1 = lm_block m" "lm_tenant m1 = lm_tenant m"
    "st_drops (lm_store m) \<le> st_drops (lm_store m1)" by auto
  from process_ok [OF m1(1) h(2)] p have "st_drops (lm_store m1) \<le> st_drops (lm_store m2)" by auto
  with m1(4) d have e: "st_drops (lm_store m1) = st_drops (lm_store m)" "st_drops (lm_store m2) = st_drops (lm_store m1)" by auto
  have R: "resident_upto H (lm_block m) (lm_tenant m) r 0 (length r) (st_contents (lm_store m1))"
    using requests_full [OF m h(1) run e(1)] r(1) by blast
  have "resident_upto H (lm_block m) (lm_tenant m) toks 0 n (st_contents (lm_store m1))"
    unfolding resident_upto_def
  proof (intro allI impI)
    fix f k assume f: "page_end (lm_block m) (length toks) f" "0 < f" "f \<le> n" "hash_tokens H (take f toks) = Inr k"
    have "take f toks = take f (take n toks)" using f(3) by (simp add: min_def)
    also have "\<dots> = take f r" using f(3) r(2) by (metis min.absorb1 take_take)
    finally have "hash_tokens H (take f r) = Inr k" using f(4) by simp
    moreover have "page_end (lm_block m) (length r) f"
      using f r(3,4) by (auto simp: page_end_def)
    moreover have "f \<le> length r" using f(3) r(3) by (simp add: page_end_def)
    ultimately show "(lm_tenant m, k) \<in> dom (st_contents (lm_store m1))" using R f(2) unfolding resident_upto_def by blast
  qed
  then show ?thesis using process_full(3) [OF m1(1) h(2) p e(2)] r(4) m1(2,3) by simp
qed

end

interpretation pages: page_cache put get has store_inv contents "\<lambda>tn. CHR '':'' \<notin> set tn" evictions_dropped
  by unfold_locales

section \<open>Properties\<close>

lemma new_lmcache_sane:
  assumes s: "new_store ts = Inr s0" "distinct (tier_names s0)" "caps_ok s0"
    and m: "new_lmcache s0 bs tn cost = Inr m0" "CHR '':'' \<notin> set tn"
  shows "0 < lm_block m0 \<and> CHR '':'' \<notin> set (lm_tenant m0) \<and> store_inv (lm_store m0) \<and>
     pages_ok H (lm_block m0) pre (lm_tenant m0) (contents (lm_store m0)) \<and> lm_reused m0 + lm_recomputed m0 = lm_total m0"
    "lm_block m0 = nat bs" "lm_tenant m0 = tn" "lm_store m0 = s0" "lm_total m0 = 0" "evictions_dropped s0 = 0"
  using new_store_inv [OF s] s(1) m
  by (auto simp: new_lmcache_def pages_ok_def new_store_def Let_def split: if_splits)

text \<open>C22. The reuse cache serves any sequence of requests: every request returns, raises nothing, and
  its tokens are split exactly into a reused run of whole pages at its start and a recomputed rest; the
  totals add up; and whatever is resident for the tenant under a key is the prefill of the last page of
  a prefix with that key, at that page's true offset, so a hit never loads the KV of other tokens
  unless two prefixes have the same hash.\<close>

theorem lmcache_sound:
  assumes "new_store ts = Inr s0" "distinct (tier_names s0)" "caps_ok s0"
    and "new_lmcache s0 bs tn cost = Inr m0" "CHR '':'' \<notin> set tn" "list_all hashable rs"
  shows "\<exists>out foot m. serve_requests tiered_ops H pre tot rs m0 = Some (Inr (out, foot, m)) \<and>
    list_all2 (result_ok (nat bs)) rs out \<and> lm_total m = sum_list (map length rs) \<and>
    lm_reused m + lm_recomputed m = lm_total m \<and>
    (\<forall>k kv. contents (lm_store m) (tn, k) = Some kv \<longrightarrow>
      (\<exists>p. p \<noteq> [] \<and> hash_tokens H p = Inr k \<and> kv = page_kv (nat bs) pre p))"
proof -
  note N = new_lmcache_sane [OF assms(1-5)]
  from pages.requests_ok [OF N(1) [where H = H and pre = pre] assms(6), where tot = tot] obtain out foot m where
    "serve_requests tiered_ops H pre tot rs m0 = Some (Inr (out, foot, m))" "lm_reused m + lm_recomputed m = lm_total m"
    "list_all2 (result_ok (lm_block m0)) rs out" "lm_total m = lm_total m0 + sum_list (map length rs)"
    "pages_ok H (lm_block m) pre (lm_tenant m) (contents (lm_store m))" "lm_block m = lm_block m0" "lm_tenant m = lm_tenant m0"
    by (auto simp: tiered_ops_def)
  then show ?thesis using N(2,3,5) pages_okD by fastforce
qed

definition prefix_demo_hash :: "byte list \<Rightarrow> string" where
  "prefix_demo_hash b = (if length b \<le> 16 then ''x'' else if length b \<le> 20 then ''y'' else ''z'')"

definition demo_pre :: "int list \<Rightarrow> nat \<Rightarrow> int kvcache" where
  "demo_pre ts off = fake_prefill tiny_spec (\<lambda>t l h b. t) ts off"

definition demo_big :: "int kvcache store" where
  "demo_big = \<lparr>tiers = default_tiers 1000 1000 1000, entries = [], index = [], clock = 0, used = (\<lambda>_. 0), peak = (\<lambda>_. 0),
     reuse_lookups = 0, reuse_hits = 0, gets = 0, get_hits = 0, get_misses = 0,
     demotions = 0, promotions = 0, evictions_dropped = 0, modeled_access_seconds = 0\<rparr>"

definition demo_lm :: "int kvcache store lmcache" where
  "demo_lm = \<lparr>lm_store = demo_big, lm_block = 2, lm_tenant = ''default'', lm_cost = default_cost_model, lm_results = [],
     lm_total = 0, lm_reused = 0, lm_recomputed = 0\<rparr>"

lemma demo_lm_ok:
  "new_store (Some (default_tiers 1000 1000 1000)) = Inr demo_big" "distinct (tier_names demo_big)" "caps_ok demo_big"
  "new_lmcache demo_big 2 ''default'' None = Inr demo_lm" "CHR '':'' \<notin> set ''default''"
  by (simp_all add: new_store_def demo_big_def default_tiers_def tier_names_def caps_ok_def new_lmcache_def demo_lm_def)

lemma demo_hashable: "hashable [1, 2, 3]" "hashable [1, 2, 4, 5]"
  by (simp_all add: hashable_def int32_def)

theorem lmcache_sound_witness:
  "\<exists>out foot m. serve_requests tiered_ops prefix_demo_hash demo_pre (\<lambda>s. s_total_bytes (stats s)) [[1, 2, 3], [1, 2, 4, 5]] demo_lm
      = Some (Inr (out, foot, m)) \<and> lm_total m = 7 \<and> lm_reused m + lm_recomputed m = 7"
  using lmcache_sound [OF demo_lm_ok, of "[[1, 2, 3], [1, 2, 4, 5]]" prefix_demo_hash demo_pre "\<lambda>s. s_total_bytes (stats s)"]
    demo_hashable by auto

text \<open>C23. Reuse is complete up to eviction: if the store dropped nothing, a request that shares its first
  \<open>n\<close> tokens with any request served before, where \<open>n\<close> ends a page of both, recomputes none of them.
  In particular a request sent again is served from the cache whole.\<close>

theorem lmcache_reuse_complete:
  assumes "new_store ts = Inr s0" "distinct (tier_names s0)" "caps_ok s0"
    and "new_lmcache s0 bs tn cost = Inr m0" "CHR '':'' \<notin> set tn" "list_all hashable rs" "hashable toks"
    and "serve_requests tiered_ops H pre tot rs m0 = Some (Inr (out, foot, m1))"
    and "process tiered_ops H pre toks m1 = Some (Inr (q, m2))" "evictions_dropped (lm_store m2) = 0"
    and "r \<in> set rs" "take n r = take n toks" "page_end (nat bs) (length r) n" "page_end (nat bs) (length toks) n"
  shows "n \<le> rr_reused_tokens q \<and> rr_recomputed_tokens q \<le> length toks - n"
proof -
  note N = new_lmcache_sane [OF assms(1-5)]
  have "n \<le> rr_reused_tokens q"
    by (rule pages.shared_prefix [OF N(1) [where H = H and pre = pre] assms(6,7) assms(8,9) [unfolded tiered_ops_def] _ assms(11,12)])
      (use assms(10,13,14) N(2,4,6) in simp_all)
  moreover have "rr_reused_tokens q + rr_recomputed_tokens q = length toks"
  proof -
    from pages.requests_ok [OF N(1) [where H = H and pre = pre] assms(6), where tot = tot] assms(8) have m1: "0 < lm_block m1 \<and> CHR '':'' \<notin> set (lm_tenant m1) \<and> store_inv (lm_store m1) \<and>
       pages_ok H (lm_block m1) pre (lm_tenant m1) (contents (lm_store m1)) \<and> lm_reused m1 + lm_recomputed m1 = lm_total m1"
      by (auto simp: tiered_ops_def)
    from pages.process_ok [OF m1 assms(7)] assms(9) show ?thesis by (auto simp: tiered_ops_def result_ok_def)
  qed
  ultimately show ?thesis by simp
qed

theorem lmcache_reuse_complete_witness:
  "\<exists>out foot m1 q m2. serve_requests tiered_ops prefix_demo_hash demo_pre (\<lambda>s. s_total_bytes (stats s)) [[1, 2, 3]] demo_lm = Some (Inr (out, foot, m1)) \<and>
    process tiered_ops prefix_demo_hash demo_pre [1, 2, 4, 5] m1 = Some (Inr (q, m2)) \<and> 2 \<le> rr_reused_tokens q \<and> rr_recomputed_tokens q \<le> 2"
proof -
  have pg: "demo_pre ts off = \<lparr>kv_spec = tiny_spec, kv_layers = [\<lparr>lkey = [ts], lval = [ts]\<rparr>],
      kv_positions = arange off (off + length ts), kv_token_ids = Some ts\<rparr>" for ts off
    by (simp add: demo_pre_def fake_prefill_def fake_layers_def)
  have nb: "kv_nbytes (demo_pre ts off) = 8 * length ts" for ts off
    by (simp add: pg kv_nbytes_def rows_bytes_def)
  have u2: "[0..<2] = [0, 1::nat]" by (simp add: upt_rec)
  have "\<exists>out foot m1 q m2. serve_requests tiered_ops prefix_demo_hash demo_pre (\<lambda>s. s_total_bytes (stats s)) [[1, 2, 3]] demo_lm = Some (Inr (out, foot, m1)) \<and>
    process tiered_ops prefix_demo_hash demo_pre [1, 2, 4, 5] m1 = Some (Inr (q, m2)) \<and> evictions_dropped (lm_store m2) = 0"
    by (simp add: process_def chunk_def tiered_ops_def demo_lm_def demo_big_def locals0_def store_eval default_tiers_def
        hash_tokens_def hash_input_def len_bytes_def token_bytes_def le_bytes_numeral prefix_demo_hash_def nb u2)
  then obtain out foot m1 q m2 where r: "serve_requests tiered_ops prefix_demo_hash demo_pre (\<lambda>s. s_total_bytes (stats s)) [[1, 2, 3]] demo_lm = Some (Inr (out, foot, m1))"
    "process tiered_ops prefix_demo_hash demo_pre [1, 2, 4, 5] m1 = Some (Inr (q, m2))" "evictions_dropped (lm_store m2) = 0" by blast
  have "list_all hashable [[1, 2, 3]]" using demo_hashable by simp
  from lmcache_reuse_complete [OF demo_lm_ok this demo_hashable(2) r, of "[1, 2, 3]" 2] r
  show ?thesis by (fastforce simp: page_end_def)
qed

section \<open>The comparison\<close>

lemma stream_loop_props:
  "stream_loop rnd n turn probe i ts rs = (T, R) \<Longrightarrow> \<forall>i. int32 (rnd i) \<Longrightarrow>
    \<forall>t \<in> set ts. length t = turn \<and> list_all int32 t \<Longrightarrow> \<forall>r \<in> set rs. length r \<le> m \<and> list_all int32 r \<Longrightarrow>
    (length ts + n) * turn + probe \<le> m \<Longrightarrow>
    length T = length ts + n \<and> length R = length rs + n \<and> (\<forall>t \<in> set T. length t = turn \<and> list_all int32 t) \<and>
    (\<forall>r \<in> set R. length r \<le> m \<and> list_all int32 r)"
proof (induction n arbitrary: i ts rs)
  case (Suc n)
  let ?ts = "ts @ [draws rnd i turn]"
  have d: "length (draws rnd j k) = k \<and> list_all int32 (draws rnd j k)" for j k
    using Suc.prems(2) by (simp add: draws_def list_all_iff)
  have t: "\<forall>t \<in> set ?ts. length t = turn \<and> list_all int32 t" using Suc.prems(3) d by auto
  then have "length (concat ?ts) = length ?ts * turn"
    by (simp add: length_concat sum_list_triv cong: map_cong)
  moreover have "length ?ts * turn \<le> (length ts + Suc n) * turn" by (rule mult_le_mono1) simp
  ultimately have "length (concat ?ts @ draws rnd (i + turn) probe) \<le> m" using Suc.prems(5) d by (simp add: algebra_simps)
  moreover have "list_all int32 (concat ?ts @ draws rnd (i + turn) probe)" using t d by (auto simp: list_all_iff)
  ultimately have r: "\<forall>r \<in> set (rs @ [concat ?ts @ draws rnd (i + turn) probe]). length r \<le> m \<and> list_all int32 r"
    using Suc.prems(4) by auto
  have run: "stream_loop rnd n turn probe (i + turn + probe) ?ts (rs @ [concat ?ts @ draws rnd (i + turn) probe]) = (T, R)"
    using Suc.prems(1) by (simp add: Let_def)
  have "(length ?ts + n) * turn + probe \<le> m" using Suc.prems(5) by simp
  from Suc.IH [OF run Suc.prems(2) t r this] show ?case by simp
qed simp

lemma kv_bytes_nonneg: "0 \<le> kv_bytes_per_tok sp"
  by (simp add: kv_bytes_per_tok_def)

lemma dexa_series_ok:
  assumes "bounded_compactor cmp" "prefill_ok sp pre" "spec_ok sp" "0 \<le> per"
    and nf: "\<forall>c m rq. \<exists>cc. cmp c \<lparr>cb_ratio = None, cb_tokens = Some m, cb_min = 1\<rparr> rq = Inr cc"
  shows "wm_inv sp pre w \<Longrightarrow> \<exists>n. current_tokens w = Inr n \<and> n \<le> wm_budget w \<Longrightarrow>
    \<exists>xs w'. dexa_series pre cmp refq per ts w = Inr (xs, w') \<and> length xs = length ts \<and>
      (\<forall>x \<in> set xs. x \<le> \<lfloor>rat_of_nat (wm_budget w) * per\<rfloor>) \<and> (\<exists>n. current_tokens w' = Inr n)"
proof (induction ts arbitrary: w)
  case (Cons t ts)
  obtain r w1 where a: "wm_append pre cmp refq t w = (r, w1)" by fastforce
  from bounded_compactor.append_inv [OF assms(1) Cons.prems(1) assms(2,3) a Cons.prems(2)] nf
  have A: "r = Inr ()" "wm_inv sp pre w1" "wm_budget w1 = wm_budget w" "\<exists>n. current_tokens w1 = Inr n \<and> n \<le> wm_budget w1"
    by auto
  from A(4) obtain n where n: "current_tokens w1 = Inr n" "n \<le> wm_budget w" using A(3) by auto
  from Cons.IH [OF A(2,4)] A(3) obtain xs w' where
    I: "dexa_series pre cmp refq per ts w1 = Inr (xs, w')" "length xs = length ts"
      "\<forall>x \<in> set xs. x \<le> \<lfloor>rat_of_nat (wm_budget w) * per\<rfloor>" "\<exists>n. current_tokens w' = Inr n" by auto
  have "\<lfloor>rat_of_nat n * per\<rfloor> \<le> \<lfloor>rat_of_nat (wm_budget w) * per\<rfloor>"
    by (intro floor_mono mult_right_mono) (use n assms(4) in auto)
  then show ?case using a A(1) n(1) I by auto
qed auto

lemma serve_requests_keeps:
  "serve_requests so H pre tot rs m = Some (Inr (out, foot, m1)) \<Longrightarrow>
    length out = length rs \<and> length foot = length rs \<and> lm_cost m1 = lm_cost m"
proof (induction rs arbitrary: m out foot)
  case (Cons r rs)
  then obtain q m2 out' foot' where "process so H pre r m = Some (Inr (q, m2))"
    "serve_requests so H pre tot rs m2 = Some (Inr (out', foot', m1))" "out = q # out'" "length foot = Suc (length foot')"
    by (auto split: option.splits sum.splits prod.splits)
  then show ?case using Cons.IH [of m2 out' foot']
    by (auto simp: process_def Let_def split: option.splits sum.splits prod.splits)
qed simp

text \<open>The head-to-head comparison always returns, and its working-memory side is bounded: with a
  compactor that honours its budget and never fails, every entry of the footprint series, one per
  turn, and the peak stay within the reported byte budget, however many turns are streamed.\<close>

theorem compare_bounded:
  assumes "bounded_compactor cmp" "prefill_ok sp pre" "spec_ok sp"
    and "\<forall>c m rq. \<exists>cc. cmp c \<lparr>cb_ratio = None, cb_tokens = Some m, cb_min = 1\<rparr> rq = Inr cc"
    and "\<forall>i. int32 (rnd i)" "n * turn + 8 < 2 ^ 64" "0 < bs" "0 \<le> keep" "keep < budget_tokens"
  shows "\<exists>c. compare_with_dexa H pre cmp refq sp rnd n turn bs budget_tokens keep None = Some (Inr c) \<and>
    length (cmp_dexa_series c) = n \<and> length (cmp_lm_series c) = n \<and> cmp_unique c = n * turn \<and>
    (\<forall>x \<in> set (cmp_dexa_series c). x \<le> cmp_dexa_budget c) \<and> cmp_dexa_peak c \<le> cmp_dexa_budget c"
proof -
  obtain turns requests where tr: "transcript_stream rnd n turn 8 = (turns, requests)" by fastforce
  have S: "length turns = n" "length requests = n" "\<forall>t \<in> set turns. length t = turn" "list_all hashable requests"
    using stream_loop_props [OF tr [unfolded transcript_stream_def] assms(5), of "n * turn + 8"] assms(6)
    by (auto simp: hashable_def list_all_iff)
  obtain st :: "vec kvcache store" where st: "new_store None = Inr st" "distinct (tier_names st)" "caps_ok st"
    by (simp add: new_store_def Let_def default_tiers_def tier_names_def caps_ok_def)
  obtain m0 where m0: "new_lmcache st bs ''default'' None = Inr m0" using assms(7) by (simp add: new_lmcache_def)
  let ?tot = "\<lambda>s. s_total_bytes (stats s)"
  have "CHR '':'' \<notin> set ''default''" by simp
  from pages.requests_ok [OF new_lmcache_sane(1) [OF st m0 this] S(4), where tot = ?tot and H = H and pre = pre] obtain out foot m where
    r: "serve_requests tiered_ops H pre ?tot requests m0 = Some (Inr (out, foot, m))"
    by (auto simp: tiered_ops_def)
  have c: "lm_cost m = default_cost_model" "length foot = n"
    using serve_requests_keeps [OF r] m0 S(2) by (auto simp: new_lmcache_def split: if_splits)
  then obtain lm where lm: "lmcache_stats m = Inr lm" by (simp add: lmcache_stats_def Let_def prefill_seconds_def default_cost_model_def)
  have sc: "run_scenario H pre requests st bs None = Some (Inr (lm, out, foot))"
    by (simp add: run_scenario_def m0 r lm)
  obtain w0 where w0: "new_wm sp budget_tokens keep = Inr w0" using assms(8,9) by (simp add: new_wm_def)
  note W = new_wm_inv [OF w0, of pre]
  from dexa_series_ok [OF assms(1-3) kv_bytes_nonneg [of sp] assms(4), where w = w0 and ts = turns and refq = refq] W obtain ser w k where
    ser: "dexa_series pre cmp refq (kv_bytes_per_tok sp) turns w0 = Inr (ser, w)" "length ser = n"
      "\<forall>x \<in> set ser. x \<le> \<lfloor>rat_of_nat (wm_budget w0) * kv_bytes_per_tok sp\<rfloor>" "current_tokens w = Inr k"
    using S(1) by auto
  have b: "rat_of_nat (wm_budget w0) = rat_of_int budget_tokens" using W by (metis of_int_of_nat_eq)
  obtain ws where ws: "wm_stats w = Inr ws"
    using ser(4) by (auto simp: wm_stats_def current_tokens_def)
  have mx: "(if ser = [] then 0 else Max (set ser)) \<le> \<lfloor>rat_of_int budget_tokens * kv_bytes_per_tok sp\<rfloor>"
    using ser(3) assms(8,9) kv_bytes_nonneg [of sp] unfolding b by auto
  have "sum_list (map length turns) = n * turn"
    using S(1,3) by (simp add: sum_list_triv cong: map_cong)
  then show ?thesis using tr st(1) sc w0 ser ws mx c(2) b
    by (simp add: compare_with_dexa_def)
qed

theorem compare_bounded_witness:
  "\<exists>c. compare_with_dexa prefix_demo_hash (fake_prefill tiny_spec real_vec) (\<lambda>c b rq. recent_window c b) None tiny_spec
      (\<lambda>i. int i mod 5) 3 2 2 2 1 None = Some (Inr c) \<and> length (cmp_dexa_series c) = 3 \<and> cmp_unique c = 6 \<and>
    cmp_dexa_peak c \<le> cmp_dexa_budget c"
proof -
  have nf: "\<forall>c m rq. \<exists>cc. recent_window c \<lparr>cb_ratio = None, cb_tokens = Some m, cb_min = 1\<rparr> = Inr cc"
    by (intro allI recent_window_never_fails) (rule compaction_budget.select_convs)+
  have i32: "int32 (int i mod 5)" for i
  proof -
    have "0 \<le> int i mod 5" "int i mod 5 < 5" by simp_all
    then show ?thesis by (auto simp: int32_def intro: order.strict_trans2 less_imp_le)
  qed
  have "spec_ok tiny_spec" by (simp add: spec_ok_def)
  from compare_bounded [OF window.bounded_compactor_axioms fake_prefill_ok this nf, of "\<lambda>i. int i mod 5" 3 2 2 1 2 prefix_demo_hash real_vec None]
    i32 show ?thesis by auto
qed

end
