(* ===== verification/Decode.thy ===== *)
theory Decode imports Compaction KVPersist begin

text \<open>
  Decoding and scoring over a cache, \<^verbatim>\<open>dexa/engine/hf_backend.py\<close>: the eager attention with the
  per-key bias, the padding of ragged compact caches to one physical length, the logits of new tokens
  over a raw or compact context, teacher-forced scores, generation and reference queries. A score that
  the code sets to the most negative float is \<^const>\<open>None\<close>: after the softmax its weight is exactly
  zero. The transformer around the attention is a parameter: \<open>dfwd cache betas mask ps ids\<close> are the
  logits of a pass over new tokens, and what decoding relies on is the locale \<open>causal_logits\<close>.
  Sampling is a parameter \<open>pick i row\<close>, the token the \<open>i\<close>-th draw takes from a row of logits. Caches hold decoded
  values; the native bfloat16 path of \<^verbatim>\<open>_build_cache\<close> reads the same values.
\<close>

section \<open>Eager attention\<close>

definition oadd :: "real option \<Rightarrow> real option \<Rightarrow> real option" where
  "oadd a b = (case (a, b) of (Some x, Some y) \<Rightarrow> Some (x + y) | _ \<Rightarrow> None)"

definition masked_softmax :: "real option list \<Rightarrow> real list" where
  "masked_softmax xs = (let e = map (\<lambda>x. case x of None \<Rightarrow> 0 | Some r \<Rightarrow> exp r) xs; s = sum_list e in map (\<lambda>w. w / s) e)"

text \<open>One query row of one head: scores, mask cut to the keys, bias, softmax, weighted values.\<close>

definition eager_row :: "nat \<Rightarrow> real \<Rightarrow> vec \<Rightarrow> vec list \<Rightarrow> vec list \<Rightarrow> real option list option \<Rightarrow> real option list option \<Rightarrow> vec" where
  "eager_row d scaling q ks vs msk beta = (let
     w = map (\<lambda>k. Some (dot q k * scaling)) ks;
     w1 = (case msk of None \<Rightarrow> w | Some m \<Rightarrow> map2 oadd w (take (length ks) m));
     w2 = (case beta of None \<Rightarrow> w1 | Some b \<Rightarrow> map2 oadd w1 b)
     in weighted d (masked_softmax w2) vs)"

definition repeat_kv :: "nat \<Rightarrow> 'a list \<Rightarrow> 'a list" where
  "repeat_kv g xs = concat (map (replicate g) xs)"

definition eager_attention :: "nat \<Rightarrow> nat \<Rightarrow> real \<Rightarrow> vec list list \<Rightarrow> vec list list \<Rightarrow> vec list list
    \<Rightarrow> real option list list option \<Rightarrow> real option list list option \<Rightarrow> vec list list" where
  "eager_attention groups d scaling query key value msk beta =
     map (\<lambda>h. map (\<lambda>i. eager_row d scaling (query ! h ! i) (repeat_kv groups key ! h) (repeat_kv groups value ! h)
         (map_option (\<lambda>m. m ! i) msk) (map_option (\<lambda>b. b ! h) beta)) [0..<length (query ! h)]) [0..<length query]"

section \<open>Rebuilding a cache\<close>

definition physical_len :: "vec context_cache \<Rightarrow> nat" where
  "physical_len c = (case c of Raw kv \<Rightarrow> seq_len kv
     | Compact cc \<Rightarrow> foldr max (map length (concat (map ckeys (cc_layers cc)))) 0)"

definition logical_len :: "vec context_cache \<Rightarrow> nat" where
  "logical_len c = (case c of Raw kv \<Rightarrow> seq_len kv | Compact cc \<Rightarrow> cc_logical cc)"

text \<open>\<^verbatim>\<open>full[:t] = rows\<close> into an array of \<open>phys\<close> rows.\<close>

definition pad_rows :: "nat \<Rightarrow> 'a \<Rightarrow> 'a list \<Rightarrow> 'a list result" where
  "pad_rows phys z xs = (if length xs \<le> phys then Inr (xs @ replicate (phys - length xs) z)
     else Inl (ValueError ''could not broadcast input array''))"

definition build_raw_layer :: "model_spec \<Rightarrow> nat \<Rightarrow> vec layer_kv \<Rightarrow> (vec layer_kv \<times> real option list list) result" where
  "build_raw_layer sp phys lk = (let z = replicate (head_dim sp) 0 in
     res_bind (res_map (pad_rows phys z) (lkey lk)) (\<lambda>k. res_bind (res_map (pad_rows phys z) (lval lk)) (\<lambda>v.
     res_bind (pad_rows phys None (replicate (n_tokens lk) (Some 0))) (\<lambda>b.
       Inr (\<lparr>lkey = k, lval = v\<rparr>, replicate (n_kv_heads sp) b)))))"

text \<open>Values and biases of a head have as many rows as its keys; numpy would broadcast a single one.\<close>

definition build_compact_head :: "nat \<Rightarrow> vec \<Rightarrow> vec compact_layer \<Rightarrow> nat \<Rightarrow> (vec list \<times> vec list \<times> real option list) result" where
  "build_compact_head phys z cl h = res_bind (get_at (ckeys cl) h) (\<lambda>k. res_bind (get_at (cvalues cl) h) (\<lambda>v.
     res_bind (get_at (cbiases cl) h) (\<lambda>b.
       if length v \<noteq> length k \<or> length b \<noteq> length k then Inl (ValueError ''could not broadcast input array'')
       else res_bind (pad_rows phys z k) (\<lambda>kp. res_bind (pad_rows phys z v) (\<lambda>vp.
            res_bind (pad_rows phys None (map Some b)) (\<lambda>bp. Inr (kp, vp, bp)))))))"

definition build_compact_layer :: "model_spec \<Rightarrow> nat \<Rightarrow> vec compact_layer \<Rightarrow> (vec layer_kv \<times> real option list list) result" where
  "build_compact_layer sp phys cl =
     res_bind (res_map (build_compact_head phys (replicate (head_dim sp) 0) cl) [0..<n_kv_heads sp]) (\<lambda>hs.
       Inr (\<lparr>lkey = map fst hs, lval = map (fst \<circ> snd) hs\<rparr>, map (snd \<circ> snd) hs))"

definition build_cache :: "model_spec \<Rightarrow> vec context_cache \<Rightarrow> nat \<Rightarrow> (vec raw_cache \<times> real option list list list) result" where
  "build_cache sp c phys = res_bind (res_map (\<lambda>li.
       res_bind (case c of Raw kv \<Rightarrow> res_bind (get_at (kv_layers kv) li) (build_raw_layer sp phys)
         | Compact cc \<Rightarrow> res_bind (get_at (cc_layers cc) li) (build_compact_layer sp phys)) (\<lambda>(kv, b).
       res_bind (group_size sp) (\<lambda>g. Inr (kv, repeat_kv g b)))) [0..<n_layers sp])
     (\<lambda>ls. Inr (map fst ls, map snd ls))"

section \<open>Logits over a context\<close>

type_synonym decode_fwd = "vec raw_cache \<Rightarrow> real option list list list \<Rightarrow> real option list list \<Rightarrow> int list \<Rightarrow> int list \<Rightarrow> real list list"

text \<open>Cached columns are attended by every new token, new columns causally.\<close>

definition decode_mask :: "nat \<Rightarrow> nat \<Rightarrow> real option list list" where
  "decode_mask phys q = map (\<lambda>i. replicate phys (Some 0) @ map (\<lambda>j. if j \<le> i then Some 0 else None) [0..<q]) [0..<q]"

definition decode_logits :: "model_spec \<Rightarrow> decode_fwd \<Rightarrow> vec context_cache \<Rightarrow> int list \<Rightarrow> real list list result" where
  "decode_logits sp dfwd c ids = (let phys = physical_len c; q = length ids in
     res_bind (build_cache sp c phys) (\<lambda>(cache, betas). let start = logical_len c in
       if \<exists>b \<in> set betas. length b \<noteq> n_q_heads sp then Inl (ValueError ''shape mismatch'')
       else Inr (dfwd cache (map (map (\<lambda>b. b @ replicate q (Some 0))) betas) (decode_mask phys q)
              (arange start (start + q)) ids)))"

text \<open>\<^verbatim>\<open>_drop_last\<close>; \<open>meta\<close> is \<^verbatim>\<open>context.meta.get("token_ids")\<close> of a compact cache, which is dropped with it.\<close>

definition drop_last :: "vec context_cache \<Rightarrow> int list option \<Rightarrow> (vec context_cache \<times> int list option \<times> int \<times> int) result" where
  "drop_last c meta = (case c of
     Raw kv \<Rightarrow> (case kv_token_ids kv of None \<Rightarrow> Inl (ValueError ''KVCache.token_ids required to score with an empty prompt'')
       | Some ts \<Rightarrow> if ts = [] \<or> kv_positions kv = [] then Inl IndexError
           else Inr (Raw (kv\<lparr>kv_layers := map (\<lambda>l. \<lparr>lkey = map butlast (lkey l), lval = map butlast (lval l)\<rparr>) (kv_layers kv),
                    kv_positions := butlast (kv_positions kv), kv_token_ids := Some (butlast ts)\<rparr>),
                  meta, last ts, last (kv_positions kv)))
   | Compact cc \<Rightarrow> (case meta of None \<Rightarrow> Inl (ValueError ''CompactCache.meta['token_ids'] required to score with empty prompt'')
       | Some ts \<Rightarrow> if ts = [] then Inl (ValueError ''CompactCache.meta['token_ids'] required to score with empty prompt'')
           else Inr (Compact (cc\<lparr>cc_layers := map (\<lambda>l. \<lparr>ckeys = map butlast (ckeys l), cvalues = map butlast (cvalues l),
                      cbiases = map butlast (cbiases l), cpositions = map butlast (cpositions l)\<rparr>) (cc_layers cc),
                    cc_logical := cc_logical cc - 1\<rparr>),
                  Some (butlast ts), last ts, int (cc_logical cc) - 1)))"

definition log_softmax :: "real list \<Rightarrow> real list" where
  "log_softmax xs = map (\<lambda>x. x - ln (sum_list (map exp xs))) xs"

text \<open>\<^verbatim>\<open>row[t]\<close> with torch's negative indices.\<close>

definition row_at :: "real list \<Rightarrow> int \<Rightarrow> real result" where
  "row_at xs t = (if 0 \<le> t \<and> t < int (length xs) then Inr (xs ! nat t)
     else if - int (length xs) \<le> t \<and> t < 0 then Inr (xs ! nat (int (length xs) + t)) else Inl IndexError)"

definition hf_score :: "model_spec \<Rightarrow> decode_fwd \<Rightarrow> vec context_cache \<Rightarrow> int list option \<Rightarrow> int list \<Rightarrow> int list \<Rightarrow> real list result" where
  "hf_score sp dfwd c meta prompt target = (let n = length target in
     if n = 0 then Inr []
     else res_bind (if prompt \<noteq> []
         then res_bind (decode_logits sp dfwd c (prompt @ target)) (\<lambda>lg. Inr (take n (drop (length prompt - 1) lg)))
         else res_bind (drop_last c meta) (\<lambda>(c2, _, last_tok, _).
           res_bind (decode_logits sp dfwd c2 (last_tok # target)) (\<lambda>lg. Inr (take n lg))))
       (\<lambda>pred. if length pred \<noteq> n then Inl IndexError
          else res_map (\<lambda>(row, t). row_at (log_softmax row) t) (zip pred target)))"

definition last_row :: "real list list \<Rightarrow> real list result" where
  "last_row lg = (if lg = [] then Inl IndexError else Inr (last lg))"

text \<open>The loop re-decodes prompt and generated tokens over the whole context.\<close>

fun gen_loop :: "(int list \<Rightarrow> real list list result) \<Rightarrow> (nat \<Rightarrow> real list \<Rightarrow> int) \<Rightarrow> int list \<Rightarrow> nat \<Rightarrow> int list \<Rightarrow> real list
    \<Rightarrow> int list result" where
  "gen_loop dec pick prompt 0 generated lastl = Inr generated"
| "gen_loop dec pick prompt (Suc n) generated lastl = (let generated' = generated @ [pick (length generated) lastl] in
     if n = 0 then Inr generated'
     else res_bind (dec (prompt @ generated')) (\<lambda>lg. res_bind (last_row lg) (\<lambda>row.
       gen_loop dec pick prompt n generated' row)))"

definition hf_generate :: "model_spec \<Rightarrow> decode_fwd \<Rightarrow> (nat \<Rightarrow> real list \<Rightarrow> int) \<Rightarrow> vec context_cache \<Rightarrow> int list option \<Rightarrow> int list
    \<Rightarrow> nat \<Rightarrow> int list result" where
  "hf_generate sp dfwd pick c meta prompt max_new =
     res_bind (if prompt \<noteq> [] then decode_logits sp dfwd c prompt
       else res_bind (drop_last c meta) (\<lambda>(c2, _, last_tok, _). decode_logits sp dfwd c2 [last_tok])) (\<lambda>lg.
     res_bind (last_row lg) (\<lambda>row. gen_loop (decode_logits sp dfwd c) pick prompt max_new [] row))"

section \<open>Reference queries\<close>

text \<open>\<open>post_rope full\<close> are the post-rotation queries of every position of a pass over \<open>full\<close>, per layer and
  head; \<open>continue prefix n\<close> the greedy continuation.\<close>

definition subsample :: "nat \<Rightarrow> 'v list list \<Rightarrow> 'v list list" where
  "subsample n q = map (\<lambda>row. if length row > n then map (\<lambda>i. row ! i) (linspace_idx (length row) n) else row) q"

definition slice_rows :: "nat \<Rightarrow> nat \<Rightarrow> 'v list list \<Rightarrow> 'v list list" where
  "slice_rows a b q = map (\<lambda>row. take (b - a) (drop a row)) q"

fun greedy_continuation :: "(int list \<Rightarrow> int) \<Rightarrow> nat \<Rightarrow> int list \<Rightarrow> int list" where
  "greedy_continuation nxt 0 pre = []"
| "greedy_continuation nxt (Suc n) pre = (let t = nxt pre in t # greedy_continuation nxt n (pre @ [t]))"

definition self_study_layers :: "nat \<Rightarrow> (int list \<Rightarrow> 'v list list list) \<Rightarrow> (int list \<Rightarrow> int) \<Rightarrow> int \<Rightarrow> int list list \<Rightarrow> int list
    \<Rightarrow> 'v list list list list" where
  "self_study_layers n_gen post_rope nxt sep prompts toks = map (\<lambda>p.
     let primer = toks @ [sep] @ p; full = primer @ greedy_continuation nxt n_gen primer in
     map (slice_rows (length toks + 1) (length full)) (post_rope full)) prompts"

definition sep_token :: "int option \<Rightarrow> int option \<Rightarrow> int" where
  "sep_token bos eos = (case bos of Some t \<Rightarrow> t | None \<Rightarrow> (case eos of Some t \<Rightarrow> t | None \<Rightarrow> 0))"

definition hf_reference_queries :: "model_spec \<Rightarrow> (int list \<Rightarrow> 'v list list list) \<Rightarrow> (int list \<Rightarrow> int) \<Rightarrow> int \<Rightarrow> int list list
    \<Rightarrow> string \<Rightarrow> nat \<Rightarrow> int list \<Rightarrow> 'v ref_queries result" where
  "hf_reference_queries sp post_rope nxt sep prompts strategy n_per_head toks =
     (let out = (\<lambda>layers. Inr \<lparr>rq_spec = sp, rq_layers = map (subsample n_per_head) layers\<rparr>); n = length toks in
      if strategy = ''self_study'' then
        (let chunks = self_study_layers 16 post_rope nxt sep prompts toks in
         out (map (\<lambda>li. map (\<lambda>h. concat (map (\<lambda>c. c ! li ! h) chunks)) [0..<n_q_heads sp]) [0..<n_layers sp]))
      else if strategy = ''repeat_prefill'' then
        out (map (slice_rows (n + 1) (n + 1 + n)) (post_rope (toks @ [sep] @ toks)))
      else if strategy = ''self'' then out (map (slice_rows 0 n) (post_rope toks))
      else Inl (ValueError (''unknown reference-query strategy: '' @ strategy)))"

section \<open>Decoding over a raw cache is the model\<close>

lemma pad_rows_full: "length xs = n \<Longrightarrow> pad_rows n z xs = Inr xs"
  by (simp add: pad_rows_def)

lemma res_map_const: "(\<And>x. x \<in> set xs \<Longrightarrow> f x = Inr (g x)) \<Longrightarrow> res_map f xs = Inr (map g xs)"
  by (induction xs) auto

lemma res_map_over_map: "res_map f (map g xs) = res_map (\<lambda>x. f (g x)) xs"
  by (induction xs) auto

lemma repeat_kv_replicate: "repeat_kv g (replicate n b) = replicate (n * g) b"
  by (induction n) (auto simp: repeat_kv_def replicate_add)

definition heads_ok :: "model_spec \<Rightarrow> bool" where
  "heads_ok sp \<longleftrightarrow> 0 < n_kv_heads sp \<and> n_kv_heads sp dvd n_q_heads sp"

lemma heads_okD: "heads_ok sp \<Longrightarrow> group_size sp = Inr (n_q_heads sp div n_kv_heads sp)"
  "heads_ok sp \<Longrightarrow> n_kv_heads sp * (n_q_heads sp div n_kv_heads sp) = n_q_heads sp"
  by (auto simp: heads_ok_def group_size_def)

definition zero_betas :: "model_spec \<Rightarrow> nat \<Rightarrow> real option list list list" where
  "zero_betas sp n = replicate (n_layers sp) (replicate (n_q_heads sp) (replicate n (Some 0)))"

lemma build_raw_layer_full:
  assumes "0 < n_kv_heads sp" "length (lkey l) = n_kv_heads sp" "list_all (\<lambda>h. length h = n) (lkey l)" "list_all (\<lambda>h. length h = n) (lval l)"
  shows "build_raw_layer sp n l = Inr (l, replicate (n_kv_heads sp) (replicate n (Some 0)))"
proof -
  have "res_map (pad_rows n z) xs = Inr xs" if "list_all (\<lambda>h. length h = n) xs" for z :: vec and xs
    using res_map_const [of xs "pad_rows n z" "\<lambda>x. x"] that by (simp add: pad_rows_full list_all_iff)
  moreover have "n_tokens l = n" using assms(1-3) by (cases "lkey l") (auto simp: n_tokens_def)
  ultimately show ?thesis using assms(3,4) by (simp add: build_raw_layer_def Let_def pad_rows_full)
qed

lemma build_shaped:
  assumes h: "heads_ok sp" and s: "shaped sp n (kv_layers kv)"
  shows "build_cache sp (Raw kv) n = Inr (kv_layers kv, zero_betas sp n)"
proof -
  have len: "length (kv_layers kv) = n_layers sp" using s by (simp add: shaped_def)
  have "res_map (\<lambda>li. res_bind (res_bind (get_at (kv_layers kv) li) (build_raw_layer sp n)) (\<lambda>(k, b).
      res_bind (group_size sp) (\<lambda>g. Inr (k, repeat_kv g b)))) [0..<n_layers sp] =
    Inr (map (\<lambda>li. (kv_layers kv ! li, replicate (n_q_heads sp) (replicate n (Some 0)))) [0..<n_layers sp])"
  proof (rule res_map_const)
    fix li assume "li \<in> set [0..<n_layers sp]"
    then have i: "li < length (kv_layers kv)" using len by simp
    then have "build_raw_layer sp n (kv_layers kv ! li) = Inr (kv_layers kv ! li, replicate (n_kv_heads sp) (replicate n (Some 0)))"
      using s h by (intro build_raw_layer_full) (auto simp: shaped_def list_all_length heads_ok_def)
    then show "res_bind (res_bind (get_at (kv_layers kv) li) (build_raw_layer sp n)) (\<lambda>(k, b).
        res_bind (group_size sp) (\<lambda>g. Inr (k, repeat_kv g b))) = Inr (kv_layers kv ! li, replicate (n_q_heads sp) (replicate n (Some 0)))"
      using i heads_okD [OF h] by (simp add: get_at_def repeat_kv_replicate)
  qed
  moreover have "map fst (map (\<lambda>li. (kv_layers kv ! li, b)) [0..<n_layers sp]) = kv_layers kv" for b :: "real option list list"
    unfolding len [symmetric] by (simp add: map_nth comp_def)
  moreover have "map snd (map (\<lambda>li. (kv_layers kv ! li, b)) [0..<n_layers sp]) = replicate (n_layers sp) b" for b :: "real option list list"
    by (simp add: comp_def map_replicate_const)
  ultimately show ?thesis by (simp add: build_cache_def zero_betas_def comp_def del: map_map)
qed

text \<open>
  A causal transformer decodes from its cache: the logits of new tokens over the cache of \<open>ts\<close>, with no
  bias and the causal mask, at the positions after \<open>ts\<close>, are the next-token logits of the token lists
  they end.
\<close>

locale causal_logits = causal_forward sp fwd for sp and fwd :: "vec forward" +
  fixes dfwd :: decode_fwd and next_logits :: "int list \<Rightarrow> real list"
  assumes dec: "ids \<noteq> [] \<Longrightarrow> dfwd (if ts = [] then empty_raw sp else fwd (empty_raw sp) ts (arange 0 (length ts)))
      (zero_betas sp (length ts + length ids)) (decode_mask (length ts) (length ids))
      (arange (length ts) (length ts + length ids)) ids = map (\<lambda>j. next_logits (ts @ take (Suc j) ids)) [0..<length ids]"

text \<open>The model's own greedy or sampled decoding, with no cache.\<close>

fun decode_ref :: "(nat \<Rightarrow> real list \<Rightarrow> int) \<Rightarrow> (int list \<Rightarrow> real list) \<Rightarrow> nat \<Rightarrow> nat \<Rightarrow> int list \<Rightarrow> int list" where
  "decode_ref pick L i 0 xs = []"
| "decode_ref pick L i (Suc n) xs = (let t = pick i (L xs) in t # decode_ref pick L (Suc i) n (xs @ [t]))"

lemma gen_loop_ref:
  assumes dec: "\<And>xs. xs \<noteq> [] \<Longrightarrow> \<exists>lg. dec xs = Inr lg \<and> last_row lg = Inr (L (ts @ xs))"
  shows "gen_loop dec pick prompt n gen (L (ts @ prompt @ gen)) = Inr (gen @ decode_ref pick L (length gen) n (ts @ prompt @ gen))"
proof (induction n arbitrary: gen)
  case (Suc n)
  let ?g = "gen @ [pick (length gen) (L (ts @ prompt @ gen))]"
  obtain lg where "dec (prompt @ ?g) = Inr lg" "last_row lg = Inr (L (ts @ prompt @ ?g))"
    using dec [of "prompt @ ?g"] by auto
  then show ?case using Suc [of ?g] by (cases n) (simp_all add: Let_def)
qed simp

context causal_logits
begin

abbreviation past :: "int list \<Rightarrow> vec raw_cache" where
  "past ts \<equiv> if ts = [] then empty_raw sp else fwd (empty_raw sp) ts (arange 0 (length ts))"

lemma past_shaped: "shaped sp (length ts) (past ts)"
  using cols_shaped by simp

lemma decode_past:
  assumes h: "heads_ok sp" and kv: "kv_layers kv = past ts" "seq_len kv = length ts" and ids: "ids \<noteq> []"
  shows "decode_logits sp dfwd (Raw kv) ids = Inr (map (\<lambda>j. next_logits (ts @ take (Suc j) ids)) [0..<length ids])"
proof -
  have "build_cache sp (Raw kv) (length ts) = Inr (past ts, zero_betas sp (length ts))"
    using build_shaped [OF h, of "length ts" kv] past_shaped [of ts] kv(1) by simp
  moreover have "map (map (\<lambda>b. b @ replicate (length ids) (Some 0))) (zero_betas sp (length ts)) = zero_betas sp (length ts + length ids)"
    by (simp add: zero_betas_def replicate_add)
  moreover have "\<not> (\<exists>b \<in> set (zero_betas sp (length ts)). length b \<noteq> n_q_heads sp)" by (auto simp: zero_betas_def)
  ultimately show ?thesis using dec [OF ids, of ts] kv(2)
    by (simp add: decode_logits_def Let_def physical_len_def logical_len_def del: bex_simps)
qed

lemma decode_pre:
  assumes "heads_ok sp" "ts \<noteq> []" "ids \<noteq> []"
  shows "decode_logits sp dfwd (Raw (hf_prefill sp fwd ts 0)) ids = Inr (map (\<lambda>j. next_logits (ts @ take (Suc j) ids)) [0..<length ids])"
  using decode_past [OF assms(1) _ _ assms(3), of "hf_prefill sp fwd ts 0" ts] assms(2) by simp

lemma last_row_map: "n \<noteq> 0 \<Longrightarrow> last_row (map f [0..<n]) = Inr (f (n - 1))"
  by (cases n) (simp_all add: last_row_def)

lemma drop_last_pre:
  assumes "ts \<noteq> []"
  shows "\<exists>kv. drop_last (Raw (hf_prefill sp fwd ts 0)) meta = Inr (Raw kv, meta, last ts, int (length ts) - 1) \<and>
    kv_layers kv = past (butlast ts) \<and> seq_len kv = length (butlast ts)"
proof -
  have bl: "\<lparr>lkey = map butlast (lkey l), lval = map butlast (lval l)\<rparr> = take_layer (length ts - 1) l"
    if "l \<in> set (cols ts)" for l
  proof -
    have "list_all (\<lambda>h. length h = length ts) (lkey l)" "list_all (\<lambda>h. length h = length ts) (lval l)"
      using cols_shaped [OF assms] that by (auto simp: shaped_def list_all_iff)
    then show ?thesis by (auto simp: take_layer_def list_all_iff butlast_conv_take)
  qed
  have "map (\<lambda>l. \<lparr>lkey = map butlast (lkey l), lval = map butlast (lval l)\<rparr>) (cols ts) = map (take_layer (length ts - 1)) (cols ts)"
    using bl by simp
  also have "\<dots> = past (butlast ts)"
  proof (cases "length ts = 1")
    case True
    then have "butlast ts = []" using assms by (cases ts) auto
    then show ?thesis using True shaped_take_zero [OF cols_shaped [OF assms]] by simp
  next
    case False
    then have "0 < length ts - 1" "butlast ts \<noteq> []" using assms by (cases ts, auto)+
    then show ?thesis using cols_take [OF assms, of "length ts - 1"] by (simp add: butlast_conv_take)
  qed
  finally have L: "map (\<lambda>l. \<lparr>lkey = map butlast (lkey l), lval = map butlast (lval l)\<rparr>) (cols ts) = past (butlast ts)" .
  have ps: "arange 0 (length ts) \<noteq> []" "last (arange 0 (length ts)) = int (length ts) - 1"
    using assms by (cases "length ts"; auto simp: arange_def last_map)+
  show ?thesis using L ps assms
    by (simp add: drop_last_def seq_len_def)
qed

lemma generate_pre:
  assumes h: "heads_ok sp" and ts: "ts \<noteq> []"
  shows "hf_generate sp dfwd pick (Raw (hf_prefill sp fwd ts 0)) meta prompt n = Inr (decode_ref pick next_logits 0 n (ts @ prompt))"
proof -
  have d: "\<exists>lg. decode_logits sp dfwd (Raw (hf_prefill sp fwd ts 0)) xs = Inr lg \<and> last_row lg = Inr (next_logits (ts @ xs))"
    if "xs \<noteq> []" for xs
    using decode_pre [OF h ts that] last_row_map [of "length xs"] that by simp
  have "\<exists>lg. (if prompt \<noteq> [] then decode_logits sp dfwd (Raw (hf_prefill sp fwd ts 0)) prompt
       else res_bind (drop_last (Raw (hf_prefill sp fwd ts 0)) meta) (\<lambda>(c2, _, last_tok, _). decode_logits sp dfwd c2 [last_tok])) = Inr lg \<and>
      last_row lg = Inr (next_logits (ts @ prompt))"
  proof (cases "prompt = []")
    case True
    from drop_last_pre [OF ts] obtain kv where kv: "drop_last (Raw (hf_prefill sp fwd ts 0)) meta = Inr (Raw kv, meta, last ts, int (length ts) - 1)"
      "kv_layers kv = past (butlast ts)" "seq_len kv = length (butlast ts)" by blast
    have "butlast ts @ [last ts] = ts" using ts by simp
    then show ?thesis using True kv(1) decode_past [OF h kv(2,3), of "[last ts]"] by (simp add: last_row_def)
  next
    case False then show ?thesis using d by simp
  qed
  then show ?thesis
    using gen_loop_ref [where gen = "[]" and ts = ts and L = next_logits and pick = pick and prompt = prompt and n = n, OF d]
    by (auto simp: hf_generate_def)
qed

lemma score_pre:
  assumes h: "heads_ok sp" and ts: "ts \<noteq> []"
  shows "hf_score sp dfwd (Raw (hf_prefill sp fwd ts 0)) meta prompt target =
    res_map (\<lambda>k. row_at (log_softmax (next_logits (ts @ prompt @ take k target))) (target ! k)) [0..<length target]"
proof (cases "target = []")
  case True then show ?thesis by (simp add: hf_score_def)
next
  case False
  let ?n = "length target"
  let ?L = "\<lambda>k. next_logits (ts @ prompt @ take k target)"
  have P: "(if prompt \<noteq> []
         then res_bind (decode_logits sp dfwd (Raw (hf_prefill sp fwd ts 0)) (prompt @ target)) (\<lambda>lg. Inr (take ?n (drop (length prompt - 1) lg)))
         else res_bind (drop_last (Raw (hf_prefill sp fwd ts 0)) meta) (\<lambda>(c2, _, last_tok, _).
           res_bind (decode_logits sp dfwd c2 (last_tok # target)) (\<lambda>lg. Inr (take ?n lg)))) = Inr (map ?L [0..<?n])"
  proof (cases "prompt = []")
    case True
    from drop_last_pre [OF ts] obtain kv where kv: "drop_last (Raw (hf_prefill sp fwd ts 0)) meta = Inr (Raw kv, meta, last ts, int (length ts) - 1)"
      "kv_layers kv = past (butlast ts)" "seq_len kv = length (butlast ts)" by blast
    have e: "butlast ts @ last ts # xs = ts @ xs" for xs using ts by (metis append.assoc append_Cons append_Nil append_butlast_last_id)
    show ?thesis using True kv(1) decode_past [OF h kv(2,3), of "last ts # target"]
      by (simp add: take_map e)
  next
    case f: False
    have "take ?n (drop (length prompt - 1) (map (\<lambda>j. next_logits (ts @ take (Suc j) (prompt @ target))) [0..<length (prompt @ target)]))
      = map ?L [0..<?n]" (is "?l = ?r")
    proof (rule nth_equalityI)
      show "length ?l = length ?r" using f by simp
      fix k assume "k < length ?l"
      then have k: "k < ?n" by simp
      have "take (Suc (length prompt - 1 + k)) (prompt @ target) = prompt @ take k target" using f by (cases prompt) simp_all
      moreover have "length prompt - 1 + k < length (prompt @ target)" using k by simp
      then have "?l ! k = next_logits (ts @ take (Suc (length prompt - 1 + k)) (prompt @ target))"
        using k by (simp del: take_append)
      ultimately show "?l ! k = ?r ! k" using k by simp
    qed
    then show ?thesis using decode_pre [OF h ts, of "prompt @ target"] f by simp
  qed
  have z: "zip (map ?L [0..<?n]) target = map (\<lambda>k. (?L k, target ! k)) [0..<?n]"
    by (rule nth_equalityI) auto
  have "hf_score sp dfwd (Raw (hf_prefill sp fwd ts 0)) meta prompt target =
      res_map (\<lambda>(row, t). row_at (log_softmax row) t) (zip (map ?L [0..<?n]) target)"
    unfolding hf_score_def Let_def P using False by simp
  then show ?thesis unfolding z res_map_over_map by simp
qed

end

section \<open>Masked columns carry no weight\<close>

lemma weighted_app: "length w1 = length v1 \<Longrightarrow> weighted d (w1 @ w2) (v1 @ v2) = map2 (+) (weighted d w1 v1) (weighted d w2 v2)"
  by (rule nth_equalityI) (simp_all add: weighted_def)

lemma weighted_zero: "weighted d (replicate n 0) vs = replicate d 0"
proof -
  have "sum_list (map2 (\<lambda>a x. a * x ! j) (replicate n 0) vs) = (0 :: real)" for j
    by (induction n arbitrary: vs) (auto split: list.splits simp: zip_Cons1)
  then show ?thesis by (simp add: weighted_def map_replicate_const)
qed

lemma length_weighted [simp]: "length (weighted d w v) = d"
  by (simp add: weighted_def)

lemma map2_zero_left: "length xs = d \<Longrightarrow> map2 (+) (replicate d 0) xs = (xs :: real list)"
  by (rule nth_equalityI) auto

text \<open>Dropping columns that are masked, with their values, leaves the output unchanged.\<close>

lemma masked_columns_drop:
  assumes "length xs = length us" "length n0 = m"
  shows "weighted d (masked_softmax (xs @ replicate m None @ ys)) (us @ n0 @ vs) = weighted d (masked_softmax (xs @ ys)) (us @ vs)"
proof -
  define e where "e = (\<lambda>x :: real option. case x of None \<Rightarrow> 0 | Some r \<Rightarrow> exp r)"
  define s where "s = sum_list (map e (xs @ ys))"
  have s: "sum_list (map e (xs @ replicate m None @ ys)) = s" by (simp add: s_def e_def sum_list_replicate)
  have m1: "masked_softmax (xs @ replicate m None @ ys) = map (\<lambda>x. e x / s) xs @ replicate m 0 @ map (\<lambda>x. e x / s) ys"
    using s by (simp add: masked_softmax_def e_def [symmetric] Let_def comp_def map_replicate_const) (simp add: e_def)
  have m2: "masked_softmax (xs @ ys) = map (\<lambda>x. e x / s) xs @ map (\<lambda>x. e x / s) ys"
    using s_def by (simp add: masked_softmax_def e_def [symmetric] Let_def comp_def)
  show ?thesis unfolding m1 m2 using assms
    by (simp add: weighted_app weighted_zero map2_zero_left)
qed

lemma map2_oadd_zero: "length xs = n \<Longrightarrow> map2 oadd xs (replicate n (Some 0)) = xs"
  by (rule nth_equalityI) (auto simp: oadd_def split: option.splits)

lemma map2_oadd_none: "length xs = n \<Longrightarrow> map2 oadd xs (replicate n None) = replicate n None"
  by (rule nth_equalityI) (auto simp: oadd_def split: option.splits)

lemma map2_oadd_layout:
  assumes "length a = n" "length b = n" "length p = m" "length s1 = k" "length s2 = r"
  shows "map2 oadd (map2 oadd (a @ p @ s1 @ s2) (replicate n (Some 0) @ replicate m (Some 0) @ replicate k (Some 0) @ replicate r None))
      (b @ replicate m None @ replicate k (Some 0) @ replicate r (Some 0)) = map2 oadd a b @ replicate m None @ s1 @ replicate r None"
  using assms by (simp add: map2_oadd_zero map2_oadd_none) (simp add: oadd_def)

text \<open>Attention over padded cached rows and all new rows, with the padding bias and the causal mask,
  is attention over the real rows and the new rows up to the query's own.\<close>

lemma eager_row_padded:
  assumes l: "length vs = length ks" "length b = length ks" "length nv = length nk" "i < length nk" "length ks \<le> phys"
  shows "eager_row d sc x ((ks @ replicate (phys - length ks) z) @ nk) ((vs @ replicate (phys - length ks) z) @ nv)
      (Some (decode_mask phys (length nk) ! i)) (Some ((map Some b @ replicate (phys - length ks) None) @ replicate (length nk) (Some 0))) =
    eager_row d sc x (ks @ take (Suc i) nk) (vs @ take (Suc i) nv) None (Some (map Some b @ replicate (Suc i) (Some 0)))"
proof -
  let ?n = "length nk" and ?m = "phys - length ks"
  let ?S = "\<lambda>ks. map (\<lambda>k. Some (dot x k * sc)) ks"
  let ?B = "map2 oadd (?S ks) (map Some b)" and ?k1 = "take (Suc i) nk" and ?k2 = "drop (Suc i) nk"
  have len: "length ?k1 = Suc i" "length ?k2 = ?n - Suc i" using l(4) by simp_all
  let ?f = "\<lambda>j. if j \<le> i then Some 0 else (None :: real option)"
  have "[0..<?n] = [0..<Suc i] @ [Suc i..<?n]"
    using upt_add_eq_append [of 0 "Suc i" "?n - Suc i"] le_add_diff_inverse [of "Suc i" ?n] l(4) by (metis Suc_leI le0)
  then have "map ?f [0..<?n] = map ?f [0..<Suc i] @ map ?f [Suc i..<?n]" by (metis map_append)
  also have "map ?f [0..<Suc i] = replicate (Suc i) (Some 0)" by (rule nth_equalityI) (auto simp del: upt_Suc replicate_Suc)
  also have "map ?f [Suc i..<?n] = replicate (?n - Suc i) None" by (rule nth_equalityI) (auto simp del: upt_Suc)
  finally have "decode_mask phys ?n ! i = replicate phys (Some 0) @ replicate (Suc i) (Some 0) @ replicate (?n - Suc i) None"
    using l(4) by (simp add: decode_mask_def)
  moreover have "replicate phys (Some 0 :: real option) = replicate (length ks) (Some 0) @ replicate ?m (Some 0)"
    using l(5) by (simp add: replicate_add [symmetric])
  ultimately have msk: "decode_mask phys ?n ! i = replicate (length ks) (Some 0) @ replicate ?m (Some 0) @ replicate (Suc i) (Some 0) @ replicate (?n - Suc i) None"
    by simp
  have rep: "replicate ?n (Some 0 :: real option) = replicate (Suc i) (Some 0) @ replicate (?n - Suc i) (Some 0)"
    using l(4) by (simp add: replicate_add [symmetric] del: replicate_Suc)

  have S: "?S ((ks @ replicate ?m z) @ nk) = ?S ks @ ?S (replicate ?m z) @ ?S ?k1 @ ?S ?k2"
    by (metis append.assoc append_take_drop_id map_append)
  have len2: "length ((ks @ replicate ?m z) @ nk) = length (decode_mask phys ?n ! i)" using msk l(4) by simp
  have w: "map2 oadd (map2 oadd (?S ((ks @ replicate ?m z) @ nk)) (decode_mask phys ?n ! i))
      ((map Some b @ replicate ?m None) @ replicate ?n (Some 0)) = ?B @ replicate ?m None @ ?S ?k1 @ replicate (?n - Suc i) None"
    unfolding S unfolding msk rep append.assoc by (rule map2_oadd_layout) (use l(2) len in simp_all)
  have lhs: "eager_row d sc x ((ks @ replicate ?m z) @ nk) ((vs @ replicate ?m z) @ nv)
      (Some (decode_mask phys ?n ! i)) (Some ((map Some b @ replicate ?m None) @ replicate ?n (Some 0))) =
    weighted d (masked_softmax (?B @ replicate ?m None @ ?S ?k1 @ replicate (?n - Suc i) None)) (vs @ replicate ?m z @ take (Suc i) nv @ drop (Suc i) nv)"
    unfolding eager_row_def Let_def option.case using w len2 by simp
  have "length ((?B @ ?S ?k1)) = length (vs @ take (Suc i) nv)" "length ?B = length vs" using l by simp_all
  note drop1 = masked_columns_drop [OF this(2) length_replicate, of d ?m "?S ?k1 @ replicate (?n - Suc i) None" z "take (Suc i) nv @ drop (Suc i) nv"]
    and drop2 = masked_columns_drop [OF this(1), of "drop (Suc i) nv" "?n - Suc i" d "[]" "[]"]
  have rhs: "eager_row d sc x (ks @ ?k1) (vs @ take (Suc i) nv) None (Some (map Some b @ replicate (Suc i) (Some 0))) =
    weighted d (masked_softmax (?B @ ?S ?k1)) (vs @ take (Suc i) nv)"
    unfolding eager_row_def Let_def option.case using l(2) len by (simp add: map2_oadd_zero del: replicate_Suc)
  show ?thesis unfolding lhs rhs using drop1 drop2 l(3) by simp
qed

section \<open>The toy backend's vectors under the eager attention\<close>

text \<open>One row of outputs per new token: the eager attention of its key vectors over the cached and new
  columns of every layer and kv-head.\<close>

definition toy_row :: "model_spec \<Rightarrow> (nat \<Rightarrow> nat \<Rightarrow> vec) \<Rightarrow> vec" where
  "toy_row sp f = concat (map (\<lambda>l. concat (map (f l) [0..<min (n_kv_heads sp) (n_q_heads sp)])) [0..<n_layers sp])"

definition toy_dfwd :: "model_spec \<Rightarrow> vec kv_vec \<Rightarrow> decode_fwd" where
  "toy_dfwd sp vec cache betas m ps ids = map (\<lambda>j. toy_row sp (\<lambda>l h. let c = glue (cache ! l) (fake_layers sp vec ids ! l) in
     eager_row (head_dim sp) (attn_scale sp) (vec (ids ! j) l h True) (lkey c ! h) (lval c ! h) (Some (m ! j)) (Some (betas ! l ! h))))
     [0..<length ids]"

definition toy_next :: "model_spec \<Rightarrow> vec kv_vec \<Rightarrow> int list \<Rightarrow> real list" where
  "toy_next sp vec ts = toy_row sp (\<lambda>l h. eager_row (head_dim sp) (attn_scale sp) (vec (last ts) l h True)
     (map (\<lambda>t. vec t l h True) ts) (map (\<lambda>t. vec t l h False) ts) None None)"

lemma toy_row_cong:
  "(\<And>l h. l < n_layers sp \<Longrightarrow> h < n_kv_heads sp \<Longrightarrow> h < n_q_heads sp \<Longrightarrow> f l h = g l h) \<Longrightarrow> toy_row sp f = toy_row sp g"
  unfolding toy_row_def by (intro arg_cong [of _ _ concat] map_cong refl) auto

lemma eager_row_zero_bias: "eager_row d sc x ks vs None (Some (replicate (length ks) (Some 0))) = eager_row d sc x ks vs None None"
  by (simp add: eager_row_def Let_def map2_oadd_zero)

lemma eager_row_causal:
  assumes "length vs = length ks" "length nv = length nk" "i < length nk"
  shows "eager_row d sc x (ks @ nk) (vs @ nv) (Some (decode_mask (length ks) (length nk) ! i)) (Some (replicate (length ks + length nk) (Some 0))) =
    eager_row d sc x (ks @ take (Suc i) nk) (vs @ take (Suc i) nv) None None"
proof -
  have "replicate (length ks) (Some 0) @ replicate (Suc i) (Some 0) = replicate (length (ks @ take (Suc i) nk)) (Some (0::real))"
    using assms(3) by (simp add: replicate_add [symmetric] del: replicate_Suc)
  then have z: "eager_row d sc x (ks @ take (Suc i) nk) vs' None (Some (replicate (length ks) (Some 0) @ replicate (Suc i) (Some 0))) =
      eager_row d sc x (ks @ take (Suc i) nk) vs' None None" for vs'
    by (simp only: eager_row_zero_bias)
  show ?thesis
    using eager_row_padded [OF assms(1) _ assms(2,3) order.refl, of "replicate (length ks) 0" d sc x "[]"]
    by (simp add: replicate_add z del: replicate_Suc)
qed

interpretation toy_decode: causal_logits sp "fake_fwd sp vec" "toy_dfwd sp vec" "toy_next sp vec" for sp and vec :: "vec kv_vec"
proof unfold_locales
  fix ids ts :: "int list" assume ids: "ids \<noteq> []"
  have past: "(if ts = [] then empty_raw sp else fake_fwd sp vec (empty_raw sp) ts (arange 0 (length ts))) = fake_layers sp vec ts"
    by (simp add: fake_cols) (simp add: fake_layers_def empty_raw_def map_replicate_const)
  have row: "toy_row sp (\<lambda>l h. let c = glue (fake_layers sp vec ts ! l) (fake_layers sp vec ids ! l) in
      eager_row (head_dim sp) (attn_scale sp) (vec (ids ! j) l h True) (lkey c ! h) (lval c ! h)
        (Some (decode_mask (length ts) (length ids) ! j)) (Some (zero_betas sp (length ts + length ids) ! l ! h)))
    = toy_next sp vec (ts @ take (Suc j) ids)" if j: "j < length ids" for j
    unfolding toy_next_def
  proof (rule toy_row_cong)
    fix l h assume lh: "l < n_layers sp" "h < n_kv_heads sp" "h < n_q_heads sp"
    let ?k = "\<lambda>b ts. map (\<lambda>t. vec t l h b) ts"
    have c: "lkey (glue (fake_layers sp vec ts ! l) (fake_layers sp vec ids ! l)) ! h = ?k True ts @ ?k True ids"
      "lval (glue (fake_layers sp vec ts ! l) (fake_layers sp vec ids ! l)) ! h = ?k False ts @ ?k False ids"
      using lh by (simp_all add: glue_def fake_layers_def)
    have b: "zero_betas sp (length ts + length ids) ! l ! h = replicate (length ts + length ids) (Some 0)"
      using lh by (simp add: zero_betas_def)
    have last: "last (ts @ take (Suc j) ids) = ids ! j" using j by (simp add: take_Suc_conv_app_nth)
    show "(let c = glue (fake_layers sp vec ts ! l) (fake_layers sp vec ids ! l) in
        eager_row (head_dim sp) (attn_scale sp) (vec (ids ! j) l h True) (lkey c ! h) (lval c ! h)
          (Some (decode_mask (length ts) (length ids) ! j)) (Some (zero_betas sp (length ts + length ids) ! l ! h))) =
      eager_row (head_dim sp) (attn_scale sp) (vec (last (ts @ take (Suc j) ids)) l h True)
        (?k True (ts @ take (Suc j) ids)) (?k False (ts @ take (Suc j) ids)) None None"
      unfolding Let_def c b last
      using eager_row_causal [of "?k False ts" "?k True ts" "?k False ids" "?k True ids" j "head_dim sp" "attn_scale sp" "vec (ids ! j) l h True"] j
      by (simp add: take_map)
  qed
  show "toy_dfwd sp vec (if ts = [] then empty_raw sp else fake_fwd sp vec (empty_raw sp) ts (arange 0 (length ts)))
      (zero_betas sp (length ts + length ids)) (decode_mask (length ts) (length ids)) (arange (length ts) (length ts + length ids)) ids
    = map (\<lambda>j. toy_next sp vec (ts @ take (Suc j) ids)) [0..<length ids]"
    unfolding past toy_dfwd_def using row by simp
qed

section \<open>Properties\<close>

text \<open>C4. Generation and scoring over a cached context are exact. For a causal transformer, decoding over the
  key/value cache of a context gives the very tokens of decoding without any cache from context and
  prompt together, and the teacher-forced scores are the log-probabilities of the uncached model at
  every target position, also for an empty prompt, where the code recovers the boundary logit by
  dropping the last cached position and feeding that token again.\<close>

theorem decode_exact:
  assumes "causal_logits sp fwd dfwd L" "heads_ok sp" "ts \<noteq> []"
  shows "hf_generate sp dfwd pick (Raw (hf_prefill sp fwd ts 0)) meta prompt n = Inr (decode_ref pick L 0 n (ts @ prompt)) \<and>
    hf_score sp dfwd (Raw (hf_prefill sp fwd ts 0)) meta prompt target =
      res_map (\<lambda>k. row_at (log_softmax (L (ts @ prompt @ take k target))) (target ! k)) [0..<length target]"
  using causal_logits.generate_pre [OF assms] causal_logits.score_pre [OF assms] by blast

lemma tiny_heads_ok: "heads_ok tiny_spec"
  by (simp add: heads_ok_def)

theorem decode_exact_witness:
  "hf_generate tiny_spec (toy_dfwd tiny_spec real_vec) (\<lambda>i row. 7) (Raw (fake_prefill tiny_spec real_vec [3, 4] 0)) None [] 2 = Inr [7, 7] \<and>
   hf_score tiny_spec (toy_dfwd tiny_spec real_vec) (Raw (fake_prefill tiny_spec real_vec [3, 4] 0)) None [] [0] =
     res_bind (row_at (log_softmax (toy_next tiny_spec real_vec [3, 4])) 0) (\<lambda>x. Inr [x])"
proof -
  have r: "decode_ref (\<lambda>i row. 7) L 0 2 xs = [7, 7]" for L xs by (simp add: numeral_2_eq_2)
  show ?thesis
    using decode_exact [OF toy_decode.causal_logits_axioms [of tiny_spec real_vec] tiny_heads_ok, where ts = "[3, 4]" and pick = "\<lambda>i row. 7"
        and meta = None and prompt = "[]" and n = 2 and target = "[0]"]
    by (simp add: fake_prefill_hf r)
qed

lemma repeat_kv_nth: "i < g * length xs \<Longrightarrow> repeat_kv g xs ! i = xs ! (i div g)"
proof (induction xs arbitrary: i)
  case (Cons x xs)
  show ?case
  proof (cases "i < g")
    case True then show ?thesis by (simp add: repeat_kv_def nth_append)
  next
    case False
    then have "0 < g" using Cons.prems by (cases g) auto
    with False have "i div g = Suc ((i - g) div g)" by (simp add: le_div_geq)
    then show ?thesis using Cons False by (simp add: repeat_kv_def nth_append)
  qed
qed (simp add: repeat_kv_def)

text \<open>What a rebuilt compact layer holds for one kv-head.\<close>

lemma build_cache_compact:
  assumes b: "build_cache sp (Compact cc) phys = Inr (cache, betas)" and l: "l < n_layers sp"
    and h: "kv_head_of sp qh = Inr h" "h < n_kv_heads sp"
  shows "\<exists>ks vs bs. l < length (cc_layers cc) \<and> h < length (ckeys (cc_layers cc ! l)) \<and>
    ks = ckeys (cc_layers cc ! l) ! h \<and> vs = cvalues (cc_layers cc ! l) ! h \<and> bs = cbiases (cc_layers cc ! l) ! h \<and>
    length vs = length ks \<and> length bs = length ks \<and> length ks \<le> phys \<and>
    lkey (cache ! l) ! h = ks @ replicate (phys - length ks) (replicate (head_dim sp) 0) \<and>
    lval (cache ! l) ! h = vs @ replicate (phys - length ks) (replicate (head_dim sp) 0) \<and>
    betas ! l ! qh = map Some bs @ replicate (phys - length ks) None"
proof -
  let ?z = "replicate (head_dim sp) (0 :: real)"
  obtain g where g: "group_size sp = Inr g" "g \<noteq> 0" "h = qh div g"
    using h(1) by (auto simp: kv_head_of_def split: if_splits)
  obtain ls where ls: "res_map (\<lambda>li. res_bind (res_bind (get_at (cc_layers cc) li) (build_compact_layer sp phys)) (\<lambda>(kv, b).
       res_bind (group_size sp) (\<lambda>g. Inr (kv, repeat_kv g b)))) [0..<n_layers sp] = Inr ls"
    "cache = map fst ls" "betas = map snd ls"
    using b by (auto simp: build_cache_def)
  from res_map_nth [OF ls(1)] l have len: "length ls = n_layers sp" and
    "res_bind (res_bind (get_at (cc_layers cc) l) (build_compact_layer sp phys)) (\<lambda>(kv, b).
       res_bind (group_size sp) (\<lambda>g. Inr (kv, repeat_kv g b))) = Inr (ls ! l)" by auto
  then obtain kv bq where L: "l < length (cc_layers cc)" "build_compact_layer sp phys (cc_layers cc ! l) = Inr (kv, bq)"
    "ls ! l = (kv, repeat_kv g bq)"
    using g(1) by (auto simp: get_at_def split: if_splits)
  then obtain hs where hs: "res_map (build_compact_head phys ?z (cc_layers cc ! l)) [0..<n_kv_heads sp] = Inr hs"
    "kv = \<lparr>lkey = map fst hs, lval = map (fst \<circ> snd) hs\<rparr>" "bq = map (snd \<circ> snd) hs"
    by (auto simp: build_compact_layer_def)
  from res_map_nth [OF hs(1)] h(2) have hl: "length hs = n_kv_heads sp" and
    B: "build_compact_head phys ?z (cc_layers cc ! l) h = Inr (hs ! h)" by auto
  have q: "qh < g * n_kv_heads sp" using h(2) g(2,3) by (simp add: div_less_iff_less_mult mult.commute)
  have "betas ! l ! qh = snd (snd (hs ! h))"
    using ls(3) L(3) len l q repeat_kv_nth [of qh g bq] hs(3) hl h(2) g(3) by simp
  moreover have "cache ! l = kv" using ls(2) L(3) len l by simp
  ultimately show ?thesis using B L(1) hs(2) hl h(2)
    by (cases "hs ! h") (auto simp: build_compact_head_def get_at_def pad_rows_def split: if_splits)
qed

text \<open>C15. Padding and masking are invisible. Over the rebuilt cache of a compact context, whatever its ragged
  per-head budgets, the attention output of the \<open>i\<close>-th new token in any layer and query head is the
  attention over that head's own kept keys with their fitted biases and the new tokens up to \<open>i\<close>: the
  padded slots and the later tokens contribute nothing.\<close>

theorem padding_exact:
  assumes "build_cache sp (Compact cc) (physical_len (Compact cc)) = Inr (cache, betas)" "l < n_layers sp"
    and "kv_head_of sp qh = Inr h" "h < n_kv_heads sp" "length nv = length nk" "i < length nk"
  shows "eager_row d sc x (lkey (cache ! l) ! h @ nk) (lval (cache ! l) ! h @ nv)
      (Some (decode_mask (physical_len (Compact cc)) (length nk) ! i)) (Some (betas ! l ! qh @ replicate (length nk) (Some 0))) =
    eager_row d sc x (ckeys (cc_layers cc ! l) ! h @ take (Suc i) nk) (cvalues (cc_layers cc ! l) ! h @ take (Suc i) nv) None
      (Some (map Some (cbiases (cc_layers cc ! l) ! h) @ replicate (Suc i) (Some 0)))"
proof -
  from build_cache_compact [OF assms(1-4)] obtain ks vs bs where
    k: "ks = ckeys (cc_layers cc ! l) ! h" "vs = cvalues (cc_layers cc ! l) ! h" "bs = cbiases (cc_layers cc ! l) ! h"
    and le: "length vs = length ks" "length bs = length ks" "length ks \<le> physical_len (Compact cc)"
    and e: "lkey (cache ! l) ! h = ks @ replicate (physical_len (Compact cc) - length ks) (replicate (head_dim sp) 0)"
      "lval (cache ! l) ! h = vs @ replicate (physical_len (Compact cc) - length ks) (replicate (head_dim sp) 0)"
      "betas ! l ! qh = map Some bs @ replicate (physical_len (Compact cc) - length ks) None" by blast
  show ?thesis unfolding e k [symmetric] by (rule eager_row_padded [OF le(1,2) assms(5,6) le(3)])
qed

definition two_head_spec :: model_spec where
  "two_head_spec = \<lparr>ms_name = ''two'', n_layers = 1, n_q_heads = 2, n_kv_heads = 2, head_dim = 1, hidden_size = 2, ms_dtype = ''float32''\<rparr>"

definition ragged :: "vec compact_cache" where
  "ragged = \<lparr>cc_spec = two_head_spec, cc_layers = [\<lparr>ckeys = [[[1], [2]], [[3]]], cvalues = [[[4], [5]], [[6]]],
     cbiases = [[0, 1], [2]], cpositions = [[0, 3], [1]]\<rparr>], cc_logical = 4, cc_method = ''m''\<rparr>"

theorem padding_exact_witness:
  "\<exists>cache betas. build_cache two_head_spec (Compact ragged) 2 = Inr (cache, betas) \<and>
    eager_row 1 1 [1] (lkey (cache ! 0) ! 1 @ [[7]]) (lval (cache ! 0) ! 1 @ [[8]]) (Some (decode_mask 2 1 ! 0)) (Some (betas ! 0 ! 1 @ [Some 0]))
    = eager_row 1 1 [1] [[3], [7]] [[6], [8]] None (Some [Some 2, Some 0])"
proof -
  have p: "physical_len (Compact ragged) = 2" by (simp add: physical_len_def ragged_def)
  have u2: "[0..<2] = [0, 1::nat]" by (simp add: upt_rec)
  obtain cache betas where b: "build_cache two_head_spec (Compact ragged) 2 = Inr (cache, betas)"
    by (simp add: build_cache_def two_head_spec_def ragged_def get_at_def build_compact_layer_def build_compact_head_def
        pad_rows_def group_size_def u2)
  have h: "kv_head_of two_head_spec 1 = Inr 1" "0 < n_layers two_head_spec" "1 < n_kv_heads two_head_spec"
    by (simp_all add: kv_head_of_def group_size_def two_head_spec_def)
  from padding_exact [OF b [folded p] h(2,1,3), of "[[8]]" "[[7]]" 0 1 1 "[1]"] b p show ?thesis
    by (auto simp: ragged_def)
qed

lemma full_kv_layers:
  assumes f: "full_kv c = Inr cc" and s: "kv_shaped c" and l: "l < n_layers (kv_spec c)"
  shows "length (cc_layers cc) = n_layers (kv_spec c)" "ckeys (cc_layers cc ! l) = lkey (kv_layers c ! l)"
    "cvalues (cc_layers cc ! l) = lval (kv_layers c ! l)"
    "cbiases (cc_layers cc ! l) = replicate (n_kv_heads (kv_spec c)) (replicate (seq_len c) 0)" "cc_logical cc = seq_len c"
proof -
  let ?S = "replicate (n_kv_heads (kv_spec c)) [0..<seq_len c]"
  have p: "res_map (\<lambda>h. Inr [0..<seq_len c]) [0..<n_kv_heads (kv_spec c)] = Inr ?S"
    using res_map_const [of "[0..<n_kv_heads (kv_spec c)]" "\<lambda>h. Inr [0..<seq_len c]" "\<lambda>h. [0..<seq_len c]"]
    by (simp add: map_replicate_const)
  have "res_map (\<lambda>l. Inr (make_layer (lkey (kv_layers c ! l)) (lval (kv_layers c ! l)) (kv_positions c) ?S)) [0..<n_layers (kv_spec c)]
    = Inr (map (\<lambda>l. make_layer (lkey (kv_layers c ! l)) (lval (kv_layers c ! l)) (kv_positions c) ?S) [0..<n_layers (kv_spec c)])"
    by (rule res_map_const) simp
  then have cc: "cc_layers cc = map (\<lambda>l. make_layer (lkey (kv_layers c ! l)) (lval (kv_layers c ! l)) (kv_positions c) ?S) [0..<n_layers (kv_spec c)]"
    "cc_logical cc = seq_len c"
    using f by (auto simp: full_kv_def select_compact_def p)
  have rows: "map2 (\<lambda>kh s. map (\<lambda>i. kh ! i) s) k ?S = k"
    if "length k = n_kv_heads (kv_spec c)" "list_all (\<lambda>r. length r = seq_len c) k" for k :: "'a list list"
  proof (rule nth_equalityI)
    fix i assume "i < length (map2 (\<lambda>kh s. map (\<lambda>i. kh ! i) s) k ?S)"
    then have i: "i < length k" "i < n_kv_heads (kv_spec c)" by auto
    then have "length (k ! i) = seq_len c" using that(2) by (simp add: list_all_length)
    then show "map2 (\<lambda>kh s. map (\<lambda>i. kh ! i) s) k ?S ! i = k ! i" using i by (metis (no_types, lifting) case_prod_conv length_replicate map_nth nth_map nth_replicate nth_zip length_zip min_less_iff_conj)
  qed (use that(1) in simp)
  have L: "length (lkey (kv_layers c ! l)) = n_kv_heads (kv_spec c)" "length (lval (kv_layers c ! l)) = n_kv_heads (kv_spec c)"
    "list_all (\<lambda>r. length r = seq_len c) (lkey (kv_layers c ! l))" "list_all (\<lambda>r. length r = seq_len c) (lval (kv_layers c ! l))"
    using s l by (auto simp: kv_shaped_def shaped_def list_all_length)
  have srt: "map sort ?S = ?S" by (simp add: sorted_sort_id)
  show "length (cc_layers cc) = n_layers (kv_spec c)" "cc_logical cc = seq_len c" using cc by simp_all
  show "ckeys (cc_layers cc ! l) = lkey (kv_layers c ! l)" "cvalues (cc_layers cc ! l) = lval (kv_layers c ! l)"
    "cbiases (cc_layers cc ! l) = replicate (n_kv_heads (kv_spec c)) (replicate (seq_len c) 0)"
    using l rows [OF L(1,3)] rows [OF L(2,4)] srt by (simp_all add: cc make_layer_def Let_def)
qed

lemma build_compact_full:
  assumes "0 < n_kv_heads sp" "length (lkey L) = n_kv_heads sp" "length (lval L) = n_kv_heads sp"
    and "list_all (\<lambda>h. length h = n) (lkey L)" "list_all (\<lambda>h. length h = n) (lval L)"
    and "ckeys cl = lkey L" "cvalues cl = lval L" "cbiases cl = replicate (n_kv_heads sp) (replicate n 0)"
  shows "build_compact_layer sp n cl = Inr (L, replicate (n_kv_heads sp) (replicate n (Some 0)))"
proof -
  let ?f = "\<lambda>h. (lkey L ! h, lval L ! h, replicate n (Some (0::real)))"
  have "res_map (build_compact_head n (replicate (head_dim sp) 0) cl) [0..<n_kv_heads sp] = Inr (map ?f [0..<n_kv_heads sp])"
    by (rule res_map_const) (use assms in \<open>auto simp: build_compact_head_def get_at_def pad_rows_def list_all_length\<close>)
  moreover have "map (\<lambda>h. xs ! h) [0..<n_kv_heads sp] = xs" if "length xs = n_kv_heads sp" for xs :: "vec list list"
    using that map_nth by metis
  ultimately show ?thesis using assms(2,3)
    by (simp add: build_compact_layer_def comp_def map_replicate_const)
qed

lemma foldr_max_const: "xs \<noteq> [] \<Longrightarrow> set xs \<subseteq> {n} \<Longrightarrow> foldr max xs 0 = (n :: nat)"
proof (induction xs)
  case (Cons x xs) then show ?case by (cases "xs = []") auto
qed simp

lemma full_kv_build:
  assumes f: "full_kv c = Inr cc" and s: "kv_shaped c" and h: "heads_ok (kv_spec c)" and n: "0 < n_layers (kv_spec c)"
  shows "physical_len (Compact cc) = seq_len c"
    "build_cache (kv_spec c) (Compact cc) (seq_len c) = build_cache (kv_spec c) (Raw c) (seq_len c)"
proof -
  let ?sp = "kv_spec c"
  note F = full_kv_layers [OF f s]
  have L: "length (lkey (kv_layers c ! l)) = n_kv_heads ?sp \<and> length (lval (kv_layers c ! l)) = n_kv_heads ?sp \<and>
    list_all (\<lambda>r. length r = seq_len c) (lkey (kv_layers c ! l)) \<and> list_all (\<lambda>r. length r = seq_len c) (lval (kv_layers c ! l))"
    "length (kv_layers c) = n_layers ?sp" if "l < n_layers ?sp" for l
    using s that by (auto simp: kv_shaped_def shaped_def list_all_length)
  have len: "length (cc_layers cc) = n_layers ?sp" by (rule F(1) [OF n])
  have all: "x = seq_len c" if "x \<in> set (map length (concat (map ckeys (cc_layers cc))))" for x
  proof -
    from that obtain r cl where r: "cl \<in> set (cc_layers cc)" "r \<in> set (ckeys cl)" "x = length r" by auto
    from r(1) obtain l where "l < length (cc_layers cc)" "cc_layers cc ! l = cl" by (auto simp: in_set_conv_nth)
    with r(2,3) have "l < length (cc_layers cc)" "r \<in> set (ckeys (cc_layers cc ! l))" "x = length r" by simp_all
    then show ?thesis using F(2) [of l] L(1) [of l] len by (auto simp: list_all_iff)
  qed
  have "ckeys (cc_layers cc ! 0) \<noteq> []" using F(2) [OF n] L(1) [OF n] h by (auto simp: heads_ok_def)
  then have "map length (concat (map ckeys (cc_layers cc))) \<noteq> []" using len n by (cases "cc_layers cc") auto
  moreover have "set (map length (concat (map ckeys (cc_layers cc)))) \<subseteq> {seq_len c}" using all by blast
  ultimately have "foldr max (map length (concat (map ckeys (cc_layers cc)))) 0 = seq_len c" by (rule foldr_max_const)
  then show "physical_len (Compact cc) = seq_len c" by (simp add: physical_len_def)
  have "build_cache ?sp (Compact cc) (seq_len c) = Inr (map (\<lambda>li. kv_layers c ! li) [0..<n_layers ?sp],
      map (\<lambda>_. replicate (n_q_heads ?sp) (replicate (seq_len c) (Some 0))) [0..<n_layers ?sp])"
  proof -
    have "res_map (\<lambda>li. res_bind (res_bind (get_at (cc_layers cc) li) (build_compact_layer ?sp (seq_len c))) (\<lambda>(k, b).
        res_bind (group_size ?sp) (\<lambda>g. Inr (k, repeat_kv g b)))) [0..<n_layers ?sp] =
      Inr (map (\<lambda>li. (kv_layers c ! li, replicate (n_q_heads ?sp) (replicate (seq_len c) (Some 0)))) [0..<n_layers ?sp])"
    proof (rule res_map_const)
      fix li assume "li \<in> set [0..<n_layers ?sp]"
      then have i: "li < n_layers ?sp" by simp
      then have "build_compact_layer ?sp (seq_len c) (cc_layers cc ! li) =
          Inr (kv_layers c ! li, replicate (n_kv_heads ?sp) (replicate (seq_len c) (Some 0)))"
        using L(1) [OF i] h F(2-4) [OF i] by (intro build_compact_full) (auto simp: heads_ok_def)
      then show "res_bind (res_bind (get_at (cc_layers cc) li) (build_compact_layer ?sp (seq_len c))) (\<lambda>(k, b).
          res_bind (group_size ?sp) (\<lambda>g. Inr (k, repeat_kv g b))) = Inr (kv_layers c ! li, replicate (n_q_heads ?sp) (replicate (seq_len c) (Some 0)))"
        using i len heads_okD [OF h] by (simp add: get_at_def repeat_kv_replicate)
    qed
    then show ?thesis by (simp add: build_cache_def comp_def)
  qed
  also have "\<dots> = Inr (kv_layers c, zero_betas ?sp (seq_len c))"
    using map_nth [of "kv_layers c"] L(2) [OF n] by (simp add: zero_betas_def map_replicate_const)
  also have "\<dots> = build_cache ?sp (Raw c) (seq_len c)"
    using build_shaped [OF h, of "seq_len c" c] s by (simp add: kv_shaped_def)
  finally show "build_cache ?sp (Compact cc) (seq_len c) = build_cache ?sp (Raw c) (seq_len c)" .
qed

text \<open>C16. The compact path is a faithful generalisation of the raw one: the compact cache that keeps every token
  (FullKV) decodes exactly as the raw cache it was built from, so logits, generation and scores with a
  non-empty prompt are the same whatever the transformer is.\<close>

theorem full_kv_decodes:
  assumes "full_kv c = Inr cc" "kv_shaped c" "heads_ok (kv_spec c)" "0 < n_layers (kv_spec c)" "prompt \<noteq> []"
  shows "decode_logits (kv_spec c) dfwd (Compact cc) ids = decode_logits (kv_spec c) dfwd (Raw c) ids \<and>
    hf_generate (kv_spec c) dfwd pick (Compact cc) meta prompt n = hf_generate (kv_spec c) dfwd pick (Raw c) meta' prompt n \<and>
    hf_score (kv_spec c) dfwd (Compact cc) meta prompt target = hf_score (kv_spec c) dfwd (Raw c) meta' prompt target"
proof -
  have d: "decode_logits (kv_spec c) dfwd (Compact cc) = decode_logits (kv_spec c) dfwd (Raw c)"
    using full_kv_build [OF assms(1-4)] full_kv_layers(5) [OF assms(1,2,4)]
    by (intro ext) (simp add: decode_logits_def Let_def physical_len_def logical_len_def)
  then show ?thesis using assms(5) by (simp add: hf_generate_def hf_score_def Let_def)
qed

theorem full_kv_decodes_witness:
  "\<exists>cc. full_kv demo_cache = Inr cc \<and>
    hf_generate tiny_spec (toy_dfwd tiny_spec real_vec) (\<lambda>i row. 7) (Compact cc) None [1] 2 =
    hf_generate tiny_spec (toy_dfwd tiny_spec real_vec) (\<lambda>i row. 7) (Raw demo_cache) None [1] 2"
proof -
  obtain cc where cc: "full_kv demo_cache = Inr cc" by (auto simp: full_kv_def select_compact_def)
  have "heads_ok (kv_spec demo_cache)" "0 < n_layers (kv_spec demo_cache)" by (simp_all add: tiny_heads_ok)
  from full_kv_decodes [OF cc fake_kv_shaped this, of "[1]" "toy_dfwd tiny_spec real_vec" _ "\<lambda>i row. 7" None 2 None] cc
  show ?thesis by auto
qed

text \<open>Reference queries: at most the requested number per head.\<close>

lemma subsample_bound:
  assumes "row \<in> set (subsample n q)" "1 < n" shows "length row \<le> n"
  using assms by (auto simp: subsample_def linspace_idx_def split: if_splits)

end
