(* ===== verification/VLLM.thy ===== *)
theory VLLM imports Decode begin

text \<open>
  The vLLM model backend, \<^verbatim>\<open>dexa/engine/vllm_backend.py\<close>: collecting the key/value columns and the queries
  from the arguments of the engine's attention modules, the prefill and the reference queries built from
  them, and decoding, which needs an attention backend the source does not provide. The engine is a
  parameter: \<open>run toks\<close> is the list of forward passes it makes to serve a prompt, each with the arguments
  of every attention module, as the forward pre-hooks see them; \<open>cont\<close> is a greedy request.
\<close>

section \<open>Capturing queries, keys and values\<close>

text \<open>The arguments of one attention module in one pass: a row per token, the heads side by side.\<close>

record 'a attn_args =
  at_q :: "'a list list"
  at_k :: "'a list list"
  at_v :: "'a list list"

type_synonym 'a passes = "'a attn_args list list"

text \<open>Each hook stores into the dictionary of its module, so what is left is the last pass.\<close>

definition captured :: "'a passes \<Rightarrow> nat \<Rightarrow> 'a attn_args result" where
  "captured ps li = (if ps = [] then Inl (KeyError ''q'') else get_at (last ps) li)"

text \<open>\<^verbatim>\<open>arr.reshape(rows, n_heads, head_dim)[:T].transpose(1, 0, 2)\<close>.\<close>

definition split_heads :: "nat \<Rightarrow> nat \<Rightarrow> nat \<Rightarrow> 'a list list \<Rightarrow> 'a list list list result" where
  "split_heads T n d rows = (if \<exists>row \<in> set rows. length row \<noteq> n * d then Inl (ValueError ''cannot reshape array'')
     else Inr (map (\<lambda>h. map (\<lambda>row. take d (drop (h * d) row)) (take T rows)) [0..<n]))"

definition capture_qkv :: "model_spec \<Rightarrow> (int list \<Rightarrow> 'a passes) \<Rightarrow> int list
    \<Rightarrow> ('a list list list list \<times> 'a list list list list \<times> 'a list list list list) result" where
  "capture_qkv sp run toks = (let ps = run toks; T = length toks;
       part = (\<lambda>sel n. res_map (\<lambda>li. res_bind (captured ps li) (\<lambda>a. split_heads T n (head_dim sp) (sel a))) [0..<n_layers sp]) in
     res_bind (part at_q (n_q_heads sp)) (\<lambda>q. res_bind (part at_k (n_kv_heads sp)) (\<lambda>k.
     res_bind (part at_v (n_kv_heads sp)) (\<lambda>v. Inr (q, k, v)))))"

text \<open>The alternative path is not implemented.\<close>

definition extract_via_kv_connector :: "int list \<Rightarrow> unit result" where
  "extract_via_kv_connector toks = Inl (RuntimeError ''KV-connector extraction requires a connector configured at engine init (kv_transfer_config).'')"

definition vllm_prefill :: "model_spec \<Rightarrow> (int list \<Rightarrow> 'a passes) \<Rightarrow> int list \<Rightarrow> nat \<Rightarrow> 'a list kvcache result" where
  "vllm_prefill sp run toks off = res_bind (capture_qkv sp run toks) (\<lambda>(q, k, v).
     Inr \<lparr>kv_spec = sp, kv_layers = map2 (\<lambda>a b. \<lparr>lkey = a, lval = b\<rparr>) k v,
          kv_positions = arange off (off + length toks), kv_token_ids = Some toks\<rparr>)"

section \<open>Reference queries\<close>

definition vllm_self_study :: "model_spec \<Rightarrow> (int list \<Rightarrow> 'a passes) \<Rightarrow> (int list \<Rightarrow> nat \<Rightarrow> int list) \<Rightarrow> int \<Rightarrow> int list list
    \<Rightarrow> nat \<Rightarrow> int list \<Rightarrow> 'a list ref_queries result" where
  "vllm_self_study sp run cont sep prompts n_per_head toks =
     res_bind (res_map (\<lambda>p. let primer = toks @ [sep] @ p; full = primer @ cont primer 16 in
         res_bind (capture_qkv sp run full) (\<lambda>(q, k, v). Inr (map (slice_rows (length toks + 1) (length full)) q))) prompts)
       (\<lambda>chunks. Inr \<lparr>rq_spec = sp, rq_layers = map (\<lambda>li. subsample n_per_head
          (map (\<lambda>h. concat (map (\<lambda>c. c ! li ! h) chunks)) [0..<n_q_heads sp])) [0..<n_layers sp]\<rparr>)"

definition vllm_reference_queries :: "model_spec \<Rightarrow> (int list \<Rightarrow> 'a passes) \<Rightarrow> (int list \<Rightarrow> nat \<Rightarrow> int list) \<Rightarrow> int \<Rightarrow> int list list
    \<Rightarrow> string \<Rightarrow> nat \<Rightarrow> int list \<Rightarrow> 'a list ref_queries result" where
  "vllm_reference_queries sp run cont sep prompts strategy n_per_head toks = (let n = length toks in
     if strategy = ''self'' then res_bind (capture_qkv sp run toks) (\<lambda>(q, k, v).
       Inr \<lparr>rq_spec = sp, rq_layers = map (subsample n_per_head) q\<rparr>)
     else if strategy = ''repeat_prefill'' then res_bind (capture_qkv sp run (toks @ [sep] @ toks)) (\<lambda>(q, k, v).
       Inr \<lparr>rq_spec = sp, rq_layers = map (subsample n_per_head \<circ> slice_rows (n + 1) (n + 1 + n)) q\<rparr>)
     else if strategy = ''self_study'' then vllm_self_study sp run cont sep prompts n_per_head toks
     else Inl (ValueError (''unknown reference-query strategy: '' @ strategy)))"

section \<open>Decoding against an injected cache\<close>

text \<open>The parts a site must supply; as they stand in the source they raise.\<close>

definition register_beta_attention :: "unit result" where
  "register_beta_attention = Inl (RuntimeError ''The beta-aware vLLM attention backend is deployment-specific'')"

record injected =
  inj_handle :: string
  boundary_token :: int

definition from_context :: "vec context_cache \<Rightarrow> injected result" where
  "from_context c = Inl (RuntimeError ''_InjectedSequence.from_context is realized by the site-specific beta-aware backend shim'')"

definition attach_to_runner :: "injected \<Rightarrow> unit result" where
  "attach_to_runner s = Inl (RuntimeError ''_InjectedSequence.attach_to_runner is realized by the site-specific beta-aware backend shim'')"

text \<open>The class flag \<^verbatim>\<open>_COMPACT_DECODE_READY\<close> is threaded: \<open>avail\<close> tells whether vLLM was imported.\<close>

definition enable_compact_decode :: "bool \<Rightarrow> bool \<Rightarrow> bool \<times> unit result" where
  "enable_compact_decode avail ready = (if ready then (ready, Inr ())
     else if \<not> avail then (ready, Inl (RuntimeError ''enable_compact_decode requires vllm''))
     else case register_beta_attention of Inl e \<Rightarrow> (ready, Inl e) | Inr _ \<Rightarrow> (True, Inr ()))"

definition require_compact_decode :: "bool \<Rightarrow> unit result" where
  "require_compact_decode ready = (if ready then Inr ()
     else Inl (RuntimeError ''VLLMBackend.generate/score against a (compact) cache needs the bias-aware attention backend.''))"

definition decode_injected :: "(string \<Rightarrow> int list \<Rightarrow> nat \<Rightarrow> bool \<Rightarrow> int list) \<Rightarrow> vec context_cache \<Rightarrow> int list \<Rightarrow> nat \<Rightarrow> bool \<Rightarrow> int list result" where
  "decode_injected gen c prompt max_new greedy = res_bind (from_context c) (\<lambda>s. res_bind (attach_to_runner s) (\<lambda>_.
     Inr (gen (inj_handle s) (if prompt = [] then [boundary_token s] else prompt) max_new greedy)))"

text \<open>\<open>plp handle full\<close> are the per-position log-probabilities of every token, indexed as the engine returns them.\<close>

definition score_injected :: "(string \<Rightarrow> int list \<Rightarrow> (int \<Rightarrow> real) list) \<Rightarrow> vec context_cache \<Rightarrow> int list \<Rightarrow> int list \<Rightarrow> real list result" where
  "score_injected plp c prompt target = res_bind (from_context c) (\<lambda>s. res_bind (attach_to_runner s) (\<lambda>_.
     let full = (if prompt \<noteq> [] then prompt @ target else boundary_token s # target);
         start = (if prompt \<noteq> [] then length prompt else 1); ps = plp (inj_handle s) full in
     res_map (\<lambda>k. res_bind (get_at ps (start + k)) (\<lambda>p. Inr (p (target ! k)))) [0..<length target]))"

definition vllm_generate :: "(string \<Rightarrow> int list \<Rightarrow> nat \<Rightarrow> bool \<Rightarrow> int list) \<Rightarrow> bool \<Rightarrow> vec context_cache \<Rightarrow> int list \<Rightarrow> nat \<Rightarrow> bool \<Rightarrow> int list result" where
  "vllm_generate gen ready c prompt max_new greedy =
     res_bind (require_compact_decode ready) (\<lambda>_. decode_injected gen c prompt max_new greedy)"

definition vllm_score :: "(string \<Rightarrow> int list \<Rightarrow> (int \<Rightarrow> real) list) \<Rightarrow> bool \<Rightarrow> vec context_cache \<Rightarrow> int list \<Rightarrow> int list \<Rightarrow> real list result" where
  "vllm_score plp ready c prompt target = (if target = [] then Inr []
     else res_bind (require_compact_decode ready) (\<lambda>_. score_injected plp c prompt target))"

text \<open>Its numpy attention is the same code as that of the other backends.\<close>

definition vllm_attention_outputs :: "model_spec \<Rightarrow> vec context_cache \<Rightarrow> vec ref_queries \<Rightarrow> vec list list list result" where
  "vllm_attention_outputs sp c qs = attention_outputs sp c qs"

section \<open>The life of the class\<close>

datatype vllm_op =
    Construct
  | Enable
  | Generate "vec context_cache" "int list" nat bool
  | Score "vec context_cache" "int list" "int list"

datatype vllm_out = Done | Ids "int list" | Scores "real list" | Raised py_exc

definition out_of :: "('a \<Rightarrow> vllm_out) \<Rightarrow> 'a result \<Rightarrow> vllm_out" where
  "out_of f r = (case r of Inl e \<Rightarrow> Raised e | Inr x \<Rightarrow> f x)"

text \<open>A constructor without vLLM raises; a module without vLLM has no instance, and its calls are not reached.\<close>

definition vllm_step :: "(string \<Rightarrow> int list \<Rightarrow> nat \<Rightarrow> bool \<Rightarrow> int list) \<Rightarrow> (string \<Rightarrow> int list \<Rightarrow> (int \<Rightarrow> real) list) \<Rightarrow> bool
    \<Rightarrow> bool \<Rightarrow> vllm_op \<Rightarrow> bool \<times> vllm_out" where
  "vllm_step gen plp avail ready op = (case op of
     Construct \<Rightarrow> (ready, if avail then Done else Raised (RuntimeError ''VLLMBackend requires the 'vllm' package''))
   | Enable \<Rightarrow> (let (r, o1) = enable_compact_decode avail ready in (r, out_of (\<lambda>_. Done) o1))
   | Generate c p n g \<Rightarrow> (ready, out_of Ids (vllm_generate gen ready c p n g))
   | Score c p t \<Rightarrow> (ready, out_of Scores (vllm_score plp ready c p t)))"

fun vllm_run :: "(string \<Rightarrow> int list \<Rightarrow> nat \<Rightarrow> bool \<Rightarrow> int list) \<Rightarrow> (string \<Rightarrow> int list \<Rightarrow> (int \<Rightarrow> real) list) \<Rightarrow> bool
    \<Rightarrow> bool \<Rightarrow> vllm_op list \<Rightarrow> bool \<times> vllm_out list" where
  "vllm_run gen plp avail ready [] = (ready, [])"
| "vllm_run gen plp avail ready (op # ops) = (let (r, o1) = vllm_step gen plp avail ready op; (r', os) = vllm_run gen plp avail r ops in (r', o1 # os))"

section \<open>What the hooks collect\<close>

definition flat_rows :: "nat \<Rightarrow> 'a list list list \<Rightarrow> 'a list list" where
  "flat_rows T hs = map (\<lambda>i. concat (map (\<lambda>h. h ! i) hs)) [0..<T]"

definition even_heads :: "nat \<Rightarrow> nat \<Rightarrow> nat \<Rightarrow> 'a list list list \<Rightarrow> bool" where
  "even_heads n T d hs \<longleftrightarrow> length hs = n \<and> (\<forall>h \<in> set hs. length h = T \<and> (\<forall>v \<in> set h. length v = d))"

lemma concat_block:
  "h < length xs \<Longrightarrow> \<forall>x \<in> set xs. length x = d \<Longrightarrow> take d (drop (h * d) (concat xs)) = xs ! h"
  by (induction xs arbitrary: h) (auto simp: less_Suc_eq_0_disj nth_Cons split: nat.splits)

lemma concat_blocks_length: "\<forall>x \<in> set xs. length x = d \<Longrightarrow> length (concat xs) = length xs * d"
  by (induction xs) auto

lemma split_flat:
  assumes "even_heads n T d hs"
  shows "split_heads T n d (flat_rows T hs) = Inr hs"
proof -
  have w: "\<forall>x \<in> set (map (\<lambda>h. h ! i) hs). length x = d" if "i < T" for i
    using assms that by (auto simp: even_heads_def)
  have len: "length hs = n" using assms by (simp add: even_heads_def)
  have "length row = n * d" if "row \<in> set (flat_rows T hs)" for row
    using that concat_blocks_length [OF w] len by (auto simp: flat_rows_def)
  moreover have "map (\<lambda>h. map (\<lambda>row. take d (drop (h * d) row)) (take T (flat_rows T hs))) [0..<n] = hs"
  proof (rule nth_equalityI)
    fix h assume "h < length (map (\<lambda>h. map (\<lambda>row. take d (drop (h * d) row)) (take T (flat_rows T hs))) [0..<n])"
    then have h: "h < n" by simp
    have "map (\<lambda>row. take d (drop (h * d) row)) (flat_rows T hs) = hs ! h"
    proof (rule nth_equalityI)
      show "length (map (\<lambda>row. take d (drop (h * d) row)) (flat_rows T hs)) = length (hs ! h)"
        using assms h len by (simp add: even_heads_def flat_rows_def)
      fix i assume "i < length (map (\<lambda>row. take d (drop (h * d) row)) (flat_rows T hs))"
      then have i: "i < T" by (simp add: flat_rows_def)
      show "map (\<lambda>row. take d (drop (h * d) row)) (flat_rows T hs) ! i = hs ! h ! i"
        using concat_block [OF _ w [OF i], of h] h i len by (simp add: flat_rows_def)
    qed
    then show "map (\<lambda>h. map (\<lambda>row. take d (drop (h * d) row)) (take T (flat_rows T hs))) [0..<n] ! h = hs ! h"
      using h by (simp add: flat_rows_def)
  qed (use len in simp)
  ultimately show ?thesis by (auto simp: split_heads_def)
qed

text \<open>
  An engine that serves a prompt in one pass: its attention modules, one per layer, are given the model's
  own columns and queries of the whole prompt.
\<close>

locale one_pass_engine = causal_forward sp fwd for sp and fwd :: "'a list forward" +
  fixes run :: "int list \<Rightarrow> 'a passes" and post_rope :: "int list \<Rightarrow> 'a list list list list"
  assumes run: "toks \<noteq> [] \<Longrightarrow> \<exists>earlier. run toks = earlier @ [map2 (\<lambda>l q. \<lparr>at_q = flat_rows (length toks) q,
      at_k = flat_rows (length toks) (lkey l), at_v = flat_rows (length toks) (lval l)\<rparr>)
      (fwd (empty_raw sp) toks (arange 0 (length toks))) (post_rope toks)]"
    and queries: "length (post_rope toks) = n_layers sp \<and> (\<forall>q \<in> set (post_rope toks). even_heads (n_q_heads sp) (length toks) (head_dim sp) q)"
    and columns: "toks \<noteq> [] \<Longrightarrow> \<forall>l \<in> set (fwd (empty_raw sp) toks (arange 0 (length toks))).
      \<forall>h \<in> set (lkey l) \<union> set (lval l). \<forall>v \<in> set h. length v = head_dim sp"

context one_pass_engine
begin

lemma capture:
  assumes "toks \<noteq> []"
  shows "capture_qkv sp run toks = Inr (post_rope toks, map lkey (cols toks), map lval (cols toks))"
proof -
  let ?T = "length toks"
  let ?a = "\<lambda>l q. \<lparr>at_q = flat_rows ?T q, at_k = flat_rows ?T (lkey l), at_v = flat_rows ?T (lval l)\<rparr>"
  have sh: "shaped sp ?T (cols toks)" using cols_shaped [OF assms] .
  have len: "length (cols toks) = n_layers sp" "length (post_rope toks) = n_layers sp"
    using sh queries by (simp_all add: shaped_def)
  have cap: "captured (run toks) li = Inr (?a (cols toks ! li) (post_rope toks ! li))" if "li < n_layers sp" for li
    using run [OF assms] that len by (auto simp: captured_def get_at_def)
  have reg: "even_heads (n_q_heads sp) ?T (head_dim sp) (post_rope toks ! li)" "even_heads (n_kv_heads sp) ?T (head_dim sp) (lkey (cols toks ! li))"
    "even_heads (n_kv_heads sp) ?T (head_dim sp) (lval (cols toks ! li))" if "li < n_layers sp" for li
  proof -
    have "post_rope toks ! li \<in> set (post_rope toks)" and l: "cols toks ! li \<in> set (cols toks)" using that len by simp_all
    then show "even_heads (n_q_heads sp) ?T (head_dim sp) (post_rope toks ! li)" using queries [of toks] by blast
    have c: "\<forall>h \<in> set (lkey (cols toks ! li)) \<union> set (lval (cols toks ! li)). \<forall>v \<in> set h. length v = head_dim sp"
      using columns [OF assms] l by blast
    have s: "length (lkey (cols toks ! li)) = n_kv_heads sp" "length (lval (cols toks ! li)) = n_kv_heads sp"
      "\<forall>h \<in> set (lkey (cols toks ! li)). length h = ?T" "\<forall>h \<in> set (lval (cols toks ! li)). length h = ?T"
      using sh l unfolding shaped_def list_all_iff by blast+
    show "even_heads (n_kv_heads sp) ?T (head_dim sp) (lkey (cols toks ! li))" "even_heads (n_kv_heads sp) ?T (head_dim sp) (lval (cols toks ! li))"
      using c s unfolding even_heads_def by blast+
  qed
  have "res_map (\<lambda>li. res_bind (captured (run toks) li) (\<lambda>a. split_heads ?T n (head_dim sp) (sel a))) [0..<n_layers sp] = Inr xs"
    if "length xs = n_layers sp" "\<And>li. li < n_layers sp \<Longrightarrow> split_heads ?T n (head_dim sp) (sel (?a (cols toks ! li) (post_rope toks ! li))) = Inr (xs ! li)"
    for sel n and xs :: "'a list list list list"
  proof -
    have "res_map (\<lambda>li. res_bind (captured (run toks) li) (\<lambda>a. split_heads ?T n (head_dim sp) (sel a))) [0..<n_layers sp] =
      Inr (map (\<lambda>li. xs ! li) [0..<n_layers sp])"
      by (rule res_map_const) (use that cap in auto)
    then show ?thesis using that(1) by (metis map_nth)
  qed
  note part = this
  have "res_map (\<lambda>li. res_bind (captured (run toks) li) (\<lambda>a. split_heads ?T (n_q_heads sp) (head_dim sp) (at_q a))) [0..<n_layers sp] = Inr (post_rope toks)"
    by (rule part) (simp_all add: len reg split_flat)
  moreover have "res_map (\<lambda>li. res_bind (captured (run toks) li) (\<lambda>a. split_heads ?T (n_kv_heads sp) (head_dim sp) (at_k a))) [0..<n_layers sp] = Inr (map lkey (cols toks))"
    by (rule part) (simp_all add: len reg split_flat)
  moreover have "res_map (\<lambda>li. res_bind (captured (run toks) li) (\<lambda>a. split_heads ?T (n_kv_heads sp) (head_dim sp) (at_v a))) [0..<n_layers sp] = Inr (map lval (cols toks))"
    by (rule part) (simp_all add: len reg split_flat)
  ultimately show ?thesis unfolding capture_qkv_def Let_def by simp
qed

lemma prefill_exact:
  assumes "toks \<noteq> []"
  shows "vllm_prefill sp run toks off = Inr ((pre toks)\<lparr>kv_positions := arange off (off + length toks)\<rparr>)"
proof -
  have "map2 (\<lambda>a b. \<lparr>lkey = a, lval = b\<rparr>) (map lkey ls) (map lval ls) = ls" for ls :: "'a list layer_kv list"
    by (induction ls) simp_all
  then show ?thesis using capture [OF assms] by (simp add: vllm_prefill_def hf_prefill_def Let_def)
qed

end

context one_pass_engine
begin

lemma self_study_agrees:
  assumes cont: "\<And>xs n. cont xs n = greedy_continuation nxt n xs"
  shows "res_map (\<lambda>p. let primer = toks @ [sep] @ p; full = primer @ cont primer 16 in
      res_bind (capture_qkv sp run full) (\<lambda>(q, k, v). Inr (map (slice_rows (length toks + 1) (length full)) q))) prompts =
    Inr (self_study_layers 16 post_rope nxt sep prompts toks)"
proof -
  have "res_map (\<lambda>p. let primer = toks @ [sep] @ p; full = primer @ cont primer 16 in
      res_bind (capture_qkv sp run full) (\<lambda>(q, k, v). Inr (map (slice_rows (length toks + 1) (length full)) q))) prompts =
    Inr (map (\<lambda>p. let primer = toks @ [sep] @ p; full = primer @ greedy_continuation nxt 16 primer in
      map (slice_rows (length toks + 1) (length full)) (post_rope full)) prompts)"
    by (rule res_map_const) (simp add: cont capture Let_def)
  then show ?thesis by (simp only: self_study_layers_def)
qed

lemma slice_whole: "map (slice_rows 0 (length toks)) (post_rope toks) = post_rope toks"
proof -
  have "slice_rows 0 (length toks) q = q" if "q \<in> set (post_rope toks)" for q
    using queries [of toks] that by (auto simp: slice_rows_def even_heads_def intro: map_idI)
  then show ?thesis by (auto intro: map_idI)
qed

lemma queries_agree:
  assumes "toks \<noteq> []" and cont: "\<And>xs n. cont xs n = greedy_continuation nxt n xs"
  shows "vllm_reference_queries sp run cont sep prompts strategy m toks = hf_reference_queries sp post_rope nxt sep prompts strategy m toks"
proof -
  consider "strategy = ''self''" | "strategy = ''repeat_prefill''" | "strategy = ''self_study''"
    | "strategy \<notin> {''self'', ''repeat_prefill'', ''self_study''}" by blast
  then show ?thesis
  proof cases
    case 1 then show ?thesis using capture [OF assms(1)] slice_whole
      by (simp add: vllm_reference_queries_def hf_reference_queries_def Let_def)
  next
    case 2 then show ?thesis using capture [of "toks @ [sep] @ toks"]
      by (simp add: vllm_reference_queries_def hf_reference_queries_def Let_def)
  next
    case 3 then show ?thesis using self_study_agrees [OF cont, of toks sep prompts]
      by (simp add: vllm_reference_queries_def hf_reference_queries_def vllm_self_study_def Let_def comp_def)
  next
    case 4 then show ?thesis by (simp add: vllm_reference_queries_def hf_reference_queries_def Let_def)
  qed
qed

end

section \<open>An engine around the toy model\<close>

definition toy_queries :: "model_spec \<Rightarrow> vec kv_vec \<Rightarrow> int list \<Rightarrow> vec list list list" where
  "toy_queries sp vec toks = map (\<lambda>l. map (\<lambda>h. map (\<lambda>t. vec t l h True) toks) [0..<n_q_heads sp]) [0..<n_layers sp]"

definition toy_engine :: "model_spec \<Rightarrow> vec kv_vec \<Rightarrow> int list \<Rightarrow> real passes" where
  "toy_engine sp vec toks = [map2 (\<lambda>l q. \<lparr>at_q = flat_rows (length toks) q, at_k = flat_rows (length toks) (lkey l),
     at_v = flat_rows (length toks) (lval l)\<rparr>) (fake_layers sp vec toks) (toy_queries sp vec toks)]"

definition dim_vec :: "model_spec \<Rightarrow> vec kv_vec \<Rightarrow> vec kv_vec" where
  "dim_vec sp vec t l h b = map (\<lambda>i. if i < length (vec t l h b) then vec t l h b ! i else 0) [0..<head_dim sp]"

interpretation toy_engine: one_pass_engine sp "fake_fwd sp (dim_vec sp vec)" "toy_engine sp (dim_vec sp vec)" "toy_queries sp (dim_vec sp vec)"
  for sp and vec :: "vec kv_vec"
proof unfold_locales
  fix toks :: "int list"
  show "\<exists>earlier. toy_engine sp (dim_vec sp vec) toks = earlier @ [map2 (\<lambda>l q. \<lparr>at_q = flat_rows (length toks) q,
      at_k = flat_rows (length toks) (lkey l), at_v = flat_rows (length toks) (lval l)\<rparr>)
      (fake_fwd sp (dim_vec sp vec) (empty_raw sp) toks (arange 0 (length toks))) (toy_queries sp (dim_vec sp vec) toks)]"
    by (intro exI [of _ "[]"]) (simp add: toy_engine_def fake_cols)
  show "length (toy_queries sp (dim_vec sp vec) toks) = n_layers sp \<and>
      (\<forall>q \<in> set (toy_queries sp (dim_vec sp vec) toks). even_heads (n_q_heads sp) (length toks) (head_dim sp) q)"
    by (auto simp: toy_queries_def even_heads_def dim_vec_def)
  show "\<forall>l \<in> set (fake_fwd sp (dim_vec sp vec) (empty_raw sp) toks (arange 0 (length toks))).
      \<forall>h \<in> set (lkey l) \<union> set (lval l). \<forall>v \<in> set h. length v = head_dim sp"
    by (auto simp: fake_cols fake_layers_def dim_vec_def)
qed

section \<open>Properties\<close>



text \<open>A prompt the engine prefills in two passes: the hooks keep the second one only, and the cache has one
  column for two positions.\<close>

definition two_passes :: "int list \<Rightarrow> int passes" where
  "two_passes toks = map (\<lambda>t. [\<lparr>at_q = [[t]], at_k = [[t]], at_v = [[t]]\<rparr>]) toks"

lemma chunked_prefill_loses_columns:
  "vllm_prefill tiny_spec two_passes [3, 4] 0 =
     Inr \<lparr>kv_spec = tiny_spec, kv_layers = [\<lparr>lkey = [[[4]]], lval = [[[4]]]\<rparr>], kv_positions = [0, 1], kv_token_ids = Some [3, 4]\<rparr>"
  by code_simp

text \<open>The documentation of \<^verbatim>\<open>enable_compact_decode\<close> calls it a no-op without vLLM; it raises.\<close>

lemma enable_without_vllm: "\<exists>e. snd (enable_compact_decode False False) = Inl e"
  by (simp add: enable_compact_decode_def)

definition refused :: "bool \<Rightarrow> vllm_op \<Rightarrow> vllm_out \<Rightarrow> bool" where
  "refused avail op res \<longleftrightarrow> (case op of
     Construct \<Rightarrow> res = Done \<and> avail \<or> (\<exists>m. res = Raised (RuntimeError m)) \<and> \<not> avail
   | Score c p t \<Rightarrow> if t = [] then res = Scores [] else \<exists>m. res = Raised (RuntimeError m)
   | _ \<Rightarrow> \<exists>m. res = Raised (RuntimeError m))"

lemma vllm_step_refused: "\<exists>res. vllm_step gen plp avail False op = (False, res) \<and> refused avail op res"
  by (cases op) (auto simp: vllm_step_def refused_def enable_compact_decode_def register_beta_attention_def vllm_generate_def
      vllm_score_def require_compact_decode_def out_of_def)


end
