(* ===== verification/Scoring.thy ===== *)
theory Scoring imports Prelude "HOL-Library.Multiset" "HOL-Library.Sublist" begin

text \<open>
  Answer scoring and the synthetic tasks of the benchmark, \<^verbatim>\<open>dexa/bench/qa_metrics.py\<close> and
  \<^verbatim>\<open>dexa/bench/tasks.py\<close>: SQuAD normalisation, substring match, token F1, the token-id metrics, and the
  needle tasks with their splicing. Strings are ASCII. What the generators draw (keys, values, filler
  words) is an argument, and the backend's tokenizer is a parameter.
\<close>

section \<open>Characters\<close>

text \<open>\<^verbatim>\<open>str.isspace\<close>, the regular expression classes, \<^verbatim>\<open>string.punctuation\<close> and \<^verbatim>\<open>str.lower\<close> on ASCII.\<close>

definition code_in :: "nat \<Rightarrow> nat \<Rightarrow> char \<Rightarrow> bool" where
  "code_in a b c \<longleftrightarrow> a \<le> of_char c \<and> of_char c \<le> b"

definition ws_char :: "char \<Rightarrow> bool" where
  "ws_char c \<longleftrightarrow> code_in 9 13 c \<or> code_in 28 32 c"

definition word_char :: "char \<Rightarrow> bool" where
  "word_char c \<longleftrightarrow> code_in 48 57 c \<or> code_in 65 90 c \<or> code_in 95 95 c \<or> code_in 97 122 c"

definition punct_char :: "char \<Rightarrow> bool" where
  "punct_char c \<longleftrightarrow> code_in 33 47 c \<or> code_in 58 64 c \<or> code_in 91 96 c \<or> code_in 123 126 c"

definition lower_char :: "char \<Rightarrow> char" where
  "lower_char c = (if code_in 65 90 c then char_of (of_char c + 32 :: nat) else c)"

section \<open>Normalisation\<close>

definition articles :: "string list" where
  "articles = [''a'', ''an'', ''the'']"

text \<open>\<^verbatim>\<open>_ARTICLES.sub(" ", s)\<close>: a match with a word boundary on both sides is a whole run of word characters.\<close>

function sub_articles :: "string \<Rightarrow> string" where
  "sub_articles [] = []"
| "sub_articles (c # cs) = (if word_char c then
     (let w = takeWhile word_char (c # cs) in (if w \<in> set articles then '' '' else w) @ sub_articles (dropWhile word_char (c # cs)))
     else c # sub_articles cs)"
  by pat_completeness auto
termination by (relation "measure length") (auto simp: le_imp_less_Suc length_dropWhile_le)

text \<open>\<^verbatim>\<open>_WS.sub(" ", s)\<close>.\<close>

function collapse_ws :: "string \<Rightarrow> string" where
  "collapse_ws [] = []"
| "collapse_ws (c # cs) = (if ws_char c then CHR '' '' # collapse_ws (dropWhile ws_char cs) else c # collapse_ws cs)"
  by pat_completeness auto
termination by (relation "measure length") (auto simp: le_imp_less_Suc length_dropWhile_le)

definition strip_ws :: "string \<Rightarrow> string" where
  "strip_ws s = rev (dropWhile ws_char (rev (dropWhile ws_char s)))"

definition clean :: "string \<Rightarrow> string" where
  "clean s = filter (\<lambda>c. \<not> punct_char c) (map lower_char s)"

definition qa_normalize :: "string \<Rightarrow> string" where
  "qa_normalize s = strip_ws (collapse_ws (sub_articles (clean s)))"

text \<open>\<^verbatim>\<open>s.split()\<close>.\<close>

function split_ws :: "string \<Rightarrow> string list" where
  "split_ws [] = []"
| "split_ws (c # cs) = (if ws_char c then split_ws cs
     else takeWhile (\<lambda>x. \<not> ws_char x) (c # cs) # split_ws (dropWhile (\<lambda>x. \<not> ws_char x) (c # cs)))"
  by pat_completeness auto
termination by (relation "measure length") (auto simp: le_imp_less_Suc length_dropWhile_le)

definition qa_tokens :: "string \<Rightarrow> string list" where
  "qa_tokens s = split_ws (qa_normalize s)"

section \<open>Metrics\<close>

text \<open>\<^verbatim>\<open>p in s\<close> for strings.\<close>

fun occurs_in :: "'a list \<Rightarrow> 'a list \<Rightarrow> bool" where
  "occurs_in p [] \<longleftrightarrow> p = []"
| "occurs_in p (c # cs) \<longleftrightarrow> take (length p) (c # cs) = p \<or> occurs_in p cs"

definition substring_em :: "string \<Rightarrow> string list \<Rightarrow> rat" where
  "substring_em pred golds = (let npred = qa_normalize pred in
     if \<exists>g \<in> set golds. qa_normalize g \<noteq> [] \<and> occurs_in (qa_normalize g) npred then 1 else 0)"

text \<open>\<^verbatim>\<open>sum((Counter(a) & Counter(b)).values())\<close>.\<close>

definition overlap :: "'a list \<Rightarrow> 'a list \<Rightarrow> nat" where
  "overlap a b = size (mset a \<inter># mset b)"

definition harmonic :: "nat \<Rightarrow> nat \<Rightarrow> nat \<Rightarrow> rat" where
  "harmonic k n m = (let prec = rat_of_nat k / rat_of_nat n; rec = rat_of_nat k / rat_of_nat m in 2 * prec * rec / (prec + rec))"

definition f1_single :: "string \<Rightarrow> string \<Rightarrow> rat" where
  "f1_single pred gold = (let p = qa_tokens pred; g = qa_tokens gold in
     if p = [] \<or> g = [] then (if p = g then 1 else 0)
     else if overlap p g = 0 then 0 else harmonic (overlap p g) (length p) (length g))"

definition token_f1 :: "string \<Rightarrow> string list \<Rightarrow> rat" where
  "token_f1 pred golds = (if golds = [] then 0 else Max (set (map (f1_single pred) golds)))"

definition qa_score :: "string \<Rightarrow> string list \<Rightarrow> rat \<times> rat" where
  "qa_score pred golds = (substring_em pred golds, token_f1 pred golds)"

definition token_match :: "int list \<Rightarrow> int list \<Rightarrow> rat \<times> rat" where
  "token_match pred gold = (if gold = [] then (0, 0) else
     (let exact = (if \<exists>i \<in> set [0..<length pred + 1 - length gold]. take (length gold) (drop i pred) = gold then 1 else 0);
          k = overlap pred gold;
          f1 = (if k = 0 then 0 else harmonic k (max 1 (length pred)) (max 1 (length gold)))
      in (exact, f1)))"

section \<open>Tasks\<close>

text \<open>\<^verbatim>\<open>_splice\<close>: sentences in order of decreasing depth, each at its fraction of the list as it has grown.\<close>

definition splice_one :: "string list \<Rightarrow> rat \<times> string \<Rightarrow> string list" where
  "splice_one out ins = (let pos = min (length out) (nat (max 0 \<lfloor>fst ins * rat_of_nat (length out)\<rfloor>))
     in take pos out @ split_ws (snd ins) @ drop pos out)"

definition splice :: "string list \<Rightarrow> (rat \<times> string) list \<Rightarrow> string list" where
  "splice ws ins = foldl splice_one ws (sort_key (\<lambda>x. - fst x) ins)"

record task =
  tk_name :: string
  tk_context :: "int list"
  tk_prompt :: "int list"
  tk_gold :: "int list"

definition magic :: "string \<Rightarrow> string \<Rightarrow> string" where
  "magic key value = ''The magic number for '' @ key @ '' is '' @ value @ '' .''"

definition niah_single :: "(string \<Rightarrow> int list) \<Rightarrow> string list \<Rightarrow> string \<Rightarrow> string \<Rightarrow> rat \<Rightarrow> task" where
  "niah_single tok filler key value depth =
     \<lparr>tk_name = ''niah_single'', tk_context = tok (join_with '' '' (splice filler [(depth, magic key value)])),
      tk_prompt = tok (''What is the magic number for '' @ key @ '' ?''), tk_gold = tok value\<rparr>"

text \<open>Evenly spread depths \<^verbatim>\<open>(i + 0.5) / n\<close>.\<close>

definition spread :: "string list \<Rightarrow> (rat \<times> string) list" where
  "spread ss = map (\<lambda>i. ((rat_of_nat i + 1/2) / rat_of_nat (length ss), ss ! i)) [0..<length ss]"

definition niah_multikey :: "(string \<Rightarrow> int list) \<Rightarrow> string list \<Rightarrow> (string \<times> string) list \<Rightarrow> string \<Rightarrow> task result" where
  "niah_multikey tok filler pairs target = (case map_of pairs target of None \<Rightarrow> Inl (KeyError target)
     | Some v \<Rightarrow> Inr \<lparr>tk_name = ''niah_multikey'',
         tk_context = tok (join_with '' '' (splice filler (spread (map (\<lambda>(k, v). magic k v) pairs)))),
         tk_prompt = tok (''What is the magic number for '' @ target @ '' ?''), tk_gold = tok v\<rparr>)"

definition hop_names :: "(nat \<Rightarrow> string) \<Rightarrow> string \<Rightarrow> nat \<Rightarrow> string list" where
  "hop_names str value hops = (''X1 = '' @ value @ '' .'')
     # map (\<lambda>i. ''X'' @ str i @ '' = X'' @ str (i - 1) @ '' .'') [2..<hops + 1]"

definition multihop :: "(nat \<Rightarrow> string) \<Rightarrow> (string \<Rightarrow> int list) \<Rightarrow> string list \<Rightarrow> string \<Rightarrow> nat \<Rightarrow> task" where
  "multihop str tok filler value hops =
     \<lparr>tk_name = ''multihop'', tk_context = tok (join_with '' '' (splice filler (spread (hop_names str value hops)))),
      tk_prompt = tok (''What is the value of X'' @ str hops @ '' ?''), tk_gold = tok value\<rparr>"

definition synthetic_qa :: "(string \<Rightarrow> int list) \<Rightarrow> string list \<Rightarrow> (string \<times> string) list \<Rightarrow> string \<Rightarrow> task result" where
  "synthetic_qa tok filler facts who = (case map_of facts who of None \<Rightarrow> Inl (KeyError who)
     | Some c \<Rightarrow> Inr \<lparr>tk_name = ''synthetic_qa'',
         tk_context = tok (join_with '' '' (splice filler (spread (map (\<lambda>(p, c). p @ '' lives in '' @ c @ '' .'') facts)))),
         tk_prompt = tok (''Where does '' @ who @ '' live ?''), tk_gold = tok c\<rparr>)"

text \<open>\<^verbatim>\<open>make_tasks\<close> over the table of generators.\<close>

definition make_tasks :: "(string, nat \<Rightarrow> nat \<Rightarrow> 'a) dict \<Rightarrow> nat list \<Rightarrow> nat \<Rightarrow> string list option \<Rightarrow> 'a list result" where
  "make_tasks gens lengths n_per names = (let names' = (case names of Some ns \<Rightarrow> ns | None \<Rightarrow> map fst gens) in
     res_bind (res_map (\<lambda>name. case map_of gens name of None \<Rightarrow> Inl (KeyError name)
        | Some gen \<Rightarrow> Inr (concat (map (\<lambda>len. map (gen len) [0..<n_per]) lengths))) names') (\<lambda>tss. Inr (concat tss)))"

section \<open>Splitting\<close>

lemma no_ws_run: "list_all (\<lambda>c. \<not> ws_char c) w \<Longrightarrow> takeWhile (\<lambda>x. \<not> ws_char x) w = w \<and> dropWhile (\<lambda>x. \<not> ws_char x) w = []"
  by (induction w) auto

lemma split_ws_word: "w \<noteq> [] \<Longrightarrow> list_all (\<lambda>c. \<not> ws_char c) w \<Longrightarrow> split_ws w = [w]"
proof (cases w)
  case (Cons c cs)
  assume a: "list_all (\<lambda>c. \<not> ws_char c) w"
  then show ?thesis using Cons no_ws_run [of cs] by (simp del: dropWhile_eq_Nil_conv takeWhile_eq_all_conv)
qed simp

lemma split_ws_at: "ws_char c \<Longrightarrow> split_ws (xs @ c # ys) = split_ws xs @ split_ws ys"
proof (induction xs rule: split_ws.induct)
  case (2 x xs)
  show ?case
  proof (cases "ws_char x")
    case True then show ?thesis using 2 by simp
  next
    case False
    show ?thesis
    proof (cases "list_all (\<lambda>x. \<not> ws_char x) xs")
      case True
      then have "takeWhile (\<lambda>x. \<not> ws_char x) (xs @ c # ys) = xs" "dropWhile (\<lambda>x. \<not> ws_char x) (xs @ c # ys) = c # ys"
        using 2(3) by (auto simp: takeWhile_append dropWhile_append list_all_iff)
      then show ?thesis using False 2(3) no_ws_run [OF True] by (simp del: dropWhile_eq_Nil_conv takeWhile_eq_all_conv)
    next
      case f: False
      then obtain y where "y \<in> set xs" "ws_char y" by (auto simp: list_all_iff)
      then have "takeWhile (\<lambda>x. \<not> ws_char x) (xs @ c # ys) = takeWhile (\<lambda>x. \<not> ws_char x) xs"
        "dropWhile (\<lambda>x. \<not> ws_char x) (xs @ c # ys) = dropWhile (\<lambda>x. \<not> ws_char x) xs @ c # ys"
        by (auto simp: takeWhile_append1 dropWhile_append1)
      then show ?thesis using False 2 by simp
    qed
  qed
qed simp

lemma split_ws_spaces: "list_all ws_char xs \<Longrightarrow> split_ws (xs @ ys) = split_ws ys"
  by (induction xs) auto

lemma split_dropWhile: "split_ws (dropWhile ws_char xs) = split_ws xs"
  by (induction xs) auto

lemma split_trailing: "list_all ws_char ys \<Longrightarrow> split_ws (xs @ ys) = split_ws xs"
  using split_ws_at [where xs = xs] split_ws_spaces [of ys "[]"] by (cases ys) (auto simp: split_ws_spaces [of _ "[]", simplified])

lemma split_strip: "split_ws (strip_ws s) = split_ws s"
proof -
  define t where "t = dropWhile ws_char s"
  define u where "u = rev (takeWhile ws_char (rev t))"
  have "t = rev (dropWhile ws_char (rev t)) @ u" unfolding u_def by (metis rev_append rev_rev_ident takeWhile_dropWhile_id)
  moreover have "list_all ws_char u" by (auto simp: u_def list_all_iff dest: set_takeWhileD)
  ultimately have "split_ws t = split_ws (rev (dropWhile ws_char (rev t)))" using split_trailing by metis
  then show ?thesis by (simp add: strip_ws_def t_def split_dropWhile)
qed

lemma ws_space [simp]: "ws_char (CHR '' '')"
  by (simp add: ws_char_def code_in_def)

lemma split_collapse: "list_all (\<lambda>c. \<not> ws_char c) p \<Longrightarrow> split_ws (p @ collapse_ws s) = split_ws (p @ s)"
proof (induction s arbitrary: p rule: collapse_ws.induct)
  case (2 c cs)
  show ?case
  proof (cases "ws_char c")
    case True
    have "split_ws (collapse_ws (dropWhile ws_char cs)) = split_ws cs" using 2(1) [OF True, of "[]"] by (simp add: split_dropWhile)
    then show ?thesis using True by (simp add: split_ws_at)
  next
    case False
    then show ?thesis using 2(2) [OF False, of "p @ [c]"] 2(3) by simp
  qed
qed simp

lemma tokens_norm: "qa_tokens s = split_ws (sub_articles (clean s))"
  using split_collapse [of "[]"] by (simp add: qa_tokens_def qa_normalize_def split_strip)

text \<open>Text whose characters are all words, spaces or punctuation.\<close>

definition plain :: "string \<Rightarrow> bool" where
  "plain s \<longleftrightarrow> list_all (\<lambda>c. word_char c \<or> ws_char c \<or> punct_char c) s"

lemma word_not_ws: "word_char c \<Longrightarrow> \<not> ws_char c"
  by (auto simp: word_char_def ws_char_def code_in_def)

lemma split_articles:
  "list_all (\<lambda>c. word_char c \<or> ws_char c) s \<Longrightarrow> split_ws (sub_articles s) = filter (\<lambda>w. w \<notin> set articles) (split_ws s)"
proof (induction s rule: sub_articles.induct)
  case (2 c cs)
  show ?case
  proof (cases "word_char c")
    case False
    then have "ws_char c" using 2(3) by simp
    then show ?thesis using 2(2) [OF False] 2(3) False by simp
  next
    case True
    define w where "w = takeWhile word_char (c # cs)"
    define r where "r = dropWhile word_char (c # cs)"
    have s: "c # cs = w @ r" unfolding w_def r_def by (rule takeWhile_dropWhile_id [symmetric])
    have w: "w \<noteq> []" "list_all (\<lambda>c. \<not> ws_char c) w"
      using True by (auto simp: w_def list_all_iff word_not_ws dest: set_takeWhileD)
    have IH: "split_ws (sub_articles r) = filter (\<lambda>w. w \<notin> set articles) (split_ws r)"
      using 2(1) [OF True w_def, folded r_def] 2(3) s by (metis list_all_append)
    have e: "sub_articles (c # cs) = (if w \<in> set articles then '' '' else w) @ sub_articles r"
      using True by (simp add: w_def r_def)
    show ?thesis
    proof (cases r)
      case Nil
      have "split_ws w = [w]" by (rule split_ws_word [OF w])
      then show ?thesis unfolding e using Nil s by simp
    next
      case (Cons d r')
      have "\<not> word_char d" using Cons unfolding r_def by (metis dropWhile_eq_Cons_conv)
      moreover have "word_char d \<or> ws_char d" using 2(3) unfolding s Cons by simp
      ultimately have d: "ws_char d" "sub_articles r = d # sub_articles r'" using Cons by auto
      have "split_ws (c # cs) = w # split_ws r'"
        unfolding s Cons using split_ws_at [OF d(1), of w r'] split_ws_word [OF w] by simp
      moreover have "split_ws (w @ sub_articles r) = w # split_ws (sub_articles r')"
        unfolding d(2) using split_ws_at [OF d(1), of w] split_ws_word [OF w] by simp
      ultimately show ?thesis unfolding e using IH d Cons by simp
    qed
  qed
qed simp

lemma clean_plain: "plain s \<Longrightarrow> list_all (\<lambda>c. word_char c \<or> ws_char c) (clean s)"
proof -
  have "word_char (lower_char c) \<or> ws_char (lower_char c) \<or> punct_char (lower_char c)"
    if "word_char c \<or> ws_char c \<or> punct_char c" for c
  proof (cases "code_in 65 90 c")
    case True
    then have "of_char (lower_char c) = (of_char c + 32 :: nat)" by (simp add: lower_char_def code_in_def)
    then show ?thesis using True by (auto simp: word_char_def code_in_def)
  qed (use that in \<open>simp add: lower_char_def\<close>)
  then show "plain s \<Longrightarrow> ?thesis" by (auto simp: clean_def plain_def list_all_iff)
qed

text \<open>What an answer is scored on: the words of the lower-cased text without punctuation, minus the
  articles.\<close>

theorem qa_tokens_words:
  assumes "plain s"
  shows "qa_tokens s = filter (\<lambda>w. w \<notin> set articles) (split_ws (clean s))"
  unfolding tokens_norm by (rule split_articles [OF clean_plain [OF assms]])

lemma demo_words: "qa_tokens ''The Cat, a hat!'' = [''cat'', ''hat'']"
  by code_simp

lemma demo_plain: "plain ''The Cat, a hat!''"
  by code_simp

theorem qa_tokens_words_witness: "qa_tokens ''The Cat, a hat!'' = filter (\<lambda>w. w \<notin> set articles) (split_ws (clean ''The Cat, a hat!''))"
  by (rule qa_tokens_words [OF demo_plain])

section \<open>F1\<close>

lemma harmonic_formula:
  assumes "0 < k" "k \<le> n" "k \<le> m"
  shows "harmonic k n m = 2 * rat_of_nat k / (rat_of_nat n + rat_of_nat m)"
proof -
  define x y z where xyz: "x = rat_of_nat k" "y = rat_of_nat n" "z = rat_of_nat m"
  have "0 < x" "0 < y" "0 < z" using assms by (simp_all add: xyz)
  then have "x / y + x / z = x * (y + z) / (y * z)" "0 < y + z" by (simp_all add: field_simps)
  then have "2 * (x / y) * (x / z) / (x / y + x / z) = 2 * x / (y + z)"
    using \<open>0 < x\<close> \<open>0 < y\<close> \<open>0 < z\<close> by (simp add: divide_simps)
  then show ?thesis by (simp add: harmonic_def Let_def xyz)
qed

lemma overlap_le: "overlap a b \<le> length a" "overlap a b \<le> length b" "overlap a b = overlap b a"
proof -
  show "overlap a b \<le> length a" "overlap a b \<le> length b"
    unfolding overlap_def by (metis inter_subset_eq_union subset_mset.inf_le1 size_mset size_mset_mono)
      (metis subset_mset.inf_le2 size_mset size_mset_mono)
  show "overlap a b = overlap b a" by (simp add: overlap_def subset_mset.inf_commute)
qed

lemma overlap_full: "overlap a b = length a \<and> overlap a b = length b \<longleftrightarrow> mset a = mset b"
proof
  assume h: "overlap a b = length a \<and> overlap a b = length b"
  have "mset a \<inter># mset b = mset a" "mset a \<inter># mset b = mset b"
    using h mset_subset_size [of "mset a \<inter># mset b" "mset a"] mset_subset_size [of "mset a \<inter># mset b" "mset b"]
    by (auto simp: overlap_def subset_mset.less_le)
  then show "mset a = mset b" by simp
next
  assume "mset a = mset b" then show "overlap a b = length a \<and> overlap a b = length b"
    using mset_eq_length [of a b] by (simp add: overlap_def)
qed

lemma overlap_zero: "overlap a b = 0 \<longleftrightarrow> set a \<inter> set b = {}"
  by (simp add: overlap_def) (metis disjunct_not_in set_mset_mset disjoint_iff)

definition f1_of :: "'a list \<Rightarrow> 'a list \<Rightarrow> rat" where
  "f1_of p g = (if overlap p g = 0 then 0 else 2 * rat_of_nat (overlap p g) / (rat_of_nat (length p) + rat_of_nat (length g)))"

lemma f1_of_props:
  "0 \<le> f1_of p g" "f1_of p g \<le> 1" "f1_of p g = f1_of g p" "f1_of p g = 0 \<longleftrightarrow> set p \<inter> set g = {}"
  "p \<noteq> [] \<Longrightarrow> f1_of p g = 1 \<longleftrightarrow> mset p = mset g"
proof -
  note le = overlap_le [of p g]
  show "0 \<le> f1_of p g" by (simp add: f1_of_def)
  have b: "2 * rat_of_nat (overlap p g) \<le> rat_of_nat (length p) + rat_of_nat (length g)"
    using le by (metis add_mono mult_2 of_nat_le_iff)
  then show "f1_of p g \<le> 1" by (auto simp: f1_of_def divide_le_eq_1 le)
  show "f1_of p g = f1_of g p" by (simp add: f1_of_def overlap_le(3) [of p g] add.commute)
  show "f1_of p g = 0 \<longleftrightarrow> set p \<inter> set g = {}"
    using overlap_zero [of p g] le by (auto simp: f1_of_def)
  show "f1_of p g = 1 \<longleftrightarrow> mset p = mset g" if "p \<noteq> []"
  proof
    assume h: "f1_of p g = 1"
    then have "2 * rat_of_nat (overlap p g) = rat_of_nat (length p) + rat_of_nat (length g)"
      by (auto simp: f1_of_def divide_eq_1_iff split: if_splits)
    then have "2 * overlap p g = length p + length g" by (metis mult_2 of_nat_add of_nat_eq_iff)
    then show "mset p = mset g" using le overlap_full [of p g] by linarith
  next
    assume "mset p = mset g"
    then have "overlap p g = length p" "overlap p g = length g" using overlap_full [of p g] by auto
    then show "f1_of p g = 1" using that by (auto simp: f1_of_def)
  qed
qed

lemma f1_single_eq: "f1_single p g = (if qa_tokens p = [] \<and> qa_tokens g = [] then 1 else f1_of (qa_tokens p) (qa_tokens g))"
proof -
  have "harmonic (overlap a b) (length a) (length b) = f1_of a b" if "overlap a b \<noteq> 0" for a b :: "string list"
    using that harmonic_formula [of "overlap a b" "length a" "length b"] overlap_le [of a b] by (simp add: f1_of_def)
  moreover have "overlap [] g = 0" "overlap p [] = 0" for p g :: "string list" by (simp_all add: overlap_def)
  ultimately show ?thesis by (auto simp: f1_single_def Let_def f1_of_def)
qed

text \<open>The reported F1 is a score: between 0 and 1, symmetric in prediction and gold, 1 exactly when both
  have the same words with the same multiplicities in any order, and 0 exactly when they share no word
  and are not both empty; the best of several golds is attained by one of them.\<close>

theorem token_f1_score:
  "0 \<le> f1_single p g \<and> f1_single p g \<le> 1 \<and> f1_single p g = f1_single g p \<and>
   (f1_single p g = 1 \<longleftrightarrow> mset (qa_tokens p) = mset (qa_tokens g)) \<and>
   (f1_single p g = 0 \<longleftrightarrow> set (qa_tokens p) \<inter> set (qa_tokens g) = {} \<and> \<not> (qa_tokens p = [] \<and> qa_tokens g = [])) \<and>
   0 \<le> token_f1 p gs \<and> token_f1 p gs \<le> 1 \<and>
   (token_f1 p gs = 1 \<longleftrightarrow> (\<exists>x \<in> set gs. mset (qa_tokens p) = mset (qa_tokens x)))"
proof -
  have one: "f1_single p g = 1 \<longleftrightarrow> mset (qa_tokens p) = mset (qa_tokens g)" for p g
    using f1_of_props(5) [of "qa_tokens p" "qa_tokens g"] f1_of_props(5) [of "qa_tokens g" "qa_tokens p"]
      f1_of_props(3) [of "qa_tokens p" "qa_tokens g"]
    by (cases "qa_tokens p"; cases "qa_tokens g") (auto simp: f1_single_eq)
  have rng: "0 \<le> f1_single p g \<and> f1_single p g \<le> 1" for g by (simp add: f1_single_eq f1_of_props)
  have sym: "f1_single p g = f1_single g p" using f1_of_props(3) [of "qa_tokens p" "qa_tokens g"] by (auto simp: f1_single_eq)
  have zero: "f1_single p g = 0 \<longleftrightarrow> set (qa_tokens p) \<inter> set (qa_tokens g) = {} \<and> \<not> (qa_tokens p = [] \<and> qa_tokens g = [])"
    by (auto simp: f1_single_eq f1_of_props(4))
  have best: "0 \<le> token_f1 p gs \<and> token_f1 p gs \<le> 1 \<and> (token_f1 p gs = 1 \<longleftrightarrow> (\<exists>x \<in> set gs. mset (qa_tokens p) = mset (qa_tokens x)))"
  proof (cases "gs = []")
    case True then show ?thesis by (simp add: token_f1_def)
  next
    case False
    then have m: "token_f1 p gs = Max (set (map (f1_single p) gs))" "set (map (f1_single p) gs) \<noteq> {}" by (simp_all add: token_f1_def)
    then have i: "token_f1 p gs \<in> set (map (f1_single p) gs)" "\<forall>y \<in> set (map (f1_single p) gs). y \<le> token_f1 p gs"
      by (metis Max_in List.finite_set, metis Max_ge List.finite_set)
    then obtain x where x: "x \<in> set gs" "token_f1 p gs = f1_single p x" by auto
    have "token_f1 p gs = 1 \<longleftrightarrow> (\<exists>x \<in> set gs. f1_single p x = 1)"
      using x i(2) rng by (metis imageI list.set_map order.antisym)
    then show ?thesis using x(2) rng one by simp
  qed
  show ?thesis using one rng sym zero best by blast
qed

section \<open>Token-id metrics\<close>

lemma occurs_window: "(\<exists>i \<in> set [0..<length p + 1 - length g]. take (length g) (drop i p) = g) \<longleftrightarrow> sublist g p"
proof
  assume "\<exists>i \<in> set [0..<length p + 1 - length g]. take (length g) (drop i p) = g"
  then show "sublist g p" by (metis sublist_drop sublist_order.order.trans sublist_take)
next
  assume "sublist g p"
  then obtain a b where p: "p = a @ g @ b" by (auto simp: sublist_def)
  then have "length a \<in> set [0..<length p + 1 - length g]" "take (length g) (drop (length a) p) = g" by auto
  then show "\<exists>i \<in> set [0..<length p + 1 - length g]. take (length g) (drop i p) = g" by blast
qed

text \<open>The token-id metrics mean what they say: exact match is 1 exactly when the non-empty gold occurs as
  a contiguous run of the prediction, the F1 is the harmonic mean of multiset precision and recall and
  1 exactly when prediction and gold are permutations of each other, and an exact match never has F1 zero.\<close>

theorem token_match_spec:
  "fst (token_match pred gold) = (if gold \<noteq> [] \<and> sublist gold pred then 1 else 0) \<and>
   snd (token_match pred gold) = (if gold = [] then 0 else f1_of pred gold) \<and>
   (snd (token_match pred gold) = 1 \<longleftrightarrow> gold \<noteq> [] \<and> mset pred = mset gold) \<and>
   (fst (token_match pred gold) = 1 \<longrightarrow> 0 < snd (token_match pred gold))"
proof -
  have f: "snd (token_match pred gold) = (if gold = [] then 0 else f1_of pred gold)"
  proof -
    have "overlap pred gold = 0" if "pred = []" using that by (simp add: overlap_def)
    then have "harmonic (overlap pred gold) (max 1 (length pred)) (max 1 (length gold)) = 2 * rat_of_nat (overlap pred gold) / (rat_of_nat (length pred) + rat_of_nat (length gold))"
      if "overlap pred gold \<noteq> 0" "gold \<noteq> []"
      using that harmonic_formula [of "overlap pred gold" "length pred" "length gold"] overlap_le [of pred gold]
      by (cases pred; cases gold) (auto simp: max_def)
    then show ?thesis by (simp add: token_match_def Let_def f1_of_def)
  qed
  have e: "fst (token_match pred gold) = (if gold \<noteq> [] \<and> sublist gold pred then 1 else 0)"
    using occurs_window [of pred gold] by (auto simp: token_match_def Let_def)
  have one: "f1_of pred gold = 1 \<longleftrightarrow> mset pred = mset gold" if "gold \<noteq> []"
    using f1_of_props(5) [OF that, of pred] f1_of_props(3) [of pred gold] by auto
  have "0 < f1_of pred gold" if "gold \<noteq> []" "sublist gold pred"
  proof -
    have "set pred \<inter> set gold \<noteq> {}" using that set_mono_sublist [OF that(2)] by (cases gold) auto
    then have "f1_of pred gold \<noteq> 0" using f1_of_props(4) [of pred gold] by simp
    then show ?thesis using f1_of_props(1) [of pred gold] by simp
  qed
  then show ?thesis using f e one by auto
qed

theorem token_match_spec_witness: "fst (token_match [1, 2] [2]) = 1 \<and> 0 < snd (token_match [1, 2] [2])"
proof -
  have "sublist [2] [1, 2 :: int]" by (simp add: sublist_def) (metis append_Cons append_Nil)
  then have "fst (token_match [1, 2] [2 :: int]) = 1" using token_match_spec [of "[1, 2]" "[2]"] by simp
  then show ?thesis using token_match_spec [of "[1, 2]" "[2]"] by blast
qed

section \<open>Splicing\<close>

lemma splice_one_props: "subseq ws (splice_one ws ins)" "mset (splice_one ws ins) = mset ws + mset (split_ws (snd ins))"
proof -
  let ?p = "min (length ws) (nat (max 0 \<lfloor>fst ins * rat_of_nat (length ws)\<rfloor>))"
  have "subseq (take ?p ws @ drop ?p ws) (take ?p ws @ split_ws (snd ins) @ drop ?p ws)"
    by (intro list_emb_append_mono) (auto intro: list_emb_append2)
  then show "subseq ws (splice_one ws ins)" by (simp add: splice_one_def Let_def)
  have "mset (take ?p ws) + mset (drop ?p ws) = mset ws" by (metis append_take_drop_id mset_append)
  then show "mset (splice_one ws ins) = mset ws + mset (split_ws (snd ins))"
    by (simp add: splice_one_def Let_def)
qed

lemma splice_fold: "subseq ws (foldl splice_one ws ins) \<and>
    mset (foldl splice_one ws ins) = mset ws + sum_list (map (\<lambda>i. mset (split_ws (snd i))) ins)"
proof (induction ins arbitrary: ws)
  case (Cons i ins)
  have "subseq ws (foldl splice_one (splice_one ws i) ins)"
    using subseq_order.trans [OF splice_one_props(1) conjunct1 [OF Cons]] .
  then show ?case using Cons [of "splice_one ws i"] splice_one_props(2) [of ws i] by (simp add: add.assoc)
qed simp

lemma splice_single: "\<exists>a b. splice ws [(d, s)] = a @ split_ws s @ b \<and> a @ b = ws"
  by (simp add: splice_def splice_one_def Let_def) (metis append_take_drop_id)

lemma split_join:
  "\<forall>w \<in> set ws. w \<noteq> [] \<and> list_all (\<lambda>c. \<not> ws_char c) w \<Longrightarrow> split_ws (join_with '' '' ws) = ws"
proof (induction ws rule: induct_list012)
  case (2 w) then show ?case using split_ws_word [of w] by simp
next
  case (3 w v ws)
  then have "split_ws (w @ CHR '' '' # join_with '' '' (v # ws)) = split_ws w @ split_ws (join_with '' '' (v # ws))"
    by (intro split_ws_at) simp
  then show ?case using 3 split_ws_word [of w] by simp
qed simp

lemma split_ws_words: "w \<in> set (split_ws s) \<Longrightarrow> w \<noteq> [] \<and> list_all (\<lambda>c. \<not> ws_char c) w"
proof (induction s rule: split_ws.induct)
  case (2 c cs)
  show ?case
  proof (cases "ws_char c")
    case True then show ?thesis using 2 by simp
  next
    case False
    let ?w = "takeWhile (\<lambda>x. \<not> ws_char x) (c # cs)"
    have "?w \<noteq> []" "list_all (\<lambda>c. \<not> ws_char c) ?w" using False by (auto simp: list_all_iff dest: set_takeWhileD)
    moreover have "w = ?w \<or> w \<in> set (split_ws (dropWhile (\<lambda>x. \<not> ws_char x) (c # cs)))" using 2(3) False by simp
    ultimately show ?thesis using 2(2) [OF False] by metis
  qed
qed simp

text \<open>Splicing loses and invents nothing: the filler words stay in order, and together with the words of
  the planted sentences they are exactly the words of the context.\<close>

theorem splice_keeps:
  "subseq ws (splice ws ins) \<and> mset (splice ws ins) = mset ws + sum_list (map (\<lambda>i. mset (split_ws (snd i))) ins)"
proof -
  have "sum_list (map (\<lambda>i. mset (split_ws (snd i))) (sort_key (\<lambda>x. - fst x) ins)) = sum_list (map (\<lambda>i. mset (split_ws (snd i))) ins)"
    unfolding sum_mset_sum_list [symmetric] mset_map mset_sort ..
  then show ?thesis using splice_fold [of ws "sort_key (\<lambda>x. - fst x) ins"] by (simp add: splice_def)
qed

text \<open>A single needle can be found: with a word-by-word tokenizer the context of a needle task holds the
  needle's sentence as one contiguous run at any depth, the value right after the key's \<^verbatim>\<open>is\<close>, and
  the gold answer is that value.\<close>

theorem needle_planted:
  assumes "\<forall>s. tok s = map word_id (split_ws s)"
    and "\<forall>w \<in> set filler. w \<noteq> [] \<and> list_all (\<lambda>c. \<not> ws_char c) w"
    and "value \<noteq> []" "list_all (\<lambda>c. \<not> ws_char c) value"
  shows "sublist (tok (magic key value)) (tk_context (niah_single tok filler key value depth)) \<and>
    tk_gold (niah_single tok filler key value depth) = [word_id value] \<and>
    sublist (map word_id [''is'', value, ''.'']) (tk_context (niah_single tok filler key value depth))"
proof -
  obtain a b where s: "splice filler [(depth, magic key value)] = a @ split_ws (magic key value) @ b" "a @ b = filler"
    using splice_single by blast
  have "\<forall>w \<in> set (a @ split_ws (magic key value) @ b). w \<noteq> [] \<and> list_all (\<lambda>c. \<not> ws_char c) w"
    using assms(2) s(2) split_ws_words by auto
  then have "tk_context (niah_single tok filler key value depth) = map word_id (a @ split_ws (magic key value) @ b)"
    using split_join assms(1) s(1) by (simp add: niah_single_def)
  moreover have "tok (magic key value) = map word_id (split_ws (magic key value))" using assms(1) by simp
  ultimately have L: "sublist (tok (magic key value)) (tk_context (niah_single tok filler key value depth))"
    by (auto simp: sublist_def)
  have v: "split_ws value = [value]" by (rule split_ws_word [OF assms(3,4)])
  have "magic key value = (''The magic number for '' @ key) @ CHR '' '' # ''is'' @ CHR '' '' # value @ CHR '' '' # ''.''"
    by (simp add: magic_def)
  then have "split_ws (magic key value) = split_ws (''The magic number for '' @ key) @ split_ws ''is'' @ [value] @ split_ws ''.''"
    by (simp only: split_ws_at [OF ws_space] v)
  moreover have "split_ws ''is'' = [''is'']" "split_ws ''.'' = [''.'']" by (code_simp, code_simp)
  ultimately have "sublist (map word_id [''is'', value, ''.'']) (tok (magic key value))"
    unfolding assms(1) [rule_format] sublist_def
    by (intro exI [of _ "map word_id (split_ws (''The magic number for '' @ key))"] exI [of _ "[]"]) simp
  then have "sublist (map word_id [''is'', value, ''.'']) (tk_context (niah_single tok filler key value depth))"
    using L sublist_order.order.trans by blast
  then show ?thesis using L assms(1) v by (simp add: niah_single_def)
qed

theorem needle_planted_witness:
  "sublist [2, 2, 1] (tk_context (niah_single (\<lambda>s. map (int \<circ> length) (split_ws s)) [''calm'', ''sea''] ''k'' ''42'' (1/2)))"
proof -
  have w: "\<forall>w \<in> set [''calm'', ''sea'']. w \<noteq> [] \<and> list_all (\<lambda>c. \<not> ws_char c) w" "list_all (\<lambda>c. \<not> ws_char c) ''42''"
    by code_simp+
  have "map (int \<circ> length) [''is'', ''42'', ''.''] = [2, 2, 1]" by simp
  then show ?thesis
    using needle_planted [of "\<lambda>s. map (int \<circ> length) (split_ws s)" "int \<circ> length" "[''calm'', ''sea'']" "''42''" "''k''" "1/2"] w by simp
qed

text \<open>With several needles the positions are fractions of the list as it has grown, so in a short context a
  later insertion falls inside an earlier sentence and tears it apart.\<close>

lemma splice_tears_a_needle:
  "splice [''w'', ''w''] (spread [''a is one .'', ''b is two .'']) = [''w'', ''a'', ''is'', ''one'', ''.'', ''b'', ''is'', ''two'', ''.'', ''w''] \<and>
   splice [''w'', ''w'', ''w''] [(6/10, ''a is one .''), (5/10, ''b is two .'')] = [''w'', ''a'', ''is'', ''b'', ''is'', ''two'', ''.'', ''one'', ''.'', ''w'', ''w'']"
  by code_simp

end
