(* ===== verification/Agentic.thy ===== *)
theory Agentic imports Scoring WorkingMem begin

text \<open>
  The long-horizon agent benchmark, \<^verbatim>\<open>dexa/bench/agentic.py\<close>: a trajectory with planted facts and the
  probes for them, the memory strategies it is replayed under (everything raw, a recent window, a compacted
  working memory) and the recall and memory columns. What the random generator draws is an argument: keys,
  values, plant turns, filler and depths. The backend's prefill is that of the working memory; the summed
  log-probability of a target is a parameter \<open>lpf\<close>, and the registry of compactors a parameter \<open>build\<close>.
\<close>

section \<open>Trajectories\<close>

record probe =
  pr_prompt :: "int list"
  pr_gold :: "int list"
  pr_key :: string
  pr_value :: string
  pr_turn :: nat

record trajectory =
  tr_turns :: "int list list"
  tr_probes :: "probe list"

definition all_tokens :: "trajectory \<Rightarrow> int list" where
  "all_tokens tr = concat (tr_turns tr)"

text \<open>The sampled slots, topped up with repeats when there are fewer slots than facts.\<close>

definition plant_slots :: "nat \<Rightarrow> nat list \<Rightarrow> nat list \<Rightarrow> nat list" where
  "plant_slots n_facts sample extra = take n_facts (sort (sort sample @ take (n_facts - length sample) extra))"

definition fact_line :: "(nat \<Rightarrow> string) \<Rightarrow> nat \<Rightarrow> string \<Rightarrow> string \<Rightarrow> string" where
  "fact_line str i k v = ''FACT '' @ str i @ '': the code for '' @ k @ '' is '' @ v @ '' .''"

type_synonym planted = "(nat \<times> string \<times> string \<times> nat) list"

definition plant :: "string list \<Rightarrow> string list \<Rightarrow> nat list \<Rightarrow> planted" where
  "plant keys vals slots = enumerate 0 (zip keys (zip vals slots))"

definition turn_words :: "(nat \<Rightarrow> string) \<Rightarrow> (nat \<Rightarrow> rat) \<Rightarrow> planted \<Rightarrow> nat \<Rightarrow> string list \<Rightarrow> string list" where
  "turn_words str depth facts ti filler =
     (let ins = map (\<lambda>(i, k, v, pt). (depth i, fact_line str i k v)) (filter (\<lambda>(i, k, v, pt). pt = ti) facts) in
      if ins = [] then filler else splice filler ins)"

definition make_probe :: "(string \<Rightarrow> int list) \<Rightarrow> nat \<times> string \<times> string \<times> nat \<Rightarrow> probe" where
  "make_probe tok f = (case f of (i, k, v, pt) \<Rightarrow>
     \<lparr>pr_prompt = tok (''Question: what is the code for '' @ k @ '' ? Answer: the code for '' @ k @ '' is''),
      pr_gold = tok ('' '' @ v), pr_key = k, pr_value = v, pr_turn = pt\<rparr>)"

definition make_trajectory :: "(nat \<Rightarrow> string) \<Rightarrow> (string \<Rightarrow> int list) \<Rightarrow> string list list \<Rightarrow> (nat \<Rightarrow> rat) \<Rightarrow> string list \<Rightarrow> string list
    \<Rightarrow> nat list \<Rightarrow> nat list \<Rightarrow> trajectory" where
  "make_trajectory str tok fillers depth keys vals sample extra =
     (let facts = plant keys vals (plant_slots (length keys) sample extra) in
      \<lparr>tr_turns = map (\<lambda>ti. tok (join_with '' '' (turn_words str depth facts ti (fillers ! ti)))) [0..<length fillers],
       tr_probes = map (make_probe tok) facts\<rparr>)"

section \<open>Strategies\<close>

datatype run_ctx = CacheCtx "vec context_cache" | MemCtx wm

record strategy_run =
  sr_ctx :: run_ctx
  sr_peak :: nat
  sr_compactions :: nat

definition kv_float_bytes :: "model_spec \<Rightarrow> rat" where
  "kv_float_bytes sp = 2 * rat_of_nat (n_layers sp) * rat_of_nat (n_kv_heads sp) * rat_of_nat (head_dim sp) * 4"

definition run_full_kv :: "prefill \<Rightarrow> trajectory \<Rightarrow> strategy_run" where
  "run_full_kv pre tr = \<lparr>sr_ctx = CacheCtx (Raw (pre (all_tokens tr) 0)), sr_peak = length (all_tokens tr), sr_compactions = 0\<rparr>"

text \<open>\<^verbatim>\<open>xs[-b:] if b < len(xs) else xs\<close>, with Python's reading of a non-negative start.\<close>

definition keep_last :: "int \<Rightarrow> 'a list \<Rightarrow> 'a list" where
  "keep_last b xs = (if b < int (length xs) then (if 0 < b then drop (length xs - nat b) xs else drop (nat (- b)) xs) else xs)"

definition run_truncate_recent :: "prefill \<Rightarrow> int \<Rightarrow> trajectory \<Rightarrow> strategy_run" where
  "run_truncate_recent pre bud tr = (let kept = keep_last bud (all_tokens tr) in
     \<lparr>sr_ctx = CacheCtx (Raw (pre kept 0)), sr_peak = length kept, sr_compactions = 0\<rparr>)"

type_synonym registry = "string \<Rightarrow> (compact_fun \<times> (int list \<Rightarrow> vec ref_queries) option) result"

definition run_dexa :: "model_spec \<Rightarrow> registry \<Rightarrow> prefill \<Rightarrow> string \<Rightarrow> int \<Rightarrow> int \<Rightarrow> trajectory \<Rightarrow> strategy_run result" where
  "run_dexa sp build pre name bud keep tr = res_bind (build name) (\<lambda>(cmp, refq). res_bind (new_wm sp bud keep) (\<lambda>w0.
     case wm_run pre cmp refq (tr_turns tr) w0 of (Inl e, w) \<Rightarrow> Inl e
     | (Inr u, w) \<Rightarrow> res_bind (wm_stats w) (\<lambda>st.
         Inr \<lparr>sr_ctx = MemCtx w, sr_peak = ws_peak st, sr_compactions = ws_compactions st\<rparr>)))"

definition run_strategy :: "model_spec \<Rightarrow> registry \<Rightarrow> prefill \<Rightarrow> int \<Rightarrow> int \<Rightarrow> trajectory \<Rightarrow> string \<Rightarrow> strategy_run result" where
  "run_strategy sp build pre bud keep tr strat =
     (if strat = ''full_kv'' then Inr (run_full_kv pre tr)
      else if strat = ''truncate_recent'' then Inr (run_truncate_recent pre bud tr)
      else if take 5 strat = ''dexa:'' then run_dexa sp build pre (drop 5 strat) bud keep tr
      else Inl (ValueError (''unknown strategy '' @ strat)))"

section \<open>The evaluation\<close>

type_synonym lp_fun = "vec context_cache \<Rightarrow> int list \<Rightarrow> int list \<Rightarrow> rat"

definition score_probe :: "lp_fun \<Rightarrow> strategy_run \<Rightarrow> probe \<Rightarrow> rat result" where
  "score_probe lpf run p = (case sr_ctx run of CacheCtx c \<Rightarrow> Inr (lpf c (pr_prompt p) (pr_gold p))
     | MemCtx w \<Rightarrow> wm_query lpf (\<lambda>c ts. 0) (pr_prompt p) (Some (pr_gold p)) w)"

definition score_dict :: "lp_fun \<Rightarrow> vec context_cache \<Rightarrow> probe list \<Rightarrow> (string, rat) dict" where
  "score_dict lpf c ps = foldl (\<lambda>d p. AList.update (pr_key p) (lpf c (pr_prompt p) (pr_gold p)) d) [] ps"

definition dict_at :: "(string, rat) dict \<Rightarrow> string \<Rightarrow> rat result" where
  "dict_at d k = (case map_of d k of None \<Rightarrow> Inl (KeyError k) | Some x \<Rightarrow> Inr x)"

definition recall_of :: "rat \<Rightarrow> rat \<Rightarrow> rat \<Rightarrow> rat" where
  "recall_of ceil flr lp = (let rng = ceil - flr in (lp - flr) / (if rng = 0 then 1 / 10 ^ 6 else rng))"

record agent_row =
  ag_seed :: nat
  ag_strategy :: string
  ag_key :: string
  ag_turns_ago :: int
  ag_lp :: rat
  ag_recall :: rat
  ag_peak :: nat
  ag_peak_bytes :: rat
  ag_compactions :: nat
  ag_total :: nat

definition strategy_rows :: "model_spec \<Rightarrow> registry \<Rightarrow> prefill \<Rightarrow> lp_fun \<Rightarrow> cost_model \<Rightarrow> nat \<Rightarrow> int \<Rightarrow> int \<Rightarrow> nat \<Rightarrow> trajectory
    \<Rightarrow> string \<Rightarrow> agent_row list result" where
  "strategy_rows sp build pre lpf cost n_turns bud keep seed tr strat =
     (let full = Raw (pre (all_tokens tr) 0); flr = Raw (pre (take 1 (all_tokens tr)) 0);
          ceils = score_dict lpf full (tr_probes tr); floors = score_dict lpf flr (tr_probes tr) in
      res_bind (run_strategy sp build pre bud keep tr strat) (\<lambda>run.
      res_map (\<lambda>p. res_bind (score_probe lpf run p) (\<lambda>lp. res_bind (dict_at ceils (pr_key p)) (\<lambda>c. res_bind (dict_at floors (pr_key p)) (\<lambda>f.
        Inr \<lparr>ag_seed = seed, ag_strategy = strat, ag_key = pr_key p, ag_turns_ago = int n_turns - int (pr_turn p), ag_lp = lp,
             ag_recall = recall_of c f lp, ag_peak = sr_peak run, ag_peak_bytes = kv_bytes cost (sr_peak run),
             ag_compactions = sr_compactions run, ag_total = length (all_tokens tr)\<rparr>)))) (tr_probes tr)))"

definition agentic_rows :: "model_spec \<Rightarrow> registry \<Rightarrow> prefill \<Rightarrow> lp_fun \<Rightarrow> cost_model \<Rightarrow> nat \<Rightarrow> int \<Rightarrow> int \<Rightarrow> string list
    \<Rightarrow> trajectory list \<Rightarrow> agent_row list result" where
  "agentic_rows sp build pre lpf cost n_turns bud keep strategies trs =
     res_bind (res_map (\<lambda>(seed, tr). res_bind (res_map (strategy_rows sp build pre lpf cost n_turns bud keep seed tr) strategies)
        (\<lambda>rss. Inr (concat rss))) (enumerate 0 trs)) (\<lambda>rsss. Inr (concat rsss))"

record agent_summary =
  as_strategy :: string
  as_recall :: rat
  as_peak :: nat
  as_peak_mb :: rat
  as_compactions :: nat

definition summarize :: "agent_row list \<Rightarrow> agent_summary list" where
  "summarize rows = map (\<lambda>s. let rs = filter (\<lambda>r. ag_strategy r = s) rows in
     \<lparr>as_strategy = s, as_recall = sum_list (map ag_recall rs) / rat_of_nat (length rs), as_peak = Max (set (map ag_peak rs)),
      as_peak_mb = Max (set (map ag_peak_bytes rs)) / 10 ^ 6, as_compactions = Max (set (map ag_compactions rs))\<rparr>)
     (rev (remdups (rev (map ag_strategy rows))))"

text \<open>The defaults of the parameters: half the budget kept raw, and the model's own bytes per token.\<close>

definition run_agentic :: "model_spec \<Rightarrow> registry \<Rightarrow> prefill \<Rightarrow> lp_fun \<Rightarrow> cost_model option \<Rightarrow> nat \<Rightarrow> int \<Rightarrow> int option \<Rightarrow> string list
    \<Rightarrow> trajectory list \<Rightarrow> (agent_row list \<times> agent_summary list) result" where
  "run_agentic sp build pre lpf cost n_turns bud keep strategies trs =
     (let keep' = (case keep of Some k \<Rightarrow> k | None \<Rightarrow> max 1 (bud div 2));
          cost' = (case cost of Some c \<Rightarrow> c | None \<Rightarrow> default_cost_model\<lparr>cm_name := ms_name sp, kv_bytes_per_token := kv_float_bytes sp\<rparr>) in
      res_bind (agentic_rows sp build pre lpf cost' n_turns bud keep' strategies trs) (\<lambda>rows. Inr (rows, summarize rows)))"

section \<open>The peak of a working memory\<close>

definition longest :: "'a list list \<Rightarrow> nat" where
  "longest cs = foldr max (map length cs) 0"

lemma longest_simps [simp]: "longest [] = 0" "longest (c # cs) = max (length c) (longest cs)"
  by (simp_all add: longest_def)

lemma maybe_compact_peak:
  "maybe_compact pre cmp refq w = (r, w') \<Longrightarrow> wm_peak w' = wm_peak w"
proof (induction pre cmp refq w arbitrary: r w' rule: maybe_compact.induct)
  case (1 pre cmp refq w)
  have step: "wm_peak w1 = wm_peak w" if "compact_step pre cmp refq w = (r1, w1)" for r1 w1
    using that by (auto simp: compact_step_def refresh_recent_def Let_def split: sum.splits)
  show ?case
    using 1(2) step 1(1) by (subst (asm) maybe_compact.simps) (force split: sum.splits prod.splits if_splits)
qed

context bounded_compactor
begin

lemma append_peak:
  assumes "wm_inv sp pre w" "prefill_ok sp pre" "spec_ok sp" "wm_append pre cmp refq toks w = (Inr (), w')"
    and n: "current_tokens w = Inr n" "n \<le> wm_budget w"
  shows "wm_peak w' \<le> max (wm_peak w) (wm_budget w + length toks)"
proof (cases "toks = []")
  case True then show ?thesis using assms(4) by (simp add: wm_append_def)
next
  case False
  define w1 where "w1 = refresh_recent pre (w\<lparr>wm_all := wm_all w @ toks, wm_total := length (wm_all w @ toks)\<rparr>)"
  have i1: "wm_inv sp pre w1" using assms(1)
    by (cases "wm_compact w") (auto simp: w1_def wm_inv_def refresh_recent_def Let_def)
  obtain n1 where n1: "current_tokens w1 = Inr n1" using current_spec [OF i1 assms(3,2)] by blast
  have "n_recent w1 = n_recent w + length toks"
    using recent_len [OF i1 assms(2)] recent_len [OF assms(1,2)] assms(1) by (auto simp: w1_def wm_inv_def)
  moreover have "compact_phys w1 = compact_phys w" by (simp add: compact_phys_def w1_def)
  ultimately have "n1 = n + length toks" using n(1) n1 by (auto simp: current_tokens_def)
  then have n1_le: "n1 \<le> wm_budget w + length toks" using n(2) by simp
  define w2 where "w2 = w1\<lparr>wm_peak := max (wm_peak w1) n1\<rparr>"
  have b1: "bump_peak w1 = (Inr (), w2)" by (simp add: bump_peak_def n1 w2_def)
  have i2: "wm_inv sp pre w2" using i1 by (cases "wm_compact w1"; simp add: w2_def wm_inv_def)
  have p2: "wm_peak w2 = max (wm_peak w) n1" "wm_budget w2 = wm_budget w" by (simp_all add: w2_def w1_def refresh_recent_def Let_def)
  obtain r3 w3 where m: "maybe_compact pre cmp refq w2 = (r3, w3)" by (cases "maybe_compact pre cmp refq w2")
  have u: "wm_append pre cmp refq toks w = (case (r3, w3) of (Inl e, w3) \<Rightarrow> (Inl e, w3) | (Inr u, w3) \<Rightarrow> bump_peak w3)"
    using False unfolding wm_append_def Let_def w1_def [symmetric] b1 prod.case sum.case m by (simp only: if_False)
  then have r3: "r3 = Inr ()" "bump_peak w3 = (Inr (), w')" using assms(4) by (auto split: sum.splits)
  obtain n3 where n3: "current_tokens w3 = Inr n3" "n3 \<le> wm_budget w"
    using maybe_compact_inv [OF i2 assms(2,3) m] r3(1) p2(2) by auto
  have "w' = w3\<lparr>wm_peak := max (wm_peak w3) n3\<rparr>" using r3(2) n3(1) by (simp add: bump_peak_def)
  then show ?thesis using maybe_compact_peak [OF m] p2 n1_le n3(2) by (auto simp: le_max_iff_disj)
qed

lemma run_peak:
  assumes "prefill_ok sp pre" "spec_ok sp"
  shows "wm_inv sp pre w \<Longrightarrow> current_tokens w = Inr n \<Longrightarrow> n \<le> wm_budget w \<Longrightarrow> wm_run pre cmp refq cs w = (Inr (), w') \<Longrightarrow>
    wm_peak w' \<le> max (wm_peak w) (wm_budget w + longest cs)"
proof (induction cs arbitrary: w n)
  case (Cons c cs)
  obtain r1 w1 where a: "wm_append pre cmp refq c w = (r1, w1)" by (cases "wm_append pre cmp refq c w")
  have r1: "r1 = Inr ()" "wm_run pre cmp refq cs w1 = (Inr (), w')" using Cons.prems(4) a by (auto split: sum.splits)
  have i: "wm_inv sp pre w1 \<and> wm_budget w1 = wm_budget w \<and> (\<exists>n. current_tokens w1 = Inr n \<and> n \<le> wm_budget w1)"
    using append_inv [OF Cons.prems(1) assms a] Cons.prems(2,3) r1(1) by auto
  then obtain n1 where n1: "current_tokens w1 = Inr n1" "n1 \<le> wm_budget w1" by blast
  have "wm_peak w1 \<le> max (wm_peak w) (wm_budget w + length c)"
    by (rule append_peak [OF Cons.prems(1) assms _ Cons.prems(2,3)]) (use a r1(1) in simp)
  moreover have "wm_peak w' \<le> max (wm_peak w1) (wm_budget w1 + longest cs)"
    using Cons.IH [OF _ n1 r1(2)] i by blast
  ultimately show ?case using i by auto
qed simp

end

lemma new_wm_peak: "new_wm sp b k = Inr w \<Longrightarrow> wm_peak w = 0"
  by (auto simp: new_wm_def split: if_splits)

section \<open>What the columns say\<close>

lemma res_map_mem: "res_map f xs = Inr ys \<Longrightarrow> y \<in> set ys \<Longrightarrow> \<exists>x \<in> set xs. f x = Inr y"
  by (induction xs arbitrary: ys) auto

lemma score_dict_at:
  assumes "distinct (map pr_key ps)" "p \<in> set ps"
  shows "dict_at (score_dict lpf c ps) (pr_key p) = Inr (lpf c (pr_prompt p) (pr_gold p))"
proof -
  have "map_of (foldl (\<lambda>d p. AList.update (pr_key p) (lpf c (pr_prompt p) (pr_gold p)) d) d ps) (pr_key p) =
      Some (lpf c (pr_prompt p) (pr_gold p))" for d
    using assms
  proof (induction ps arbitrary: d)
    case (Cons q ps)
    show ?case
    proof (cases "p \<in> set ps")
      case True then show ?thesis using Cons by simp
    next
      case False
      then have "p = q" using Cons.prems(2) by simp
      moreover have "map_of (foldl (\<lambda>d p. AList.update (pr_key p) (lpf c (pr_prompt p) (pr_gold p)) d) d ps) k = map_of d k"
        if "k \<notin> pr_key ` set ps" for d k
        using that by (induction ps arbitrary: d) simp_all
      ultimately show ?thesis using Cons.prems(1) by simp
    qed
  qed simp
  then show ?thesis by (simp add: dict_at_def score_dict_def)
qed

lemma keep_last_length: "0 < b \<Longrightarrow> length (keep_last b xs) = min (nat b) (length xs)"
  by (auto simp: keep_last_def)

lemma dexa_peak:
  assumes "\<forall>cmp refq. build name = Inr (cmp, refq) \<longrightarrow> bounded_compactor cmp" "prefill_ok sp pre" "spec_ok sp"
    and "run_dexa sp build pre name bud keep tr = Inr run"
  shows "sr_peak run \<le> nat bud + longest (tr_turns tr)"
proof -
  obtain cmp refq w0 w st where b: "build name = Inr (cmp, refq)" "new_wm sp bud keep = Inr w0"
    "wm_run pre cmp refq (tr_turns tr) w0 = (Inr (), w)" "wm_stats w = Inr st" "sr_peak run = ws_peak st"
  proof -
    obtain x where x: "build name = Inr x" using assms(4) by (auto simp: run_dexa_def)
    obtain w0 where w0: "new_wm sp bud keep = Inr w0" using assms(4) x by (cases x) (auto simp: run_dexa_def)
    obtain u w where w: "wm_run pre (fst x) (snd x) (tr_turns tr) w0 = (u, w)" by (cases "wm_run pre (fst x) (snd x) (tr_turns tr) w0")
    have "u = Inr ()" using assms(4) x w0 w by (cases x; cases u) (auto simp: run_dexa_def)
    moreover obtain st where "wm_stats w = Inr st" "sr_peak run = ws_peak st"
      using assms(4) x w0 w calculation by (cases x) (auto simp: run_dexa_def)
    ultimately show ?thesis using that [of "fst x" "snd x"] x w0 w by simp
  qed
  note z = new_wm_inv [OF b(2), of pre]
  have "wm_peak w \<le> max (wm_peak w0) (wm_budget w0 + longest (tr_turns tr))"
    using bounded_compactor.run_peak [OF _ assms(2,3) _ _ _ b(3), of 0] assms(1) b(1) z by auto
  moreover have "ws_peak st = wm_peak w" using b(4) by (auto simp: wm_stats_def)
  ultimately show ?thesis using b(5) z new_wm_peak [OF b(2)] by (auto simp: nat_int [symmetric])
qed

text \<open>The rows of the benchmark mean what its documentation says. On one trajectory with distinct keys,
  the full-cache strategy scores recall exactly 1 wherever the facts are worth anything (0 where ceiling
  and floor agree) and its peak is every token; the recent window's peak is the positive budget, or everything
  when that is less; and a compacted memory whose compactors honour their budget never peaks above the budget
  plus the longest single turn, however long the trajectory.\<close>

theorem agentic_rows_sound:
  assumes "strategy_rows sp build pre lpf cost n_turns bud keep seed tr strat = Inr rows" "r \<in> set rows"
    and "distinct (map pr_key (tr_probes tr))" "prefill_ok sp pre" "spec_ok sp"
    and "\<forall>name cmp refq. build name = Inr (cmp, refq) \<longrightarrow> bounded_compactor cmp"
  shows "ag_total r = length (all_tokens tr) \<and>
    (strat = ''full_kv'' \<longrightarrow> ag_peak r = length (all_tokens tr) \<and> ag_recall r \<in> {0, 1} \<and>
       (\<exists>p \<in> set (tr_probes tr). pr_key p = ag_key r \<and> (ag_recall r = 0 \<longleftrightarrow>
          lpf (Raw (pre (all_tokens tr) 0)) (pr_prompt p) (pr_gold p) = lpf (Raw (pre (take 1 (all_tokens tr)) 0)) (pr_prompt p) (pr_gold p)))) \<and>
    (strat = ''truncate_recent'' \<longrightarrow> 0 < bud \<longrightarrow> ag_peak r = min (nat bud) (length (all_tokens tr))) \<and>
    (strat \<notin> {''full_kv'', ''truncate_recent''} \<longrightarrow> ag_peak r \<le> nat bud + longest (tr_turns tr))"
proof -
  obtain run p lp c f where run: "run_strategy sp build pre bud keep tr strat = Inr run" and p: "p \<in> set (tr_probes tr)"
    and lp: "score_probe lpf run p = Inr lp"
    and c: "dict_at (score_dict lpf (Raw (pre (all_tokens tr) 0)) (tr_probes tr)) (pr_key p) = Inr c"
    and f: "dict_at (score_dict lpf (Raw (pre (take 1 (all_tokens tr)) 0)) (tr_probes tr)) (pr_key p) = Inr f"
    and r: "ag_total r = length (all_tokens tr)" "ag_peak r = sr_peak run" "ag_key r = pr_key p" "ag_recall r = recall_of c f lp"
  proof -
    note full = assms(1) [unfolded strategy_rows_def Let_def res_bind_Inr_iff]
    then obtain run where run: "run_strategy sp build pre bud keep tr strat = Inr run" by blast
    note res = full [unfolded run sum.inject ex_simps simp_thms]
    from full run obtain p where p: "p \<in> set (tr_probes tr)" and row: "res_bind (score_probe lpf run p) (\<lambda>lp.
        res_bind (dict_at (score_dict lpf (Raw (pre (all_tokens tr) 0)) (tr_probes tr)) (pr_key p)) (\<lambda>c.
        res_bind (dict_at (score_dict lpf (Raw (pre (take 1 (all_tokens tr)) 0)) (tr_probes tr)) (pr_key p)) (\<lambda>f.
        Inr \<lparr>ag_seed = seed, ag_strategy = strat, ag_key = pr_key p, ag_turns_ago = int n_turns - int (pr_turn p), ag_lp = lp,
             ag_recall = recall_of c f lp, ag_peak = sr_peak run, ag_peak_bytes = kv_bytes cost (sr_peak run),
             ag_compactions = sr_compactions run, ag_total = length (all_tokens tr)\<rparr>))) = Inr r"
      using res_map_mem [OF _ assms(2)] by fastforce
    from row obtain lp c f where "score_probe lpf run p = Inr lp"
      "dict_at (score_dict lpf (Raw (pre (all_tokens tr) 0)) (tr_probes tr)) (pr_key p) = Inr c"
      "dict_at (score_dict lpf (Raw (pre (take 1 (all_tokens tr)) 0)) (tr_probes tr)) (pr_key p) = Inr f"
      "r = \<lparr>ag_seed = seed, ag_strategy = strat, ag_key = pr_key p, ag_turns_ago = int n_turns - int (pr_turn p), ag_lp = lp,
             ag_recall = recall_of c f lp, ag_peak = sr_peak run, ag_peak_bytes = kv_bytes cost (sr_peak run),
             ag_compactions = sr_compactions run, ag_total = length (all_tokens tr)\<rparr>"
      unfolding res_bind_Inr_iff by blast
    from that [OF run p this(1-3)] this(4) show ?thesis by simp
  qed
  have cf: "c = lpf (Raw (pre (all_tokens tr) 0)) (pr_prompt p) (pr_gold p)"
    "f = lpf (Raw (pre (take 1 (all_tokens tr)) 0)) (pr_prompt p) (pr_gold p)"
    using c f score_dict_at [OF assms(3) p] by simp_all
  have full: "ag_peak r = length (all_tokens tr) \<and> ag_recall r = (if c = f then 0 else 1)" if "strat = ''full_kv''"
  proof -
    have "run = run_full_kv pre tr" using run that by (simp add: run_strategy_def)
    then show ?thesis using lp r cf by (auto simp: run_full_kv_def score_probe_def recall_of_def Let_def)
  qed
  have trunc: "ag_peak r = min (nat bud) (length (all_tokens tr))" if "strat = ''truncate_recent''" "0 < bud"
    using run that r(2) keep_last_length [OF that(2)] by (auto simp: run_strategy_def run_truncate_recent_def Let_def)
  have mem: "ag_peak r \<le> nat bud + longest (tr_turns tr)" if "strat \<notin> {''full_kv'', ''truncate_recent''}"
  proof -
    have "run_dexa sp build pre (drop 5 strat) bud keep tr = Inr run"
      using run that unfolding run_strategy_def by (auto split: if_splits)
    from dexa_peak [OF _ assms(4,5) this] assms(6) r(2) show ?thesis by auto
  qed
  show ?thesis using r full trunc mem p cf by auto
qed

definition demo_trajectory :: trajectory where
  "demo_trajectory = \<lparr>tr_turns = [[3, 4], [5]], tr_probes = [\<lparr>pr_prompt = [1], pr_gold = [2], pr_key = ''echo'', pr_value = ''raven'', pr_turn = 0\<rparr>]\<rparr>"

definition length_lp :: lp_fun where
  "length_lp c p g = (case c of Raw kv \<Rightarrow> rat_of_nat (seq_len kv) | Compact cc \<Rightarrow> 0)"

definition window_registry :: registry where
  "window_registry name = Inr (\<lambda>c b rq. recent_window c b, None)"

lemma demo_full_row:
  "strategy_rows tiny_spec window_registry (fake_prefill tiny_spec real_vec) length_lp default_cost_model 2 2 1 0 demo_trajectory ''full_kv'' =
    Inr [\<lparr>ag_seed = 0, ag_strategy = ''full_kv'', ag_key = ''echo'', ag_turns_ago = 2, ag_lp = 3, ag_recall = 1, ag_peak = 3,
      ag_peak_bytes = 960000, ag_compactions = 0, ag_total = 3\<rparr>]"
  by (simp add: strategy_rows_def run_strategy_def run_full_kv_def demo_trajectory_def length_lp_def score_probe_def score_dict_def
      dict_at_def recall_of_def all_tokens_def kv_bytes_def default_cost_model_def fake_prefill_def seq_len_def arange_def Let_def)

theorem agentic_rows_sound_witness:
  "\<exists>r. strategy_rows tiny_spec window_registry (fake_prefill tiny_spec real_vec) length_lp default_cost_model 2 2 1 0 demo_trajectory ''full_kv'' = Inr [r]
     \<and> ag_peak r = length (all_tokens demo_trajectory) \<and> ag_recall r \<in> {0, 1}"
proof -
  have "spec_ok tiny_spec" "distinct (map pr_key (tr_probes demo_trajectory))" by (simp_all add: spec_ok_def demo_trajectory_def)
  moreover have "\<forall>name cmp refq. window_registry name = Inr (cmp, refq) \<longrightarrow> bounded_compactor cmp"
    using window.bounded_compactor_axioms by (auto simp: window_registry_def)
  ultimately show ?thesis
    using agentic_rows_sound [OF demo_full_row list.set_intros(1) _ fake_prefill_ok] demo_full_row by auto
qed

text \<open>A budget of zero keeps the whole trajectory: \<^verbatim>\<open>xs[-0:]\<close> is \<^verbatim>\<open>xs\<close>.\<close>

lemma truncate_to_zero: "run_truncate_recent pre 0 tr = run_full_kv pre tr"
  by (simp add: run_truncate_recent_def run_full_kv_def keep_last_def Let_def)

section \<open>Where the facts are\<close>

lemma filter_single:
  "distinct (map f xs) \<Longrightarrow> i < length xs \<Longrightarrow> filter (\<lambda>x. f x = f (xs ! i)) xs = [xs ! i]"
proof (induction xs arbitrary: i)
  case (Cons x xs)
  show ?case
  proof (cases i)
    case 0
    then have "filter (\<lambda>y. f y = f x) xs = []" using Cons.prems(1) by (auto simp: filter_empty_conv image_iff)
    then show ?thesis using 0 by simp
  next
    case (Suc j)
    then have "f x \<noteq> f (xs ! j)" using Cons.prems by (auto simp: image_iff dest: nth_mem)
    then show ?thesis using Suc Cons by simp
  qed
qed simp

lemma plant_nth:
  assumes "i < length keys" "length vals = length keys" "length slots = length keys"
  shows "plant keys vals slots ! i = (i, keys ! i, vals ! i, slots ! i)" "length (plant keys vals slots) = length keys"
  using assms by (simp_all add: plant_def nth_enumerate_eq)

lemma plant_slots_props:
  assumes "length sample \<le> n" "n \<le> length sample + length extra" "set sample \<union> set extra \<subseteq> {..<h}"
  shows "length (plant_slots n sample extra) = n" "set (plant_slots n sample extra) \<subseteq> {..<h}" "sorted (plant_slots n sample extra)"
proof -
  show "length (plant_slots n sample extra) = n" using assms(1,2) by (simp add: plant_slots_def)
  have "set (sort (sort sample @ take (n - length sample) extra)) \<subseteq> {..<h}"
    using assms(3) set_take_subset [of "n - length sample" extra] by auto
  then show "set (plant_slots n sample extra) \<subseteq> {..<h}"
    unfolding plant_slots_def using set_take_subset by fast
  show "sorted (plant_slots n sample extra)" by (simp add: plant_slots_def sorted_wrt_take)
qed

text \<open>Every probe asks for a planted fact of the first half. With the draws the generator makes there is one
  probe per fact, each about a turn before the half-way mark, and when no two facts share a turn the
  sentence that answers it stands in that turn's tokens as one contiguous run.\<close>

theorem facts_planted:
  assumes tok: "\<forall>s. tok s = map word_id (split_ws s)"
    and words: "\<forall>ws \<in> set fillers. \<forall>w \<in> set ws. w \<noteq> [] \<and> list_all (\<lambda>c. \<not> ws_char c) w"
    and draws: "length vals = length keys" "length sample \<le> length keys" "length keys \<le> length sample + length extra"
      "set sample \<union> set extra \<subseteq> {..<max 1 (length fillers div 2)}" "fillers \<noteq> []"
  shows "length (tr_probes (make_trajectory str tok fillers depth keys vals sample extra)) = length keys \<and>
    (\<forall>i < length keys. let p = tr_probes (make_trajectory str tok fillers depth keys vals sample extra) ! i in
       pr_key p = keys ! i \<and> pr_value p = vals ! i \<and> pr_turn p < max 1 (length fillers div 2) \<and> pr_turn p < length fillers \<and>
       (distinct (plant_slots (length keys) sample extra) \<longrightarrow> sublist (tok (fact_line str i (keys ! i) (vals ! i)))
          (tr_turns (make_trajectory str tok fillers depth keys vals sample extra) ! pr_turn p)))"
proof -
  let ?T = "make_trajectory str tok fillers depth keys vals sample extra"
  define slots where "slots = plant_slots (length keys) sample extra"
  note S = plant_slots_props [OF draws(2,3,4), folded slots_def]
  have len: "length slots = length keys" using S(1) .
  note P = plant_nth [OF _ draws(1) len]
  have L: "length (tr_probes ?T) = length keys" using draws(1) len
    by (simp add: make_trajectory_def Let_def plant_def slots_def [symmetric])
  have probe: "tr_probes ?T ! i = make_probe tok (i, keys ! i, vals ! i, slots ! i)" if "i < length keys" for i
    using P [OF that] that by (simp add: make_trajectory_def Let_def slots_def [symmetric])
  have slot: "slots ! i < max 1 (length fillers div 2)" "slots ! i < length fillers" if "i < length keys" for i
  proof -
    have "slots ! i \<in> set slots" using that len by simp
    then show a: "slots ! i < max 1 (length fillers div 2)" using S(2) by blast
    then show "slots ! i < length fillers" using draws(5) by (cases fillers) (auto simp: max_def split: if_splits)
  qed
  have there: "sublist (tok (fact_line str i (keys ! i) (vals ! i))) (tr_turns ?T ! (slots ! i))"
    if i: "i < length keys" and d: "distinct slots" for i
  proof -
    let ?F = "plant keys vals slots" and ?line = "fact_line str i (keys ! i) (vals ! i)"
    have "map (\<lambda>(i, k, v, pt). pt) ?F = slots"
      by (rule nth_equalityI) (use P len draws(1) in \<open>auto simp: plant_def\<close>)
    then have "filter (\<lambda>x. (\<lambda>(i, k, v, pt). pt) x = (\<lambda>(i, k, v, pt). pt) (?F ! i)) ?F = [?F ! i]"
      using filter_single [of "\<lambda>(i, k, v, pt). pt" ?F i] d P(2) [OF i] i by simp
    then have "filter (\<lambda>(j, k, v, pt). pt = slots ! i) ?F = [(i, keys ! i, vals ! i, slots ! i)]"
      using P(1) [OF i] by (simp add: case_prod_unfold)
    then have w: "turn_words str depth ?F (slots ! i) f = splice f [(depth i, ?line)]" for f
      by (simp add: turn_words_def)
    obtain a b where s: "splice (fillers ! (slots ! i)) [(depth i, ?line)] = a @ split_ws ?line @ b" "a @ b = fillers ! (slots ! i)"
      using splice_single by blast
    have "\<forall>w \<in> set (a @ split_ws ?line @ b). w \<noteq> [] \<and> list_all (\<lambda>c. \<not> ws_char c) w"
    proof -
      have "fillers ! (slots ! i) \<in> set fillers" using slot(2) [OF i] by simp
      then have "\<forall>w \<in> set (a @ b). w \<noteq> [] \<and> list_all (\<lambda>c. \<not> ws_char c) w" using words s(2) by metis
      then show ?thesis using split_ws_words [of _ ?line] by auto
    qed
    then have "tr_turns ?T ! (slots ! i) = map word_id (a @ split_ws ?line @ b)"
      using slot(2) [OF i] split_join tok s(1) w by (simp add: make_trajectory_def Let_def slots_def [symmetric])
    then show ?thesis using tok by (auto simp: sublist_def)
  qed
  show ?thesis using L probe slot there by (auto simp: make_probe_def Let_def slots_def [symmetric])
qed

theorem facts_planted_witness:
  "length (tr_probes (make_trajectory (\<lambda>i. ''1'') (map (int \<circ> length) \<circ> split_ws) [[''calm''], [''sea'']] (\<lambda>i. 1/2) [''echo''] [''raven''] [0] [])) = 1"
proof -
  have "\<forall>ws \<in> set [[''calm''], [''sea'']]. \<forall>w \<in> set ws. w \<noteq> [] \<and> list_all (\<lambda>c. \<not> ws_char c) w" by code_simp
  then show ?thesis
    using facts_planted [of "map (int \<circ> length) \<circ> split_ws" "int \<circ> length" "[[''calm''], [''sea'']]" "[''raven'']" "[''echo'']" "[0]" "[]" "\<lambda>i. ''1''" "\<lambda>i. 1/2"]
    by simp
qed

end
