(* ===== verification/Retrieval.thy ===== *)
theory Retrieval imports Scoring LMCache begin

text \<open>
  The corpus benchmark, \<^verbatim>\<open>dexa/bench/corpus.py\<close>: planting facts, the bag-of-words retriever, the cost
  helpers with the break-even count, and the evaluation rows of full context, retrieval and cartridge.
  Similarities are real numbers. The backend's prefill, score and generate, and the compiled cartridge
  are parameters of the run; timing and plots are not modelled. A context is what \<open>score\<close> and \<open>generate\<close> take.
\<close>

section \<open>Planting facts\<close>

text \<open>What the random generator draws is an argument: entities, attributes and values, in order.\<close>

definition fact :: "string \<Rightarrow> string \<Rightarrow> string \<Rightarrow> string" where
  "fact attr ent val = ''The '' @ attr @ '' of '' @ ent @ '' is '' @ val @ '' .''"

definition make_corpus_qa :: "(string \<Rightarrow> int list) \<Rightarrow> string list \<Rightarrow> (string \<times> string \<times> string) list \<Rightarrow> string \<times> (int list \<times> int list) list" where
  "make_corpus_qa tok filler facts =
     (join_with '' '' (splice filler (spread (map (\<lambda>(ent, attr, val). fact attr ent val) facts))),
      map (\<lambda>(ent, attr, val). (tok (''What is the '' @ attr @ '' of '' @ ent @ '' ?''), tok val)) facts)"

section \<open>The retriever\<close>

definition chunk_corpus :: "'a list \<Rightarrow> nat \<Rightarrow> 'a list list" where
  "chunk_corpus doc n = chunk doc (max 1 n)"

record bow =
  bw_chunks :: "int list list"
  bw_vocab :: "int list"
  bw_idf :: "int \<Rightarrow> real"

text \<open>The vocabulary as the list of its tokens; an index into it is a position. \<open>df\<close> counts chunks.\<close>

definition doc_freq :: "int list list \<Rightarrow> int \<Rightarrow> nat" where
  "doc_freq chunks t = length (filter (\<lambda>ch. t \<in> set ch) chunks)"

definition new_bow :: "int list list \<Rightarrow> bow" where
  "new_bow chunks = \<lparr>bw_chunks = chunks, bw_vocab = remdups (concat chunks),
     bw_idf = (\<lambda>t. ln ((1 + real (length chunks)) / (1 + real (doc_freq chunks t))) + 1)\<rparr>"

definition tf_idf :: "bow \<Rightarrow> int list \<Rightarrow> real list" where
  "tf_idf b toks = map (\<lambda>t. real (count_list toks t) * bw_idf b t) (bw_vocab b)"

definition dot_r :: "real list \<Rightarrow> real list \<Rightarrow> real" where
  "dot_r x y = sum_list (map2 (*) x y)"

definition norm_r :: "real list \<Rightarrow> real" where
  "norm_r v = sqrt (dot_r v v)"

definition chunk_row :: "bow \<Rightarrow> int list \<Rightarrow> real list" where
  "chunk_row b ch = (let v = tf_idf b ch; n = max (norm_r v) (1 / 10 ^ 12) in map (\<lambda>x. x / n) v)"

definition query_vec :: "bow \<Rightarrow> int list \<Rightarrow> real list" where
  "query_vec b q = (let v = tf_idf b q; n = norm_r v in if n > 0 then map (\<lambda>x. x / n) v else v)"

definition bow_scores :: "bow \<Rightarrow> int list \<Rightarrow> real list" where
  "bow_scores b q = map (\<lambda>ch. dot_r (chunk_row b ch) (query_vec b q)) (bw_chunks b)"

text \<open>\<^verbatim>\<open>np.argsort(-sims, kind="stable")\<close> is a stable sort of the indices.\<close>

definition top_k :: "real list \<Rightarrow> int \<Rightarrow> nat list" where
  "top_k sims k = (if sims = [] then [] else
     take (nat (max 1 (min k (int (length sims))))) (sort_key (\<lambda>i. - (sims ! i)) [0..<length sims]))"

definition retrieve :: "bow \<Rightarrow> int list \<Rightarrow> int \<Rightarrow> nat list" where
  "retrieve b q k = top_k (bow_scores b q) k"

section \<open>Costs\<close>

definition decode_seconds :: "cost_model \<Rightarrow> rat \<Rightarrow> nat \<Rightarrow> rat \<Rightarrow> rat" where
  "decode_seconds cost cache_len n ref_len = rat_of_nat n * cache_len / max (1 / 10 ^ 9) (decode_tok_per_s cost * ref_len)"

definition prefill_secs :: "cost_model \<Rightarrow> rat \<Rightarrow> rat result" where
  "prefill_secs cost n = (if prefill_tok_per_s cost = 0 then Inl ZeroDivisionError else Inr (n / prefill_tok_per_s cost))"

definition cartridge_train_proxy :: "cost_model \<Rightarrow> nat \<Rightarrow> nat \<Rightarrow> nat \<Rightarrow> nat \<Rightarrow> nat \<Rightarrow> rat result" where
  "cartridge_train_proxy cost T t steps n_ss ans =
     res_bind (prefill_secs cost (rat_of_nat T)) (\<lambda>pT. res_bind (prefill_secs cost (rat_of_nat (t + ans))) (\<lambda>pt.
       Inr (rat_of_nat n_ss * (pT + decode_seconds cost (rat_of_nat T) ans 1000) + rat_of_nat steps * rat_of_nat n_ss * pt)))"

definition break_even :: "rat \<Rightarrow> rat \<Rightarrow> rat \<Rightarrow> rat \<Rightarrow> int option" where
  "break_even fixed_cart pq_cart fixed_other pq_other = (let denom = pq_other - pq_cart in
     if denom \<le> 0 then (if fixed_cart \<le> fixed_other then Some 0 else None)
     else Some \<lceil>max 0 ((fixed_cart - fixed_other) / denom)\<rceil>)"

definition fmt_be :: "(int \<Rightarrow> string) \<Rightarrow> (string, int option) dict \<Rightarrow> string \<Rightarrow> string" where
  "fmt_be str be method = (if method \<noteq> ''cartridge'' \<or> be = [] then ''-'' else
     join_with '' '' (map (\<lambda>(key, tag). case map_of be key of
         Some (Some v) \<Rightarrow> tag @ '':'' @ str v @ ''q'' | _ \<Rightarrow> tag @ '':never'')
       [(''cartridge_vs_full_context'', ''full''), (''cartridge_vs_rag'', ''rag'')]))"

section \<open>The run\<close>

record corpus_row =
  cr_quality :: "rat option"
  cr_exact :: "rat option"
  cr_memory_model :: rat
  cr_context :: rat
  cr_fixed :: rat
  cr_per_query :: rat

definition mean_opt :: "rat list \<Rightarrow> rat option" where
  "mean_opt xs = (if xs = [] then None else Some (sum_list xs / rat_of_nat (length xs)))"

text \<open>The score of a context between the no-context floor and the full-context ceiling.\<close>

definition recall_fraction :: "rat \<Rightarrow> rat \<Rightarrow> rat \<Rightarrow> rat" where
  "recall_fraction ceil flr lp = (let rng = ceil - flr in (lp - flr) / (if \<bar>rng\<bar> > 1 / 10 ^ 6 then rng else 1 / 10 ^ 6))"

record cart_info =
  ci_t :: nat
  ci_steps :: nat
  ci_selfstudy :: nat
  ci_answer :: nat

text \<open>The context a method decodes a question against, and the tokens retrieved for it.\<close>

definition method_ctx :: "'c \<Rightarrow> 'c \<Rightarrow> 'c \<Rightarrow> (int list \<Rightarrow> 'c) \<Rightarrow> bow \<Rightarrow> int \<Rightarrow> string \<Rightarrow> int list \<Rightarrow> ('c \<times> nat) result" where
  "method_ctx full flr cctx pre b rag_k method q =
     (if method = ''full_context'' then Inr (full, 0)
      else if method = ''rag'' then
        (let got = concat (map (\<lambda>ci. bw_chunks b ! ci) (sort (retrieve b q rag_k)))
         in Inr (if got = [] then flr else pre got, length got))
      else if method = ''cartridge'' then Inr (cctx, 0)
      else Inl (ValueError (''unknown method: '' @ method)))"

definition eval_query :: "('c \<Rightarrow> int list \<Rightarrow> int list \<Rightarrow> rat) \<Rightarrow> ('c \<Rightarrow> int list \<Rightarrow> nat \<Rightarrow> int list) \<Rightarrow> 'c \<Rightarrow> 'c \<Rightarrow> 'c
    \<Rightarrow> int list \<times> int list \<Rightarrow> rat \<times> rat" where
  "eval_query lpf gen full flr ctx qg = (case qg of (q, g) \<Rightarrow>
     (recall_fraction (lpf full q g) (lpf flr q g) (lpf ctx q g),
      fst (token_match (gen ctx q (max 4 (length g + 4))) g)))"

text \<open>\<open>cart\<close> is the compiled cartridge, absent when the method list does not name it.\<close>

definition method_costs :: "cost_model \<Rightarrow> nat \<Rightarrow> nat \<Rightarrow> nat \<Rightarrow> cart_info option \<Rightarrow> nat \<Rightarrow> string \<Rightarrow> (rat \<times> rat \<times> rat \<times> rat) result" where
  "method_costs cost T n_qa rag_total cart n_decode method =
     (if method = ''full_context'' then
        res_bind (prefill_secs cost (rat_of_nat T)) (\<lambda>p. Inr (rat_of_nat T * kv_bytes_per_token cost, rat_of_nat T, p, decode_seconds cost (rat_of_nat T) n_decode 1000))
      else if method = ''rag'' then
        (let m = rat_of_nat rag_total / rat_of_nat (max 1 n_qa) in
         res_bind (prefill_secs cost m) (\<lambda>p. Inr (m * kv_bytes_per_token cost, m, 0, p + decode_seconds cost m n_decode 1000)))
      else (case cart of None \<Rightarrow> Inl AttributeError
        | Some ci \<Rightarrow> res_bind (cartridge_train_proxy cost T (ci_t ci) (ci_steps ci) (ci_selfstudy ci) (ci_answer ci)) (\<lambda>p.
         Inr (rat_of_nat (ci_t ci) * kv_bytes_per_token cost, rat_of_nat (ci_t ci), p, decode_seconds cost (rat_of_nat (ci_t ci)) n_decode 1000))))"

text \<open>The count of retrieved tokens is one counter of the run, so a method list naming rag twice goes on counting.\<close>

definition corpus_method :: "('c \<Rightarrow> int list \<Rightarrow> int list \<Rightarrow> rat) \<Rightarrow> ('c \<Rightarrow> int list \<Rightarrow> nat \<Rightarrow> int list) \<Rightarrow> (int list \<Rightarrow> 'c) \<Rightarrow> cost_model
    \<Rightarrow> bow \<Rightarrow> int \<Rightarrow> nat \<Rightarrow> cart_info option \<Rightarrow> 'c \<Rightarrow> int list \<Rightarrow> (int list \<times> int list) list \<Rightarrow> nat \<Rightarrow> string \<Rightarrow> (corpus_row \<times> nat) result" where
  "corpus_method lpf gen pre cost b rag_k n_decode cart cctx doc qa rag_total method = (let full = pre doc; flr = pre (take 1 doc) in
     res_bind (res_map (\<lambda>qg. res_bind (method_ctx full flr cctx pre b rag_k method (fst qg)) (\<lambda>(ctx, n).
         Inr (eval_query lpf gen full flr ctx qg, n))) qa) (\<lambda>es.
     let total = rag_total + sum_list (map snd es) in
     res_bind (method_costs cost (length doc) (length qa) total cart n_decode method) (\<lambda>(mem, ctx_len, fixed, pq).
       Inr (\<lparr>cr_quality = mean_opt (map (fst \<circ> fst) es), cr_exact = mean_opt (map (snd \<circ> fst) es), cr_memory_model = mem,
            cr_context = ctx_len, cr_fixed = fixed, cr_per_query = pq\<rparr>, total))))"

definition row_break_even :: "(string, corpus_row) dict \<Rightarrow> (string, int option) dict" where
  "row_break_even rows = (case map_of rows ''cartridge'' of None \<Rightarrow> [] | Some c \<Rightarrow>
     concat (map (\<lambda>other. case map_of rows other of None \<Rightarrow> []
       | Some r \<Rightarrow> [(''cartridge_vs_'' @ other, break_even (cr_fixed c) (cr_per_query c) (cr_fixed r) (cr_per_query r))])
       [''full_context'', ''rag'']))"

definition run_corpus_bench :: "(string \<Rightarrow> int list) \<Rightarrow> ('c \<Rightarrow> int list \<Rightarrow> int list \<Rightarrow> rat) \<Rightarrow> ('c \<Rightarrow> int list \<Rightarrow> nat \<Rightarrow> int list) \<Rightarrow> (int list \<Rightarrow> 'c)
    \<Rightarrow> cost_model \<Rightarrow> int \<Rightarrow> nat \<Rightarrow> nat \<Rightarrow> cart_info \<Rightarrow> 'c \<Rightarrow> string list \<Rightarrow> string \<Rightarrow> (int list \<times> int list) list
    \<Rightarrow> ((string, corpus_row) dict \<times> (string, int option) dict) result" where
  "run_corpus_bench tok lpf gen pre cost rag_k chunk_tokens n_decode ci cctx methods corpus qa =
     (let doc = tok corpus; b = new_bow (chunk_corpus doc chunk_tokens);
          cart = (if ''cartridge'' \<in> set methods then Some ci else None) in
      res_bind (foldl (\<lambda>acc m. res_bind acc (\<lambda>(rows, n).
          res_bind (corpus_method lpf gen pre cost b rag_k n_decode cart cctx doc qa n m) (\<lambda>(r, n'). Inr (AList.update m r rows, n'))))
        (Inr ([], 0)) methods) (\<lambda>(rows, n). Inr (rows, row_break_even rows)))"

section \<open>Ranking\<close>

definition ranks :: "('a \<Rightarrow> 'b::linorder) \<Rightarrow> 'a::linorder \<Rightarrow> 'a \<Rightarrow> bool" where
  "ranks f i j \<longleftrightarrow> f i < f j \<or> f i = f j \<and> i < j"

lemma insort_ranks:
  assumes "sorted_wrt (ranks f) ys" "\<forall>y \<in> set ys. x < y"
  shows "sorted_wrt (ranks f) (insort_key f x ys)"
  using assms
proof (induction ys)
  case (Cons y ys)
  show ?case
  proof (cases "f x \<le> f y")
    case True
    have "ranks f x z" if "z \<in> set (y # ys)" for z
      using that Cons.prems True by (fastforce simp: ranks_def)
    then show ?thesis using True Cons.prems by simp
  next
    case False
    then have "ranks f y x" by (simp add: ranks_def not_le)
    then show ?thesis using False Cons by (auto simp: set_insort_key)
  qed
qed simp

lemma sort_ranks: "sorted_wrt (<) xs \<Longrightarrow> sorted_wrt (ranks f) (sort_key f xs)"
proof (induction xs)
  case (Cons x xs)
  then show ?case using insort_ranks [of f "sort_key f xs" x] by simp
qed simp

lemma top_k_props:
  assumes "sims \<noteq> []"
  shows "length (top_k sims k) = nat (max 1 (min k (int (length sims))))" "distinct (top_k sims k)"
    "set (top_k sims k) \<subseteq> {0..<length sims}" "sorted_wrt (ranks (\<lambda>i. - (sims ! i))) (top_k sims k)"
    "i \<in> set (top_k sims k) \<Longrightarrow> j < length sims \<Longrightarrow> j \<notin> set (top_k sims k) \<Longrightarrow> ranks (\<lambda>i. - (sims ! i)) i j"
proof -
  define n where "n = nat (max 1 (min k (int (length sims))))"
  define L where "L = sort_key (\<lambda>i. - (sims ! i)) [0..<length sims]"
  have t: "top_k sims k = take n L" using assms by (simp add: top_k_def n_def L_def)
  have L: "distinct L" "set L = {0..<length sims}" "length L = length sims" by (simp_all add: L_def)
  have s: "sorted_wrt (ranks (\<lambda>i. - (sims ! i))) (take n L @ drop n L)" unfolding L_def append_take_drop_id
    by (rule sort_ranks) simp
  have "n \<le> length sims" using assms by (cases sims) (auto simp: n_def)
  then show "length (top_k sims k) = nat (max 1 (min k (int (length sims))))" using t L(3) n_def by simp
  show "distinct (top_k sims k)" using t L(1) by simp
  show "set (top_k sims k) \<subseteq> {0..<length sims}" using t L(2) set_take_subset [of n L] by simp
  show "sorted_wrt (ranks (\<lambda>i. - (sims ! i))) (top_k sims k)" using s t by (simp add: sorted_wrt_append)
  show "ranks (\<lambda>i. - (sims ! i)) i j" if "i \<in> set (top_k sims k)" "j < length sims" "j \<notin> set (top_k sims k)"
  proof -
    have "j \<in> set (take n L @ drop n L)" unfolding append_take_drop_id L(2) using that(2) by simp
    then have "j \<in> set (drop n L)" unfolding set_append using that(3) t by auto
    then show ?thesis using s that(1) unfolding t by (simp add: sorted_wrt_append del: append_take_drop_id)
  qed
qed

text \<open>Retrieval is exact top-k: over a non-empty corpus it returns the requested number of chunk indices
  (at least one, at most all), without repetition, in order of decreasing similarity with ties by
  position, and every chunk left out is less similar than every returned one, or equal and later.\<close>

theorem retrieve_top_k:
  assumes "bw_chunks b \<noteq> []"
  shows "length (retrieve b q k) = nat (max 1 (min k (int (length (bw_chunks b))))) \<and> distinct (retrieve b q k) \<and>
    set (retrieve b q k) \<subseteq> {0..<length (bw_chunks b)} \<and>
    sorted_wrt (ranks (\<lambda>i. - (bow_scores b q ! i))) (retrieve b q k) \<and>
    (\<forall>i \<in> set (retrieve b q k). \<forall>j < length (bw_chunks b). j \<notin> set (retrieve b q k) \<longrightarrow>
       ranks (\<lambda>i. - (bow_scores b q ! i)) i j)"
proof -
  have "length (bow_scores b q) = length (bw_chunks b)" "bow_scores b q \<noteq> []" using assms by (simp_all add: bow_scores_def)
  then show ?thesis using top_k_props [where sims = "bow_scores b q" and k = k] unfolding retrieve_def by auto
qed

theorem retrieve_top_k_witness:
  "length (retrieve (new_bow [[1, 2], [2, 3], [4 :: int]]) [2, 4] 2) = 2 \<and> distinct (retrieve (new_bow [[1, 2], [2, 3], [4 :: int]]) [2, 4] 2)"
  using retrieve_top_k [of "new_bow [[1, 2], [2, 3], [4 :: int]]" "[2, 4]" 2] by (simp add: new_bow_def)

section \<open>Break-even\<close>

text \<open>The reported break-even is the least number of queries from which the cartridge's total cost is at
  most the other method's, and there is none exactly when the cartridge is dearer at every count.\<close>

theorem break_even_least:
  "(case break_even fc pc fo po of
      Some q \<Rightarrow> 0 \<le> q \<and> fc + of_int q * pc \<le> fo + of_int q * po \<and>
         (\<forall>r. 0 \<le> r \<longrightarrow> r < q \<longrightarrow> fo + of_int r * po < fc + of_int r * pc)
    | None \<Rightarrow> (\<forall>r \<ge> 0. fo + of_int r * po < fc + of_int r * pc))"
proof (cases "po - pc \<le> 0")
  case True
  have m: "of_int r * (po - pc) \<le> 0" if "0 \<le> r" for r :: int using that True by (simp add: mult_nonneg_nonpos)
  show ?thesis
  proof (cases "fc \<le> fo")
    case True then show ?thesis using \<open>po - pc \<le> 0\<close> by (simp add: break_even_def Let_def)
  next
    case False
    then have "fo + of_int r * po < fc + of_int r * pc" if "0 \<le> r" for r using m [OF that] by (simp add: algebra_simps)
    then show ?thesis using False \<open>po - pc \<le> 0\<close> by (simp add: break_even_def Let_def)
  qed
next
  case False
  then have d: "0 < po - pc" by simp
  define x where "x = (fc - fo) / (po - pc)"
  have x: "fc - fo = x * (po - pc)" using d by (simp add: x_def)
  have tot: "fc + of_int r * pc \<le> fo + of_int r * po \<longleftrightarrow> x \<le> of_int r" for r :: int
  proof -
    have "fc + of_int r * pc \<le> fo + of_int r * po \<longleftrightarrow> x * (po - pc) \<le> of_int r * (po - pc)"
      unfolding x [symmetric] by (simp add: algebra_simps)
    also have "\<dots> \<longleftrightarrow> x \<le> of_int r" using d by simp
    finally show ?thesis .
  qed
  have be: "break_even fc pc fo po = Some \<lceil>max 0 x\<rceil>" using False by (simp add: break_even_def Let_def x_def)
  have "fc + of_int \<lceil>max 0 x\<rceil> * pc \<le> fo + of_int \<lceil>max 0 x\<rceil> * po" unfolding tot
    using le_of_int_ceiling [of "max 0 x"] by linarith
  moreover have "fo + of_int r * po < fc + of_int r * pc" if "0 \<le> r" "r < \<lceil>max 0 x\<rceil>" for r
  proof -
    have "of_int r < max 0 x" using that(2) by (simp add: less_ceiling_iff)
    then have "of_int r < x" using that(1) by (simp add: max_def split: if_splits)
    then show ?thesis using tot [of r] by simp
  qed
  ultimately show ?thesis unfolding be by simp
qed

theorem break_even_least_witness: "break_even 10 1 0 4 = Some 4 \<and> 10 + of_int 4 * 1 \<le> (0 :: rat) + of_int 4 * 4"
proof -
  have "break_even 10 1 0 4 = Some 4" by code_simp
  then show ?thesis using break_even_least [of 10 1 0 4] by simp
qed

section \<open>Retrieval against full context\<close>

lemma chunk_concat: "0 < sz \<Longrightarrow> concat (chunk xs sz) = xs"
proof (induction "length xs" arbitrary: xs rule: less_induct)
  case less
  show ?case
  proof (cases "xs = []")
    case True then show ?thesis using less.prems chunk_unfold [of sz xs] by simp
  next
    case False
    then have d: "length (drop sz xs) < length xs" using less.prems by (cases xs) auto
    show ?thesis using less.hyps [OF d less.prems] False chunk_unfold [OF less.prems, of xs] by simp
  qed
qed

lemma retrieve_all:
  assumes "bw_chunks b \<noteq> []" "int (length (bw_chunks b)) \<le> k"
  shows "sort (retrieve b q k) = [0..<length (bw_chunks b)]"
proof -
  have n: "length (bow_scores b q) = length (bw_chunks b)" "bow_scores b q \<noteq> []" using assms(1) by (simp_all add: bow_scores_def)
  note R = top_k_props [OF n(2), where k = k, folded retrieve_def, unfolded n(1)]
  have d: "distinct (retrieve b q k)" "length (retrieve b q k) = length (bw_chunks b)"
    using R(1,2) assms by (auto simp: max_def min_def Suc_le_eq)
  have "set (retrieve b q k) = {0..<length (bw_chunks b)}"
    by (rule card_subset_eq) (use R(3) d distinct_card [OF d(1)] in auto)
  then show ?thesis by (intro sorted_distinct_set_unique) (use d in auto)
qed

lemma chunks_in_order: "concat (map (\<lambda>ci. xs ! ci) [0..<length xs]) = concat xs"
  by (simp add: map_nth)

lemma res_map_pure [simp]: "res_map (\<lambda>x. Inr (f x)) xs = Inr (map f xs)"
  by (induction xs) auto

lemma mean_of_equal: "rat_of_nat (Suc k * L) / rat_of_nat (Suc k) = rat_of_nat L"
  unfolding of_nat_mult by (rule nonzero_mult_div_cancel_left) (simp del: of_nat_Suc)

lemma rag_costs:
  assumes "prefill_tok_per_s cost \<noteq> 0"
  shows "method_costs cost T (Suc k) (Suc k * L) cart nd ''rag'' =
    Inr (rat_of_nat L * kv_bytes_per_token cost, rat_of_nat L, 0, rat_of_nat L / prefill_tok_per_s cost + decode_seconds cost (rat_of_nat L) nd 1000)"
proof -
  have "max 1 (Suc k) = Suc k" by simp
  then show ?thesis using assms unfolding method_costs_def mean_of_equal [symmetric, of L k]
    by (simp add: prefill_secs_def Let_def del: of_nat_Suc of_nat_mult mult_Suc)
qed

lemma rag_costs_none:
  "prefill_tok_per_s cost \<noteq> 0 \<Longrightarrow> method_costs cost T 0 0 cart nd ''rag'' = Inr (0, 0, 0, decode_seconds cost 0 nd 1000)"
  by (simp add: method_costs_def prefill_secs_def)

lemma full_costs:
  "prefill_tok_per_s cost \<noteq> 0 \<Longrightarrow> method_costs cost T k n cart nd ''full_context'' =
    Inr (rat_of_nat T * kv_bytes_per_token cost, rat_of_nat T, rat_of_nat T / prefill_tok_per_s cost, decode_seconds cost (rat_of_nat T) nd 1000)"
  by (simp add: method_costs_def prefill_secs_def)

lemma method_ctx_full: "method_ctx full flr cctx pre b k ''full_context'' q = Inr (full, 0)"
  by (simp add: method_ctx_def)

lemma method_ctx_rag_all:
  assumes "doc \<noteq> []" "int (length (chunk_corpus doc n)) \<le> k"
  shows "method_ctx full flr cctx pre (new_bow (chunk_corpus doc n)) k ''rag'' q = Inr (pre doc, length doc)"
proof -
  have c: "concat (chunk_corpus doc n) = doc" by (simp add: chunk_corpus_def chunk_concat)
  have ne: "bw_chunks (new_bow (chunk_corpus doc n)) \<noteq> []" using c assms(1) by (auto simp: new_bow_def)
  have "sort (retrieve (new_bow (chunk_corpus doc n)) q k) = [0..<length (chunk_corpus doc n)]"
    using retrieve_all [OF ne] assms(2) by (simp add: new_bow_def)
  then show ?thesis using assms(1) c chunks_in_order [of "chunk_corpus doc n"]
    by (simp add: method_ctx_def new_bow_def)
qed

text \<open>The comparison is fair at the limit: when every chunk is retrieved, the retrieval method decodes
  each question against the very prefill of the whole corpus, so its quality and exact-match columns are
  those of the full-context method, and over a non-empty question list its context length too.\<close>

theorem rag_all_is_full:
  assumes "doc \<noteq> []" "int (length (chunk_corpus doc n)) \<le> rag_k" "prefill_tok_per_s cost \<noteq> 0"
  shows "\<exists>r f m. corpus_method lpf gen pre cost (new_bow (chunk_corpus doc n)) rag_k nd cart cctx doc qa 0 ''rag'' = Inr (r, m) \<and>
    corpus_method lpf gen pre cost (new_bow (chunk_corpus doc n)) rag_k nd cart cctx doc qa 0 ''full_context'' = Inr (f, 0) \<and>
    cr_quality r = cr_quality f \<and> cr_exact r = cr_exact f \<and> (qa \<noteq> [] \<longrightarrow> cr_context r = cr_context f)"
proof -
  have s: "sum_list (map (\<lambda>x. length doc) qa) = length qa * length doc" for qa :: "'x list" by (induction qa) simp_all
  show ?thesis
    unfolding corpus_method_def Let_def method_ctx_rag_all [OF assms(1,2)] method_ctx_full
    by (cases qa) (simp_all add: comp_def s rag_costs_none [OF assms(3)] rag_costs [OF assms(3), simplified mult_Suc] full_costs [OF assms(3)])
qed

definition toy_scores :: "int list \<Rightarrow> int list \<Rightarrow> int list \<Rightarrow> rat" where
  "toy_scores ctx q g = - 1 / rat_of_nat (Suc (length ctx))"

definition toy_gen :: "int list \<Rightarrow> int list \<Rightarrow> nat \<Rightarrow> int list" where
  "toy_gen ctx q k = take k ctx"

theorem rag_all_is_full_witness:
  "\<exists>r f m. corpus_method toy_scores toy_gen (\<lambda>xs. xs) default_cost_model (new_bow (chunk_corpus [1, 2, 3] 2)) 2 8 None [] [1, 2, 3] [([2], [3])] 0 ''rag'' = Inr (r, m) \<and>
    corpus_method toy_scores toy_gen (\<lambda>xs. xs) default_cost_model (new_bow (chunk_corpus [1, 2, 3] 2)) 2 8 None [] [1, 2, 3] [([2], [3])] 0 ''full_context'' = Inr (f, 0) \<and>
    cr_quality r = cr_quality f \<and> cr_context r = cr_context f"
proof -
  have "length (chunk_corpus [1, 2, 3 :: int] 2) = 2" by code_simp
  then show ?thesis using rag_all_is_full [of "[1, 2, 3]" 2 2 default_cost_model toy_scores toy_gen "\<lambda>xs. xs" 8 None "[]" "[([2], [3])]"]
    by (auto simp: default_cost_model_def)
qed

text \<open>The table does not tell a method that was not run from one that is never caught up with.\<close>

lemma break_even_unrun:
  "fmt_be (\<lambda>i. ''0'') [(''cartridge_vs_full_context'', Some 0)] ''cartridge'' =
   fmt_be (\<lambda>i. ''0'') [(''cartridge_vs_full_context'', Some 0), (''cartridge_vs_rag'', None)] ''cartridge''"
  by code_simp

end
