(* ===== verification/Bench.thy ===== *)
theory Bench imports Retrieval begin

text \<open>
  The compaction benchmark, \<^verbatim>\<open>dexa/bench/metrics.py\<close> and \<^verbatim>\<open>dexa/bench/runner.py\<close>: the reconstruction
  error of a compact cache under held-out queries, answer accuracy, the system cost columns and the matrix of
  tasks, compactors and ratios. Norms and cosines are real numbers, the costs rationals; \<^const>\<open>None\<close> is
  not-a-number, and the infinite ratio. The backend's \<^verbatim>\<open>prefill\<close>, \<^verbatim>\<open>reference_queries\<close>, \<^verbatim>\<open>generate\<close> and
  \<^verbatim>\<open>attention_outputs\<close> are parameters, the latter two optional as a backend may not implement them. The
  measured wall time and the writing of the JSON file are left out.
\<close>

section \<open>Metrics\<close>

definition nan_mean :: "real option list \<Rightarrow> real option" where
  "nan_mean xs = (if xs = [] \<or> None \<in> set xs then None else Some (sum_list (map the xs) / real (length xs)))"

definition eps_norm :: real where
  "eps_norm = 1 / 10 ^ 8"

definition row_cos :: "vec \<Rightarrow> vec \<Rightarrow> real" where
  "row_cos a b = dot_r a b / max (norm_r a * norm_r b) eps_norm"

definition row_rel :: "vec \<Rightarrow> vec \<Rightarrow> real" where
  "row_rel a b = norm_r (map2 (-) a b) / max (norm_r a) eps_norm"

definition layer_mean :: "(vec \<Rightarrow> vec \<Rightarrow> real) \<Rightarrow> vec list list \<Rightarrow> vec list list \<Rightarrow> real option" where
  "layer_mean f fo co = nan_mean (map Some (map2 f (concat fo) (concat co)))"

type_synonym attention_fun = "vec context_cache \<Rightarrow> vec ref_queries \<Rightarrow> vec list list list result"

definition attention_recon_error :: "attention_fun option \<Rightarrow> vec kvcache \<Rightarrow> vec compact_cache \<Rightarrow> vec ref_queries
    \<Rightarrow> (real option \<times> real option) result" where
  "attention_recon_error ao full cc qs = (case ao of None \<Rightarrow> Inr (None, None)
     | Some f \<Rightarrow> res_bind (f (Raw full) qs) (\<lambda>fo. res_bind (f (Compact cc) qs) (\<lambda>co.
         Inr (nan_mean (map2 (layer_mean row_cos) fo co), nan_mean (map2 (layer_mean row_rel) fo co)))))"

definition answer_accuracy :: "(vec context_cache \<Rightarrow> int list \<Rightarrow> nat \<Rightarrow> int list) option \<Rightarrow> vec context_cache \<Rightarrow> task
    \<Rightarrow> rat option \<times> rat option" where
  "answer_accuracy gen c t = (case gen of None \<Rightarrow> (None, None)
     | Some g \<Rightarrow> (case token_match (g c (tk_prompt t) (max 4 (length (tk_gold t) + 4))) (tk_gold t) of (em, f1) \<Rightarrow> (Some em, Some f1)))"

record sys_row =
  sy_full_tokens :: nat
  sy_eff_tokens :: rat
  sy_ratio :: "rat option"
  sy_kv_full :: rat
  sy_kv_compact :: rat
  sy_memory_saving :: rat
  sy_nbytes_full :: nat
  sy_nbytes_compact :: nat
  sy_nbytes_saving :: rat
  sy_decode_full :: rat
  sy_decode_compact :: rat
  sy_decode_saved :: rat
  sy_recompute_avoided :: rat

definition saving :: "rat \<Rightarrow> rat \<Rightarrow> rat" where
  "saving part whole = 1 - part / max (1 / 10 ^ 9) whole"

definition sys_of :: "cost_model \<Rightarrow> nat \<Rightarrow> rat \<Rightarrow> nat \<Rightarrow> rat option \<Rightarrow> rat \<Rightarrow> nat \<Rightarrow> nat \<Rightarrow> sys_row result" where
  "sys_of cost n_decode ref_len T ratio eff nb_full nb_compact =
     (let kf = kv_bytes cost T; kc = eff * kv_bytes_per_token cost;
          df = decode_seconds cost (rat_of_nat T) n_decode ref_len; dc = decode_seconds cost eff n_decode ref_len in
      res_bind (prefill_seconds cost T) (\<lambda>p. Inr \<lparr>sy_full_tokens = T, sy_eff_tokens = eff, sy_ratio = ratio, sy_kv_full = kf, sy_kv_compact = kc,
        sy_memory_saving = saving kc kf, sy_nbytes_full = nb_full, sy_nbytes_compact = nb_compact,
        sy_nbytes_saving = saving (rat_of_nat nb_compact) (rat_of_nat nb_full), sy_decode_full = df, sy_decode_compact = dc,
        sy_decode_saved = df - dc, sy_recompute_avoided = p\<rparr>))"

text \<open>The reference row has no compact cache.\<close>

definition system_metrics :: "cost_model \<Rightarrow> vec kvcache \<Rightarrow> vec compact_cache option \<Rightarrow> nat \<Rightarrow> rat \<Rightarrow> sys_row result" where
  "system_metrics cost full small n_decode ref_len = (let T = seq_len full in case small of
     None \<Rightarrow> sys_of cost n_decode ref_len T (Some 1) (rat_of_nat T) (kv_nbytes full) (kv_nbytes full)
   | Some cc \<Rightarrow> res_bind (compression_ratio cc) (\<lambda>r. let eff = (case r of None \<Rightarrow> 0
         | Some x \<Rightarrow> if x = 0 then rat_of_nat T else rat_of_nat T / x) in
       sys_of cost n_decode ref_len T r eff (kv_nbytes full) (cc_nbytes cc)))"

section \<open>The matrix\<close>

text \<open>The number of held-out queries: a share, at least one, leaving one for the compactor.\<close>

definition eval_count :: "rat \<Rightarrow> nat \<Rightarrow> nat" where
  "eval_count share n = (let e = max 1 (nat (py_round (rat_of_nat n * share))) in if n > 1 then min e (n - 1) else n)"

definition split_refs :: "rat \<Rightarrow> 'v ref_queries \<Rightarrow> 'v ref_queries \<times> 'v ref_queries" where
  "split_refs share q = (if rq_layers q = [] then (q, q) else
     (let n = n_ref q; c = n - eval_count share n in
         (\<lparr>rq_spec = rq_spec q, rq_layers = map (map (take c)) (rq_layers q)\<rparr>,
          \<lparr>rq_spec = rq_spec q, rq_layers = map (map (drop c)) (rq_layers q)\<rparr>)))"

record matrix_row =
  mx_task :: string
  mx_context :: nat
  mx_compactor :: string
  mx_ratio :: rat
  mx_cos :: "real option"
  mx_rel :: "real option"
  mx_acc :: "(rat option \<times> rat option) option"
  mx_sys :: sys_row

record 'b bench_env =
  en_prefill :: prefill
  en_refs :: "int list \<Rightarrow> vec ref_queries"
  en_attention :: "attention_fun option"
  en_generate :: "(vec context_cache \<Rightarrow> int list \<Rightarrow> nat \<Rightarrow> int list) option"
  en_build :: "string \<Rightarrow> (compact_fun \<times> bool) result"

definition reference_row :: "'b bench_env \<Rightarrow> cost_model \<Rightarrow> bool \<Rightarrow> task \<Rightarrow> vec kvcache \<Rightarrow> matrix_row result" where
  "reference_row env cost acc t full = res_bind (system_metrics cost full None 64 1000) (\<lambda>s.
     Inr \<lparr>mx_task = tk_name t, mx_context = length (tk_context t), mx_compactor = ''full_kv'', mx_ratio = 1, mx_cos = Some 1, mx_rel = Some 0,
          mx_acc = (if acc then Some (answer_accuracy (en_generate env) (Raw full) t) else None), mx_sys = s\<rparr>)"

definition cell_row :: "'b bench_env \<Rightarrow> cost_model \<Rightarrow> bool \<Rightarrow> task \<Rightarrow> vec kvcache \<Rightarrow> vec ref_queries \<Rightarrow> vec ref_queries
    \<Rightarrow> string \<Rightarrow> compact_fun \<times> bool \<Rightarrow> rat \<Rightarrow> matrix_row result" where
  "cell_row env cost acc t full comp_refs eval_refs name cmp ratio =
     res_bind (fst cmp full \<lparr>cb_ratio = Some ratio, cb_tokens = None, cb_min = 1\<rparr> (if snd cmp then Some comp_refs else None)) (\<lambda>cc.
     res_bind (attention_recon_error (en_attention env) full cc eval_refs) (\<lambda>(c, r).
     res_bind (system_metrics cost full (Some cc) 64 1000) (\<lambda>s.
       Inr \<lparr>mx_task = tk_name t, mx_context = length (tk_context t), mx_compactor = name, mx_ratio = ratio, mx_cos = c, mx_rel = r,
            mx_acc = (if acc then Some (answer_accuracy (en_generate env) (Compact cc) t) else None), mx_sys = s\<rparr>)))"

definition task_rows :: "'b bench_env \<Rightarrow> cost_model \<Rightarrow> bool \<Rightarrow> string list \<Rightarrow> rat list \<Rightarrow> task \<Rightarrow> matrix_row list result" where
  "task_rows env cost acc compactors ratios t =
     (let full = en_prefill env (tk_context t) 0; (comp_refs, eval_refs) = split_refs (3 / 10) (en_refs env (tk_context t)) in
      res_bind (reference_row env cost acc t full) (\<lambda>ref.
      res_bind (res_map (\<lambda>name. res_bind (en_build env name) (\<lambda>cmp.
          res_map (cell_row env cost acc t full comp_refs eval_refs name cmp) ratios)) (filter (\<lambda>n. n \<noteq> ''full_kv'') compactors)) (\<lambda>cells.
        Inr (ref # concat cells))))"

definition run_matrix :: "'b bench_env \<Rightarrow> cost_model option \<Rightarrow> bool \<Rightarrow> string list \<Rightarrow> rat list \<Rightarrow> task list \<Rightarrow> matrix_row list result" where
  "run_matrix env cost acc compactors ratios tasks =
     (let cost' = (case cost of Some c \<Rightarrow> c | None \<Rightarrow> default_cost_model) in
      res_bind (res_map (task_rows env cost' acc compactors ratios) tasks) (\<lambda>rs. Inr (concat rs)))"

section \<open>Cauchy and Schwarz on lists\<close>

lemma dot_r_simps [simp]: "dot_r [] ys = 0" "dot_r xs [] = 0" "dot_r (x # xs) (y # ys) = x * y + dot_r xs ys"
  by (simp_all add: dot_r_def)

lemma dot_r_self_nonneg: "0 \<le> dot_r xs xs"
  by (induction xs) auto

lemma norm_r_square: "norm_r xs * norm_r xs = dot_r xs xs"
  using dot_r_self_nonneg [of xs] by (simp add: norm_r_def)

lemma norm_r_nonneg: "0 \<le> norm_r xs"
  using dot_r_self_nonneg [of xs] by (simp add: norm_r_def)

lemma norm_r_Cons: "norm_r (x # xs) * norm_r (x # xs) = x * x + norm_r xs * norm_r xs"
  unfolding norm_r_square by simp

lemma cauchy_schwarz: "\<bar>dot_r xs ys\<bar> \<le> norm_r xs * norm_r ys"
proof (induction xs ys rule: list_induct2')
  case (4 x xs y ys)
  let ?a = "norm_r xs" and ?b = "norm_r ys" and ?d = "dot_r xs ys"
  have nn: "0 \<le> ?a" "0 \<le> ?b" by (simp_all add: norm_r_nonneg)
  have "\<bar>x * y + ?d\<bar> \<le> \<bar>x\<bar> * \<bar>y\<bar> + ?a * ?b" using 4 by (metis abs_mult abs_triangle_ineq add_left_mono order_trans)
  also have "\<dots> \<le> norm_r (x # xs) * norm_r (y # ys)"
  proof (rule power2_le_imp_le)
    have "2 * ((\<bar>x\<bar> * ?b) * (\<bar>y\<bar> * ?a)) \<le> (\<bar>x\<bar> * ?b)\<^sup>2 + (\<bar>y\<bar> * ?a)\<^sup>2"
      using sum_squares_bound [of "\<bar>x\<bar> * ?b" "\<bar>y\<bar> * ?a"] by (simp add: power2_eq_square mult.assoc)
    then have "(\<bar>x\<bar> * \<bar>y\<bar> + ?a * ?b)\<^sup>2 \<le> (x * x + ?a * ?a) * (y * y + ?b * ?b)"
      by (simp add: power2_eq_square algebra_simps abs_mult_self_eq)
    also have "\<dots> = (norm_r (x # xs) * norm_r (y # ys))\<^sup>2"
      unfolding norm_r_Cons [symmetric] by (simp add: power2_eq_square mult.assoc mult.left_commute)
    finally show "(\<bar>x\<bar> * \<bar>y\<bar> + ?a * ?b)\<^sup>2 \<le> (norm_r (x # xs) * norm_r (y # ys))\<^sup>2" .
  qed (simp add: norm_r_nonneg)
  finally show ?case by simp
qed (simp_all add: norm_r_nonneg)

lemma row_cos_bound: "\<bar>row_cos a b\<bar> \<le> 1"
proof -
  let ?m = "max (norm_r a * norm_r b) eps_norm"
  have m: "0 < ?m" by (simp add: eps_norm_def less_max_iff_disj)
  have "\<bar>dot_r a b\<bar> \<le> ?m" using cauchy_schwarz [of a b] by simp
  then show ?thesis using m by (simp add: row_cos_def abs_divide)
qed

lemma row_rel_nonneg: "0 \<le> row_rel a b"
proof -
  have "0 \<le> max (norm_r a) eps_norm" by (simp add: eps_norm_def le_max_iff_disj)
  then show ?thesis by (simp add: row_rel_def norm_r_nonneg)
qed

lemma row_self: "row_rel a a = 0" "eps_norm \<le> norm_r a * norm_r a \<Longrightarrow> row_cos a a = 1"
proof -
  have z: "map2 (-) a a = map (\<lambda>x. 0) a" by (induction a) auto
  have "dot_r (map (\<lambda>x. 0) a) (map (\<lambda>x. 0) a) = 0" by (induction a) auto
  then show "row_rel a a = 0" unfolding row_rel_def norm_r_def z by simp
  assume "eps_norm \<le> norm_r a * norm_r a"
  moreover have "0 < eps_norm" by (simp add: eps_norm_def)
  ultimately show "row_cos a a = 1" by (simp add: row_cos_def norm_r_square max_def)
qed

lemma mean_lower:
  assumes "\<forall>x \<in> set xs. l \<le> x" "xs \<noteq> []" shows "l \<le> sum_list xs / real (length xs)"
proof -
  have "real (length xs) * l \<le> sum_list xs" using assms(1) by (induction xs) (auto simp: algebra_simps)
  moreover have "0 < real (length xs)" using assms(2) by simp
  ultimately show ?thesis by (simp add: field_simps)
qed

lemma mean_upper:
  assumes "\<forall>x \<in> set xs. x \<le> u" "xs \<noteq> []" shows "sum_list xs / real (length xs) \<le> u"
proof -
  have "sum_list xs \<le> real (length xs) * u" using assms(1) by (induction xs) (auto simp: algebra_simps)
  moreover have "0 < real (length xs)" using assms(2) by simp
  ultimately show ?thesis by (simp add: field_simps)
qed

lemma nan_meanD:
  assumes "nan_mean xs = Some m"
  shows "map the xs \<noteq> []" "m = sum_list (map the xs) / real (length (map the xs))" "x \<in> set (map the xs) \<Longrightarrow> Some x \<in> set xs"
proof -
  have xs: "xs \<noteq> []" "None \<notin> set xs" "m = sum_list (map the xs) / real (length xs)"
    using assms by (auto simp: nan_mean_def split: if_splits)
  then show "map the xs \<noteq> []" "m = sum_list (map the xs) / real (length (map the xs))" by simp_all
  show "Some x \<in> set xs" if x: "x \<in> set (map the xs)"
  proof -
    obtain y where "y \<in> set xs" "x = the y" using x by auto
    then show ?thesis using xs(2) by (metis option.collapse)
  qed
qed

lemma nan_mean_lower: "nan_mean xs = Some m \<Longrightarrow> (\<And>x. Some x \<in> set xs \<Longrightarrow> l \<le> x) \<Longrightarrow> l \<le> m"
  using nan_meanD [of xs m] mean_lower [of "map the xs" l] by simp

lemma nan_mean_upper: "nan_mean xs = Some m \<Longrightarrow> (\<And>x. Some x \<in> set xs \<Longrightarrow> x \<le> u) \<Longrightarrow> m \<le> u"
  using nan_meanD [of xs m] mean_upper [of "map the xs" u] by simp

lemma layer_mean_lower: "layer_mean f fo co = Some m \<Longrightarrow> (\<And>a b. l \<le> f a b) \<Longrightarrow> l \<le> m"
  unfolding layer_mean_def by (erule nan_mean_lower) auto

lemma layer_mean_upper: "layer_mean f fo co = Some m \<Longrightarrow> (\<And>a b. f a b \<le> u) \<Longrightarrow> m \<le> u"
  unfolding layer_mean_def by (erule nan_mean_upper) auto

lemma nan_mean_zeros: "(\<And>x. x \<in> set xs \<Longrightarrow> x \<in> {None, Some 0}) \<Longrightarrow> nan_mean xs \<in> {None, Some 0}"
proof (cases "nan_mean xs")
  case (Some m)
  assume z: "\<And>x. x \<in> set xs \<Longrightarrow> x \<in> {None, Some 0}"
  have "0 \<le> m" "m \<le> 0" by (rule nan_mean_lower [OF Some], use z in force) (rule nan_mean_upper [OF Some], use z in force)
  then show ?thesis using Some by simp
qed simp

lemma recon_self: "nan_mean (map2 (layer_mean row_rel) fo fo) \<in> {None, Some 0}"
proof (rule nan_mean_zeros)
  fix x assume "x \<in> set (map2 (layer_mean row_rel) fo fo)"
  then obtain l where "x = layer_mean row_rel l l" by (auto simp: set_zip)
  moreover have "layer_mean row_rel l l \<in> {None, Some 0}" unfolding layer_mean_def
    by (rule nan_mean_zeros) (auto simp: set_zip row_self)
  ultimately show "x \<in> {None, Some 0}" by simp
qed

text \<open>The reconstruction columns are a score. Whatever the compact cache, the cosine lies between -1 and 1
  and the relative error is not negative; over the cache that keeps every token the error is 0, the value the
  reference row is given without measuring it.\<close>

theorem recon_scale:
  assumes "attention_recon_error (Some (attention_outputs sp)) full cc qs = Inr (c, r)"
  shows "(case c of None \<Rightarrow> True | Some x \<Rightarrow> - 1 \<le> x \<and> x \<le> 1) \<and> (case r of None \<Rightarrow> True | Some y \<Rightarrow> 0 \<le> y) \<and>
    (full_kv full = Inr cc \<and> sp = kv_spec full \<and> kv_shaped full \<and> n_kv_heads sp dvd n_q_heads sp \<longrightarrow> r \<in> {None, Some 0})"
proof -
  obtain fo co where o: "attention_outputs sp (Raw full) qs = Inr fo" "attention_outputs sp (Compact cc) qs = Inr co"
    and cr: "c = nan_mean (map2 (layer_mean row_cos) fo co)" "r = nan_mean (map2 (layer_mean row_rel) fo co)"
    using assms by (auto simp: attention_recon_error_def)
  have b: "- 1 \<le> row_cos a b" "row_cos a b \<le> 1" for a b using row_cos_bound [of a b] by (simp_all add: abs_le_iff)
  have "- 1 \<le> x \<and> x \<le> 1" if "c = Some x" for x
  proof
    note m = that [unfolded cr]
    show "- 1 \<le> x" by (rule nan_mean_lower [OF m]) (auto intro: layer_mean_lower [OF sym] b)
    show "x \<le> 1" by (rule nan_mean_upper [OF m]) (auto intro: layer_mean_upper [OF sym] b)
  qed
  moreover have "0 \<le> y" if "r = Some y" for y
    by (rule nan_mean_lower [OF that [unfolded cr]]) (auto intro: layer_mean_lower [OF sym] row_rel_nonneg)
  moreover have "r \<in> {None, Some 0}" if "full_kv full = Inr cc" "sp = kv_spec full" "kv_shaped full" "n_kv_heads sp dvd n_q_heads sp"
  proof -
    have "co = fo" using full_kv_outputs [OF that(1,3)] that(2,4) o by simp
    then show ?thesis using cr(2) recon_self by simp
  qed
  ultimately show ?thesis by (auto split: option.splits)
qed

theorem recon_scale_witness:
  "\<exists>cc c r. full_kv demo_cache = Inr cc \<and>
    attention_recon_error (Some (attention_outputs tiny_spec)) demo_cache cc \<lparr>rq_spec = tiny_spec, rq_layers = [[[[2]]]]\<rparr> = Inr (c, r) \<and>
    r \<in> {None, Some 0}"
proof -
  let ?q = "\<lparr>rq_spec = tiny_spec, rq_layers = [[[[2 :: real]]]]\<rparr>"
  obtain cc where cc: "full_kv demo_cache = Inr cc" using select_total [of "\<lambda>l h. Inr [0..<seq_len demo_cache]"] by (auto simp: full_kv_def)
  have e: "attention_outputs tiny_spec (Compact cc) ?q = attention_outputs tiny_spec (Raw demo_cache) ?q"
    using full_kv_outputs [OF cc fake_kv_shaped] by simp
  have "\<exists>fo. attention_outputs tiny_spec (Raw demo_cache) ?q = Inr fo"
    by (simp add: attention_outputs_def attn_head_raw_def kv_head_of_def group_size_def logits_def fake_prefill_def fake_layers_def Let_def)
  then obtain c r where "attention_recon_error (Some (attention_outputs tiny_spec)) demo_cache cc ?q = Inr (c, r)"
    using e by (auto simp: attention_recon_error_def)
  then show ?thesis using recon_scale [of tiny_spec demo_cache cc ?q c r] cc fake_kv_shaped by auto
qed

section \<open>Held-out queries\<close>

lemma eval_count_range: "n > 1 \<Longrightarrow> 1 \<le> eval_count share n \<and> eval_count share n \<le> n - 1" "n \<le> 1 \<Longrightarrow> eval_count share n = n"
  by (auto simp: eval_count_def Let_def)

text \<open>The evaluation is on held-out queries. The split cuts every head of every layer at one index into the
  queries a compactor may see and those it is scored on, which together are all of them in order; with
  two or more queries neither part is empty, and a single query is only evaluated on.\<close>

theorem split_held_out:
  assumes "split_refs share q = (cq, eq)" "rq_layers q = (h # hs) # ls"
  shows "\<exists>k. rq_layers cq = map (map (take k)) (rq_layers q) \<and> rq_layers eq = map (map (drop k)) (rq_layers q) \<and>
    map2 (map2 (@)) (rq_layers cq) (rq_layers eq) = rq_layers q \<and> rq_spec cq = rq_spec q \<and> rq_spec eq = rq_spec q \<and>
    (1 < length h \<longrightarrow> 0 < k \<and> k < length h) \<and> (length h \<le> 1 \<longrightarrow> k = 0)"
proof -
  let ?k = "length h - eval_count share (length h)"
  have s: "rq_layers cq = map (map (take ?k)) (rq_layers q)" "rq_layers eq = map (map (drop ?k)) (rq_layers q)"
    "rq_spec cq = rq_spec q" "rq_spec eq = rq_spec q"
    using assms by (auto simp: split_refs_def n_ref_def Let_def)
  have a: "map2 (@) (map (take k) xs) (map (drop k) xs) = xs" for k and xs :: "'a list list"
    by (induction xs) auto
  have "map2 (map2 (@)) (map (map (take k)) ys) (map (map (drop k)) ys) = ys" for k and ys :: "'a list list list"
    by (induction ys) (simp_all add: a)
  then show ?thesis using s eval_count_range [of "length h" share] by (intro exI [of _ ?k]) auto
qed

theorem split_held_out_witness:
  "\<exists>cq eq k. split_refs (3 / 10) \<lparr>rq_spec = tiny_spec, rq_layers = [[[1, 2, 3, 4 :: int]]]\<rparr> = (cq, eq) \<and>
     rq_layers cq = [[take k [1, 2, 3, 4]]] \<and> 0 < k \<and> k < 4"
proof -
  obtain cq eq where s: "split_refs (3 / 10) \<lparr>rq_spec = tiny_spec, rq_layers = [[[1, 2, 3, 4 :: int]]]\<rparr> = (cq, eq)"
    by (rule prod.exhaust)
  from split_held_out [OF s, of "[1, 2, 3, 4]" "[]" "[]"] show ?thesis using s by auto
qed

section \<open>Rows\<close>

text \<open>The cost columns follow the compression ratio. Compared with the raw cache, a compact cache of finite
  non-zero ratio is charged its share of the tokens: the decode time it saves and the fraction of memory it saves
  are those of that share, the latter not negative exactly from ratio 1 on.\<close>

theorem system_columns:
  assumes "system_metrics cost full (Some cc) n_decode ref_len = Inr s" "compression_ratio cc = Inr (Some x)" "0 < x"
    and "1 / 10 ^ 9 \<le> kv_bytes cost (seq_len full)"
  shows "sy_memory_saving s = 1 - 1 / x \<and> sy_kv_compact s = sy_kv_full s / x \<and>
    sy_decode_compact s = sy_decode_full s / x \<and> sy_decode_saved s = sy_decode_full s * sy_memory_saving s \<and>
    (0 \<le> sy_memory_saving s \<longleftrightarrow> 1 \<le> x) \<and> sy_full_tokens s = seq_len full"
proof -
  let ?T = "rat_of_nat (seq_len full)"
  have s: "sy_kv_full s = ?T * kv_bytes_per_token cost" "sy_kv_compact s = ?T / x * kv_bytes_per_token cost"
    "sy_memory_saving s = saving (sy_kv_compact s) (sy_kv_full s)" "sy_decode_full s = decode_seconds cost ?T n_decode ref_len"
    "sy_decode_compact s = decode_seconds cost (?T / x) n_decode ref_len" "sy_decode_saved s = sy_decode_full s - sy_decode_compact s"
    "sy_full_tokens s = seq_len full"
    using assms(1-3) by (auto simp: system_metrics_def sys_of_def Let_def kv_bytes_def)
  have k: "sy_kv_compact s = sy_kv_full s / x" and d: "sy_decode_compact s = sy_decode_full s / x"
    using s by (simp_all add: decode_seconds_def)
  have pos: "1 / 10 ^ 9 \<le> sy_kv_full s" using assms(4) s(1) by (simp add: kv_bytes_def)
  have "(0 :: rat) < 1 / 10 ^ 9" by simp
  then have "sy_kv_full s \<noteq> 0" using pos by linarith
  then have m: "sy_memory_saving s = 1 - 1 / x" using pos unfolding s(3) k saving_def by (simp add: max_def)
  have "sy_decode_saved s = sy_decode_full s * sy_memory_saving s" unfolding s(6) d m by (simp add: algebra_simps)
  moreover have "0 \<le> sy_memory_saving s \<longleftrightarrow> 1 \<le> x" unfolding m using assms(3) by (simp add: divide_le_eq)
  ultimately show ?thesis using k d m s(7) by simp
qed

theorem system_columns_witness:
  "\<exists>cc s. full_kv demo_cache = Inr cc \<and> system_metrics default_cost_model demo_cache (Some cc) 64 1000 = Inr s \<and> sy_memory_saving s = 0"
proof -
  obtain cc where cc: "full_kv demo_cache = Inr cc" using select_total [of "\<lambda>l h. Inr [0..<seq_len demo_cache]"] by (auto simp: full_kv_def)
  then have r: "compression_ratio cc = Inr (Some 1)"
    by (auto simp: full_kv_def select_compact_def make_layer_def compression_ratio_def budget_def layer_budget_def fake_prefill_def
        fake_layers_def seq_len_def arange_def Let_def)
  then obtain s where s: "system_metrics default_cost_model demo_cache (Some cc) 64 1000 = Inr s"
    by (simp add: system_metrics_def sys_of_def prefill_seconds_def default_cost_model_def Let_def)
  have "1 / 10 ^ 9 \<le> kv_bytes default_cost_model (seq_len demo_cache)"
    by (simp add: kv_bytes_def default_cost_model_def fake_prefill_def seq_len_def arange_def)
  then show ?thesis using system_columns [OF s r] cc s by auto
qed

lemma res_map_length: "res_map f xs = Inr ys \<Longrightarrow> length ys = length xs"
  by (simp add: res_map_Inr_iff list_all2_lengthD)

lemma res_map_fields:
  "res_map f xs = Inr ys \<Longrightarrow> (\<And>x y. x \<in> set xs \<Longrightarrow> f x = Inr y \<Longrightarrow> g y = h x) \<Longrightarrow> map g ys = map h xs"
proof (induction xs arbitrary: ys)
  case (Cons x xs)
  then obtain y zs where z: "ys = y # zs" "f x = Inr y" "res_map f xs = Inr zs" by auto
  then show ?case using Cons.IH [OF z(3)] Cons.prems(2) by auto
qed simp

lemma cell_row_key: "cell_row env cost acc t full cr er name cmp ratio = Inr r \<Longrightarrow> (mx_task r, mx_compactor r, mx_ratio r) = (tk_name t, name, ratio)"
  by (auto simp: cell_row_def split: prod.splits)

lemma task_rows_keys:
  assumes "task_rows env cost acc compactors ratios t = Inr rows"
  shows "map (\<lambda>r. (mx_task r, mx_compactor r, mx_ratio r)) rows = (tk_name t, ''full_kv'', 1) #
    concat (map (\<lambda>n. map (\<lambda>x. (tk_name t, n, x)) ratios) (filter (\<lambda>n. n \<noteq> ''full_kv'') compactors))"
proof -
  obtain cr er ref cells where p: "reference_row env cost acc t (en_prefill env (tk_context t) 0) = Inr ref"
    "res_map (\<lambda>name. res_bind (en_build env name) (\<lambda>cmp. res_map (cell_row env cost acc t (en_prefill env (tk_context t) 0) cr er name cmp) ratios))
       (filter (\<lambda>n. n \<noteq> ''full_kv'') compactors) = Inr cells" "rows = ref # concat cells"
    using assms unfolding task_rows_def Let_def by (cases "split_refs (3 / 10) (en_refs env (tk_context t))") auto
  have "(mx_task ref, mx_compactor ref, mx_ratio ref) = (tk_name t, ''full_kv'', 1)" using p(1) by (auto simp: reference_row_def)
  moreover have "map (map (\<lambda>r. (mx_task r, mx_compactor r, mx_ratio r))) cells =
      map (\<lambda>n. map (\<lambda>x. (tk_name t, n, x)) ratios) (filter (\<lambda>n. n \<noteq> ''full_kv'') compactors)"
    by (rule res_map_fields [OF p(2)]) (auto intro!: res_map_fields cell_row_key)
  ultimately show ?thesis using p(3) by (simp add: map_concat)
qed

text \<open>The matrix is complete. A run that does not raise has, for every task in order, first the full-cache
  reference row and then one row for every compactor other than \<^verbatim>\<open>full_kv\<close> and every ratio, in order, and no
  other row.\<close>

theorem matrix_complete:
  assumes "run_matrix env cost acc compactors ratios tasks = Inr rows"
  shows "map (\<lambda>r. (mx_task r, mx_compactor r, mx_ratio r)) rows = concat (map (\<lambda>t. (tk_name t, ''full_kv'', 1) #
    concat (map (\<lambda>n. map (\<lambda>x. (tk_name t, n, x)) ratios) (filter (\<lambda>n. n \<noteq> ''full_kv'') compactors))) tasks)"
proof -
  obtain rs where r: "res_map (task_rows env (case cost of Some c \<Rightarrow> c | None \<Rightarrow> default_cost_model) acc compactors ratios) tasks = Inr rs" "rows = concat rs"
    using assms by (auto simp: run_matrix_def Let_def)
  have "map (map (\<lambda>r. (mx_task r, mx_compactor r, mx_ratio r))) rs = map (\<lambda>t. (tk_name t, ''full_kv'', 1) #
    concat (map (\<lambda>n. map (\<lambda>x. (tk_name t, n, x)) ratios) (filter (\<lambda>n. n \<noteq> ''full_kv'') compactors))) tasks"
    by (rule res_map_fields [OF r(1)]) (rule task_rows_keys)
  then show ?thesis using r(2) by (simp add: map_concat)
qed

definition demo_env :: "unit bench_env" where
  "demo_env = \<lparr>en_prefill = fake_prefill tiny_spec real_vec, en_refs = (\<lambda>ts. \<lparr>rq_spec = tiny_spec, rq_layers = []\<rparr>), en_attention = None,
     en_generate = None, en_build = (\<lambda>name. Inr (\<lambda>c b rq. full_kv c, False))\<rparr>"

definition demo_task :: task where
  "demo_task = \<lparr>tk_name = ''demo'', tk_context = [3, 4, 5], tk_prompt = [1], tk_gold = [2]\<rparr>"

theorem matrix_complete_witness:
  "\<exists>rows. run_matrix demo_env None True [''full_kv'', ''keep''] [2] [demo_task] = Inr rows \<and>
    map (\<lambda>r. (mx_task r, mx_compactor r, mx_ratio r)) rows = [(''demo'', ''full_kv'', 1), (''demo'', ''keep'', 2)]"
proof -
  obtain cc where cc: "full_kv demo_cache = Inr cc" using select_total [of "\<lambda>l h. Inr [0..<seq_len demo_cache]"] by (auto simp: full_kv_def)
  then have r: "compression_ratio cc = Inr (Some 1)"
    by (auto simp: full_kv_def select_compact_def make_layer_def compression_ratio_def budget_def layer_budget_def fake_prefill_def
        fake_layers_def seq_len_def arange_def Let_def)
  have s: "\<exists>s. system_metrics default_cost_model demo_cache c 64 1000 = Inr s" if "c \<in> {None, Some cc}" for c
    using that r by (auto simp: system_metrics_def sys_of_def prefill_seconds_def default_cost_model_def Let_def)
  have "\<exists>x. reference_row demo_env default_cost_model True demo_task demo_cache = Inr x"
    using s [of None] by (auto simp: reference_row_def)
  moreover have "\<exists>x. cell_row demo_env default_cost_model True demo_task demo_cache q q ''keep'' (\<lambda>c b rq. full_kv c, False) 2 = Inr x" for q
    using s [of "Some cc"] cc by (auto simp: cell_row_def attention_recon_error_def demo_env_def)
  ultimately obtain rows where rows: "run_matrix demo_env None True [''full_kv'', ''keep''] [2] [demo_task] = Inr rows"
    by (fastforce simp: run_matrix_def task_rows_def split_refs_def demo_env_def demo_task_def)
  from matrix_complete [OF this] rows show ?thesis by (simp add: demo_task_def)
qed

end
