(* ===== verification/Frontier.thy ===== *)
theory Frontier imports Bench begin

text \<open>
  The accuracy-against-memory benchmark, \<^verbatim>\<open>dexa/bench/frontier.py\<close>: evaluating every method on every
  example, aggregating the points and the pre-registered verdict. The backend, the registry of
  compactors and the cartridge compiler are parameters collected in \<open>frontier_env\<close>; printing and plotting are left
  out. A memory ratio over no bytes is infinite: \<^const>\<open>None\<close>.
\<close>

section \<open>Evaluating\<close>

record qa_example =
  qx_context :: string
  qx_question :: string
  qx_answers :: "string list"

text \<open>\<open>fe_answer\<close> generates and detokenizes; \<open>fe_cartridge\<close> compiles a cartridge of a size and takes its compact cache.\<close>

record frontier_env =
  fe_tokenize :: "string \<Rightarrow> int list"
  fe_prefill :: prefill
  fe_refs :: "int list \<Rightarrow> vec ref_queries"
  fe_answer :: "vec context_cache \<Rightarrow> int list \<Rightarrow> string"
  fe_build :: "string \<Rightarrow> (compact_fun \<times> bool) result"
  fe_cartridge :: "string \<Rightarrow> nat \<Rightarrow> vec compact_cache result"
  fe_str :: "int \<Rightarrow> string"

definition compressive :: "string list" where
  "compressive = [''attention_matching'', ''heavy_hitter'', ''snapkv'']"

type_synonym samples = "rat list \<times> rat list \<times> nat list"

type_synonym frontier_acc = "(string \<times> string, samples) dict"

definition add_sample :: "string \<times> string \<Rightarrow> rat \<Rightarrow> rat \<Rightarrow> nat \<Rightarrow> frontier_acc \<Rightarrow> frontier_acc" where
  "add_sample k f1 em mem d = (case (case map_of d k of None \<Rightarrow> ([], [], []) | Some x \<Rightarrow> x) of
     (a, b, c) \<Rightarrow> AList.update k (a @ [f1], b @ [em], c @ [mem]) d)"

definition context_bytes :: "vec context_cache \<Rightarrow> nat" where
  "context_bytes c = (case c of Raw kv \<Rightarrow> kv_nbytes kv | Compact cc \<Rightarrow> cc_nbytes cc)"

definition record_answer :: "frontier_env \<Rightarrow> qa_example \<Rightarrow> int list \<Rightarrow> string \<times> string \<Rightarrow> vec context_cache \<Rightarrow> frontier_acc \<Rightarrow> frontier_acc" where
  "record_answer env ex q_ids key c acc = (case qa_score (fe_answer env c q_ids) (qx_answers ex) of (em, f1) \<Rightarrow>
     add_sample key f1 em (context_bytes c) acc)"

definition question_prompt :: "string \<Rightarrow> string" where
  "question_prompt q = [CHR 0x0A, CHR 0x0A] @ ''Question: '' @ q @ [CHR 0x0A] @ ''Answer:''"

text \<open>\<^verbatim>\<open>int(ratio)\<close> drops the fraction.\<close>

definition py_int :: "rat \<Rightarrow> int" where
  "py_int x = (if 0 \<le> x then \<lfloor>x\<rfloor> else \<lceil>x\<rceil>)"

definition rag_cache :: "frontier_env \<Rightarrow> nat \<Rightarrow> qa_example \<Rightarrow> int list \<Rightarrow> vec kvcache \<Rightarrow> int \<Rightarrow> vec kvcache" where
  "rag_cache env chunk_tokens ex ctx full k = (let chunks = chunk_corpus ctx chunk_tokens;
     idxs = retrieve (new_bow chunks) (fe_tokenize env (qx_question ex)) k; got = concat (map (\<lambda>ci. chunks ! ci) (sort idxs))
     in if got = [] then full else fe_prefill env got 0)"

definition compact_for :: "frontier_env \<Rightarrow> qa_example \<Rightarrow> nat \<Rightarrow> vec kvcache \<Rightarrow> vec ref_queries \<Rightarrow> rat \<Rightarrow> string \<Rightarrow> vec compact_cache result" where
  "compact_for env ex n full refs ratio m =
     (if m = ''cartridge'' then (if ratio = 0 then Inl ZeroDivisionError
        else fe_cartridge env (qx_context ex) (nat (max 1 (py_round (rat_of_nat n / ratio)))))
      else res_bind (fe_build env m) (\<lambda>(cmp, needs).
        cmp full \<lparr>cb_ratio = Some ratio, cb_tokens = None, cb_min = 1\<rparr> (if needs then Some refs else None)))"

text \<open>A compaction that raises is skipped, and the sweep goes on.\<close>

definition compress_step :: "frontier_env \<Rightarrow> qa_example \<Rightarrow> int list \<Rightarrow> nat \<Rightarrow> vec kvcache \<Rightarrow> vec ref_queries \<Rightarrow> rat
    \<Rightarrow> frontier_acc \<Rightarrow> string \<Rightarrow> frontier_acc" where
  "compress_step env ex q_ids n full refs ratio acc m =
     (if m \<notin> set compressive \<and> m \<noteq> ''cartridge'' then acc else case compact_for env ex n full refs ratio m of
        Inl e \<Rightarrow> acc | Inr cc \<Rightarrow> record_answer env ex q_ids (m, fe_str env (py_int ratio) @ ''x'') (Compact cc) acc)"

definition example_step :: "frontier_env \<Rightarrow> string list \<Rightarrow> rat list \<Rightarrow> int list \<Rightarrow> nat \<Rightarrow> frontier_acc \<Rightarrow> qa_example \<Rightarrow> frontier_acc" where
  "example_step env methods ratios rag_ks chunk_tokens acc ex =
     (let ctx = fe_tokenize env (qx_context ex); q_ids = fe_tokenize env (question_prompt (qx_question ex));
          full = fe_prefill env ctx 0; refs = fe_refs env ctx;
          a1 = (if ''full_context'' \<in> set methods then record_answer env ex q_ids (''full_context'', ''full'') (Raw full) acc else acc);
          a2 = (if ''rag'' \<in> set methods then foldl (\<lambda>a k. record_answer env ex q_ids (''rag'', ''k='' @ fe_str env k)
                 (Raw (rag_cache env chunk_tokens ex ctx full k)) a) a1 rag_ks else a1)
      in foldl (\<lambda>a ratio. foldl (compress_step env ex q_ids (length ctx) full refs ratio) a methods) a2 ratios)"

section \<open>Points\<close>

record frontier_point =
  fp_method :: string
  fp_setting :: string
  fp_f1 :: rat
  fp_em :: rat
  fp_memory :: rat
  fp_ratio :: "rat option"
  fp_n :: nat

definition mean_q :: "rat list \<Rightarrow> rat" where
  "mean_q xs = sum_list xs / rat_of_nat (length xs)"

definition full_mems :: "frontier_acc \<Rightarrow> rat list" where
  "full_mems acc = (case List.find (\<lambda>p. fst (fst p) = ''full_context'') acc of Some (k, a, b, mem) \<Rightarrow> map rat_of_nat mem
     | None \<Rightarrow> (let ms = concat (map (\<lambda>(k, a, b, mem). mem) acc) in [if ms = [] then 1 else rat_of_nat (Max (set ms))]))"

definition make_point :: "frontier_acc \<Rightarrow> (string \<times> string) \<times> samples \<Rightarrow> frontier_point" where
  "make_point acc e = (case e of ((m, s), f1, em, mem) \<Rightarrow> let mm = mean_q (map rat_of_nat mem) in
     \<lparr>fp_method = m, fp_setting = s, fp_f1 = mean_q f1, fp_em = mean_q em, fp_memory = mm,
      fp_ratio = (if mm \<noteq> 0 then Some (mean_q (full_mems acc) / mm) else None), fp_n = length f1\<rparr>)"

text \<open>Sorting by method name, then memory.\<close>

fun str_le :: "string \<Rightarrow> string \<Rightarrow> bool" where
  "str_le [] t = True"
| "str_le (c # cs) [] = False"
| "str_le (c # cs) (d # ds) = (if c = d then str_le cs ds else (of_char c :: nat) < of_char d)"

definition point_le :: "frontier_point \<Rightarrow> frontier_point \<Rightarrow> bool" where
  "point_le p q \<longleftrightarrow> (if fp_method p = fp_method q then fp_memory p \<le> fp_memory q else str_le (fp_method p) (fp_method q))"

fun insert_point :: "frontier_point \<Rightarrow> frontier_point list \<Rightarrow> frontier_point list" where
  "insert_point p [] = [p]"
| "insert_point p (q # qs) = (if point_le p q then p # q # qs else q # insert_point p qs)"

definition points_of :: "frontier_acc \<Rightarrow> frontier_point list" where
  "points_of acc = foldr insert_point (map (make_point acc) acc) []"

section \<open>The verdict\<close>

record verdict_detail =
  vd_cartridge :: rat
  vd_full :: rat
  vd_trainfree :: rat
  vd_rag :: rat
  vd_checks :: "bool \<times> bool \<times> bool"

definition max_or :: "rat \<Rightarrow> rat list \<Rightarrow> rat" where
  "max_or z xs = (if xs = [] then z else Max (set xs))"

definition of_method :: "string \<Rightarrow> frontier_point list \<Rightarrow> frontier_point list" where
  "of_method m ps = filter (\<lambda>p. fp_method p = m) ps"

definition band :: "frontier_point list \<Rightarrow> frontier_point list" where
  "band ps = (let c = filter (\<lambda>p. fp_setting p \<in> {''16x'', ''32x'', ''50x''}) (of_method ''cartridge'' ps)
     in if c = [] then of_method ''cartridge'' ps else c)"

definition verdict :: "frontier_point list \<Rightarrow> bool \<times> verdict_detail option" where
  "verdict ps = (if of_method ''full_context'' ps = [] \<or> of_method ''cartridge'' ps = [] then (False, None) else
     (let full = Max (set (map fp_f1 (of_method ''full_context'' ps))); c = Max (set (map fp_f1 (band ps)));
          tf = max_or 0 (concat (map (\<lambda>m. map fp_f1 (of_method m ps)) compressive)); rag = max_or 0 (map fp_f1 (of_method ''rag'' ps));
          checks = (c \<ge> full - 2 / 100, c \<ge> tf + 5 / 100, c \<ge> rag + 3 / 100) in
      (fst checks \<and> fst (snd checks) \<and> snd (snd checks),
       Some \<lparr>vd_cartridge = c, vd_full = full, vd_trainfree = tf, vd_rag = rag, vd_checks = checks\<rparr>)))"

definition run_frontier :: "frontier_env \<Rightarrow> string list \<Rightarrow> rat list \<Rightarrow> int list \<Rightarrow> nat \<Rightarrow> qa_example list
    \<Rightarrow> frontier_point list \<times> bool \<times> verdict_detail option" where
  "run_frontier env methods ratios rag_ks chunk_tokens examples =
     (let ps = points_of (foldl (example_step env methods ratios rag_ks chunk_tokens) [] examples) in (ps, verdict ps))"

section \<open>What a pass means\<close>

lemma max_or_ge: "x \<in> set xs \<Longrightarrow> x \<le> max_or z xs"
  by (auto simp: max_or_def)

lemma max_or_le: "max_or z xs \<le> u \<longleftrightarrow> (if xs = [] then z \<le> u else \<forall>x \<in> set xs. x \<le> u)"
  by (auto simp: max_or_def)

lemma band_props: "set (band ps) \<subseteq> set (of_method ''cartridge'' ps)" "of_method ''cartridge'' ps \<noteq> [] \<Longrightarrow> band ps \<noteq> []"
  by (auto simp: band_def Let_def)

definition passing :: "frontier_point list \<Rightarrow> rat \<Rightarrow> bool" where
  "passing ps x \<longleftrightarrow> (\<forall>p \<in> set ps. (fp_method p = ''full_context'' \<longrightarrow> fp_f1 p - 2 / 100 \<le> x) \<and>
        (fp_method p \<in> set compressive \<longrightarrow> fp_f1 p + 5 / 100 \<le> x) \<and> (fp_method p = ''rag'' \<longrightarrow> fp_f1 p + 3 / 100 \<le> x)) \<and>
     ((\<forall>p \<in> set ps. fp_method p \<notin> set compressive) \<longrightarrow> 5 / 100 \<le> x) \<and>
     ((\<forall>p \<in> set ps. fp_method p \<noteq> ''rag'') \<longrightarrow> 3 / 100 \<le> x)"

lemma passing_mono: "passing ps x \<Longrightarrow> x \<le> y \<Longrightarrow> passing ps y"
  unfolding passing_def by (meson order_trans)

lemma shift_le: "(a :: rat) + k \<le> x \<longleftrightarrow> a \<le> x - k"
  by (simp add: algebra_simps)

lemma passing_max:
  assumes "of_method ''full_context'' ps \<noteq> []"
  shows "passing ps x \<longleftrightarrow> Max (set (map fp_f1 (of_method ''full_context'' ps))) - 2 / 100 \<le> x \<and>
    max_or 0 (concat (map (\<lambda>m. map fp_f1 (of_method m ps)) compressive)) + 5 / 100 \<le> x \<and>
    max_or 0 (map fp_f1 (of_method ''rag'' ps)) + 3 / 100 \<le> x"
proof -
  have f: "Max (set (map fp_f1 (of_method ''full_context'' ps))) - 2 / 100 \<le> x \<longleftrightarrow>
      (\<forall>p \<in> set ps. fp_method p = ''full_context'' \<longrightarrow> fp_f1 p - 2 / 100 \<le> x)"
  proof -
    have "fp_f1 ` set (of_method ''full_context'' ps) \<noteq> {}" using assms by simp
    then have "Max (set (map fp_f1 (of_method ''full_context'' ps))) \<le> x + 2 / 100 \<longleftrightarrow>
        (\<forall>y \<in> fp_f1 ` set (of_method ''full_context'' ps). y \<le> x + 2 / 100)" by (simp add: Max_le_iff)
    then show ?thesis unfolding diff_le_eq by (auto simp: of_method_def)
  qed
  have t: "max_or 0 (concat (map (\<lambda>m. map fp_f1 (of_method m ps)) compressive)) + 5 / 100 \<le> x \<longleftrightarrow>
      (\<forall>p \<in> set ps. fp_method p \<in> set compressive \<longrightarrow> fp_f1 p + 5 / 100 \<le> x) \<and>
      ((\<forall>p \<in> set ps. fp_method p \<notin> set compressive) \<longrightarrow> 5 / 100 \<le> x)"
    unfolding shift_le max_or_le by (auto simp: of_method_def filter_empty_conv)
  have r: "max_or 0 (map fp_f1 (of_method ''rag'' ps)) + 3 / 100 \<le> x \<longleftrightarrow>
      (\<forall>p \<in> set ps. fp_method p = ''rag'' \<longrightarrow> fp_f1 p + 3 / 100 \<le> x) \<and>
      ((\<forall>p \<in> set ps. fp_method p \<noteq> ''rag'') \<longrightarrow> 3 / 100 \<le> x)"
    unfolding shift_le max_or_le by (auto simp: of_method_def filter_empty_conv)
  show ?thesis unfolding f t r passing_def by blast
qed

lemma band_mem: "c \<in> set (band ps) \<longleftrightarrow> c \<in> set ps \<and> fp_method c = ''cartridge'' \<and>
    ((\<exists>p \<in> set ps. fp_method p = ''cartridge'' \<and> fp_setting p \<in> {''16x'', ''32x'', ''50x''}) \<longrightarrow> fp_setting c \<in> {''16x'', ''32x'', ''50x''})"
proof (cases "filter (\<lambda>p. fp_setting p \<in> {''16x'', ''32x'', ''50x''}) (of_method ''cartridge'' ps) = []")
  case True
  then have "\<not> (\<exists>p \<in> set ps. fp_method p = ''cartridge'' \<and> fp_setting p \<in> {''16x'', ''32x'', ''50x''})"
    by (auto simp: of_method_def filter_empty_conv)
  then show ?thesis using True by (auto simp: band_def of_method_def)
next
  case False
  then have "\<exists>p \<in> set ps. fp_method p = ''cartridge'' \<and> fp_setting p \<in> {''16x'', ''32x'', ''50x''}"
    by (auto simp: of_method_def filter_empty_conv)
  then show ?thesis using False unfolding band_def Let_def by (simp add: of_method_def)
qed

lemma verdict_passing:
  "fst (verdict ps) \<longleftrightarrow> of_method ''full_context'' ps \<noteq> [] \<and> (\<exists>c \<in> set (band ps). passing ps (fp_f1 c))"
proof (cases "of_method ''full_context'' ps = [] \<or> of_method ''cartridge'' ps = []")
  case True
  then show ?thesis using band_props(1) [of ps] by (auto simp: verdict_def)
next
  case False
  let ?m = "Max (set (map fp_f1 (band ps)))"
  have ne: "band ps \<noteq> []" using False band_props(2) by blast
  have "fst (verdict ps) \<longleftrightarrow> passing ps ?m"
    using False unfolding verdict_def Let_def by (simp add: passing_max)
  moreover have "?m \<in> fp_f1 ` set (band ps)" using Max_in [of "fp_f1 ` set (band ps)"] ne by simp
  then obtain c where c: "c \<in> set (band ps)" "fp_f1 c = ?m" by auto
  moreover have "passing ps ?m" if "d \<in> set (band ps)" "passing ps (fp_f1 d)" for d
    by (rule passing_mono [OF that(2)]) (use that(1) in simp)
  moreover have "passing ps (fp_f1 c)" if "passing ps ?m" using that c(2) by simp
  ultimately show ?thesis using False by blast
qed

text \<open>A pass is the dominance it is announced as. The verdict passes exactly when there is a full-context point
  and a cartridge point, of the 16x to 50x band if the run has one there, whose F1 is within two hundredths of every
  full-context point and at least 0.05 above every training-free point and 0.03 above every retrieval point
  (0.05 and 0.03 where the run has no such point).\<close>

theorem verdict_dominates:
  "fst (verdict ps) \<longleftrightarrow> of_method ''full_context'' ps \<noteq> [] \<and> (\<exists>c \<in> set ps. fp_method c = ''cartridge'' \<and>
     ((\<exists>p \<in> set ps. fp_method p = ''cartridge'' \<and> fp_setting p \<in> {''16x'', ''32x'', ''50x''}) \<longrightarrow> fp_setting c \<in> {''16x'', ''32x'', ''50x''}) \<and>
     (\<forall>p \<in> set ps. (fp_method p = ''full_context'' \<longrightarrow> fp_f1 p - 2 / 100 \<le> fp_f1 c) \<and>
        (fp_method p \<in> set compressive \<longrightarrow> fp_f1 p + 5 / 100 \<le> fp_f1 c) \<and> (fp_method p = ''rag'' \<longrightarrow> fp_f1 p + 3 / 100 \<le> fp_f1 c)) \<and>
     ((\<forall>p \<in> set ps. fp_method p \<notin> set compressive) \<longrightarrow> 5 / 100 \<le> fp_f1 c) \<and>
     ((\<forall>p \<in> set ps. fp_method p \<noteq> ''rag'') \<longrightarrow> 3 / 100 \<le> fp_f1 c))"
  unfolding verdict_passing passing_def Bex_def band_mem by (simp only: conj_assoc)

definition demo_point :: "string \<Rightarrow> string \<Rightarrow> rat \<Rightarrow> frontier_point" where
  "demo_point m s f = \<lparr>fp_method = m, fp_setting = s, fp_f1 = f, fp_em = 0, fp_memory = 1, fp_ratio = Some 1, fp_n = 1\<rparr>"

theorem verdict_dominates_witness:
  "fst (verdict [demo_point ''full_context'' ''full'' (8/10), demo_point ''cartridge'' ''16x'' (79/100), demo_point ''rag'' ''k=3'' (1/2)])"
  unfolding verdict_dominates by (simp add: demo_point_def of_method_def compressive_def)

text \<open>Without a point in the band any cartridge counts, whatever its ratio.\<close>

lemma verdict_outside_band:
  "fst (verdict [demo_point ''full_context'' ''full'' (8/10), demo_point ''cartridge'' ''4x'' (79/100)])"
  by code_simp

section \<open>The full-context anchor\<close>

lemma map_of_add_sample:
  "map_of (add_sample k f1 em mem d) k' = (if k' = k then Some (case (case map_of d k of None \<Rightarrow> ([], [], []) | Some x \<Rightarrow> x) of
     (a, b, c) \<Rightarrow> (a @ [f1], b @ [em], c @ [mem])) else map_of d k')"
  by (auto simp: add_sample_def split: prod.splits option.splits)

lemma add_sample_ok: "dict_ok d \<Longrightarrow> dict_ok (add_sample k f1 em mem d)"
  unfolding add_sample_def prod.case_eq_if by (rule dict_ok_update)

text \<open>What \<open>n\<close> examples leave under the full-context key: one sample each, with the bytes \<open>ms\<close>.\<close>

definition anchored :: "nat list \<Rightarrow> frontier_acc \<Rightarrow> bool" where
  "anchored ms acc \<longleftrightarrow> dict_ok acc \<and> (\<forall>s. map_of acc (''full_context'', s) \<noteq> None \<longrightarrow> s = ''full'') \<and>
     (if ms = [] then map_of acc (''full_context'', ''full'') = None
      else \<exists>a b. map_of acc (''full_context'', ''full'') = Some (a, b, ms) \<and> length a = length ms)"

lemma record_full:
  assumes "anchored ms acc"
  shows "anchored (ms @ [context_bytes c]) (record_answer env ex q_ids (''full_context'', ''full'') c acc)"
proof -
  obtain em f1 where q: "qa_score (fe_answer env c q_ids) (qx_answers ex) = (em, f1)" by (cases "qa_score (fe_answer env c q_ids) (qx_answers ex)")
  have ok: "dict_ok (add_sample (''full_context'', ''full'') f1 em (context_bytes c) acc)"
    by (rule add_sample_ok) (use assms in \<open>simp add: anchored_def\<close>)
  have old: "map_of acc (''full_context'', s) \<noteq> None \<longrightarrow> s = ''full''" for s using assms unfolding anchored_def by blast
  show ?thesis
  proof (cases "ms = []")
    case True
    then have "map_of acc (''full_context'', ''full'') = None" using assms by (simp add: anchored_def)
    then show ?thesis using ok old True unfolding anchored_def record_answer_def q prod.case by (simp add: map_of_add_sample)
  next
    case False
    then obtain a b where m: "map_of acc (''full_context'', ''full'') = Some (a, b, ms)" "length a = length ms"
      using assms unfolding anchored_def by (simp only: if_False) blast
    have new: "map_of (add_sample (''full_context'', ''full'') f1 em (context_bytes c) acc) (''full_context'', ''full'') =
        Some (a @ [f1], b @ [em], ms @ [context_bytes c])"
      unfolding map_of_add_sample m(1) by simp
    have "map_of (add_sample (''full_context'', ''full'') f1 em (context_bytes c) acc) (''full_context'', s) \<noteq> None \<longrightarrow> s = ''full''" for s
      using old [of s] unfolding map_of_add_sample by simp
    then show ?thesis using ok new m(2) unfolding anchored_def record_answer_def q prod.case by simp
  qed
qed

lemma record_other:
  assumes "fst k \<noteq> ''full_context''" "anchored ms acc"
  shows "anchored ms (record_answer env ex q_ids k c acc)"
proof -
  obtain em f1 where q: "qa_score (fe_answer env c q_ids) (qx_answers ex) = (em, f1)" by (cases "qa_score (fe_answer env c q_ids) (qx_answers ex)")
  have "map_of (add_sample k f1 em (context_bytes c) acc) (''full_context'', s) = map_of acc (''full_context'', s)" for s
    using assms(1) unfolding map_of_add_sample by auto
  note m = this
  have ok: "dict_ok acc" and rest: "\<forall>s. map_of acc (''full_context'', s) \<noteq> None \<longrightarrow> s = ''full''"
    "if ms = [] then map_of acc (''full_context'', ''full'') = None
      else \<exists>a b. map_of acc (''full_context'', ''full'') = Some (a, b, ms) \<and> length a = length ms"
    using assms(2) unfolding anchored_def by blast+
  show ?thesis unfolding anchored_def record_answer_def q prod.case m using add_sample_ok [OF ok] rest by blast
qed

lemma foldl_keeps: "(\<And>a x. P a \<Longrightarrow> P (f a x)) \<Longrightarrow> P a \<Longrightarrow> P (foldl f a xs)"
  by (induction xs arbitrary: a) auto

lemma compress_keeps: "anchored ms acc \<Longrightarrow> anchored ms (compress_step env ex q_ids n full refs ratio acc m)"
proof -
  assume a: "anchored ms acc"
  have "m \<noteq> ''full_context''" if "\<not> (m \<notin> set compressive \<and> m \<noteq> ''cartridge'')" using that by (auto simp: compressive_def)
  note ne = this
  show ?thesis
  proof (cases "m \<notin> set compressive \<and> m \<noteq> ''cartridge''")
    case True then show ?thesis using a by (simp add: compress_step_def)
  next
    case False
    note ne = ne [OF False]
    show ?thesis
    proof (cases "compact_for env ex n full refs ratio m")
      case (Inl e) then show ?thesis using a unfolding compress_step_def by simp
    next
      case (Inr cc)
      have "anchored ms (record_answer env ex q_ids (m, fe_str env (py_int ratio) @ ''x'') (Compact cc) acc)"
        by (rule record_other [OF _ a]) (simp add: ne)
      then show ?thesis unfolding compress_step_def Inr using False by (simp only: if_False sum.case)
    qed
  qed
qed

lemma example_anchored:
  assumes "''full_context'' \<in> set methods" "anchored ms acc"
  shows "anchored (ms @ [kv_nbytes (fe_prefill env (fe_tokenize env (qx_context ex)) 0)]) (example_step env methods ratios rag_ks ct acc ex)"
proof -
  let ?b = "kv_nbytes (fe_prefill env (fe_tokenize env (qx_context ex)) 0)"
  have full: "anchored (ms @ [?b]) (record_answer env ex q_ids (''full_context'', ''full'')
      (Raw (fe_prefill env (fe_tokenize env (qx_context ex)) 0)) acc)" for q_ids
    using record_full [OF assms(2), of "Raw (fe_prefill env (fe_tokenize env (qx_context ex)) 0)" env ex q_ids] by (simp add: context_bytes_def)
  have rag: "anchored (ms @ [?b]) (foldl (\<lambda>a k. record_answer env ex q_ids (''rag'', ''k='' @ fe_str env k) (f k) a) a ks)"
    if "anchored (ms @ [?b]) a" for a q_ids f ks
    by (rule foldl_keeps [where P = "anchored (ms @ [?b])", OF _ that]) (auto intro: record_other)
  have sweep: "anchored (ms @ [?b]) (foldl (\<lambda>a ratio. foldl (compress_step env ex q_ids n full refs ratio) a methods) a rs)"
    if "anchored (ms @ [?b]) a" for a q_ids n full refs rs
    by (rule foldl_keeps [where P = "anchored (ms @ [?b])", OF _ that])
      (rule foldl_keeps [where P = "anchored (ms @ [?b])"], rule compress_keeps)
  show ?thesis unfolding example_step_def Let_def
    by (rule sweep) (use assms(1) full rag [OF full] in simp)
qed

lemma run_anchored:
  assumes "''full_context'' \<in> set methods" "anchored ms acc"
  shows "anchored (ms @ map (\<lambda>ex. kv_nbytes (fe_prefill env (fe_tokenize env (qx_context ex)) 0)) examples)
    (foldl (example_step env methods ratios rag_ks ct) acc examples)"
  using assms(2)
proof (induction examples arbitrary: ms acc)
  case (Cons ex exs)
  from Cons.IH [OF example_anchored [OF assms(1) Cons.prems]] show ?case by simp
qed simp

lemma filter_one_key:
  "dict_ok d \<Longrightarrow> (k, v) \<in> set d \<Longrightarrow> P k \<Longrightarrow> (\<And>k'. k' \<in> fst ` set d \<Longrightarrow> P k' \<Longrightarrow> k' = k) \<Longrightarrow> filter (\<lambda>e. P (fst e)) d = [(k, v)]"
proof (induction d)
  case (Cons e d)
  show ?case
  proof (cases "fst e = k")
    case True
    then have "k \<notin> fst ` set d" using Cons.prems(1) by auto
    moreover have "\<not> P (fst x)" if "x \<in> set d" for x
    proof
      assume "P (fst x)"
      then have "fst x = k" using Cons.prems(4) that by simp
      then show False using \<open>k \<notin> fst ` set d\<close> that by auto
    qed
    ultimately have "filter (\<lambda>e. P (fst e)) d = []" "(k, v) \<notin> set d" by (auto simp: filter_empty_conv image_iff)
    then show ?thesis using True Cons.prems(2,3) by auto
  next
    case False
    then have "\<not> P (fst e)" "(k, v) \<in> set d" using Cons.prems(2,4) by auto
    then show ?thesis using Cons.IH Cons.prems(1,3,4) by simp
  qed
qed simp

lemma mset_insert_point: "mset (insert_point p ps) = add_mset p (mset ps)"
  by (induction ps) auto

lemma mset_points: "mset (points_of acc) = mset (map (make_point acc) acc)"
proof -
  have "mset (foldr insert_point ps []) = mset ps" for ps by (induction ps) (auto simp: mset_insert_point)
  then show ?thesis by (simp add: points_of_def)
qed

lemma of_method_points:
  assumes "filter (\<lambda>e. fst (fst e) = m) acc = [x]"
  shows "of_method m (points_of acc) = [make_point acc x]"
proof -
  have f: "fp_method (make_point acc e) = fst (fst e)" for e by (simp add: make_point_def Let_def split: prod.splits)
  have "mset (of_method m (points_of acc)) = filter_mset (\<lambda>p. fp_method p = m) (mset (map (make_point acc) acc))"
    unfolding of_method_def mset_filter mset_points ..
  also have "\<dots> = mset (map (make_point acc) (filter (\<lambda>e. fst (fst e) = m) acc))"
    unfolding mset_filter [symmetric] filter_map by (simp add: f comp_def)
  finally show ?thesis using assms by simp
qed

text \<open>Memory is measured against full context. When the full-context method runs, its samples make one point,
  over every example, whose memory is the mean size of the contexts' caches; its own memory ratio is 1, and the
  ratio of every other point is that memory over its own.\<close>

theorem full_context_anchor:
  assumes "''full_context'' \<in> set methods" "examples \<noteq> []"
    and "run_frontier env methods ratios rag_ks ct examples = (ps, v)"
  shows "\<exists>p. of_method ''full_context'' ps = [p] \<and> fp_n p = length examples \<and>
    fp_memory p = mean_q (map (\<lambda>ex. rat_of_nat (kv_nbytes (fe_prefill env (fe_tokenize env (qx_context ex)) 0))) examples) \<and>
    (fp_memory p \<noteq> 0 \<longrightarrow> fp_ratio p = Some 1) \<and>
    (\<forall>q \<in> set ps. fp_ratio q = (if fp_memory q = 0 then None else Some (fp_memory p / fp_memory q)))"
proof -
  let ?acc = "foldl (example_step env methods ratios rag_ks ct) [] examples"
  define ms where "ms = map (\<lambda>ex. kv_nbytes (fe_prefill env (fe_tokenize env (qx_context ex)) 0)) examples"
  have "anchored [] []" by (simp add: anchored_def)
  from run_anchored [OF assms(1) this, of env examples ratios rag_ks ct] have A: "anchored ms ?acc" by (simp add: ms_def)
  have "ms \<noteq> []" using assms(2) by (simp add: ms_def)
  then obtain a b where e: "map_of ?acc (''full_context'', ''full'') = Some (a, b, ms)" "length a = length ms"
    using A unfolding anchored_def by (simp only: if_False) blast
  have one: "filter (\<lambda>x. fst (fst x) = ''full_context'') ?acc = [((''full_context'', ''full''), a, b, ms)]"
  proof (rule filter_one_key [where P = "\<lambda>k. fst k = ''full_context''"])
    show "dict_ok ?acc" using A unfolding anchored_def by blast
    show "((''full_context'', ''full''), a, b, ms) \<in> set ?acc" by (rule dict_get_in [OF e(1)])
    fix k assume k: "k \<in> fst ` set ?acc" "fst k = ''full_context''"
    then have "map_of ?acc (''full_context'', snd k) \<noteq> None" by (metis map_of_eq_None_iff prod.collapse)
    then have "snd k = ''full''" using A unfolding anchored_def by blast
    then show "k = (''full_context'', ''full'')" using k(2) by (simp add: prod_eq_iff)
  qed simp
  have ps: "ps = points_of ?acc" using assms(3) by (simp add: run_frontier_def Let_def)
  let ?p = "make_point ?acc ((''full_context'', ''full''), a, b, ms)"
  have o: "of_method ''full_context'' ps = [?p]" unfolding ps by (rule of_method_points [OF one])
  have "List.find P xs = Some x" if "filter P xs = [x]" for P xs and x :: "(string \<times> string) \<times> samples"
    using that by (induction xs) (auto split: if_splits)
  from this [OF one] have fm: "full_mems ?acc = map rat_of_nat ms" by (simp add: full_mems_def)
  have mem: "fp_memory ?p = mean_q (map rat_of_nat ms)" by (simp add: make_point_def Let_def)
  have ratio: "fp_ratio (make_point ?acc x) = (if fp_memory (make_point ?acc x) = 0 then None
      else Some (fp_memory ?p / fp_memory (make_point ?acc x)))" for x
    unfolding mem by (simp add: make_point_def Let_def fm split: prod.splits)
  have "set ps = make_point ?acc ` set ?acc" unfolding ps using mset_points [of ?acc] by (metis list.set_map mset_eq_setD)
  then have "\<forall>q \<in> set ps. fp_ratio q = (if fp_memory q = 0 then None else Some (fp_memory ?p / fp_memory q))"
    using ratio by auto
  moreover have "fp_n ?p = length examples" using e(2) by (simp add: make_point_def Let_def ms_def)
  ultimately show ?thesis using o mem ratio [of "((''full_context'', ''full''), a, b, ms)"] by (auto simp: ms_def comp_def)
qed

definition demo_frontier_env :: frontier_env where
  "demo_frontier_env = \<lparr>fe_tokenize = (\<lambda>s. [3, 4]), fe_prefill = fake_prefill tiny_spec real_vec,
     fe_refs = (\<lambda>ts. \<lparr>rq_spec = tiny_spec, rq_layers = []\<rparr>), fe_answer = (\<lambda>c ts. ''paris''), fe_build = (\<lambda>name. Inl (KeyError name)),
     fe_cartridge = (\<lambda>c t. Inl (KeyError c)), fe_str = (\<lambda>i. ''4'')\<rparr>"

theorem full_context_anchor_witness:
  "\<exists>ps v p. run_frontier demo_frontier_env [''full_context'', ''snapkv''] [4] [] 2 [\<lparr>qx_context = ''c'', qx_question = ''q'', qx_answers = [''paris'']\<rparr>] = (ps, v) \<and>
     of_method ''full_context'' ps = [p] \<and> fp_n p = 1"
proof -
  obtain ps v where r: "run_frontier demo_frontier_env [''full_context'', ''snapkv''] [4] [] 2
      [\<lparr>qx_context = ''c'', qx_question = ''q'', qx_answers = [''paris'']\<rparr>] = (ps, v)" by (rule prod.exhaust)
  from full_context_anchor [OF _ _ r] show ?thesis using r by auto
qed

end
