(* ===== verification/Editor.thy ===== *)
theory Editor imports Scoring begin

text \<open>
  The agent's file editor, \<^verbatim>\<open>experiments/speculative-tool-exec/editor.py\<close>: view, create, replace and insert
  over the file tree of the task's container. A tree is the dictionary of its regular files and the list of
  its directories, both keyed by the path as written; links and undecodable bytes are left out. A request
  carries the optional fields of the JSON object. The process's reply is its exit code and text; an uncaught
  \<^verbatim>\<open>OSError\<close> is an exception. \<^verbatim>\<open>os.walk\<close> is a parameter.
\<close>

section \<open>The file tree\<close>

record tree =
  ft_files :: "(string, string) dict"
  ft_dirs :: "string list"

definition is_file :: "tree \<Rightarrow> string \<Rightarrow> bool" where
  "is_file t p \<longleftrightarrow> map_of (ft_files t) p \<noteq> None"

definition is_dir :: "tree \<Rightarrow> string \<Rightarrow> bool" where
  "is_dir t p \<longleftrightarrow> p \<in> set (ft_dirs t)"

definition path_exists :: "tree \<Rightarrow> string \<Rightarrow> bool" where
  "path_exists t p \<longleftrightarrow> is_file t p \<or> is_dir t p"

text \<open>\<^verbatim>\<open>os.path.dirname\<close>.\<close>

definition dirname :: "string \<Rightarrow> string" where
  "dirname p = (let h = rev (dropWhile (\<lambda>c. c \<noteq> CHR ''/'') (rev p)) in
     if list_all (\<lambda>c. c = CHR ''/'') h then h else rstrip_char (CHR ''/'') h)"

text \<open>The directory a path lives in; the empty name is the working directory, written as a dot.\<close>

definition parent_dir :: "string \<Rightarrow> string" where
  "parent_dir p = (if dirname p = [] then ''.'' else dirname p)"

lemma dirname_length: "length (dirname p) \<le> length p"
proof -
  have "length (rev (dropWhile (\<lambda>c. c \<noteq> CHR ''/'') (rev p))) \<le> length p"
    using length_dropWhile_le [of _ "rev p"] by simp
  moreover have "length (rstrip_char c h) \<le> length h" for c h
    using length_dropWhile_le [of _ "rev h"] by (simp add: rstrip_char_def)
  then have "length (rstrip_char c h) \<le> length p" if "length h \<le> length p" for c h
    using that order.trans by blast
  ultimately show ?thesis unfolding dirname_def Let_def by presburger
qed

text \<open>\<^verbatim>\<open>os.mkdir\<close>.\<close>

definition mkdir :: "string \<Rightarrow> tree \<Rightarrow> tree result" where
  "mkdir p t = (if path_exists t p then Inl (RuntimeError ''FileExistsError'')
     else if is_dir t (parent_dir p) then Inr (t\<lparr>ft_dirs := ft_dirs t @ [p]\<rparr>)
     else Inl (RuntimeError ''NotADirectoryError''))"

text \<open>\<^verbatim>\<open>os.makedirs(p, exist_ok=True)\<close> for a path as \<^verbatim>\<open>dirname\<close> returns it.\<close>

function makedirs :: "string \<Rightarrow> tree \<Rightarrow> tree result" where
  "makedirs p t = (if is_dir t p then Inr t else
     (let h = dirname p in
      if h \<noteq> [] \<and> length h < length p \<and> \<not> path_exists t h then res_bind (makedirs h t) (mkdir p)
      else mkdir p t))"
  by pat_completeness auto
termination by (relation "measure (\<lambda>(p, t). length p)") auto

declare makedirs.simps [simp del]

section \<open>Text\<close>

text \<open>\<^verbatim>\<open>text.split("\n")\<close>.\<close>

fun split_lines :: "string \<Rightarrow> string list" where
  "split_lines [] = [[]]"
| "split_lines (c # cs) = (if c = CHR 0x0A then [] # split_lines cs
     else (case split_lines cs of l # ls \<Rightarrow> (c # l) # ls | [] \<Rightarrow> [[c]]))"

definition join_lines :: "string list \<Rightarrow> string" where
  "join_lines ls = join_with [CHR 0x0A] ls"

text \<open>The text before and after the first occurrence.\<close>

fun split_first :: "string \<Rightarrow> string \<Rightarrow> (string \<times> string) option" where
  "split_first old [] = (if old = [] then Some ([], []) else None)"
| "split_first old (c # cs) = (if starts_with old (c # cs) then Some ([], drop (length old) (c # cs))
     else map_option (\<lambda>(p, q). (c # p, q)) (split_first old cs))"

lemma split_first_sound: "split_first old s = Some (p, q) \<Longrightarrow> s = p @ old @ q"
proof (induction s arbitrary: p)
  case Nil then show ?case by (simp split: if_splits)
next
  case (Cons c cs)
  show ?case
  proof (cases "starts_with old (c # cs)")
    case True
    with Cons.prems show ?thesis by (auto simp: starts_with_def) (metis append_take_drop_id)
  next
    case False
    with Cons show ?thesis by auto
  qed
qed

text \<open>\<^verbatim>\<open>text.count(old)\<close>: disjoint occurrences from the left, and one between any two characters for the empty string.\<close>

function count_sub :: "string \<Rightarrow> string \<Rightarrow> nat" where
  "count_sub old s = (if old = [] then Suc (length s) else
     (case split_first old s of None \<Rightarrow> 0 | Some (p, q) \<Rightarrow> Suc (count_sub old q)))"
  by pat_completeness auto
termination by (relation "measure (\<lambda>(old, s). length s)") (auto dest: split_first_sound)

declare count_sub.simps [simp del]

text \<open>\<^verbatim>\<open>text.replace(old, new, 1)\<close>.\<close>

definition replace_first :: "string \<Rightarrow> string \<Rightarrow> string \<Rightarrow> string" where
  "replace_first old new s = (case split_first old s of None \<Rightarrow> s | Some (p, q) \<Rightarrow> p @ new @ q)"

text \<open>\<^verbatim>\<open>xs[k:k] = ins\<close>.\<close>

definition slice_insert :: "int \<Rightarrow> 'a list \<Rightarrow> 'a list \<Rightarrow> 'a list" where
  "slice_insert k ins xs = (let n = int (length xs);
     i = nat (if k < 0 then max 0 (n + k) else min n k) in take i xs @ ins @ drop i xs)"

fun digits :: "nat \<Rightarrow> string" where
  "digits n = (if n < 10 then [char_of (48 + n)] else digits (n div 10) @ [char_of (48 + n mod 10)])"

declare digits.simps [simp del]

definition pad_left :: "nat \<Rightarrow> string \<Rightarrow> string" where
  "pad_left w s = replicate (w - length s) (CHR '' '') @ s"

definition numbered :: "nat \<Rightarrow> string \<Rightarrow> string" where
  "numbered i l = pad_left 6 (digits i) @ [CHR 0x09] @ l"

section \<open>Requests\<close>

record edit_req =
  er_command :: "string option"
  er_path :: "string option"
  er_file_text :: "string option"
  er_old :: "string option"
  er_new :: "string option"
  er_insert_line :: "int option"
  er_view_range :: "(int \<times> int) option"

definition or_else :: "'a \<Rightarrow> 'a option \<Rightarrow> 'a" where
  "or_else d v = (case v of None \<Rightarrow> d | Some x \<Rightarrow> x)"

type_synonym reply = "nat \<times> string"

text \<open>One entry per directory visited: its path, the names of its directories and of its files.\<close>

type_synonym walk = "tree \<Rightarrow> string \<Rightarrow> (string \<times> string list \<times> string list) list"

text \<open>\<^verbatim>\<open>os.path.join\<close> of a directory and a name.\<close>

definition path_join :: "string \<Rightarrow> string \<Rightarrow> string" where
  "path_join d n = (if d = [] \<or> last d = CHR ''/'' then d @ n else d @ ''/'' @ n)"

definition walk_items :: "walk \<Rightarrow> tree \<Rightarrow> string \<Rightarrow> string list" where
  "walk_items wk t path = concat (map (\<lambda>(root, dirs, files).
     if count_list (drop (length path) root) (CHR ''/'') > 1 then []
     else map (\<lambda>d. path_join root d @ ''/'') dirs @ map (path_join root) files) (wk t path))"

definition no_path :: "string \<Rightarrow> reply" where
  "no_path path = (1, ''The path '' @ path @ '' does not exist.'')"

definition edited :: "string \<Rightarrow> reply" where
  "edited path = (0, ''The file '' @ path @ '' has been edited.'')"

definition line_range :: "(int \<times> int) option \<Rightarrow> nat \<Rightarrow> int \<times> int" where
  "line_range rng n = (case rng of None \<Rightarrow> (1, int n)
     | Some (a, b) \<Rightarrow> (max 1 a, if b = - 1 then int n else min (int n) b))"

definition view_file :: "string \<Rightarrow> (int \<times> int) option \<Rightarrow> string \<Rightarrow> string" where
  "view_file path rng s = (let ls = split_lines s; (lo, hi) = line_range rng (length ls) in
     ''Here's the result of running `cat -n` on '' @ path @ '':'' @ [CHR 0x0A]
       @ join_lines (map (\<lambda>i. numbered (nat i) (ls ! nat (i - 1))) [lo..hi]) @ [CHR 0x0A])"

definition view :: "(string list \<Rightarrow> string list) \<Rightarrow> walk \<Rightarrow> edit_req \<Rightarrow> tree \<Rightarrow> reply" where
  "view srt wk r t = (let path = or_else [] (er_path r) in
     if is_dir t path then (0, join_lines (take 400 (srt (walk_items wk t path))) @ [CHR 0x0A])
     else (case map_of (ft_files t) path of None \<Rightarrow> no_path path
       | Some s \<Rightarrow> (0, view_file path (er_view_range r) s)))"

text \<open>\<^verbatim>\<open>open(path, "w").write(text)\<close>: only a path that names an entry of a directory can be opened.\<close>

definition write_file :: "string \<Rightarrow> string \<Rightarrow> tree \<Rightarrow> tree result" where
  "write_file path s t = (if path = [] \<or> last path = CHR ''/'' \<or> is_dir t path \<or> \<not> is_dir t (parent_dir path)
     then Inl (RuntimeError ''OSError'') else Inr (t\<lparr>ft_files := AList.update path s (ft_files t)\<rparr>))"

definition create :: "edit_req \<Rightarrow> tree \<Rightarrow> reply result \<times> tree" where
  "create r t = (let path = or_else [] (er_path r) in
     if path_exists t path then (Inr (1, ''File already exists at: '' @ path @ ''. Cannot overwrite files using command `create`.''), t)
     else (case makedirs (parent_dir path) t of Inl e \<Rightarrow> (Inl e, t)
       | Inr t1 \<Rightarrow> (case write_file path (or_else [] (er_file_text r)) t1 of Inl e \<Rightarrow> (Inl e, t1)
         | Inr t2 \<Rightarrow> (Inr (0, ''File created successfully at: '' @ path), t2))))"

definition str_replace :: "edit_req \<Rightarrow> tree \<Rightarrow> reply \<times> tree" where
  "str_replace r t = (let path = or_else [] (er_path r); old = or_else [] (er_old r); new = or_else [] (er_new r) in
     case map_of (ft_files t) path of None \<Rightarrow> (no_path path, t)
     | Some s \<Rightarrow> (let n = count_sub old s in
         if n = 0 then ((1, ''No replacement was performed, old_str `'' @ take 80 old @ ''` did not appear verbatim in '' @ path @ ''.''), t)
         else if n > 1 then ((1, ''No replacement was performed. Multiple occurrences of old_str `'' @ take 80 old
            @ ''` in lines. Please ensure it is unique.''), t)
         else (edited path, t\<lparr>ft_files := AList.update path (replace_first old new s) (ft_files t)\<rparr>)))"

definition insert_lines :: "edit_req \<Rightarrow> tree \<Rightarrow> reply \<times> tree" where
  "insert_lines r t = (let path = or_else [] (er_path r) in
     case map_of (ft_files t) path of None \<Rightarrow> (no_path path, t)
     | Some s \<Rightarrow> (edited path, t\<lparr>ft_files := AList.update path
         (join_lines (slice_insert (or_else 0 (er_insert_line r)) (split_lines (or_else [] (er_new r))) (split_lines s)))
         (ft_files t)\<rparr>))"

definition show_command :: "string option \<Rightarrow> string" where
  "show_command c = (case c of None \<Rightarrow> ''None'' | Some s \<Rightarrow> s)"

definition edit :: "(string list \<Rightarrow> string list) \<Rightarrow> walk \<Rightarrow> edit_req \<Rightarrow> tree \<Rightarrow> reply result \<times> tree" where
  "edit srt wk r t =
    (if er_command r = Some ''view'' then (Inr (view srt wk r t), t)
     else if er_command r = Some ''create'' then create r t
     else if er_command r = Some ''str_replace'' then (case str_replace r t of (y, t1) \<Rightarrow> (Inr y, t1))
     else if er_command r = Some ''insert'' then (case insert_lines r t of (y, t1) \<Rightarrow> (Inr y, t1))
     else if er_command r = Some ''undo_edit'' then (Inr (0, ''undo_edit is not supported in replay''), t)
     else (Inr (1, ''Unrecognized command '' @ show_command (er_command r)), t))"

section \<open>The tree stays a tree\<close>

definition tree_ok :: "tree \<Rightarrow> bool" where
  "tree_ok t \<longleftrightarrow> dict_ok (ft_files t) \<and> distinct (ft_dirs t) \<and> is_dir t ''.''
     \<and> (\<forall>p. \<not> (is_file t p \<and> is_dir t p)) \<and> (\<forall>p. path_exists t p \<longrightarrow> is_dir t (parent_dir p))"

lemma is_file_update [simp]: "is_file (t\<lparr>ft_files := AList.update p s (ft_files t)\<rparr>) q \<longleftrightarrow> q = p \<or> is_file t q"
  by (simp add: is_file_def)

lemma is_dir_update [simp]: "is_dir (t\<lparr>ft_files := fs\<rparr>) q \<longleftrightarrow> is_dir t q"
  by (simp add: is_dir_def)

lemma mkdir_ok:
  assumes "tree_ok t" "mkdir p t = Inr t'"
  shows "tree_ok t' \<and> is_dir t' p \<and> ft_files t' = ft_files t \<and> set (ft_dirs t) \<subseteq> set (ft_dirs t')"
proof -
  from assms(2) have t': "t' = t\<lparr>ft_dirs := ft_dirs t @ [p]\<rparr>"
    and c: "\<not> is_file t p" "\<not> is_dir t p" "is_dir t (parent_dir p)"
    by (auto simp: mkdir_def path_exists_def split: if_splits)
  have s: "is_file t' q \<longleftrightarrow> is_file t q" "is_dir t' q \<longleftrightarrow> q = p \<or> is_dir t q" for q
    by (auto simp: t' is_file_def is_dir_def)
  have "distinct (ft_dirs t')" "dict_ok (ft_files t')" using assms(1) c(2) by (auto simp: t' tree_ok_def is_dir_def)
  with assms(1) c show ?thesis by (auto simp: tree_ok_def path_exists_def s) (simp_all add: t')
qed

lemma makedirs_ok:
  "tree_ok t \<Longrightarrow> makedirs p t = Inr t' \<Longrightarrow>
    tree_ok t' \<and> is_dir t' p \<and> ft_files t' = ft_files t \<and> set (ft_dirs t) \<subseteq> set (ft_dirs t')"
proof (induction p t arbitrary: t' rule: makedirs.induct)
  case (1 p t)
  show ?case
  proof (cases "is_dir t p")
    case True with 1 show ?thesis by (auto simp: makedirs.simps)
  next
    case False
    show ?thesis
    proof (cases "dirname p \<noteq> [] \<and> length (dirname p) < length p \<and> \<not> path_exists t (dirname p)")
      case True
      with False "1.prems"(2) obtain u where u: "makedirs (dirname p) t = Inr u" "mkdir p u = Inr t'"
        by (auto simp: makedirs.simps [of p t] Let_def)
      from "1.IH" [OF False refl True "1.prems"(1) u(1)] mkdir_ok [OF _ u(2)] show ?thesis by auto
    next
      case c: False
      with False "1.prems"(2) have "mkdir p t = Inr t'" by (auto simp: makedirs.simps [of p t] Let_def)
      from mkdir_ok [OF "1.prems"(1) this] show ?thesis .
    qed
  qed
qed

lemma write_file_ok:
  assumes "tree_ok t" "write_file p s t = Inr t'"
  shows "tree_ok t'" "t' = t\<lparr>ft_files := AList.update p s (ft_files t)\<rparr>"
  using assms by (auto simp: write_file_def tree_ok_def path_exists_def split: if_splits)

lemma overwrite_ok:
  assumes "tree_ok t" "is_file t p"
  shows "tree_ok (t\<lparr>ft_files := AList.update p s (ft_files t)\<rparr>)"
  using assms by (auto simp: tree_ok_def path_exists_def)

lemma create_cases:
  assumes "tree_ok t" "create r t = (y, t')"
  shows "t' = t \<and> (\<forall>m. y \<noteq> Inr (0, m))
    \<or> tree_ok t' \<and> ft_files t' = ft_files t \<and> set (ft_dirs t) \<subseteq> set (ft_dirs t') \<and> (\<exists>e. y = Inl e)
    \<or> tree_ok t' \<and> \<not> path_exists t (or_else [] (er_path r)) \<and> set (ft_dirs t) \<subseteq> set (ft_dirs t') \<and> (\<exists>m. y = Inr (0, m))
      \<and> ft_files t' = AList.update (or_else [] (er_path r)) (or_else [] (er_file_text r)) (ft_files t)"
proof -
  let ?p = "or_else [] (er_path r)"
  consider "path_exists t ?p" | e where "makedirs (parent_dir ?p) t = Inl e" "\<not> path_exists t ?p"
    | u where "makedirs (parent_dir ?p) t = Inr u" "\<not> path_exists t ?p" by (cases "makedirs (parent_dir ?p) t") auto
  then show ?thesis
  proof cases
    case 1 with assms show ?thesis by (auto simp: create_def Let_def)
  next
    case 2 with assms show ?thesis by (auto simp: create_def Let_def)
  next
    case 3
    note u = makedirs_ok [OF assms(1) 3(1)]
    show ?thesis
    proof (cases "write_file ?p (or_else [] (er_file_text r)) u")
      case (Inl e) with 3 u assms show ?thesis by (auto simp: create_def Let_def)
    next
      case (Inr v)
      with 3 assms have "t' = v" "\<exists>m. y = Inr (0, m)" by (auto simp: create_def Let_def)
      with write_file_ok [OF _ Inr] u 3 show ?thesis by auto
    qed
  qed
qed

lemma replace_cases:
  assumes "str_replace r t = (y, t')"
  shows "t' = t \<and> fst y = 1 \<or> fst y = 0 \<and> is_file t (or_else [] (er_path r))
    \<and> (\<exists>s. t' = t\<lparr>ft_files := AList.update (or_else [] (er_path r)) s (ft_files t)\<rparr>)"
  using assms by (auto simp: str_replace_def no_path_def edited_def is_file_def Let_def split: option.splits if_splits)

lemma insert_cases:
  assumes "insert_lines r t = (y, t')"
  shows "t' = t \<and> fst y = 1 \<or> fst y = 0 \<and> is_file t (or_else [] (er_path r))
    \<and> (\<exists>s. t' = t\<lparr>ft_files := AList.update (or_else [] (er_path r)) s (ft_files t)\<rparr>)"
  using assms by (auto simp: insert_lines_def no_path_def edited_def is_file_def Let_def split: option.splits)

lemma edit_cases:
  assumes "tree_ok t" "edit srt wk r t = (y, t')"
  shows "tree_ok t' \<and> set (ft_dirs t) \<subseteq> set (ft_dirs t')
    \<and> (\<forall>q. q \<noteq> or_else [] (er_path r) \<longrightarrow> map_of (ft_files t') q = map_of (ft_files t) q)
    \<and> (\<forall>c m. y = Inr (Suc c, m) \<longrightarrow> t' = t) \<and> (\<forall>e. y = Inl e \<longrightarrow> ft_files t' = ft_files t)"
proof -
  consider "t' = t" | "create r t = (y, t')" | z where "str_replace r t = (z, t')" "y = Inr z"
    | z where "insert_lines r t = (z, t')" "y = Inr z"
    using assms(2) by (auto simp: edit_def split: if_splits prod.splits)
  then show ?thesis
  proof cases
    case 1 with assms show ?thesis by simp
  next
    case 2
    from create_cases [OF assms(1) this] assms(1) show ?thesis by auto
  next
    case 3
    from replace_cases [OF 3(1)] 3(2) assms(1) overwrite_ok show ?thesis by (cases z) auto
  next
    case 4
    from insert_cases [OF 4(1)] 4(2) assms(1) overwrite_ok show ?thesis by (cases z) auto
  qed
qed

section \<open>Unique replacement\<close>

lemma split_first_none: "split_first old s = None \<longleftrightarrow> (\<forall>p q. s \<noteq> p @ old @ q)"
proof
  show "split_first old s = None \<Longrightarrow> \<forall>p q. s \<noteq> p @ old @ q"
  proof (induction s)
    case Nil then show ?case by (simp split: if_splits)
  next
    case (Cons c cs)
    then have n: "\<not> starts_with old (c # cs)" "\<forall>p q. cs \<noteq> p @ old @ q" by (auto split: if_splits)
    show ?case
    proof (intro allI notI)
      fix p q assume "c # cs = p @ old @ q"
      with n show False by (cases p) (auto simp: starts_with_def)
    qed
  qed
next
  show "\<forall>p q. s \<noteq> p @ old @ q \<Longrightarrow> split_first old s = None"
    by (cases "split_first old s") (auto dest: split_first_sound)
qed

text \<open>The first occurrence leaves the longest rest.\<close>

lemma split_first_least:
  "split_first old (a @ old @ b) = Some (p, q) \<Longrightarrow> length p \<le> length a"
proof (induction a arbitrary: p)
  case Nil
  show ?case
  proof (cases "old @ b")
    case Nil with Nil.prems show ?thesis by simp
  next
    case (Cons c cs)
    then have "starts_with old (c # cs)" by (metis starts_with_append)
    with Nil.prems Cons show ?thesis by simp
  qed
next
  case (Cons c a)
  then show ?case by (auto split: if_splits)
qed

lemma count_zero: "old \<noteq> [] \<Longrightarrow> count_sub old s = 0 \<longleftrightarrow> (\<forall>p q. s \<noteq> p @ old @ q)"
  by (subst count_sub.simps) (auto simp: split_first_none [symmetric] split: option.splits)

lemma count_two:
  assumes "old \<noteq> []"
  shows "1 < count_sub old s \<longleftrightarrow> (\<exists>a b c. s = a @ old @ b @ old @ c)"
proof
  assume "1 < count_sub old s"
  then obtain p q where f: "split_first old s = Some (p, q)" "0 < count_sub old q"
    using assms by (subst (asm) count_sub.simps) (auto split: option.splits)
  then obtain b c where "q = b @ old @ c" using count_zero [OF assms, of q] by auto
  with split_first_sound [OF f(1)] show "\<exists>a b c. s = a @ old @ b @ old @ c" by auto
next
  assume "\<exists>a b c. s = a @ old @ b @ old @ c"
  then obtain a b c where s: "s = a @ old @ b @ old @ c" by blast
  then obtain p q where f: "split_first old s = Some (p, q)" using split_first_none [of old s] by (cases "split_first old s") auto
  from f s have le: "length p \<le> length a" using split_first_least [of old a "b @ old @ c"] by simp
  from split_first_sound [OF f] s have eq: "p @ old @ q = (a @ old @ b) @ old @ c" by simp
  then have "q = drop (length p + length old) ((a @ old @ b) @ old @ c)" by (metis append_eq_conv_conj drop_drop length_append add.commute)
  then have "q = drop (length p + length old) (a @ old @ b) @ old @ c" using le by simp
  then have "0 < count_sub old q" using count_zero [OF assms, of q] by (metis gr0I)
  with f assms show "1 < count_sub old s" by (subst count_sub.simps) simp
qed

section \<open>What the editor promises\<close>

definition edits :: "(string list \<Rightarrow> string list) \<Rightarrow> walk \<Rightarrow> edit_req list \<Rightarrow> tree \<Rightarrow> tree" where
  "edits srt wk rs t = fold (\<lambda>r u. snd (edit srt wk r u)) rs t"

lemma edits_keep:
  assumes "tree_ok t"
  shows "tree_ok (edits srt wk rs t) \<and> set (ft_dirs t) \<subseteq> set (ft_dirs (edits srt wk rs t))
    \<and> (\<forall>q. q \<notin> (\<lambda>r. or_else [] (er_path r)) ` set rs \<longrightarrow> map_of (ft_files (edits srt wk rs t)) q = map_of (ft_files t) q)"
  using assms
proof (induction rs arbitrary: t)
  case Nil then show ?case by (simp add: edits_def)
next
  case (Cons r rs)
  obtain y u where e: "edit srt wk r t = (y, u)" by (cases "edit srt wk r t")
  have s: "edits srt wk (r # rs) t = edits srt wk rs u" by (simp add: edits_def e)
  note c = edit_cases [OF Cons.prems e]
  then have "tree_ok u" by blast
  from Cons.IH [OF this] c show ?case unfolding s by auto
qed

definition an_edit :: "string \<Rightarrow> string \<Rightarrow> edit_req" where
  "an_edit cmd path = \<lparr>er_command = Some cmd, er_path = Some path, er_file_text = None, er_old = None, er_new = None,
     er_insert_line = None, er_view_range = None\<rparr>"

definition demo_tree :: tree where
  "demo_tree = \<lparr>ft_files = [(''a.py'', ''x = 1'')], ft_dirs = [''.'']\<rparr>"

definition demo_edits :: "edit_req list" where
  "demo_edits = [an_edit ''create'' ''t/u/b.py'' \<lparr>er_file_text := Some ''y''\<rparr>,
     an_edit ''str_replace'' ''t/u/b.py'' \<lparr>er_old := Some ''y'', er_new := Some ''z''\<rparr>]"

lemma demo_tree_ok: "tree_ok demo_tree"
  by (auto simp: tree_ok_def demo_tree_def is_file_def is_dir_def path_exists_def parent_dir_def dirname_def
    rstrip_char_def split: if_splits)

lemma demo_edited: "map_of (ft_files (edits id (\<lambda>t p. []) demo_edits demo_tree)) ''t/u/b.py'' = Some ''z''
    \<and> ft_dirs (edits id (\<lambda>t p. []) demo_edits demo_tree) = [''.'', ''t'', ''t/u'']"
  by code_simp



lemma replace_decided:
  assumes "map_of (ft_files t) (or_else [] (er_path r)) = Some s" "or_else [] (er_old r) = old"
  shows "fst (fst (str_replace r t)) = 0 \<longleftrightarrow> count_sub old s = 1"
    and "count_sub old s = 1 \<Longrightarrow> snd (str_replace r t)
      = t\<lparr>ft_files := AList.update (or_else [] (er_path r)) (replace_first old (or_else [] (er_new r)) s) (ft_files t)\<rparr>"
    and "count_sub old s \<noteq> 1 \<Longrightarrow> snd (str_replace r t) = t"
  using assms by (auto simp: str_replace_def Let_def edited_def)

lemma replace_unique_parts:
  assumes "map_of (ft_files t) (or_else [] (er_path r)) = Some s" "or_else [] (er_old r) = old" "old \<noteq> []"
    "or_else [] (er_new r) = new"
  shows "fst (fst (str_replace r t)) = 0 \<longleftrightarrow> (\<exists>p q. s = p @ old @ q) \<and> (\<nexists>a b c. s = a @ old @ b @ old @ c)"
    and "fst (fst (str_replace r t)) = 0 \<Longrightarrow> \<exists>p q. s = p @ old @ q
      \<and> snd (str_replace r t) = t\<lparr>ft_files := AList.update (or_else [] (er_path r)) (p @ new @ q) (ft_files t)\<rparr>"
    and "fst (fst (str_replace r t)) \<noteq> 0 \<Longrightarrow> snd (str_replace r t) = t"
proof -
  note acc = replace_decided [OF assms(1,2)]
  have one: "count_sub old s = 1 \<longleftrightarrow> (\<exists>p q. s = p @ old @ q) \<and> (\<nexists>a b c. s = a @ old @ b @ old @ c)"
    using count_zero [OF assms(3), of s] count_two [OF assms(3), of s] by (metis less_one linorder_neqE_nat)
  then show "fst (fst (str_replace r t)) = 0 \<longleftrightarrow> (\<exists>p q. s = p @ old @ q) \<and> (\<nexists>a b c. s = a @ old @ b @ old @ c)"
    using acc(1) by blast
  show "snd (str_replace r t) = t" if "fst (fst (str_replace r t)) \<noteq> 0"
    using that acc(1) by (intro acc(3)) simp
  assume "fst (fst (str_replace r t)) = 0"
  then have c: "count_sub old s = 1" using acc(1) by blast
  then obtain p q where f: "split_first old s = Some (p, q)"
    using one split_first_none [of old s] by (cases "split_first old s") auto
  with acc(2) [OF c] assms(4) split_first_sound [OF f]
  show "\<exists>p q. s = p @ old @ q \<and> snd (str_replace r t) = t\<lparr>ft_files := AList.update (or_else [] (er_path r)) (p @ new @ q) (ft_files t)\<rparr>"
    by (auto simp: replace_first_def)
qed

text \<open>A replacement is performed exactly when its target occurs in the file and no two disjoint occurrences do;
  then the text around the occurrence is kept and only it is exchanged, and otherwise nothing changes.
\<close>

theorem str_replace_unique:
  assumes "map_of (ft_files t) (or_else [] (er_path r)) = Some s" "or_else [] (er_old r) = old" "old \<noteq> []"
    "or_else [] (er_new r) = new"
  shows "(fst (fst (str_replace r t)) = 0 \<longleftrightarrow> (\<exists>p q. s = p @ old @ q) \<and> (\<nexists>a b c. s = a @ old @ b @ old @ c))
    \<and> (if fst (fst (str_replace r t)) = 0
        then \<exists>p q. s = p @ old @ q \<and> snd (str_replace r t) = t\<lparr>ft_files := AList.update (or_else [] (er_path r)) (p @ new @ q) (ft_files t)\<rparr>
        else snd (str_replace r t) = t)"
  using replace_unique_parts [OF assms] by simp

definition demo_replace :: edit_req where
  "demo_replace = an_edit ''str_replace'' ''a.py'' \<lparr>er_old := Some ''1'', er_new := Some ''22''\<rparr>"

lemma demo_replaced: "fst (fst (str_replace demo_replace demo_tree)) = 0"
  by code_simp

theorem str_replace_unique_witness:
  "(\<exists>p q. ''x = 1'' = p @ ''1'' @ q \<and> snd (str_replace demo_replace demo_tree)
      = demo_tree\<lparr>ft_files := AList.update ''a.py'' (p @ ''22'' @ q) (ft_files demo_tree)\<rparr>)
    \<and> (\<nexists>a b c. ''x = 1'' = a @ ''1'' @ b @ ''1'' @ c)"
proof -
  have h: "map_of (ft_files demo_tree) (or_else [] (er_path demo_replace)) = Some ''x = 1''"
    "or_else [] (er_old demo_replace) = ''1''" "''1'' \<noteq> []" "or_else [] (er_new demo_replace) = ''22''"
    "or_else [] (er_path demo_replace) = ''a.py''"
    by (simp_all add: demo_tree_def demo_replace_def an_edit_def or_else_def)
  show ?thesis
    using str_replace_unique [OF h(1-4)] demo_replaced unfolding h(5) by simp
qed

text \<open>
  Occurrences are counted without overlap: a target that matches at two overlapping places counts as unique, and
  the first is replaced.
\<close>

lemma overlapping_matches_replaced:
  "(\<exists>p q. ''ababa'' = p @ ''aba'' @ q \<and> p = []) \<and> (\<exists>p q. ''ababa'' = p @ ''aba'' @ q \<and> p = ''ab'')
    \<and> count_sub ''aba'' ''ababa'' = 1 \<and> replace_first ''aba'' ''c'' ''ababa'' = ''cba''"
proof -
  have "count_sub ''aba'' ''ababa'' = 1 \<and> replace_first ''aba'' ''c'' ''ababa'' = ''cba''" by code_simp
  then show ?thesis by simp
qed

text \<open>Lines and text: splitting loses nothing, and a created file is shown line by line.\<close>

lemma split_lines_ne [simp]: "split_lines s \<noteq> []"
  by (induction s) (auto split: list.splits)

lemma join_split [simp]: "join_lines (split_lines s) = s"
proof (induction s)
  case Nil then show ?case by (simp add: join_lines_def)
next
  case (Cons c cs)
  obtain l ls where s: "split_lines cs = l # ls" by (cases "split_lines cs") auto
  with Cons show ?case by (cases ls) (auto simp: join_lines_def)
qed

lemma slice_insert_at: "0 \<le> k \<Longrightarrow> k \<le> int (length xs) \<Longrightarrow> slice_insert k ins xs = take (nat k) xs @ ins @ drop (nat k) xs"
  by (simp add: slice_insert_def Let_def min_def)

end
