(* ===== verification/SpecExec.thy ===== *)
theory SpecExec imports Editor begin

text \<open>
  Speculative test execution, \<^verbatim>\<open>experiments/speculative-tool-exec/replay.py\<close>: the command classifiers and the replay of
  recorded trajectories. Regular expressions are backtracking matchers on ASCII text. The container is a parameter: \<open>bx_run\<close> is a command under the
  five-minute limit both a speculative and a real run have, with the state it leaves the tree in; a
  speculative run's changes are taken to land when it is launched. Starting and stopping containers is not modelled.
\<close>

section \<open>Regular expressions\<close>

text \<open>A position is the character before it and the rest; a pattern lists where its matches end, preferred first.\<close>

type_synonym pos = "char option \<times> string"
type_synonym pat = "pos \<Rightarrow> pos list"

definition p_chr :: "(char \<Rightarrow> bool) \<Rightarrow> pat" where
  "p_chr P x = (case snd x of [] \<Rightarrow> [] | c # cs \<Rightarrow> if P c then [(Some c, cs)] else [])"

fun p_lit :: "string \<Rightarrow> pat" where
  "p_lit [] x = [x]"
| "p_lit (c # cs) x = (case snd x of [] \<Rightarrow> [] | d # ds \<Rightarrow> if d = c then p_lit cs (Some d, ds) else [])"

fun p_seq :: "pat list \<Rightarrow> pat" where
  "p_seq [] x = [x]"
| "p_seq (m # ms) x = concat (map (p_seq ms) (m x))"

definition p_alt :: "pat list \<Rightarrow> pat" where
  "p_alt ms x = concat (map (\<lambda>m. m x) ms)"

definition p_opt :: "pat \<Rightarrow> pat" where
  "p_opt m x = m x @ [x]"

fun p_star :: "(char \<Rightarrow> bool) \<Rightarrow> pat" where
  "p_star P (pr, []) = [(pr, [])]"
| "p_star P (pr, c # cs) = (if P c then p_star P (Some c, cs) else []) @ [(pr, c # cs)]"

definition p_plus :: "(char \<Rightarrow> bool) \<Rightarrow> pat" where
  "p_plus P = p_seq [p_chr P, p_star P]"

definition p_bol :: pat where
  "p_bol x = (if fst x = None then [x] else [])"

definition p_wb :: pat where
  "p_wb x = (if (case fst x of None \<Rightarrow> False | Some c \<Rightarrow> word_char c) \<noteq> (snd x \<noteq> [] \<and> word_char (hd (snd x)))
     then [x] else [])"

definition p_not_ahead :: "(char \<Rightarrow> bool) \<Rightarrow> pat" where
  "p_not_ahead P x = (if snd x \<noteq> [] \<and> P (hd (snd x)) then [] else [x])"

fun p_search :: "pat \<Rightarrow> char option \<Rightarrow> string \<Rightarrow> bool" where
  "p_search m pr [] \<longleftrightarrow> m (pr, []) \<noteq> []"
| "p_search m pr (c # cs) \<longleftrightarrow> m (pr, c # cs) \<noteq> [] \<or> p_search m (Some c) cs"

definition re_search :: "pat \<Rightarrow> string \<Rightarrow> bool" where
  "re_search m s = p_search m None s"

definition re_match :: "pat \<Rightarrow> string \<Rightarrow> bool" where
  "re_match m s \<longleftrightarrow> m (None, s) \<noteq> []"

text \<open>\<^verbatim>\<open>re.sub\<close> of every match by a function of the matched text.\<close>

function p_sub :: "pat \<Rightarrow> (string \<Rightarrow> string) \<Rightarrow> char option \<Rightarrow> string \<Rightarrow> string" where
  "p_sub m f pr [] = []"
| "p_sub m f pr (c # cs) = (case m (pr, c # cs) of
      x # _ \<Rightarrow> if length (snd x) \<le> length cs
        then f (take (Suc (length cs) - length (snd x)) (c # cs)) @ p_sub m f (fst x) (snd x)
        else c # p_sub m f (Some c) cs
    | [] \<Rightarrow> c # p_sub m f (Some c) cs)"
  by pat_completeness auto
termination by (relation "measure (\<lambda>(m, f, pr, s). length s)") auto

definition digit_char :: "char \<Rightarrow> bool" where
  "digit_char c = code_in 48 57 c"

definition hex_char :: "char \<Rightarrow> bool" where
  "hex_char c \<longleftrightarrow> code_in 48 57 c \<or> code_in 65 70 c \<or> code_in 97 102 c"

abbreviation (input) p_ws :: pat where "p_ws \<equiv> p_star ws_char"
abbreviation (input) p_ws1 :: pat where "p_ws1 \<equiv> p_plus ws_char"
abbreviation (input) p_word1 :: pat where "p_word1 \<equiv> p_plus (\<lambda>c. \<not> ws_char c)"

section \<open>Classifying commands\<close>

definition python_name :: pat where
  "python_name = p_seq [p_lit ''python'', p_star (\<lambda>c. digit_char c \<or> c = CHR ''.''), p_ws1]"

definition TESTISH :: pat where
  "TESTISH = p_seq [p_alt [p_bol, p_seq [p_lit ''&&'', p_ws], p_seq [p_lit '';'', p_ws]],
     p_alt [p_seq [python_name, p_alt [p_seq [p_lit ''-m'', p_ws1, p_lit ''pytest''],
              p_seq [p_lit ''-m'', p_ws1, p_lit ''unittest''], p_seq [p_word1, p_lit ''.py'']]],
       p_lit ''pytest'', p_lit ''py.test'', p_seq [p_lit ''tox'', p_wb], p_seq [p_lit ''make'', p_ws1, p_lit ''test''],
       p_seq [p_lit ''npm'', p_ws1, p_lit ''test''], p_seq [p_lit ''cargo'', p_ws1, p_lit ''test''],
       p_seq [p_lit ''go'', p_ws1, p_lit ''test'']]]"

definition UNSAFE :: pat where
  "UNSAFE = p_alt [p_seq [p_wb, p_lit ''rm'', p_wb],
     p_seq [p_wb, p_lit ''git'', p_ws1, p_alt (map p_lit [''checkout'', ''reset'', ''stash'', ''apply'', ''commit'', ''add'', ''clean'', ''revert''])],
     p_seq [p_lit ''pip'', p_ws1, p_lit ''install''], p_seq [p_lit ''sed'', p_ws1, p_lit ''-i''],
     p_seq [p_wb, p_lit ''tee'', p_wb], p_seq [p_wb, p_lit ''mv'', p_wb], p_seq [p_wb, p_lit ''cp'', p_wb],
     p_seq [p_lit ''>'', p_ws, p_not_ahead (\<lambda>c. c = CHR ''&''),
       p_chr (\<lambda>c. c \<noteq> CHR ''&'' \<and> c \<noteq> CHR ''|'' \<and> \<not> ws_char c)],
     p_seq [p_wb, p_lit ''mkdir'', p_wb], p_seq [p_wb, p_lit ''touch'', p_wb], p_seq [p_wb, p_lit ''chmod'', p_wb],
     p_seq [p_wb, p_lit ''patch'', p_wb]]"

definition READONLY_BASH :: pat where
  "READONLY_BASH = p_seq [p_bol, p_ws, p_opt (p_seq [p_lit ''cd'', p_ws1, p_word1, p_ws, p_lit ''&&'', p_ws]),
     p_alt (map p_lit [''cat'', ''ls'', ''grep'', ''rg'', ''find'', ''head'', ''tail'', ''wc'', ''pwd'', ''which'', ''tree'', ''stat'']
       @ [p_seq [p_lit ''git'', p_ws1, p_alt (map p_lit [''status'', ''diff'', ''log'', ''show'', ''branch''])],
          p_seq [p_lit ''sed'', p_ws1, p_lit ''-n''], p_lit ''nl'',
          p_seq [p_lit ''echo'', p_ws1, p_star (\<lambda>c. c \<noteq> CHR ''>'')],
          p_seq [python_name, p_lit ''-c'', p_ws1, p_chr (\<lambda>c. c = CHR 0x27 \<or> c = CHR 0x22), p_lit ''print'']])]"

definition CD_HOP :: pat where
  "CD_HOP = p_seq [p_bol, p_ws, p_lit ''cd'', p_ws1, p_alt [p_lit ''.'', p_seq [p_lit ''/testbed'', p_opt (p_lit ''/'')]],
     p_ws, p_alt [p_lit ''&&'', p_lit '';''], p_ws]"

definition canon :: "string option \<Rightarrow> string" where
  "canon cmd = strip_ws (collapse_ws (p_sub CD_HOP (\<lambda>w. []) None (strip_ws (or_else [] cmd))))"

definition same_cmd :: "string option \<Rightarrow> string option \<Rightarrow> bool" where
  "same_cmd a b \<longleftrightarrow> (case (a, b) of (Some x, Some y) \<Rightarrow> strip_ws x = strip_ws y \<or> canon a = canon b | _ \<Rightarrow> False)"

definition is_testish :: "string \<Rightarrow> bool" where
  "is_testish cmd \<longleftrightarrow> re_search TESTISH cmd \<and> \<not> re_search UNSAFE cmd"

definition is_readonly :: "string \<Rightarrow> edit_req \<Rightarrow> bool" where
  "is_readonly name args = (if name = ''str_replace_editor'' then er_command args = Some ''view'' else
     (let cmd = strip_ws (or_else [] (er_command args)) in re_match READONLY_BASH cmd \<and> \<not> re_search UNSAFE cmd))"

text \<open>\<^verbatim>\<open>norm\<close>: timings, addresses, temporary paths, clock times and trailing space are made alike.\<close>

definition p_eol :: pat where
  "p_eol x = (if snd x = [] \<or> hd (snd x) = CHR 0x0A then [x] else [])"

definition verdict_words :: "string list" where
  "verdict_words = [''passed'', ''failed'', ''error'', ''skipped'', ''warning'']"

definition replace_all :: "pat \<Rightarrow> (string \<Rightarrow> string) \<Rightarrow> string \<Rightarrow> string" where
  "replace_all m f s = p_sub m f None s"

definition norm_text :: "string \<Rightarrow> string" where
  "norm_text s = (let dig2 = p_seq [p_chr digit_char, p_chr digit_char];
     s1 = replace_all (p_seq [p_plus digit_char, p_lit ''.'', p_plus digit_char, p_lit ''s'', p_wb]) (\<lambda>w. ''Xs'') s;
     s2 = replace_all (p_seq [p_lit ''0x'', p_plus hex_char]) (\<lambda>w. ''0xX'') s1;
     s3 = replace_all (p_seq [p_lit ''/tmp/'', p_plus (\<lambda>c. word_char c \<or> c \<in> set ''./-'')]) (\<lambda>w. ''/tmp/X'') s2;
     s4 = replace_all (p_seq [p_wb, dig2, p_lit '':'', dig2, p_lit '':'', dig2, p_wb]) (\<lambda>w. ''HH:MM:SS'') s3;
     s5 = replace_all (p_seq [p_alt (map p_lit verdict_words), p_opt (p_lit ''s''), p_lit '' in '',
            p_plus (\<lambda>c. digit_char c \<or> c = CHR ''.''), p_lit ''s''])
          (\<lambda>w. (case filter (\<lambda>v. starts_with v w) verdict_words of v # _ \<Rightarrow> v | [] \<Rightarrow> []) @ '' in Xs'') s4;
     s6 = replace_all (p_seq [p_plus ws_char, p_eol]) (\<lambda>w. []) s5
     in strip_ws s6)"

section \<open>The container\<close>

text \<open>What a command writes is a list of chunks, marked when on the error stream; \<open>oc_partial\<close> is what a killed run has written.\<close>

record outcome =
  oc_rc :: nat
  oc_chunks :: "(bool \<times> string) list"
  oc_secs :: rat
  oc_partial :: string

record 'w box =
  bx_run :: "string \<Rightarrow> 'w \<Rightarrow> outcome \<times> 'w"
  bx_editor :: "edit_req \<Rightarrow> 'w \<Rightarrow> (nat \<times> string \<times> rat) \<times> 'w"
  bx_print :: "'w \<Rightarrow> string"
  bx_status :: "'w \<Rightarrow> string list"

text \<open>\<^verbatim>\<open>exec\<close> returns the output stream followed by the error stream.\<close>

definition real_out :: "outcome \<Rightarrow> string" where
  "real_out oc = concat (map snd (filter (\<lambda>c. \<not> fst c) (oc_chunks oc))) @ concat (map snd (filter fst (oc_chunks oc)))"

text \<open>A speculative run writes both streams to one file, as they come.\<close>

definition spec_out :: "outcome \<Rightarrow> string" where
  "spec_out oc = concat (map snd (oc_chunks oc))"

definition exec :: "'w box \<Rightarrow> string \<Rightarrow> 'w \<Rightarrow> (nat \<times> string \<times> rat) \<times> 'w" where
  "exec bx cmd w = (case bx_run bx cmd w of (oc, w') \<Rightarrow> ((oc_rc oc, real_out oc, oc_secs oc), w'))"

text \<open>The exit code is missing when the run was killed, and \<^verbatim>\<open>cat\<close> complains.\<close>

definition spec_result :: "bool \<Rightarrow> outcome \<Rightarrow> nat option \<times> string" where
  "spec_result finished oc = (if finished then (Some (oc_rc oc), spec_out oc)
     else (None, oc_partial oc @ ''cat: /tmp/spec.rc: No such file or directory'' @ [CHR 0x0A]))"

record pending_run =
  pd_cmd :: string
  pd_t0 :: rat
  pd_tag :: string
  pd_outcome :: outcome

text \<open>
  Waiting for a speculative run that started at \<open>t0\<close> and takes \<open>dur\<close>: look every \<open>gap\<close> seconds from \<open>t\<close> on, and
  kill it once \<open>limit\<close> seconds have passed since it started.
\<close>

function await :: "rat \<Rightarrow> rat \<Rightarrow> rat \<Rightarrow> rat \<Rightarrow> rat \<Rightarrow> rat \<times> bool" where
  "await gap limit t0 dur t = (if t0 + dur \<le> t then (t, True)
     else if t - t0 > limit \<or> gap \<le> 0 then (t, False) else await gap limit t0 dur (t + gap))"
  by pat_completeness auto
termination
proof (relation "measure (\<lambda>(gap, limit, t0, dur, t). nat (\<lfloor>(limit + t0 - t) / gap\<rfloor> + 1))", goal_cases)
  case (2 gap limit t0 dur t)
  then have g: "0 < gap" and x: "0 \<le> (limit + t0 - t) / gap" by auto
  have "(limit + t0 - (t + gap)) / gap = (limit + t0 - t) / gap - 1" using g by (simp add: field_simps)
  then have "\<lfloor>(limit + t0 - (t + gap)) / gap\<rfloor> = \<lfloor>(limit + t0 - t) / gap\<rfloor> - 1" by simp
  with x show ?case by simp
qed simp

declare await.simps [simp del]

lemma await_le: "0 < gap \<Longrightarrow> t \<le> fst (await gap limit t0 dur t)"
proof (induction gap limit t0 dur t rule: await.induct)
  case (1 gap limit t0 dur t)
  then show ?case
    using await.simps [of gap limit t0 dur t] by (fastforce split: if_splits)
qed

lemma await_finishes:
  assumes "0 < gap" "dur \<le> limit" shows "snd (await gap limit t0 dur t)"
  using assms
proof (induction gap limit t0 dur t rule: await.induct)
  case (1 gap limit t0 dur t)
  then show ?case
    using await.simps [of gap limit t0 dur t] by (auto split: if_splits)
qed

section \<open>Edits\<close>

definition is_created :: "string \<Rightarrow> bool" where
  "is_created l \<longleftrightarrow> starts_with ''??'' l \<or> starts_with ''A '' l"

text \<open>The kinds of the lines that are new in the status; no new line counts as a modification.\<close>

definition edit_kind :: "string list \<Rightarrow> string list \<Rightarrow> string" where
  "edit_kind old new = (let added = filter (\<lambda>l. l \<notin> set old) new in
     if added \<noteq> [] \<and> list_all is_created added then ''created''
     else if list_all (\<lambda>l. \<not> is_created l) added then ''modified'' else ''mixed'')"

section \<open>Replaying a trajectory\<close>

record tool_call =
  tc_id :: string
  tc_name :: string
  tc_args :: edit_req

datatype recorded = Assistant "tool_call list" | ToolResult string string | OtherRole

text \<open>A call counts once its result was recorded, in the order of the results.\<close>

definition parse_step :: "recorded \<Rightarrow> (string, tool_call) dict \<times> tool_call list \<Rightarrow> (string, tool_call) dict \<times> tool_call list" where
  "parse_step m st = (case m of
     Assistant tcs \<Rightarrow> (fold (\<lambda>c d. AList.update (tc_id c) c d) tcs (fst st), snd st)
   | ToolResult i r \<Rightarrow> (case map_of (fst st) i of None \<Rightarrow> st | Some c \<Rightarrow> (AList.delete i (fst st), snd st @ [c]))
   | OtherRole \<Rightarrow> st)"

definition parse_calls :: "recorded list \<Rightarrow> tool_call list" where
  "parse_calls traj = snd (fold parse_step traj ([], []))"

record call_entry =
  ce_cmd :: "string option"
  ce_readonly :: bool
  ce_rc :: nat
  ce_secs :: rat
  ce_testish :: bool
  ce_changed :: bool

datatype spec_event =
    Launch nat string string
  | Hit nat string bool rat rat bool bool bool "rat list"
  | Miss nat string "string option" rat

fun is_launch :: "spec_event \<Rightarrow> bool" where "is_launch (Launch i c k) = True" | "is_launch _ = False"
fun is_hit :: "spec_event \<Rightarrow> bool" where "is_hit (Hit i c m D dt n x s v) = True" | "is_hit _ = False"
fun is_miss :: "spec_event \<Rightarrow> bool" where "is_miss (Miss i c nx w) = True" | "is_miss _ = False"

record 'w replay =
  rs_world :: 'w
  rs_print :: string
  rs_status :: "string list"
  rs_last :: "string option"
  rs_pending :: "pending_run option"
  rs_clock :: rat
  rs_calls :: "call_entry list"
  rs_events :: "spec_event list"

text \<open>The shell command of a call, absent for the editor tool, and what a miss names as the next action.\<close>

definition shell_cmd :: "tool_call \<Rightarrow> string option" where
  "shell_cmd c = (if tc_name c = ''str_replace_editor'' then None else Some (strip_ws (or_else [] (er_command (tc_args c)))))"

definition truthy :: "string option \<Rightarrow> bool" where
  "truthy s \<longleftrightarrow> s \<noteq> None \<and> s \<noteq> Some []"

definition next_action :: "string option \<Rightarrow> tool_call \<Rightarrow> string option" where
  "next_action cmd c = (if truthy cmd then cmd else er_command (tc_args c))"

text \<open>The result is there when the trajectory's next state-changing action is the command that was speculated on.\<close>

definition replay_hit :: "'w box \<Rightarrow> rat list \<Rightarrow> nat \<Rightarrow> string \<Rightarrow> pending_run \<Rightarrow> 'w replay \<Rightarrow> 'w replay" where
  "replay_hit bx mts i cmd p st = (let (t_done, fin) = await (1/2) 300 (pd_t0 p) (oc_secs (pd_outcome p)) (rs_clock st);
     D = t_done - pd_t0 p; so = snd (spec_result fin (pd_outcome p)); ((rc, outp, dt), w) = exec bx cmd (rs_world st);
     ns = norm_text so; nr = norm_text outp in
     st\<lparr>rs_world := w, rs_print := bx_print bx w, rs_last := Some cmd, rs_pending := None, rs_clock := t_done + dt,
       rs_calls := rs_calls st @ [\<lparr>ce_cmd = Some cmd, ce_readonly = False, ce_rc = rc, ce_secs = dt, ce_testish = False, ce_changed = False\<rparr>],
       rs_events := rs_events st @ [Hit i cmd (strip_ws cmd = strip_ws (pd_cmd p)) D dt (ns = nr) (so = outp)
         (mset (split_lines ns) = mset (split_lines nr)) (map (min D) mts)]\<rparr>)"

definition replay_miss :: "nat \<Rightarrow> string option \<Rightarrow> 'w replay \<Rightarrow> 'w replay" where
  "replay_miss i nx st = (case rs_pending st of None \<Rightarrow> st
     | Some p \<Rightarrow> st\<lparr>rs_pending := None, rs_events := rs_events st @ [Miss i (pd_cmd p) nx (rs_clock st - pd_t0 p)]\<rparr>)"

text \<open>The real call, the detection of an edit, and the launch of the last test after it.\<close>

definition replay_exec :: "'w box \<Rightarrow> nat \<Rightarrow> tool_call \<Rightarrow> 'w replay \<Rightarrow> 'w replay" where
  "replay_exec bx i c st = (let cmd = shell_cmd c; ro = is_readonly (tc_name c) (tc_args c);
     ((rc, outp, dt), w) = (case cmd of None \<Rightarrow> bx_editor bx (tc_args c) (rs_world st) | Some s \<Rightarrow> exec bx s (rs_world st));
     tst = (truthy cmd \<and> is_testish (or_else [] cmd)); lst = (if tst then cmd else rs_last st);
     fp = (if ro then rs_print st else bx_print bx w); ch = (\<not> ro \<and> fp \<noteq> rs_print st);
     kind = edit_kind (rs_status st) (bx_status bx w);
     go = (ch \<and> truthy lst \<and> \<not> (truthy cmd \<and> same_cmd cmd lst) \<and> rc = 0
       \<or> ch \<and> truthy lst \<and> tc_name c = ''str_replace_editor'' \<and> rc = 0);
     st1 = st\<lparr>rs_world := w, rs_print := fp, rs_status := (if ch then bx_status bx w else rs_status st), rs_last := lst,
       rs_clock := rs_clock st + dt, rs_calls := rs_calls st @ [\<lparr>ce_cmd = next_action cmd c, ce_readonly = ro, ce_rc = rc,
         ce_secs = dt, ce_testish = tst, ce_changed = ch\<rparr>]\<rparr> in
     if go then (let target = or_else [] lst; (oc, w') = bx_run bx target w in
       st1\<lparr>rs_world := w', rs_pending := Some \<lparr>pd_cmd = target, pd_t0 = rs_clock st1, pd_tag = kind, pd_outcome = oc\<rparr>,
         rs_events := rs_events st1 @ [Launch i target kind]\<rparr>)
     else st1)"

definition replay_call :: "'w box \<Rightarrow> rat list \<Rightarrow> nat \<times> tool_call \<Rightarrow> 'w replay \<Rightarrow> 'w replay" where
  "replay_call bx mts ic st = (let (i, c) = ic; cmd = shell_cmd c in
     case rs_pending st of
       Some p \<Rightarrow> if is_readonly (tc_name c) (tc_args c) then replay_exec bx i c st
         else if same_cmd cmd (Some (pd_cmd p)) then replay_hit bx mts i (or_else [] cmd) p st
         else replay_exec bx i c (replay_miss i (next_action cmd c) st)
     | None \<Rightarrow> replay_exec bx i c st)"

definition replay_start :: "'w box \<Rightarrow> 'w \<Rightarrow> 'w replay" where
  "replay_start bx w = \<lparr>rs_world = w, rs_print = bx_print bx w, rs_status = bx_status bx w, rs_last = None,
     rs_pending = None, rs_clock = 0, rs_calls = [], rs_events = []\<rparr>"

definition replay_session :: "'w box \<Rightarrow> rat list \<Rightarrow> nat \<Rightarrow> recorded list \<Rightarrow> 'w \<Rightarrow> 'w replay" where
  "replay_session bx mts max_calls traj w = (let calls = take max_calls (parse_calls traj) in
     replay_miss (length calls) (Some ''<end>'') (fold (replay_call bx mts) (enumerate 0 calls) (replay_start bx w)))"

record replay_summary =
  sy_calls :: nat
  sy_launches :: nat
  sy_hits :: nat
  sy_misses :: nat
  sy_equal :: nat
  sy_tool :: rat
  sy_testish :: rat
  sy_saved :: "rat list"

fun hit_equal :: "spec_event \<Rightarrow> bool" where "hit_equal (Hit i c m D dt n x s v) = n" | "hit_equal _ = False"
fun hit_saved :: "nat \<Rightarrow> spec_event \<Rightarrow> rat" where "hit_saved k (Hit i c m D dt n x s v) = v ! k" | "hit_saved k _ = 0"

definition summarize :: "rat list \<Rightarrow> 'w replay \<Rightarrow> replay_summary" where
  "summarize mts st = (let ev = rs_events st in
     \<lparr>sy_calls = length (rs_calls st), sy_launches = length (filter is_launch ev), sy_hits = length (filter is_hit ev),
      sy_misses = length (filter is_miss ev), sy_equal = length (filter hit_equal ev),
      sy_tool = sum_list (map ce_secs (rs_calls st)), sy_testish = sum_list (map ce_secs (filter ce_testish (rs_calls st))),
      sy_saved = map (\<lambda>k. sum_list (map (hit_saved k) ev)) [0..<length mts]\<rparr>)"

section \<open>Every launch is resolved once\<close>

text \<open>The command being speculated on after an event, \<^const>\<open>None\<close> when the event is out of place.\<close>

definition pair_step :: "string option option \<Rightarrow> spec_event \<Rightarrow> string option option" where
  "pair_step s e = (case (s, e) of
     (Some None, Launch i c k) \<Rightarrow> Some (Some c)
   | (Some (Some c), Hit i cmd m D dt n x z v) \<Rightarrow> if same_cmd (Some cmd) (Some c) then Some None else None
   | (Some (Some c), Miss i c' nx w) \<Rightarrow> if c' = c then Some None else None
   | _ \<Rightarrow> None)"

definition pairing :: "spec_event list \<Rightarrow> string option option" where
  "pairing es = foldl pair_step (Some None) es"

lemma pairing_simps [simp]: "pairing [] = Some None" "pairing (es @ [e]) = pair_step (pairing es) e"
  by (simp_all add: pairing_def)

lemma pair_step_cases: "pair_step s e = Some p \<longleftrightarrow>
    s = Some None \<and> (\<exists>i c k. e = Launch i c k \<and> p = Some c)
    \<or> (\<exists>c i cmd m D dt n x z v. s = Some (Some c) \<and> e = Hit i cmd m D dt n x z v \<and> same_cmd (Some cmd) (Some c) \<and> p = None)
    \<or> (\<exists>c i nx w. s = Some (Some c) \<and> e = Miss i c nx w \<and> p = None)"
  by (auto simp: pair_step_def split: option.splits spec_event.splits if_splits)

lemma pairing_counts:
  "pairing es = Some p \<Longrightarrow> length (filter is_launch es)
    = length (filter is_hit es) + length (filter is_miss es) + (if p = None then 0 else 1)"
proof (induction es arbitrary: p rule: rev_induct)
  case Nil then show ?case by simp
next
  case (snoc e es)
  then have "pair_step (pairing es) e = Some p" by simp
  then obtain q where q: "pairing es = Some q" "pair_step (Some q) e = Some p" by (cases "pairing es") (auto simp: pair_step_cases)
  from snoc.IH [OF q(1)] q(2) show ?case by (auto simp: pair_step_cases)
qed

definition replay_paired :: "'w replay \<Rightarrow> bool" where
  "replay_paired st \<longleftrightarrow> pairing (rs_events st) = Some (map_option pd_cmd (rs_pending st))"

lemma replay_miss_paired: "replay_paired st \<Longrightarrow> replay_paired (replay_miss i nx st) \<and> rs_pending (replay_miss i nx st) = None
    \<and> rs_calls (replay_miss i nx st) = rs_calls st"
  by (auto simp: replay_paired_def replay_miss_def pair_step_def split: option.splits)

lemma replay_exec_paired:
  "replay_paired st \<Longrightarrow> rs_pending st = None \<or> is_readonly (tc_name c) (tc_args c) \<Longrightarrow> replay_paired (replay_exec bx i c st)
    \<and> length (rs_calls (replay_exec bx i c st)) = Suc (length (rs_calls st))"
  by (auto simp: replay_paired_def replay_exec_def Let_def pair_step_def split: prod.splits option.splits)

lemma replay_hit_paired:
  "replay_paired st \<Longrightarrow> rs_pending st = Some p \<Longrightarrow> same_cmd (Some cmd) (Some (pd_cmd p)) \<Longrightarrow>
    replay_paired (replay_hit bx mts i cmd p st) \<and> length (rs_calls (replay_hit bx mts i cmd p st)) = Suc (length (rs_calls st))"
  by (auto simp: replay_paired_def replay_hit_def Let_def pair_step_def split: prod.splits)

lemma replay_call_paired:
  assumes "replay_paired st"
  shows "replay_paired (replay_call bx mts ic st) \<and> length (rs_calls (replay_call bx mts ic st)) = Suc (length (rs_calls st))"
proof -
  obtain i c where ic: "ic = (i, c)" by (cases ic)
  have cmd: "shell_cmd c = Some (or_else [] (shell_cmd c))" if "same_cmd (shell_cmd c) x" for x
    using that by (cases "shell_cmd c") (auto simp: same_cmd_def or_else_def)
  show ?thesis
  proof (cases "rs_pending st")
    case None
    then show ?thesis using replay_exec_paired [OF assms] by (simp add: replay_call_def ic)
  next
    case (Some p)
    let ?nx = "next_action (shell_cmd c) c"
    consider "is_readonly (tc_name c) (tc_args c)" | "\<not> is_readonly (tc_name c) (tc_args c)" "same_cmd (shell_cmd c) (Some (pd_cmd p))"
      | "\<not> is_readonly (tc_name c) (tc_args c)" "\<not> same_cmd (shell_cmd c) (Some (pd_cmd p))" by blast
    then show ?thesis
    proof cases
      case 1
      then show ?thesis using replay_exec_paired [OF assms, of c] Some by (simp add: replay_call_def ic)
    next
      case 2
      with cmd have "same_cmd (Some (or_else [] (shell_cmd c))) (Some (pd_cmd p))" by metis
      with replay_hit_paired [OF assms Some] 2 Some show ?thesis by (simp add: replay_call_def ic)
    next
      case 3
      with replay_miss_paired [OF assms, of i ?nx] replay_exec_paired [of "replay_miss i ?nx st" c bx i] Some
      show ?thesis by (simp add: replay_call_def ic)
    qed
  qed
qed

lemma replay_fold_paired:
  "replay_paired st \<Longrightarrow> replay_paired (fold (replay_call bx mts) ics st)
    \<and> length (rs_calls (fold (replay_call bx mts) ics st)) = length (rs_calls st) + length ics"
proof (induction ics arbitrary: st)
  case (Cons ic ics)
  note c = replay_call_paired [OF Cons.prems, of bx mts ic]
  from Cons.IH [OF conjunct1 [OF c]] c show ?case by simp
qed simp

lemma hits_equal_le: "length (filter hit_equal es) \<le> length (filter is_hit es)"
proof -
  have "hit_equal e \<Longrightarrow> is_hit e" for e by (cases e) auto
  then show ?thesis by (induction es) auto
qed

text \<open>C33. The replay's counts are an account of the policy. Whatever the trajectory and the container do, launches
  and resolutions alternate: every launch is resolved exactly once, before the next one, as a hit by a command
  that is the same up to spacing and a leading change of directory, or as a miss of that very command; so the
  summary's launches are its hits plus its misses, its calls are those replayed, and validated hits are hits.
\<close>

theorem replay_accounts:
  "pairing (rs_events (replay_session bx mts n traj w)) = Some None
    \<and> sy_launches (summarize mts (replay_session bx mts n traj w))
      = sy_hits (summarize mts (replay_session bx mts n traj w)) + sy_misses (summarize mts (replay_session bx mts n traj w))
    \<and> sy_calls (summarize mts (replay_session bx mts n traj w)) = min n (length (parse_calls traj))
    \<and> sy_equal (summarize mts (replay_session bx mts n traj w)) \<le> sy_hits (summarize mts (replay_session bx mts n traj w))"
proof -
  let ?cs = "take n (parse_calls traj)"
  let ?st = "fold (replay_call bx mts) (enumerate 0 ?cs) (replay_start bx w)"
  let ?fin = "replay_session bx mts n traj w"
  have e: "?fin = replay_miss (length ?cs) (Some ''<end>'') ?st" by (simp add: replay_session_def Let_def)
  have "replay_paired (replay_start bx w)" by (simp add: replay_paired_def replay_start_def)
  from replay_fold_paired [OF this, of bx mts "enumerate 0 ?cs"]
  have f: "replay_paired ?st" "length (rs_calls ?st) = min n (length (parse_calls traj))"
    by (auto simp: replay_start_def)
  from replay_miss_paired [OF f(1), of "length ?cs" "Some ''<end>''"]
  have m: "replay_paired ?fin" "rs_pending ?fin = None" "rs_calls ?fin = rs_calls ?st" unfolding e by auto
  then have p: "pairing (rs_events ?fin) = Some None" by (simp add: replay_paired_def)
  moreover from pairing_counts [OF p] have "sy_launches (summarize mts ?fin) = sy_hits (summarize mts ?fin) + sy_misses (summarize mts ?fin)"
    by (simp add: summarize_def Let_def)
  moreover have "sy_calls (summarize mts ?fin) = min n (length (parse_calls traj))" using f(2) m(3) by (simp add: summarize_def Let_def)
  moreover have "sy_equal (summarize mts ?fin) \<le> sy_hits (summarize mts ?fin)" using hits_equal_le by (simp add: summarize_def Let_def)
  ultimately show ?thesis by blast
qed

end
