(* ===== verification/LiveAgent.thy ===== *)
theory LiveAgent imports SpecExec begin

text \<open>
  The live coding agent, \<^verbatim>\<open>experiments/speculative-tool-exec/modal/live_agent_modal.py\<close>: the loop of model
  and tool calls over a sandbox, with speculation off or on. The client is a parameter indexed by how many
  times it was called, with its thinking time. A sandbox is the \<open>box\<close> of \<open>SpecExec\<close>. What is proved is that
  speculation changes nothing the model or the grader sees, for commands it is safe for, and what its
  counters mean. Booting the sandbox, token counts, grading and the job queue are not modelled.
\<close>

section \<open>Messages\<close>

datatype msg = SystemMsg string | UserMsg string | AsstMsg string "tool_call list" | ToolMsg string string

definition clip :: "nat \<Rightarrow> string \<Rightarrow> string" where
  "clip n s = (if length s \<le> n then s else take (n div 2) s @ [CHR 0x0A] @ ''...[truncated]...'' @ [CHR 0x0A]
     @ drop (length s - n div 2) s)"

definition MAX_TOOL_OUT :: nat where "MAX_TOOL_OUT = 12000"

definition predicted_after_create :: "string option \<Rightarrow> string option" where
  "predicted_after_create path = (if truthy path \<and> drop (length (or_else [] path) - 3) (or_else [] path) = ''.py''
     then Some (''cd /testbed && python '' @ or_else [] path) else None)"

text \<open>\<^verbatim>\<open>shrink_history\<close>: the long tool outputs but the last few, and whether there were any.\<close>

definition long_output :: "msg \<Rightarrow> bool" where
  "long_output m = (case m of ToolMsg i s \<Rightarrow> length s > 200 | _ \<Rightarrow> False)"

definition elided :: string where "elided = ''[earlier output elided to fit the context window]''"

definition shrink_history :: "nat \<Rightarrow> msg list \<Rightarrow> msg list \<times> bool" where
  "shrink_history keep ms = (let idx = filter (\<lambda>i. long_output (ms ! i)) [0..<length ms];
     cut = (if length idx > keep then take (length idx - keep) idx else []) in
     (map (\<lambda>(i, m). if i \<in> set cut then (case m of ToolMsg k s \<Rightarrow> ToolMsg k elided | _ \<Rightarrow> m) else m) (enumerate 0 ms), cut \<noteq> []))"

datatype api = Reply string "tool_call list" | ApiError string

type_synonym client = "nat \<Rightarrow> msg list \<Rightarrow> api \<times> rat"

definition context_overflow :: "string \<Rightarrow> bool" where
  "context_overflow e \<longleftrightarrow> occurs_in ''maximum context length'' e \<or> occurs_in ''context_length'' e \<or> occurs_in ''too long'' e"

text \<open>
  \<^verbatim>\<open>chat\<close> from one of its three attempts on: the reply (\<^const>\<open>None\<close> when the loop falls through) or the error it
  raises, the history, the number of client calls and the seconds spent. A failed attempt is followed by a pause of five
  seconds, a shortened history by none.
\<close>

type_synonym chat_result = "(string \<times> tool_call list) option result \<times> msg list \<times> nat \<times> rat"

function chat_from :: "nat \<Rightarrow> client \<Rightarrow> nat \<Rightarrow> msg list \<Rightarrow> rat \<Rightarrow> chat_result" where
  "chat_from att cl k ms secs = (if att \<ge> 3 then (Inr None, ms, k, secs) else
     (case cl k ms of
       (Reply s tcs, d) \<Rightarrow> (Inr (Some (s, tcs)), ms, Suc k, secs + d)
     | (ApiError e, d) \<Rightarrow>
         if context_overflow e \<and> snd (shrink_history 6 ms) then chat_from (Suc att) cl (Suc k) (fst (shrink_history 6 ms)) (secs + d)
         else if att = 2 then (Inl (RuntimeError e), ms, Suc k, secs + d)
         else chat_from (Suc att) cl (Suc k) ms (secs + d + 5)))"
  by pat_completeness auto
termination by (relation "measure (\<lambda>(att, cl, k, ms, secs). 3 - att)") auto

declare chat_from.simps [simp del]

definition chat :: "client \<Rightarrow> nat \<Rightarrow> msg list \<Rightarrow> chat_result" where
  "chat cl k ms = chat_from 0 cl k ms 0"

section \<open>One tool call\<close>

datatype agent_event =
    ALaunch nat string string
  | AHit nat string string rat rat rat
  | AMiss nat string string "string option" rat

record 'w agent =
  ag_world :: 'w
  ag_print :: string
  ag_status :: "string list"
  ag_last :: "string option"
  ag_pending :: "pending_run option"
  ag_clock :: rat
  ag_tool_s :: rat
  ag_events :: "agent_event list"
  ag_msgs :: "msg list"
  ag_submitted :: bool

definition bash_cmd :: "tool_call \<Rightarrow> string option" where
  "bash_cmd c = (if tc_name c = ''bash'' then Some (strip_ws (or_else [] (er_command (tc_args c)))) else None)"

definition call_readonly :: "tool_call \<Rightarrow> bool" where
  "call_readonly c = is_readonly (if tc_name c = ''str_replace_editor'' then ''str_replace_editor'' else ''bash'') (tc_args c)"

text \<open>A hit is served from the speculative run; the reply carries the seconds waited. A miss kills it.\<close>

definition resolve :: "nat \<Rightarrow> tool_call \<Rightarrow> 'w agent \<Rightarrow> (nat \<times> string \<times> rat) option \<times> 'w agent" where
  "resolve stp c st = (case ag_pending st of
     None \<Rightarrow> (None, st)
   | Some p \<Rightarrow> if call_readonly c then (None, st)
       else if same_cmd (bash_cmd c) (Some (pd_cmd p)) then
         (let t_req = ag_clock st; (t_done, fin) = await (3/10) 300 (pd_t0 p) (oc_secs (pd_outcome p)) t_req;
            D = t_done - pd_t0 p; wait = max 0 (t_done - t_req); (rc, so) = spec_result fin (pd_outcome p) in
          (Some (or_else 1 rc, so, wait),
           st\<lparr>ag_pending := None, ag_clock := t_done,
             ag_events := ag_events st @ [AHit stp (pd_tag p) (or_else [] (bash_cmd c)) D wait (max 0 (D - wait))]\<rparr>))
       else (None, st\<lparr>ag_pending := None, ag_events := ag_events st @
              [AMiss stp (pd_tag p) (pd_cmd p) (next_action (bash_cmd c) c) (ag_clock st - pd_t0 p)]\<rparr>))"

definition real_call :: "'w box \<Rightarrow> tool_call \<Rightarrow> 'w \<Rightarrow> (nat \<times> string \<times> rat) \<times> 'w" where
  "real_call bx c w = (case bash_cmd c of Some cmd \<Rightarrow> exec bx cmd w | None \<Rightarrow> bx_editor bx (tc_args c) w)"

text \<open>\<^verbatim>\<open>re.search(r">\s*(\S+\.py)\b", cmd)\<close>: the text of the group at the leftmost match.\<close>

definition py_target :: pat where
  "py_target = p_seq [p_word1, p_lit ''.py'', p_wb]"

fun redirect_target :: "char option \<Rightarrow> string \<Rightarrow> string option" where
  "redirect_target pr [] = None"
| "redirect_target pr (c # cs) = (case concat (map (\<lambda>x. map (\<lambda>y. take (length (snd x) - length (snd y)) (snd x)) (py_target x))
       (p_seq [p_lit ''>'', p_ws] (pr, c # cs))) of g # _ \<Rightarrow> Some g | [] \<Rightarrow> redirect_target (Some c) cs)"

text \<open>The rules: the last test after a modification, the file itself after its creation.\<close>

definition choose_target :: "string \<Rightarrow> tool_call \<Rightarrow> string option \<Rightarrow> string option \<times> string" where
  "choose_target kind c lst = (let cmd = bash_cmd c in
     if kind = ''modified'' \<and> truthy lst \<and> \<not> (truthy cmd \<and> same_cmd cmd lst) then (lst, ''A'')
     else if kind = ''created'' then
       (let path = (if tc_name c = ''str_replace_editor'' then er_path (tc_args c) else None);
          created = (if truthy path then path else redirect_target None (or_else [] cmd)) in
        (predicted_after_create created, ''B''))
     else (None, ''''))"

definition launch :: "'w box \<Rightarrow> nat \<Rightarrow> string option \<times> string \<Rightarrow> 'w agent \<Rightarrow> 'w agent" where
  "launch bx stp target st = (case target of (None, rule) \<Rightarrow> st
     | (Some cmd, rule) \<Rightarrow> (let (oc, w) = bx_run bx cmd (ag_world st) in
         st\<lparr>ag_world := w, ag_pending := Some \<lparr>pd_cmd = cmd, pd_t0 = ag_clock st, pd_tag = rule, pd_outcome = oc\<rparr>,
           ag_events := ag_events st @ [ALaunch stp rule cmd]\<rparr>))"

definition after_call :: "'w box \<Rightarrow> bool \<Rightarrow> nat \<Rightarrow> tool_call \<Rightarrow> nat \<Rightarrow> 'w agent \<Rightarrow> 'w agent" where
  "after_call bx spec stp c rc st = (if call_readonly c then st else
     (let fp = bx_print bx (ag_world st); ns = bx_status bx (ag_world st) in
      if fp = ag_print st then st else
        (let st1 = st\<lparr>ag_print := fp, ag_status := ns\<rparr> in
         if spec \<and> rc = 0 then launch bx stp (choose_target (edit_kind (ag_status st) ns) c (ag_last st)) st1 else st1)))"

definition tool_text :: "string \<Rightarrow> string" where
  "tool_text s = (let t = clip MAX_TOOL_OUT s in if t = [] then ''(no output)'' else t)"

definition handle_call :: "'w box \<Rightarrow> bool \<Rightarrow> nat \<Rightarrow> tool_call \<Rightarrow> 'w agent \<Rightarrow> 'w agent" where
  "handle_call bx spec stp c st =
    (if tc_name c = ''submit'' then st\<lparr>ag_submitted := True, ag_msgs := ag_msgs st @ [ToolMsg (tc_id c) ''submitted'']\<rparr> else
     (let (served, st1) = resolve stp c st;
        ((rc, outp, dt), w, t) = (case served of Some r \<Rightarrow> (r, ag_world st1, ag_clock st1)
          | None \<Rightarrow> (let (r, w) = real_call bx c (ag_world st1) in (r, w, ag_clock st1 + snd (snd r))));
        cmd = bash_cmd c;
        lst = (if truthy cmd \<and> is_testish (or_else [] cmd) then cmd else ag_last st1) in
      after_call bx spec stp c rc (st1\<lparr>ag_world := w, ag_clock := t, ag_tool_s := ag_tool_s st1 + dt, ag_last := lst,
        ag_msgs := ag_msgs st1 @ [ToolMsg (tc_id c) (tool_text outp)]\<rparr>)))"

fun handle_calls :: "'w box \<Rightarrow> bool \<Rightarrow> nat \<Rightarrow> tool_call list \<Rightarrow> 'w agent \<Rightarrow> 'w agent" where
  "handle_calls bx spec stp [] st = st"
| "handle_calls bx spec stp (c # cs) st = (let st1 = handle_call bx spec stp c st in
     if ag_submitted st1 then st1 else handle_calls bx spec stp cs st1)"

section \<open>The agent\<close>

text \<open>An exception ends the task; a chat that falls through raises on the missing reply.\<close>

fun run_steps :: "'w box \<Rightarrow> client \<Rightarrow> bool \<Rightarrow> nat \<Rightarrow> nat \<Rightarrow> nat \<Rightarrow> 'w agent \<Rightarrow> py_exc option \<times> 'w agent" where
  "run_steps bx cl spec 0 stp k st = (None, st)"
| "run_steps bx cl spec (Suc n) stp k st = (case chat cl k (ag_msgs st) of
     (Inl e, ms, k', d) \<Rightarrow> (Some e, st\<lparr>ag_msgs := ms\<rparr>)
   | (Inr None, ms, k', d) \<Rightarrow> (Some AttributeError, st\<lparr>ag_msgs := ms\<rparr>)
   | (Inr (Some (s, tcs)), ms, k', d) \<Rightarrow>
       (let st1 = st\<lparr>ag_msgs := ms @ [AsstMsg s tcs], ag_clock := ag_clock st + d\<rparr> in
        if tcs = [] then (None, st1) else
          (let st2 = handle_calls bx spec stp tcs st1 in
           if ag_submitted st2 then (None, st2) else run_steps bx cl spec n (Suc stp) k' st2)))"

record run_record =
  rr_error :: "py_exc option"
  rr_msgs :: "msg list"
  rr_patch :: string
  rr_submitted :: bool
  rr_launches :: nat
  rr_hits :: nat
  rr_misses :: nat
  rr_saved :: rat
  rr_wasted :: rat

fun a_launch :: "agent_event \<Rightarrow> bool" where "a_launch (ALaunch i r c) = True" | "a_launch _ = False"
fun a_hit :: "agent_event \<Rightarrow> bool" where "a_hit (AHit i r c D w s) = True" | "a_hit _ = False"
fun a_miss :: "agent_event \<Rightarrow> bool" where "a_miss (AMiss i r c n w) = True" | "a_miss _ = False"
fun a_saved :: "agent_event \<Rightarrow> rat" where "a_saved (AHit i r c D w s) = s" | "a_saved _ = 0"
fun a_wasted :: "agent_event \<Rightarrow> rat" where "a_wasted (AMiss i r c n w) = w" | "a_wasted _ = 0"

definition start_agent :: "'w box \<Rightarrow> string \<Rightarrow> string \<Rightarrow> rat \<Rightarrow> 'w \<Rightarrow> 'w agent" where
  "start_agent bx sys issue boot w = \<lparr>ag_world = w, ag_print = bx_print bx w, ag_status = bx_status bx w, ag_last = None,
     ag_pending = None, ag_clock = boot, ag_tool_s = 0, ag_events = [], ag_msgs = [SystemMsg sys, UserMsg issue], ag_submitted = False\<rparr>"

text \<open>The patch is the difference of the tree at the end; an exception leaves the record without one.\<close>

definition run_task :: "'w box \<Rightarrow> client \<Rightarrow> bool \<Rightarrow> nat \<Rightarrow> string \<Rightarrow> string \<Rightarrow> rat \<Rightarrow> ('w \<Rightarrow> string) \<Rightarrow> 'w \<Rightarrow> run_record" where
  "run_task bx cl spec max_steps sys issue boot diff w =
    (let (err, st) = run_steps bx cl spec max_steps 0 0 (start_agent bx sys issue boot w); ev = ag_events st in
     \<lparr>rr_error = err, rr_msgs = ag_msgs st, rr_patch = (if err = None then take 200000 (diff (ag_world st)) else []),
      rr_submitted = ag_submitted st, rr_launches = length (filter a_launch ev), rr_hits = length (filter a_hit ev),
      rr_misses = length (filter a_miss ev), rr_saved = sum_list (map a_saved ev), rr_wasted = sum_list (map a_wasted ev)\<rparr>)"

section \<open>Speculation is transparent\<close>

text \<open>The commands that may be launched on speculation.\<close>

definition speculable :: "string \<Rightarrow> bool" where
  "speculable cmd \<longleftrightarrow> is_testish cmd \<or> (\<exists>p. predicted_after_create p = Some cmd)"

text \<open>
  What the classifiers take for granted: a read-only call leaves the tree as it is; a command that may be
  speculated on does too, ends within its limit and writes to one stream; and commands the agent takes for the
  same do the same.
\<close>

definition speculation_safe :: "'w box \<Rightarrow> bool" where
  "speculation_safe bx \<longleftrightarrow> (\<forall>c w. call_readonly c \<longrightarrow> snd (real_call bx c w) = w)
     \<and> (\<forall>cmd w. speculable cmd \<longrightarrow> snd (bx_run bx cmd w) = w \<and> oc_secs (fst (bx_run bx cmd w)) \<le> 300
          \<and> real_out (fst (bx_run bx cmd w)) = spec_out (fst (bx_run bx cmd w)))
     \<and> (\<forall>a b w. same_cmd (Some a) (Some b) \<and> speculable b \<longrightarrow> bx_run bx a w = bx_run bx b w)"

lemma safeD:
  assumes "speculation_safe bx"
  shows "call_readonly c \<Longrightarrow> snd (real_call bx c w) = w"
    and "speculable cmd \<Longrightarrow> bx_run bx cmd w = (fst (bx_run bx cmd w), w)"
    and "speculable cmd \<Longrightarrow> oc_secs (fst (bx_run bx cmd w)) \<le> 300"
    and "speculable cmd \<Longrightarrow> real_out (fst (bx_run bx cmd w)) = spec_out (fst (bx_run bx cmd w))"
    and "same_cmd (Some a) (Some b) \<Longrightarrow> speculable b \<Longrightarrow> bx_run bx a w = bx_run bx b w"
  using assms by (auto simp: speculation_safe_def prod_eq_iff)

text \<open>The agent without speculation, and the agent with a run pending whose outcome is that of the present tree.\<close>

definition same_view :: "'w agent \<Rightarrow> 'w agent \<Rightarrow> bool" where
  "same_view s t \<longleftrightarrow> ag_world s = ag_world t \<and> ag_print s = ag_print t \<and> ag_status s = ag_status t \<and> ag_last s = ag_last t
     \<and> ag_msgs s = ag_msgs t \<and> ag_submitted s = ag_submitted t \<and> ag_pending s = None
     \<and> (\<forall>cmd. ag_last t = Some cmd \<longrightarrow> speculable cmd)"

definition pending_fresh :: "'w box \<Rightarrow> 'w agent \<Rightarrow> bool" where
  "pending_fresh bx t \<longleftrightarrow> (\<forall>p. ag_pending t = Some p \<longrightarrow> speculable (pd_cmd p)
     \<and> pd_outcome p = fst (bx_run bx (pd_cmd p) (ag_world t)))"

lemma choose_speculable:
  assumes "choose_target kind c lst = (Some cmd, rule)" "\<And>x. lst = Some x \<Longrightarrow> speculable x"
  shows "speculable cmd"
  using assms by (auto simp: choose_target_def Let_def speculable_def split: if_splits)

lemma launch_view:
  assumes "speculation_safe bx" "same_view s t" "\<And>cmd rule. target = (Some cmd, rule) \<Longrightarrow> speculable cmd"
    "pending_fresh bx t"
  shows "same_view s (launch bx stp target t) \<and> pending_fresh bx (launch bx stp target t)"
proof (cases "fst target")
  case None
  then show ?thesis using assms(2,4) by (cases target) (simp add: launch_def)
next
  case (Some cmd)
  then obtain rule where t: "target = (Some cmd, rule)" by (cases target) auto
  have "speculable cmd" using assms(3) [OF t] .
  then obtain oc where r: "bx_run bx cmd (ag_world t) = (oc, ag_world t)" using safeD(2) [OF assms(1)] by blast
  have "launch bx stp target t = t\<lparr>ag_world := ag_world t,
      ag_pending := Some \<lparr>pd_cmd = cmd, pd_t0 = ag_clock t, pd_tag = rule, pd_outcome = oc\<rparr>,
      ag_events := ag_events t @ [ALaunch stp rule cmd]\<rparr>"
    by (simp add: launch_def t r)
  then show ?thesis using assms(2) \<open>speculable cmd\<close> r by (auto simp: same_view_def pending_fresh_def)
qed

lemma after_view:
  assumes "speculation_safe bx" "same_view s t" "pending_fresh bx t" "call_readonly c \<or> ag_pending t = None"
  shows "same_view (after_call bx False stp c rc s) (after_call bx True stp c rc t)
    \<and> pending_fresh bx (after_call bx True stp c rc t)"
proof (cases "call_readonly c \<or> bx_print bx (ag_world t) = ag_print t")
  case True
  then show ?thesis using assms(2,3) by (auto simp: after_call_def same_view_def)
next
  case False
  let ?ns = "bx_status bx (ag_world t)" and ?fp = "bx_print bx (ag_world t)"
  let ?t = "t\<lparr>ag_print := ?fp, ag_status := ?ns\<rparr>" and ?s = "s\<lparr>ag_print := ?fp, ag_status := ?ns\<rparr>"
  let ?target = "choose_target (edit_kind (ag_status t) ?ns) c (ag_last t)"
  have v: "same_view ?s ?t" "pending_fresh bx ?t" using assms(2,3) by (auto simp: same_view_def pending_fresh_def)
  have sp: "speculable cmd" if "?target = (Some cmd, rule)" for cmd rule
    using choose_speculable [OF that] assms(2) by (simp add: same_view_def)
  have o: "after_call bx False stp c rc s = ?s" using False assms(2) by (auto simp: after_call_def same_view_def Let_def)
  have n: "after_call bx True stp c rc t = (if rc = 0 then launch bx stp ?target ?t else ?t)"
    using False by (simp add: after_call_def Let_def)
  show ?thesis unfolding o n using launch_view [where target = ?target and stp = stp, OF assms(1) v(1) sp v(2)] v by auto
qed

text \<open>What a pending run turns into: nothing for a read-only call, the reply of the real run, or nothing but an event.\<close>

lemma resolve_cases:
  assumes "speculation_safe bx" "pending_fresh bx t" "resolve stp c t = (served, t')"
  shows "(same_view s t \<longrightarrow> same_view s t') \<and> ag_world t' = ag_world t \<and> pending_fresh bx t' \<and>
    (served = None \<and> (call_readonly c \<or> ag_pending t' = None)
      \<or> ag_pending t' = None \<and> \<not> call_readonly c
        \<and> (\<exists>r x dt dt'. real_call bx c (ag_world t) = ((r, x, dt), ag_world t) \<and> served = Some (r, x, dt')))"
proof -
  consider "ag_pending t = None \<or> call_readonly c" "served = None" "t' = t"
    | p where "ag_pending t = Some p" "\<not> call_readonly c" "\<not> same_cmd (bash_cmd c) (Some (pd_cmd p))" "served = None"
        "\<exists>ev. t' = t\<lparr>ag_pending := None, ag_events := ev\<rparr>"
    | p where "ag_pending t = Some p" "\<not> call_readonly c" "same_cmd (bash_cmd c) (Some (pd_cmd p))"
    using assms(3) by (cases "ag_pending t") (auto simp: resolve_def split: if_splits)
  then show ?thesis
  proof cases
    case 1 with assms(2) show ?thesis by auto
  next
    case 2 then show ?thesis by (auto simp: same_view_def pending_fresh_def)
  next
    case 3
    let ?oc = "pd_outcome p"
    obtain cmd where cmd: "bash_cmd c = Some cmd" using 3(3) by (cases "bash_cmd c") (auto simp: same_cmd_def)
    have p: "speculable (pd_cmd p)" "?oc = fst (bx_run bx (pd_cmd p) (ag_world t))" using assms(2) 3(1) by (auto simp: pending_fresh_def)
    note safe = safeD [OF assms(1)]
    have "oc_secs ?oc \<le> 300" using safe(3) [OF p(1)] p(2) by simp
    then have fin: "snd (await (3/10) 300 (pd_t0 p) (oc_secs ?oc) (ag_clock t))" by (intro await_finishes) auto
    have "bx_run bx cmd (ag_world t) = bx_run bx (pd_cmd p) (ag_world t)" using safe(5) [OF _ p(1)] 3(3) cmd by metis
    then have "bx_run bx cmd (ag_world t) = (?oc, ag_world t)" using safe(2) [OF p(1), of "ag_world t"] p(2) by simp
    then have real: "real_call bx c (ag_world t) = ((oc_rc ?oc, spec_out ?oc, oc_secs ?oc), ag_world t)"
      using safe(4) [OF p(1), of "ag_world t"] p(2) by (simp add: real_call_def cmd exec_def)
    obtain td where a: "await (3/10) 300 (pd_t0 p) (oc_secs ?oc) (ag_clock t) = (td, True)" using fin by (metis prod.collapse)
    have "\<exists>dt'. served = Some (oc_rc ?oc, spec_out ?oc, dt')" "\<exists>k ev. t' = t\<lparr>ag_pending := None, ag_clock := k, ag_events := ev\<rparr>"
      using assms(3) 3 a by (auto simp: resolve_def spec_result_def or_else_def Let_def)
    with 3(2) real show ?thesis by (auto simp: same_view_def pending_fresh_def)
  qed
qed

lemma handle_call_view:
  assumes safe: "speculation_safe bx" and v: "same_view s t" and p: "pending_fresh bx t"
  shows "same_view (handle_call bx False stp c s) (handle_call bx True stp c t) \<and> pending_fresh bx (handle_call bx True stp c t)"
proof (cases "tc_name c = ''submit''")
  case True
  with v p show ?thesis by (auto simp: handle_call_def same_view_def pending_fresh_def)
next
  case False
  have r0: "resolve stp c s = (None, s)" using v by (simp add: resolve_def same_view_def)
  obtain served t1 where r1: "resolve stp c t = (served, t1)" by (cases "resolve stp c t")
  from resolve_cases [OF safe p r1, of s] v
  have t1: "same_view s t1" "ag_world t1 = ag_world t" "pending_fresh bx t1"
    and sv: "served = None \<and> (call_readonly c \<or> ag_pending t1 = None)
      \<or> ag_pending t1 = None \<and> \<not> call_readonly c
        \<and> (\<exists>r x dt dt'. real_call bx c (ag_world t) = ((r, x, dt), ag_world t) \<and> served = Some (r, x, dt'))"
    by auto
  obtain rc x dt w where real: "real_call bx c (ag_world t) = ((rc, x, dt), w)" by (cases "real_call bx c (ag_world t)") auto
  have w: "w = ag_world t" if "call_readonly c \<or> served \<noteq> None"
    using that sv real safeD(1) [OF safe, of c "ag_world t"] by auto
  let ?cmd = "bash_cmd c"
  define lst where "lst = (if truthy ?cmd \<and> is_testish (or_else [] ?cmd) then ?cmd else ag_last t1)"
  define s2 where "s2 = s\<lparr>ag_world := w, ag_clock := ag_clock s + dt, ag_tool_s := ag_tool_s s + dt, ag_last := lst,
    ag_msgs := ag_msgs s @ [ToolMsg (tc_id c) (tool_text x)]\<rparr>"
  obtain k ts where t2: "handle_call bx True stp c t = after_call bx True stp c rc
      (t1\<lparr>ag_world := w, ag_clock := k, ag_tool_s := ts, ag_last := lst, ag_msgs := ag_msgs t1 @ [ToolMsg (tc_id c) (tool_text x)]\<rparr>)"
    (is "_ = after_call bx True stp c rc ?t2")
  proof (cases served)
    case None
    then show ?thesis using that [of "ag_tool_s t1 + dt" "ag_clock t1 + dt"] False real t1(2)
      by (simp add: handle_call_def r1 Let_def lst_def)
  next
    case (Some q)
    then obtain dt' where "served = Some (rc, x, dt')" using sv real by auto
    moreover from this w t1(2) have "w = ag_world t1" by simp
    ultimately show ?thesis using that [of "ag_tool_s t1 + dt'" "ag_clock t1"] False
      by (simp add: handle_call_def r1 Let_def lst_def)
  qed
  have l: "ag_last t1 = ag_last s" using t1(1) by (simp add: same_view_def)
  have s2: "handle_call bx False stp c s = after_call bx False stp c rc s2"
    using False real v by (simp add: handle_call_def r0 Let_def lst_def s2_def l) (simp add: same_view_def)
  have "lst = Some cmd \<Longrightarrow> speculable cmd" for cmd
    using t1(1) by (auto simp: lst_def same_view_def speculable_def or_else_def split: if_splits)
  then have v2: "same_view s2 ?t2" using t1(1) by (auto simp: same_view_def s2_def)
  have ro: "call_readonly c \<or> ag_pending ?t2 = None" using sv by auto
  have "pending_fresh bx ?t2"
  proof (cases "ag_pending t1")
    case None then show ?thesis by (simp add: pending_fresh_def)
  next
    case (Some q)
    with sv have "w = ag_world t1" using w t1(2) by auto
    with t1(3) show ?thesis by (simp add: pending_fresh_def)
  qed
  from after_view [OF safe v2 this ro] show ?thesis unfolding s2 t2 .
qed

lemma handle_calls_view:
  assumes "speculation_safe bx"
  shows "same_view s t \<Longrightarrow> pending_fresh bx t \<Longrightarrow>
    same_view (handle_calls bx False stp cs s) (handle_calls bx True stp cs t) \<and> pending_fresh bx (handle_calls bx True stp cs t)"
proof (induction cs arbitrary: s t)
  case (Cons c cs)
  from handle_call_view [OF assms Cons.prems] have h: "same_view (handle_call bx False stp c s) (handle_call bx True stp c t)"
    "pending_fresh bx (handle_call bx True stp c t)" by blast+
  then have "ag_submitted (handle_call bx False stp c s) = ag_submitted (handle_call bx True stp c t)" by (simp add: same_view_def)
  with Cons.IH [OF h] h show ?case by (simp add: Let_def)
qed simp

lemma run_steps_view:
  assumes "speculation_safe bx"
  shows "same_view s t \<Longrightarrow> pending_fresh bx t \<Longrightarrow>
    fst (run_steps bx cl False n stp k s) = fst (run_steps bx cl True n stp k t)
    \<and> same_view (snd (run_steps bx cl False n stp k s)) (snd (run_steps bx cl True n stp k t))"
proof (induction n arbitrary: stp k s t)
  case (Suc n)
  have m: "ag_msgs s = ag_msgs t" using Suc.prems(1) by (simp add: same_view_def)
  obtain r ms k' d where c: "chat cl k (ag_msgs t) = (r, ms, k', d)" by (cases "chat cl k (ag_msgs t)") auto
  show ?case
  proof (cases "\<exists>x tcs. r = Inr (Some (x, tcs))")
    case False
    then consider e where "r = Inl e" | "r = Inr None" by (cases r) (auto, metis option.exhaust prod.exhaust)
    then show ?thesis using c Suc.prems by cases (auto simp: m same_view_def)
  next
    case True
    then obtain x tcs where r: "r = Inr (Some (x, tcs))" by blast
    let ?s = "s\<lparr>ag_msgs := ms @ [AsstMsg x tcs], ag_clock := ag_clock s + d\<rparr>"
    let ?t = "t\<lparr>ag_msgs := ms @ [AsstMsg x tcs], ag_clock := ag_clock t + d\<rparr>"
    have st: "same_view ?s ?t" "pending_fresh bx ?t" using Suc.prems by (auto simp: same_view_def pending_fresh_def)
    from handle_calls_view [OF assms st, of stp tcs]
    have h: "same_view (handle_calls bx False stp tcs ?s) (handle_calls bx True stp tcs ?t)"
      "pending_fresh bx (handle_calls bx True stp tcs ?t)" by blast+
    then have sub: "ag_submitted (handle_calls bx False stp tcs ?s) = ag_submitted (handle_calls bx True stp tcs ?t)"
      by (simp add: same_view_def)
    show ?thesis using Suc.IH [OF h] h st sub c by (cases "tcs = []") (simp_all add: m r Let_def)
  qed
qed simp

section \<open>An agent on the file editor\<close>

text \<open>A container whose test reads one file, with the editor of \<open>Editor\<close> over its tree.\<close>

definition demo_text :: "tree \<Rightarrow> string" where
  "demo_text t = or_else [] (map_of (ft_files t) ''a.py'')"

definition demo_outcome :: "tree \<Rightarrow> outcome" where
  "demo_outcome t = \<lparr>oc_rc = (if demo_text t = ''x = 1'' then 1 else 0), oc_chunks = [(False, demo_text t)], oc_secs = 2, oc_partial = []\<rparr>"

definition tree_editor :: "edit_req \<Rightarrow> tree \<Rightarrow> (nat \<times> string \<times> rat) \<times> tree" where
  "tree_editor r t = (case edit id (\<lambda>t p. []) r t of
     (Inr (rc, x), u) \<Rightarrow> ((rc, x, 0), u) | (Inl e, u) \<Rightarrow> ((1, ''Traceback'', 0), u))"

definition demo_box :: "tree box" where
  "demo_box = \<lparr>bx_run = (\<lambda>c t. (demo_outcome t, t)), bx_editor = tree_editor, bx_print = demo_text,
     bx_status = (\<lambda>t. if demo_text t = ''x = 1'' then [] else ['' M a.py''])\<rparr>"

definition bash :: "string \<Rightarrow> tool_call" where
  "bash cmd = \<lparr>tc_id = ''t'', tc_name = ''bash'', tc_args = an_edit cmd []\<rparr>"

definition demo_script :: "tool_call \<Rightarrow> tool_call list" where
  "demo_script look = [bash ''tox'', \<lparr>tc_id = ''t'', tc_name = ''str_replace_editor'', tc_args = demo_replace\<rparr>,
     look, bash ''tox'', \<lparr>tc_id = ''t'', tc_name = ''submit'', tc_args = an_edit [] []\<rparr>]"

definition demo_client :: "tool_call \<Rightarrow> client" where
  "demo_client look k ms = (Reply '''' [demo_script look ! k], 30)"

lemma edit_command_not_readonly:
  "\<not> re_match READONLY_BASH (strip_ws ''create'')" "\<not> re_match READONLY_BASH (strip_ws ''str_replace'')"
  "\<not> re_match READONLY_BASH (strip_ws ''insert'')"
  by code_simp+

lemma readonly_edit_keeps:
  assumes "is_readonly name r" shows "snd (edit srt wk r t) = t"
proof -
  have "er_command r \<noteq> Some ''create''" "er_command r \<noteq> Some ''str_replace''" "er_command r \<noteq> Some ''insert''"
    using assms edit_command_not_readonly by (auto simp: is_readonly_def or_else_def Let_def split: if_splits)
  then show ?thesis by (simp add: edit_def)
qed

lemma demo_box_safe: "speculation_safe demo_box"
proof -
  have "snd (real_call demo_box c w) = w" if "call_readonly c" for c w
  proof (cases "bash_cmd c")
    case None
    have "snd (edit id (\<lambda>t p. []) (tc_args c) w) = w" using that unfolding call_readonly_def by (rule readonly_edit_keeps)
    then show ?thesis using None
      by (auto simp: real_call_def demo_box_def tree_editor_def split: prod.splits sum.splits)
  next
    case (Some cmd) then show ?thesis by (simp add: real_call_def exec_def demo_box_def)
  qed
  then show ?thesis
    by (auto simp: speculation_safe_def demo_box_def demo_outcome_def real_out_def spec_out_def)
qed

definition demo_run :: "bool \<Rightarrow> run_record" where
  "demo_run spec = run_task demo_box (demo_client (bash ''ls'')) spec 5 [] [] 0 demo_text demo_tree"

lemma demo_chat: "chat (demo_client l) k ms = (Inr (Some ([], [demo_script l ! k])), ms, Suc k, 30)"
  by (simp add: chat_def chat_from.simps demo_client_def)

lemma demo_classified:
  "is_testish ''tox''" "\<not> call_readonly (bash ''tox'')" "call_readonly (bash ''ls'')" "\<not> is_testish ''ls''"
  "\<not> is_readonly ''str_replace_editor'' demo_replace"
  by code_simp+

lemma demo_bash:
  "bash_cmd (bash ''tox'') = Some ''tox''" "bash_cmd (bash ''ls'') = Some ''ls''"
  "tc_name (bash c) = ''bash''" "tc_id (bash c) = ''t''"
  by code_simp+

definition demo_edited_tree :: tree where
  "demo_edited_tree = \<lparr>ft_files = [(''a.py'', ''x = 22'')], ft_dirs = [''.'']\<rparr>"

lemma demo_edit: "tree_editor demo_replace demo_tree = ((0, ''The file a.py has been edited.'', 0), demo_edited_tree)"
  by code_simp

lemma demo_texts: "demo_text demo_tree = ''x = 1''" "demo_text demo_edited_tree = ''x = 22''"
  by (simp_all add: demo_text_def demo_tree_def demo_edited_tree_def or_else_def)

lemma demo_kind: "edit_kind [] ['' M a.py''] = ''modified''" by code_simp
lemma demo_tool: "tool_text ''x = 1'' = ''x = 1''" "tool_text ''x = 22'' = ''x = 22''"
  "tool_text ''The file a.py has been edited.'' = ''The file a.py has been edited.''" 
  by (simp_all add: tool_text_def clip_def MAX_TOOL_OUT_def)

lemma demo_await: "await (3/10) 300 60 2 120 = (120, True)" "await (3/10) 300 62 2 124 = (124, True)"
  by (simp_all add: await.simps)


lemma demo_box_simps: "exec demo_box c t = ((oc_rc (demo_outcome t), demo_text t, 2), t)" "bx_editor demo_box = tree_editor"
  "bx_print demo_box = demo_text" "bx_status demo_box t = (if demo_text t = ''x = 1'' then [] else ['' M a.py''])"
  "bx_run demo_box c t = (demo_outcome t, t)" "oc_secs (demo_outcome t) = 2" "spec_out (demo_outcome t) = demo_text t"
  by (simp_all add: exec_def demo_box_def demo_outcome_def real_out_def spec_out_def)

lemma demo_test_call:
  assumes "ag_pending st = None" "ag_print st = demo_text (ag_world st)"
  shows "handle_call demo_box spec stp (bash ''tox'') st = st\<lparr>ag_clock := ag_clock st + 2, ag_tool_s := ag_tool_s st + 2,
    ag_last := Some ''tox'', ag_msgs := ag_msgs st @ [ToolMsg ''t'' (tool_text (demo_text (ag_world st)))]\<rparr>"
  using assms demo_classified(1,2)
  by (simp add: handle_call_def resolve_def demo_bash real_call_def demo_box_simps after_call_def truthy_def or_else_def Let_def)

definition demo_edit_call :: tool_call where
  "demo_edit_call = \<lparr>tc_id = ''t'', tc_name = ''str_replace_editor'', tc_args = demo_replace\<rparr>"

lemma demo_edit_call:
  assumes "ag_pending st = None" "ag_print st = ''x = 1''" "ag_world st = demo_tree" "ag_last st = Some ''tox''" "ag_status st = []"
  shows "handle_call demo_box True stp demo_edit_call st = st\<lparr>ag_world := demo_edited_tree, ag_print := ''x = 22'', ag_status := ['' M a.py''],
    ag_pending := Some \<lparr>pd_cmd = ''tox'', pd_t0 = ag_clock st, pd_tag = ''A'', pd_outcome = demo_outcome demo_edited_tree\<rparr>,
    ag_events := ag_events st @ [ALaunch stp ''A'' ''tox''],
    ag_msgs := ag_msgs st @ [ToolMsg ''t'' (tool_text ''The file a.py has been edited.'')]\<rparr>"
  using assms demo_classified(5)
  by (simp add: handle_call_def resolve_def demo_edit_call_def bash_cmd_def real_call_def demo_box_simps demo_edit after_call_def truthy_def
    call_readonly_def demo_texts demo_kind choose_target_def launch_def or_else_def Let_def)

lemma demo_look_call:
  shows "handle_call demo_box spec stp (bash ''ls'') st = st\<lparr>ag_clock := ag_clock st + 2, ag_tool_s := ag_tool_s st + 2,
    ag_msgs := ag_msgs st @ [ToolMsg ''t'' (tool_text (demo_text (ag_world st)))]\<rparr>"
  using demo_classified(3,4)
  by (simp add: handle_call_def resolve_def demo_bash real_call_def demo_box_simps after_call_def truthy_def or_else_def Let_def split: option.splits)

lemma demo_hit_call:
  assumes "ag_pending st = Some \<lparr>pd_cmd = ''tox'', pd_t0 = t0, pd_tag = ''A'', pd_outcome = demo_outcome (ag_world st)\<rparr>"
    "ag_print st = demo_text (ag_world st)" "t0 + 2 \<le> ag_clock st"
  shows "handle_call demo_box spec stp (bash ''tox'') st = st\<lparr>ag_pending := None, ag_last := Some ''tox'',
    ag_events := ag_events st @ [AHit stp ''A'' ''tox'' (ag_clock st - t0) 0 (ag_clock st - t0)],
    ag_msgs := ag_msgs st @ [ToolMsg ''t'' (tool_text (demo_text (ag_world st)))]\<rparr>"
  using assms demo_classified(1,2)
  by (simp add: handle_call_def resolve_def demo_bash real_call_def demo_box_simps after_call_def truthy_def or_else_def Let_def
    same_cmd_def await.simps spec_result_def)

lemma five: "(5::nat) = Suc (Suc (Suc (Suc (Suc 0))))" by simp

lemma demo_script_nth: "demo_script look ! 0 = bash ''tox''" "demo_script look ! Suc 0 = demo_edit_call"
  "demo_script look ! Suc (Suc 0) = look" "demo_script look ! Suc (Suc (Suc 0)) = bash ''tox''"
  "tc_name (demo_script look ! Suc (Suc (Suc (Suc 0)))) = ''submit''"
  by (simp_all add: demo_script_def demo_edit_call_def)

lemma demo_submit: "tc_name c = ''submit'' \<Longrightarrow> handle_call bx spec stp c st
    = st\<lparr>ag_submitted := True, ag_msgs := ag_msgs st @ [ToolMsg (tc_id c) ''submitted'']\<rparr>"
  by (simp add: handle_call_def)

text \<open>The run takes two seconds and is reported to save sixty-two, the time the model took.\<close>

lemma demo_run_result: "rr_patch (demo_run True) = ''x = 22'' \<and> rr_submitted (demo_run True)
    \<and> rr_launches (demo_run True) = 1 \<and> rr_hits (demo_run True) = 1 \<and> rr_error (demo_run True) = None \<and> rr_saved (demo_run True) = 62"
  by (simp add: demo_run_def run_task_def start_agent_def demo_chat demo_script_nth five demo_texts demo_box_simps
    demo_test_call demo_edit_call demo_look_call demo_hit_call demo_submit Let_def)



section \<open>What the counters mean\<close>

text \<open>
  The saving reported for a hit is the time from the launch to the request, whatever the run took: it is not capped by
  the run's own duration.
\<close>

lemma saved_is_elapsed:
  assumes "ag_pending st = Some p" "\<not> call_readonly c" "same_cmd (bash_cmd c) (Some (pd_cmd p))" "pd_t0 p \<le> ag_clock st"
  shows "\<exists>D wait. ag_events (snd (resolve stp c st))
    = ag_events st @ [AHit stp (pd_tag p) (or_else [] (bash_cmd c)) D wait (ag_clock st - pd_t0 p)]"
proof -
  obtain td fin where a: "await (3/10) 300 (pd_t0 p) (oc_secs (pd_outcome p)) (ag_clock st) = (td, fin)"
    by (cases "await (3/10) 300 (pd_t0 p) (oc_secs (pd_outcome p)) (ag_clock st)")
  then have "ag_clock st \<le> td" using await_le [of "3/10" "ag_clock st" 300 "pd_t0 p" "oc_secs (pd_outcome p)"] by simp
  then have "max 0 (td - pd_t0 p - max 0 (td - ag_clock st)) = ag_clock st - pd_t0 p" using assms(4) by simp
  with assms a show ?thesis by (auto simp: resolve_def Let_def split: prod.splits)
qed

text \<open>
  A command counts as read-only by how it begins, so a command that looks first and changes the tree after leaves
  the pending run alone, and the next test is served the result it had before the change.
\<close>

lemma looks_readonly: "call_readonly (bash ''cat a && python gen.py'')"
  by code_simp

lemma stale_result_served:
  assumes "ag_pending st = Some p" "pd_cmd p = ''tox''" "pd_t0 p + oc_secs (pd_outcome p) \<le> ag_clock st"
    "ag_submitted st = False" "0 \<le> oc_secs (fst (bx_run bx ''cat a && python gen.py'' (ag_world st)))"
  shows "\<exists>x. ag_msgs (handle_calls bx True stp [bash ''cat a && python gen.py'', bash ''tox''] st)
    = ag_msgs st @ [ToolMsg ''t'' x, ToolMsg ''t'' (tool_text (spec_out (pd_outcome p)))]"
proof -
  have cmd: "bash_cmd (bash ''cat a && python gen.py'') = Some ''cat a && python gen.py''" by code_simp
  obtain oc w where r: "bx_run bx ''cat a && python gen.py'' (ag_world st) = (oc, w)" by fastforce
  obtain lst where one: "handle_call bx True stp (bash ''cat a && python gen.py'') st = st\<lparr>ag_world := w,
      ag_clock := ag_clock st + oc_secs oc, ag_tool_s := ag_tool_s st + oc_secs oc, ag_last := lst,
      ag_msgs := ag_msgs st @ [ToolMsg ''t'' (tool_text (real_out oc))]\<rparr>" (is "_ = ?s1")
    using assms(1) looks_readonly r
    by (simp add: handle_call_def resolve_def demo_bash cmd real_call_def exec_def after_call_def Let_def)
  have launch_msgs: "ag_msgs (launch b n tg u) = ag_msgs u" "ag_submitted (launch b n tg u) = ag_submitted u" for b n tg u
    by (auto simp: launch_def split: prod.splits option.splits)
  have "pd_t0 p + oc_secs (pd_outcome p) \<le> ag_clock st + oc_secs oc" using assms(3,5) r by simp
  then have "ag_msgs (handle_call bx True stp (bash ''tox'') ?s1) = ag_msgs ?s1 @ [ToolMsg ''t'' (tool_text (spec_out (pd_outcome p)))]
      \<and> ag_submitted (handle_call bx True stp (bash ''tox'') ?s1) = ag_submitted ?s1"
    using assms(1,2) demo_classified(2)
    by (simp add: handle_call_def resolve_def demo_bash same_cmd_def await.simps spec_result_def after_call_def launch_msgs Let_def)
  with one assms(4) show ?thesis by (simp add: Let_def)
qed

text \<open>
  A history that overflows the context for the first time on the third attempt is shortened, and then there is no attempt
  left: the loop falls through without a reply.
\<close>

lemma chat_falls_through:
  assumes "cl k ms = (ApiError e0, d0)" "\<not> context_overflow e0" "cl (Suc k) ms = (ApiError e1, d1)" "\<not> context_overflow e1"
    "cl (Suc (Suc k)) ms = (ApiError e2, d2)" "context_overflow e2" "snd (shrink_history 6 ms)"
  shows "fst (chat cl k ms) = Inr None"
  using assms by (simp add: chat_def chat_from.simps)

end
