(* ===== verification/Still.thy ===== *)
theory Still imports Decode begin

text \<open>
  The amortized compactor STILL, \<^verbatim>\<open>dexa/compaction/still/perceiver.py\<close> and \<^verbatim>\<open>compactor.py\<close>: the perceiver network
  of one layer, its identity initialisation, and the compactor over one perceiver per layer. Tensors are lists
  of rows over the reals, the kv-heads are mapped over. \<^verbatim>\<open>RMSNorm\<close> and \<^verbatim>\<open>GELU\<close> are parameters \<open>nrm\<close> and \<open>act\<close>, and so
  are the random draws of the weights that are not set by the initialisation. What is proved is what the network
  computes before any training. The training loop is not modelled.
\<close>

section \<open>Linear algebra\<close>

definition lin0 :: "vec list \<Rightarrow> vec \<Rightarrow> vec" where
  "lin0 w x = map (\<lambda>r. dot r x) w"

definition lin :: "vec list \<Rightarrow> vec \<Rightarrow> vec \<Rightarrow> vec" where
  "lin w b x = map2 (+) (lin0 w x) b"

definition eye :: "nat \<Rightarrow> vec list" where
  "eye n = map (\<lambda>i. map (\<lambda>j. if i = j then 1 else 0) [0..<n]) [0..<n]"

definition zero_mat :: "nat \<Rightarrow> nat \<Rightarrow> vec list" where
  "zero_mat r c = replicate r (replicate c 0)"

text \<open>\<^verbatim>\<open>_rope\<close> on one row, with its sign.\<close>

definition still_rope :: "vec \<Rightarrow> real \<Rightarrow> vec \<Rightarrow> real \<Rightarrow> vec" where
  "still_rope x p fs sign = map2 (+) (map2 (*) x (rope_cos fs p))
     (map (\<lambda>z. sign * z) (map2 (*) (rotate_half x) (rope_sin fs p)))"

section \<open>The perceiver\<close>

record perceiver =
  pv_dim :: nat
  pv_n :: nat
  pv_latents :: "vec list"
  pv_q_w :: "vec list"
  pv_q_b :: vec
  pv_k_w :: "vec list"
  pv_k_b :: vec
  pv_cross :: "vec list"
  pv_temp :: real
  pv_heads :: nat
  pv_sa_norm :: vec
  pv_sa_q :: "vec list"
  pv_sa_k :: "vec list"
  pv_sa_v :: "vec list"
  pv_sa_o :: "vec list"
  pv_mlp_norm :: vec
  pv_in_w :: "vec list"
  pv_in_b :: vec
  pv_out_w :: "vec list"
  pv_out_b :: vec
  pv_key_w :: "vec list"
  pv_key_b :: vec
  pv_val_w :: "vec list"
  pv_val_b :: vec
  pv_beta_w :: "vec list"
  pv_beta_b :: vec
  pv_model_freq :: vec
  pv_internal_freq :: vec

text \<open>The weights torch draws at random.\<close>

record drawn =
  dr_sa_q :: "vec list"
  dr_sa_k :: "vec list"
  dr_sa_v :: "vec list"
  dr_in_w :: "vec list"
  dr_in_b :: vec

definition inv_freq :: "real \<Rightarrow> nat \<Rightarrow> vec" where
  "inv_freq theta d = map (\<lambda>k. 1 / (theta powr (real (2 * k) / real d))) [0..<d div 2]"

text \<open>The constructor followed by \<^verbatim>\<open>_identity_init\<close>.\<close>

definition new_perceiver :: "nat \<Rightarrow> nat \<Rightarrow> real \<Rightarrow> real \<Rightarrow> nat \<Rightarrow> real \<Rightarrow> real \<Rightarrow> drawn \<Rightarrow> perceiver result" where
  "new_perceiver d n model_theta internal_theta heads mlp_ratio temp dr =
    (let dm = 2 * d; hidden = nat (max (int dm) (py_round (mlp_ratio * real dm))) in
     if d mod 2 \<noteq> 0 then Inl (ValueError ''head_dim must be even for RoPE'')
     else if n < 1 then Inl (ValueError ''n_latents must be >= 1'')
     else if heads = 0 then Inl ZeroDivisionError
     else Inr \<lparr>pv_dim = d, pv_n = n, pv_latents = zero_mat n dm,
       pv_q_w = zero_mat d dm, pv_q_b = replicate d 1, pv_k_w = zero_mat d dm, pv_k_b = replicate d 1,
       pv_cross = eye dm, pv_temp = temp, pv_heads = (if dm mod heads \<noteq> 0 then 1 else heads),
       pv_sa_norm = replicate dm 1, pv_sa_q = dr_sa_q dr, pv_sa_k = dr_sa_k dr, pv_sa_v = dr_sa_v dr, pv_sa_o = zero_mat dm dm,
       pv_mlp_norm = replicate dm 1, pv_in_w = dr_in_w dr, pv_in_b = dr_in_b dr,
       pv_out_w = zero_mat dm hidden, pv_out_b = replicate dm 0,
       pv_key_w = map (\<lambda>r. r @ replicate d 0) (eye d), pv_key_b = replicate d 0,
       pv_val_w = map (\<lambda>r. replicate d 0 @ r) (eye d), pv_val_b = replicate d 0,
       pv_beta_w = zero_mat 1 dm, pv_beta_b = [0],
       pv_model_freq = inv_freq model_theta d, pv_internal_freq = inv_freq internal_theta d\<rparr>)"

definition latent_positions :: "perceiver \<Rightarrow> nat \<Rightarrow> real list" where
  "latent_positions pv n = (if pv_n pv = 1 \<or> n \<le> 1 then replicate (pv_n pv) 0
     else map (\<lambda>i. real (n - 1) * real i / real (pv_n pv - 1)) [0..<pv_n pv])"

text \<open>Scaled dot-product attention of one head, as torch computes it.\<close>

definition sdp_head :: "nat \<Rightarrow> vec list \<Rightarrow> vec list \<Rightarrow> vec list \<Rightarrow> vec list" where
  "sdp_head hd_dim q k v = map (\<lambda>x. weighted hd_dim (softmax_row 0 (map (\<lambda>y. dot x y / sqrt (real hd_dim)) k)) v) q"

definition self_attend :: "(vec \<Rightarrow> vec \<Rightarrow> vec) \<Rightarrow> perceiver \<Rightarrow> vec list \<Rightarrow> vec list" where
  "self_attend nrm pv xs = (let dm = 2 * pv_dim pv; hd_dim = dm div pv_heads pv; ns = map (nrm (pv_sa_norm pv)) xs;
     part = (\<lambda>w h. map (\<lambda>x. take hd_dim (drop (h * hd_dim) (lin0 w x))) ns);
     heads = map (\<lambda>h. sdp_head hd_dim (part (pv_sa_q pv) h) (part (pv_sa_k pv) h) (part (pv_sa_v pv) h)) [0..<pv_heads pv];
     out = map (\<lambda>i. concat (map (\<lambda>z. z ! i) heads)) [0..<length xs] in
     map2 (\<lambda>x y. map2 (+) x (lin0 (pv_sa_o pv) y)) xs out)"

definition latent_mlp :: "(vec \<Rightarrow> vec \<Rightarrow> vec) \<Rightarrow> (real \<Rightarrow> real) \<Rightarrow> perceiver \<Rightarrow> vec \<Rightarrow> vec" where
  "latent_mlp nrm act pv x = map2 (+) x (lin (pv_out_w pv) (pv_out_b pv)
     (map act (lin (pv_in_w pv) (pv_in_b pv) (nrm (pv_mlp_norm pv) x))))"

text \<open>One kv-head's pass: the compact keys, values and biases.\<close>

definition head_forward :: "(vec \<Rightarrow> vec \<Rightarrow> vec) \<Rightarrow> (real \<Rightarrow> real) \<Rightarrow> perceiver \<Rightarrow> real list \<Rightarrow> vec list \<times> vec list
    \<Rightarrow> vec list \<times> vec list \<times> real list" where
  "head_forward nrm act pv positions kv = (let d = pv_dim pv; pos0 = hd positions; lat = latent_positions pv (length positions);
     x_in = map2 (\<lambda>(k, p) v. still_rope k p (pv_model_freq pv) (- 1) @ v) (zip (fst kv) positions) (snd kv);
     q = map2 (\<lambda>l p. still_rope (lin (pv_q_w pv) (pv_q_b pv) l) p (pv_internal_freq pv) 1) (pv_latents pv) lat;
     k = map2 (\<lambda>x p. still_rope (lin (pv_k_w pv) (pv_k_b pv) x) (p - pos0) (pv_internal_freq pv) 1) x_in positions;
     attn = map (\<lambda>a. softmax_row 0 (map (\<lambda>b. dot a b / sqrt (real d) * pv_temp pv) k)) q;
     v_in = map (lin0 (pv_cross pv)) x_in;
     latents = map (\<lambda>w. weighted (2 * d) w v_in) attn;
     latents2 = map (latent_mlp nrm act pv) (self_attend nrm pv latents);
     keys = map (lin (pv_key_w pv) (pv_key_b pv)) latents2; values = map (lin (pv_val_w pv) (pv_val_b pv)) latents2 in
     (map2 (\<lambda>c p. still_rope c (pos0 + p) (pv_model_freq pv) 1) keys lat, values,
      map (\<lambda>l. hd (lin (pv_beta_w pv) (pv_beta_b pv) l)) latents2))"

text \<open>The heads of a layer and the absolute positions of the latents.\<close>

definition forward_layer :: "(vec \<Rightarrow> vec \<Rightarrow> vec) \<Rightarrow> (real \<Rightarrow> real) \<Rightarrow> perceiver \<Rightarrow> real list \<Rightarrow> vec layer_kv
    \<Rightarrow> ((vec list \<times> vec list \<times> real list) list \<times> real list) result" where
  "forward_layer nrm act pv positions l = (if positions = [] then Inl IndexError else
     Inr (map (head_forward nrm act pv positions) (zip (lkey l) (lval l)),
       map (\<lambda>p. hd positions + p) (latent_positions pv (length positions))))"

section \<open>The compactor\<close>

record still_layer =
  sy_keys :: "vec list list"
  sy_values :: "vec list list"
  sy_biases :: "real list list"
  sy_positions :: "real list list"

record still_cache =
  sk_spec :: model_spec
  sk_layers :: "still_layer list"
  sk_logical :: nat
  sk_target :: nat
  sk_trained :: bool
  sk_tokens :: "int list option"

record still_compactor =
  sc_spec :: "model_spec option"
  sc_trained :: "perceiver list option"
  sc_model_theta :: real
  sc_internal_theta :: real
  sc_lazy :: "(nat \<times> nat, perceiver list) dict"

text \<open>\<^verbatim>\<open>_perceivers_for\<close>: the trained ones, or lazily built ones kept per head dimension and budget.\<close>

definition perceivers_for :: "(nat \<Rightarrow> drawn) \<Rightarrow> model_spec \<Rightarrow> nat \<Rightarrow> still_compactor \<Rightarrow> perceiver list result \<times> still_compactor" where
  "perceivers_for rnd sp t c = (case sc_trained c of
     Some ps \<Rightarrow> (Inr ps, c)
   | None \<Rightarrow> (case map_of (sc_lazy c) (head_dim sp, t) of
       Some ps \<Rightarrow> (Inr ps, c)
     | None \<Rightarrow> (case res_map (\<lambda>i. new_perceiver (head_dim sp) t (sc_model_theta c) (sc_internal_theta c) 1 2 30 (rnd i)) [0..<n_layers sp] of
         Inl e \<Rightarrow> (Inl e, c)
       | Inr ps \<Rightarrow> (Inr ps, c\<lparr>sc_lazy := AList.update (head_dim sp, t) ps (sc_lazy c)\<rparr>))))"

definition still_layer_of :: "(vec list \<times> vec list \<times> real list) list \<Rightarrow> real list \<Rightarrow> still_layer" where
  "still_layer_of hs comp_pos = \<lparr>sy_keys = map fst hs, sy_values = map (fst \<circ> snd) hs, sy_biases = map (snd \<circ> snd) hs,
     sy_positions = replicate (length hs) comp_pos\<rparr>"

text \<open>One turn of the loop over the layers.\<close>

definition still_one :: "(vec \<Rightarrow> vec \<Rightarrow> vec) \<Rightarrow> (real \<Rightarrow> real) \<Rightarrow> vec kvcache \<Rightarrow> perceiver list \<Rightarrow> nat \<Rightarrow> still_layer result" where
  "still_one nrm act cache ps i = (if length (kv_layers cache) \<le> i \<or> length ps \<le> i then Inl IndexError else
     res_bind (forward_layer nrm act (ps ! i) (map real_of_int (kv_positions cache)) (kv_layers cache ! i))
       (\<lambda>(hs, cp). Inr (still_layer_of hs cp)))"

definition still_compact :: "(vec \<Rightarrow> vec \<Rightarrow> vec) \<Rightarrow> (real \<Rightarrow> real) \<Rightarrow> (nat \<Rightarrow> drawn) \<Rightarrow> vec kvcache \<Rightarrow> compaction_budget
    \<Rightarrow> still_compactor \<Rightarrow> still_cache result \<times> still_compactor" where
  "still_compact nrm act rnd cache b c = (let sp = (case sc_spec c of Some s \<Rightarrow> s | None \<Rightarrow> kv_spec cache); n = seq_len cache in
     case (case sc_trained c of Some [] \<Rightarrow> Inl IndexError | Some (p # ps) \<Rightarrow> Inr (min (pv_n p) n)
       | None \<Rightarrow> res_bind (target_t b n) (\<lambda>k. Inr (max 1 (min k n)))) of
       Inl e \<Rightarrow> (Inl e, c)
     | Inr t \<Rightarrow> (case perceivers_for rnd sp t c of
         (Inl e, c1) \<Rightarrow> (Inl e, c1)
       | (Inr ps, c1) \<Rightarrow> (res_bind (res_map (still_one nrm act cache ps) [0..<n_layers sp])
           (\<lambda>ls. Inr \<lparr>sk_spec = sp, sk_layers = ls, sk_logical = n, sk_target = t, sk_trained = (sc_trained c \<noteq> None),
             sk_tokens = (case kv_token_ids cache of Some (x # xs) \<Rightarrow> Some (x # xs) | _ \<Rightarrow> None)\<rparr>), c1)))"

section \<open>The network at its initialisation\<close>

lemma dot_zero [simp]: "dot (replicate n 0) x = 0"
  by (induction n arbitrary: x) (auto simp: dot_def split: list.splits simp: zip_Cons1)

lemma dot_append: "length a = length x \<Longrightarrow> dot (a @ b) (x @ y) = dot a x + dot b y"
  by (simp add: dot_def)

lemma lin0_zero [simp]: "lin0 (zero_mat r c) x = replicate r 0"
  by (simp add: lin0_def zero_mat_def)

lemma dot_unit: "length x = n \<Longrightarrow> i < n \<Longrightarrow> dot (map (\<lambda>j. if i = j then 1 else 0) [0..<n]) x = x ! i"
proof -
  assume i: "i < n" "length x = n"
  then have "dot (map (\<lambda>j. if i = j then 1 else 0) [0..<n]) x = (\<Sum>j<n. (if i = j then 1 else 0) * x ! j)"
    by (simp add: dot_def sum_list_sum_nth atLeast0LessThan)
  also have "\<dots> = (\<Sum>j<n. if i = j then x ! i else 0)" by (rule sum.cong) auto
  finally show ?thesis using i by simp
qed

lemma lin0_eye: "lin0 (eye (length x)) x = x"
  by (rule nth_equalityI) (simp_all add: lin0_def eye_def dot_unit)

lemma select_first: "length a = d \<Longrightarrow> lin0 (map (\<lambda>r. r @ replicate d 0) (eye d)) (a @ b) = a"
  by (rule nth_equalityI) (auto simp: lin0_def eye_def dot_append dot_unit)

lemma select_last: "length a = d \<Longrightarrow> length b = d \<Longrightarrow> lin0 (map (\<lambda>r. replicate d 0 @ r) (eye d)) (a @ b) = b"
  by (rule nth_equalityI) (auto simp: lin0_def eye_def dot_append dot_unit)

lemma add_zero [simp]: "length x = d \<Longrightarrow> map2 (+) x (replicate d 0) = (x :: vec)"
  by (rule nth_equalityI) auto

lemma weighted_split:
  assumes "\<forall>x\<in>set a. length x = d" "length a = length v" "length w = length a"
  shows "weighted (2 * d) w (map2 (@) a v) = weighted d w a @ weighted d w (map (take d) v)"
proof (rule nth_equalityI)
  fix j assume "j < length (weighted (2 * d) w (map2 (@) a v))"
  then have j: "j < 2 * d" by (simp add: weighted_def)
  have len: "length (a ! i) = d" if "i < length a" for i using assms(1) that by simp
  have "map2 (\<lambda>c x. c * x ! j) w (map2 (@) a v) = map2 (\<lambda>c x. c * x ! j) w a" if "j < d"
    by (rule nth_equalityI) (use that len assms(2,3) in \<open>simp_all add: nth_append\<close>)
  moreover have "map2 (\<lambda>c x. c * x ! j) w (map2 (@) a v) = map2 (\<lambda>c x. c * x ! (j - d)) w (map (take d) v)" if "\<not> j < d"
    by (rule nth_equalityI) (use that j len assms(2,3) in \<open>simp_all add: nth_append\<close>)
  moreover have "j - d < d" if "\<not> j < d" using j that by simp
  ultimately show "weighted (2 * d) w (map2 (@) a v) ! j = (weighted d w a @ weighted d w (map (take d) v)) ! j"
    using j by (cases "j < d") (simp_all add: weighted_def nth_append del: upt_Suc)
qed (simp add: weighted_def)

text \<open>The routing score of two positions: a sum of cosines of their distance.\<close>

definition route_score :: "vec \<Rightarrow> real \<Rightarrow> nat \<Rightarrow> real \<Rightarrow> real \<Rightarrow> real" where
  "route_score fs temp d a b = (\<Sum>f\<leftarrow>fs. 2 * cos ((a - b) * f)) / sqrt (real d) * temp"

lemma rope_ones:
  assumes "length fs = m"
  shows "still_rope (replicate (2 * m) 1) p fs 1 = map (\<lambda>f. cos (p * f) - sin (p * f)) fs @ map (\<lambda>f. cos (p * f) + sin (p * f)) fs"
  using assms
  by (auto simp: still_rope_def rotate_half_def rope_cos_def rope_sin_def Let_def nth_append intro!: nth_equalityI)

lemma rope_ones_dot:
  assumes "length fs = m"
  shows "dot (still_rope (replicate (2 * m) 1) a fs 1) (still_rope (replicate (2 * m) 1) b fs 1) = (\<Sum>f\<leftarrow>fs. 2 * cos ((a - b) * f))"
proof -
  have "dot (map (\<lambda>f. cos (a * f) - sin (a * f)) fs @ map (\<lambda>f. cos (a * f) + sin (a * f)) fs)
      (map (\<lambda>f. cos (b * f) - sin (b * f)) fs @ map (\<lambda>f. cos (b * f) + sin (b * f)) fs)
    = (\<Sum>f\<leftarrow>fs. (cos (a * f) - sin (a * f)) * (cos (b * f) - sin (b * f)))
      + (\<Sum>f\<leftarrow>fs. (cos (a * f) + sin (a * f)) * (cos (b * f) + sin (b * f)))"
    by (simp add: dot_def zip_map1 zip_map2 zip_same_conv_map comp_def)
  also have "\<dots> = (\<Sum>f\<leftarrow>fs. (cos (a * f) - sin (a * f)) * (cos (b * f) - sin (b * f)) + (cos (a * f) + sin (a * f)) * (cos (b * f) + sin (b * f)))"
    by (simp add: sum_list_addf)
  also have "\<dots> = (\<Sum>f\<leftarrow>fs. 2 * cos ((a - b) * f))"
    by (rule arg_cong [where f = sum_list], rule map_cong [OF refl]) (simp add: left_diff_distrib cos_diff algebra_simps)
  finally show ?thesis unfolding rope_ones [OF assms] .
qed

text \<open>The inverse rotation undoes the rotation at the same position.\<close>

lemma still_rope_plus: "still_rope x p fs 1 = rope_key x (rope_cos fs p) (rope_sin fs p)"
  by (simp add: still_rope_def rope_key_def)

lemma still_rope_minus: "length x = 2 * length fs \<Longrightarrow> still_rope x p fs (- 1) = rope_key x (rope_cos fs (- p)) (rope_sin fs (- p))"
  by (auto simp: still_rope_def rope_key_def rope_cos_def rope_sin_def rotate_half_def Let_def nth_append intro!: nth_equalityI)

lemma length_rope: "length x = 2 * length fs \<Longrightarrow> length (still_rope x p fs sign) = length x"
  by (simp add: still_rope_def rotate_half_def rope_cos_def rope_sin_def Let_def)

lemma rope_zero: "length x = 2 * length fs \<Longrightarrow> rope_key x (rope_cos fs 0) (rope_sin fs 0) = x"
  by (auto simp: rope_key_def rope_cos_def rope_sin_def rotate_half_def Let_def nth_append intro!: nth_equalityI)

lemma rope_undone:
  assumes "length x = 2 * length fs"
  shows "still_rope (still_rope x p fs (- 1)) p fs 1 = x"
  using rephase_shifts_position [OF assms, of "- p" p] rope_zero [OF assms] by (simp add: still_rope_plus still_rope_minus assms)

lemma self_attend_off:
  assumes "pv_sa_o pv = zero_mat d d" "\<forall>x\<in>set xs. length x = d"
  shows "self_attend nrm pv xs = xs"
  using assms by (auto simp: self_attend_def Let_def intro!: nth_equalityI)

lemma latent_mlp_off:
  assumes "pv_out_w pv = zero_mat d h" "pv_out_b pv = replicate d 0" "length x = d"
  shows "latent_mlp nrm act pv x = x"
  using assms by (simp add: latent_mlp_def lin_def)

lemma length_latent_positions [simp]: "length (latent_positions pv n) = pv_n pv"
  by (simp add: latent_positions_def)

text \<open>The routing weights of the untrained network: a kernel of the positions alone.\<close>

definition init_weights :: "perceiver \<Rightarrow> real list \<Rightarrow> vec list" where
  "init_weights pv ps = map (\<lambda>a. softmax_row 0 (map (\<lambda>p. route_score (pv_internal_freq pv) (pv_temp pv) (pv_dim pv) a (p - hd ps)) ps))
     (latent_positions pv (length ps))"

definition smooth_keys :: "perceiver \<Rightarrow> real list \<Rightarrow> vec list \<Rightarrow> vec list" where
  "smooth_keys pv ps ks = map2 (\<lambda>w p. still_rope (weighted (pv_dim pv) w (map2 (\<lambda>k q. still_rope k q (pv_model_freq pv) (- 1)) ks ps))
     (hd ps + p) (pv_model_freq pv) 1) (init_weights pv ps) (latent_positions pv (length ps))"

definition smooth_values :: "perceiver \<Rightarrow> real list \<Rightarrow> vec list \<Rightarrow> vec list" where
  "smooth_values pv ps vs = map (\<lambda>w. weighted (pv_dim pv) w vs) (init_weights pv ps)"

lemma softmax_row_length [simp]: "length (softmax_row eps z) = length z"
  by (simp add: softmax_row_def Let_def)

lemma init_forward:
  assumes "new_perceiver d n mt it heads ratio temp dr = Inr pv" "length ks = length ps" "length vs = length ps"
    "\<forall>k\<in>set ks. length k = d" "\<forall>v\<in>set vs. length v = d"
  shows "head_forward nrm act pv ps (ks, vs) = (smooth_keys pv ps ks, smooth_values pv ps vs, replicate n 0)"
proof -
  have ev: "d mod 2 = 0" and pv: "pv_dim pv = d" "pv_n pv = n" "pv_latents pv = zero_mat n (2 * d)"
    "pv_q_w pv = zero_mat d (2 * d)" "pv_q_b pv = replicate d 1" "pv_k_w pv = zero_mat d (2 * d)" "pv_k_b pv = replicate d 1"
    "pv_cross pv = eye (2 * d)" "pv_sa_o pv = zero_mat (2 * d) (2 * d)" "pv_out_b pv = replicate (2 * d) 0"
    "\<exists>h. pv_out_w pv = zero_mat (2 * d) h"
    "pv_key_w pv = map (\<lambda>r. r @ replicate d 0) (eye d)" "pv_key_b pv = replicate d 0"
    "pv_val_w pv = map (\<lambda>r. replicate d 0 @ r) (eye d)" "pv_val_b pv = replicate d 0"
    "pv_beta_w pv = zero_mat 1 (2 * d)" "pv_beta_b pv = [0]"
    "pv_model_freq pv = inv_freq mt d" "pv_internal_freq pv = inv_freq it d"
    using assms(1) by (auto simp: new_perceiver_def Let_def split: if_splits)
  define m where "m = d div 2"
  have d: "d = 2 * m" "length (inv_freq th d) = m" for th using ev by (auto simp: m_def inv_freq_def)
  let ?fs = "pv_model_freq pv" and ?lat = "latent_positions pv (length ps)"
  define ku where "ku = map2 (\<lambda>k q. still_rope k q ?fs (- 1)) ks ps"
  have ku: "length ku = length ps" "\<forall>x\<in>set ku. length x = d"
    using assms(2,4) d length_rope pv(18) by (auto simp: ku_def set_zip)
  define xin where "xin = map2 (@) ku vs"
  have x: "map2 (\<lambda>(k, p) v. still_rope k p ?fs (- 1) @ v) (zip ks ps) vs = xin"
    using assms(2,3) by (auto simp: xin_def ku_def intro!: nth_equalityI)
  have xl: "length xin = length ps" "\<forall>y\<in>set xin. length y = 2 * d"
    using ku assms(3,5) by (auto simp: xin_def set_zip)
  have one: "lin (zero_mat d c) (replicate d 1) y = replicate d 1" for c y
    by (auto simp: lin_def intro!: nth_equalityI)
  have q: "map2 (\<lambda>l p. still_rope (lin (pv_q_w pv) (pv_q_b pv) l) p (pv_internal_freq pv) 1) (pv_latents pv) ?lat
      = map (\<lambda>p. still_rope (replicate d 1) p (pv_internal_freq pv) 1) ?lat"
    by (rule nth_equalityI) (simp_all add: pv one, simp_all add: zero_mat_def)
  have k: "map2 (\<lambda>y p. still_rope (lin (pv_k_w pv) (pv_k_b pv) y) (p - hd ps) (pv_internal_freq pv) 1) xin ps
      = map (\<lambda>p. still_rope (replicate d 1) (p - hd ps) (pv_internal_freq pv) 1) ps"
    by (rule nth_equalityI) (simp_all add: pv(6,7) one xl)
  have a: "map (\<lambda>a. softmax_row 0 (map (\<lambda>b. dot a b / sqrt (real d) * pv_temp pv)
        (map (\<lambda>p. still_rope (replicate d 1) (p - hd ps) (pv_internal_freq pv) 1) ps)))
      (map (\<lambda>p. still_rope (replicate d 1) p (pv_internal_freq pv) 1) ?lat) = init_weights pv ps"
    using rope_ones_dot [OF d(2) [of it]] by (simp add: init_weights_def route_score_def pv(1,19) comp_def flip: d(1))
  have v: "map (lin0 (pv_cross pv)) xin = xin"
    using xl(2) lin0_eye unfolding pv(8) by (intro map_idI) metis
  have wl: "length w = length ps" if "w \<in> set (init_weights pv ps)" for w using that by (auto simp: init_weights_def)
  have tk: "map (take d) vs = vs" using assms(5) by (intro map_idI) simp
  have lat: "map (\<lambda>w. weighted (2 * d) w xin) (init_weights pv ps)
      = map (\<lambda>w. weighted d w ku @ weighted d w vs) (init_weights pv ps)" (is "_ = ?l")
    using weighted_split [OF ku(2), of vs] ku(1) assms(3) wl by (auto simp: xin_def tk)
  have ll: "\<forall>y\<in>set ?l. length y = 2 * d" by auto
  have sa: "self_attend nrm pv ?l = ?l" using self_attend_off [OF pv(9) ll] .
  have ml: "map (latent_mlp nrm act pv) ?l = ?l" using pv(10,11) ll latent_mlp_off by (intro map_idI) metis
  have b: "lin (pv_beta_w pv) (pv_beta_b pv) y = [0]" for y by (simp add: lin_def pv(16,17))
  have key: "lin (pv_key_w pv) (pv_key_b pv) (weighted d w ku @ y) = weighted d w ku" for w y
    by (simp add: lin_def pv(12,13) select_first)
  have val: "lin (pv_val_w pv) (pv_val_b pv) (weighted d w ku @ weighted d w vs) = weighted d w vs" for w
    by (simp add: lin_def pv(14,15) select_last)
  have len: "length (init_weights pv ps) = n" by (simp add: init_weights_def pv(2))
  show ?thesis
    unfolding head_forward_def Let_def fst_conv snd_conv x pv(1) q k a v lat sa ml
    by (simp add: b key val smooth_keys_def smooth_values_def pv(1) ku_def [symmetric] zip_map1 comp_def case_prod_beta len
      map_replicate_const)
qed

text \<open>The weights are convex, and largest where a latent sits on a token.\<close>

lemma init_weights_convex:
  assumes "ps \<noteq> []" "w \<in> set (init_weights pv ps)"
  shows "sum_list w = 1" "\<forall>x\<in>set w. 0 < x" "length w = length ps"
  using assms softmax_row_sum [of _ 0] by (auto simp: init_weights_def)

lemma route_score_max: "0 \<le> temp \<Longrightarrow> route_score fs temp d a b \<le> route_score fs temp d a a"
proof -
  assume t: "0 \<le> temp"
  have "(\<Sum>f\<leftarrow>fs. 2 * cos ((a - b) * f)) \<le> (\<Sum>f\<leftarrow>fs. 2 * cos ((a - a) * f))" by (rule sum_list_mono) simp
  then show ?thesis using t unfolding route_score_def by (intro mult_right_mono divide_right_mono) auto
qed

lemma softmax_row_mono:
  assumes "i < length z" "j < length z" "z ! i \<le> z ! j"
  shows "softmax_row eps z ! i \<le> softmax_row eps z ! j"
proof -
  have "0 \<le> sum_list (map (\<lambda>x. exp (x - Max (set z))) z)" by (intro sum_list_nonneg) auto
  then show ?thesis using assms by (simp add: softmax_row_def Let_def divide_right_mono)
qed

lemma one_token_weights: "pv_n pv = 1 \<Longrightarrow> init_weights pv [p] = [[1]]"
  by (simp add: init_weights_def latent_positions_def softmax_row_def Let_def)

lemma weighted_one: "length v = d \<Longrightarrow> weighted d [1] [v] = v"
  by (rule nth_equalityI) (simp_all add: weighted_def)

lemma one_token_exact:
  assumes "new_perceiver d 1 mt it heads ratio temp dr = Inr pv" "length k = d" "length v = d"
  shows "smooth_keys pv [p] [k] = [k]" "smooth_values pv [p] [v] = [v]"
proof -
  from assms(1) have pv: "pv_n pv = 1" "pv_dim pv = d" "length k = 2 * length (pv_model_freq pv)"
    using assms(2) by (auto simp: new_perceiver_def inv_freq_def Let_def split: if_splits)
  have l: "length (still_rope k p (pv_model_freq pv) (- 1)) = d" using length_rope [OF pv(3)] assms(2) by simp
  show "smooth_keys pv [p] [k] = [k]"
    using rope_undone [OF pv(3), of p] weighted_one [OF l]
    by (simp add: smooth_keys_def one_token_weights pv(1,2) latent_positions_def)
  show "smooth_values pv [p] [v] = [v]"
    using weighted_one [OF assms(3)] by (simp add: smooth_values_def one_token_weights pv(1,2))
qed

lemma init_weights_peak:
  assumes "0 \<le> pv_temp pv" "i < pv_n pv" "j < length ps" "k < length ps" "latent_positions pv (length ps) ! i = ps ! j - hd ps"
  shows "init_weights pv ps ! i ! k \<le> init_weights pv ps ! i ! j"
  using assms route_score_max [OF assms(1)] unfolding init_weights_def
  by (simp add: softmax_row_mono)

text \<open>C25. Before any training the perceiver is a fixed smoothing of the cache. Whatever torch drew for the other weights and
  whatever its activations compute, each latent's value is one convex combination of the values and its key the
  rotation of the same combination of the unrotated keys, with weights that depend on the positions only, are all
  positive, and are largest at the token the latent sits on; every bias is zero. Over one token with one latent
  the cache comes back unchanged.
\<close>

theorem still_identity_init:
  assumes "new_perceiver d n mt it heads ratio temp dr = Inr pv" "length ks = length ps" "length vs = length ps" "ps \<noteq> []"
    "\<forall>k\<in>set ks. length k = d" "\<forall>v\<in>set vs. length v = d"
  shows "head_forward nrm act pv ps (ks, vs) = (smooth_keys pv ps ks, smooth_values pv ps vs, replicate n 0)
    \<and> (\<forall>w\<in>set (init_weights pv ps). sum_list w = 1 \<and> (\<forall>x\<in>set w. 0 < x))
    \<and> (\<forall>i j k. 0 \<le> temp \<and> i < n \<and> j < length ps \<and> k < length ps \<and> latent_positions pv (length ps) ! i = ps ! j - hd ps \<longrightarrow>
        init_weights pv ps ! i ! k \<le> init_weights pv ps ! i ! j)
    \<and> (n = 1 \<and> length ps = 1 \<longrightarrow> head_forward nrm act pv ps (ks, vs) = (ks, vs, [0]))"
proof (intro conjI allI impI; (elim conjE)?)
  note eq = init_forward [OF assms(1-3) assms(5,6)]
  then show "head_forward nrm act pv ps (ks, vs) = (smooth_keys pv ps ks, smooth_values pv ps vs, replicate n 0)" .
  show "\<forall>w\<in>set (init_weights pv ps). sum_list w = 1 \<and> (\<forall>x\<in>set w. 0 < x)"
    using init_weights_convex [OF assms(4)] by blast
  have pv: "pv_temp pv = temp" "pv_n pv = n" using assms(1) by (auto simp: new_perceiver_def Let_def split: if_splits)
  show "init_weights pv ps ! i ! k \<le> init_weights pv ps ! i ! j"
    if "0 \<le> temp" "i < n" "j < length ps" "k < length ps" "latent_positions pv (length ps) ! i = ps ! j - hd ps" for i j k
    using that by (intro init_weights_peak) (simp_all add: pv)
  show "head_forward nrm act pv ps (ks, vs) = (ks, vs, [0])" if n: "n = 1" "length ps = 1"
  proof -
    obtain p x y where s: "ps = [p]" "ks = [x]" "vs = [y]" using n(2) assms(2,3) by (auto simp: length_Suc_conv)
    show ?thesis using eq one_token_exact [OF assms(1) [unfolded n(1)]] assms(5,6) n(1) by (simp add: s)
  qed
qed

definition demo_drawn :: drawn where
  "demo_drawn = \<lparr>dr_sa_q = eye 4, dr_sa_k = eye 4, dr_sa_v = eye 4, dr_in_w = eye 4, dr_in_b = replicate 4 1\<rparr>"

theorem still_identity_init_witness:
  "\<exists>pv. new_perceiver 2 2 10000 10000 1 2 30 demo_drawn = Inr pv
    \<and> snd (snd (head_forward (\<lambda>w x. x) (\<lambda>x. x) pv [5, 6] ([[1, 2], [3, 4]], [[5, 6], [7, 8]]))) = [0, 0]
    \<and> init_weights pv [5, 6] ! 1 ! 0 \<le> init_weights pv [5, 6] ! 1 ! 1"
proof -
  obtain pv where pv: "new_perceiver 2 2 10000 10000 1 2 30 demo_drawn = Inr pv" by (simp add: new_perceiver_def Let_def)
  then have "pv_n pv = 2" by (auto simp: new_perceiver_def Let_def)
  then have "latent_positions pv (length [5, 6 :: real]) ! 1 = [5, 6] ! 1 - hd [5, 6]"
    by (simp add: latent_positions_def upt_rec)
  then have "init_weights pv [5, 6] ! 1 ! 0 \<le> init_weights pv [5, 6] ! 1 ! 1"
    using still_identity_init [OF pv, where ks = "[[1, 2], [3, 4]]" and vs = "[[5, 6], [7, 8]]" and ps = "[5, 6]"] by auto
  moreover have "snd (snd (head_forward (\<lambda>w x. x) (\<lambda>x. x) pv [5, 6] ([[1, 2], [3, 4]], [[5, 6], [7, 8]]))) = [0, 0]"
    using still_identity_init [OF pv, where ks = "[[1, 2], [3, 4]]" and vs = "[[5, 6], [7, 8]]" and ps = "[5, 6]"
      and nrm = "\<lambda>w x. x" and act = "\<lambda>x. x"] by (simp add: numeral_2_eq_2)
  ultimately show ?thesis using pv by blast
qed

section \<open>Budgets\<close>

text \<open>A perceiver makes as many rows as it has latents, whatever the length of the cache.\<close>

lemma length_self_attend [simp]: "length (self_attend nrm pv xs) = length xs"
  by (simp add: self_attend_def Let_def)

lemma head_rows:
  assumes "length (pv_latents pv) = pv_n pv"
  shows "length (fst (head_forward nrm act pv ps kv)) = pv_n pv"
    and "length (fst (snd (head_forward nrm act pv ps kv))) = pv_n pv"
  using assms by (simp_all add: head_forward_def Let_def)

text \<open>
  With trained perceivers of more latents than the cache has tokens, the reported target is the length of the cache,
  and the compact layers hold more rows than the cache they compact.
\<close>

lemma trained_overbudget:
  assumes "sc_trained c = Some (p # ps)" "\<forall>q\<in>set (p # ps). length (pv_latents q) = pv_n p \<and> pv_n q = pv_n p"
    "seq_len cache < pv_n p" "still_compact nrm act rnd cache b c = (Inr cc, c')"
  shows "sk_target cc = seq_len cache"
    and "\<forall>l\<in>set (sk_layers cc). \<forall>h\<in>set (sy_keys l). length h = pv_n p"
proof -
  show "sk_target cc = seq_len cache" using assms by (auto simp: still_compact_def perceivers_for_def Let_def)
  from assms(1,4) obtain n where "res_map (still_one nrm act cache (p # ps)) [0..<n] = Inr (sk_layers cc)"
    by (auto simp: still_compact_def perceivers_for_def Let_def)
  then have one: "\<exists>i. still_one nrm act cache (p # ps) i = Inr l" if "l \<in> set (sk_layers cc)" for l
    using that by (auto simp: res_map_Inr_iff list_all2_conv_all_nth in_set_conv_nth)
  show "\<forall>l\<in>set (sk_layers cc). \<forall>h\<in>set (sy_keys l). length h = pv_n p"
  proof (intro ballI)
    fix l h assume l: "l \<in> set (sk_layers cc)" "h \<in> set (sy_keys l)"
    from one [OF l(1)] obtain i where s: "still_one nrm act cache (p # ps) i = Inr l" by blast
    then have i: "i < length (p # ps)" by (simp add: still_one_def split: if_splits)
    from s obtain hs cp where f: "l = still_layer_of hs cp"
        "forward_layer nrm act ((p # ps) ! i) (map real_of_int (kv_positions cache)) (kv_layers cache ! i) = Inr (hs, cp)"
      by (auto simp: still_one_def split: if_splits)
    then have hs: "hs = map (head_forward nrm act ((p # ps) ! i) (map real_of_int (kv_positions cache)))
        (zip (lkey (kv_layers cache ! i)) (lval (kv_layers cache ! i)))" by (simp add: forward_layer_def split: if_splits)
    obtain x where "x \<in> set hs" "h = fst x" using l(2) by (auto simp: f(1) still_layer_of_def)
    then obtain kv where "h = fst (head_forward nrm act ((p # ps) ! i) (map real_of_int (kv_positions cache)) kv)"
      unfolding hs by (auto simp del: zip_map1 zip_map2)
    then show "length h = pv_n p" using head_rows(1) [of "(p # ps) ! i"] assms(2) nth_mem [OF i] by metis
  qed
qed

end
