(* ===== verification/PersistBench.thy ===== *)
theory PersistBench imports Connector Editor begin

text \<open>
  The persist-and-resume benchmark, \<^verbatim>\<open>dexa/bench/persist.py\<close>: per context length, a continuation decoded from the
  live cache is compared with one decoded from the cache saved to and loaded from a session store, and times
  and sizes are put in a row. The store is a \<open>backing\<close> of \<open>Serving\<close> and its contract \<open>session_backing\<close>; the backend's tokenizer,
  prefill and generation are parameters, and so are the measured times. Building the context is a loop that ends only
  if the tokenizer makes more tokens of more text, so not returning is \<^const>\<open>None\<close>. The comparison of compaction ratios and
  the printing are not modelled.
\<close>

section \<open>Contexts\<close>

definition BASE :: string where
  "BASE = ''The quarterly review covered revenue, churn, and the migration plan in '' @
     ''detail, with the team noting that the new pipeline reduced latency while '' @
     ''the storage tier absorbed the additional load without incident. ''"

partial_function (option) grow :: "(string \<Rightarrow> int list) \<Rightarrow> nat \<Rightarrow> string \<Rightarrow> string option" where
  "grow tok n s = (if length (tok s) < n then grow tok n (s @ BASE) else Some s)"

definition make_context :: "(string \<Rightarrow> int list) \<Rightarrow> nat \<Rightarrow> int list option" where
  "make_context tok n = map_option (\<lambda>s. take n (tok s)) (grow tok n BASE)"

section \<open>Rows\<close>

record timing =
  tm_prefill :: rat
  tm_cold :: rat
  tm_load :: rat
  tm_resume :: rat

record persist_row =
  pw_length :: nat
  pw_cold_ms :: rat
  pw_resume_ms :: rat
  pw_prefill_ms :: rat
  pw_load_ms :: rat
  pw_speedup :: "rat option"
  pw_identical :: bool
  pw_state_mb :: rat
  pw_kb_per_token :: rat

text \<open>A speedup over no time at all is the float infinity, \<^const>\<open>None\<close>.\<close>

definition bench_row :: "nat \<Rightarrow> timing \<Rightarrow> nat \<Rightarrow> bool \<Rightarrow> persist_row" where
  "bench_row n tm nb same = (let cold = tm_prefill tm + tm_cold tm; res = tm_load tm + tm_resume tm in
     \<lparr>pw_length = n, pw_cold_ms = cold * 1000, pw_resume_ms = res * 1000,
      pw_prefill_ms = tm_prefill tm * 1000, pw_load_ms = tm_load tm * 1000, pw_speedup = (if res > 0 then Some (cold / res) else None),
      pw_identical = same, pw_state_mb = rat_of_nat nb / 1000000, pw_kb_per_token = rat_of_nat nb / rat_of_nat n / 1000\<rparr>)"

definition bench_id :: "nat \<Rightarrow> string" where
  "bench_id n = ''bench-'' @ digits n"

definition run_length :: "backend \<Rightarrow> 's backing \<Rightarrow> nat \<Rightarrow> timing \<Rightarrow> nat \<Rightarrow> 's \<Rightarrow> (persist_row \<times> 's) result option" where
  "run_length be bk gen tm n s = (case make_context (be_tokenize be) n of None \<Rightarrow> None
     | Some ctx \<Rightarrow> Some (let live = be_prefill be ctx; live_cont = fst (be_generate be live [] gen); sid = bench_id (length ctx) in
         res_bind (bk_save bk s sid (live, None)) (\<lambda>(nb, s1).
         res_bind (bk_load bk s1 sid) (\<lambda>(loaded, m).
           let cont = fst (be_generate be loaded [] gen); s2 = bk_delete bk s1 sid in
           if length ctx = 0 then Inl ZeroDivisionError else Inr (bench_row (length ctx) tm nb (cont = live_cont), s2)))))"

fun run_lengths :: "backend \<Rightarrow> 's backing \<Rightarrow> nat \<Rightarrow> (timing \<times> nat) list \<Rightarrow> 's \<Rightarrow> (persist_row list \<times> 's) result option" where
  "run_lengths be bk gen [] s = Some (Inr ([], s))"
| "run_lengths be bk gen ((tm, n) # rest) s = (case run_length be bk gen tm n s of
     None \<Rightarrow> None | Some (Inl e) \<Rightarrow> Some (Inl e)
   | Some (Inr (row, s1)) \<Rightarrow> map_option (\<lambda>r. res_bind r (\<lambda>(rows, s2). Inr (row # rows, s2))) (run_lengths be bk gen rest s1))"

definition max_speedup :: "persist_row list \<Rightarrow> rat option" where
  "max_speedup rows = (let sp = map pw_speedup rows in
     if sp = [] then Some 0 else if None \<in> set sp then None else Some (Max (set (map the sp))))"

record persist_report =
  pp_rows :: "persist_row list"
  pp_all_identical :: bool
  pp_max_speedup :: "rat option"
  pp_cost_model :: string

definition run_persist_bench :: "backend \<Rightarrow> 's backing \<Rightarrow> nat \<Rightarrow> (timing \<times> nat) list \<Rightarrow> string \<Rightarrow> 's \<Rightarrow> (persist_report \<times> 's) result option" where
  "run_persist_bench be bk gen work cost s = map_option (\<lambda>r. res_bind r (\<lambda>(rows, s').
     Inr (\<lparr>pp_rows = rows, pp_all_identical = list_all pw_identical rows, pp_max_speedup = max_speedup rows, pp_cost_model = cost\<rparr>, s')))
     (run_lengths be bk gen work s)"

section \<open>The context loop ends\<close>

definition growing :: "(string \<Rightarrow> int list) \<Rightarrow> bool" where
  "growing tok \<longleftrightarrow> (\<forall>s. length (tok s) < length (tok (s @ BASE)))"

lemma grow_total:
  assumes "growing tok" shows "\<exists>s'. grow tok n s = Some s' \<and> n \<le> length (tok s')"
proof (induction "n - length (tok s)" arbitrary: s rule: less_induct)
  case less
  show ?case
  proof (cases "length (tok s) < n")
    case False then show ?thesis by (subst grow.simps) simp
  next
    case True
    have "length (tok s) < length (tok (s @ BASE))" using assms by (simp add: growing_def)
    then have "\<exists>s'. grow tok n (s @ BASE) = Some s' \<and> n \<le> length (tok s')" using True by (intro less) linarith
    then show ?thesis using True by (subst grow.simps) simp
  qed
qed

lemma make_context_total: "growing tok \<Longrightarrow> \<exists>ctx. make_context tok n = Some ctx \<and> length ctx = n"
  using grow_total [of tok n BASE] by (auto simp: make_context_def)

section \<open>Resuming over a store\<close>

context session_backing
begin

lemma run_length_ok:
  assumes "sane s" "make_context (be_tokenize be) n = Some ctx" "0 < length ctx" "good (bench_id (length ctx))" "ok (be_prefill be ctx, None)"
  shows "\<exists>row s'. run_length be bk gen tm n s = Some (Inr (row, s')) \<and> pw_identical row \<and> pw_length row = length ctx \<and> sane s'
    \<and> \<not> bk_has bk s' (bench_id (length ctx))
    \<and> (\<forall>j. j \<noteq> bench_id (length ctx) \<longrightarrow> bk_has bk s' j = bk_has bk s j \<and> bk_load bk s' j = bk_load bk s j)"
proof -
  let ?i = "bench_id (length ctx)"
  obtain nb s1 where s1: "bk_save bk s ?i (be_prefill be ctx, None) = Inr (nb, s1)" "sane s1" "bk_load bk s1 ?i = Inr (be_prefill be ctx, None)"
    "\<And>j. j \<noteq> ?i \<Longrightarrow> bk_has bk s1 j = bk_has bk s j \<and> bk_load bk s1 j = bk_load bk s j"
    using save [OF assms(1,4,5)] by blast
  have "run_length be bk gen tm n s = Some (Inr (bench_row (length ctx) tm nb True, bk_delete bk s1 ?i))"
    using assms(3) by (simp add: run_length_def assms(2) s1 Let_def)
  moreover have "pw_identical (bench_row k tm nb True)" "pw_length (bench_row k tm nb True) = k" for k
    by (simp_all add: bench_row_def Let_def)
  ultimately show ?thesis using delete [OF s1(2) assms(4)] s1(4) by auto
qed

lemma run_lengths_ok:
  assumes "growing (be_tokenize be)" "\<And>ctx. ctx \<noteq> [] \<Longrightarrow> ok (be_prefill be ctx, None)" "\<And>k. good (bench_id k)"
  shows "sane s \<Longrightarrow> \<forall>p\<in>set work. 0 < snd p \<Longrightarrow>
    \<exists>rows s'. run_lengths be bk gen work s = Some (Inr (rows, s')) \<and> list_all pw_identical rows \<and> map pw_length rows = map snd work
      \<and> (\<forall>j. j \<notin> bench_id ` snd ` set work \<longrightarrow> bk_has bk s' j = bk_has bk s j \<and> bk_load bk s' j = bk_load bk s j)"
proof (induction work arbitrary: s)
  case (Cons p work)
  obtain tm n where p: "p = (tm, n)" by (cases p)
  obtain ctx where ctx: "make_context (be_tokenize be) n = Some ctx" "length ctx = n" using make_context_total [OF assms(1)] by blast
  then have ne: "0 < length ctx" "ctx \<noteq> []" using Cons.prems(2) p by auto
  obtain row s1 where r: "run_length be bk gen tm n s = Some (Inr (row, s1))" "pw_identical row" "pw_length row = n" "sane s1"
    "\<forall>j. j \<noteq> bench_id n \<longrightarrow> bk_has bk s1 j = bk_has bk s j \<and> bk_load bk s1 j = bk_load bk s j"
    using run_length_ok [OF Cons.prems(1) ctx(1) ne(1) assms(3) assms(2) [OF ne(2)]] ctx(2) by metis
  from Cons.IH [OF r(4)] Cons.prems(2) obtain rows s' where
    "run_lengths be bk gen work s1 = Some (Inr (rows, s'))" "list_all pw_identical rows" "map pw_length rows = map snd work"
    "\<forall>j. j \<notin> bench_id ` snd ` set work \<longrightarrow> bk_has bk s' j = bk_has bk s1 j \<and> bk_load bk s' j = bk_load bk s1 j" by auto
  with r show ?case by (simp add: p)
qed simp

end

lemma bench_id_ne [simp]: "bench_id n \<noteq> []"
  by (simp add: bench_id_def)

text \<open>C24. Persisting is lossless where the benchmark says so. Over an npz store, with a backend whose caches the
  storage precision holds exactly and a tokenizer that makes more tokens of more text, the benchmark returns for any
  positive lengths; every row has the asked length and an output identical to the live one, the summary says
  so, and no session of the store but the benchmark's own is changed.
\<close>

theorem persist_lossless:
  assumes "npz_only s" "growing (be_tokenize be)" "\<forall>ctx. ctx \<noteq> [] \<longrightarrow> exact_state cs (be_prefill be ctx, None)"
    and "\<forall>p\<in>set work. 0 < snd p"
  shows "\<exists>rep s'. run_persist_bench be (sstore_backing js cs sz) gen work cost s = Some (Inr (rep, s')) \<and> pp_all_identical rep
    \<and> map pw_length (pp_rows rep) = map snd work
    \<and> (\<forall>j. j \<notin> bench_id ` snd ` set work \<longrightarrow> store_load js cs j s' = store_load js cs j s)"
  using npz.run_lengths_ok [where be = be and s = s and work = work and gen = gen and cs = cs and js = js and sz = sz] assms
  by (fastforce simp: run_persist_bench_def sstore_backing_def)

definition demo_bench :: backend where
  "demo_bench = \<lparr>be_tokenize = map (\<lambda>c. int (of_char c)), be_detokenize = (\<lambda>ts. []), be_prefill = (\<lambda>ts. tiny_kv (length ts)),
     be_generate = (\<lambda>c ts n. (replicate n (int (seq_len c)), c))\<rparr>"

theorem persist_lossless_witness:
  "\<exists>rep s'. run_persist_bench demo_bench (sstore_backing no_json demo_casts (\<lambda>z. 0)) 8
      [(\<lparr>tm_prefill = 3, tm_cold = 1, tm_load = 1, tm_resume = 1\<rparr>, 300)] ''default'' \<lparr>st_format = FNpz, st_files = []\<rparr> = Some (Inr (rep, s'))
    \<and> pp_all_identical rep \<and> map pw_length (pp_rows rep) = [300]"
proof -
  have g: "growing (be_tokenize demo_bench)" by (simp add: growing_def demo_bench_def BASE_def)
  have e: "\<forall>ctx. ctx \<noteq> [] \<longrightarrow> exact_state demo_casts (be_prefill demo_bench ctx, None)"
    using tiny_exact [of demo_casts] by (simp add: demo_bench_def exact_state_def)
  have o: "npz_only \<lparr>st_format = FNpz, st_files = []\<rparr>" by (simp add: npz_only_def)
  show ?thesis using persist_lossless [OF o g e, of "[(\<lparr>tm_prefill = 3, tm_cold = 1, tm_load = 1, tm_resume = 1\<rparr>, 300)]" no_json "\<lambda>z. 0" 8 "''default''"]
    by auto
qed

end
