(* ===== verification/CartridgeServe.thy ===== *)
theory CartridgeServe imports Paged begin

text \<open>
  The file of a cartridge (\<^verbatim>\<open>dexa/cartridge/artifact.py\<close>: \<^verbatim>\<open>save\<close> and \<^verbatim>\<open>load\<close>) and the requests of the cartridge
  server (\<^verbatim>\<open>dexa/engine/vllm_cartridge.py\<close>: \<^verbatim>\<open>generate\<close> and \<^verbatim>\<open>score\<close>). An \<^verbatim>\<open>.npz\<close> is the record of its arrays, a directory the
  dictionary of its files; \<^verbatim>\<open>json\<close> of the metadata is a parameter \<open>jm\<close>, what \<^verbatim>\<open>json.loads\<close> makes of what \<^verbatim>\<open>json.dumps\<close> wrote. The engine's own
  generation is a parameter. Paths are names in one directory.
\<close>

section \<open>Files\<close>

text \<open>\<^verbatim>\<open>Path.suffix\<close> of a name: from its last dot, unless the dot is the first or the last character.\<close>

definition path_suffix :: "string \<Rightarrow> string" where
  "path_suffix n = (let ext = rev (takeWhile (\<lambda>c. c \<noteq> CHR ''.'') (rev n)); stem = length n - length ext - 1 in
     if CHR ''.'' \<notin> set n \<or> stem = 0 \<or> ext = [] then [] else CHR ''.'' # ext)"

text \<open>\<^verbatim>\<open>path.with_suffix(suffix)\<close>.\<close>

definition with_suffix :: "string \<Rightarrow> string \<Rightarrow> string" where
  "with_suffix s n = take (length n - length (path_suffix n)) n @ s"

definition npz_name :: "string \<Rightarrow> string" where
  "npz_name n = (if path_suffix n \<noteq> ''.npz'' then with_suffix (path_suffix n @ ''.npz'') n else n)"

type_synonym 'm shelf = "(string, 'm cartridge) dict"

definition save_cartridge :: "('m \<Rightarrow> 'm) \<Rightarrow> string \<Rightarrow> 'm cartridge \<Rightarrow> 'm shelf \<Rightarrow> string \<times> 'm shelf" where
  "save_cartridge jm path c d = (npz_name path, AList.update (npz_name path) (c\<lparr>ca_meta := jm (ca_meta c)\<rparr>) d)"

definition read_cartridge :: "string \<Rightarrow> 'm shelf \<Rightarrow> 'm cartridge result" where
  "read_cartridge path d = (case map_of d path of None \<Rightarrow> Inl (FileNotFoundError path) | Some c \<Rightarrow> Inr c)"

lemma npz_name_eq: "npz_name n = (if path_suffix n = ''.npz'' then n else n @ ''.npz'')"
proof -
  have "take (length n - length (path_suffix n)) n @ path_suffix n = n"
  proof (cases "path_suffix n = []")
    case False
    define ext where "ext = rev (takeWhile (\<lambda>c. c \<noteq> CHR ''.'') (rev n))"
    from False have p: "path_suffix n = CHR ''.'' # ext" "CHR ''.'' \<in> set n"
      by (auto simp: path_suffix_def ext_def Let_def split: if_splits)
    obtain r where r: "rev n = takeWhile (\<lambda>c. c \<noteq> CHR ''.'') (rev n) @ CHR ''.'' # r"
    proof -
      have "dropWhile (\<lambda>c. c \<noteq> CHR ''.'') (rev n) \<noteq> []" using p(2) by (simp add: dropWhile_eq_Nil_conv)
      moreover have "hd (dropWhile (\<lambda>c. c \<noteq> CHR ''.'') (rev n)) = CHR ''.''" using hd_dropWhile [OF calculation] by simp
      ultimately have "rev n = takeWhile (\<lambda>c. c \<noteq> CHR ''.'') (rev n) @ CHR ''.'' # tl (dropWhile (\<lambda>c. c \<noteq> CHR ''.'') (rev n))"
        by (metis list.collapse takeWhile_dropWhile_id)
      then show ?thesis using that by blast
    qed
    have "n = rev r @ CHR ''.'' # ext" using arg_cong [OF r, of rev] by (simp add: ext_def)
    then show ?thesis using p(1) by simp
  qed simp
  then have "with_suffix (path_suffix n @ ''.npz'') n = n @ ''.npz''" unfolding with_suffix_def by (metis append.assoc)
  then show ?thesis by (simp add: npz_name_def)
qed

text \<open>Saving returns the name under which the cartridge is read back, whole when its metadata survive \<^verbatim>\<open>json\<close>; other files stay.\<close>

lemma cartridge_saved:
  assumes "jm (ca_meta c) = ca_meta c" "save_cartridge jm path c d = (name, d')"
  shows "read_cartridge name d' = Inr c" "q \<noteq> name \<Longrightarrow> read_cartridge q d' = read_cartridge q d"
    "name = path \<or> name = path @ ''.npz''"
  using assms by (auto simp: save_cartridge_def read_cartridge_def npz_name_eq split: if_splits)

section \<open>Requests\<close>

text \<open>What the engine would do with the injected prefix is \<open>eng\<close>.\<close>

definition generate_cart :: "bool \<Rightarrow> int \<Rightarrow> ('m cartridge \<Rightarrow> int list \<Rightarrow> nat \<Rightarrow> string) \<Rightarrow> (string \<Rightarrow> int list) \<Rightarrow> string \<Rightarrow> 'm cartridge
    \<Rightarrow> nat \<Rightarrow> string result" where
  "generate_cart avail bs eng tok prompt c n =
    (if \<not> avail then Inl (RuntimeError ''CartridgeServer.generate/score require a running vllm engine'') else
     res_bind (inject_prefix bs c) (\<lambda>_. Inr (eng c (tok prompt) n)))"

definition score_cart :: "bool \<Rightarrow> int \<Rightarrow> ('m cartridge \<Rightarrow> int list \<Rightarrow> nat \<Rightarrow> real) \<Rightarrow> (string \<Rightarrow> int list) \<Rightarrow> string \<Rightarrow> string \<Rightarrow> 'm cartridge
    \<Rightarrow> real list result" where
  "score_cart avail bs lp tok prompt target c =
    (if \<not> avail then Inl (RuntimeError ''CartridgeServer.generate/score require a running vllm engine'')
     else if tok target = [] then Inr []
     else res_bind (inject_prefix bs c) (\<lambda>_. Inr (map (\<lambda>k. lp c (tok prompt @ tok target) (length (tok prompt) + k)) [0..<length (tok target)])))"

text \<open>
  The recipe of the module serves a cartridge; the code as it stands never does: with a running engine and a well-formed cartridge,
  generating raises, and so does scoring any target that has a token.
\<close>

lemma inject_refused: "\<exists>e. inject_prefix bs c = Inl e"
proof -
  have "\<not> (\<exists>u. inject_prefix bs c = Inr u)" unfolding inject_prefix_def by (auto split: prod.splits)
  then show ?thesis by (cases "inject_prefix bs c") auto
qed

lemma serving_refused:
  "\<exists>e. generate_cart avail bs eng tok prompt c n = Inl e" "tok target \<noteq> [] \<Longrightarrow> \<exists>e. score_cart avail bs lp tok prompt target c = Inl e"
  using inject_refused [of bs c] by (auto simp: generate_cart_def score_cart_def)

end
