(* ===== verification/Suites.thy ===== *)
theory Suites imports Bench begin

text \<open>
  The needle-recall suite, \<^verbatim>\<open>dexa/bench/suites.py\<close>: per length, seed, ratio and compactor the recall fraction between the score
  with the full cache and with one token of context, and its summary with the paired comparison of attention matching and heavy
  hitter. Log-probabilities are real numbers; the task generator, the backend and the registry of compactors are parameters of
  the record \<open>suite_env\<close>. Not-a-number is \<^const>\<open>None\<close>. Printing is left out.
\<close>

record suite_env =
  su_task :: "nat \<Rightarrow> nat \<Rightarrow> task result"
  su_prefill :: prefill
  su_refs :: "int list \<Rightarrow> vec ref_queries"
  su_score :: "vec context_cache \<Rightarrow> int list \<Rightarrow> int list \<Rightarrow> real list"
  su_build :: "string \<Rightarrow> (string \<times> (string, rat) dict) option \<Rightarrow> (compact_fun \<times> bool) result"

type_synonym am_options = "string option \<times> (string, rat) dict"

record recall_row =
  rl_length :: nat
  rl_seed :: nat
  rl_method :: string
  rl_ratio :: rat
  rl_logprob :: "real option"
  rl_recall :: real

definition sum_logprob :: "suite_env \<Rightarrow> vec context_cache \<Rightarrow> int list \<Rightarrow> int list \<Rightarrow> real" where
  "sum_logprob env c prompt gold = sum_list (su_score env c prompt gold)"

text \<open>Attention matching takes its options (the allocation rule and three numbers), each with a default; the others take none.\<close>

definition am_numbers :: "(string, rat) dict \<Rightarrow> (string, rat) dict" where
  "am_numbers opts = map (\<lambda>(k, key, d). (k, case map_of opts key of Some v \<Rightarrow> v | None \<Rightarrow> d))
     [(''value_ridge'', ''ridge'', 5 / 100), (''mass_frac'', ''mass_frac'', 1 / 2), (''recent_frac'', ''recent_frac'', 1 / 10)]"

definition make_compactor :: "suite_env \<Rightarrow> string \<Rightarrow> am_options \<Rightarrow> (compact_fun \<times> bool) result" where
  "make_compactor env m opts = (if m = ''attention_matching''
     then su_build env m (Some (case fst opts of Some a \<Rightarrow> a | None \<Rightarrow> ''sensitivity'', am_numbers (snd opts)))
     else su_build env m None)"

text \<open>\<^verbatim>\<open>(ceiling - floor) or 1e-6\<close>.\<close>

definition recall_range :: "real \<Rightarrow> real \<Rightarrow> real" where
  "recall_range hi lo = (if hi - lo = 0 then 1 / 10 ^ 6 else hi - lo)"

definition recall_cell :: "suite_env \<Rightarrow> am_options \<Rightarrow> nat \<Rightarrow> nat \<Rightarrow> task \<Rightarrow> vec kvcache \<Rightarrow> vec ref_queries \<Rightarrow> real \<Rightarrow> real
    \<Rightarrow> rat \<Rightarrow> string \<Rightarrow> recall_row result" where
  "recall_cell env opts n seed t full refs lo rng ratio m = res_bind (make_compactor env m opts) (\<lambda>(cmp, needs).
     res_bind (cmp full \<lparr>cb_ratio = Some ratio, cb_tokens = None, cb_min = 1\<rparr> (if needs then Some refs else None)) (\<lambda>cc.
       let lp = sum_logprob env (Compact cc) (tk_prompt t) (tk_gold t) in
       Inr \<lparr>rl_length = n, rl_seed = seed, rl_method = m, rl_ratio = ratio, rl_logprob = Some lp, rl_recall = (lp - lo) / rng\<rparr>))"

definition recall_task :: "suite_env \<Rightarrow> am_options \<Rightarrow> rat list \<Rightarrow> string list \<Rightarrow> nat \<times> nat \<Rightarrow> recall_row list result" where
  "recall_task env opts ratios compactors ls = (case ls of (n, seed) \<Rightarrow>
     res_bind (su_task env n seed) (\<lambda>t. let full = su_prefill env (tk_context t) 0; refs = su_refs env (tk_context t);
       hi = sum_logprob env (Raw full) (tk_prompt t) (tk_gold t);
       lo = sum_logprob env (Raw (su_prefill env (take 1 (tk_context t)) 0)) (tk_prompt t) (tk_gold t);
       rng = recall_range hi lo in
     res_bind (res_map (\<lambda>(ratio, m). recall_cell env opts n seed t full refs lo rng ratio m) (List.product ratios compactors)) (\<lambda>rows.
       Inr (\<lparr>rl_length = n, rl_seed = seed, rl_method = ''full_kv'', rl_ratio = 1, rl_logprob = None, rl_recall = 1\<rparr> # rows))))"

section \<open>The summary\<close>

record recall_summary =
  rs_ratio :: rat
  rs_means :: "(string \<times> real option) list"
  rs_am_minus_hh :: "real option"
  rs_am_wins :: "real option"

definition recalls :: "recall_row list \<Rightarrow> string \<Rightarrow> rat \<Rightarrow> real list" where
  "recalls rows m ratio = map rl_recall (filter (\<lambda>r. rl_method r = m \<and> rl_ratio r = ratio) rows)"

definition mean_opt :: "real list \<Rightarrow> real option" where
  "mean_opt xs = (if xs = [] then None else Some (sum_list xs / real (length xs)))"

definition recall_methods :: "(string list \<Rightarrow> string list) \<Rightarrow> recall_row list \<Rightarrow> string list" where
  "recall_methods srt rows = srt (remdups (map rl_method (filter (\<lambda>r. rl_method r \<noteq> ''full_kv'') rows)))"

definition summarize_ratio :: "(string list \<Rightarrow> string list) \<Rightarrow> recall_row list \<Rightarrow> rat \<Rightarrow> recall_summary" where
  "summarize_ratio srt rows ratio = (let am = recalls rows ''attention_matching'' ratio; hh = recalls rows ''heavy_hitter'' ratio;
     paired = (am \<noteq> [] \<and> hh \<noteq> [] \<and> length am = length hh); diffs = map2 (-) am hh in
     \<lparr>rs_ratio = ratio, rs_means = map (\<lambda>m. (m, mean_opt (recalls rows m ratio))) (recall_methods srt rows),
      rs_am_minus_hh = (if paired then mean_opt diffs else None),
      rs_am_wins = (if paired then Some (real (length (filter (\<lambda>d. d > 0) diffs)) / real (length diffs)) else None)\<rparr>)"

definition summarize_recall :: "(string list \<Rightarrow> string list) \<Rightarrow> recall_row list \<Rightarrow> rat list \<Rightarrow> recall_summary list" where
  "summarize_recall srt rows ratios = map (summarize_ratio srt rows) ratios"

definition run_niah_recall :: "(string list \<Rightarrow> string list) \<Rightarrow> suite_env \<Rightarrow> nat list \<Rightarrow> rat list \<Rightarrow> nat \<Rightarrow> string list \<Rightarrow> am_options
    \<Rightarrow> (recall_row list \<times> recall_summary list) result" where
  "run_niah_recall srt env lengths ratios seeds compactors opts =
     res_bind (res_map (recall_task env opts ratios compactors) (List.product lengths [0..<seeds]))
       (\<lambda>rss. Inr (concat rss, summarize_recall srt (concat rss) ratios))"

section \<open>The scale and the pairing\<close>

text \<open>A method that scores like the full cache recalls everything and one that scores like no context nothing.\<close>

lemma recall_anchors:
  assumes "recall_cell env opts n seed t full refs lo (recall_range hi lo) ratio m = Inr row" "hi \<noteq> lo"
  shows "rl_logprob row = Some hi \<Longrightarrow> rl_recall row = 1" "rl_logprob row = Some lo \<Longrightarrow> rl_recall row = 0"
  using assms by (auto simp: recall_cell_def recall_range_def Let_def)

lemma mean_diff:
  assumes "length xs = length ys" "xs \<noteq> []"
  shows "mean_opt (map2 (-) xs ys) = Some (sum_list xs / real (length xs) - sum_list ys / real (length ys))"
proof -
  have "sum_list (map2 (-) xs ys) = sum_list xs - (sum_list ys :: real)" using assms(1)
    by (induction xs ys rule: list_induct2) auto
  moreover have "zip xs ys \<noteq> []" using assms by (cases xs; cases ys) auto
  ultimately show ?thesis using assms by (simp add: mean_opt_def diff_divide_distrib)
qed

text \<open>The headline delta is the difference of the two reported means, and the share of wins a share.\<close>

lemma summary_delta:
  assumes "rs_am_minus_hh (summarize_ratio srt rows ratio) = Some d"
  shows "\<exists>a h. mean_opt (recalls rows ''attention_matching'' ratio) = Some a \<and> mean_opt (recalls rows ''heavy_hitter'' ratio) = Some h \<and> d = a - h"
    and "\<exists>w. rs_am_wins (summarize_ratio srt rows ratio) = Some w \<and> 0 \<le> w \<and> w \<le> 1"
proof -
  let ?a = "recalls rows ''attention_matching'' ratio" and ?h = "recalls rows ''heavy_hitter'' ratio"
  from assms have p: "?a \<noteq> []" "?h \<noteq> []" "length ?a = length ?h" "mean_opt (map2 (-) ?a ?h) = Some d"
    by (auto simp: summarize_ratio_def Let_def split: if_splits)
  with mean_diff [OF p(3,1)] show "\<exists>a h. mean_opt ?a = Some a \<and> mean_opt ?h = Some h \<and> d = a - h"
    by (simp add: mean_opt_def)
  have "length (filter (\<lambda>d. d > 0) (map2 (-) ?a ?h)) \<le> length (map2 (-) ?a ?h)" by (rule length_filter_le)
  then show "\<exists>w. rs_am_wins (summarize_ratio srt rows ratio) = Some w \<and> 0 \<le> w \<and> w \<le> 1"
    using p by (simp add: summarize_ratio_def Let_def divide_le_eq_1)
qed

text \<open>
  The summary is said to be per method, ratio and length; it is per method and ratio: rows of different lengths fall into one
  mean.
\<close>

lemma summary_mixes_lengths:
  "recalls (map (\<lambda>r. r\<lparr>rl_length := f r\<rparr>) rows) m ratio = recalls rows m ratio"
  by (simp add: recalls_def filter_map comp_def)

end
