(* ===== verification/Distill.thy ===== *)
theory Distill imports Decode begin

text \<open>
  The cartridge compiler, \<^verbatim>\<open>dexa/cartridge/compiler.py\<close>: the warm start from a downsample of the corpus cache, the two
  ways of self-study, the student's forward pass over the trainable cache, the loss and the training loop. Numbers are
  reals; the passes of the transformer are those of \<open>Decode\<close>. The optimizer is a parameter: from the losses of the items as
  functions of the cache, its own state and the cache it makes the next cache and state (torch's backward pass and Adam). Printing
  is left out but for the division it makes.
\<close>

section \<open>Settings\<close>

type_synonym pars = "vec raw_cache"

record distiller =
  dl_spec :: model_spec
  dl_fwd :: "vec forward"
  dl_dfwd :: decode_fwd
  dl_pick :: "nat \<Rightarrow> real list \<Rightarrow> int"
  dl_tokenize :: "string \<Rightarrow> int list"
  dl_plain :: "string \<Rightarrow> int list"
  dl_detok :: "int list \<Rightarrow> string"

record compile_opts =
  co_t :: nat
  co_steps :: nat
  co_items :: nat
  co_answer :: nat
  co_study :: string
  co_max :: "nat option"
  co_verbose :: bool

text \<open>A training item: the query, the teacher's log-probabilities over its last rows, and how many they are.\<close>

type_synonym study_item = "int list \<times> real list list \<times> nat"

section \<open>Warm start\<close>

definition corpus_ids :: "distiller \<Rightarrow> compile_opts \<Rightarrow> string \<Rightarrow> int list" where
  "corpus_ids dl co corpus = (let ids = dl_tokenize dl corpus in
     case co_max co of Some n \<Rightarrow> if n \<noteq> 0 then take n ids else ids | None \<Rightarrow> ids)"

definition pick_rows :: "nat list \<Rightarrow> vec layer_kv \<Rightarrow> vec layer_kv" where
  "pick_rows idx l = \<lparr>lkey = map (\<lambda>h. map (\<lambda>i. h ! i) idx) (lkey l), lval = map (\<lambda>h. map (\<lambda>i. h ! i) idx) (lval l)\<rparr>"

definition warm_start :: "model_spec \<Rightarrow> nat list \<Rightarrow> vec kvcache \<Rightarrow> pars result" where
  "warm_start sp idx full = (if n_layers sp = 0 then Inl (ValueError ''need at least one array to stack'')
     else res_map (\<lambda>li. res_bind (get_at (kv_layers full) li) (\<lambda>l. Inr (pick_rows idx l))) [0..<n_layers sp])"

section \<open>Self-study\<close>

definition QGEN_LEADS :: "string list" where
  "QGEN_LEADS = [''Write one specific factual question about this part of the document.'',
     ''Ask a question about a name, number, or detail mentioned in this part.'',
     ''What is an important factual question someone might ask about this part?'']"

definition newline_id :: "distiller \<Rightarrow> int option" where
  "newline_id dl = (let ids = dl_plain dl [CHR 0x0A] in if ids = [] then None else Some (last ids))"

definition truncate_at :: "int list \<Rightarrow> int option \<Rightarrow> int list" where
  "truncate_at ids stop = (case stop of None \<Rightarrow> ids | Some s \<Rightarrow> takeWhile (\<lambda>x. x \<noteq> s) ids)"

definition last_rows :: "nat \<Rightarrow> 'a list \<Rightarrow> 'a list" where
  "last_rows n xs = drop (length xs - n) xs"

definition study_prompt :: "nat \<Rightarrow> string \<Rightarrow> string" where
  "study_prompt i snippet = [CHR 0x0A, CHR 0x0A] @ QGEN_LEADS ! (i mod length QGEN_LEADS) @ '' Part: '' @ [CHR 0x22] @ snippet
     @ [CHR 0x22, CHR 0x0A] @ ''Question:''"

definition teacher :: "distiller \<Rightarrow> vec kvcache \<Rightarrow> int list \<Rightarrow> real list list result" where
  "teacher dl full = decode_logits (dl_spec dl) (dl_dfwd dl) (Raw full)"

definition ask :: "distiller \<Rightarrow> vec kvcache \<Rightarrow> int list \<Rightarrow> nat \<Rightarrow> int list result" where
  "ask dl full prompt n = res_bind (hf_generate (dl_spec dl) (dl_dfwd dl) (dl_pick dl) (Raw full) None prompt n)
     (\<lambda>g. Inr (truncate_at g (newline_id dl)))"

text \<open>One chunk: the teacher writes a question about it and answers it. A question under two tokens or an empty answer is skipped.\<close>

definition qa_item :: "distiller \<Rightarrow> nat \<Rightarrow> vec kvcache \<Rightarrow> int list \<Rightarrow> nat \<times> nat \<Rightarrow> study_item option result" where
  "qa_item dl answer_len full ids c = (case c of (i, st) \<Rightarrow>
     res_bind (ask dl full (dl_plain dl (study_prompt i (dl_detok dl (take 16 (drop st ids))))) 20) (\<lambda>q.
       if length q < 2 then Inr None else
       (let prefix = q @ dl_plain dl ([CHR 0x0A] @ ''Answer:'') in
        res_bind (ask dl full prefix answer_len) (\<lambda>a.
          if a = [] then Inr None else
          res_bind (teacher dl full (prefix @ a)) (\<lambda>lg.
            Inr (Some (prefix @ a, map log_softmax (last_rows (length a) lg), length a)))))))"

definition kept :: "'a option list \<Rightarrow> 'a list" where
  "kept xs = map the (filter (\<lambda>x. x \<noteq> None) xs)"

definition selfstudy_qa :: "distiller \<Rightarrow> nat \<Rightarrow> nat \<Rightarrow> vec kvcache \<Rightarrow> int list \<Rightarrow> study_item list result" where
  "selfstudy_qa dl n0 answer_len full ids = (let T = length ids; n = max 1 n0; chunk = max 16 (T div n);
     starts = linspace_idx (Suc (T - chunk)) n in
     res_bind (res_map (qa_item dl answer_len full ids) (enumerate 0 starts)) (\<lambda>xs. Inr (kept xs)))"

fun unseen :: "nat list \<Rightarrow> nat list \<Rightarrow> nat list" where
  "unseen seen [] = []"
| "unseen seen (s # ss) = (if s \<in> set seen then unseen seen ss else s # unseen (s # seen) ss)"

definition span_item :: "distiller \<Rightarrow> nat \<Rightarrow> vec kvcache \<Rightarrow> int list \<Rightarrow> nat \<Rightarrow> study_item option result" where
  "span_item dl n full ids st = (let q = take n (drop st ids) in
     if length q < 2 then Inr None else res_bind (teacher dl full q) (\<lambda>lg. Inr (Some (q, map log_softmax lg, length q))))"

definition selfstudy_span :: "distiller \<Rightarrow> nat \<Rightarrow> nat \<Rightarrow> vec kvcache \<Rightarrow> int list \<Rightarrow> study_item list result" where
  "selfstudy_span dl n span_len full ids = (let len = max 8 span_len in
     res_bind (res_map (span_item dl len full ids) (unseen [] (linspace_idx (Suc (length ids - len)) (max 1 n)))) (\<lambda>xs. Inr (kept xs)))"

definition selfstudy :: "distiller \<Rightarrow> compile_opts \<Rightarrow> vec kvcache \<Rightarrow> int list \<Rightarrow> study_item list result" where
  "selfstudy dl co full ids = (if co_study co = ''qa'' then selfstudy_qa dl (co_items co) (co_answer co) full ids
     else if co_study co = ''corpus_span'' then selfstudy_span dl (co_items co) (co_answer co) full ids
     else Inl (ValueError (''unknown selfstudy '' @ co_study co)))"

section \<open>The student and the loss\<close>

text \<open>
  \<^verbatim>\<open>_student_logits\<close>: the query after the whole corpus in position, over the rows of the cache, with no bias.
\<close>

definition student_logits :: "model_spec \<Rightarrow> decode_fwd \<Rightarrow> nat \<Rightarrow> nat \<Rightarrow> pars \<Rightarrow> int list \<Rightarrow> real list list" where
  "student_logits sp dfwd T t pars q = dfwd pars (zero_betas sp (t + length q)) (decode_mask t (length q)) (arange T (T + length q)) q"

text \<open>\<^verbatim>\<open>(t_lp.exp() * (t_lp - s_lp)).sum(-1).mean()\<close>.\<close>

definition kl_row :: "real list \<Rightarrow> real list \<Rightarrow> real" where
  "kl_row p q = sum_list (map2 (\<lambda>a b. exp a * (a - b)) p q)"

definition kl_rows :: "real list list \<Rightarrow> real list list \<Rightarrow> real" where
  "kl_rows ps qs = sum_list (map2 kl_row ps qs) / real (length (zip ps qs))"

definition item_loss :: "model_spec \<Rightarrow> decode_fwd \<Rightarrow> nat \<Rightarrow> nat \<Rightarrow> study_item \<Rightarrow> pars \<Rightarrow> real" where
  "item_loss sp dfwd T t it pars = (case it of (q, t_lp, n) \<Rightarrow>
     kl_rows t_lp (map log_softmax (last_rows n (student_logits sp dfwd T t pars q))))"

section \<open>Compiling\<close>

type_synonym 'o optimizer = "(pars \<Rightarrow> real) list \<Rightarrow> pars \<times> 'o \<Rightarrow> pars \<times> 'o"

fun train_steps :: "'o optimizer \<Rightarrow> (pars \<Rightarrow> real) list \<Rightarrow> nat \<Rightarrow> pars \<times> 'o \<Rightarrow> pars \<times> 'o" where
  "train_steps opt losses 0 s = s"
| "train_steps opt losses (Suc n) s = train_steps opt losses n (opt losses s)"

record trained =
  tr_spec :: model_spec
  tr_layers :: pars
  tr_positions :: "int list"
  tr_logical :: nat
  tr_t :: nat
  tr_steps :: nat
  tr_items :: nat

definition compile :: "distiller \<Rightarrow> 'o optimizer \<Rightarrow> 'o \<Rightarrow> compile_opts \<Rightarrow> string \<Rightarrow> trained result" where
  "compile dl opt o0 co corpus = (let sp = dl_spec dl; ids = corpus_ids dl co corpus; T = length ids; t = min (co_t co) T in
     if co_verbose co \<and> t = 0 then Inl ZeroDivisionError else
     (let full = hf_prefill sp (dl_fwd dl) ids 0; idx = linspace_idx T t in
      res_bind (warm_start sp idx full) (\<lambda>p0. res_bind (selfstudy dl co full ids) (\<lambda>items.
        if items = [] then Inl (RuntimeError ''self-study produced no training items'') else
        Inr \<lparr>tr_spec = sp, tr_layers = fst (train_steps opt (map (item_loss sp (dl_dfwd dl) T t) items) (co_steps co) (p0, o0)),
          tr_positions = map (\<lambda>i. kv_positions full ! i) idx, tr_logical = T, tr_t = t, tr_steps = co_steps co,
          tr_items = length items\<rparr>))))"

section \<open>The rows of the warm start\<close>

lemma linspace_idx_full: "linspace_idx n n = [0..<n]"
proof (cases "n = 1")
  case False
  have "map (\<lambda>i. i * (n - 1) div (n - 1)) [0..<n] = map id [0..<n]"
    by (rule map_cong) (use False in auto)
  then show ?thesis using False by (simp add: linspace_idx_def)
qed (simp add: linspace_idx_def)

lemma length_linspace_idx [simp]: "length (linspace_idx T n) = n"
  by (simp add: linspace_idx_def)

text \<open>No more indices than rows: they are strictly increasing.\<close>

lemma linspace_idx_increasing:
  assumes "n \<le> T"
  shows "sorted_wrt (<) (linspace_idx T n)"
proof (cases "n \<le> 1")
  case True then show ?thesis by (cases n) (simp_all add: linspace_idx_def)
next
  case False
  have step: "i * (T - 1) div (n - 1) < Suc i * (T - 1) div (n - 1)" for i
  proof -
    have "Suc (i * (T - 1) div (n - 1)) = (i * (T - 1) + (n - 1)) div (n - 1)"
      using False div_add_self2 [of "n - 1" "i * (T - 1)"] by linarith
    also have "\<dots> \<le> (i * (T - 1) + (T - 1)) div (n - 1)" using assms by (intro div_le_mono) simp
    finally show ?thesis by (simp add: add.commute)
  qed
  have "i * (T - 1) div (n - 1) < j * (T - 1) div (n - 1)" if "i < j" for i j
    using lift_Suc_mono_less [of "\<lambda>i. i * (T - 1) div (n - 1)", OF step that] .
  then show ?thesis using False by (auto simp: linspace_idx_def sorted_wrt_iff_nth_less)
qed

lemma pick_rows_all: "list_all (\<lambda>h. length h = n) (lkey l) \<Longrightarrow> list_all (\<lambda>h. length h = n) (lval l) \<Longrightarrow> pick_rows [0..<n] l = l"
  by (auto simp: pick_rows_def list_all_iff intro!: layer_kv.equality map_idI) (metis map_nth)+

lemma warm_start_full:
  assumes "shaped sp n (kv_layers full)" "0 < n_layers sp"
  shows "warm_start sp [0..<n] full = Inr (kv_layers full)"
proof -
  have l: "length (kv_layers full) = n_layers sp" using assms(1) by (simp add: shaped_def)
  have "res_map (\<lambda>li. res_bind (get_at (kv_layers full) li) (\<lambda>l. Inr (pick_rows [0..<n] l))) [0..<n_layers sp]
    = Inr (map (\<lambda>li. kv_layers full ! li) [0..<n_layers sp])"
    using assms(1) by (intro res_map_const) (auto simp: l get_at_def shaped_def list_all_length intro!: pick_rows_all)
  moreover have "map (\<lambda>li. kv_layers full ! li) [0..<n_layers sp] = kv_layers full" unfolding l [symmetric] by (rule map_nth)
  ultimately show ?thesis using assms(2) by (simp add: warm_start_def)
qed

section \<open>The loss\<close>

lemma log_softmax_normal:
  assumes "xs \<noteq> []" shows "sum_list (map exp (log_softmax xs)) = 1"
proof -
  let ?s = "sum_list (map exp xs)"
  have "0 < ?s" using assms by (cases xs) (auto intro!: add_pos_nonneg sum_list_nonneg)
  then have "map exp (log_softmax xs) = map (\<lambda>x. exp x / ?s) xs" by (simp add: log_softmax_def exp_diff)
  then have "sum_list (map exp (log_softmax xs)) = ?s / ?s" by (simp add: divide_inverse sum_list_mult_const)
  then show ?thesis using \<open>0 < ?s\<close> by simp
qed

lemma length_log_softmax [simp]: "length (log_softmax xs) = length xs"
  by (simp add: log_softmax_def)

lemma kl_row_self [simp]: "kl_row p p = 0"
proof -
  have "map2 (\<lambda>a b. exp a * (a - b)) p p = replicate (length p) 0" by (rule nth_equalityI) auto
  then show ?thesis by (simp add: kl_row_def sum_list_replicate)
qed

lemma kl_rows_self [simp]: "kl_rows ps ps = 0"
proof -
  have "map2 kl_row ps ps = replicate (length ps) 0" by (rule nth_equalityI) auto
  then show ?thesis by (simp add: kl_rows_def sum_list_replicate)
qed

text \<open>A divergence of two log-probability rows is not negative.\<close>

lemma exp_diff_le: "exp a - exp b \<le> exp a * (a - b)" for a b :: real
proof -
  have "exp (b - a) \<ge> 1 + (b - a)" by (rule exp_ge_add_one_self)
  then have "exp a * (1 + (b - a)) \<le> exp a * exp (b - a)" by (intro mult_left_mono) auto
  also have "\<dots> = exp b" by (simp add: exp_add [symmetric])
  finally show ?thesis by (simp add: algebra_simps)
qed

lemma kl_row_ge: "length p = length q \<Longrightarrow> sum_list (map exp p) - sum_list (map exp q) \<le> kl_row p q"
proof (induction p q rule: list_induct2)
  case (Cons a p b q)
  then show ?case using exp_diff_le [of a b] by (simp add: kl_row_def)
qed (simp add: kl_row_def)

lemma kl_row_nonneg:
  assumes "length x = length y" "x \<noteq> []"
  shows "0 \<le> kl_row (log_softmax x) (log_softmax y)"
  using kl_row_ge [of "log_softmax x" "log_softmax y"] assms log_softmax_normal [of x] log_softmax_normal [of y] by force

text \<open>Every item holds the teacher's rows over the end of its query, and its span is how many.\<close>

definition item_ok :: "distiller \<Rightarrow> vec kvcache \<Rightarrow> study_item \<Rightarrow> bool" where
  "item_ok dl full it \<longleftrightarrow> (case it of (q, t_lp, n) \<Rightarrow> 0 < n \<and> n \<le> length q
     \<and> (\<exists>lg. teacher dl full q = Inr lg \<and> t_lp = map log_softmax (last_rows n lg)))"

lemma kept_ok:
  assumes "res_map f xs = Inr ys" "\<And>x it. x \<in> set xs \<Longrightarrow> f x = Inr (Some it) \<Longrightarrow> P it" "it \<in> set (kept ys)"
  shows "P it"
proof -
  from assms(3) have "Some it \<in> set ys" by (auto simp: kept_def)
  then obtain i where "i < length ys" "ys ! i = Some it" by (auto simp: in_set_conv_nth)
  with res_map_nth [OF assms(1)] have "i < length xs" "f (xs ! i) = Inr (Some it)" by auto
  then show ?thesis using assms(2) by (metis nth_mem)
qed

lemma qa_item_ok: "qa_item dl answer_len full ids c = Inr (Some it) \<Longrightarrow> item_ok dl full it"
  by (auto simp: qa_item_def item_ok_def Let_def split: prod.splits if_splits)

lemma last_rows_all [simp]: "length xs \<le> n \<Longrightarrow> last_rows n xs = xs"
  by (simp add: last_rows_def)

lemma length_decode: "decode_logits sp dfwd c q = Inr lg \<Longrightarrow> \<exists>a b m p. lg = dfwd a b m p q"
  by (auto simp: decode_logits_def Let_def split: if_splits)

lemma span_item_ok:
  assumes "span_item dl n full ids st = Inr (Some it)" "\<And>a b m p q. length (dl_dfwd dl a b m p q) \<le> length q"
  shows "item_ok dl full it"
proof -
  obtain q lg where "it = (q, map log_softmax lg, length q)" "teacher dl full q = Inr lg" "2 \<le> length q"
    using assms(1) by (auto simp: span_item_def Let_def split: if_splits)
  moreover from this have "length lg \<le> length q" using length_decode [of _ "dl_dfwd dl"] assms(2) unfolding teacher_def by metis
  ultimately show ?thesis by (auto simp: item_ok_def)
qed

lemma selfstudy_items:
  assumes "selfstudy dl co full ids = Inr items" "\<And>a b m p q. length (dl_dfwd dl a b m p q) \<le> length q" "it \<in> set items"
  shows "item_ok dl full it"
  using assms by (auto simp: selfstudy_def selfstudy_qa_def selfstudy_span_def Let_def split: if_splits
      elim!: kept_ok intro: qa_item_ok span_item_ok)

section \<open>A cartridge that holds the whole corpus\<close>

text \<open>The student's pass is the teacher's when the cartridge is the cache of the corpus.\<close>

lemma student_is_teacher:
  assumes "heads_ok (dl_spec dl)" "shaped (dl_spec dl) n (kv_layers full)" "seq_len full = n" "teacher dl full q = Inr lg"
  shows "student_logits (dl_spec dl) (dl_dfwd dl) n n (kv_layers full) q = lg"
proof -
  let ?sp = "dl_spec dl"
  have "map (map (\<lambda>b. b @ replicate (length q) (Some 0))) (zero_betas ?sp n) = zero_betas ?sp (n + length q)"
    by (simp add: zero_betas_def replicate_add)
  then show ?thesis using assms(3,4) build_shaped [OF assms(1,2)]
    by (auto simp: teacher_def decode_logits_def Let_def physical_len_def logical_len_def student_logits_def split: if_splits)
qed

lemma full_loss:
  assumes "heads_ok (dl_spec dl)" "shaped (dl_spec dl) n (kv_layers full)" "seq_len full = n" "item_ok dl full it"
  shows "item_loss (dl_spec dl) (dl_dfwd dl) n n it (kv_layers full) = 0"
  using assms(4) student_is_teacher [OF assms(1-3)] by (auto simp: item_ok_def item_loss_def)

text \<open>What is relied on of a transformer's pass: one row of logits per query token, over one vocabulary.\<close>

definition vocab_rows :: "decode_fwd \<Rightarrow> nat \<Rightarrow> bool" where
  "vocab_rows dfwd V \<longleftrightarrow> 0 < V \<and> (\<forall>a b m p q. length (dfwd a b m p q) = length q \<and> (\<forall>r\<in>set (dfwd a b m p q). length r = V))"

lemma kl_rows_nonneg:
  assumes "0 < V" "\<And>r. r \<in> set xs \<union> set ys \<Longrightarrow> length r = V"
  shows "0 \<le> kl_rows (map log_softmax xs) (map log_softmax ys)"
proof -
  have "0 \<le> x" if "x \<in> set (map2 kl_row (map log_softmax xs) (map log_softmax ys))" for x
  proof -
    from that obtain a b where ab: "(a, b) \<in> set (zip xs ys)" "x = kl_row (log_softmax a) (log_softmax b)"
      by (auto simp: zip_map1 zip_map2)
    then have "length a = V" "length b = V" using assms(2) by (auto dest: set_zip_leftD set_zip_rightD)
    then show ?thesis unfolding ab(2) using assms(1) by (intro kl_row_nonneg) auto
  qed
  then have "0 \<le> sum_list (map2 kl_row (map log_softmax xs) (map log_softmax ys))" by (rule sum_list_nonneg)
  then show ?thesis by (simp add: kl_rows_def)
qed

lemma loss_nonneg:
  assumes "vocab_rows (dl_dfwd dl) V" "item_ok dl full it"
  shows "0 \<le> item_loss (dl_spec dl) (dl_dfwd dl) T t it pars"
proof -
  obtain q t_lp n where it: "it = (q, t_lp, n)" by (cases it)
  then obtain lg where lg: "teacher dl full q = Inr lg" "t_lp = map log_softmax (last_rows n lg)" using assms(2) by (auto simp: item_ok_def)
  let ?s = "last_rows n (student_logits (dl_spec dl) (dl_dfwd dl) T t pars q)"
  have "length r = V" if "r \<in> set (last_rows n lg) \<union> set ?s" for r
    using that assms(1) lg(1) length_decode [of "dl_spec dl" "dl_dfwd dl" "Raw full" q lg]
    by (auto simp: vocab_rows_def teacher_def student_logits_def last_rows_def dest: in_set_dropD)
  then show ?thesis using kl_rows_nonneg [of V "last_rows n lg" ?s] assms(1) by (simp add: it lg(2) item_loss_def vocab_rows_def)
qed

lemma compile_steps:
  assumes "compile dl opt o0 co corpus = Inr c"
  defines "ids \<equiv> corpus_ids dl co corpus" and "full \<equiv> hf_prefill (dl_spec dl) (dl_fwd dl) (corpus_ids dl co corpus) 0"
  obtains p0 items where "warm_start (dl_spec dl) (linspace_idx (length ids) (min (co_t co) (length ids))) full = Inr p0"
    "selfstudy dl co full ids = Inr items" "items \<noteq> []" "0 < n_layers (dl_spec dl)"
    "c = \<lparr>tr_spec = dl_spec dl, tr_layers = fst (train_steps opt (map (item_loss (dl_spec dl) (dl_dfwd dl) (length ids)
        (min (co_t co) (length ids))) items) (co_steps co) (p0, o0)),
      tr_positions = map (\<lambda>i. arange 0 (length ids) ! i) (linspace_idx (length ids) (min (co_t co) (length ids))),
      tr_logical = length ids, tr_t = min (co_t co) (length ids), tr_steps = co_steps co, tr_items = length items\<rparr>"
  using assms by (auto simp: compile_def Let_def warm_start_def hf_prefill_def split: if_splits)

lemma arange_pick:
  assumes "t \<le> T"
  shows "map (\<lambda>i. arange 0 T ! i) (linspace_idx T t) = map int (linspace_idx T t)"
proof (cases "T = 0")
  case True then show ?thesis using assms by (simp add: linspace_idx_def)
next
  case False
  then show ?thesis using linspace_idx_bounds [of _ T t] by (auto simp: arange_def)
qed


definition demo_vec :: "vec kv_vec" where
  "demo_vec t l h b = [real_of_int t]"

definition demo_distiller :: distiller where
  "demo_distiller = \<lparr>dl_spec = two_head_spec, dl_fwd = fake_fwd two_head_spec demo_vec, dl_dfwd = toy_dfwd two_head_spec demo_vec,
     dl_pick = (\<lambda>i row. 7), dl_tokenize = map (\<lambda>c. int (of_char c)), dl_plain = map (\<lambda>c. int (of_char c)), dl_detok = (\<lambda>ts. [])\<rparr>"

definition demo_compile :: compile_opts where
  "demo_compile = \<lparr>co_t = 5, co_steps = 0, co_items = 1, co_answer = 1, co_study = ''corpus_span'', co_max = None, co_verbose = True\<rparr>"

definition demo_opt :: "unit optimizer" where
  "demo_opt losses s = s"

definition demo_doc :: "int list" where
  "demo_doc = [97, 98, 99]"

lemma demo_doc_ids: "corpus_ids demo_distiller demo_compile ''abc'' = demo_doc"
  by (simp add: corpus_ids_def demo_distiller_def demo_compile_def demo_doc_def)

lemma demo_heads: "heads_ok two_head_spec" "0 < n_layers two_head_spec"
  by (simp_all add: heads_ok_def two_head_spec_def)

lemma toy_row_length: "length (toy_row two_head_spec f) = length (f 0 0) + length (f 0 1)"
  by (simp add: toy_row_def two_head_spec_def upt_rec)

lemma demo_vocab: "vocab_rows (toy_dfwd two_head_spec demo_vec) 2"
  by (auto simp: vocab_rows_def toy_dfwd_def toy_row_length eager_row_def Let_def) (simp add: two_head_spec_def)

lemma demo_shaped: "shaped two_head_spec (length demo_doc) (fake_fwd two_head_spec demo_vec (empty_raw two_head_spec) demo_doc (arange 0 (length demo_doc)))"
  using toy_decode.past_shaped [of two_head_spec demo_doc demo_vec] by (simp add: demo_doc_def)

lemma demo_fields:
  "dl_spec demo_distiller = two_head_spec" "dl_fwd demo_distiller = fake_fwd two_head_spec demo_vec"
  "dl_dfwd demo_distiller = toy_dfwd two_head_spec demo_vec" "co_t demo_compile = 5" "co_steps demo_compile = 0" "co_max demo_compile = None"
  "co_study demo_compile = ''corpus_span''" "co_items demo_compile = 1" "co_answer demo_compile = 1" "co_verbose demo_compile"
  by (simp_all add: demo_compile_def demo_distiller_def)

lemma demo_compiled: "\<exists>c. compile demo_distiller demo_opt () demo_compile ''abc'' = Inr c"
proof -
  let ?full = "hf_prefill two_head_spec (fake_fwd two_head_spec demo_vec) demo_doc 0"
  have w: "warm_start two_head_spec [0..<length demo_doc] ?full = Inr (kv_layers ?full)"
    by (intro warm_start_full demo_heads(2)) (use demo_shaped in \<open>simp add: hf_prefill_def Let_def\<close>)
  obtain lg where lg: "decode_logits two_head_spec (toy_dfwd two_head_spec demo_vec) (Raw ?full) demo_doc = Inr lg"
    using toy_decode.decode_pre [OF demo_heads(1), of demo_doc demo_doc demo_vec] by (auto simp: demo_doc_def)
  have "min 5 (length demo_doc) = length demo_doc" "length demo_doc \<noteq> 0" "length demo_doc - 8 = 0" "take 8 demo_doc = demo_doc"
    "\<not> length demo_doc < 2" by (simp_all add: demo_doc_def)
  moreover have "linspace_idx (Suc 0) (Suc 0) = [0]" by (simp add: linspace_idx_def)
  ultimately have "selfstudy demo_distiller demo_compile ?full demo_doc = Inr [(demo_doc, map log_softmax lg, length demo_doc)]"
    using lg by (simp add: demo_fields selfstudy_def selfstudy_span_def span_item_def teacher_def kept_def)
  moreover have "min 5 (length demo_doc) = length demo_doc" "length demo_doc \<noteq> 0" by (simp_all add: demo_doc_def)
  ultimately show ?thesis using w unfolding compile_def demo_doc_ids Let_def demo_fields linspace_idx_full
    by (simp add: linspace_idx_full)
qed


section \<open>What an answer item distills\<close>

text \<open>
  The rows of an item are the last \<open>span\<close> of its query, so they predict what comes after each answer token: the distribution
  of the first answer token, given the question, is never a target, and the one after the whole answer is.
\<close>

lemma last_rows_map:
  assumes "k \<le> n" shows "last_rows k (map f [0..<n]) = map (\<lambda>j. f (n - k + j)) [0..<k]"
  by (rule nth_equalityI) (use assms in \<open>auto simp: last_rows_def\<close>)

lemma qa_item_shape:
  assumes "qa_item dl m full ids c = Inr (Some (q, rows, k))"
  obtains prefix a lg where "q = prefix @ a" "k = length a" "a \<noteq> []" "rows = map log_softmax (last_rows (length a) lg)"
    "teacher dl full (prefix @ a) = Inr lg"
proof -
  let ?al = "dl_plain dl ([CHR 0x0A] @ ''Answer:'')"
  obtain i st where "c = (i, st)" by (cases c)
  with assms obtain x a lg where "teacher dl full ((x @ ?al) @ a) = Inr lg" "q = (x @ ?al) @ a" "a \<noteq> []" "k = length a"
    "rows = map log_softmax (last_rows (length a) lg)"
    by (auto simp: qa_item_def Let_def split: if_splits)
  then show ?thesis using that by blast
qed

context causal_logits
begin

lemma qa_rows:
  assumes "heads_ok sp" "ids \<noteq> []" "dl_spec dl = sp" "dl_fwd dl = fwd" "dl_dfwd dl = dfwd"
    "qa_item dl m (hf_prefill sp fwd ids 0) ids c = Inr (Some (q, rows, k))"
  shows "\<exists>prefix a. q = prefix @ a \<and> length a = k \<and> a \<noteq> []
    \<and> rows = map (\<lambda>j. log_softmax (next_logits (ids @ prefix @ take (Suc j) a))) [0..<k]"
proof -
  obtain prefix a lg where p: "q = prefix @ a" "k = length a" "a \<noteq> []" "rows = map log_softmax (last_rows (length a) lg)"
    "teacher dl (hf_prefill sp fwd ids 0) (prefix @ a) = Inr lg"
    using assms(6) by (rule qa_item_shape)
  have "lg = map (\<lambda>j. next_logits (ids @ take (Suc j) (prefix @ a))) [0..<length (prefix @ a)]"
    using decode_pre [OF assms(1,2), of "prefix @ a"] p(3,5) by (simp add: teacher_def assms(3,5))
  then have "last_rows (length a) lg = map (\<lambda>j. next_logits (ids @ take (Suc (length (prefix @ a) - length a + j)) (prefix @ a))) [0..<length a]"
    by (simp only: last_rows_map length_append le_add2)
  also have "\<dots> = map (\<lambda>j. next_logits (ids @ prefix @ take (Suc j) a)) [0..<length a]" by (rule map_cong) auto
  finally show ?thesis using p(1-4) by auto
qed

end

lemma first_answer_token_untrained:
  assumes "heads_ok sp" "ids \<noteq> []" "dl_spec dl = sp" "dl_fwd dl = fake_fwd sp vec" "dl_dfwd dl = toy_dfwd sp vec"
    "qa_item dl m (hf_prefill sp (fake_fwd sp vec) ids 0) ids c = Inr (Some (q, rows, k))"
  shows "\<exists>prefix a. q = prefix @ a \<and> length a = k \<and> a \<noteq> []
    \<and> rows = map (\<lambda>j. log_softmax (toy_next sp vec (ids @ prefix @ take (Suc j) a))) [0..<k]"
  using assms by (rule toy_decode.qa_rows)

end
