(* ===== verification/StillTrain.thy ===== *)
theory StillTrain imports Still Distill begin

text \<open>
  Training the learned compactor, \<^verbatim>\<open>dexa/compaction/still/train.py\<close>: decoding over layers with optional biases, the loss of a
  sample (teacher over the full cache, student over the compact one), and the loop that distills all samples at once. The
  base model is the passes of \<open>Decode\<close>; the optimizer is a parameter that makes the next perceivers and its next state from the loss
  as a function of the perceivers. The command line, the random samples and the reading of a configuration are not modelled.
\<close>

type_synonym torch_layer = "vec list list \<times> vec list list \<times> real list list option"

text \<open>\<^verbatim>\<open>build_perceivers\<close>; \<open>theta\<close> is the base of the model's configuration, absent or zero when it has none.\<close>

definition build_perceivers :: "(nat \<Rightarrow> drawn) \<Rightarrow> model_spec \<Rightarrow> real option \<Rightarrow> nat \<Rightarrow> real \<Rightarrow> nat \<Rightarrow> real \<Rightarrow> real \<Rightarrow> perceiver list result" where
  "build_perceivers rnd sp theta n internal heads ratio temp =
    (let th = (case theta of Some x \<Rightarrow> if x \<noteq> 0 then x else 10000 | None \<Rightarrow> 10000) in
     res_map (\<lambda>i. new_perceiver (head_dim sp) n th internal heads ratio temp (rnd i)) [0..<n_layers sp])"

text \<open>The bias of one layer over all columns: zero on the new tokens, and everywhere when there is none.\<close>

definition layer_beta :: "model_spec \<Rightarrow> nat \<Rightarrow> nat \<Rightarrow> real list list option \<Rightarrow> real option list list result" where
  "layer_beta sp phys q beta = (case beta of
     None \<Rightarrow> Inr (replicate (n_q_heads sp) (replicate (phys + q) (Some 0)))
   | Some b \<Rightarrow> res_bind (group_size sp) (\<lambda>g. let bq = repeat_kv g b in
       if length bq \<noteq> n_q_heads sp \<or> (\<exists>r\<in>set bq. length r \<noteq> phys) then Inl (RuntimeError ''shape mismatch'')
       else Inr (map (\<lambda>r. map Some r @ replicate q (Some 0)) bq)))"

definition train_logits :: "model_spec \<Rightarrow> decode_fwd \<Rightarrow> torch_layer list \<Rightarrow> nat \<Rightarrow> int list \<Rightarrow> real list list result" where
  "train_logits sp dfwd layers logical ids = (case layers of
     [] \<Rightarrow> Inl IndexError
   | (k0, _) # _ \<Rightarrow> (let phys = (case k0 of [] \<Rightarrow> 0 | h # _ \<Rightarrow> length h); q = length ids in
       res_bind (res_map (\<lambda>li. res_bind (get_at layers li) (\<lambda>(k, v, b). layer_beta sp phys q b)) [0..<n_layers sp]) (\<lambda>betas.
         Inr (dfwd (map (\<lambda>(k, v, b). \<lparr>lkey = k, lval = v\<rparr>) layers) betas (decode_mask phys q) (arange logical (logical + q)) ids))))"

definition full_kv_layers :: "model_spec \<Rightarrow> vec forward \<Rightarrow> int list \<Rightarrow> vec layer_kv list result" where
  "full_kv_layers sp fwd ctx = res_map (get_at (fwd (empty_raw sp) ctx (arange 0 (length ctx)))) [0..<n_layers sp]"

text \<open>The layers the student attends over, from one pass of each perceiver.\<close>

definition student_layer :: "(vec \<Rightarrow> vec \<Rightarrow> vec) \<Rightarrow> (real \<Rightarrow> real) \<Rightarrow> perceiver list \<Rightarrow> real list \<Rightarrow> nat \<times> vec layer_kv \<Rightarrow> torch_layer result" where
  "student_layer nrm act ps positions il = (case il of (li, l) \<Rightarrow> res_bind (get_at ps li) (\<lambda>pv.
     res_bind (forward_layer nrm act pv positions l) (\<lambda>(hs, cp). Inr (map fst hs, map (fst \<circ> snd) hs, Some (map (snd \<circ> snd) hs)))))"

definition sample_loss :: "(vec \<Rightarrow> vec \<Rightarrow> vec) \<Rightarrow> (real \<Rightarrow> real) \<Rightarrow> model_spec \<Rightarrow> vec forward \<Rightarrow> decode_fwd \<Rightarrow> perceiver list
    \<Rightarrow> int list \<times> int list \<Rightarrow> real result" where
  "sample_loss nrm act sp fwd dfwd ps smp = (case smp of (ctx, ans) \<Rightarrow>
     res_bind (full_kv_layers sp fwd ctx) (\<lambda>full.
     res_bind (train_logits sp dfwd (map (\<lambda>l. (lkey l, lval l, None)) full) (length ctx) ans) (\<lambda>tl.
     res_bind (res_map (student_layer nrm act ps (map real [0..<length ctx])) (enumerate 0 full)) (\<lambda>sls.
     res_bind (train_logits sp dfwd sls (length ctx) ans) (\<lambda>sl.
       Inr (kl_rows (map log_softmax tl) (map log_softmax sl)))))))"

text \<open>The mean loss of a step; \<^verbatim>\<open>torch.stack\<close> of no losses raises.\<close>

definition batch_loss :: "(perceiver list \<Rightarrow> int list \<times> int list \<Rightarrow> real result) \<Rightarrow> (int list \<times> int list) list \<Rightarrow> perceiver list \<Rightarrow> real result" where
  "batch_loss f samples ps = res_bind (res_map (f ps) samples) (\<lambda>ls. if ls = [] then Inl (RuntimeError ''stack expects a non-empty TensorList'')
     else Inr (sum_list ls / real (length ls)))"

type_synonym 'o still_opt = "(perceiver list \<Rightarrow> real result) \<Rightarrow> perceiver list \<times> 'o \<Rightarrow> perceiver list \<times> 'o"

text \<open>The loop: the loss before each step is recorded; an exception leaves the perceivers as the last step made them.\<close>

fun still_loop :: "'o still_opt \<Rightarrow> (perceiver list \<Rightarrow> real result) \<Rightarrow> nat \<Rightarrow> perceiver list \<times> 'o \<Rightarrow> real list result \<times> perceiver list" where
  "still_loop opt loss 0 s = (Inr [], fst s)"
| "still_loop opt loss (Suc n) s = (case loss (fst s) of Inl e \<Rightarrow> (Inl e, fst s)
    | Inr x \<Rightarrow> (case still_loop opt loss n (opt loss s) of (r, ps) \<Rightarrow> (res_bind r (\<lambda>h. Inr (x # h)), ps)))"

definition still_train :: "(vec \<Rightarrow> vec \<Rightarrow> vec) \<Rightarrow> (real \<Rightarrow> real) \<Rightarrow> model_spec \<Rightarrow> vec forward \<Rightarrow> decode_fwd \<Rightarrow> 'o still_opt \<Rightarrow> 'o
    \<Rightarrow> (int list \<times> int list) list \<Rightarrow> perceiver list \<Rightarrow> nat \<Rightarrow> real list result \<times> perceiver list" where
  "still_train nrm act sp fwd dfwd opt o0 samples ps steps =
     still_loop opt (batch_loss (sample_loss nrm act sp fwd dfwd) samples) steps (ps, o0)"

section \<open>The recorded losses\<close>

lemma train_logits_rows:
  assumes "train_logits sp dfwd layers n ids = Inr lg" "vocab_rows dfwd V" "r \<in> set lg"
  shows "length r = V"
  using assms by (auto simp: train_logits_def vocab_rows_def Let_def split: list.splits)

lemma sample_loss_nonneg:
  assumes "sample_loss nrm act sp fwd dfwd ps smp = Inr x" "vocab_rows dfwd V"
  shows "0 \<le> x"
proof -
  obtain ctx ans where s: "smp = (ctx, ans)" by (cases smp)
  with assms(1) obtain full :: "vec layer_kv list" and tl sls sl where
    t: "train_logits sp dfwd (map (\<lambda>l. (lkey l, lval l, None)) full) (length ctx) ans = Inr tl"
      "train_logits sp dfwd sls (length ctx) ans = Inr sl" "x = kl_rows (map log_softmax tl) (map log_softmax sl)"
    by (auto simp: sample_loss_def)
  then have "length r = V" if "r \<in> set tl \<union> set sl" for r
    using that train_logits_rows [OF _ assms(2)] by blast
  moreover have "0 < V" using assms(2) by (simp add: vocab_rows_def)
  ultimately show ?thesis unfolding t(3) by (intro kl_rows_nonneg) auto
qed

lemma batch_loss_nonneg:
  assumes "batch_loss f samples ps = Inr x" "\<And>smp y. f ps smp = Inr y \<Longrightarrow> 0 \<le> y"
  shows "0 \<le> x"
proof -
  obtain ls where ls: "res_map (f ps) samples = Inr ls" "x = sum_list ls / real (length ls)"
    using assms(1) by (auto simp: batch_loss_def split: if_splits)
  have "0 \<le> y" if "y \<in> set ls" for y
    using that res_map_nth [OF ls(1)] assms(2) by (metis in_set_conv_nth)
  then show ?thesis unfolding ls(2) by (intro divide_nonneg_nonneg sum_list_nonneg) auto
qed

lemma still_loop_history:
  assumes "fst (still_loop opt loss n s) = Inr h" "\<And>ps x. loss ps = Inr x \<Longrightarrow> 0 \<le> x"
  shows "length h = n \<and> (\<forall>x\<in>set h. 0 \<le> x) \<and> (n \<noteq> 0 \<longrightarrow> loss (fst s) = Inr (hd h))"
  using assms(1)
proof (induction n arbitrary: s h)
  case (Suc n)
  then obtain x where x: "loss (fst s) = Inr x" by (cases "loss (fst s)") auto
  obtain r ps where r: "still_loop opt loss n (opt loss s) = (r, ps)" by (cases "still_loop opt loss n (opt loss s)")
  with Suc.prems x obtain h' where "r = Inr h'" "h = x # h'" by (cases r) auto
  with Suc.IH [of "opt loss s" h'] r x assms(2) show ?case by auto
qed simp

section \<open>One token, one latent\<close>

text \<open>
  A fresh perceiver of one latent over a context of one token gives the token back, so the student is the teacher and nothing is lost.
\<close>

definition one_token_layer :: "model_spec \<Rightarrow> vec layer_kv \<Rightarrow> bool" where
  "one_token_layer sp l \<longleftrightarrow> length (lkey l) = n_kv_heads sp \<and> length (lval l) = n_kv_heads sp
     \<and> (\<forall>h\<in>set (lkey l) \<union> set (lval l). length h = 1 \<and> (\<forall>x\<in>set h. length x = head_dim sp))"

lemma one_token_head:
  assumes "new_perceiver d 1 th internal heads ratio temp dr = Inr pv" "length k = 1" "length v = 1"
    "\<forall>x\<in>set k \<union> set v. length x = d"
  shows "head_forward nrm act pv [p] (k, v) = (k, v, [0])"
proof -
  obtain x y where s: "k = [x]" "v = [y]" using assms(2,3) by (auto simp: length_Suc_conv)
  then show ?thesis
    using init_forward [OF assms(1), of k "[p]" v nrm act] one_token_exact [OF assms(1), of x y p] assms(4) by simp
qed

lemma one_token_student:
  assumes "get_at ps li = Inr pv" "new_perceiver (head_dim sp) 1 th internal heads ratio temp dr = Inr pv" "one_token_layer sp l"
  shows "student_layer nrm act ps [p] (li, l) = Inr (lkey l, lval l, Some (replicate (n_kv_heads sp) [0]))"
proof -
  have z: "length (zip (lkey l) (lval l)) = n_kv_heads sp" using assms(3) by (simp add: one_token_layer_def)
  have "map (head_forward nrm act pv [p]) (zip (lkey l) (lval l)) = map (\<lambda>(k, v). (k, v, [0])) (zip (lkey l) (lval l))"
  proof (intro map_cong refl)
    fix kv assume "kv \<in> set (zip (lkey l) (lval l))"
    moreover obtain k v where kv: "kv = (k, v)" by (cases kv)
    ultimately have "k \<in> set (lkey l)" "v \<in> set (lval l)" by (auto dest: set_zip_leftD set_zip_rightD)
    with assms(3) have "length k = 1" "length v = 1" "\<forall>x\<in>set k \<union> set v. length x = head_dim sp"
      unfolding one_token_layer_def by blast+
    from one_token_head [OF assms(2) this] show "head_forward nrm act pv [p] kv = (case kv of (k, v) \<Rightarrow> (k, v, [0]))" by (simp add: kv(1))
  qed
  then have "\<exists>cp. forward_layer nrm act pv [p] l = Inr (map (\<lambda>(k, v). (k, v, [0])) (zip (lkey l) (lval l)), cp)"
    by (simp add: forward_layer_def del: map_eq_conv)
  moreover have "map fst (zip (lkey l) (lval l)) = lkey l" "map snd (zip (lkey l) (lval l)) = lval l"
    using assms(3) by (simp_all add: one_token_layer_def)
  moreover have "map (\<lambda>x. [0]) (zip (lkey l) (lval l)) = replicate (n_kv_heads sp) [0 :: real]"
    unfolding z [symmetric] by (rule map_replicate_const)
  ultimately show ?thesis using assms(1) by (auto simp: student_layer_def comp_def case_prod_beta' simp del: map_fst_zip map_snd_zip)
qed

lemma zero_beta_layer:
  assumes "heads_ok sp"
  shows "layer_beta sp phys q (Some (replicate (n_kv_heads sp) (replicate phys 0))) = layer_beta sp phys q None"
  using heads_okD [OF assms] by (simp add: layer_beta_def repeat_kv_replicate Let_def replicate_add [symmetric])

lemma train_logits_same:
  assumes "length xs = n_layers sp" "length ys = n_layers sp" "\<And>li. li < n_layers sp \<Longrightarrow> fst (xs ! li) = fst (ys ! li)
      \<and> fst (snd (xs ! li)) = fst (snd (ys ! li)) \<and> (\<forall>q. layer_beta sp 1 q (snd (snd (xs ! li))) = layer_beta sp 1 q (snd (snd (ys ! li))))"
    "xs \<noteq> []" "\<exists>h hs. fst (hd xs) = h # hs \<and> length h = 1"
  shows "train_logits sp dfwd xs n ids = train_logits sp dfwd ys n ids"
proof -
  obtain k v b xs' where x: "xs = (k, v, b) # xs'" using assms(4) by (cases xs) auto
  obtain k' v' b' ys' where y: "ys = (k', v', b') # ys'" using assms(1,2) x by (cases ys) auto
  have "0 < n_layers sp" using assms(1) x by auto
  then have k: "k' = k" using assms(3) [of 0] x y by simp
  have "map (\<lambda>(k, v, b). \<lparr>lkey = k, lval = v\<rparr>) xs = map (\<lambda>(k, v, b). \<lparr>lkey = k, lval = v\<rparr>) ys"
    by (rule nth_equalityI) (use assms(1-3) in \<open>auto simp: case_prod_beta\<close>)
  moreover have "res_map (\<lambda>li. res_bind (get_at xs li) (\<lambda>(k, v, b). layer_beta sp 1 q b)) [0..<n_layers sp] =
    res_map (\<lambda>li. res_bind (get_at ys li) (\<lambda>(k, v, b). layer_beta sp 1 q b)) [0..<n_layers sp]" for q
    by (rule res_map_cong) (use assms(1-3) in \<open>auto simp: get_at_def case_prod_beta\<close>)
  moreover obtain h hs where "k = h # hs" "length h = 1" using assms(5) x by auto
  ultimately show ?thesis unfolding train_logits_def x y k by (simp del: map_eq_conv)
qed

text \<open>A context of one token whose cache the model makes of one row per head.\<close>

definition one_token_context :: "model_spec \<Rightarrow> vec forward \<Rightarrow> int list \<Rightarrow> bool" where
  "one_token_context sp fwd ctx \<longleftrightarrow> length ctx = 1 \<and> length (fwd (empty_raw sp) ctx (arange 0 1)) = n_layers sp
     \<and> (\<forall>l\<in>set (fwd (empty_raw sp) ctx (arange 0 1)). one_token_layer sp l)"

lemma one_token_loss:
  assumes sp: "heads_ok sp" "0 < n_layers sp" and ps: "build_perceivers rnd sp theta 1 internal heads ratio temp = Inr ps"
    and ctx: "one_token_context sp fwd ctx"
  shows "sample_loss nrm act sp fwd dfwd ps (ctx, ans) = Inr 0"
proof -
  define full where "full = fwd (empty_raw sp) ctx (arange 0 1)"
  have one: "length ctx = 1" "length full = n_layers sp" "\<And>l. l \<in> set full \<Longrightarrow> one_token_layer sp l"
    using ctx by (auto simp: one_token_context_def full_def)
  have f: "full_kv_layers sp fwd ctx = Inr full"
  proof -
    have "res_map (get_at full) [0..<n_layers sp] = Inr (map (\<lambda>i. full ! i) [0..<n_layers sp])"
      by (rule res_map_const) (simp add: get_at_def one(2))
    then show ?thesis using one(1,2) by (simp add: full_kv_layers_def full_def map_nth [symmetric]) (metis map_nth)
  qed
  have pv: "\<exists>th. get_at ps li = Inr (ps ! li) \<and> new_perceiver (head_dim sp) 1 th internal heads ratio temp (rnd li) = Inr (ps ! li)"
    if "li < n_layers sp" for li
    using res_map_nth [OF ps [unfolded build_perceivers_def Let_def]] that by (auto simp: get_at_def)
  let ?S = "\<lambda>l. (lkey l, lval l, Some (replicate (n_kv_heads sp) [0 :: real]))"
  have sl: "res_map (student_layer nrm act ps [0]) (enumerate 0 full) = Inr (map (\<lambda>(li, l). ?S l) (enumerate 0 full))"
  proof (rule res_map_const)
    fix il assume "il \<in> set (enumerate 0 full)"
    moreover obtain li l where "il = (li, l)" by (cases il)
    ultimately have il: "il = (li, l)" "li < n_layers sp" "l \<in> set full"
      using one(2) by (auto simp: in_set_enumerate_eq)
    from pv [OF il(2)] one_token_student [OF _ _ one(3) [OF il(3)]]
    show "student_layer nrm act ps [0] il = Inr (case il of (li, l) \<Rightarrow> ?S l)" unfolding il(1) by auto
  qed
  have e: "map (\<lambda>(li, l). ?S l) (enumerate 0 full) = map ?S full"
    by (rule nth_equalityI) (simp_all add: nth_enumerate_eq)
  have "full \<noteq> []" using one(2) sp(2) by auto
  moreover have "\<exists>h hs. lkey (hd full) = h # hs \<and> length h = 1"
    using one(3) [of "hd full"] \<open>full \<noteq> []\<close> heads_okD(2) [OF sp(1)] sp(1)
    by (cases "lkey (hd full)") (auto simp: one_token_layer_def heads_ok_def)
  ultimately have "train_logits sp dfwd (map (\<lambda>l. (lkey l, lval l, None)) full) 1 ans = train_logits sp dfwd (map ?S full) 1 ans"
    using one(2) zero_beta_layer [OF sp(1), of 1] by (intro train_logits_same) (auto simp: hd_map)
  moreover have "\<exists>lg. train_logits sp dfwd (map (\<lambda>l. (lkey l, lval l, None)) full) 1 ans = Inr lg"
  proof -
    have "\<exists>bs. res_map (\<lambda>li. res_bind (get_at (map (\<lambda>l. (lkey l, lval l, None)) full) li) (\<lambda>(k, v, b). layer_beta sp p q b)) [0..<n_layers sp] = Inr bs" for p q
      by (rule res_map_total) (simp add: get_at_def one(2) layer_beta_def)
    then show ?thesis using \<open>full \<noteq> []\<close> by (cases full) (auto simp: train_logits_def Let_def)
  qed
  ultimately show ?thesis using f sl one(1) by (auto simp: sample_loss_def e)
qed

text \<open>C36. The recorded losses are losses. Training that returns records as many as it was asked for steps, none negative; and
  fresh perceivers of one latent lose nothing over contexts of one token, so the first loss is exactly zero.\<close>

theorem still_training_sound:
  assumes "vocab_rows dfwd V" "fst (still_train nrm act sp fwd dfwd opt o0 samples ps steps) = Inr h"
  shows "length h = steps \<and> (\<forall>x\<in>set h. 0 \<le> x)
    \<and> (heads_ok sp \<and> 0 < n_layers sp \<and> (\<exists>rnd theta internal heads ratio temp. build_perceivers rnd sp theta 1 internal heads ratio temp = Inr ps)
        \<and> (\<forall>smp\<in>set samples. one_token_context sp fwd (fst smp)) \<and> steps \<noteq> 0 \<longrightarrow> hd h = 0)"
proof -
  let ?f = "sample_loss nrm act sp fwd dfwd"
  have "0 \<le> x" if "batch_loss ?f samples qs = Inr x" for qs x
    using that sample_loss_nonneg [OF _ assms(1)] by (rule batch_loss_nonneg)
  from still_loop_history [OF assms(2) [unfolded still_train_def] this]
  have h: "length h = steps" "\<forall>x\<in>set h. 0 \<le> x" "steps \<noteq> 0 \<longrightarrow> batch_loss ?f samples ps = Inr (hd h)" by auto
  have "hd h = 0" if a: "heads_ok sp" "0 < n_layers sp" "build_perceivers rnd sp theta 1 internal heads ratio temp = Inr ps"
    "\<forall>smp\<in>set samples. one_token_context sp fwd (fst smp)" "steps \<noteq> 0" for rnd theta internal heads ratio temp
  proof -
    have "res_map (?f ps) samples = Inr (map (\<lambda>s. 0) samples)"
      by (rule res_map_const) (use one_token_loss [OF a(1-3)] a(4) in auto)
    then show ?thesis using h(3) a(5) by (auto simp: batch_loss_def sum_list_replicate map_replicate_const split: if_splits)
  qed
  with h(1,2) show ?thesis by blast
qed

definition still_spec :: model_spec where
  "still_spec = \<lparr>ms_name = ''s'', n_layers = 1, n_q_heads = 1, n_kv_heads = 1, head_dim = 2, hidden_size = 2, ms_dtype = ''float32''\<rparr>"

definition still_fwd :: "vec forward" where
  "still_fwd past ts ps = [\<lparr>lkey = [map (\<lambda>t. [real_of_int t, 1]) ts], lval = [map (\<lambda>t. [2, real_of_int t]) ts]\<rparr>]"

definition still_dfwd :: decode_fwd where
  "still_dfwd cache betas m ps ids = map (\<lambda>i. [real_of_int i, real (length cache)]) ids"

definition still_drawn :: drawn where
  "still_drawn = \<lparr>dr_sa_q = eye 4, dr_sa_k = eye 4, dr_sa_v = eye 4, dr_in_w = eye 4, dr_in_b = replicate 4 1\<rparr>"

lemma still_built: "\<exists>ps. build_perceivers (\<lambda>i. still_drawn) still_spec None 1 10000 1 2 30 = Inr ps"
  by (simp add: build_perceivers_def still_spec_def new_perceiver_def Let_def)

lemma still_one_token: "one_token_context still_spec still_fwd [5]"
  by (simp add: one_token_context_def one_token_layer_def still_fwd_def still_spec_def)

theorem still_training_sound_witness:
  "\<exists>ps h. fst (still_train (\<lambda>w x. x) (\<lambda>x. x) still_spec still_fwd still_dfwd (\<lambda>f s. s) () [([5], [7, 8])] ps 2) = Inr h
    \<and> length h = 2 \<and> hd h = 0"
proof -
  obtain ps where ps: "build_perceivers (\<lambda>i. still_drawn) still_spec None 1 10000 1 2 30 = Inr ps" using still_built by blast
  have sp: "heads_ok still_spec" "0 < n_layers still_spec" by (simp_all add: heads_ok_def still_spec_def)
  let ?r = "still_train (\<lambda>w x. x) (\<lambda>x. x) still_spec still_fwd still_dfwd (\<lambda>f s. s) () [([5], [7, 8])] ps 2"
  have "batch_loss (sample_loss (\<lambda>w x. x) (\<lambda>x. x) still_spec still_fwd still_dfwd) [([5], [7, 8])] ps = Inr 0"
    using one_token_loss [OF sp ps still_one_token] by (simp add: batch_loss_def)
  then obtain h where h: "fst ?r = Inr h" by (simp add: still_train_def numeral_2_eq_2)
  have V: "vocab_rows still_dfwd 2" by (auto simp: vocab_rows_def still_dfwd_def)
  from still_training_sound [OF V h] sp ps still_one_token have "length h = 2 \<and> hd h = 0" by auto
  with h show ?thesis by blast
qed

end
