(* ===== verification/Ruler.thy ===== *)
theory Ruler imports Scoring begin

text \<open>
  The data sets of the accuracy benchmark, \<^verbatim>\<open>dexa/bench/datasets.py\<close>: question-answer examples over one text, the loader of LongBench
  with its fallback, the five synthetic generators and the catalogue. Random draws (filler words, keys, values, the final shuffle) are
  arguments, and so are the rows a library downloads. What is proved is that the questions of the generators can be answered
  from their contexts.
\<close>

section \<open>Examples\<close>

datatype meta_val = MNone | MNum nat | MRat rat | MStr string | MStrs "string list"

record qa_example =
  qe_context :: string
  qe_question :: string
  qe_answers :: "string list"
  qe_meta :: "(string, meta_val) dict"

section \<open>LongBench\<close>

record lb_row =
  lb_context :: string
  lb_input :: string
  lb_answers :: "string list"
  lb_id :: "string option"
  lb_length :: "nat option"

definition LONGBENCH_SUBSETS :: "string list" where
  "LONGBENCH_SUBSETS = [''narrativeqa'', ''qasper'', ''multifieldqa_en'']"

text \<open>
  \<^verbatim>\<open>_load_longbench_rows\<close>: what \<^verbatim>\<open>load_dataset\<close> returned or raised; a runtime error that speaks of scripts falls back to the lines of
  the archive, the blank ones left out.
\<close>

definition longbench_rows :: "lb_row list result \<Rightarrow> string list \<Rightarrow> (string \<Rightarrow> lb_row) \<Rightarrow> lb_row list result" where
  "longbench_rows loaded archive parse = (case loaded of
     Inr rows \<Rightarrow> Inr rows
   | Inl (RuntimeError m) \<Rightarrow> if occurs_in ''script'' (map lower_char m) then Inr (map parse (filter (\<lambda>l. strip_ws l \<noteq> []) archive))
       else Inl (RuntimeError m)
   | Inl e \<Rightarrow> Inl e)"

definition optional :: "('a \<Rightarrow> meta_val) \<Rightarrow> 'a option \<Rightarrow> meta_val" where
  "optional f v = (case v of None \<Rightarrow> MNone | Some x \<Rightarrow> f x)"

definition longbench_example :: "string \<Rightarrow> nat option \<Rightarrow> lb_row list \<Rightarrow> nat \<Rightarrow> qa_example" where
  "longbench_example config max_chars rows i = (let r = rows ! i in
     \<lparr>qe_context = (case max_chars of Some m \<Rightarrow> if m < length (lb_context r) then take m (lb_context r) else lb_context r | None \<Rightarrow> lb_context r),
      qe_question = lb_input r, qe_answers = lb_answers r,
      qe_meta = [(''source'', MStr ''longbench''), (''subset'', MStr config), (''row'', MNum i),
        (''id'', optional MStr (lb_id r)), (''length'', optional MNum (lb_length r))]\<rparr>)"

text \<open>\<open>sample n k\<close> draws \<open>k\<close> of the first \<open>n\<close> indices.\<close>

definition load_longbench :: "(nat \<Rightarrow> nat \<Rightarrow> nat list) \<Rightarrow> lb_row list result \<Rightarrow> string list \<Rightarrow> (string \<Rightarrow> lb_row) \<Rightarrow> string \<Rightarrow> nat \<Rightarrow> nat option
    \<Rightarrow> qa_example list result" where
  "load_longbench sample loaded archive parse config n max_chars = res_bind (longbench_rows loaded archive parse) (\<lambda>rows.
     Inr (map (longbench_example config max_chars rows) (sort (sample (length rows) (min n (length rows))))))"

section \<open>Synthetic generators\<close>

definition context_of :: "string list \<Rightarrow> string" where
  "context_of ws = join_with '' '' ws"

definition ruler_niah :: "string list \<Rightarrow> nat \<Rightarrow> string \<Rightarrow> string \<Rightarrow> rat \<Rightarrow> qa_example" where
  "ruler_niah filler len key value depth =
     \<lparr>qe_context = context_of (splice filler [(depth, magic key value)]), qe_question = ''What is the magic number for '' @ key @ '' ?'',
      qe_answers = [value], qe_meta = [(''task'', MStr ''niah_single''), (''length'', MNum len), (''key'', MStr key), (''depth'', MRat depth)]\<rparr>"

definition ruler_multikey :: "string list \<Rightarrow> nat \<Rightarrow> (string, string) dict \<Rightarrow> string \<Rightarrow> qa_example result" where
  "ruler_multikey filler len pairs target = (case map_of pairs target of None \<Rightarrow> Inl (KeyError target)
     | Some v \<Rightarrow> Inr \<lparr>qe_context = context_of (splice filler (spread (map (\<lambda>(k, v). magic k v) pairs))),
         qe_question = ''What is the magic number for '' @ target @ '' ?'', qe_answers = [v],
         qe_meta = [(''task'', MStr ''niah_multikey''), (''length'', MNum len), (''n_keys'', MNum (length pairs)), (''key'', MStr target)]\<rparr>)"

definition ruler_multihop :: "(nat \<Rightarrow> string) \<Rightarrow> string list \<Rightarrow> nat \<Rightarrow> string \<Rightarrow> nat \<Rightarrow> qa_example" where
  "ruler_multihop str filler len value hops =
     \<lparr>qe_context = context_of (splice filler (spread (hop_names str value hops))), qe_question = ''What is the value of X'' @ str hops @ '' ?'',
      qe_answers = [value], qe_meta = [(''task'', MStr ''multihop''), (''length'', MNum len), (''hops'', MNum hops)]\<rparr>"

definition upper_char :: "char \<Rightarrow> char" where
  "upper_char c = (if code_in 97 122 c then char_of (of_char c - 32 :: nat) else c)"

definition var_name :: "string \<Rightarrow> string" where
  "var_name k = ''VAR_'' @ map upper_char k"

definition assigned :: "string \<Rightarrow> string \<Rightarrow> string" where
  "assigned x v = x @ '' = '' @ v @ '' .''"

definition alias_chain :: "string \<Rightarrow> string list \<Rightarrow> string list" where
  "alias_chain value names = assigned (hd names) value # map (\<lambda>i. assigned (names ! i) (names ! (i - 1))) [1..<length names]"

definition ruler_tracking :: "string list \<Rightarrow> nat \<Rightarrow> string \<Rightarrow> string list \<Rightarrow> qa_example result" where
  "ruler_tracking filler len value keys = (let names = map var_name keys in if names = [] then Inl IndexError else
     Inr \<lparr>qe_context = context_of (splice filler (spread (alias_chain value names))),
       qe_question = ''Which variables are assigned the value '' @ value @ '' ?'', qe_answers = names,
       qe_meta = [(''task'', MStr ''variable_tracking''), (''length'', MNum len), (''value'', MStr value), (''names'', MStrs names)]\<rparr>)"

text \<open>Each marker is repeated five times more than any filler word.\<close>

definition marker_count :: "string list \<Rightarrow> nat" where
  "marker_count filler = (if filler = [] then 0 else Max (set (map (count_list filler) filler))) + 5"

definition ruler_aggregation :: "(string list \<Rightarrow> string list) \<Rightarrow> (nat \<Rightarrow> string) \<Rightarrow> string list \<Rightarrow> nat \<Rightarrow> string list \<Rightarrow> qa_example" where
  "ruler_aggregation shuf str filler len targets = (let rep = marker_count filler in
     \<lparr>qe_context = context_of (shuf (filler @ concat (map (replicate rep) targets))),
      qe_question = ''What are the '' @ str (length targets) @ '' most frequently repeated words in the text above ?'', qe_answers = targets,
      qe_meta = [(''task'', MStr ''aggregation''), (''length'', MNum len), (''targets'', MStrs targets), (''count'', MNum rep)]\<rparr>)"

section \<open>Loading and listing\<close>

definition RULER_TASKS :: "string list" where
  "RULER_TASKS = [''niah_single'', ''niah_multikey'', ''multihop'', ''variable_tracking'', ''aggregation'']"

text \<open>\<open>gens\<close> is the table of generators, each with the draws of its seed.\<close>

definition load_ruler :: "(string, nat \<Rightarrow> nat \<Rightarrow> qa_example result) dict \<Rightarrow> string \<Rightarrow> nat \<Rightarrow> nat \<Rightarrow> qa_example list result" where
  "load_ruler gens task len n = (case map_of gens task of None \<Rightarrow> Inl (ValueError (''unknown RULER task '' @ task))
     | Some gen \<Rightarrow> res_map (gen len) [0..<n])"

record catalogue_entry =
  cl_source :: string
  cl_subset :: string
  cl_loader :: string
  cl_network :: bool
  cl_metric :: string

definition list_datasets :: "catalogue_entry list" where
  "list_datasets = map (\<lambda>s. \<lparr>cl_source = ''longbench'', cl_subset = s, cl_loader = ''load_longbench'', cl_network = True, cl_metric = ''substring_em / token_f1''\<rparr>) LONGBENCH_SUBSETS
     @ map (\<lambda>t. \<lparr>cl_source = ''ruler'', cl_subset = t, cl_loader = ''load_ruler'', cl_network = False, cl_metric = ''substring_em / token_f1''\<rparr>) RULER_TASKS"

section \<open>Answers are in the context\<close>

definition word_ok :: "string \<Rightarrow> bool" where
  "word_ok w \<longleftrightarrow> w \<noteq> [] \<and> list_all (\<lambda>c. \<not> ws_char c) w"

lemma split_context: "\<forall>w\<in>set ws. word_ok w \<Longrightarrow> split_ws (context_of ws) = ws"
  unfolding context_of_def by (rule split_join) (simp add: word_ok_def)

lemma splice_words:
  assumes "\<forall>w\<in>set filler. word_ok w"
  shows "mset (split_ws (context_of (splice filler ins))) = mset filler + sum_list (map (\<lambda>i. mset (split_ws (snd i))) ins)"
proof -
  have m: "mset (splice filler ins) = mset filler + sum_list (map (\<lambda>i. mset (split_ws (snd i))) ins)" using splice_keeps by blast
  have "word_ok w" if "w \<in> set (splice filler ins)" for w
  proof -
    from that have "w \<in># mset filler + sum_list (map (\<lambda>i. mset (split_ws (snd i))) ins)" using m by (metis set_mset_mset)
    then have "w \<in> set filler \<or> (\<exists>s. w \<in> set (split_ws s))"
      by (auto simp: sum_mset_sum_list [symmetric] in_Union_mset_iff)
    then show ?thesis using assms split_ws_words by (auto simp: word_ok_def)
  qed
  then show ?thesis using m split_context by metis
qed

lemma planted_word:
  assumes "\<forall>w\<in>set filler. word_ok w" "s \<in> snd ` set ins" "w \<in> set (split_ws s)"
  shows "w \<in> set (split_ws (context_of (splice filler ins)))"
proof -
  have "w \<in># sum_list (map (\<lambda>i. mset (split_ws (snd i))) ins)"
    using assms(2,3) by (auto simp: sum_mset_sum_list [symmetric] in_Union_mset_iff)
  then show ?thesis using splice_words [OF assms(1), of ins] by (metis union_iff set_mset_mset)
qed

lemma count_list_replicate: "count_list (replicate n x) y = (if x = y then n else 0)"
  by (induction n) auto

lemma count_markers:
  "distinct ts \<Longrightarrow> count_list (concat (map (replicate n) ts)) w = (if w \<in> set ts then n else 0)"
  by (induction ts) (auto simp: count_list_append count_list_replicate)

lemma filler_count: "count_list filler w + 5 \<le> marker_count filler"
proof (cases "w \<in> set filler")
  case True
  then have "count_list filler w \<le> Max (set (map (count_list filler) filler))" by (intro Max_ge) auto
  moreover have "filler \<noteq> []" using True by auto
  ultimately show ?thesis unfolding marker_count_def by (simp only: if_False add_le_mono1)
next
  case False
  then have "count_list filler w = 0" by (simp add: count_list_0_iff)
  then show ?thesis by (simp add: marker_count_def)
qed

text \<open>The markers are the most frequent words of the text by a margin of five, all equally frequent.\<close>

theorem aggregation_answers:
  assumes "\<forall>w\<in>set (filler @ targets). word_ok w" "distinct targets" "set targets \<inter> set filler = {}" "\<And>xs. mset (shuf xs) = mset xs"
    "t \<in> set (qe_answers (ruler_aggregation shuf str filler len targets))"
  shows "count_list (split_ws (qe_context (ruler_aggregation shuf str filler len targets))) t = marker_count filler
    \<and> (w \<notin> set targets \<longrightarrow> count_list (split_ws (qe_context (ruler_aggregation shuf str filler len targets))) w + 5
        \<le> count_list (split_ws (qe_context (ruler_aggregation shuf str filler len targets))) t)"
proof -
  let ?ws = "filler @ concat (map (replicate (marker_count filler)) targets)"
  have t: "t \<in> set targets" using assms(5) by (simp add: ruler_aggregation_def Let_def)
  have "set (shuf ?ws) = set ?ws" by (metis assms(4) set_mset_mset)
  then have "\<forall>w\<in>set (shuf ?ws). word_ok w" using assms(1) by auto
  then have s: "split_ws (qe_context (ruler_aggregation shuf str filler len targets)) = shuf ?ws"
    by (simp add: ruler_aggregation_def Let_def split_context)
  have c: "count_list (shuf ?ws) w = count_list filler w + (if w \<in> set targets then marker_count filler else 0)" for w
  proof -
    have "count_list (shuf ?ws) w = count (mset (shuf ?ws)) w" by (simp only: count_mset)
    also have "\<dots> = count_list ?ws w" unfolding assms(4) by (simp only: count_mset)
    finally show ?thesis by (simp only: count_list_append count_markers [OF assms(2)])
  qed
  have "count_list filler t = 0" using t assms(3) by (auto simp: count_list_0_iff)
  then show ?thesis unfolding s using c [of t] c [of w] t filler_count [of filler w] by auto
qed

theorem aggregation_answers_witness:
  "count_list (split_ws (qe_context (ruler_aggregation rev (\<lambda>n. []) [''the'', ''sea'', ''the''] 3 [''quokka'']))) ''quokka'' = 7"
proof -
  have w: "\<forall>w\<in>set ([''the'', ''sea'', ''the''] @ [''quokka'']). word_ok w" by code_simp
  have "marker_count [''the'', ''sea'', ''the''] = 7" by (simp add: marker_count_def)
  then show ?thesis
    using aggregation_answers [OF w, of rev "''quokka''" "\<lambda>n. []" 3] by (simp add: ruler_aggregation_def Let_def)
qed

lemma upper_ws: "\<not> ws_char c \<Longrightarrow> \<not> ws_char (upper_char c)"
  by (auto simp: upper_char_def ws_char_def code_in_def)

lemma var_name_ok: "word_ok k \<Longrightarrow> word_ok (var_name k)"
proof -
  have "list_all (\<lambda>c. \<not> ws_char c) ''VAR_''" by code_simp
  then show "word_ok k \<Longrightarrow> word_ok (var_name k)" using upper_ws by (simp add: word_ok_def var_name_def list_all_iff)
qed

lemma assigned_name: "word_ok x \<Longrightarrow> x \<in> set (split_ws (assigned x v))"
proof -
  assume "word_ok x"
  then have "split_ws x = [x]" by (simp add: word_ok_def split_ws_word)
  moreover have "assigned x v = x @ CHR '' '' # (''= '' @ v @ '' .'')" by (simp add: assigned_def)
  ultimately show ?thesis by (simp only: split_ws_at [OF ws_space]) simp
qed

text \<open>Every alias that the tracking question asks for stands in its context as a word.\<close>

lemma tracking_answers:
  assumes "ruler_tracking filler len value keys = Inr ex" "\<forall>w\<in>set (filler @ keys). word_ok w" "a \<in> set (qe_answers ex)"
  shows "a \<in> set (split_ws (qe_context ex))"
proof -
  let ?names = "map var_name keys"
  have ex: "qe_context ex = context_of (splice filler (spread (alias_chain value ?names)))" "qe_answers ex = ?names" "?names \<noteq> []"
    using assms(1) by (auto simp: ruler_tracking_def Let_def split: if_splits)
  obtain i where i: "i < length ?names" "a = ?names ! i" using assms(3) ex(2) by (metis in_set_conv_nth)
  obtain v where "assigned a v \<in> set (alias_chain value ?names)"
  proof (cases i)
    case 0
    then have "a = hd ?names" using i ex(3) by (simp add: hd_conv_nth)
    then show ?thesis using that by (auto simp: alias_chain_def)
  next
    case (Suc j)
    then have "assigned a (?names ! (i - 1)) \<in> (\<lambda>i. assigned (?names ! i) (?names ! (i - 1))) ` set [1..<length ?names]"
      using i by (intro image_eqI [where x = i]) auto
    then show ?thesis using that by (simp only: alias_chain_def list.set set_map) blast
  qed
  moreover have "snd ` set (spread xs) = set xs" for xs
  proof -
    have "map snd (spread xs) = xs" by (simp add: spread_def comp_def map_nth)
    then show ?thesis by (metis set_map)
  qed
  ultimately have "assigned a v \<in> snd ` set (spread (alias_chain value ?names))" by blast
  moreover have "word_ok a" using i assms(2) var_name_ok by simp
  ultimately show ?thesis using planted_word [of filler _ _ a] assms(2) assigned_name unfolding ex(1) by simp
qed

end
