(* ===== verification/Fallback.thy ===== *)
theory Fallback imports Compaction begin

text \<open>
  The harness's own compactors, \<^verbatim>\<open>dexa/bench/_compactors.py\<close>: a small registry of selection compactors used where the real
  one cannot build a name, and the lookup that prefers the real one. \<open>draw\<close> is a seeded draw without replacement as in
  \<open>Compaction\<close>, with Python's hash of the key tuple as a parameter. What is proved is that where both registries have a
  method that draws nothing and scores nothing, they compact alike, and that all of them keep their budget.
\<close>

section \<open>Selection\<close>

definition fallback_compact :: "string \<Rightarrow> (nat \<Rightarrow> nat \<Rightarrow> nat \<Rightarrow> nat list result) \<Rightarrow> 'v kvcache \<Rightarrow> compaction_budget \<Rightarrow> 'v compact_cache result" where
  "fallback_compact name pick c b = res_bind (target_t b (seq_len c)) (\<lambda>t0. let t = min (max 1 t0) (seq_len c) in
     select_compact name (\<lambda>l h. pick l h t) c)"

definition fallback_full :: "'v kvcache \<Rightarrow> 'v compact_cache result" where
  "fallback_full c = fallback_compact ''full_kv'' (\<lambda>l h t. Inr [0..<seq_len c]) c \<lparr>cb_ratio = None, cb_tokens = Some (seq_len c), cb_min = 1\<rparr>"

definition fallback_random :: "(nat \<Rightarrow> nat \<Rightarrow> nat \<Rightarrow> int) \<Rightarrow> (nat \<Rightarrow> nat \<Rightarrow> nat \<Rightarrow> nat list) \<Rightarrow> 'v kvcache \<Rightarrow> compaction_budget \<Rightarrow> 'v compact_cache result" where
  "fallback_random hsh draw c b = fallback_compact ''random_subset''
     (\<lambda>l h t. Inr (draw (nat (\<bar>hsh l h (seq_len c)\<bar> mod 2 ^ 32)) (seq_len c) t)) c b"

definition fallback_recent :: "'v kvcache \<Rightarrow> compaction_budget \<Rightarrow> 'v compact_cache result" where
  "fallback_recent c b = fallback_compact ''recent_window'' (\<lambda>l h t. Inr [seq_len c - t..<seq_len c]) c b"

text \<open>The attention mass of a head's keys over the reference queries of its group, one query head at a time.\<close>

definition head_mass :: "vec list \<Rightarrow> real \<Rightarrow> vec list \<Rightarrow> vec result" where
  "head_mass keys scale q = (let z = logits q keys scale in
     if [] \<in> set z then Inl (ValueError ''zero-size array'') else Inr (col_sum (length keys) (map (softmax_row (1 / 10 ^ 8)) z)))"

fun group_mass :: "model_spec \<Rightarrow> nat \<Rightarrow> vec list \<Rightarrow> vec list list \<Rightarrow> nat list \<Rightarrow> vec \<Rightarrow> vec result" where
  "group_mass sp h keys qs [] mass = Inr mass"
| "group_mass sp h keys qs (qh # rest) mass = res_bind (kv_head_of sp qh) (\<lambda>k.
     if k \<noteq> h then group_mass sp h keys qs rest mass
     else res_bind (head_mass keys (attn_scale sp) (qs ! qh)) (\<lambda>m. group_mass sp h keys qs rest (map2 (+) mass m)))"

definition fallback_attention :: "(dev list \<Rightarrow> nat list) \<Rightarrow> vec kvcache \<Rightarrow> compaction_budget \<Rightarrow> vec ref_queries option \<Rightarrow> vec compact_cache result" where
  "fallback_attention argsort c b refs = fallback_compact ''attention_matching'' (\<lambda>l h t. case refs of
       None \<Rightarrow> Inr (linspace_idx (seq_len c) t)
     | Some rq \<Rightarrow> res_bind (group_mass (kv_spec c) h (lkey (kv_layers c ! l) ! h) (rq_layers rq ! l) [0..<n_q_heads (kv_spec c)]
           (replicate (seq_len c) 0)) (\<lambda>mass. let order = argsort (map Some mass) in
         Inr (if t = 0 then order else drop (length order - t) order))) c b"

section \<open>The lookup\<close>

definition FALLBACK :: "string list" where
  "FALLBACK = [''full_kv'', ''random_subset'', ''recent_window'', ''attention_matching'']"

text \<open>The names of both registries; \<open>srt\<close> is \<^verbatim>\<open>sorted\<close> on strings.\<close>

definition available_compactors :: "(string list \<Rightarrow> string list) \<Rightarrow> string list option \<Rightarrow> string list" where
  "available_compactors srt registry = srt (remdups (FALLBACK @ (case registry of Some ns \<Rightarrow> ns | None \<Rightarrow> [])))"

datatype 'c built = Real 'c | Local string

text \<open>Any exception of the real registry falls through; the local classes take no options.\<close>

definition build_fallback :: "(string \<Rightarrow> 'o list \<Rightarrow> 'c result) option \<Rightarrow> string \<Rightarrow> 'o list \<Rightarrow> 'c built result" where
  "build_fallback real_build name opts = (case (case real_build of Some f \<Rightarrow> f name opts | None \<Rightarrow> Inl (RuntimeError ''no registry'')) of
     Inr c \<Rightarrow> Inr (Real c)
   | Inl e \<Rightarrow> if name \<in> set FALLBACK then (if opts = [] then Inr (Local name) else Inl TypeError) else Inl (KeyError name))"

section \<open>Agreement\<close>

text \<open>Keeping everything and keeping the last tokens are the same compaction in both registries.\<close>

theorem fallback_agrees:
  "fallback_full c = full_kv c \<and> (0 < cb_min b \<longrightarrow> fallback_recent c b = recent_window c b)"
proof
  show "fallback_full c = full_kv c"
    by (simp add: fallback_full_def fallback_compact_def full_kv_def target_t_def Let_def)
  show "0 < cb_min b \<longrightarrow> fallback_recent c b = recent_window c b"
  proof
    assume m: "0 < cb_min b"
    show "fallback_recent c b = recent_window c b"
    proof (cases "target_t b (seq_len c)")
      case (Inr t)
      then have "max 1 t = t" using target_t_min [OF Inr] m by simp
      then show ?thesis using Inr by (simp add: fallback_recent_def fallback_compact_def recent_window_def Let_def)
    qed (simp add: fallback_recent_def fallback_compact_def recent_window_def)
  qed
qed

lemma group_mass_length:
  "group_mass sp h keys qs hs mass = Inr m \<Longrightarrow> length mass = length keys \<Longrightarrow> length m = length keys"
  by (induction sp h keys qs hs mass rule: group_mass.induct) (auto simp: head_mass_def col_sum_def Let_def split: if_splits)

lemma select_cong:
  assumes "\<And>l h. l < n_layers (kv_spec c) \<Longrightarrow> h < n_kv_heads (kv_spec c) \<Longrightarrow> p l h = q l h"
  shows "select_compact name p c = select_compact name q c"
proof -
  have "res_map (p l) [0..<n_kv_heads (kv_spec c)] = res_map (q l) [0..<n_kv_heads (kv_spec c)]" if "l < n_layers (kv_spec c)" for l
    using assms that by (intro res_map_cong) auto
  then show ?thesis unfolding select_compact_def by (intro arg_cong2 [where f = res_bind] refl res_map_cong) (auto simp: assms)
qed

text \<open>The attention selection keeps the asked number of distinct tokens in every head.\<close>

lemma fallback_attention_keeps:
  assumes "fallback_attention f c b (Some rq) = Inr cc" "kv_shaped c" "argsort_ok f" "0 < seq_len c"
  shows "\<exists>t0. target_t b (seq_len c) = Inr t0 \<and> keeps c (min (max 1 t0) (seq_len c)) cc"
proof -
  obtain t0 where t: "target_t b (seq_len c) = Inr t0" using assms(1) by (auto simp: fallback_attention_def fallback_compact_def)
  let ?n = "seq_len c" and ?t = "min (max 1 t0) (seq_len c)"
  let ?g = "\<lambda>l h. group_mass (kv_spec c) h (lkey (kv_layers c ! l) ! h) (rq_layers rq ! l) [0..<n_q_heads (kv_spec c)] (replicate ?n 0)"
  let ?pick = "\<lambda>l h. if l < n_layers (kv_spec c) \<and> h < n_kv_heads (kv_spec c) then res_bind (?g l h) (\<lambda>mass. let order = f (map Some mass) in
         Inr (if ?t = 0 then order else drop (length order - ?t) order)) else Inl IndexError"
  have "select_compact ''attention_matching'' ?pick c = select_compact ''attention_matching'' (\<lambda>l h. res_bind (?g l h) (\<lambda>mass.
      let order = f (map Some mass) in Inr (if ?t = 0 then order else drop (length order - ?t) order))) c"
    by (rule select_cong) simp
  then have "select_compact ''attention_matching'' ?pick c = Inr cc"
    using assms(1) t by (simp add: fallback_attention_def fallback_compact_def Let_def del: One_nat_def cong: if_cong)
  moreover have "picks ?n ?t S" if "?pick l h = Inr S" for l h S
  proof -
    from that obtain mass where m: "?g l h = Inr mass" "S = drop (length (f (map Some mass)) - ?t) (f (map Some mass))"
      "l < n_layers (kv_spec c)" "h < n_kv_heads (kv_spec c)"
      using assms(4) by (auto simp: Let_def split: if_splits)
    have "length (lkey (kv_layers c ! l) ! h) = ?n"
      using assms(2) m(3,4) by (auto simp: kv_shaped_def shaped_def list_all_length)
    then have "length mass = ?n" using group_mass_length [OF m(1)] by simp
    then show ?thesis using argsort_set [OF assms(3), of "map Some mass"] unfolding m(2) picks_def
      by (auto simp: distinct_drop dest: in_set_dropD)
  qed
  ultimately show ?thesis using select_keeps [OF _ assms(2)] t by blast
qed

text \<open>A build that succeeds with options never is a local substitute, and one that fails names the compactor or its options.\<close>

lemma build_no_silent_options:
  "build_fallback rb name opts = Inr (Local m) \<Longrightarrow> opts = [] \<and> m = name \<and> name \<in> set FALLBACK \<and> (\<forall>f. rb = Some f \<longrightarrow> (\<exists>e. f name [] = Inl e))"
  by (auto simp: build_fallback_def split: option.splits sum.splits if_splits)

text \<open>Failures of the real registry are swallowed whatever they are: a real compactor that raises while it is built is replaced.\<close>

lemma build_swallows:
  "build_fallback (Some (\<lambda>n os. Inl (ValueError ''bad checkpoint''))) ''attention_matching'' [] = Inr (Local ''attention_matching'')"
  by (simp add: build_fallback_def FALLBACK_def)

end
