(* ===== verification/Resident.thy ===== *)
theory Resident imports SegmentSession Decode begin

text \<open>
  Decoding from a cache that stays on the device, \<^verbatim>\<open>TorchKVSession.greedy\<close> of \<^verbatim>\<open>engine/torch_session.py\<close>: the last cached
  column is dropped from a copy, its token is fed again for the logits, and the loop feeds one token at a time. The passes are those of
  \<open>Backend\<close> (columns) and \<open>Decode\<close> (logits); a pass without an explicit mask is one with the causal mask and no bias.
\<close>

section \<open>Greedy decoding\<close>

definition cached :: "vec raw_cache \<Rightarrow> nat" where
  "cached c = (case c of [] \<Rightarrow> 0 | l # _ \<Rightarrow> (case lkey l of [] \<Rightarrow> 0 | h # _ \<Rightarrow> length h))"

definition pass_logits :: "model_spec \<Rightarrow> decode_fwd \<Rightarrow> vec raw_cache \<Rightarrow> int list \<Rightarrow> int list \<Rightarrow> real list list" where
  "pass_logits sp dfwd c ids ps = dfwd c (zero_betas sp (cached c + length ids)) (decode_mask (cached c) (length ids)) ps ids"

text \<open>\<^verbatim>\<open>out.logits[0, -1]\<close>; every step runs the pass, also the last one, whose logits nobody reads.\<close>

fun greedy_loop :: "model_spec \<Rightarrow> vec forward \<Rightarrow> decode_fwd \<Rightarrow> (real list \<Rightarrow> int) \<Rightarrow> nat \<Rightarrow> vec raw_cache \<Rightarrow> real list \<Rightarrow> nat
    \<Rightarrow> int list result" where
  "greedy_loop sp fwd dfwd amax 0 c row cur = Inr []"
| "greedy_loop sp fwd dfwd amax (Suc n) c row cur = (let nxt = amax row; ps = [int cur] in
     res_bind (last_row (pass_logits sp dfwd c [nxt] ps)) (\<lambda>row'.
     res_bind (greedy_loop sp fwd dfwd amax n (fwd c [nxt] ps) row' (Suc cur)) (\<lambda>gs. Inr (nxt # gs))))"

definition drop_column :: "vec layer_kv \<Rightarrow> vec layer_kv" where
  "drop_column l = \<lparr>lkey = map butlast (lkey l), lval = map butlast (lval l)\<rparr>"

definition dev_greedy :: "model_spec \<Rightarrow> vec forward \<Rightarrow> decode_fwd \<Rightarrow> (real list \<Rightarrow> int) \<Rightarrow> nat \<Rightarrow> vec SegmentSession.dev \<Rightarrow> int list result" where
  "dev_greedy sp fwd dfwd amax n d = (case dv_cache d of
     None \<Rightarrow> Inl (ValueError ''empty session'')
   | Some c \<Rightarrow> if dv_tokens d = [] then Inl IndexError else
       (let tok = last (dv_tokens d); cur = dev_n d; c0 = map drop_column c; ps = [int cur - 1] in
        res_bind (last_row (pass_logits sp dfwd c0 [tok] ps)) (\<lambda>row.
          greedy_loop sp fwd dfwd amax n (fwd c0 [tok] ps) row cur)))"

section \<open>Sequences of mutations\<close>

datatype dev_op = Append "int list" | Truncate nat | Edit nat "int list"

fun dev_step :: "model_spec \<Rightarrow> 'v forward \<Rightarrow> dev_op \<Rightarrow> 'v SegmentSession.dev \<Rightarrow> 'v SegmentSession.dev" where
  "dev_step sp fwd (Append us) d = snd (dev_append sp fwd us d)"
| "dev_step sp fwd (Truncate n) d = dev_truncate n d"
| "dev_step sp fwd (Edit n us) d = snd (dev_edit_suffix sp fwd n us d)"

text \<open>What the same mutations do to a plain list of tokens.\<close>

fun op_tokens :: "dev_op \<Rightarrow> int list \<Rightarrow> int list" where
  "op_tokens (Append us) ts = ts @ us"
| "op_tokens (Truncate n) ts = take n ts"
| "op_tokens (Edit n us) ts = take n ts @ us"

context causal_forward
begin

lemma dev_step_holds: "dev_holds ts d \<Longrightarrow> dev_holds (op_tokens p ts) (dev_step sp fwd p d)"
  by (cases p) (auto simp: dev_edit_suffix_def dev_append_holds dev_truncate_holds)

lemma dev_run_holds: "dev_holds ts d \<Longrightarrow> dev_holds (fold op_tokens ps ts) (fold (dev_step sp fwd) ps d)"
  by (induction ps arbitrary: ts d) (auto simp: dev_step_holds)

end

context causal_logits
begin

lemma cached_past: "heads_ok sp \<Longrightarrow> 0 < n_layers sp \<Longrightarrow> cached (past ts) = length ts"
  using past_shaped [of ts] by (cases "past ts"; cases "lkey (hd (past ts))")
    (auto simp: shaped_def cached_def heads_ok_def list_all_iff split: list.splits)

lemma pass_row:
  assumes "heads_ok sp" "0 < n_layers sp"
  shows "last_row (pass_logits sp dfwd (past ts) [t] [int (length ts)]) = Inr (next_logits (ts @ [t]))"
proof -
  have "pass_logits sp dfwd (past ts) [t] [int (length ts)] = [next_logits (ts @ [t])]"
    using dec [of "[t]" ts] unfolding pass_logits_def cached_past [OF assms] by (simp add: arange_def)
  then show ?thesis by (simp add: last_row_def)
qed

lemma past_app: "fwd (past ts) [t] [int (length ts)] = past (ts @ [t])"
  using cols_appx [of "[t]" ts] by (simp add: arange_def)

lemma greedy_loop_ref:
  assumes "heads_ok sp" "0 < n_layers sp"
  shows "greedy_loop sp fwd dfwd amax n (past ts) (next_logits ts) (length ts) = Inr (decode_ref (\<lambda>i. amax) next_logits i n ts)"
proof (induction n arbitrary: ts i)
  case (Suc n)
  let ?t = "amax (next_logits ts)"
  from Suc [of "ts @ [?t]" "Suc i"] show ?case
    by (simp only: greedy_loop.simps decode_ref.simps Let_def pass_row [OF assms] past_app length_append list.size) simp
qed simp

lemma drop_past:
  assumes "ts \<noteq> []"
  shows "map drop_column (past ts) = past (butlast ts)"
proof -
  from drop_last_pre [OF assms, of None] obtain kv where kv: "drop_last (Raw (hf_prefill sp fwd ts 0)) None = Inr (Raw kv, None, last ts, int (length ts) - 1)"
    "kv_layers kv = past (butlast ts)" by blast
  then show ?thesis using assms by (auto simp: drop_last_def drop_column_def [abs_def] split: if_splits)
qed

lemma greedy_pre:
  assumes "heads_ok sp" "0 < n_layers sp" "dev_holds ts d" "ts \<noteq> []"
  shows "dev_greedy sp fwd dfwd amax n d = Inr (decode_ref (\<lambda>i. amax) next_logits 0 n ts)"
proof -
  have d: "dv_tokens d = ts" "dv_cache d = Some (past ts)" using assms(3,4) by (auto simp: dev_holds_def split: option.splits)
  have b: "butlast ts @ [last ts] = ts" "int (length ts) - 1 = int (length (butlast ts))" using assms(4) by (simp_all add: of_nat_diff Suc_leI)
  have "last_row (pass_logits sp dfwd (past (butlast ts)) [last ts] [int (length ts) - 1]) = Inr (next_logits ts)"
    using pass_row [OF assms(1,2), of "butlast ts" "last ts"] unfolding b .
  moreover have "fwd (past (butlast ts)) [last ts] [int (length ts) - 1] = past ts"
    using past_app [of "butlast ts" "last ts"] unfolding b .
  ultimately show ?thesis using greedy_loop_ref [OF assms(1,2), of amax n ts 0] drop_past [OF assms(4)] assms(4)
    by (simp only: dev_greedy_def d dev_n_def Let_def option.case if_False res_bind.simps)
qed

end

section \<open>Properties\<close>

text \<open>C21. Whatever is appended to, cut from or edited in a resident session, decoding from it is decoding its tokens: for a causal
  transformer, greedy decoding over the cache that was mutated in place on the device gives the very tokens that the model
  gives with no cache from the mutated token list, and the same as generation over a fresh prefill of it.\<close>

theorem resident_greedy_exact:
  assumes "causal_logits sp fwd dfwd L" "heads_ok sp" "0 < n_layers sp" "fold op_tokens ps ts \<noteq> []"
  shows "dev_greedy sp fwd dfwd amax n (fold (dev_step sp fwd) ps (dev_new sp fwd ts)) = Inr (decode_ref (\<lambda>i. amax) L 0 n (fold op_tokens ps ts))
    \<and> dev_greedy sp fwd dfwd amax n (fold (dev_step sp fwd) ps (dev_new sp fwd ts))
      = hf_generate sp dfwd (\<lambda>i. amax) (Raw (hf_prefill sp fwd (fold op_tokens ps ts) 0)) None [] n"
proof -
  have cf: "causal_forward sp fwd" using assms(1) by (simp add: causal_logits_def)
  show ?thesis
    using causal_logits.greedy_pre [OF assms(1,2,3) causal_forward.dev_run_holds [OF cf causal_forward.dev_new_holds [OF cf]] assms(4)]
      causal_logits.generate_pre [OF assms(1,2,4)] by simp
qed

theorem resident_greedy_exact_witness:
  "dev_greedy tiny_spec (fake_fwd tiny_spec real_vec) (toy_dfwd tiny_spec real_vec) (\<lambda>row. 7) 2
     (fold (dev_step tiny_spec (fake_fwd tiny_spec real_vec)) [Append [5], Edit 1 [6]] (dev_new tiny_spec (fake_fwd tiny_spec real_vec) [3, 4])) = Inr [7, 7]"
proof -
  have l: "0 < n_layers tiny_spec" by simp
  have r: "decode_ref (\<lambda>i row. 7) L 0 2 xs = [7, 7]" for L xs by (simp add: numeral_2_eq_2)
  show ?thesis
    using resident_greedy_exact [OF toy_decode.causal_logits_axioms [of tiny_spec real_vec] tiny_heads_ok l,
        where amax = "\<lambda>row. 7" and ps = "[Append [5], Edit 1 [6]]" and ts = "[3, 4]" and n = 2]
    by (simp add: r)
qed

text \<open>A session cut to nothing is not empty for this code: it still has a cache, and decoding fails on its token list instead.\<close>

lemma truncated_to_nothing:
  "ts \<noteq> [] \<Longrightarrow> dev_greedy sp fwd dfwd amax n (dev_truncate 0 (dev_new sp fwd ts)) = Inl IndexError
    \<and> dev_greedy sp fwd dfwd amax n (dev_new sp fwd []) = Inl (ValueError ''empty session'')"
  by (simp add: dev_new_def dev_append_def dev_truncate_def dev_greedy_def dev_n_def Let_def)

end
