(* ===== verification/CostStudy.thy ===== *)
theory CostStudy imports Tiering begin

text \<open>
  The residency cost study that the tiering policy is derived from, \<^verbatim>\<open>evals/stateful_cost_model.py\<close>: the values of its four
  tables, with its own rates and measurements. Times are hours, money is dollars; an infinite break-even is \<^const>\<open>None\<close> and printing is left
  out. What is proved is what the tables mean, and that the policy of the sessions service has the break-evens of the study.
\<close>

section \<open>Rates and measurements\<close>

definition STUDY_GPU_HR :: rat where "STUDY_GPU_HR = 18/10"
definition STUDY_RAM_HR :: rat where "STUDY_RAM_HR = 6/1000"
definition STUDY_NVME_HR :: rat where "STUDY_NVME_HR = 2/10000"
definition STUDY_HBM_GB :: rat where "STUDY_HBM_GB = 60"
definition STUDY_GPU_S :: rat where "STUDY_GPU_S = STUDY_GPU_HR / 3600"

definition DATA :: "(int \<times> profile) list" where
  "DATA = [(4096, \<lparr>kv_gb = 23/100, prefill_ms = 296, restore_cpu_ms = 25, restore_nvme_ms = 246\<rparr>),
     (16384, \<lparr>kv_gb = 94/100, prefill_ms = 1321, restore_cpu_ms = 115, restore_nvme_ms = 390\<rparr>),
     (32768, \<lparr>kv_gb = 188/100, prefill_ms = 3167, restore_cpu_ms = 182, restore_nvme_ms = 646\<rparr>),
     (65536, \<lparr>kv_gb = 376/100, prefill_ms = 8567, restore_cpu_ms = 297, restore_nvme_ms = 1228\<rparr>)]"

definition gpu_usd :: "rat \<Rightarrow> rat" where
  "gpu_usd ms = ms / 1000 * STUDY_GPU_S"

text \<open>What an hour of storage costs on a tier; \<open>fp8\<close> halves the bytes.\<close>

definition study_kv :: "bool \<Rightarrow> profile \<Rightarrow> rat" where
  "study_kv fp8 d = kv_gb d * (if fp8 then 1/2 else 1)"

definition study_warm_hr :: "bool \<Rightarrow> profile \<Rightarrow> rat" where
  "study_warm_hr fp8 d = study_kv fp8 d / STUDY_HBM_GB * STUDY_GPU_HR"

definition study_ram_hr :: "bool \<Rightarrow> profile \<Rightarrow> rat" where
  "study_ram_hr fp8 d = study_kv fp8 d * STUDY_RAM_HR"

definition study_nvme_hr :: "bool \<Rightarrow> profile \<Rightarrow> rat" where
  "study_nvme_hr fp8 d = study_kv fp8 d * STUDY_NVME_HR"

section \<open>The tables\<close>

record resume_row =
  rr_context :: int
  rr_prefill :: rat
  rr_cpu :: rat
  rr_nvme :: rat
  rr_latency :: rat

definition per_resume :: "int \<times> profile \<Rightarrow> resume_row" where
  "per_resume cd = (case cd of (c, d) \<Rightarrow> \<lparr>rr_context = c, rr_prefill = gpu_usd (prefill_ms d), rr_cpu = gpu_usd (restore_cpu_ms d),
     rr_nvme = gpu_usd (restore_nvme_ms d), rr_latency = prefill_ms d / restore_cpu_ms d\<rparr>)"

definition pays_until :: "rat \<Rightarrow> rat \<Rightarrow> rat option" where
  "pays_until saved hr = (if hr \<noteq> 0 then Some (saved / hr) else None)"

definition study_breakevens :: "bool \<Rightarrow> profile \<Rightarrow> rat option \<times> rat option \<times> rat option" where
  "study_breakevens fp8 d = (pays_until (gpu_usd (prefill_ms d)) (study_warm_hr fp8 d),
     pays_until (gpu_usd (prefill_ms d) - gpu_usd (restore_cpu_ms d)) (study_ram_hr fp8 d),
     pays_until (gpu_usd (prefill_ms d) - gpu_usd (restore_nvme_ms d)) (study_nvme_hr fp8 d))"

definition tier_costs :: "bool \<Rightarrow> profile \<Rightarrow> rat \<Rightarrow> (string \<times> rat) list" where
  "tier_costs fp8 d g = [(''stateless'', gpu_usd (prefill_ms d)), (''warm'', study_warm_hr fp8 d * g),
     (''RAM'', gpu_usd (restore_cpu_ms d) + study_ram_hr fp8 d * g), (''NVMe'', gpu_usd (restore_nvme_ms d) + study_nvme_hr fp8 d * g)]"

text \<open>\<^verbatim>\<open>min(opts, key=opts.get)\<close>: the first of the cheapest.\<close>

fun first_min :: "'a \<times> rat \<Rightarrow> ('a \<times> rat) list \<Rightarrow> 'a \<times> rat" where
  "first_min best [] = best"
| "first_min best (x # xs) = first_min (if snd x < snd best then x else best) xs"

definition cheapest :: "('a \<times> rat) list \<Rightarrow> 'a \<times> rat" where
  "cheapest xs = first_min (hd xs) (tl xs)"

definition policy_table :: "bool \<Rightarrow> profile \<Rightarrow> (rat \<times> (string \<times> rat) list \<times> string) list" where
  "policy_table fp8 d = map (\<lambda>m. let opts = tier_costs fp8 d (m / 60) in (m, opts, fst (cheapest opts))) [1, 5, 15, 60, 240, 1440]"

definition run_costs :: "bool \<Rightarrow> profile \<Rightarrow> rat \<Rightarrow> rat \<Rightarrow> (string \<times> rat) list" where
  "run_costs fp8 d turns g = [(''warm'', gpu_usd (prefill_ms d) + (turns - 1) * (study_warm_hr fp8 d * g)),
     (''RAM'', gpu_usd (prefill_ms d) + (turns - 1) * (gpu_usd (restore_cpu_ms d) + study_ram_hr fp8 d * g)),
     (''NVMe'', gpu_usd (prefill_ms d) + (turns - 1) * (gpu_usd (restore_nvme_ms d) + study_nvme_hr fp8 d * g))]"

definition projection :: "bool \<Rightarrow> profile \<Rightarrow> rat \<Rightarrow> rat \<times> string \<times> rat \<times> rat" where
  "projection fp8 d m = (let stateless = 50 * gpu_usd (prefill_ms d); (tier, best) = cheapest (run_costs fp8 d 50 (m / 60)) in
     (stateless, tier, best, stateless / best))"

definition analyze :: "bool \<Rightarrow> resume_row list \<times> (int \<times> rat option \<times> rat option \<times> rat option) list
    \<times> (rat \<times> (string \<times> rat) list \<times> string) list \<times> (rat \<times> string \<times> rat \<times> rat) list" where
  "analyze fp8 = (let d = snd (DATA ! 3) in
     (map per_resume DATA, map (\<lambda>(c, d). (c, study_breakevens fp8 d)) DATA, policy_table fp8 d, map (projection fp8 d) [2, 15, 120]))"

section \<open>What the tables mean\<close>

lemma first_min_le_best: "snd (first_min best xs) \<le> snd best"
proof (induction xs arbitrary: best)
  case (Cons y ys)
  have "snd (if snd y < snd best then y else best) \<le> snd best" by simp
  with Cons.IH show ?case by (metis first_min.simps(2) order_trans)
qed simp

lemma first_min_least: "x = best \<or> x \<in> set xs \<Longrightarrow> snd (first_min best xs) \<le> snd x"
proof (induction xs arbitrary: best)
  case (Cons y ys)
  show ?case
  proof (cases "x \<in> set ys")
    case True then show ?thesis using Cons.IH by simp
  next
    case False
    then have "snd (if snd y < snd best then y else best) \<le> snd x" using Cons.prems by auto
    then show ?thesis using first_min_le_best order_trans by (metis first_min.simps(2))
  qed
qed simp

lemma first_min_mem: "first_min best xs \<in> insert best (set xs)"
proof (induction xs arbitrary: best)
  case (Cons x xs)
  from Cons [of "if snd x < snd best then x else best"] show ?case by (auto simp del: split_paired_All split: if_splits)
qed simp

lemma cheapest_least: "x \<in> set xs \<Longrightarrow> snd (cheapest xs) \<le> snd x"
  unfolding cheapest_def by (cases xs) (auto intro: first_min_least)

lemma cheapest_mem: "xs \<noteq> [] \<Longrightarrow> cheapest xs \<in> set xs"
  using first_min_mem [of "hd xs" "tl xs"] unfolding cheapest_def by (cases xs) auto

lemmas study_rates = study_warm_hr_def study_ram_hr_def study_nvme_hr_def study_kv_def STUDY_GPU_HR_def STUDY_RAM_HR_def
  STUDY_NVME_HR_def STUDY_HBM_GB_def STUDY_GPU_S_def gpu_usd_def

lemma data_sane: "(c, d) \<in> set DATA \<Longrightarrow> sane d"
  by (auto simp: DATA_def sane_def)

lemma hours_pos: "sane d \<Longrightarrow> 0 < study_warm_hr fp8 d \<and> 0 < study_ram_hr fp8 d \<and> 0 < study_nvme_hr fp8 d"
  by (simp add: study_rates sane_def)

lemma pays_until_iff: "0 < hr \<Longrightarrow> idle_within g (pays_until saved hr) \<longleftrightarrow> hr * g \<le> saved"
  by (simp add: idle_within_def pays_until_def field_simps)

lemma breakeven_hours: "breakeven saved hr = map_option (\<lambda>h. h * 3600) (pays_until saved hr)"
  by (simp add: breakeven_def pays_until_def)

lemma profile_of_data: "(c, d) \<in> set DATA \<Longrightarrow> profile_for c = d"
  by (auto simp: DATA_def profile_for_def PROFILE_def scale_profile_def blend_profile_def Let_def)

lemma same_rates: "GPU_USD_S = STUDY_GPU_S" "warm_hr d = study_warm_hr False d" "ram_hr d = study_ram_hr False d" "nvme_hr d = study_nvme_hr False d"
  by (simp_all add: study_rates rates)

lemma service_breakevens:
  assumes "(c, d) \<in> set DATA" "study_breakevens False d = (w, r, n)"
  shows "breakevens_for c = \<lparr>warm_s = map_option (\<lambda>h. h * 3600) w, ram_s = map_option (\<lambda>h. h * 3600) r, nvme_s = map_option (\<lambda>h. h * 3600) n\<rparr>"
  using assms(2) by (auto simp: breakevens_for_def profile_of_data [OF assms(1)] Let_def breakeven_hours same_rates study_breakevens_def gpu_usd_def)

lemma half_hours:
  "study_warm_hr True d = study_warm_hr False d / 2" "study_ram_hr True d = study_ram_hr False d / 2"
  "study_nvme_hr True d = study_nvme_hr False d / 2"
  by (simp_all add: study_warm_hr_def study_ram_hr_def study_nvme_hr_def study_kv_def)

text \<open>C37. The study and the service agree, and the tables mean what they say. At every measured context the break-evens of the service
  are those of the study in seconds; an idle gap is within the break-even of a tier exactly when keeping the cache there costs no more
  than prefilling again; eight-bit caches double every break-even; and the winner of a gap is a tier that no other undercuts.\<close>

theorem study_sound:
  assumes "(c, d) \<in> set DATA" "study_breakevens False d = (w, r, n)"
  shows "breakevens_for c = \<lparr>warm_s = map_option (\<lambda>h. h * 3600) w, ram_s = map_option (\<lambda>h. h * 3600) r, nvme_s = map_option (\<lambda>h. h * 3600) n\<rparr>
    \<and> map (\<lambda>b. idle_within g b) [w, r, n] = map (\<lambda>t. snd (tier_costs False d g ! t) \<le> snd (tier_costs False d g ! 0)) [1, 2, 3]
    \<and> study_breakevens True d = (map_option (\<lambda>h. 2 * h) w, map_option (\<lambda>h. 2 * h) r, map_option (\<lambda>h. 2 * h) n)
    \<and> cheapest (tier_costs False d g) \<in> set (tier_costs False d g)
    \<and> (\<forall>x\<in>set (tier_costs False d g). snd (cheapest (tier_costs False d g)) \<le> snd x)"
proof -
  have p: "0 < study_warm_hr False d" "0 < study_ram_hr False d" "0 < study_nvme_hr False d"
    using hours_pos [OF data_sane [OF assms(1)]] by blast+
  have e: "w = pays_until (gpu_usd (prefill_ms d)) (study_warm_hr False d)"
    "r = pays_until (gpu_usd (prefill_ms d) - gpu_usd (restore_cpu_ms d)) (study_ram_hr False d)"
    "n = pays_until (gpu_usd (prefill_ms d) - gpu_usd (restore_nvme_ms d)) (study_nvme_hr False d)"
    using assms(2) by (simp_all add: study_breakevens_def)
  have "map (\<lambda>b. idle_within g b) [w, r, n] = map (\<lambda>t. snd (tier_costs False d g ! t) \<le> snd (tier_costs False d g ! 0)) [1, 2, 3]"
    unfolding e by (simp add: pays_until_iff [OF p(1)] pays_until_iff [OF p(2)] pays_until_iff [OF p(3)] tier_costs_def numeral_3_eq_3 le_diff_eq add.commute)
  moreover have "study_breakevens True d = (map_option (\<lambda>h. 2 * h) w, map_option (\<lambda>h. 2 * h) r, map_option (\<lambda>h. 2 * h) n)"
    using p unfolding e by (simp add: study_breakevens_def pays_until_def half_hours)
  moreover have "tier_costs False d g \<noteq> []" by (simp add: tier_costs_def)
  ultimately show ?thesis using service_breakevens [OF assms] cheapest_mem cheapest_least by blast
qed

theorem study_sound_witness:
  "study_breakevens True (snd (DATA ! 3)) = (case study_breakevens False (snd (DATA ! 3)) of
     (w, r, n) \<Rightarrow> (map_option (\<lambda>h. 2 * h) w, map_option (\<lambda>h. 2 * h) r, map_option (\<lambda>h. 2 * h) n))"
proof -
  obtain w r n where e: "study_breakevens False (snd (DATA ! 3)) = (w, r, n)" by (metis prod_cases3)
  have "(fst (DATA ! 3), snd (DATA ! 3)) \<in> set DATA" by (simp add: DATA_def numeral_3_eq_3)
  from study_sound [OF this e] show ?thesis by (simp add: e)
qed

text \<open>
  The service keeps a session warm for as long as that beats prefilling; the study's winner is the cheapest tier. They differ: after a
  minute at 65536 tokens the service still holds the cache in the GPU, at more than three times what RAM costs, and in no row of
  the study's policy table does the GPU win.
\<close>

lemma warm_never_wins:
  "d_tier (decide 60 65536) = Warm \<and> fst (cheapest (tier_costs False (snd (DATA ! 3)) (1 / 60))) = ''RAM''
    \<and> 3 * snd (cheapest (tier_costs False (snd (DATA ! 3)) (1 / 60))) < snd (tier_costs False (snd (DATA ! 3)) (1 / 60) ! 1)
    \<and> map (snd \<circ> snd) (policy_table False (snd (DATA ! 3))) = [''RAM'', ''NVMe'', ''NVMe'', ''NVMe'', ''NVMe'', ''stateless'']"
  by (simp add: decide_def breakevens_for_def profile_for_def PROFILE_def blend_profile_def breakeven_def idle_within_def rates Let_def
      cheapest_def tier_costs_def study_rates DATA_def policy_table_def numeral_3_eq_3)

end
