(* ===== verification/Report.thy ===== *)
theory Report imports Prelude "HOL-Library.Product_Lexorder" "HOL-Library.List_Lexorder" "HOL-Library.Char_ord" "HOL-Library.Multiset" begin

text \<open>
  Reporting, \<^verbatim>\<open>dexa/bench/report.py\<close>: the aggregation of rows by compactor and ratio, the plain text table and the data of the bar
  chart. A metric that is \<^verbatim>\<open>None\<close> or not a number is \<^const>\<open>None\<close>; how a value is formatted is a parameter. Drawing and files are
  not modelled.
\<close>

section \<open>Aggregation\<close>

record metric_row =
  mr_compactor :: string
  mr_ratio :: rat
  mr_cells :: "(string, rat option) dict"

record aggregate =
  ag_compactor :: string
  ag_ratio :: rat
  ag_n :: nat
  ag_cells :: "(string, rat option) dict"

definition NUMERIC_KEYS :: "string list" where
  "NUMERIC_KEYS = [''recon_cosine'', ''recon_rel_l2'', ''acc_exact_match'', ''acc_token_f1'', ''compression_ratio'', ''memory_saving'',
     ''nbytes_saving'', ''compaction_seconds'', ''decode_gpu_seconds_compact'', ''decode_gpu_seconds_saved'']"

definition mean_known :: "rat option list \<Rightarrow> rat option" where
  "mean_known vals = (let vs = map the (filter (\<lambda>v. v \<noteq> None) vals) in if vs = [] then None else Some (sum_list vs / of_nat (length vs)))"

definition row_key :: "metric_row \<Rightarrow> string \<times> rat" where
  "row_key r = (mr_compactor r, mr_ratio r)"

fun grouped :: "('r \<Rightarrow> 'k) \<Rightarrow> 'r list \<Rightarrow> ('k, 'r list) dict \<Rightarrow> ('k, 'r list) dict" where
  "grouped key [] d = d"
| "grouped key (r # rs) d = grouped key rs (AList.update (key r) ((case map_of d (key r) of None \<Rightarrow> [] | Some g \<Rightarrow> g) @ [r]) d)"

text \<open>\<^verbatim>\<open>r.get(k)\<close>: a missing metric counts as unknown.\<close>

definition metric :: "string \<Rightarrow> metric_row \<Rightarrow> rat option" where
  "metric k r = (case map_of (mr_cells r) k of None \<Rightarrow> None | Some v \<Rightarrow> v)"

definition aggregate_group :: "(string \<times> rat) \<times> metric_row list \<Rightarrow> aggregate" where
  "aggregate_group kg = (case kg of ((cn, ratio), grp) \<Rightarrow> \<lparr>ag_compactor = cn, ag_ratio = ratio, ag_n = length grp,
     ag_cells = map (\<lambda>k. (k, mean_known (map (metric k) grp))) (filter (\<lambda>k. \<exists>r\<in>set grp. map_of (mr_cells r) k \<noteq> None) NUMERIC_KEYS)\<rparr>)"

definition report_order :: "aggregate \<Rightarrow> bool \<times> string \<times> rat" where
  "report_order a = (ag_compactor a \<noteq> ''full_kv'', ag_compactor a, ag_ratio a)"

definition aggregate_rows :: "metric_row list \<Rightarrow> aggregate list" where
  "aggregate_rows rows = sort_key report_order (map aggregate_group (grouped row_key rows []))"

section \<open>The table\<close>

datatype cell = CStr string | CNum rat

definition COLUMNS :: "(string \<times> string) list" where
  "COLUMNS = [(''compactor'', ''compactor''), (''ratio'', ''ratio''), (''recon_rel_l2'', ''recon rel_l2''), (''recon_cosine'', ''recon cos''),
     (''acc_token_f1'', ''acc f1''), (''compression_ratio'', ''compress''), (''memory_saving'', ''mem save''), (''compaction_seconds'', ''compact s'')]"

definition cell_of :: "aggregate \<Rightarrow> string \<Rightarrow> cell option" where
  "cell_of a k = (if k = ''compactor'' then Some (CStr (ag_compactor a)) else if k = ''ratio'' then Some (CNum (ag_ratio a))
     else if k = ''n'' then Some (CNum (of_nat (ag_n a)))
     else (case map_of (ag_cells a) k of Some (Some v) \<Rightarrow> Some (CNum v) | _ \<Rightarrow> None))"

text \<open>\<open>fmt k v\<close> is the format of column \<open>k\<close> applied to a value.\<close>

definition cell_text :: "(string \<Rightarrow> cell \<Rightarrow> string) \<Rightarrow> aggregate \<Rightarrow> string \<Rightarrow> string" where
  "cell_text fmt a k = (case cell_of a k of None \<Rightarrow> ''-'' | Some v \<Rightarrow> fmt k v)"

definition rjust :: "nat \<Rightarrow> string \<Rightarrow> string" where
  "rjust w s = replicate (w - length s) (CHR '' '') @ s"

definition text_cells :: "(string \<Rightarrow> cell \<Rightarrow> string) \<Rightarrow> aggregate list \<Rightarrow> string list list" where
  "text_cells fmt agg = map (\<lambda>a. map (\<lambda>(k, h). cell_text fmt a k) COLUMNS) agg"

fun col_widths :: "nat list \<Rightarrow> string list list \<Rightarrow> nat list" where
  "col_widths ws [] = ws"
| "col_widths ws (c # cs) = col_widths (map2 (\<lambda>w x. max w (length x)) ws c) cs"

definition table_line :: "nat list \<Rightarrow> string list \<Rightarrow> string" where
  "table_line ws xs = join_with ''  '' (map2 (\<lambda>x w. rjust w x) xs ws)"

definition table_lines :: "(string \<Rightarrow> cell \<Rightarrow> string) \<Rightarrow> aggregate list \<Rightarrow> string list" where
  "table_lines fmt agg = (let heads = map snd COLUMNS; cells = text_cells fmt agg; ws = col_widths (map length heads) cells in
     table_line ws heads # join_with ''  '' (map (\<lambda>w. replicate w (CHR ''-'')) ws) # map (table_line ws) cells)"

definition render_table :: "(string \<Rightarrow> cell \<Rightarrow> string) \<Rightarrow> aggregate list \<Rightarrow> string" where
  "render_table fmt agg = join_with [CHR 0x0A] (table_lines fmt agg)"

section \<open>The bars\<close>

text \<open>The height of a bar is that of the first row of its compactor and ratio; a row without the metric raises.\<close>

definition bar :: "aggregate list \<Rightarrow> string \<Rightarrow> rat \<Rightarrow> rat option result" where
  "bar rows cn ratio = (case filter (\<lambda>r. ag_compactor r = cn \<and> ag_ratio r = ratio) rows of
     [] \<Rightarrow> Inr (Some 0)
   | r # _ \<Rightarrow> (case map_of (ag_cells r) ''memory_saving'' of None \<Rightarrow> Inl (KeyError ''memory_saving'') | Some v \<Rightarrow> Inr v))"

definition memory_bars :: "aggregate list \<Rightarrow> (string \<times> rat option list) list option result" where
  "memory_bars agg = (let rows = filter (\<lambda>r. ag_compactor r \<noteq> ''full_kv'') agg in
     if rows = [] then Inr None else
     (let comps = sorted_list_of_set (set (map ag_compactor rows)); ratios = sorted_list_of_set (set (map ag_ratio rows)) in
      res_bind (res_map (\<lambda>c. res_bind (res_map (bar rows c) ratios) (\<lambda>ys. Inr (c, ys))) comps) (\<lambda>bs. Inr (Some bs))))"

section \<open>Groups\<close>

lemma grouped_ok: "dict_ok d \<Longrightarrow> dict_ok (grouped key rs d)"
  by (induction rs arbitrary: d) simp_all

lemma grouped_sum: "dsum length (grouped key rs d) = dsum length d + length rs"
proof (induction rs arbitrary: d)
  case (Cons r rs)
  have "dsum length (AList.update (key r) ((case map_of d (key r) of None \<Rightarrow> [] | Some g \<Rightarrow> g) @ [r]) d) = Suc (dsum length d)"
  proof (cases "map_of d (key r)")
    case None then show ?thesis by (simp add: dsum_update_new)
  next
    case (Some g) then show ?thesis using dsum_update_old [of d "key r" g length "g @ [r]"] by simp
  qed
  then show ?case using Cons by simp
qed simp

lemma grouped_get:
  "map_of (grouped key rs d) k = (let g = filter (\<lambda>r. key r = k) rs in
     case map_of d k of Some g0 \<Rightarrow> Some (g0 @ g) | None \<Rightarrow> if g = [] then None else Some g)"
  by (induction rs arbitrary: d) (auto simp: Let_def split: option.splits)

lemma grouped_mem:
  "(k, g) \<in> set (grouped key rs []) \<longleftrightarrow> g = filter (\<lambda>r. key r = k) rs \<and> g \<noteq> []"
proof -
  have "dict_ok (grouped key rs [])" by (simp add: grouped_ok)
  then have "(k, g) \<in> set (grouped key rs []) \<longleftrightarrow> map_of (grouped key rs []) k = Some g" by simp
  then show ?thesis by (auto simp: grouped_get Let_def)
qed

lemma mean_known_bounds:
  assumes "mean_known vals = Some m"
  shows "\<exists>lo hi. Some lo \<in> set vals \<and> Some hi \<in> set vals \<and> lo \<le> m \<and> m \<le> hi"
proof -
  define vs where "vs = map the (filter (\<lambda>v. v \<noteq> None) vals)"
  have v: "vs \<noteq> []" "m = sum_list vs / of_nat (length vs)" using assms by (auto simp: mean_known_def Let_def vs_def split: if_splits)
  have mem: "Some x \<in> set vals" if "x \<in> set vs" for x using that by (auto simp: vs_def)
  have n: "0 < (of_nat (length vs) :: rat)" using v(1) by simp
  have "sum_list (map (\<lambda>x. Min (set vs)) vs) \<le> sum_list (map (\<lambda>x. x) vs)" by (rule sum_list_mono) simp
  then have "Min (set vs) \<le> m" using n by (simp add: v(2) sum_list_triv pos_le_divide_eq mult.commute)
  moreover have "sum_list (map (\<lambda>x. x) vs) \<le> sum_list (map (\<lambda>x. Max (set vs)) vs)" by (rule sum_list_mono) simp
  then have "m \<le> Max (set vs)" using n by (simp add: v(2) sum_list_triv pos_divide_le_eq mult.commute)
  moreover have "Min (set vs) \<in> set vs" "Max (set vs) \<in> set vs" using v(1) by simp_all
  ultimately show ?thesis using mem by blast
qed

section \<open>Widths\<close>

lemma length_widths: "\<forall>c\<in>set cs. length c = length ws \<Longrightarrow> length (col_widths ws cs) = length ws"
  by (induction cs arbitrary: ws) simp_all

lemma widths_ge: "\<forall>c\<in>set cs. length c = length ws \<Longrightarrow> i < length ws \<Longrightarrow> ws ! i \<le> col_widths ws cs ! i"
proof (induction cs arbitrary: ws)
  case (Cons c cs)
  then show ?case using Cons.IH [of "map2 (\<lambda>w x. max w (length x)) ws c"] by (simp add: max_def split: if_splits)
qed simp

lemma widths_fit:
  "\<forall>c\<in>set cs. length c = length ws \<Longrightarrow> c \<in> set cs \<Longrightarrow> i < length ws \<Longrightarrow> length (c ! i) \<le> col_widths ws cs ! i"
proof (induction cs arbitrary: ws)
  case (Cons x cs)
  let ?ws = "map2 (\<lambda>w x. max w (length x)) ws x"
  show ?case
  proof (cases "c \<in> set cs")
    case True then show ?thesis using Cons.IH [of ?ws] Cons.prems by simp
  next
    case False
    then have "?ws ! i \<le> col_widths ws (x # cs) ! i" "length (c ! i) \<le> ?ws ! i" using Cons.prems widths_ge [of cs ?ws i] by auto
    then show ?thesis by simp
  qed
qed simp

lemma join_length: "xs \<noteq> [] \<Longrightarrow> length (join_with sep xs) = sum_list (map length xs) + length sep * (length xs - 1)"
proof (induction sep xs rule: join_with.induct)
  case (3 sep x y ys)
  then show ?case by simp
qed simp_all

lemma table_line_length:
  assumes "length xs = length ws" "ws \<noteq> []" "\<And>i. i < length ws \<Longrightarrow> length (xs ! i) \<le> ws ! i"
  shows "length (table_line ws xs) = sum_list ws + 2 * (length ws - 1)"
proof -
  have "map length (map2 (\<lambda>x w. rjust w x) xs ws) = ws"
    by (rule nth_equalityI) (use assms in \<open>auto simp: rjust_def\<close>)
  moreover have "map2 (\<lambda>x w. rjust w x) xs ws \<noteq> []" using assms(1,2) by (cases xs; cases ws) auto
  ultimately show ?thesis using assms(1) unfolding table_line_def by (subst join_length) auto
qed

section \<open>Properties\<close>

text \<open>The report accounts for every row. No two lines have the same compactor and ratio, each line counts the rows it averages
  and together they count all rows; a mean lies between two of the values it averages; the uncompacted baseline comes first, then the
  compactors and ratios in order; and every line of the printed table has the same length, so no column is ever cut or shifted.\<close>

theorem report_sound:
  "sorted (map report_order (aggregate_rows rows)) \<and> distinct (map (\<lambda>a. (ag_compactor a, ag_ratio a)) (aggregate_rows rows))
    \<and> sum_list (map ag_n (aggregate_rows rows)) = length rows
    \<and> (\<forall>a\<in>set (aggregate_rows rows). ag_n a = length (filter (\<lambda>r. row_key r = (ag_compactor a, ag_ratio a)) rows)
      \<and> (\<forall>k m. map_of (ag_cells a) k = Some (Some m) \<longrightarrow> (\<exists>r\<in>set rows. \<exists>s\<in>set rows. \<exists>lo hi. row_key r = (ag_compactor a, ag_ratio a)
          \<and> row_key s = (ag_compactor a, ag_ratio a) \<and> metric k r = Some lo \<and> metric k s = Some hi \<and> lo \<le> m \<and> m \<le> hi)))
    \<and> (\<exists>w. \<forall>l\<in>set (table_lines fmt agg). length l = w)"
proof -
  let ?gs = "grouped row_key rows []" and ?as = "aggregate_rows rows"
  have m: "mset ?as = mset (map aggregate_group ?gs)" unfolding aggregate_rows_def by (rule mset_sort)
  have g: "mset (map f ?as) = mset (map f (map aggregate_group ?gs))" for f :: "aggregate \<Rightarrow> 'b"
    by (simp only: mset_map m)
  have "map (\<lambda>a. (ag_compactor a, ag_ratio a)) (map aggregate_group ?gs) = map fst ?gs"
    by (auto simp: aggregate_group_def split: prod.splits)
  with g have keys: "mset (map (\<lambda>a. (ag_compactor a, ag_ratio a)) ?as) = mset (map fst ?gs)" by metis
  have "map ag_n (map aggregate_group ?gs) = map (\<lambda>p. length (snd p)) ?gs"
    by (auto simp: aggregate_group_def split: prod.splits)
  with g have ns: "mset (map ag_n ?as) = mset (map (\<lambda>p. length (snd p)) ?gs)" by metis
  have d: "distinct (map (\<lambda>a. (ag_compactor a, ag_ratio a)) ?as)"
    using grouped_ok [of "[]" row_key rows] mset_eq_imp_distinct_iff [OF keys] by simp
  have "sum_list (map ag_n ?as) = sum_mset (mset (map ag_n ?as))" by (simp only: sum_mset_sum_list)
  also have "\<dots> = dsum length ?gs" unfolding ns by (simp only: sum_mset_sum_list dsum_def)
  finally have n: "sum_list (map ag_n ?as) = length rows" by (simp add: grouped_sum)
  have each: "ag_n a = length (filter (\<lambda>r. row_key r = (ag_compactor a, ag_ratio a)) rows)
      \<and> (\<forall>k m. map_of (ag_cells a) k = Some (Some m) \<longrightarrow> (\<exists>r\<in>set rows. \<exists>s\<in>set rows. \<exists>lo hi. row_key r = (ag_compactor a, ag_ratio a)
          \<and> row_key s = (ag_compactor a, ag_ratio a) \<and> metric k r = Some lo \<and> metric k s = Some hi \<and> lo \<le> m \<and> m \<le> hi))"
    if "a \<in> set ?as" for a
  proof -
    have "a \<in> set (map aggregate_group ?gs)" using that by (metis m set_mset_mset)
    then obtain k0 g where g: "(k0, g) \<in> set ?gs" "a = aggregate_group (k0, g)" by auto
    then have e: "g = filter (\<lambda>r. row_key r = k0) rows" "k0 = (ag_compactor a, ag_ratio a)" "ag_n a = length g"
      by (auto simp: grouped_mem aggregate_group_def split: prod.splits)
    have "\<exists>r\<in>set g. \<exists>s\<in>set g. \<exists>lo hi. metric k r = Some lo \<and> metric k s = Some hi \<and> lo \<le> m \<and> m \<le> hi"
      if "map_of (ag_cells a) k = Some (Some m)" for k m
    proof -
      have "mean_known (map (metric k) g) = Some m"
        using map_of_SomeD [OF that] unfolding g(2) by (auto simp: aggregate_group_def split: prod.splits)
      from mean_known_bounds [OF this] obtain lo hi where b: "Some lo \<in> metric k ` set g" "Some hi \<in> metric k ` set g" "lo \<le> m" "m \<le> hi"
        by auto
      then obtain r s where "r \<in> set g" "metric k r = Some lo" "s \<in> set g" "metric k s = Some hi" by (metis imageE)
      with b(3,4) show ?thesis by blast
    qed
    then show ?thesis using e by fastforce
  qed
  have "\<exists>w. \<forall>l\<in>set (table_lines fmt agg). length l = w"
  proof -
    define cs where "cs = text_cells fmt agg"
    define ws where "ws = col_widths (map length (map snd COLUMNS)) cs"
    have c: "\<forall>c\<in>set cs. length c = length (map length (map snd COLUMNS))" by (auto simp: cs_def text_cells_def)
    have l: "length ws = length COLUMNS" using length_widths [OF c] by (simp add: ws_def)
    have "COLUMNS \<noteq> []" by (simp add: COLUMNS_def)
    then have ne: "ws \<noteq> []" using l by auto
    let ?w = "sum_list ws + 2 * (length ws - 1)"
    have "length (table_line ws (map snd COLUMNS)) = ?w"
      using widths_ge [OF c] l by (intro table_line_length ne) (auto simp: ws_def)
    moreover have "length (table_line ws x) = ?w" if "x \<in> set cs" for x
      using widths_fit [OF c that] c that l by (intro table_line_length ne) (auto simp: ws_def)
    moreover have "length (join_with ''  '' (map (\<lambda>w. replicate w (CHR ''-'')) ws)) = ?w"
      using ne by (simp add: join_length comp_def)
    moreover have "table_lines fmt agg = table_line ws (map snd COLUMNS) # join_with ''  '' (map (\<lambda>w. replicate w (CHR ''-'')) ws) # map (table_line ws) cs"
      by (simp add: table_lines_def Let_def ws_def cs_def)
    ultimately show ?thesis by (intro exI [of _ ?w]) auto
  qed
  moreover have "sorted (map report_order ?as)" by (simp add: aggregate_rows_def)
  ultimately show ?thesis using d n each by blast
qed

definition demo_rows :: "metric_row list" where
  "demo_rows = [\<lparr>mr_compactor = ''snapkv'', mr_ratio = 8, mr_cells = [(''acc_token_f1'', Some (9/10))]\<rparr>,
     \<lparr>mr_compactor = ''full_kv'', mr_ratio = 1, mr_cells = [(''acc_token_f1'', Some 1)]\<rparr>,
     \<lparr>mr_compactor = ''snapkv'', mr_ratio = 8, mr_cells = [(''acc_token_f1'', Some (7/10))]\<rparr>]"

definition demo_line :: aggregate where
  "demo_line = \<lparr>ag_compactor = ''snapkv'', ag_ratio = 8, ag_n = 2, ag_cells = [(''acc_token_f1'', Some (8/10))]\<rparr>"

lemma demo_aggregated: "demo_line \<in> set (aggregate_rows demo_rows)"
  by (simp add: aggregate_rows_def demo_rows_def row_key_def aggregate_group_def NUMERIC_KEYS_def mean_known_def metric_def demo_line_def del: not_None_eq)

theorem report_sound_witness:
  "sum_list (map ag_n (aggregate_rows demo_rows)) = 3 \<and> ag_n demo_line = length (filter (\<lambda>r. row_key r = (''snapkv'', 8)) demo_rows)
    \<and> (\<exists>r\<in>set demo_rows. \<exists>lo. metric ''acc_token_f1'' r = Some lo \<and> lo \<le> 8/10)"
proof -
  have f: "map_of (ag_cells demo_line) ''acc_token_f1'' = Some (Some (8/10))" "(ag_compactor demo_line, ag_ratio demo_line) = (''snapkv'', 8)"
    "length demo_rows = 3" by (simp_all add: demo_line_def demo_rows_def)
  note s = report_sound [of demo_rows "\<lambda>k v. k" "[]"]
  from s have "sum_list (map ag_n (aggregate_rows demo_rows)) = 3" unfolding f(3) by blast
  moreover from s demo_aggregated have "ag_n demo_line = length (filter (\<lambda>r. row_key r = (''snapkv'', 8)) demo_rows)"
    unfolding f(2) [symmetric] by blast
  moreover from s demo_aggregated f(1) have "\<exists>r\<in>set demo_rows. \<exists>lo. metric ''acc_token_f1'' r = Some lo \<and> lo \<le> 8/10" by blast
  ultimately show ?thesis by blast
qed

end
