(* ===== verification/RunConfig.thy ===== *)
theory RunConfig imports Prelude begin

text \<open>
  Configured runs, \<^verbatim>\<open>dexa/bench/config.py\<close> and the dispatch of \<^verbatim>\<open>bench/run.py\<close>: a file of settings over defaults, one section per suite,
  the backend that is named and the suites that are run. A file is the value its parser returned; an object of a
  class of settings is the dictionary of its fields. The suites themselves are parameters here.
\<close>

section \<open>Values and defaults\<close>

datatype json = JNull | JBool bool | JNum rat | JStr string | JList "json list" | JObj "(string \<times> json) list"

definition truthy :: "json \<Rightarrow> bool" where
  "truthy j = (case j of JNull \<Rightarrow> False | JBool b \<Rightarrow> b | JNum x \<Rightarrow> x \<noteq> 0 | JStr s \<Rightarrow> s \<noteq> [] | JList xs \<Rightarrow> xs \<noteq> [] | JObj kvs \<Rightarrow> kvs \<noteq> [])"

definition niah_defaults :: "(string, json) dict" where
  "niah_defaults = [(''enabled'', JBool True), (''task'', JStr ''niah_single''), (''lengths'', JList [JNum 800]),
     (''ratios'', JList (map JNum [8, 16, 32, 64, 128])), (''seeds'', JNum 4), (''ref_strategy'', JStr ''self_study''), (''n_ref'', JNum 256),
     (''compactors'', JList (map JStr [''attention_matching'', ''heavy_hitter'', ''snapkv'', ''recent_window'', ''random_subset''])),
     (''am'', JObj [(''alloc'', JStr ''sensitivity''), (''ridge'', JNum (5/100)), (''mass_frac'', JNum (1/2)), (''recent_frac'', JNum (1/10))])]"

definition agentic_defaults :: "(string, json) dict" where
  "agentic_defaults = [(''enabled'', JBool True), (''turns'', JNum 16), (''turn_tokens'', JNum 300), (''budget'', JNum 600), (''seeds'', JNum 2),
     (''n_facts'', JNum 6), (''ref_strategy'', JStr ''repeat_prefill''),
     (''strategies'', JList (map JStr [''full_kv'', ''truncate_recent'', ''dexa:attention_matching'', ''dexa:heavy_hitter''])),
     (''am'', JObj [(''alloc'', JStr ''sensitivity''), (''ridge'', JNum (5/100)), (''mass_frac'', JNum 1), (''recent_frac'', JNum 0)])]"

definition run_defaults :: "(string, json) dict" where
  "run_defaults = [(''name'', JStr ''dexa-run''), (''backend'', JStr ''hf''), (''model'', JStr ''HuggingFaceTB/SmolLM2-360M-Instruct''),
     (''device'', JStr ''cuda''), (''dtype'', JStr ''bfloat16''), (''out_dir'', JStr ''benchmarks/out/run''), (''plots'', JBool True),
     (''cost'', JObj []), (''extra'', JObj [])]"

record run_conf =
  rc_top :: "(string, json) dict"
  rc_niah :: "(string, json) dict"
  rc_agentic :: "(string, json) dict"

section \<open>Loading\<close>

text \<open>An empty YAML file is an empty dictionary; an empty JSON value is not replaced.\<close>

definition load_raw :: "bool \<Rightarrow> json result \<Rightarrow> json result" where
  "load_raw yaml parsed = res_bind parsed (\<lambda>j. Inr (if yaml \<and> \<not> truthy j then JObj [] else j))"

fun updated :: "(string, json) dict \<Rightarrow> (string \<times> json) list \<Rightarrow> (string, json) dict" where
  "updated d [] = d"
| "updated d ((k, v) # kvs) = updated (AList.update k v d) kvs"

text \<open>\<^verbatim>\<open>Suite(**{**defaults, **section})\<close>: a section that is no dictionary, or has a key that is no field, is a \<^verbatim>\<open>TypeError\<close>.\<close>

definition suite_fields :: "(string, json) dict \<Rightarrow> json option \<Rightarrow> (string, json) dict result" where
  "suite_fields defaults j = (case j of
     None \<Rightarrow> Inr defaults
   | Some v \<Rightarrow> if \<not> truthy v then Inr defaults else
      (case v of JObj kvs \<Rightarrow> (if \<exists>kv\<in>set kvs. fst kv \<notin> fst ` set defaults then Inl TypeError else Inr (updated defaults kvs))
       | _ \<Rightarrow> Inl TypeError))"

definition load_config :: "json \<Rightarrow> run_conf result" where
  "load_config raw = (case raw of
     JObj kvs \<Rightarrow> res_bind (suite_fields niah_defaults (map_of kvs ''niah'')) (\<lambda>niah.
       res_bind (suite_fields agentic_defaults (map_of kvs ''agentic'')) (\<lambda>agentic.
       (let rest = AList.delete ''agentic'' (AList.delete ''niah'' kvs); unknown = filter (\<lambda>kv. fst kv \<notin> fst ` set run_defaults) rest in
        if unknown \<noteq> [] then Inl (ValueError ''unknown config keys'')
        else Inr \<lparr>rc_top = updated run_defaults rest, rc_niah = niah, rc_agentic = agentic\<rparr>)))
   | JList _ \<Rightarrow> Inl TypeError
   | _ \<Rightarrow> Inl AttributeError)"

section \<open>Running\<close>

datatype backend_kind = FakeKind | HfKind json json json | VllmKind json json

definition field :: "(string, json) dict \<Rightarrow> string \<Rightarrow> json" where
  "field d k = (case map_of d k of Some v \<Rightarrow> v | None \<Rightarrow> JNull)"

definition backend_of :: "run_conf \<Rightarrow> backend_kind result" where
  "backend_of cfg = (let f = field (rc_top cfg) in
     if f ''backend'' = JStr ''fake'' then Inr FakeKind
     else if f ''backend'' = JStr ''hf'' then Inr (HfKind (f ''model'') (f ''device'') (f ''dtype''))
     else if f ''backend'' = JStr ''vllm'' then Inr (VllmKind (f ''model'') (f ''dtype''))
     else Inl (ValueError ''unknown backend''))"

text \<open>
  \<^verbatim>\<open>run_config\<close> up to its files: the backend is built first, then each enabled suite runs in turn and adds its results. \<open>cost\<close> builds the
  cost model from its overrides, which are only looked at when there are any.
\<close>

definition run_suites :: "(backend_kind \<Rightarrow> 'b result) \<Rightarrow> (json option \<Rightarrow> 'm result) \<Rightarrow> ('b \<Rightarrow> (string, json) dict \<Rightarrow> 'r result)
    \<Rightarrow> ('b \<Rightarrow> 'm \<Rightarrow> (string, json) dict \<Rightarrow> 'r result) \<Rightarrow> run_conf \<Rightarrow> (string \<times> 'r) list result" where
  "run_suites build cost niah agentic cfg = res_bind (backend_of cfg) (\<lambda>k. res_bind (build k) (\<lambda>b.
     res_bind (cost (let j = field (rc_top cfg) ''cost'' in if truthy j then Some j else None)) (\<lambda>m.
     res_bind (if truthy (field (rc_niah cfg) ''enabled'') then res_bind (niah b (rc_niah cfg)) (\<lambda>r. Inr [(''niah'', r)]) else Inr []) (\<lambda>r1.
     res_bind (if truthy (field (rc_agentic cfg) ''enabled'') then res_bind (agentic b m (rc_agentic cfg)) (\<lambda>r. Inr [(''agentic'', r)]) else Inr []) (\<lambda>r2.
       Inr (r1 @ r2))))))"

section \<open>Lookups\<close>

lemma updated_get: "dict_ok kvs \<Longrightarrow> map_of (updated d kvs) k = (case map_of kvs k of Some v \<Rightarrow> Some v | None \<Rightarrow> map_of d k)"
proof (induction d kvs rule: updated.induct)
  case (2 d k' v kvs)
  then have "map_of kvs k' = None" by (simp add: map_of_eq_None_iff)
  then show ?case using 2 by (auto split: option.splits)
qed simp

lemma updated_keys: "fst ` set kvs \<subseteq> fst ` set d \<Longrightarrow> map fst (updated d kvs) = map fst d"
proof (induction d kvs rule: updated.induct)
  case (2 d k v kvs)
  then have "map fst (AList.update k v d) = map fst d" by (simp add: AList.update_keys)
  moreover from this have "fst ` set (AList.update k v d) = fst ` set d" by (metis list.set_map)
  ultimately show ?case using 2 by simp
qed simp

text \<open>What a section sets: its own keys over the defaults.\<close>

definition settings :: "json option \<Rightarrow> (string, json) dict" where
  "settings j = (case j of Some (JObj kvs) \<Rightarrow> kvs | _ \<Rightarrow> [])"

lemma suite_fields_get:
  assumes "suite_fields defaults j = Inr d" "dict_ok (settings j)"
  shows "map fst d = map fst defaults \<and> map_of d k = (case map_of (settings j) k of Some v \<Rightarrow> Some v | None \<Rightarrow> map_of defaults k)"
proof (cases "\<exists>v. j = Some v \<and> truthy v")
  case True
  then obtain v where v: "j = Some v" "truthy v" by blast
  then obtain kvs where kvs: "v = JObj kvs" "fst ` set kvs \<subseteq> fst ` set defaults" "d = updated defaults kvs"
    using assms(1) by (cases v) (auto simp: suite_fields_def split: if_splits)
  then show ?thesis using assms(2) updated_get [of kvs defaults k] updated_keys [OF kvs(2)] by (simp add: settings_def v(1))
next
  case False
  then have "d = defaults" using assms(1) by (auto simp: suite_fields_def split: option.splits if_splits)
  moreover have "settings j = []" using False by (auto simp: settings_def truthy_def split: option.splits json.splits)
  ultimately show ?thesis by simp
qed

section \<open>Properties\<close>

text \<open>A configuration is its file over the defaults and nothing else. A dictionary that loads has only known keys, every setting of
  the run and of both suites has the value the file gives it and otherwise its default, no field is added or lost, and a key that
  is not known is refused, wherever it stands.\<close>

theorem config_sound:
  assumes "dict_ok kvs" "dict_ok (settings (map_of kvs ''niah''))" "dict_ok (settings (map_of kvs ''agentic''))"
  shows "case load_config (JObj kvs) of
      Inr c \<Rightarrow> fst ` set kvs \<subseteq> insert ''niah'' (insert ''agentic'' (fst ` set run_defaults))
        \<and> fst ` set (settings (map_of kvs ''niah'')) \<subseteq> fst ` set niah_defaults \<and> fst ` set (settings (map_of kvs ''agentic'')) \<subseteq> fst ` set agentic_defaults
        \<and> map fst (rc_top c) = map fst run_defaults \<and> map fst (rc_niah c) = map fst niah_defaults \<and> map fst (rc_agentic c) = map fst agentic_defaults
        \<and> map_of (rc_top c) k = (if k = ''niah'' \<or> k = ''agentic'' then None else (case map_of kvs k of Some v \<Rightarrow> Some v | None \<Rightarrow> map_of run_defaults k))
        \<and> map_of (rc_niah c) k = (case map_of (settings (map_of kvs ''niah'')) k of Some v \<Rightarrow> Some v | None \<Rightarrow> map_of niah_defaults k)
        \<and> map_of (rc_agentic c) k = (case map_of (settings (map_of kvs ''agentic'')) k of Some v \<Rightarrow> Some v | None \<Rightarrow> map_of agentic_defaults k)
    | Inl e \<Rightarrow> e = TypeError \<or> (\<exists>u\<in>fst ` set kvs. u \<notin> insert ''niah'' (insert ''agentic'' (fst ` set run_defaults)))"
proof (cases "load_config (JObj kvs)")
  case (Inl e)
  have err: "x = TypeError" if "suite_fields d j = Inl x" for d j x
    using that by (auto simp: suite_fields_def split: option.splits json.splits if_splits)
  show ?thesis
  proof (cases "filter (\<lambda>kv. fst kv \<notin> fst ` set run_defaults) (AList.delete ''agentic'' (AList.delete ''niah'' kvs)) = []")
    case True
    then show ?thesis using Inl err
      by (cases "suite_fields niah_defaults (map_of kvs ''niah'')"; cases "suite_fields agentic_defaults (map_of kvs ''agentic'')")
        (auto simp: load_config_def Let_def)
  next
    case False
    then obtain u where "u \<in> set kvs" "fst u \<noteq> ''niah''" "fst u \<noteq> ''agentic''" "fst u \<notin> fst ` set run_defaults"
      by (auto simp: filter_empty_conv AList.delete_eq)
    then have "\<exists>u\<in>fst ` set kvs. u \<notin> insert ''niah'' (insert ''agentic'' (fst ` set run_defaults))" by blast
    then show ?thesis by (simp add: Inl)
  qed
next
  case (Inr c)
  let ?rest = "AList.delete ''agentic'' (AList.delete ''niah'' kvs)"
  from Inr obtain niah agentic where s: "suite_fields niah_defaults (map_of kvs ''niah'') = Inr niah"
    "suite_fields agentic_defaults (map_of kvs ''agentic'') = Inr agentic" and
    known: "filter (\<lambda>kv. fst kv \<notin> fst ` set run_defaults) ?rest = []" and
    c: "c = \<lparr>rc_top = updated run_defaults ?rest, rc_niah = niah, rc_agentic = agentic\<rparr>"
    by (auto simp: load_config_def Let_def split: if_splits)
  have sub: "fst ` set ?rest \<subseteq> fst ` set run_defaults" using known by (auto simp: filter_empty_conv)
  have k: "fst ` set kvs \<subseteq> insert ''niah'' (insert ''agentic'' (fst ` set run_defaults))"
  proof
    fix u assume "u \<in> fst ` set kvs"
    then obtain v where "(u, v) \<in> set kvs" by auto
    then have "u \<in> {''niah'', ''agentic''} \<or> (u, v) \<in> set ?rest" by (auto simp: AList.delete_eq)
    moreover have "(u, v) \<in> set ?rest \<Longrightarrow> u \<in> fst ` set run_defaults" using sub by force
    ultimately show "u \<in> insert ''niah'' (insert ''agentic'' (fst ` set run_defaults))" by blast
  qed
  have secs: "fst ` set (settings j) \<subseteq> fst ` set d" if "suite_fields d j = Inr x" for d j x
    using that by (auto simp: suite_fields_def settings_def truthy_def split: option.splits json.splits if_splits)
  have "dict_ok ?rest" using assms(1) by simp
  then have top: "map_of (rc_top c) k = (case map_of ?rest k of Some v \<Rightarrow> Some v | None \<Rightarrow> map_of run_defaults k)"
    "map fst (rc_top c) = map fst run_defaults" using updated_get [of ?rest run_defaults k] updated_keys [OF sub] by (simp_all add: c)
  have d: "map_of run_defaults ''niah'' = None" "map_of run_defaults ''agentic'' = None" by (simp_all add: run_defaults_def)
  show ?thesis
    using top d k secs [OF s(1)] secs [OF s(2)] suite_fields_get [OF s(1) assms(2), of k] suite_fields_get [OF s(2) assms(3), of k]
    by (simp add: Inr c)
qed

definition demo_file :: "(string, json) dict" where
  "demo_file = [(''model'', JStr ''m''), (''niah'', JObj [(''seeds'', JNum 2)]), (''agentic'', JNull)]"

lemma demo_loads: "\<exists>c. load_config (JObj demo_file) = Inr c"
  by (simp add: load_config_def demo_file_def suite_fields_def truthy_def run_defaults_def niah_defaults_def Let_def)

theorem config_sound_witness:
  "\<exists>c. load_config (JObj demo_file) = Inr c \<and> map_of (rc_niah c) ''seeds'' = Some (JNum 2) \<and> map fst (rc_top c) = map fst run_defaults"
proof -
  obtain c where c: "load_config (JObj demo_file) = Inr c" using demo_loads by blast
  have d: "dict_ok demo_file" "dict_ok (settings (map_of demo_file ''niah''))" "dict_ok (settings (map_of demo_file ''agentic''))"
    and s: "map_of (settings (map_of demo_file ''niah'')) ''seeds'' = Some (JNum 2)"
    by (simp_all add: demo_file_def settings_def)
  from config_sound [OF d, of "''seeds''"] show ?thesis unfolding c s by (intro exI [of _ c]) simp
qed

end
