(* ===== verification/ToyDecode.thy ===== *)
theory ToyDecode imports Compaction begin

text \<open>
  The plumbing decoder of the toy backend, \<^verbatim>\<open>engine/fake.py\<close>: tokens hashed from the attention output of the last prompt token in the
  last layer, and a flat score. Python's hash and the rounding are one parameter, \<open>hsh k v\<close> for the k-th token.
\<close>

definition fake_generate :: "model_spec \<Rightarrow> (int \<Rightarrow> nat \<Rightarrow> nat \<Rightarrow> vec) \<Rightarrow> (nat \<Rightarrow> vec \<Rightarrow> int) \<Rightarrow> vec context_cache \<Rightarrow> int list \<Rightarrow> nat \<Rightarrow> int list result" where
  "fake_generate sp qvec hsh c prompt n =
    (let q = fake_reference_queries sp qvec (if prompt = [] then [0] else prompt) 512 in
     res_bind (attention_outputs sp c q) (\<lambda>ao. if ao = [] then Inl IndexError else
       Inr (map (\<lambda>k. \<bar>hsh k (concat (map last (last ao)))\<bar> mod 50000) [0..<n])))"

definition fake_score :: "int list \<Rightarrow> real list" where
  "fake_score target = replicate (length target) (- ln 50000)"

definition fake_generate_and_extend :: "model_spec \<Rightarrow> vec kv_vec \<Rightarrow> (int \<Rightarrow> nat \<Rightarrow> nat \<Rightarrow> vec) \<Rightarrow> (nat \<Rightarrow> vec \<Rightarrow> int) \<Rightarrow> vec kvcache \<Rightarrow> int list \<Rightarrow> nat
    \<Rightarrow> (int list \<times> vec kvcache) result" where
  "fake_generate_and_extend sp vec qvec hsh c prompt n = res_bind (fake_generate sp qvec hsh (Raw c) prompt n) (\<lambda>resp.
     Inr (resp, fake_extend sp vec c (prompt @ resp)))"

text \<open>A longer generation continues a shorter one, every token is in the vocabulary, and keeping all keys generates the same.\<close>

lemma fake_generate_prefix:
  assumes "fake_generate sp qvec hsh c prompt n = Inr xs" "m \<le> n"
  shows "fake_generate sp qvec hsh c prompt m = Inr (take m xs) \<and> length xs = n \<and> set xs \<subseteq> {0..<50000}"
proof -
  let ?q = "fake_reference_queries sp qvec (if prompt = [] then [0] else prompt) 512"
  from assms(1) obtain ao where ao: "attention_outputs sp c ?q = Inr ao" "ao \<noteq> []"
    and xs: "xs = map (\<lambda>k. \<bar>hsh k (concat (map last (last ao)))\<bar> mod 50000) [0..<n]"
    unfolding fake_generate_def Let_def res_bind_Inr_iff by (metis sum.inject(2) sum.distinct(1))
  have "fake_generate sp qvec hsh c prompt m = Inr (map (\<lambda>k. \<bar>hsh k (concat (map last (last ao)))\<bar> mod 50000) [0..<m])"
    unfolding fake_generate_def Let_def ao(1) using ao(2) by simp
  moreover have "take m xs = map (\<lambda>k. \<bar>hsh k (concat (map last (last ao)))\<bar> mod 50000) [0..<m]"
    unfolding xs using assms(2) by (simp add: take_map)
  moreover have "\<bar>x\<bar> mod 50000 \<in> {0..<50000}" for x :: int by simp
  then have "set xs \<subseteq> {0..<50000}" unfolding xs by auto
  ultimately show ?thesis by (simp add: xs)
qed

lemma fake_generate_full:
  assumes "full_kv c = Inr cc" "kv_shaped c" "n_kv_heads (kv_spec c) dvd n_q_heads (kv_spec c)"
  shows "fake_generate (kv_spec c) qvec hsh (Compact cc) prompt n = fake_generate (kv_spec c) qvec hsh (Raw c) prompt n"
  by (simp add: fake_generate_def full_kv_outputs [OF assms] Let_def)

text \<open>The grown cache is a prefill of context, prompt and response together.\<close>

lemma fake_turn_exact:
  assumes "fake_generate_and_extend sp vec qvec hsh (fake_prefill sp vec ts 0) prompt n = Inr (resp, c)"
  shows "c = fake_prefill sp vec (ts @ prompt @ resp) 0 \<and> length resp = n"
  using assms fake_generate_prefix [where m = n and n = n]
  by (auto simp: fake_generate_and_extend_def fake_extend_def tokens_or_empty_def fake_prefill_def)

end
